(* ===== verification/Flow_Prelude.thy ===== *)
theory Flow_Prelude
  imports Main "HOL-Library.Word"
begin

text \<open>
  Shared vocabulary of the development: names for the machine integers of the C++ code, the
  values an operation can fail with, and the generic facts on words, lists and results that the
  component theories use through their simplification collections.
\<close>

unbundle bit_operations_syntax

subsection \<open>Machine integers\<close>

type_synonym u8 = "8 word"
type_synonym u16 = "16 word"
type_synonym u32 = "32 word"
type_synonym u64 = "64 word"
type_synonym bytes = "u8 list"

subsection \<open>Failures as values\<close>

text \<open>
  Every way an operation of the library can leave without a normal result is a value of
  \<open>fault\<close>: a failed \<open>ASSERT\<close> (which throws \<open>internal_error\<close>), the C++ library's
  \<open>out_of_range\<close>, \<open>length_error\<close> and \<open>bad_alloc\<close>, a flow \<open>Error\<close> thrown with its code, and behaviour the
  language leaves undefined (a raw slot or a null pointer read), which no theorem of the
  development is allowed to rely on.
\<close>

datatype fault =
    Assert_failed
  | Out_of_range
  | Length_error
  | Bad_alloc
  | Thrown u16
  | Undefined_behaviour

type_synonym 'a result = "fault + 'a"

definition bind_result :: "'a result \<Rightarrow> ('a \<Rightarrow> 'b result) \<Rightarrow> 'b result" where
  "bind_result r f = (case r of Inl e \<Rightarrow> Inl e | Inr x \<Rightarrow> f x)"

definition assert_that :: "bool \<Rightarrow> unit result" where
  "assert_that b = (if b then Inr () else Inl Assert_failed)"

named_theorems result_simps \<open>unfolding of the result operations\<close>

lemma bind_result_simps [simp]:
  "bind_result (Inl e) f = Inl e"
  "bind_result (Inr x) f = f x"
  by (simp_all add: bind_result_def)

lemma bind_result_Inr_iff [result_simps]:
  "bind_result r f = Inr y \<longleftrightarrow> (\<exists>x. r = Inr x \<and> f x = Inr y)"
  by (cases r) auto

lemma assert_that_simps [simp]:
  "b \<Longrightarrow> assert_that b = Inr ()"
  "\<not> b \<Longrightarrow> assert_that b = Inl Assert_failed"
  by (simp_all add: assert_that_def)

lemma assert_that_Inr_iff [result_simps]: "assert_that b = Inr u \<longleftrightarrow> b"
  by (simp add: assert_that_def)

subsection \<open>Words\<close>

lemma unat_and_mask:
  fixes x m :: "'a::len word"
  assumes "unat m + 1 = 2 ^ k"
  shows "unat (x AND m) = unat x mod 2 ^ k"
proof -
  have "unat m = mask k"
    using assms(1) by (simp add: mask_eq_exp_minus_1)
  then have "unat (x AND m) = unat x AND mask k"
    by (simp add: unsigned_and_eq)
  also have "\<dots> = unat x mod 2 ^ k"
    by (simp add: take_bit_eq_mask [symmetric] take_bit_eq_mod)
  finally show ?thesis .
qed

lemma unat_pred_word:
  fixes x :: "'a::len word"
  assumes "x \<noteq> 0"
  shows "unat (x - 1) = unat x - 1"
  using assms by (metis unat_minus_one)

lemma unat_drop_bit_less:
  fixes x :: "'a::len word"
  assumes "x \<noteq> 0" and "0 < n"
  shows "unat (drop_bit n x) < unat x"
proof -
  have "0 < unat x" using assms(1) unat_gt_0 by blast
  moreover have "unat (drop_bit n x) = unat x div 2 ^ n"
    unfolding unat_drop_bit_eq by (rule drop_bit_eq_div)
  moreover have "1 < (2 :: nat) ^ n" using assms(2) by (rule one_less_power [rotated]) simp
  ultimately show ?thesis by simp
qed

lemma unat_u8_less [simp]: "unat (x :: u8) < 256"
  using unsigned_less [where 'b = 8, of x] by simp

lemma unat_u8_le: "unat (x :: u8) \<le> 255"
  using unat_u8_less [of x] by linarith

lemma unat_diff_step:
  fixes i e :: "'a::len word"
  assumes "i \<noteq> e"
  shows "unat (e - (i + 1)) < unat (e - i)"
proof -
  have nz: "e - i \<noteq> 0" using assms by simp
  have "e - (i + 1) = (e - i) - 1" by simp
  then have "unat (e - (i + 1)) = unat (e - i) - 1"
    using unat_pred_word [OF nz] by (simp only:)
  moreover have "0 < unat (e - i)" using nz unat_gt_0 by blast
  ultimately show ?thesis by simp
qed

end
