(* ===== verification/Deque.thy ===== *)
theory Deque
  imports Flow_Prelude
begin

text \<open>
  The double-ended queue of \<open>src/flow/Deque.h\<close>: a circular array whose size is a power of two,
  indexed by 32-bit counters \<open>begin\<close> and \<open>end\<close> through \<open>mask\<close>. A slot of the array is
  \<open>None\<close> while it is raw memory and \<open>Some x\<close> while it holds a constructed element, so every
  placement \<open>new\<close> and every explicit destructor call of the source is a step of the model.
  The theory shows that the operations implement a list (\<open>deque_rep\<close>) and interprets the
  queue contract \<open>bounded_queue\<close>, on which the notified queues of \<open>flow.h\<close> rest.
\<close>

subsection \<open>State\<close>

record 'a deque =
  arr :: "'a option list option"
  dbegin :: u32
  dend :: u32
  dmask :: u32

definition deque_new :: "'a deque" where
  "deque_new = \<lparr>arr = None, dbegin = 0, dend = 0, dmask = - 1\<rparr>"

subsection \<open>Memory slots\<close>

definition slot_get :: "'a deque \<Rightarrow> u32 \<Rightarrow> 'a result" where
  "slot_get d i =
     (case arr d of
        None \<Rightarrow> Inl Undefined_behaviour
      | Some a \<Rightarrow>
          if unat i < length a
          then (case a ! unat i of None \<Rightarrow> Inl Undefined_behaviour | Some x \<Rightarrow> Inr x)
          else Inl Undefined_behaviour)"

definition slot_construct :: "'a deque \<Rightarrow> u32 \<Rightarrow> 'a \<Rightarrow> 'a deque result" where
  "slot_construct d i x =
     (case arr d of
        None \<Rightarrow> Inl Undefined_behaviour
      | Some a \<Rightarrow>
          if unat i < length a then Inr (d\<lparr>arr := Some (a[unat i := Some x])\<rparr>)
          else Inl Undefined_behaviour)"

definition slot_destroy :: "'a deque \<Rightarrow> u32 \<Rightarrow> 'a deque result" where
  "slot_destroy d i =
     (case arr d of
        None \<Rightarrow> Inl Undefined_behaviour
      | Some a \<Rightarrow>
          if unat i < length a \<and> a ! unat i \<noteq> None
          then Inr (d\<lparr>arr := Some (a[unat i := None])\<rparr>)
          else Inl Undefined_behaviour)"

subsection \<open>Observers\<close>

definition deque_size :: "'a deque \<Rightarrow> u32" where
  "deque_size d = dend d - dbegin d"

definition deque_empty :: "'a deque \<Rightarrow> bool" where
  "deque_empty d \<longleftrightarrow> dend d = dbegin d"

definition deque_capacity :: "'a deque \<Rightarrow> u32" where
  "deque_capacity d = dmask d + 1"

definition deque_max_size :: nat where
  "deque_max_size = 2 ^ 30"

definition deque_front :: "'a deque \<Rightarrow> 'a result" where
  "deque_front d = slot_get d (dbegin d)"

definition deque_back :: "'a deque \<Rightarrow> 'a result" where
  "deque_back d = slot_get d ((dend d - 1) AND dmask d)"

definition deque_index :: "'a deque \<Rightarrow> u32 \<Rightarrow> 'a result" where
  "deque_index d i = slot_get d ((dbegin d + i) AND dmask d)"

definition deque_at :: "'a deque \<Rightarrow> int \<Rightarrow> 'a result" where
  "deque_at d i =
     (if i < 0 \<or> dend d - dbegin d \<le> word_of_int i then Inl Out_of_range
      else deque_index d (word_of_int i))"

definition deque_full :: "'a deque \<Rightarrow> bool" where
  "deque_full d \<longleftrightarrow> dend d = dbegin d + dmask d + 1"

subsection \<open>Loops over the occupied range\<close>

text \<open>
  The source runs \<open>for (int i = begin; i != end; i++)\<close>; the counter is compared with the 32-bit
  \<open>end\<close>, so it is a 32-bit counter here and the loops stop after \<open>end - begin\<close> rounds.
\<close>

function move_items ::
  "u32 \<Rightarrow> u32 \<Rightarrow> u32 \<Rightarrow> 'a deque \<Rightarrow> 'a option list \<Rightarrow> ('a deque \<times> 'a option list) result" where
  "move_items i e b d newArr =
     (if i = e then Inr (d, newArr)
      else bind_result (slot_get d (i AND dmask d)) (\<lambda>x.
           if unat (i - b) < length newArr
           then bind_result (slot_destroy d (i AND dmask d)) (\<lambda>d'.
                  move_items (i + 1) e b d' (newArr[unat (i - b) := Some x]))
           else Inl Undefined_behaviour))"
  by pat_completeness auto
termination
  by (relation "measure (\<lambda>(i, e, b, d, newArr). unat (e - i))") (auto intro: unat_diff_step)

declare move_items.simps [simp del]

function destroy_range :: "u32 \<Rightarrow> u32 \<Rightarrow> 'a deque \<Rightarrow> 'a deque result" where
  "destroy_range i e d =
     (if i = e then Inr d
      else bind_result (slot_destroy d (i AND dmask d)) (destroy_range (i + 1) e))"
  by pat_completeness auto
termination
  by (relation "measure (\<lambda>(i, e, d). unat (e - i))") (auto intro: unat_diff_step)

declare destroy_range.simps [simp del]

function copy_items :: "u32 \<Rightarrow> u32 \<Rightarrow> 'a deque \<Rightarrow> 'a deque \<Rightarrow> 'a deque result" where
  "copy_items i e r d =
     (if i < e
      then bind_result (deque_index r i) (\<lambda>x.
           bind_result (slot_construct d i x) (copy_items (i + 1) e r))
      else Inr d)"
  by pat_completeness auto
termination
  by (relation "measure (\<lambda>(i, e, r, d). unat (e - i))") (auto intro: unat_diff_step)

declare copy_items.simps [simp del]

subsection \<open>Operations\<close>

definition deque_grow :: "'a deque \<Rightarrow> 'a deque result" where
  "deque_grow d =
     (let mp1 = (case arr d of None \<Rightarrow> 4 | Some _ \<Rightarrow> unat (dmask d) + 1);
          newSize = mp1 * 2
      in if newSize > deque_max_size then Inl Bad_alloc
         else bind_result (move_items (dbegin d) (dend d) (dbegin d) d (replicate newSize None))
                (\<lambda>(d', newArr).
                   Inr (d'\<lparr>arr := Some newArr, dend := dend d' - dbegin d', dbegin := 0,
                          dmask := of_nat (newSize - 1)\<rparr>)))"

text \<open>
  \<open>push_back\<close> takes a reference.  The argument here is a value outside the deque; \<open>deque_push_back_own\<close> is the
  same code with a reference to an element of the deque itself, in the slot at the counter \<open>j\<close>: when the
  deque is full, that slot is in the array which \<open>grow\<close> has just freed.
\<close>

definition deque_push_back :: "'a deque \<Rightarrow> 'a \<Rightarrow> 'a deque result" where
  "deque_push_back d v =
     bind_result (if deque_full d then deque_grow d else Inr d) (\<lambda>d1.
     bind_result (slot_construct d1 (dend d1 AND dmask d1) v) (\<lambda>d2.
     Inr (d2\<lparr>dend := dend d2 + 1\<rparr>)))"

definition deque_push_back_own :: "'a deque \<Rightarrow> u32 \<Rightarrow> 'a deque result" where
  "deque_push_back_own d j =
     bind_result (if deque_full d then deque_grow d else Inr d) (\<lambda>d1.
     bind_result (if deque_full d then Inl Undefined_behaviour else slot_get d1 (j AND dmask d1)) (\<lambda>v.
     bind_result (slot_construct d1 (dend d1 AND dmask d1) v) (\<lambda>d2.
     Inr (d2\<lparr>dend := dend d2 + 1\<rparr>))))"

definition deque_emplace_back :: "'a deque \<Rightarrow> 'a \<Rightarrow> ('a deque \<times> 'a) result" where
  "deque_emplace_back d v =
     bind_result (if deque_full d then deque_grow d else Inr d) (\<lambda>d1.
     bind_result (slot_construct d1 (dend d1 AND dmask d1) v) (\<lambda>d2.
     bind_result (slot_get d2 (dend d2 AND dmask d2)) (\<lambda>r.
     Inr (d2\<lparr>dend := dend d2 + 1\<rparr>, r))))"

definition deque_pop_back :: "'a deque \<Rightarrow> 'a deque result" where
  "deque_pop_back d =
     bind_result (assert_that (\<not> deque_empty d)) (\<lambda>_.
     let d1 = d\<lparr>dend := dend d - 1\<rparr>
     in slot_destroy d1 (dend d1 AND dmask d1))"

definition deque_pop_front :: "'a deque \<Rightarrow> 'a deque result" where
  "deque_pop_front d =
     bind_result (assert_that (\<not> deque_empty d)) (\<lambda>_.
     bind_result (slot_destroy d (dbegin d)) (\<lambda>d1.
     Inr (if dbegin d1 = dmask d1
          then d1\<lparr>dbegin := dbegin d1 - dmask d1, dend := dend d1 - (dmask d1 + 1)\<rparr>
          else d1\<lparr>dbegin := dbegin d1 + 1\<rparr>)))"

definition deque_clear :: "'a deque \<Rightarrow> 'a deque result" where
  "deque_clear d =
     bind_result (destroy_range (dbegin d) (dend d) d) (\<lambda>d1.
     Inr (d1\<lparr>dbegin := 0, dend := 0\<rparr>))"

definition deque_cleanup :: "'a deque \<Rightarrow> 'a deque result" where
  "deque_cleanup d =
     bind_result (destroy_range (dbegin d) (dend d) d) (\<lambda>d1. Inr (d1\<lparr>arr := None\<rparr>))"

definition deque_copy :: "'a deque \<Rightarrow> 'a deque result" where
  "deque_copy r =
     (let d = \<lparr>arr = (if deque_capacity r > 0
                      then Some (replicate (unat (deque_capacity r)) None) else None),
               dbegin = 0, dend = deque_size r, dmask = dmask r\<rparr>
      in bind_result (assert_that (deque_capacity d \<ge> dend d \<or> dend d = 0)) (\<lambda>_.
         copy_items 0 (dend d) r d))"

definition deque_assign :: "'a deque \<Rightarrow> 'a deque \<Rightarrow> 'a deque result" where
  "deque_assign d r = bind_result (deque_cleanup d) (\<lambda>_. deque_copy r)"

text \<open>The move constructor and the move assignment return the new value and the moved-from one.\<close>

definition deque_move :: "'a deque \<Rightarrow> 'a deque \<times> 'a deque" where
  "deque_move r = (r, r\<lparr>arr := None, dbegin := 0, dend := 0, dmask := - 1\<rparr>)"

definition deque_move_assign :: "'a deque \<Rightarrow> 'a deque \<Rightarrow> ('a deque \<times> 'a deque) result" where
  "deque_move_assign d r = bind_result (deque_cleanup d) (\<lambda>_. Inr (deque_move r))"

function eq_items :: "u32 \<Rightarrow> 'a deque \<Rightarrow> 'a deque \<Rightarrow> bool result" where
  "eq_items i d r =
     (if i < deque_size d
      then bind_result (deque_index d i) (\<lambda>x. bind_result (deque_index r i) (\<lambda>y.
           if x \<noteq> y then Inr False else eq_items (i + 1) d r))
      else Inr True)"
  by pat_completeness auto
termination
  by (relation "measure (\<lambda>(i, d, r). unat (deque_size d - i))") (auto intro: unat_diff_step)

declare eq_items.simps [simp del]

definition deque_eq :: "'a deque \<Rightarrow> 'a deque \<Rightarrow> bool result" where
  "deque_eq d r = (if deque_size d \<noteq> deque_size r then Inr False else eq_items 0 d r)"

subsection \<open>What a deque represents\<close>

definition ring_rep :: "'a option list \<Rightarrow> nat \<Rightarrow> 'a list \<Rightarrow> bool" where
  "ring_rep a b xs \<longleftrightarrow>
     length xs \<le> length a \<and>
     (\<forall>j < length a. a ! ((b + j) mod length a) = (if j < length xs then Some (xs ! j) else None))"

definition deque_rep :: "'a deque \<Rightarrow> 'a list \<Rightarrow> bool" where
  "deque_rep d xs \<longleftrightarrow>
     (case arr d of
        None \<Rightarrow> xs = [] \<and> dbegin d = 0 \<and> dend d = 0 \<and> dmask d = - 1
      | Some a \<Rightarrow>
          (\<exists>k \<in> {3..30}. length a = 2 ^ k) \<and> unat (dmask d) + 1 = length a \<and>
          unat (dbegin d) < length a \<and> unat (dend d) = unat (dbegin d) + length xs \<and>
          ring_rep a (unat (dbegin d)) xs)"

definition deque_list :: "'a deque \<Rightarrow> 'a list" where
  "deque_list d =
     (case arr d of
        None \<Rightarrow> []
      | Some a \<Rightarrow>
          map (\<lambda>j. the (a ! ((unat (dbegin d) + j) mod length a)))
            [0..<unat (dend d) - unat (dbegin d)])"

subsection \<open>Facts on rings\<close>

named_theorems ring_intros \<open>how updates of the array change what it represents\<close>

lemma ring_rep_length: "ring_rep a b xs \<Longrightarrow> length xs \<le> length a"
  by (simp add: ring_rep_def)

lemma ring_rep_nth:
  assumes "ring_rep a b xs" and "j < length xs"
  shows "a ! ((b + j) mod length a) = Some (xs ! j)"
proof -
  have "j < length a" using ring_rep_length [OF assms(1)] assms(2) by simp
  with assms show ?thesis unfolding ring_rep_def by simp
qed

lemma ring_pos_inj:
  fixes L :: nat
  assumes "i < L" and "j < L" and "(b + i) mod L = (b + j) mod L"
  shows "i = j"
proof (rule ccontr)
  assume "i \<noteq> j"
  then consider "i < j" | "j < i" by linarith
  then show False
  proof cases
    case 1
    then have "L dvd (b + j) - (b + i)"
      using assms(3) by (metis add_le_mono less_imp_le_nat mod_eq_dvd_iff_nat order_refl)
    then show False using 1 assms(2) by (auto dest: dvd_imp_le)
  next
    case 2
    then have "L dvd (b + i) - (b + j)"
      using assms(3) by (metis add_le_mono less_imp_le_nat mod_eq_dvd_iff_nat order_refl)
    then show False using 2 assms(1) by (auto dest: dvd_imp_le)
  qed
qed

lemma nth_update_mod [simp]:
  "a \<noteq> [] \<Longrightarrow> a[n mod length a := y] ! (n mod length a) = y"
  by simp

lemma ring_rep_snoc [ring_intros]:
  assumes "ring_rep a b xs" and "length xs < length a"
  shows "ring_rep (a[(b + length xs) mod length a := Some x]) b (xs @ [x])"
  unfolding ring_rep_def
proof (intro conjI allI impI)
  show "length (xs @ [x]) \<le> length (a[(b + length xs) mod length a := Some x])"
    using assms(2) by simp
next
  fix j assume "j < length (a[(b + length xs) mod length a := Some x])"
  then have j: "j < length a" by simp
  show "a[(b + length xs) mod length a := Some x]
          ! ((b + j) mod length (a[(b + length xs) mod length a := Some x])) =
        (if j < length (xs @ [x]) then Some ((xs @ [x]) ! j) else None)"
  proof (cases "j = length xs")
    case True
    moreover have "a \<noteq> []" using j by auto
    ultimately show ?thesis by simp
  next
    case False
    then have "(b + j) mod length a \<noteq> (b + length xs) mod length a"
      using ring_pos_inj [OF j assms(2)] by blast
    with False j assms(1) show ?thesis
      by (auto simp: ring_rep_def nth_append)
  qed
qed

lemma ring_rep_tl [ring_intros]:
  assumes "ring_rep a b (x # xs)"
  shows "ring_rep (a[b mod length a := None]) (Suc b) xs"
  unfolding ring_rep_def
proof (intro conjI allI impI)
  have len: "Suc (length xs) \<le> length a" using ring_rep_length [OF assms] by simp
  then show "length xs \<le> length (a[b mod length a := None])" by simp
  fix j assume "j < length (a[b mod length a := None])"
  then have j: "j < length a" by simp
  show "a[b mod length a := None] ! ((Suc b + j) mod length (a[b mod length a := None])) =
        (if j < length xs then Some (xs ! j) else None)"
  proof (cases "Suc j = length a")
    case True
    then have "(Suc b + j) mod length a = b mod length a"
      by (metis add_Suc_right add_Suc mod_add_self2)
    moreover have "a \<noteq> []" using j by auto
    ultimately show ?thesis using len True by simp
  next
    case False
    then have sj: "Suc j < length a" using j by simp
    then have "(b + Suc j) mod length a \<noteq> (b + 0) mod length a"
      using ring_pos_inj [OF sj, of 0 b] j by (metis gr_implies_not0 nat.distinct(1) not_gr_zero)
    moreover have "a ! ((b + Suc j) mod length a) =
        (if Suc j < length (x # xs) then Some ((x # xs) ! Suc j) else None)"
      using assms sj unfolding ring_rep_def by blast
    ultimately show ?thesis by simp
  qed
qed

lemma ring_rep_butlast [ring_intros]:
  assumes "ring_rep a b (xs @ [x])"
  shows "ring_rep (a[(b + length xs) mod length a := None]) b xs"
  unfolding ring_rep_def
proof (intro conjI allI impI)
  have len: "length xs < length a" using ring_rep_length [OF assms] by simp
  then show "length xs \<le> length (a[(b + length xs) mod length a := None])" by simp
  fix j assume "j < length (a[(b + length xs) mod length a := None])"
  then have j: "j < length a" by simp
  show "a[(b + length xs) mod length a := None]
          ! ((b + j) mod length (a[(b + length xs) mod length a := None])) =
        (if j < length xs then Some (xs ! j) else None)"
  proof (cases "j = length xs")
    case True
    moreover have "a \<noteq> []" using j by auto
    ultimately show ?thesis by simp
  next
    case False
    then have "(b + j) mod length a \<noteq> (b + length xs) mod length a"
      using ring_pos_inj [OF j len] by blast
    with False j assms show ?thesis
      by (auto simp: ring_rep_def nth_append)
  qed
qed

lemma ring_rep_mod: "ring_rep a (b mod length a) xs \<longleftrightarrow> ring_rep a b xs"
  by (simp add: ring_rep_def mod_add_left_eq)

lemma ring_rep_Nil_iff: "ring_rep a b [] \<longleftrightarrow> a = replicate (length a) None"
proof
  assume r: "ring_rep a b []"
  show "a = replicate (length a) None"
  proof (rule nth_equalityI)
    fix i assume i: "i < length a"
    define j where "j = (i + (length a - b mod length a)) mod length a"
    have pos: "0 < length a" using i by linarith
    then have "j < length a" unfolding j_def by (rule mod_less_divisor)
    moreover have "(b + j) mod length a = i"
    proof -
      have le: "b mod length a \<le> length a" using pos by (simp add: less_imp_le)
      have "(b + j) mod length a = (b mod length a + (i + (length a - b mod length a))) mod length a"
        unfolding j_def by (metis mod_add_left_eq mod_add_right_eq)
      also have "\<dots> = (i + length a) mod length a" using le by simp
      finally show ?thesis using i by simp
    qed
    ultimately show "a ! i = replicate (length a) None ! i"
      using r i by (auto simp: ring_rep_def)
  qed simp
next
  assume "a = replicate (length a) None"
  then obtain n where "a = replicate n None" by blast
  then show "ring_rep a b []"
    by (cases "n = 0") (auto simp: ring_rep_def)
qed

lemma ring_rep_linear:
  "n \<ge> length xs \<Longrightarrow> ring_rep (map Some xs @ replicate (n - length xs) None) 0 xs"
  by (auto simp: ring_rep_def nth_append)

subsection \<open>Reading through the representation\<close>

lemma deque_rep_bounds:
  assumes "deque_rep d xs" and "arr d = Some a"
  shows "8 \<le> length a" "length a \<le> 2 ^ 30" "unat (dmask d) + 1 = length a"
    "unat (dbegin d) < length a" "unat (dend d) = unat (dbegin d) + length xs"
    "length xs \<le> length a" "ring_rep a (unat (dbegin d)) xs"
proof -
  obtain k where k: "3 \<le> k" "k \<le> 30" "length a = 2 ^ k"
    using assms by (auto simp: deque_rep_def)
  have "(2::nat) ^ 3 \<le> 2 ^ k" "(2::nat) ^ k \<le> 2 ^ 30"
    using k by (simp_all only: power_increasing one_le_numeral)
  then show "8 \<le> length a" "length a \<le> 2 ^ 30" using k by simp_all
  show r: "ring_rep a (unat (dbegin d)) xs" using assms by (simp add: deque_rep_def)
  show "length xs \<le> length a" by (rule ring_rep_length [OF r])
qed (use assms in \<open>auto simp: deque_rep_def\<close>)

lemma deque_rep_masked:
  assumes "deque_rep d xs" and "arr d = Some a"
  shows "unat (i AND dmask d) = unat i mod length a"
proof -
  obtain k where "length a = 2 ^ k" "unat (dmask d) + 1 = 2 ^ k"
    using assms by (auto simp: deque_rep_def)
  then show ?thesis by (simp add: unat_and_mask)
qed

lemma deque_rep_arr_None: "deque_rep d xs \<Longrightarrow> xs \<noteq> [] \<Longrightarrow> \<exists>a. arr d = Some a"
  by (auto simp: deque_rep_def split: option.splits)

lemma deque_rep_list: "deque_rep d xs \<Longrightarrow> deque_list d = xs"
proof (cases "arr d")
  case None
  moreover assume "deque_rep d xs"
  ultimately show ?thesis by (simp add: deque_rep_def deque_list_def)
next
  case (Some a)
  assume rep: "deque_rep d xs"
  note b = deque_rep_bounds [OF rep Some]
  show ?thesis
    by (rule nth_equalityI) (use b Some in \<open>auto simp: deque_list_def ring_rep_nth\<close>)
qed

lemma deque_rep_counts:
  assumes "deque_rep d xs"
  shows "unat (deque_size d) = length xs" "deque_empty d \<longleftrightarrow> xs = []" "length xs \<le> 2 ^ 30"
proof -
  have "unat (dend d) = unat (dbegin d) + length xs \<and> length xs \<le> 2 ^ 30"
  proof (cases "arr d")
    case None
    with assms show ?thesis by (simp add: deque_rep_def)
  next
    case (Some a)
    show ?thesis using deque_rep_bounds [OF assms Some] by linarith
  qed
  then have e: "unat (dend d) = unat (dbegin d) + length xs" and l: "length xs \<le> 2 ^ 30"
    by blast+
  then have le: "unat (dbegin d) \<le> unat (dend d)" by simp
  show "length xs \<le> 2 ^ 30" by (rule l)
  show "unat (deque_size d) = length xs"
    using le e by (simp add: deque_size_def unat_sub word_le_nat_alt)
  show "deque_empty d \<longleftrightarrow> xs = []"
    using e by (auto simp: deque_empty_def word_unat_eq_iff)
qed

lemma deque_full_iff:
  assumes "deque_rep d xs" and "arr d = Some a"
  shows "deque_full d \<longleftrightarrow> length xs = length a"
proof -
  note b = deque_rep_bounds [OF assms]
  have "unat (dbegin d + dmask d + 1) = unat (dbegin d) + length a"
    using b by (simp add: unat_word_ariths)
  then show ?thesis
    using b by (auto simp: deque_full_def word_unat_eq_iff)
qed

lemma slot_get_rep:
  assumes "deque_rep d xs" and "j < length xs" and "unat i = unat (dbegin d) + j"
  shows "slot_get d (i AND dmask d) = Inr (xs ! j)"
proof -
  obtain a where a: "arr d = Some a" using assms deque_rep_arr_None by fastforce
  note b = deque_rep_bounds [OF assms(1) a]
  have "unat i mod length a < length a" using b(1) by (intro mod_less_divisor) linarith
  then show ?thesis
    using ring_rep_nth [OF b(7) assms(2)] assms(3) a
    by (simp add: slot_get_def deque_rep_masked [OF assms(1) a])
qed

lemma deque_begin_masked:
  assumes "deque_rep d xs" and "arr d = Some a"
  shows "dbegin d AND dmask d = dbegin d"
  using deque_rep_bounds [OF assms]
  by (simp add: word_unat_eq_iff deque_rep_masked [OF assms])

lemma deque_index_rep:
  assumes "deque_rep d xs" and "unat i < length xs"
  shows "deque_index d i = Inr (xs ! unat i)"
proof -
  obtain a where a: "arr d = Some a" using assms deque_rep_arr_None by fastforce
  note b = deque_rep_bounds [OF assms(1) a]
  have "unat (dbegin d + i) = unat (dbegin d) + unat i"
    using b assms(2) by (simp add: unat_word_ariths)
  then show ?thesis
    unfolding deque_index_def by (rule slot_get_rep [OF assms])
qed

lemma deque_front_rep: "deque_rep d (x # xs) \<Longrightarrow> deque_front d = Inr x"
proof -
  assume rep: "deque_rep d (x # xs)"
  obtain a where a: "arr d = Some a" using deque_rep_arr_None [OF rep] by auto
  show ?thesis
    using slot_get_rep [OF rep, of 0 "dbegin d"] deque_begin_masked [OF rep a]
    by (simp add: deque_front_def)
qed

lemma deque_back_rep: "deque_rep d (xs @ [x]) \<Longrightarrow> deque_back d = Inr x"
proof -
  assume rep: "deque_rep d (xs @ [x])"
  obtain a where a: "arr d = Some a" using deque_rep_arr_None [OF rep] by auto
  note b = deque_rep_bounds [OF rep a]
  have "unat (dend d - 1) = unat (dbegin d) + length xs"
    using b(5) by (subst unat_pred_word) auto
  then show ?thesis
    using slot_get_rep [OF rep, of "length xs" "dend d - 1"]
    by (simp add: deque_back_def)
qed

lemma deque_at_rep:
  assumes "deque_rep d xs" and "i < 2 ^ 31"
  shows "deque_at d i = (if 0 \<le> i \<and> i < int (length xs) then Inr (xs ! nat i) else Inl Out_of_range)"
proof (cases "0 \<le> i")
  case True
  then obtain n where n: "i = int n" by (metis nonneg_int_cases)
  have un: "unat (word_of_int i :: u32) = n"
    using assms(2) n by (simp add: unat_of_nat)
  then show ?thesis
    using n deque_rep_counts(1) [OF assms(1)] deque_index_rep [OF assms(1), of "word_of_int i"]
    by (auto simp: deque_at_def deque_size_def word_le_nat_alt)
qed (simp add: deque_at_def)

subsection \<open>Construction and destruction through the representation\<close>

lemma slot_destroy_masked:
  assumes "arr d = Some a" and "ring_rep a (unat i) (x # xs)"
    and "unat (i AND dmask d) = unat i mod length a"
  shows "slot_destroy d (i AND dmask d) = Inr (d\<lparr>arr := Some (a[unat i mod length a := None])\<rparr>)"
proof -
  have "0 < length a" using ring_rep_length [OF assms(2)] by auto
  then have "unat i mod length a < length a" by simp
  moreover have "a ! (unat i mod length a) = Some x"
    using ring_rep_nth [OF assms(2), of 0] by simp
  ultimately show ?thesis using assms by (simp add: slot_destroy_def)
qed

lemma unat_succ:
  fixes i e :: "'a::len word"
  assumes "unat i < unat e"
  shows "unat (i + 1) = Suc (unat i)"
proof -
  have "unat e < 2 ^ LENGTH('a)" by (rule unsigned_less)
  with assms have "Suc (unat i) < 2 ^ LENGTH('a)" by linarith
  then show ?thesis by (simp add: unat_word_ariths)
qed

lemma destroy_range_rep:
  assumes "arr d = Some a" and "ring_rep a (unat i) xs" and "unat e = unat i + length xs"
    and "\<And>j. unat (j AND dmask d) = unat j mod length a"
  shows "destroy_range i e d = Inr (d\<lparr>arr := Some (replicate (length a) None)\<rparr>)"
  using assms
proof (induction xs arbitrary: i a d)
  case Nil
  then have ie: "i = e" by (simp add: word_unat_eq_iff)
  have "Some (replicate (length a) None) = arr d"
    using Nil.prems(1,2) ring_rep_Nil_iff [of a "unat i"] by metis
  then show ?case using ie by (subst destroy_range.simps) simp
next
  case (Cons x xs)
  define a' where "a' = a[unat i mod length a := None]"
  have step: "slot_destroy d (i AND dmask d) = Inr (d\<lparr>arr := Some a'\<rparr>)"
    unfolding a'_def by (rule slot_destroy_masked [OF Cons.prems(1,2,4)])
  have ne: "i \<noteq> e" and suc: "unat (i + 1) = Suc (unat i)"
    using Cons.prems(3) unat_succ [of i e] by auto
  have "destroy_range (i + 1) e (d\<lparr>arr := Some a'\<rparr>)
      = Inr (d\<lparr>arr := Some a'\<rparr>\<lparr>arr := Some (replicate (length a') None)\<rparr>)"
  proof (rule Cons.IH)
    show "ring_rep a' (unat (i + 1)) xs"
      unfolding a'_def suc by (rule ring_rep_tl [OF Cons.prems(2)])
  qed (use Cons.prems suc in \<open>simp_all add: a'_def\<close>)
  then show ?case
    using ne step by (subst destroy_range.simps) (simp add: a'_def)
qed

lemma list_update_middle:
  "length ys = n \<Longrightarrow> (ys @ z # zs)[n := y] = (ys @ [y]) @ zs"
  by (simp add: list_update_append)

lemma move_items_rep:
  assumes "arr d = Some a" and "ring_rep a (unat i) xs" and "unat e = unat i + length xs"
    and "\<And>j. unat (j AND dmask d) = unat j mod length a"
    and "unat i = unat b + length ys" and "m = length xs + r"
  shows "\<exists>a'. move_items i e b d (map Some ys @ replicate m None) =
           Inr (d\<lparr>arr := Some a'\<rparr>, map Some (ys @ xs) @ replicate r None)"
  using assms
proof (induction xs arbitrary: i a d ys m)
  case Nil
  then have "i = e" by (simp add: word_unat_eq_iff)
  moreover have "d\<lparr>arr := Some a\<rparr> = d" using Nil.prems(1) by simp
  ultimately show ?case
    using Nil.prems(6) by (subst move_items.simps) (metis add_0 append_Nil2 list.size(3))
next
  case (Cons x xs)
  define a' where "a' = a[unat i mod length a := None]"
  have len: "0 < length a" using ring_rep_length [OF Cons.prems(2)] by auto
  have get: "slot_get d (i AND dmask d) = Inr x"
    using ring_rep_nth [OF Cons.prems(2), of 0] len Cons.prems(1,4) by (simp add: slot_get_def)
  have step: "slot_destroy d (i AND dmask d) = Inr (d\<lparr>arr := Some a'\<rparr>)"
    unfolding a'_def by (rule slot_destroy_masked [OF Cons.prems(1,2,4)])
  have ne: "i \<noteq> e" and suc: "unat (i + 1) = Suc (unat i)"
    using Cons.prems(3) unat_succ [of i e] by auto
  have ib: "unat (i - b) = length ys"
    using Cons.prems(5) by (simp add: unat_sub word_le_nat_alt)
  have "\<exists>a''. move_items (i + 1) e b (d\<lparr>arr := Some a'\<rparr>)
            (map Some (ys @ [x]) @ replicate (length xs + r) None) =
        Inr (d\<lparr>arr := Some a'\<rparr>\<lparr>arr := Some a''\<rparr>, map Some ((ys @ [x]) @ xs) @ replicate r None)"
  proof (rule Cons.IH)
    show "ring_rep a' (unat (i + 1)) xs"
      unfolding a'_def suc by (rule ring_rep_tl [OF Cons.prems(2)])
  qed (use Cons.prems suc in \<open>simp_all add: a'_def\<close>)
  then show ?case
    using ne get step ib Cons.prems(6)
    by (subst move_items.simps) (simp add: list_update_append)
qed

lemma deque_grow_rep:
  assumes "deque_rep d xs" and "deque_full d" and "length xs < deque_max_size"
  shows "\<exists>d' a'. deque_grow d = Inr d' \<and> deque_rep d' xs \<and> arr d' = Some a' \<and> length xs < length a'"
proof (cases "arr d")
  case None
  then have "xs = []" "dbegin d = 0" "dend d = 0" using assms(1) by (simp_all add: deque_rep_def)
  moreover have "ring_rep (replicate 8 None) 0 ([]::'a list)" by (simp add: ring_rep_Nil_iff)
  moreover have "\<exists>k\<in>{3..30}. (8::nat) = 2 ^ k" by (rule bexI [of _ 3]) simp_all
  ultimately show ?thesis
    using None by (simp add: deque_grow_def deque_max_size_def move_items.simps deque_rep_def)
next
  case (Some a)
  note b = deque_rep_bounds [OF assms(1) Some]
  have la: "length xs = length a" using assms(2) deque_full_iff [OF assms(1) Some] by simp
  obtain k where k: "3 \<le> k" "k \<le> 30" "length a = 2 ^ k"
    using assms(1) Some by (auto simp: deque_rep_def)
  have "(2::nat) ^ k < 2 ^ 30" using assms(3) la k by (simp add: deque_max_size_def)
  then have k29: "Suc k \<le> 30" by (metis Suc_leI one_less_numeral_iff power_less_imp_less_exp semiring_norm(76))
  then have "(2::nat) ^ Suc k \<le> 2 ^ 30" by (rule power_increasing) simp
  then have le: "length a * 2 \<le> 2 ^ 30" using k by simp
  obtain a' where mv: "move_items (dbegin d) (dend d) (dbegin d) d (replicate (length a * 2) None) =
      Inr (d\<lparr>arr := Some a'\<rparr>, map Some xs @ replicate (length a) None)"
    using move_items_rep [where ys = "[]" and m = "length a * 2" and r = "length a",
        OF Some b(7) b(5) deque_rep_masked [OF assms(1) Some]] la by auto
  let ?n = "map Some xs @ replicate (length a) None"
  have "ring_rep ?n 0 xs" using ring_rep_linear [of xs "length a * 2"] la by simp
  moreover have "\<exists>k\<in>{3..30}. length ?n = 2 ^ k"
    using k k29 la by (intro bexI [of _ "Suc k"]) simp_all
  moreover have "unat (of_nat (length a * 2 - 1) :: u32) + 1 = length ?n"
    using le b(1) la by (subst unat_of_nat) simp_all
  moreover have "unat (dend d - dbegin d) = length xs"
    using b(5) by (simp add: unat_sub word_le_nat_alt)
  ultimately show ?thesis
    using Some mv le b la by (auto simp: deque_grow_def deque_max_size_def deque_rep_def Let_def)
qed

subsection \<open>The operations implement a list\<close>

lemma slot_construct_rep:
  assumes "deque_rep d xs" and "arr d = Some a" and "length xs < length a"
  shows "\<exists>a'. slot_construct d (dend d AND dmask d) x = Inr (d\<lparr>arr := Some a'\<rparr>) \<and>
    deque_rep (d\<lparr>arr := Some a', dend := dend d + 1\<rparr>) (xs @ [x])"
proof -
  note b = deque_rep_bounds [OF assms(1,2)]
  let ?p = "(unat (dbegin d) + length xs) mod length a"
  have p: "unat (dend d AND dmask d) = ?p"
    using b by (simp add: deque_rep_masked [OF assms(1,2)])
  have "?p < length a" using b(1) by (intro mod_less_divisor) linarith
  then have "slot_construct d (dend d AND dmask d) x = Inr (d\<lparr>arr := Some (a[?p := Some x])\<rparr>)"
    using assms(2) p by (simp add: slot_construct_def)
  moreover have "unat (dend d + 1) = unat (dbegin d) + length (xs @ [x])"
    using b by (simp add: unat_word_ariths)
  then have "deque_rep (d\<lparr>arr := Some (a[?p := Some x]), dend := dend d + 1\<rparr>) (xs @ [x])"
    using assms(1,2) b ring_rep_snoc [OF b(7) assms(3)] by (simp add: deque_rep_def)
  ultimately show ?thesis by blast
qed

lemma deque_room:
  assumes "deque_rep d xs" and "length xs < deque_max_size"
  obtains d1 a where "(if deque_full d then deque_grow d else Inr d) = Inr d1"
    "deque_rep d1 xs" "arr d1 = Some a" "length xs < length a"
proof (cases "deque_full d")
  case True
  with that deque_grow_rep [OF assms(1) True assms(2)] show ?thesis by auto
next
  case False
  then obtain a where a: "arr d = Some a"
    using assms(1) by (cases "arr d") (auto simp: deque_rep_def deque_full_def)
  moreover have "length xs < length a"
    using False deque_full_iff [OF assms(1) a] deque_rep_bounds(6) [OF assms(1) a] by simp
  ultimately show ?thesis using that assms(1) False by simp
qed

lemma deque_push_back_rep:
  assumes "deque_rep d xs" and "length xs < deque_max_size"
  shows "\<exists>d'. deque_push_back d x = Inr d' \<and> deque_rep d' (xs @ [x])"
proof -
  obtain d1 a where d1: "(if deque_full d then deque_grow d else Inr d) = Inr d1"
    and rep: "deque_rep d1 xs" and a: "arr d1 = Some a" "length xs < length a"
    using deque_room [OF assms] .
  from slot_construct_rep [OF rep a, of x] obtain a' where
    "slot_construct d1 (dend d1 AND dmask d1) x = Inr (d1\<lparr>arr := Some a'\<rparr>)"
    "deque_rep (d1\<lparr>arr := Some a', dend := dend d1 + 1\<rparr>) (xs @ [x])" by blast
  with d1 show ?thesis by (simp add: deque_push_back_def)
qed

lemma deque_grow_overflow:
  assumes "deque_rep d xs" and "length xs = deque_max_size"
  shows "deque_full d" and "deque_grow d = Inl Bad_alloc"
proof -
  obtain a where a: "arr d = Some a"
    using deque_rep_arr_None [OF assms(1)] assms(2) by (force simp: deque_max_size_def)
  note b = deque_rep_bounds [OF assms(1) a]
  have "length a = 2 ^ 30" using b(2,6) assms(2) by (simp add: deque_max_size_def)
  then show "deque_full d" "deque_grow d = Inl Bad_alloc"
    using deque_full_iff [OF assms(1) a] a b(3) assms(2)
    by (simp_all add: deque_grow_def deque_max_size_def)
qed

lemma deque_push_back_overflow:
  assumes "deque_rep d xs" and "length xs = deque_max_size"
  shows "deque_push_back d x = Inl Bad_alloc"
  by (simp add: deque_push_back_def deque_grow_overflow [OF assms])

text \<open>Pushing an element of the deque again is pushing its value, unless the deque is full.\<close>

lemma deque_push_back_own_rep:
  assumes "deque_rep d xs" and "unat i < length xs"
  shows "deque_push_back_own d (dbegin d + i) =
    (if \<not> deque_full d then deque_push_back d (xs ! unat i)
     else if length xs < deque_max_size then Inl Undefined_behaviour else Inl Bad_alloc)"
proof (cases "deque_full d")
  case False
  then show ?thesis
    using deque_index_rep [OF assms] by (simp add: deque_push_back_own_def deque_push_back_def deque_index_def)
next
  case True
  have grow: "deque_push_back d x = bind_result (deque_grow d) (\<lambda>d1.
      bind_result (slot_construct d1 (dend d1 AND dmask d1) x) (\<lambda>d2. Inr (d2\<lparr>dend := dend d2 + 1\<rparr>)))" for x
    using True by (simp add: deque_push_back_def)
  show ?thesis
  proof (cases "length xs < deque_max_size")
    case room: True
    then obtain d1 where "deque_grow d = Inr d1"
      using deque_push_back_rep [OF assms(1), of "xs ! unat i"] grow by (cases "deque_grow d") auto
    then show ?thesis using True room by (simp add: deque_push_back_own_def)
  next
    case full: False
    then have "length xs = deque_max_size" using deque_rep_counts(3) [OF assms(1)] by (simp add: deque_max_size_def)
    then show ?thesis using True full deque_grow_overflow(2) [OF assms(1)] by (simp add: deque_push_back_own_def)
  qed
qed

lemma deque_emplace_back_rep:
  assumes "deque_rep d xs" and "length xs < deque_max_size"
  shows "\<exists>d'. deque_emplace_back d x = Inr (d', x) \<and> deque_push_back d x = Inr d'"
proof -
  obtain d1 a where d1: "(if deque_full d then deque_grow d else Inr d) = Inr d1"
    and rep: "deque_rep d1 xs" and a: "arr d1 = Some a" "length xs < length a"
    using deque_room [OF assms] .
  have "unat (dend d1) mod length a < length a"
    using a(2) by (intro mod_less_divisor) linarith
  then have "unat (dend d1 AND dmask d1) < length a"
    by (simp add: deque_rep_masked [OF rep a(1)])
  with d1 a(1) show ?thesis
    by (simp add: deque_emplace_back_def deque_push_back_def slot_construct_def slot_get_def)
qed

lemma deque_pop_back_rep:
  assumes "deque_rep d (xs @ [x])"
  shows "\<exists>d'. deque_pop_back d = Inr d' \<and> deque_rep d' xs"
proof -
  obtain a where a: "arr d = Some a" using deque_rep_arr_None [OF assms] by auto
  note b = deque_rep_bounds [OF assms a]
  let ?p = "(unat (dbegin d) + length xs) mod length a"
  have e: "unat (dend d - 1) = unat (dbegin d) + length xs"
    using b(5) by (subst unat_pred_word) auto
  then have p: "unat ((dend d - 1) AND dmask d) = ?p"
    by (simp add: deque_rep_masked [OF assms a])
  have "?p < length a" using b(1) by (intro mod_less_divisor) linarith
  moreover have "a ! ?p = Some x" using ring_rep_nth [OF b(7), of "length xs"] by simp
  moreover have "\<not> deque_empty d" using deque_rep_counts(2) [OF assms] by simp
  ultimately have "deque_pop_back d = Inr (d\<lparr>dend := dend d - 1, arr := Some (a[?p := None])\<rparr>)"
    using a p by (simp add: deque_pop_back_def slot_destroy_def)
  moreover have "deque_rep (d\<lparr>dend := dend d - 1, arr := Some (a[?p := None])\<rparr>) xs"
    using assms a b e ring_rep_butlast [OF b(7)] by (simp add: deque_rep_def)
  ultimately show ?thesis by blast
qed

lemma deque_pop_front_rep:
  assumes "deque_rep d (x # xs)"
  shows "\<exists>d'. deque_pop_front d = Inr d' \<and> deque_rep d' xs"
proof -
  obtain a where a: "arr d = Some a" using deque_rep_arr_None [OF assms] by auto
  note b = deque_rep_bounds [OF assms a]
  let ?a = "a[unat (dbegin d) := None]"
  have bm: "unat (dbegin d) mod length a = unat (dbegin d)" using b(4) by simp
  have r: "ring_rep ?a (Suc (unat (dbegin d))) xs"
    using ring_rep_tl [OF b(7)] bm by simp
  have "slot_destroy d (dbegin d) = Inr (d\<lparr>arr := Some ?a\<rparr>)"
    using slot_destroy_masked [OF a b(7) deque_rep_masked [OF assms a]]
      deque_begin_masked [OF assms a] bm by simp
  moreover have "\<not> deque_empty d" using deque_rep_counts(2) [OF assms] by simp
  ultimately have pf: "deque_pop_front d = Inr (if dbegin d = dmask d
      then d\<lparr>arr := Some ?a, dbegin := dbegin d - dmask d, dend := dend d - (dmask d + 1)\<rparr>
      else d\<lparr>arr := Some ?a, dbegin := dbegin d + 1\<rparr>)"
    by (simp add: deque_pop_front_def)
  show ?thesis
  proof (cases "dbegin d = dmask d")
    case True
    have s: "Suc (unat (dbegin d)) = length ?a" using True b(3) by simp
    then have "ring_rep ?a 0 xs"
      using r ring_rep_mod [of ?a "Suc (unat (dbegin d))" xs] by simp
    moreover have "unat (dmask d + 1) = length a" using b by (simp add: unat_word_ariths)
    then have "unat (dend d - (dmask d + 1)) = length xs"
      using b True by (subst unat_sub) (simp_all add: word_le_nat_alt)
    ultimately show ?thesis using pf True assms a b by (auto simp: deque_rep_def)
  next
    case False
    then have lt: "Suc (unat (dbegin d)) < length a"
      using b(3,4) by (metis Suc_eq_plus1 Suc_lessI nat.inject word_unat_eq_iff)
    then have "unat (dbegin d + 1) = Suc (unat (dbegin d))"
      using b(2) by (simp add: unat_word_ariths)
    then show ?thesis using pf False assms a b lt r by (simp add: deque_rep_def)
  qed
qed

lemma deque_pop_empty:
  "deque_rep d [] \<Longrightarrow> deque_pop_front d = Inl Assert_failed \<and> deque_pop_back d = Inl Assert_failed"
  using deque_rep_counts(2) [of d "[]"] by (simp add: deque_pop_front_def deque_pop_back_def)

lemma deque_new_rep: "deque_rep deque_new []"
  by (simp add: deque_rep_def deque_new_def)

subsection \<open>Whole-container operations\<close>

lemma deque_destroy_all:
  assumes "deque_rep d xs"
  shows "\<exists>d'. destroy_range (dbegin d) (dend d) d = Inr d' \<and>
    deque_rep (d'\<lparr>dbegin := 0, dend := 0\<rparr>) []"
proof (cases "arr d")
  case None
  with assms show ?thesis by (simp add: deque_rep_def destroy_range.simps)
next
  case (Some a)
  note b = deque_rep_bounds [OF assms Some]
  have "destroy_range (dbegin d) (dend d) d = Inr (d\<lparr>arr := Some (replicate (length a) None)\<rparr>)"
    by (rule destroy_range_rep [OF Some b(7) b(5) deque_rep_masked [OF assms Some]])
  moreover have "ring_rep (replicate (length a) None) 0 ([]::'a list)"
    by (simp add: ring_rep_Nil_iff)
  moreover have "0 < length a" using b(1) by linarith
  ultimately show ?thesis using assms Some by (simp add: deque_rep_def)
qed

lemma deque_clear_rep: "deque_rep d xs \<Longrightarrow> \<exists>d'. deque_clear d = Inr d' \<and> deque_rep d' []"
  using deque_destroy_all [of d xs] by (auto simp: deque_clear_def)

lemma deque_cleanup_ok: "deque_rep d xs \<Longrightarrow> \<exists>d'. deque_cleanup d = Inr d' \<and> arr d' = None"
  using deque_destroy_all [of d xs] by (auto simp: deque_cleanup_def)

lemma copy_items_rep:
  assumes "deque_rep r xs" and "unat e = length xs" and "unat i \<le> length xs"
    and "arr d = Some (map Some (take (unat i) xs) @ replicate (n - unat i) None)"
    and "length xs \<le> n"
  shows "copy_items i e r d = Inr (d\<lparr>arr := Some (map Some xs @ replicate (n - length xs) None)\<rparr>)"
  using assms
proof (induction "length xs - unat i" arbitrary: i d)
  case 0
  then have "\<not> i < e" "unat i = length xs" by (simp_all add: word_less_nat_alt)
  with 0 show ?case by (subst copy_items.simps) simp
next
  case (Suc m)
  then have lt: "unat i < length xs" "i < e" by (simp_all add: word_less_nat_alt)
  have suc: "unat (i + 1) = Suc (unat i)" using unat_succ [of i e] lt Suc.prems(2) by simp
  have rep: "replicate (n - unat i) None = (None :: 'a option) # replicate (n - Suc (unat i)) None"
    using lt Suc.prems(5) by (metis Suc_diff_Suc order_less_le_trans replicate_Suc)
  let ?d = "d\<lparr>arr := Some (map Some (take (unat (i + 1)) xs) @ replicate (n - unat (i + 1)) None)\<rparr>"
  have "slot_construct d i (xs ! unat i) = Inr ?d"
    using Suc.prems(4) lt rep suc
    by (simp add: slot_construct_def list_update_append take_Suc_conv_app_nth)
  moreover have "copy_items (i + 1) e r ?d =
      Inr (?d\<lparr>arr := Some (map Some xs @ replicate (n - length xs) None)\<rparr>)"
    by (rule Suc.hyps(1)) (use Suc.hyps(2) Suc.prems suc lt in simp_all)
  ultimately show ?case
    using lt deque_index_rep [OF Suc.prems(1) lt(1)] by (subst copy_items.simps) simp
qed

lemma deque_copy_rep:
  assumes "deque_rep r xs"
  shows "\<exists>d. deque_copy r = Inr d \<and> deque_rep d xs"
proof (cases "arr r")
  case None
  with assms show ?thesis
    by (simp add: deque_rep_def deque_copy_def deque_capacity_def deque_size_def copy_items.simps)
next
  case (Some a)
  note b = deque_rep_bounds [OF assms Some]
  have cap: "unat (deque_capacity r) = length a"
    using b by (simp add: deque_capacity_def unat_word_ariths)
  then have capp: "deque_capacity r > 0" using b(1) by (auto simp: word_less_nat_alt)
  have sz: "unat (deque_size r) = length xs" by (rule deque_rep_counts(1) [OF assms])
  define d where "d = \<lparr>arr = Some (replicate (length a) (None :: 'a option)),
    dbegin = 0, dend = deque_size r, dmask = dmask r\<rparr>"
  have "deque_capacity d \<ge> dend d"
    using cap sz b(6) by (simp add: d_def deque_capacity_def word_le_nat_alt)
  then have "deque_copy r = copy_items 0 (deque_size r) r d"
    using cap capp by (simp add: deque_copy_def d_def)
  also have "\<dots> = Inr (d\<lparr>arr := Some (map Some xs @ replicate (length a - length xs) None)\<rparr>)"
    by (rule copy_items_rep [OF assms sz]) (use b(6) in \<open>simp_all add: d_def\<close>)
  finally show ?thesis
    using assms Some b sz ring_rep_linear [OF b(6)] by (auto simp: d_def deque_rep_def)
qed

lemma eq_items_rep:
  assumes "deque_rep d xs" and "deque_rep r ys" and "length xs = length ys"
    and "unat i \<le> length xs"
  shows "eq_items i d r = Inr (drop (unat i) xs = drop (unat i) ys)"
  using assms(4)
proof (induction "length xs - unat i" arbitrary: i)
  case 0
  then have "\<not> i < deque_size d"
    using deque_rep_counts(1) [OF assms(1)] by (simp add: word_less_nat_alt)
  with 0 assms(3) show ?case by (subst eq_items.simps) simp
next
  case (Suc m)
  have lt: "unat i < length xs" "i < deque_size d" "unat i < length ys"
    using Suc.hyps(2) deque_rep_counts(1) [OF assms(1)] assms(3) by (simp_all add: word_less_nat_alt)
  have suc: "unat (i + 1) = Suc (unat i)"
    using unat_succ [of i "deque_size d"] lt(1) deque_rep_counts(1) [OF assms(1)] by simp
  have "eq_items (i + 1) d r = Inr (drop (unat (i + 1)) xs = drop (unat (i + 1)) ys)"
    by (rule Suc.hyps(1)) (use Suc.hyps(2) suc lt in simp_all)
  then show ?case
    using lt suc deque_index_rep [OF assms(1) lt(1)] deque_index_rep [OF assms(2) lt(3)]
    by (subst eq_items.simps) (simp add: Cons_nth_drop_Suc [symmetric])
qed

lemma deque_eq_rep:
  assumes "deque_rep d xs" and "deque_rep r ys"
  shows "deque_eq d r = Inr (xs = ys)"
proof (cases "length xs = length ys")
  case True
  then have "deque_size d = deque_size r"
    using deque_rep_counts(1) [OF assms(1)] deque_rep_counts(1) [OF assms(2)]
    by (simp add: word_unat_eq_iff)
  then show ?thesis using eq_items_rep [OF assms True, of 0] by (simp add: deque_eq_def)
next
  case False
  then have "deque_size d \<noteq> deque_size r"
    using deque_rep_counts(1) [OF assms(1)] deque_rep_counts(1) [OF assms(2)] by metis
  with False show ?thesis by (auto simp: deque_eq_def)
qed

subsection \<open>The queue contract and its interpretation\<close>

text \<open>
  \<open>std::queue<T, Deque<T>>\<close> and the actors of \<open>genericactors.actor.h\<close> use a deque only through
  \<open>push_back\<close>, \<open>front\<close>, \<open>pop_front\<close> and \<open>empty\<close>. The locale states what those four
  operations promise; first in, first out is proved from the promises alone.
\<close>

fun push_all :: "('q \<Rightarrow> 'a \<Rightarrow> 'q result) \<Rightarrow> 'q \<Rightarrow> 'a list \<Rightarrow> 'q result" where
  "push_all push q [] = Inr q"
| "push_all push q (x # xs) = bind_result (push q x) (\<lambda>q'. push_all push q' xs)"

fun pop_n :: "('q \<Rightarrow> 'a result) \<Rightarrow> ('q \<Rightarrow> 'q result) \<Rightarrow> nat \<Rightarrow> 'q \<Rightarrow> ('a list \<times> 'q) result" where
  "pop_n front pop 0 q = Inr ([], q)"
| "pop_n front pop (Suc n) q =
     bind_result (front q) (\<lambda>x. bind_result (pop q) (\<lambda>q'.
     bind_result (pop_n front pop n q') (\<lambda>(xs, q''). Inr (x # xs, q''))))"

locale bounded_queue =
  fixes empty :: "'q"
    and push :: "'q \<Rightarrow> 'a \<Rightarrow> 'q result"
    and front :: "'q \<Rightarrow> 'a result"
    and pop :: "'q \<Rightarrow> 'q result"
    and is_empty :: "'q \<Rightarrow> bool"
    and rep :: "'q \<Rightarrow> 'a list \<Rightarrow> bool"
    and capacity :: nat
  assumes rep_empty: "rep empty []"
    and rep_push: "rep q xs \<Longrightarrow> length xs < capacity \<Longrightarrow> \<exists>q'. push q x = Inr q' \<and> rep q' (xs @ [x])"
    and rep_front: "rep q (x # xs) \<Longrightarrow> front q = Inr x"
    and rep_pop: "rep q (x # xs) \<Longrightarrow> \<exists>q'. pop q = Inr q' \<and> rep q' xs"
    and rep_is_empty: "rep q xs \<Longrightarrow> is_empty q \<longleftrightarrow> xs = []"
begin

lemma push_all_rep:
  "rep q xs \<Longrightarrow> length xs + length ys \<le> capacity \<Longrightarrow>
   \<exists>q'. push_all push q ys = Inr q' \<and> rep q' (xs @ ys)"
proof (induction ys arbitrary: q xs)
  case Nil
  then show ?case by simp
next
  case (Cons y ys)
  then obtain q1 where q1: "push q y = Inr q1" "rep q1 (xs @ [y])"
    using rep_push [of q xs y] by auto
  then obtain q' where "push_all push q1 ys = Inr q'" "rep q' ((xs @ [y]) @ ys)"
    using Cons.IH [OF q1(2)] Cons.prems(2) by auto
  with q1(1) show ?case by auto
qed

lemma pop_n_rep:
  "rep q (xs @ ys) \<Longrightarrow> \<exists>q'. pop_n front pop (length xs) q = Inr (xs, q') \<and> rep q' ys"
proof (induction xs arbitrary: q)
  case Nil
  then show ?case by simp
next
  case (Cons x xs)
  then obtain q1 where "pop q = Inr q1" "rep q1 (xs @ ys)" using rep_pop [of q x "xs @ ys"] by auto
  with Cons rep_front [of q x "xs @ ys"] show ?case by fastforce
qed

lemma fifo:
  assumes "length ys \<le> capacity"
  shows "\<exists>q q'. push_all push empty ys = Inr q \<and>
    pop_n front pop (length ys) q = Inr (ys, q') \<and> is_empty q'"
proof -
  obtain q where q: "push_all push empty ys = Inr q" "rep q (ys @ [])"
    using push_all_rep [OF rep_empty] assms by auto
  moreover obtain q' where "pop_n front pop (length ys) q = Inr (ys, q')" "rep q' []"
    using pop_n_rep [OF q(2)] by auto
  ultimately show ?thesis using rep_is_empty by blast
qed

end

interpretation dq: bounded_queue deque_new deque_push_back deque_front deque_pop_front
  deque_empty deque_rep deque_max_size
  by unfold_locales
    (simp_all add: deque_new_rep deque_push_back_rep deque_front_rep deque_pop_front_rep
      deque_rep_counts(2))

subsection \<open>Properties\<close>

text \<open>
  Property C39: \<open>push_back\<close> appends to the represented list, across every growth of the circular
  array, until \<open>max_size()\<close> elements are stored; then it throws \<open>bad_alloc\<close>.
\<close>

theorem deque_push_back_refines:
  assumes "deque_rep d xs"
  shows "if length xs < deque_max_size
    then \<exists>d'. deque_push_back d x = Inr d' \<and> deque_rep d' (xs @ [x])
    else deque_push_back d x = Inl Bad_alloc"
proof (cases "length xs < deque_max_size")
  case True
  then show ?thesis using deque_push_back_rep [OF assms] by simp
next
  case False
  then have "length xs = deque_max_size"
    using deque_rep_counts(3) [OF assms] by (simp add: deque_max_size_def)
  then show ?thesis using deque_push_back_overflow [OF assms] by simp
qed

definition sample_deque :: "nat deque" where
  "sample_deque = \<lparr>arr = Some [Some 3, None, None, None, None, None, Some 1, Some 2],
     dbegin = 6, dend = 9, dmask = 7\<rparr>"

lemma sample_deque_rep: "deque_rep sample_deque [1, 2, 3]"
proof -
  have "ring_rep [Some 3, None, None, None, None, None, Some 1, Some 2] 6 [1, 2, 3 :: nat]"
    by code_simp
  moreover have "\<exists>k\<in>{3..30}.
      length [Some 3, None, None, None, None, None, Some 1, Some (2 :: nat)] = 2 ^ k"
    by (rule bexI [of _ 3]) simp_all
  ultimately show ?thesis by (simp add: deque_rep_def sample_deque_def)
qed

theorem deque_push_back_refines_witness:
  "deque_rep sample_deque [1, 2, 3] \<and>
   (\<exists>d'. deque_push_back sample_deque 4 = Inr d' \<and> deque_rep d' [1, 2, 3, 4])"
  using deque_push_back_refines [OF sample_deque_rep, of 4] sample_deque_rep
  by (simp add: deque_max_size_def)

text \<open>
  On a non-empty deque \<open>front\<close> and \<open>back\<close> read the two ends of the list and
  \<open>pop_front\<close> and \<open>pop_back\<close> remove them; on an empty one both pops fail their assertion.
  No operation touches a slot that holds no element.
\<close>

theorem deque_pops_refine:
  assumes "deque_rep d xs"
  shows "if xs = [] then deque_pop_front d = Inl Assert_failed \<and> deque_pop_back d = Inl Assert_failed
    else deque_front d = Inr (hd xs) \<and> deque_back d = Inr (last xs) \<and>
      (\<exists>d'. deque_pop_front d = Inr d' \<and> deque_rep d' (tl xs)) \<and>
      (\<exists>d'. deque_pop_back d = Inr d' \<and> deque_rep d' (butlast xs))"
proof (cases "xs = []")
  case True
  then show ?thesis using assms deque_pop_empty by auto
next
  case False
  then have "xs = hd xs # tl xs" "xs = butlast xs @ [last xs]" by simp_all
  then have rep: "deque_rep d (hd xs # tl xs)" "deque_rep d (butlast xs @ [last xs])"
    using assms by (metis, metis)
  show ?thesis
    using False deque_front_rep [OF rep(1)] deque_back_rep [OF rep(2)]
      deque_pop_front_rep [OF rep(1)] deque_pop_back_rep [OF rep(2)] by simp
qed

theorem deque_pops_refine_witness:
  "deque_front sample_deque = Inr 1 \<and> deque_back sample_deque = Inr 3 \<and>
   (\<exists>d'. deque_pop_front sample_deque = Inr d' \<and> deque_rep d' [2, 3])"
  using deque_pops_refine [OF sample_deque_rep] by simp

text \<open>
  Whatever sequence of at most \<open>max_size()\<close> elements is pushed into a new deque,
  popping them from the front returns the same sequence and leaves the deque empty.
\<close>

theorem deque_fifo:
  assumes "length ys \<le> deque_max_size"
  shows "\<exists>d d'. push_all deque_push_back deque_new ys = Inr d \<and>
    pop_n deque_front deque_pop_front (length ys) d = Inr (ys, d') \<and> deque_empty d'"
  by (rule dq.fifo [OF assms])

theorem deque_fifo_witness:
  "\<exists>d d'. push_all deque_push_back deque_new [5, 6, 7 :: nat] = Inr d \<and>
    pop_n deque_front deque_pop_front 3 d = Inr ([5, 6, 7], d') \<and> deque_empty d'"
  using deque_fifo [of "[5, 6, 7 :: nat]"] by (simp add: deque_max_size_def numeral_3_eq_3)

text \<open>
  The copy constructor yields a deque with the same elements, with the same mask and
  a linear array, and \<open>operator==\<close> decides equality of the represented lists.
\<close>

theorem deque_copy_and_equality:
  assumes "deque_rep r xs" and "deque_rep s ys"
  shows "(\<exists>d. deque_copy r = Inr d \<and> deque_rep d xs \<and> deque_eq d r = Inr True) \<and>
    deque_eq r s = Inr (xs = ys)"
  using deque_copy_rep [OF assms(1)] deque_eq_rep [OF _ assms(1)] deque_eq_rep [OF assms] by auto

theorem deque_copy_and_equality_witness:
  "(\<exists>d. deque_copy sample_deque = Inr d \<and> deque_rep d [1, 2, 3] \<and> deque_eq d sample_deque = Inr True) \<and>
   deque_eq sample_deque deque_new = Inr False"
  using deque_copy_and_equality [OF sample_deque_rep deque_new_rep] by simp

end
