(* ===== verification/IS_Tree.thy ===== *)
theory IS_Tree
  imports Flow_Prelude
begin

text \<open>
  The nodes of \<open>IndexedSet\<close> (\<open>src/flow/IndexedSet.h\<close>): an AVL tree in which every node stores
  its balance (right height minus left height) and the metric total of its subtree. A
  \<open>Node*\<close> that is followed downwards is a subtree; a \<open>Node*\<close> whose \<open>parent\<close> field is followed
  is a subtree together with the path of frames above it, one frame per \<open>parent\<close> step. The
  theory holds the rotation and balance helpers \<open>ISRotate\<close> and \<open>ISAdjustBalance\<close>, the
  represented list of items with their metrics, and the facts on paths the operations share.
\<close>

subsection \<open>Nodes\<close>

datatype ('a, 'm) is_tree =
    Leaf
  | Node (n_left: "('a, 'm) is_tree") (n_data: 'a) (n_balance: int) (n_total: 'm)
      (n_right: "('a, 'm) is_tree")

text \<open>
  Direction \<open>0\<close> (left) is \<open>False\<close> and \<open>1\<close> (right) is \<open>True\<close>; \<open>child t d\<close> is
  \<open>t->child[d]\<close>. \<open>total\<close> is the guarded read \<open>t ? t->total : Metric()\<close>.
\<close>

fun child :: "('a, 'm) is_tree \<Rightarrow> bool \<Rightarrow> ('a, 'm) is_tree" where
  "child Leaf d = Leaf"
| "child (Node l x b m r) d = (if d then r else l)"

fun set_child :: "('a, 'm) is_tree \<Rightarrow> bool \<Rightarrow> ('a, 'm) is_tree \<Rightarrow> ('a, 'm) is_tree" where
  "set_child Leaf d c = Leaf"
| "set_child (Node l x b m r) d c = (if d then Node l x b m c else Node c x b m r)"

fun total :: "('a, 'm::zero) is_tree \<Rightarrow> 'm" where
  "total Leaf = 0"
| "total (Node l x b m r) = m"

fun set_total :: "('a, 'm) is_tree \<Rightarrow> 'm \<Rightarrow> ('a, 'm) is_tree" where
  "set_total Leaf v = Leaf"
| "set_total (Node l x b m r) v = Node l x b v r"

fun balance :: "('a, 'm) is_tree \<Rightarrow> int" where
  "balance Leaf = 0"
| "balance (Node l x b m r) = b"

fun set_balance :: "('a, 'm) is_tree \<Rightarrow> int \<Rightarrow> ('a, 'm) is_tree" where
  "set_balance Leaf v = Leaf"
| "set_balance (Node l x b m r) v = Node l x v m r"

definition dir_sign :: "bool \<Rightarrow> int" where
  "dir_sign d = (if d then 1 else - 1)"

lemma dir_sign_simps [simp]: "dir_sign True = 1" "dir_sign False = - 1"
  by (simp_all add: dir_sign_def)

subsection \<open>Rotation and balance adjustment\<close>

definition ISRotate ::
  "('a, 'm::ab_group_add) is_tree \<Rightarrow> bool \<Rightarrow> ('a, 'm) is_tree result" where
  "ISRotate oldRoot d =
     (let newRoot = child oldRoot (\<not> d)
      in if oldRoot = Leaf \<or> newRoot = Leaf then Inl Undefined_behaviour
         else let orTotal = total oldRoot - total newRoot;
                  orTotal' = (if child newRoot d \<noteq> Leaf then orTotal + total (child newRoot d)
                              else orTotal);
                  newRoot' = set_total newRoot (total oldRoot);
                  oldRoot' = set_total oldRoot orTotal';
                  oldRoot'' = set_child oldRoot' (\<not> d) (child newRoot d)
              in Inr (set_child newRoot' d oldRoot''))"

definition ISAdjustBalance ::
  "('a, 'm) is_tree \<Rightarrow> bool \<Rightarrow> int \<Rightarrow> ('a, 'm) is_tree result" where
  "ISAdjustBalance root d bal =
     (let n = child root d; nn = child n (\<not> d)
      in if nn = Leaf then Inl Undefined_behaviour
         else let (rootBal, nBal) =
                    (if balance nn = 0 then (0, 0)
                     else if balance nn = bal then (- bal, 0)
                     else (0, bal));
                  n' = set_child (set_balance n nBal) (\<not> d) (set_balance nn 0)
              in Inr (set_child (set_balance root rootBal) d n'))"

subsection \<open>Paths\<close>

datatype ('a, 'm) frame =
  Frame (f_dir: bool) (f_data: 'a) (f_balance: int) (f_total: 'm) (f_sibling: "('a, 'm) is_tree")

type_synonym ('a, 'm) path = "('a, 'm) frame list"

type_synonym ('a, 'm) loc = "('a, 'm) is_tree \<times> ('a, 'm) path"

fun parent_node :: "('a, 'm) frame \<Rightarrow> ('a, 'm) is_tree \<Rightarrow> ('a, 'm) is_tree" where
  "parent_node (Frame d x b m s) t = (if d then Node s x b m t else Node t x b m s)"

fun plug :: "('a, 'm) is_tree \<Rightarrow> ('a, 'm) path \<Rightarrow> ('a, 'm) is_tree" where
  "plug t [] = t"
| "plug t (f # fs) = plug (parent_node f t) fs"

fun down_frame :: "('a, 'm) is_tree \<Rightarrow> bool \<Rightarrow> ('a, 'm) frame" where
  "down_frame (Node l x b m r) d = Frame d x b m (if d then l else r)"

text \<open>The loops \<open>while ((t = t->parent)) t->total = t->total + delta;\<close>.\<close>

definition add_total :: "'m::plus \<Rightarrow> ('a, 'm) frame \<Rightarrow> ('a, 'm) frame" where
  "add_total delta f = Frame (f_dir f) (f_data f) (f_balance f) (f_total f + delta) (f_sibling f)"

abbreviation add_totals :: "'m::plus \<Rightarrow> ('a, 'm) path \<Rightarrow> ('a, 'm) path" where
  "add_totals delta \<equiv> map (add_total delta)"

subsection \<open>Represented items\<close>

text \<open>
  The metric of an item is not stored: it is its node's total less the totals of the children
  (\<open>getMetric\<close>). \<open>items\<close> lists the elements in order, each with that metric.
\<close>

fun items :: "('a, 'm::ab_group_add) is_tree \<Rightarrow> ('a \<times> 'm) list" where
  "items Leaf = []"
| "items (Node l x b m r) = items l @ (x, m - total l - total r) # items r"

fun height :: "('a, 'm) is_tree \<Rightarrow> nat" where
  "height Leaf = 0"
| "height (Node l x b m r) = Suc (max (height l) (height r))"

fun avl :: "('a, 'm) is_tree \<Rightarrow> bool" where
  "avl Leaf = True"
| "avl (Node l x b m r) \<longleftrightarrow>
     b = int (height r) - int (height l) \<and> - 1 \<le> b \<and> b \<le> 1 \<and> avl l \<and> avl r"

definition sorted_items :: "('a::linorder \<times> 'm) list \<Rightarrow> bool" where
  "sorted_items xs \<longleftrightarrow> sorted_wrt (<) (map fst xs)"

definition is_ok :: "('a::linorder, 'm::ab_group_add) is_tree \<Rightarrow> bool" where
  "is_ok t \<longleftrightarrow> avl t \<and> sorted_items (items t)"

text \<open>Items and heights seen from a hole: \<open>h\<close> is the total (height) of what fills it.\<close>

fun litems :: "'m::ab_group_add \<Rightarrow> ('a, 'm) path \<Rightarrow> ('a \<times> 'm) list" where
  "litems h [] = []"
| "litems h (Frame d x b m s # fs) =
     litems m fs @ (if d then items s @ [(x, m - total s - h)] else [])"

fun ritems :: "'m::ab_group_add \<Rightarrow> ('a, 'm) path \<Rightarrow> ('a \<times> 'm) list" where
  "ritems h [] = []"
| "ritems h (Frame d x b m s # fs) =
     (if d then [] else (x, m - h - total s) # items s) @ ritems m fs"

fun avl_path :: "nat \<Rightarrow> ('a, 'm) path \<Rightarrow> bool" where
  "avl_path h [] = True"
| "avl_path h (Frame d x b m s # fs) \<longleftrightarrow>
     b = dir_sign d * (int h - int (height s)) \<and> - 1 \<le> b \<and> b \<le> 1 \<and> avl s \<and>
     avl_path (Suc (max h (height s))) fs"

subsection \<open>Facts on nodes and paths\<close>

named_theorems tree_simps \<open>unfolding of the node helpers\<close>

lemmas [tree_simps] = ISRotate_def ISAdjustBalance_def Let_def

lemma sum_items: "sum_list (map snd (items t)) = total t"
  by (induction t) (auto simp: algebra_simps)

lemma total_if_Leaf [simp]: "(if t \<noteq> Leaf then m + total t else m) = (m::'m::ab_group_add) + total t"
  "(if t \<noteq> Leaf then m - total t else m) = m - total t"
  by (cases t; simp)+

lemma items_plug: "items (plug t fs) = litems (total t) fs @ items t @ ritems (total t) fs"
proof (induction fs arbitrary: t)
  case (Cons f fs)
  then show ?case by (cases f) auto
qed simp

lemma litems_shift [simp]: "litems (h + delta) (add_totals delta fs) = litems h fs"
  by (induction h fs rule: litems.induct) (auto simp: add_total_def)

lemma ritems_shift [simp]: "ritems (h + delta) (add_totals delta fs) = ritems h fs"
  by (induction h fs rule: ritems.induct) (auto simp: add_total_def)

lemma items_plug_shift:
  "items (plug t (add_totals delta fs)) =
     litems (total t - delta) fs @ items t @ ritems (total t - delta) fs"
  using litems_shift [of "total t - delta" delta fs] ritems_shift [of "total t - delta" delta fs]
  by (simp add: items_plug del: litems_shift ritems_shift)

lemma avl_path_shift [simp]: "avl_path h (add_totals delta fs) = avl_path h fs"
  by (induction h fs rule: avl_path.induct) (auto simp: add_total_def)

lemma avl_plug: "avl (plug t fs) \<longleftrightarrow> avl t \<and> avl_path (height t) fs"
proof (induction fs arbitrary: t)
  case (Cons f fs)
  then show ?case by (cases f) (auto simp: max.commute)
qed simp

lemma plug_child:
  "t \<noteq> Leaf \<Longrightarrow> plug (child t d) (down_frame t d # fs) = plug t fs"
  by (cases t) auto

lemma height_0_iff: "height t = 0 \<longleftrightarrow> t = Leaf"
  by (cases t) auto

lemma balance_set_total [simp]: "balance (set_total t v) = balance t"
  by (cases t) auto

lemma f_dir_add_total [simp]: "f_dir (add_total delta f) = f_dir f"
  by (simp add: add_total_def)

text \<open>
  Frames are opened only where a proof asks for it: with a symbolic direction their equations
  would split every goal in two.
\<close>

lemmas path_simps = parent_node.simps litems.simps ritems.simps

declare parent_node.simps [simp del] litems.simps(2) [simp del] ritems.simps(2) [simp del]

end
