(* ===== verification/IS_Insert.thy ===== *)
theory IS_Insert
  imports IS_Tree
begin

text \<open>
  \<open>IndexedSet::insert\<close> for one item: the descent to the insertion point, the overwrite of an
  existing item, and the retracing loop with its rotations and metric updates. The result is
  related to the sorted list of items (\<open>ins_items\<close>), and the AVL invariant is shown to be kept.
\<close>

subsection \<open>Model\<close>

fun set_data :: "('a, 'm) is_tree \<Rightarrow> 'a \<Rightarrow> ('a, 'm) is_tree" where
  "set_data Leaf v = Leaf"
| "set_data (Node l x b m r) v = Node l v b m r"

datatype ('a, 'm) search_result =
    Found "('a, 'm) is_tree" "('a, 'm) path"
  | Attach bool "('a, 'm) is_tree" "('a, 'm) path"

text \<open>
  The descent of \<open>insert\<close>. It is entered and continued on non-null nodes only, so the equation
  for \<open>Leaf\<close> is never used.
\<close>

fun insert_search ::
  "'a::linorder \<Rightarrow> ('a, 'm) is_tree \<Rightarrow> ('a, 'm) path \<Rightarrow> ('a, 'm) search_result" where
  "insert_search data Leaf path = Attach False Leaf path"
| "insert_search data (Node l x b m r) path =
     (let t = Node l x b m r; d = x < data
      in if \<not> d \<and> \<not> data < x then Found t path
         else if (if d then r else l) = Leaf then Attach d t path
         else insert_search data (if d then r else l) (down_frame t d # path))"

definition insert_rebalance ::
  "('a, 'm::ab_group_add) is_tree \<Rightarrow> bool \<Rightarrow> ('a, 'm) is_tree result" where
  "insert_rebalance t d =
     (let n = child t d; bal = dir_sign d
      in if balance n = bal
         then ISRotate (set_child (set_balance t 0) d (set_balance n 0)) (\<not> d)
         else bind_result (ISAdjustBalance t d bal) (\<lambda>t1.
              bind_result (ISRotate (child t1 d) d) (\<lambda>c.
              ISRotate (set_child t1 d c) (\<not> d))))"

fun insert_retrace ::
  "('a, 'm::ab_group_add) is_tree \<Rightarrow> bool \<Rightarrow> 'm \<Rightarrow> ('a, 'm) path \<Rightarrow> ('a, 'm) is_tree result" where
  "insert_retrace t0 d metric path =
     (let t = set_total (set_balance t0 (balance t0 + dir_sign d)) (total t0 + metric)
      in if balance t = 0 then Inr (plug t (add_totals metric path))
         else if balance t \<noteq> 1 \<and> balance t \<noteq> - 1
         then bind_result (insert_rebalance t d) (\<lambda>t'. Inr (plug t' (add_totals metric path)))
         else case path of
                [] \<Rightarrow> Inr t
              | f # fs \<Rightarrow> insert_retrace (parent_node f t) (f_dir f) metric fs)"

definition is_insert ::
  "('a::linorder, 'm::ab_group_add) is_tree \<Rightarrow> 'a \<Rightarrow> 'm \<Rightarrow> bool \<Rightarrow> ('a, 'm) is_tree result" where
  "is_insert root data metric replaceExisting =
     (if root = Leaf then Inr (Node Leaf data 0 metric Leaf)
      else case insert_search data root [] of
             Found t path \<Rightarrow>
               if replaceExisting
               then let t1 = set_total (set_data t data) metric;
                        t2 = (if child t1 False \<noteq> Leaf
                              then set_total t1 (total t1 + total (child t1 False)) else t1);
                        t3 = (if child t2 True \<noteq> Leaf
                              then set_total t2 (total t2 + total (child t2 True)) else t2);
                        delta = total t3 - total t
                    in Inr (plug t3 (add_totals delta path))
               else Inr root
           | Attach d t path \<Rightarrow>
               insert_retrace (set_child t d (Node Leaf data 0 metric Leaf)) d metric path)"

subsection \<open>Specification on lists of items\<close>

fun ins_items :: "'a::linorder \<Rightarrow> 'm \<Rightarrow> bool \<Rightarrow> ('a \<times> 'm) list \<Rightarrow> ('a \<times> 'm) list" where
  "ins_items x m rep [] = [(x, m)]"
| "ins_items x m rep ((y, k) # ys) =
     (if x < y then (x, m) # (y, k) # ys
      else if x = y then (if rep then (x, m) else (y, k)) # ys
      else (y, k) # ins_items x m rep ys)"

lemma ins_items_between:
  "\<forall>y \<in> set L. fst y < x \<Longrightarrow> \<forall>y \<in> set R. x < fst y \<Longrightarrow> ins_items x m rep (L @ R) = L @ (x, m) # R"
  by (induction L; cases R) auto

lemma ins_items_at:
  "\<forall>y \<in> set L. fst y < x \<Longrightarrow>
   ins_items x m rep (L @ (x, k) # R) = L @ (if rep then (x, m) else (x, k)) # R"
  by (induction L) auto

lemma set_ins_items: "fst ` set (ins_items x m rep xs) = insert x (fst ` set xs)"
  by (induction x m rep xs rule: ins_items.induct) auto

lemma sorted_ins_items: "sorted_items xs \<Longrightarrow> sorted_items (ins_items x m rep xs)"
proof (induction x m rep xs rule: ins_items.induct)
  case (2 x m rep y k ys)
  have "fst ` set (ins_items x m rep ys) = insert x (fst ` set ys)" by (rule set_ins_items)
  with 2 show ?case by (force simp: sorted_items_def)
qed (simp add: sorted_items_def)

lemma map_of_ins_items:
  "sorted_items xs \<Longrightarrow> map_of (ins_items x m rep xs) =
     (if rep \<or> map_of xs x = None then (map_of xs)(x \<mapsto> m) else map_of xs)"
proof (induction x m rep xs rule: ins_items.induct)
  case (2 x m rep y k ys)
  have "x < y \<Longrightarrow> map_of ys x = None"
    using "2.prems" by (force simp: sorted_items_def map_of_eq_None_iff)
  with 2 show ?case by (auto simp: sorted_items_def fun_eq_iff)
qed auto

subsection \<open>The descent\<close>

lemma sorted_items_append:
  "sorted_items (xs @ ys) \<longleftrightarrow>
     sorted_items xs \<and> sorted_items ys \<and> (\<forall>x \<in> set xs. \<forall>y \<in> set ys. fst x < fst y)"
  by (auto simp: sorted_items_def sorted_wrt_append)

lemma sorted_items_Cons:
  "sorted_items (x # xs) \<longleftrightarrow> sorted_items xs \<and> (\<forall>y \<in> set xs. fst x < fst y)"
  by (auto simp: sorted_items_def)

definition hole_for :: "'a::linorder \<Rightarrow> 'm::ab_group_add \<Rightarrow> ('a, 'm) path \<Rightarrow> bool" where
  "hole_for x h fs \<longleftrightarrow> (\<forall>y \<in> set (litems h fs). fst y < x) \<and> (\<forall>y \<in> set (ritems h fs). x < fst y)"

lemma hole_for_down:
  fixes x :: "'a::linorder"
  assumes "sorted_items (items (Node l x b m r))" and "hole_for data m fs"
  shows "x < data \<Longrightarrow> hole_for data (total r) (Frame True x b m l # fs)"
    and "data < x \<Longrightarrow> hole_for data (total l) (Frame False x b m r # fs)"
  using assms by (force simp: hole_for_def sorted_items_append sorted_items_Cons path_simps)+

lemma insert_search_spec:
  assumes "t \<noteq> Leaf" and "sorted_items (items t)" and "hole_for data (total t) path"
  shows "case insert_search data t path of
      Found t' path' \<Rightarrow> plug t' path' = plug t path \<and> t' \<noteq> Leaf \<and> n_data t' = data \<and>
        hole_for data (total t') path' \<and> sorted_items (items t')
    | Attach d t' path' \<Rightarrow> plug t' path' = plug t path \<and> t' \<noteq> Leaf \<and> child t' d = Leaf \<and>
        hole_for data 0 (down_frame t' d # path')"
  using assms
proof (induction data t path rule: insert_search.induct)
  case (2 data l x b m r path)
  have sub: "sorted_items (items l)" "sorted_items (items r)"
    using "2.prems"(2) by (auto simp: sorted_items_append sorted_items_Cons)
  have h: "hole_for data m path" using "2.prems"(3) by simp
  note down = hole_for_down [OF "2.prems"(2) h]
  consider "x < data" | "data < x" | "x = data" by (metis linorder_neqE)
  then show ?case
  proof cases
    case 1
    with "2.IH" [of "Node l x b m r" True] sub down(1) [OF 1] show ?thesis
      by (auto simp: Let_def path_simps split: search_result.split search_result.split_asm)
  next
    case 2
    with "2.IH" [of "Node l x b m r" False] sub down(2) [OF 2] show ?thesis
      by (auto simp: Let_def path_simps split: search_result.split search_result.split_asm)
  next
    case 3
    with "2.prems" show ?thesis by (simp add: Let_def)
  qed
qed simp

subsection \<open>The retracing loop\<close>

lemma insert_rebalance_ok:
  assumes "avl c" and "balance c \<noteq> 0" and "avl s" and "height c = Suc (Suc (height s))"
  shows "\<exists>t'. insert_rebalance (parent_node (Frame d x (2 * dir_sign d) M s) c) d = Inr t' \<and>
    avl t' \<and> height t' = Suc (Suc (height s)) \<and> total t' = M \<and>
    items t' = items (parent_node (Frame d x (2 * dir_sign d) M s) c)"
proof -
  obtain cl y cb cm cr where c: "c = Node cl y cb cm cr" using assms(4) by (cases c) auto
  show ?thesis
  proof (cases "cb = dir_sign d")
    case True
    then show ?thesis using assms c
      by (cases d) (auto simp: insert_rebalance_def tree_simps path_simps)
  next
    case False
    then have cb: "cb = - dir_sign d" using assms(1,2) c by (cases d) auto
    then obtain nl z nb nm nr where "(if d then cl else cr) = Node nl z nb nm nr"
      using assms(1) c by (cases d; cases cl; cases cr) auto
    then show ?thesis using assms c cb
      by (cases d) (auto simp: insert_rebalance_def tree_simps path_simps max_def split: if_splits)
  qed
qed

lemma items_around_parent:
  "litems m fs @ items (parent_node (Frame d x b' (m + delta) s) c) @ ritems m fs =
   litems (total c - delta) (Frame d x b m s # fs) @ items c @
     ritems (total c - delta) (Frame d x b m s # fs)"
  by (cases d) (auto simp: path_simps algebra_simps)

lemma parent_node_updates:
  "set_total (set_balance (parent_node (Frame d x b m s) c) b') m' = parent_node (Frame d x b' m' s) c"
  "balance (parent_node (Frame d x b m s) c) = b" "total (parent_node (Frame d x b m s) c) = m"
  "height (parent_node (Frame d x b m s) c) = Suc (max (height c) (height s))"
  by (cases d; simp add: path_simps max.commute)+

lemma avl_parent_node:
  "avl (parent_node (Frame d x b m s) c) \<longleftrightarrow>
     b = dir_sign d * (int (height c) - int (height s)) \<and> - 1 \<le> b \<and> b \<le> 1 \<and> avl s \<and> avl c"
  by (cases d) (auto simp: path_simps)

declare insert_retrace.simps [simp del]

lemma insert_retrace_step:
  "insert_retrace (parent_node (Frame d x b m s) c) d metric path =
     (let t = parent_node (Frame d x (b + dir_sign d) (m + metric) s) c
      in if b + dir_sign d = 0 then Inr (plug t (add_totals metric path))
         else if b + dir_sign d \<noteq> 1 \<and> b + dir_sign d \<noteq> - 1
         then bind_result (insert_rebalance t d) (\<lambda>t'. Inr (plug t' (add_totals metric path)))
         else case path of
                [] \<Rightarrow> Inr t
              | f # fs \<Rightarrow> insert_retrace (parent_node f t) (f_dir f) metric fs)"
  by (subst insert_retrace.simps) (simp only: parent_node_updates Let_def)

text \<open>The loop stops at a node that was lighter or heavier on the grown side.\<close>

lemma insert_retrace_stops:
  assumes "avl c" and "height c = Suc h" and "balance c \<noteq> 0 \<or> h = 0"
    and "avl_path h (Frame d x b m s # fs)" and "b \<noteq> 0"
  shows "\<exists>t'. insert_retrace (parent_node (Frame d x b m s) c) d metric fs = Inr t' \<and> avl t' \<and>
    items t' = litems (total c - metric) (Frame d x b m s # fs) @ items c @
      ritems (total c - metric) (Frame d x b m s # fs)"
proof -
  have b: "b = dir_sign d * (int h - int (height s))" "- 1 \<le> b" "b \<le> 1" "avl s"
    and fs: "avl_path (Suc (max h (height s))) fs"
    using assms(4) by auto
  let ?t = "parent_node (Frame d x (b + dir_sign d) (m + metric) s) c"
  note around = items_around_parent [of m fs d x "b + dir_sign d" metric s c b]
  have "b = 1 \<or> b = - 1" using b(2,3) assms(5) by linarith
  then consider "b = dir_sign d" | "b = - dir_sign d" by (cases d) auto
  then show ?thesis
  proof cases
    case 1
    then have hc: "height c = Suc (Suc (height s))" and nz: "balance c \<noteq> 0"
      and hh: "h = Suc (height s)" using b assms(2,3) by (cases d; auto)+
    have t2: "?t = parent_node (Frame d x (2 * dir_sign d) (m + metric) s) c" using 1 by simp
    obtain t' where t': "insert_rebalance ?t d = Inr t'" "avl t'" "total t' = m + metric"
      "height t' = Suc (Suc (height s))" "items t' = items ?t"
      using insert_rebalance_ok [OF assms(1) nz b(4) hc, of d x "m + metric"] t2 by auto
    have "avl (plug t' (add_totals metric fs))"
      using t' fs hh by (simp add: avl_plug)
    moreover have "items (plug t' (add_totals metric fs)) = litems m fs @ items ?t @ ritems m fs"
      using t' by (simp add: items_plug_shift)
    moreover have "b + dir_sign d \<noteq> 0" "b + dir_sign d \<noteq> 1" "b + dir_sign d \<noteq> - 1"
      using 1 by (cases d; simp)+
    ultimately show ?thesis
      using t'(1) around by (simp add: insert_retrace_step Let_def)
  next
    case 2
    then have t: "avl ?t" "height ?t = Suc (max h (height s))" "total ?t = m + metric"
      using b assms(1,2) by (cases d; auto simp: avl_parent_node parent_node_updates)+
    have "avl (plug ?t (add_totals metric fs))"
      using t fs by (simp add: avl_plug)
    moreover have "items (plug ?t (add_totals metric fs)) = litems m fs @ items ?t @ ritems m fs"
      using t by (simp add: items_plug_shift)
    moreover have "b + dir_sign d = 0" using 2 by simp
    ultimately show ?thesis using around by (simp add: insert_retrace_step Let_def)
  qed
qed

lemma insert_retrace_ok:
  assumes "avl c" and "height c = Suc h" and "balance c \<noteq> 0 \<or> h = 0" and "avl_path h (f # fs)"
  shows "\<exists>t'. insert_retrace (parent_node f c) (f_dir f) metric fs = Inr t' \<and> avl t' \<and>
    items t' = litems (total c - metric) (f # fs) @ items c @ ritems (total c - metric) (f # fs)"
  using assms
proof (induction fs arbitrary: c h f)
  case base: Nil
  obtain d x b m s where f: "f = Frame d x b m s" by (cases f)
  show ?case
  proof (cases "b = 0")
    case True
    let ?t = "parent_node (Frame d x (dir_sign d) (m + metric) s) c"
    have "avl ?t" using base.prems f True by (cases d) (auto simp: avl_parent_node)
    moreover have "dir_sign d \<noteq> 0" "dir_sign d = 1 \<or> dir_sign d = - 1" by (cases d; simp)+
    ultimately show ?thesis
      using f True items_around_parent [of m "[]" d x "dir_sign d" metric s c 0]
      by (auto simp: insert_retrace_step Let_def)
  next
    case False
    then show ?thesis using insert_retrace_stops [OF base.prems(1-3)] base.prems(4) f by auto
  qed
next
  case step: (Cons g fs)
  obtain d x b m s where f: "f = Frame d x b m s" by (cases f)
  show ?case
  proof (cases "b = 0")
    case True
    let ?t = "parent_node (Frame d x (dir_sign d) (m + metric) s) c"
    have t: "avl ?t" "height ?t = Suc (Suc (max h (height s)))" "balance ?t \<noteq> 0"
      using step.prems f True by (cases d; auto simp: avl_parent_node parent_node_updates)+
    moreover have "avl_path (Suc (max h (height s))) (g # fs)" using step.prems(4) f by simp
    ultimately obtain t' where "insert_retrace (parent_node g ?t) (f_dir g) metric fs = Inr t'"
      "avl t'" "items t' = litems (total ?t - metric) (g # fs) @ items ?t @ ritems (total ?t - metric) (g # fs)"
      using step.IH [of ?t "Suc (max h (height s))" g] by blast
    moreover have "dir_sign d \<noteq> 0" "dir_sign d = 1 \<or> dir_sign d = - 1" by (cases d; simp)+
    moreover have "total ?t = m + metric" by (simp only: parent_node_updates)
    ultimately show ?thesis
      using f True items_around_parent [of m "g # fs" d x "dir_sign d" metric s c 0]
      by (auto simp: insert_retrace_step Let_def)
  next
    case False
    then show ?thesis using insert_retrace_stops [OF step.prems(1-3)] step.prems(4) f by auto
  qed
qed

subsection \<open>Correctness of insert\<close>

lemma set_child_parent_node:
  "t \<noteq> Leaf \<Longrightarrow> set_child t d c = parent_node (down_frame t d) c \<and> f_dir (down_frame t d) = d"
  by (cases t; cases d) (auto simp: path_simps)

lemma plug_child_hole:
  "t \<noteq> Leaf \<Longrightarrow> child t d = Leaf \<Longrightarrow> plug Leaf (down_frame t d # fs) = plug t fs"
  by (metis plug_child)

lemma is_insert_attach:
  assumes "t \<noteq> Leaf" and "child t d = Leaf" and "avl (plug t path)"
    and "hole_for x 0 (down_frame t d # path)"
  shows "\<exists>t'. insert_retrace (set_child t d (Node Leaf x 0 m Leaf)) d m path = Inr t' \<and> avl t' \<and>
    items t' = ins_items x m rep (items (plug t path))"
proof -
  let ?f = "down_frame t d" and ?c = "Node Leaf x 0 m Leaf"
  have pl: "plug Leaf (?f # path) = plug t path" by (rule plug_child_hole [OF assms(1,2)])
  then have ap: "avl_path 0 (?f # path)"
    using assms(3) avl_plug [of Leaf "?f # path"] by simp
  have its: "items (plug t path) = litems 0 (?f # path) @ ritems 0 (?f # path)"
    using items_plug [of Leaf "?f # path"] pl by simp
  obtain t' where "insert_retrace (parent_node ?f ?c) (f_dir ?f) m path = Inr t'" "avl t'"
    "items t' = litems 0 (?f # path) @ items ?c @ ritems 0 (?f # path)"
    using insert_retrace_ok [of ?c 0 ?f path m] ap by auto
  moreover have "ins_items x m rep (items (plug t path)) =
      litems 0 (?f # path) @ (x, m) # ritems 0 (?f # path)"
    using assms(4) unfolding its hole_for_def by (intro ins_items_between) auto
  ultimately show ?thesis using set_child_parent_node [OF assms(1)] by simp
qed

lemma is_insert_overwrite:
  fixes l r :: "('a::linorder, 'm::ab_group_add) is_tree" and m :: 'm
  assumes "avl (plug (Node l x b k r) path)" and "hole_for x k path"
    and "sorted_items (items (Node l x b k r))"
  defines "k' \<equiv> m + total l + total r"
  shows "avl (plug (Node l x b k' r) (add_totals (k' - k) path))"
    and "items (plug (Node l x b k' r) (add_totals (k' - k) path)) =
      ins_items x m True (items (plug (Node l x b k r) path))"
proof -
  show "avl (plug (Node l x b k' r) (add_totals (k' - k) path))"
    using assms(1) by (simp add: avl_plug)
  have "\<forall>y \<in> set (litems k path @ items l). fst y < x"
    using assms(2,3) by (auto simp: hole_for_def sorted_items_append)
  then have "ins_items x m True ((litems k path @ items l) @ (x, k - total l - total r) #
      (items r @ ritems k path)) = (litems k path @ items l) @ (x, m) # (items r @ ritems k path)"
    by (subst ins_items_at) simp_all
  then show "items (plug (Node l x b k' r) (add_totals (k' - k) path)) =
      ins_items x m True (items (plug (Node l x b k r) path))"
    unfolding items_plug_shift by (simp add: items_plug k'_def)
qed

lemma ins_items_keep:
  assumes "sorted_items (L @ (x, k) # R)"
  shows "ins_items x m False (L @ (x, k) # R) = L @ (x, k) # R"
  using assms by (subst ins_items_at) (auto simp: sorted_items_append)

lemma is_insert_ok:
  fixes root :: "('a::linorder, 'm::ab_group_add) is_tree"
  assumes "is_ok root"
  shows "\<exists>t'. is_insert root x m rep = Inr t' \<and> is_ok t' \<and> items t' = ins_items x m rep (items root)"
proof (cases "root = Leaf")
  case True
  then show ?thesis by (simp add: is_insert_def is_ok_def sorted_items_def)
next
  case False
  have a: "avl root" and s: "sorted_items (items root)" using assms by (auto simp: is_ok_def)
  have sp: "hole_for x (total root) []" by (simp add: hole_for_def)
  note search = insert_search_spec [OF False s sp]
  have "\<exists>t'. is_insert root x m rep = Inr t' \<and> avl t' \<and> items t' = ins_items x m rep (items root)"
  proof (cases "insert_search x root []")
    case (Attach d t path)
    then show ?thesis
      using search a False is_insert_attach [of t d path x m rep] by (simp add: is_insert_def)
  next
    case (Found t path)
    then obtain l b k r where t: "t = Node l x b k r" using search by (cases t) auto
    have root: "plug (Node l x b k r) path = root" using search Found t by simp
    show ?thesis
    proof (cases rep)
      case True
      have "hole_for x k path" "sorted_items (items (Node l x b k r))"
        using search Found t by simp_all
      then show ?thesis
        using is_insert_overwrite [of l x b k r path m] root a True False Found t
        by (cases "l = Leaf"; cases "r = Leaf") (simp_all add: is_insert_def Let_def)
    next
      case rep: False
      have "items root = (litems k path @ items l) @ (x, k - total l - total r) #
          (items r @ ritems k path)" using items_plug [of "Node l x b k r" path] root by simp
      then show ?thesis
        using ins_items_keep [of "litems k path @ items l" x _ "items r @ ritems k path" m]
          s rep False Found a by (simp add: is_insert_def)
    qed
  qed
  then show ?thesis using s sorted_ins_items by (auto simp: is_ok_def)
qed

text \<open>
  Property C26: inserting an item with a metric into a well-formed \<open>IndexedSet\<close> never reaches a null
  pointer or a failed rotation, keeps the AVL and ordering invariants, and produces exactly the
  ordered list with the item added; an existing equal item keeps its place and has its metric
  replaced exactly when \<open>replaceExisting\<close> is set. As a map from items to metrics this is an
  update.
\<close>

theorem is_insert_refines:
  fixes root :: "('a::linorder, 'm::ab_group_add) is_tree"
  assumes "is_ok root"
  shows "\<exists>t'. is_insert root x m rep = Inr t' \<and> is_ok t' \<and>
    items t' = ins_items x m rep (items root) \<and>
    map_of (items t') = (if rep \<or> map_of (items root) x = None
                         then (map_of (items root))(x \<mapsto> m) else map_of (items root))"
  using is_insert_ok [OF assms, of x m rep] map_of_ins_items [of "items root" x m rep] assms
  by (auto simp: is_ok_def)

text \<open>The insertion of 30 makes the root of this tree rotate.\<close>

definition right_spine :: "(int, int) is_tree" where
  "right_spine = Node Leaf 10 1 7 (Node Leaf 20 0 5 Leaf)"

theorem is_insert_refines_witness:
  "is_ok right_spine \<and>
   is_insert right_spine 30 4 True =
     Inr (Node (Node Leaf 10 0 2 Leaf) 20 0 11 (Node Leaf 30 0 4 Leaf)) \<and>
   map_of (items (Node (Node Leaf 10 0 2 Leaf) 20 0 11 (Node Leaf 30 0 4 Leaf))) =
     (map_of (items right_spine))(30 \<mapsto> 4)"
proof -
  have ok: "is_ok right_spine"
    by (simp add: right_spine_def is_ok_def sorted_items_def)
  moreover have ev: "is_insert right_spine 30 4 True =
     Inr (Node (Node Leaf 10 0 2 Leaf) 20 0 11 (Node Leaf 30 0 4 Leaf))"
    by (simp add: right_spine_def is_insert_def insert_retrace.simps insert_rebalance_def
        ISRotate_def path_simps add_total_def)
  ultimately show ?thesis using is_insert_refines [OF ok, of 30 4 True] by (metis Inr_inject)
qed

end
