(* ===== verification/IS_Search.thy ===== *)
theory IS_Search
  imports IS_Insert
begin

text \<open>
  Iterators and queries of \<open>IndexedSet\<close>. An iterator is a \<open>Node*\<close>: a location (subtree and
  path), with \<open>None\<close> for the null pointer \<open>end()\<close>. Comparing two node pointers is comparing two
  locations: two different nodes of one tree differ in their paths. The theory models
  \<open>moveIterator\<close>, \<open>begin\<close>, \<open>lastItem\<close>, \<open>previous\<close>, the three bound searches, \<open>index\<close>,
  \<open>getMetric\<close>, \<open>sumTo\<close> and \<open>addMetric\<close>, and relates each to the list of items.
\<close>

subsection \<open>Model\<close>

type_synonym ('a, 'm) iter = "('a, 'm) loc option"

fun descend :: "bool \<Rightarrow> ('a, 'm) is_tree \<Rightarrow> ('a, 'm) path \<Rightarrow> ('a, 'm) loc" where
  "descend d Leaf path = (Leaf, path)"
| "descend d (Node l x b m r) path =
     (if (if d then r else l) = Leaf then (Node l x b m r, path)
      else descend d (if d then r else l) (down_frame (Node l x b m r) d # path))"

fun climb :: "bool \<Rightarrow> ('a, 'm) is_tree \<Rightarrow> ('a, 'm) path \<Rightarrow> ('a, 'm) iter" where
  "climb d t [] = None"
| "climb d t (f # fs) =
     (if f_dir f = d then climb d (parent_node f t) fs else Some (parent_node f t, fs))"

definition moveIterator :: "bool \<Rightarrow> ('a, 'm) loc \<Rightarrow> ('a, 'm) iter" where
  "moveIterator d i =
     (let (t, path) = i
      in if child t d \<noteq> Leaf then Some (descend (\<not> d) (child t d) (down_frame t d # path))
         else climb d t path)"

definition begin_iter :: "('a, 'm) is_tree \<Rightarrow> ('a, 'm) iter" where
  "begin_iter root = (if root = Leaf then None else Some (descend False root []))"

definition lastItem :: "('a, 'm) is_tree \<Rightarrow> ('a, 'm) iter" where
  "lastItem root = (if root = Leaf then None else Some (descend True root []))"

definition previous :: "('a, 'm) is_tree \<Rightarrow> ('a, 'm) iter \<Rightarrow> ('a, 'm) iter" where
  "previous root i = (case i of None \<Rightarrow> lastItem root | Some l \<Rightarrow> moveIterator False l)"

fun find_from :: "'a::linorder \<Rightarrow> ('a, 'm) is_tree \<Rightarrow> ('a, 'm) path \<Rightarrow> ('a, 'm) iter" where
  "find_from key Leaf path = None"
| "find_from key (Node l x b m r) path =
     (let d = x < key
      in if \<not> d \<and> \<not> key < x then Some (Node l x b m r, path)
         else find_from key (if d then r else l) (down_frame (Node l x b m r) d # path))"

definition is_find :: "('a::linorder, 'm) is_tree \<Rightarrow> 'a \<Rightarrow> ('a, 'm) iter" where
  "is_find root key = find_from key root []"

text \<open>
  The descent of \<open>lower_bound\<close> and \<open>upper_bound\<close>: \<open>right x\<close> is the test that picks the child
  (\<open>t->data < key\<close>, respectively \<open>!(key < t->data)\<close>).
\<close>

fun bound_descend :: "('a \<Rightarrow> bool) \<Rightarrow> ('a, 'm) is_tree \<Rightarrow> ('a, 'm) path \<Rightarrow> ('a, 'm) loc" where
  "bound_descend right Leaf path = (Leaf, path)"
| "bound_descend right (Node l x b m r) path =
     (if (if right x then r else l) = Leaf then (Node l x b m r, path)
      else bound_descend right (if right x then r else l)
             (down_frame (Node l x b m r) (right x) # path))"

definition bound_search :: "('a \<Rightarrow> bool) \<Rightarrow> ('a, 'm) is_tree \<Rightarrow> ('a, 'm) iter" where
  "bound_search right root =
     (if root = Leaf then None
      else let i = bound_descend right root []
           in if right (n_data (fst i)) then moveIterator True i else Some i)"

definition lower_bound :: "('a::linorder, 'm) is_tree \<Rightarrow> 'a \<Rightarrow> ('a, 'm) iter" where
  "lower_bound root key = bound_search (\<lambda>x. x < key) root"

definition upper_bound :: "('a::linorder, 'm) is_tree \<Rightarrow> 'a \<Rightarrow> ('a, 'm) iter" where
  "upper_bound root key = bound_search (\<lambda>x. \<not> key < x) root"

definition lastLessOrEqual :: "('a::linorder, 'm) is_tree \<Rightarrow> 'a \<Rightarrow> ('a, 'm) iter" where
  "lastLessOrEqual root key =
     (let i = upper_bound root key
      in if i = begin_iter root then None else previous root i)"

fun index_from ::
  "'m::linordered_ab_group_add \<Rightarrow> ('a, 'm) is_tree \<Rightarrow> ('a, 'm) path \<Rightarrow> ('a, 'm) iter" where
  "index_from m Leaf path = None"
| "index_from m (Node l x b k r) path =
     (if l \<noteq> Leaf \<and> m < total l
      then index_from m l (down_frame (Node l x b k r) False # path)
      else let m1 = m - k; m2 = (if r \<noteq> Leaf then m1 + total r else m1)
           in if m2 < 0 then Some (Node l x b k r, path)
              else index_from m2 r (down_frame (Node l x b k r) True # path))"

definition is_index ::
  "('a, 'm::linordered_ab_group_add) is_tree \<Rightarrow> 'm \<Rightarrow> ('a, 'm) iter" where
  "is_index root metric = index_from metric root []"

definition getMetric :: "('a, 'm::ab_group_add) loc \<Rightarrow> 'm" where
  "getMetric x =
     (let t = fst x; m = total t;
          m0 = (if child t False \<noteq> Leaf then m - total (child t False) else m)
      in if child t True \<noteq> Leaf then m0 - total (child t True) else m0)"

fun sum_up :: "'m::ab_group_add \<Rightarrow> 'm \<Rightarrow> ('a, 'm) path \<Rightarrow> 'm" where
  "sum_up m p_total [] = m"
| "sum_up m p_total (f # fs) =
     sum_up (if f_dir f then m - p_total + f_total f else m) (f_total f) fs"

definition sumTo :: "('a, 'm::ab_group_add) is_tree \<Rightarrow> ('a, 'm) iter \<Rightarrow> 'm" where
  "sumTo root end =
     (case end of None \<Rightarrow> total root
      | Some (t, path) \<Rightarrow> sum_up (total (child t False)) (total t) path)"

definition sumRange ::
  "('a, 'm::ab_group_add) is_tree \<Rightarrow> ('a, 'm) iter \<Rightarrow> ('a, 'm) iter \<Rightarrow> 'm" where
  "sumRange root b e = sumTo root e - sumTo root b"

definition sumRange_keys ::
  "('a::linorder, 'm::ab_group_add) is_tree \<Rightarrow> 'a \<Rightarrow> 'a \<Rightarrow> 'm" where
  "sumRange_keys root b e = sumRange root (lower_bound root b) (lower_bound root e)"

definition is_count :: "('a::linorder, 'm) is_tree \<Rightarrow> 'a \<Rightarrow> nat" where
  "is_count root key = (if is_find root key \<noteq> None then 1 else 0)"

definition addMetric ::
  "('a::linorder, 'm::ab_group_add) is_tree \<Rightarrow> 'a \<Rightarrow> 'm \<Rightarrow> (('a, 'm) is_tree \<times> 'm) result" where
  "addMetric root data metric =
     (case is_find root data of
        None \<Rightarrow> bind_result (is_insert root data metric True) (\<lambda>r. Inr (r, metric))
      | Some i \<Rightarrow> (let m = metric + getMetric i
                   in bind_result (is_insert root data m True) (\<lambda>r. Inr (r, m))))"

subsection \<open>Locations against the list of items\<close>

text \<open>
  A valid location of \<open>root\<close> splits its items into those before it, its own, and those after.
\<close>

definition at :: "('a, 'm::ab_group_add) is_tree \<Rightarrow> ('a, 'm) loc \<Rightarrow> bool" where
  "at root i \<longleftrightarrow> plug (fst i) (snd i) = root \<and> fst i \<noteq> Leaf"

definition before :: "('a, 'm::ab_group_add) loc \<Rightarrow> ('a \<times> 'm) list" where
  "before i = litems (total (fst i)) (snd i) @ items (n_left (fst i))"

definition after :: "('a, 'm::ab_group_add) loc \<Rightarrow> ('a \<times> 'm) list" where
  "after i = items (n_right (fst i)) @ ritems (total (fst i)) (snd i)"

definition here :: "('a, 'm::ab_group_add) loc \<Rightarrow> 'a \<times> 'm" where
  "here i = (n_data (fst i), getMetric i)"

text \<open>The items from an iterator on, and those before it; \<open>end()\<close> is after every item.\<close>

definition from_iter :: "('a, 'm::ab_group_add) iter \<Rightarrow> ('a \<times> 'm) list" where
  "from_iter i = (case i of None \<Rightarrow> [] | Some l \<Rightarrow> here l # after l)"

definition upto_iter :: "('a, 'm::ab_group_add) is_tree \<Rightarrow> ('a, 'm) iter \<Rightarrow> ('a \<times> 'm) list" where
  "upto_iter root i = (case i of None \<Rightarrow> items root | Some l \<Rightarrow> before l)"

definition iter_of :: "('a, 'm::ab_group_add) is_tree \<Rightarrow> ('a, 'm) iter \<Rightarrow> bool" where
  "iter_of root i \<longleftrightarrow> (case i of None \<Rightarrow> True | Some l \<Rightarrow> at root l)"

lemma at_Node:
  "at root (Node l x b m r, path) \<longleftrightarrow> plug (Node l x b m r) path = root"
  "before (Node l x b m r, path) = litems m path @ items l"
  "after (Node l x b m r, path) = items r @ ritems m path"
  "here (Node l x b m r, path) = (x, m - total l - total r)"
  by (cases l; cases r; simp add: at_def before_def after_def here_def getMetric_def)+

lemma at_split: "at root i \<Longrightarrow> items root = before i @ here i # after i"
  by (cases i; cases "fst i") (auto simp: at_Node at_def items_plug dest: sym)

lemma iter_split: "iter_of root i \<Longrightarrow> items root = upto_iter root i @ from_iter i"
  by (cases i) (auto simp: iter_of_def upto_iter_def from_iter_def at_split)

lemma at_iff_plug: "at root (t, path) \<longleftrightarrow> plug t path = root \<and> t \<noteq> Leaf"
  by (simp add: at_def)

lemma descend_ok:
  "at root (t, path) \<Longrightarrow> at root (descend d t path) \<and>
   (if d then after (descend d t path) = ritems (total t) path
    else before (descend d t path) = litems (total t) path)"
proof (induction d t path rule: descend.induct)
  case (2 d l x b m r path)
  show ?case
  proof (cases "(if d then r else l) = Leaf")
    case True
    then show ?thesis using "2.prems" by (auto simp: at_Node)
  next
    case False
    have "at root (if d then r else l, down_frame (Node l x b m r) d # path)"
      using "2.prems" False by (auto simp: at_def path_simps)
    then show ?thesis using "2.IH" [OF False] False by (auto simp: path_simps)
  qed
qed (simp add: at_def)

lemma climb_None:
  "climb d t path = None \<Longrightarrow> (if d then ritems (total t) path = [] else litems (total t) path = [])"
proof (induction path arbitrary: t)
  case (Cons f fs)
  obtain d' x b m s where f: "f = Frame d' x b m s" by (cases f)
  have "d' = d" "climb d (parent_node f t) fs = None" using Cons.prems f by (simp_all split: if_splits)
  with Cons.IH [of "parent_node f t"] f show ?case
    by (cases d) (simp_all add: path_simps)
qed simp

lemma climb_Some:
  "climb d t path = Some i \<Longrightarrow> at (plug t path) i \<and>
   (if d then ritems (total t) path = here i # after i \<and> before i = litems (total t) path @ items t
    else litems (total t) path = before i @ [here i] \<and> after i = items t @ ritems (total t) path)"
proof (induction path arbitrary: t)
  case (Cons f fs)
  obtain d' x b m s where f: "f = Frame d' x b m s" by (cases f)
  show ?case
  proof (cases "d' = d")
    case True
    then have "climb d (parent_node f t) fs = Some i" using Cons.prems f by simp
    from Cons.IH [OF this] True f show ?thesis
      by (cases d) (simp_all add: path_simps)
  next
    case False
    then have "i = (parent_node f t, fs)" using Cons.prems f by simp
    with False f show ?thesis by (cases d) (simp_all add: path_simps at_Node)
  qed
qed simp

lemma moveIterator_next:
  assumes "at root i"
  shows "iter_of root (moveIterator True i)" and "from_iter (moveIterator True i) = after i"
proof -
  obtain l x b m r path where i: "i = (Node l x b m r, path)"
    using assms by (cases i; cases "fst i") (auto simp: at_def)
  have root: "plug (Node l x b m r) path = root" using assms i by (simp add: at_Node)
  show "iter_of root (moveIterator True i)" "from_iter (moveIterator True i) = after i"
  proof (atomize (full), cases "r = Leaf")
    case True
    then show "iter_of root (moveIterator True i) \<and> from_iter (moveIterator True i) = after i"
      using climb_None [of True "Node l x b m r" path] climb_Some [of True "Node l x b m r" path] root
      by (cases "climb True (Node l x b m r) path")
        (auto simp: i moveIterator_def at_Node iter_of_def from_iter_def)
  next
    case False
    let ?p = "Frame True x b m l # path" and ?j = "descend False r (Frame True x b m l # path)"
    have "at root (r, ?p)" using root False by (simp add: at_iff_plug path_simps)
    then have j: "at root ?j" "before ?j = litems (total r) ?p" using descend_ok [of root r ?p False] by auto
    have "before ?j @ here ?j # after ?j = before i @ here i # after i"
      using at_split [OF j(1)] at_split [OF assms] by simp
    then have "here ?j # after ?j = after i"
      using j(2) by (simp add: i at_Node path_simps)
    then show "iter_of root (moveIterator True i) \<and> from_iter (moveIterator True i) = after i"
      using False j(1) by (simp add: i moveIterator_def iter_of_def from_iter_def)
  qed
qed

lemma moveIterator_prev:
  assumes "at root i"
  shows "case moveIterator False i of None \<Rightarrow> before i = []
     | Some j \<Rightarrow> at root j \<and> before i = before j @ [here j] \<and> after j = here i # after i"
proof -
  obtain l x b m r path where i: "i = (Node l x b m r, path)"
    using assms by (cases i; cases "fst i") (auto simp: at_def)
  have root: "plug (Node l x b m r) path = root" using assms i by (simp add: at_Node)
  show ?thesis
  proof (cases "l = Leaf")
    case True
    then show ?thesis
      using climb_None [of False "Node l x b m r" path] climb_Some [of False "Node l x b m r" path] root
      by (cases "climb False (Node l x b m r) path") (auto simp: i moveIterator_def at_Node)
  next
    case False
    let ?p = "Frame False x b m r # path" and ?j = "descend True l (Frame False x b m r # path)"
    have "at root (l, ?p)" using root False by (simp add: at_iff_plug path_simps)
    then have j: "at root ?j" "after ?j = ritems (total l) ?p" using descend_ok [of root l ?p True] by auto
    then have aft: "after ?j = here i # after i" by (simp add: i at_Node path_simps)
    have "(before ?j @ [here ?j]) @ here i # after i = before i @ here i # after i"
      using at_split [OF j(1)] at_split [OF assms] aft by simp
    then have "before i = before ?j @ [here ?j]" by simp
    then show ?thesis
      using False j(1) aft by (simp add: i moveIterator_def)
  qed
qed

lemma at_root: "root \<noteq> Leaf \<Longrightarrow> at root (root, [])"
  by (simp add: at_def)

lemma begin_iter_ok: "iter_of root (begin_iter root)" "from_iter (begin_iter root) = items root"
proof -
  show "iter_of root (begin_iter root)"
    using descend_ok [OF at_root] by (auto simp: begin_iter_def iter_of_def)
  show "from_iter (begin_iter root) = items root"
    using descend_ok [OF at_root, of root False] at_split [of root "descend False root []"]
    by (auto simp: begin_iter_def from_iter_def)
qed

lemma lastItem_ok:
  "case lastItem root of None \<Rightarrow> items root = []
   | Some j \<Rightarrow> at root j \<and> items root = before j @ [here j] \<and> after j = []"
  using descend_ok [OF at_root, of root True] at_split [of root "descend True root []"]
  by (auto simp: lastItem_def)

lemma previous_ok:
  assumes "iter_of root i"
  shows "case previous root i of None \<Rightarrow> upto_iter root i = []
    | Some j \<Rightarrow> at root j \<and> upto_iter root i = before j @ [here j] \<and> after j = from_iter i"
proof (cases i)
  case None
  then show ?thesis using lastItem_ok [of root]
    by (auto simp: previous_def upto_iter_def from_iter_def split: option.splits)
next
  case (Some l)
  then have "at root l" using assms by (simp add: iter_of_def)
  then show ?thesis using moveIterator_prev [of root l] Some
    by (auto simp: previous_def upto_iter_def from_iter_def split: option.splits)
qed

subsection \<open>Searching by key\<close>

lemma sorted_items_subtrees:
  "sorted_items (items (Node l x b m r)) \<longleftrightarrow> sorted_items (items l) \<and> sorted_items (items r) \<and>
     (\<forall>y \<in> set (items l). fst y < x) \<and> (\<forall>y \<in> set (items r). x < fst y)"
  by (force simp: sorted_items_append sorted_items_Cons)

lemma find_from_ok:
  assumes "sorted_items (items t)"
  shows "case find_from key t path of
      None \<Rightarrow> \<forall>y \<in> set (items t). fst y \<noteq> key
    | Some i \<Rightarrow> at (plug t path) i \<and> fst (here i) = key"
  using assms
proof (induction key t path rule: find_from.induct)
  case (2 key l x b m r path)
  have sub: "sorted_items (items l)" "sorted_items (items r)"
    "\<forall>y \<in> set (items l). fst y < x" "\<forall>y \<in> set (items r). x < fst y"
    using "2.prems" unfolding sorted_items_subtrees by auto
  consider "x < key" | "key < x" | "x = key" by (metis linorder_neqE)
  then show ?case
  proof cases
    case 1
    moreover have "\<forall>y \<in> set (items l). fst y \<noteq> key" using sub(3) 1 by (auto dest: less_trans)
    ultimately show ?thesis using "2.IH"(1) [of True] sub(2)
      by (cases "find_from key r (Frame True x b m l # path)") (auto simp: Let_def path_simps)
  next
    case 2
    moreover have "\<forall>y \<in> set (items r). fst y \<noteq> key" using sub(4) 2 by (auto dest: less_trans)
    ultimately show ?thesis using "2.IH"(1) [of False] sub(1)
      by (cases "find_from key l (Frame False x b m r # path)") (auto simp: Let_def path_simps)
  next
    case 3
    then show ?thesis by (simp add: Let_def at_Node)
  qed
qed simp

lemma map_of_split:
  assumes "sorted_items (L @ y # R)"
  shows "map_of (L @ y # R) (fst y) = Some (snd y)"
proof -
  have "distinct (map fst (L @ y # R))"
    using assms unfolding sorted_items_def by (simp add: strict_sorted_iff)
  then have "map_of L (fst y) = None" by (auto simp: map_of_eq_None_iff)
  then show ?thesis by (simp add: map_add_def)
qed

lemma is_find_ok:
  assumes "is_ok root"
  shows "case is_find root key of
      None \<Rightarrow> map_of (items root) key = None
    | Some i \<Rightarrow> at root i \<and> fst (here i) = key \<and> map_of (items root) key = Some (getMetric i)"
proof -
  have s: "sorted_items (items root)" using assms by (simp add: is_ok_def)
  show ?thesis
  proof (cases "is_find root key")
    case None
    then show ?thesis using find_from_ok [OF s, of key "[]"]
      by (auto simp: is_find_def map_of_eq_None_iff)
  next
    case (Some i)
    then have i: "at root i" "fst (here i) = key"
      using find_from_ok [OF s, of key "[]"] by (simp_all add: is_find_def)
    have "map_of (items root) (fst (here i)) = Some (snd (here i))"
      using map_of_split [of "before i" "here i" "after i"] s at_split [OF i(1)] by simp
    then show ?thesis using Some i by (simp add: here_def)
  qed
qed

subsection \<open>Bound searches\<close>

text \<open>
  Both bound searches end at the boundary of a test that is true on a prefix of the items.
\<close>

lemma bound_descend_ok:
  assumes "at root (t, path)" and "\<forall>y \<in> set (litems (total t) path). right (fst y)"
    and "\<forall>y \<in> set (ritems (total t) path). \<not> right (fst y)"
    and "sorted_wrt (\<lambda>x y. right (fst y) \<longrightarrow> right (fst x)) (items t)"
  shows "at root (bound_descend right t path) \<and>
    (\<forall>y \<in> set (before (bound_descend right t path)). right (fst y)) \<and>
    (\<forall>y \<in> set (after (bound_descend right t path)). \<not> right (fst y))"
  using assms
proof (induction t arbitrary: path)
  case (Node l x b m r)
  have root: "plug (Node l x b m r) path = root" using Node.prems(1) by (simp add: at_Node)
  have sub: "sorted_wrt (\<lambda>x y. right (fst y) \<longrightarrow> right (fst x)) (items l)"
    "sorted_wrt (\<lambda>x y. right (fst y) \<longrightarrow> right (fst x)) (items r)"
    "right x \<Longrightarrow> \<forall>y \<in> set (items l). right (fst y)" "\<not> right x \<Longrightarrow> \<forall>y \<in> set (items r). \<not> right (fst y)"
    using Node.prems(4) by (auto simp: sorted_wrt_append)
  show ?case
  proof (cases "(if right x then r else l) = Leaf")
    case True
    then show ?thesis using Node.prems(1-3) sub(3,4) by (cases "right x") (auto simp: at_Node)
  next
    case False
    show ?thesis
    proof (cases "right x")
      case True
      have eq: "bound_descend right (Node l x b m r) path = bound_descend right r (Frame True x b m l # path)"
        using True False by simp
      have "at root (r, Frame True x b m l # path)"
        using root False True by (simp add: at_iff_plug path_simps)
      moreover have "\<forall>y \<in> set (litems (total r) (Frame True x b m l # path)). right (fst y)"
        "\<forall>y \<in> set (ritems (total r) (Frame True x b m l # path)). \<not> right (fst y)"
        using Node.prems(2,3) sub(3) True by (auto simp: path_simps)
      ultimately show ?thesis
        unfolding eq using sub(2) by (rule Node.IH(2))
    next
      case left: False
      have eq: "bound_descend right (Node l x b m r) path = bound_descend right l (Frame False x b m r # path)"
        using left False by simp
      have "at root (l, Frame False x b m r # path)"
        using root False left by (simp add: at_iff_plug path_simps)
      moreover have "\<forall>y \<in> set (litems (total l) (Frame False x b m r # path)). right (fst y)"
        "\<forall>y \<in> set (ritems (total l) (Frame False x b m r # path)). \<not> right (fst y)"
        using Node.prems(2,3) sub(4) left by (auto simp: path_simps)
      ultimately show ?thesis
        unfolding eq using sub(1) by (rule Node.IH(1))
    qed
  qed
qed (simp add: at_def)

lemma bound_search_ok:
  assumes "sorted_wrt (\<lambda>x y. right (fst y) \<longrightarrow> right (fst x)) (items root)"
  shows "iter_of root (bound_search right root)"
    and "upto_iter root (bound_search right root) = takeWhile (right \<circ> fst) (items root)"
    and "from_iter (bound_search right root) = dropWhile (right \<circ> fst) (items root)"
proof -
  let ?s = "bound_search right root" and ?i = "bound_descend right root []"
  have key: "iter_of root ?s \<and> (\<forall>y \<in> set (upto_iter root ?s). right (fst y)) \<and>
      (\<forall>y \<in> set (from_iter ?s). \<not> right (fst y))"
  proof (cases "root = Leaf")
    case True
    then show ?thesis by (simp add: bound_search_def iter_of_def upto_iter_def from_iter_def)
  next
    case False
    have i: "at root ?i" "\<forall>y \<in> set (before ?i). right (fst y)" "\<forall>y \<in> set (after ?i). \<not> right (fst y)"
      using bound_descend_ok [OF at_root [OF False], of right] assms by auto
    have h: "n_data (fst ?i) = fst (here ?i)" by (simp add: here_def)
    show ?thesis
    proof (cases "right (n_data (fst ?i))")
      case True
      have nx: "iter_of root (moveIterator True ?i)" "from_iter (moveIterator True ?i) = after ?i"
        by (rule moveIterator_next [OF i(1)])+
      have "upto_iter root (moveIterator True ?i) = before ?i @ [here ?i]"
        using iter_split [OF nx(1)] at_split [OF i(1)] nx(2) by simp
      then show ?thesis using True False nx i(2,3) h by (auto simp: bound_search_def Let_def)
    next
      case False': False
      then show ?thesis using False i h
        by (auto simp: bound_search_def Let_def iter_of_def upto_iter_def from_iter_def)
    qed
  qed
  then show it: "iter_of root ?s" by simp
  have "takeWhile (right \<circ> fst) (upto_iter root ?s @ from_iter ?s) = upto_iter root ?s"
    using key by (cases "from_iter ?s") (simp_all add: takeWhile_append2)
  then show "upto_iter root ?s = takeWhile (right \<circ> fst) (items root)"
    using iter_split [OF it] by simp
  have "dropWhile (right \<circ> fst) (upto_iter root ?s @ from_iter ?s) = from_iter ?s"
    using key by (cases "from_iter ?s") (simp_all add: dropWhile_append2)
  then show "from_iter ?s = dropWhile (right \<circ> fst) (items root)"
    using iter_split [OF it] by simp
qed

lemma sorted_items_mono:
  assumes "sorted_items xs" and "\<And>x y. x \<le> y \<Longrightarrow> right y \<Longrightarrow> right x"
  shows "sorted_wrt (\<lambda>x y. right (fst y) \<longrightarrow> right (fst x)) xs"
    and "takeWhile (right \<circ> fst) xs = filter (right \<circ> fst) xs"
    and "dropWhile (right \<circ> fst) xs = filter (\<lambda>y. \<not> right (fst y)) xs"
proof -
  show "sorted_wrt (\<lambda>x y. right (fst y) \<longrightarrow> right (fst x)) xs"
    using assms(1) unfolding sorted_items_def sorted_wrt_map
    by (rule sorted_wrt_mono_rel [rotated]) (meson assms(2) less_imp_le)
  show "takeWhile (right \<circ> fst) xs = filter (right \<circ> fst) xs"
    "dropWhile (right \<circ> fst) xs = filter (\<lambda>y. \<not> right (fst y)) xs"
    using assms(1)
  proof (atomize (full), induction xs)
    case (Cons z zs)
    show ?case
    proof (cases "right (fst z)")
      case True
      then show ?thesis using Cons by (simp add: sorted_items_Cons)
    next
      case False
      have "\<forall>y \<in> set zs. \<not> right (fst y)"
        using Cons.prems False assms(2) by (meson less_imp_le sorted_items_Cons)
      then show ?thesis using False by (simp add: filter_id_conv filter_empty_conv)
    qed
  qed simp
qed

lemma lower_bound_ok:
  assumes "sorted_items (items root)"
  shows "iter_of root (lower_bound root key)"
    and "upto_iter root (lower_bound root key) = filter (\<lambda>y. fst y < key) (items root)"
    and "from_iter (lower_bound root key) = filter (\<lambda>y. key \<le> fst y) (items root)"
  using bound_search_ok [of "\<lambda>x. x < key" root] sorted_items_mono [OF assms, of "\<lambda>x. x < key"]
  by (simp_all add: lower_bound_def o_def not_less)

lemma upper_bound_ok:
  assumes "sorted_items (items root)"
  shows "iter_of root (upper_bound root key)"
    and "upto_iter root (upper_bound root key) = filter (\<lambda>y. fst y \<le> key) (items root)"
    and "from_iter (upper_bound root key) = filter (\<lambda>y. key < fst y) (items root)"
  using bound_search_ok [of "\<lambda>x. \<not> key < x" root] sorted_items_mono [OF assms, of "\<lambda>x. \<not> key < x"]
  by (simp_all add: upper_bound_def o_def not_le [symmetric])

lemma lastLessOrEqual_ok:
  assumes "sorted_items (items root)"
  shows "case lastLessOrEqual root key of
      None \<Rightarrow> filter (\<lambda>y. fst y \<le> key) (items root) = []
    | Some j \<Rightarrow> at root j \<and> before j @ [here j] = filter (\<lambda>y. fst y \<le> key) (items root)"
proof (cases "upper_bound root key = begin_iter root")
  case True
  have "upto_iter root (begin_iter root) = []"
    using iter_split [OF begin_iter_ok(1), of root] by (simp add: begin_iter_ok(2))
  then show ?thesis using True upper_bound_ok(2) [OF assms, of key]
    by (simp add: lastLessOrEqual_def)
next
  case False
  then show ?thesis
    using previous_ok [OF upper_bound_ok(1) [OF assms, of key]] upper_bound_ok(2) [OF assms, of key]
    by (auto simp: lastLessOrEqual_def split: option.splits)
qed

subsection \<open>Metric queries\<close>

abbreviation metric_sum :: "('a \<times> 'm::comm_monoid_add) list \<Rightarrow> 'm" where
  "metric_sum xs \<equiv> sum_list (map snd xs)"

lemma sum_up_ok:
  fixes t :: "('a, 'm::ab_group_add) is_tree" and path :: "('a, 'm) path"
  shows "sum_up m (total t) path = m + metric_sum (litems (total t) path)"
proof (induction path arbitrary: m t)
  case (Cons f fs)
  obtain d x b k s where f: "f = Frame d x b k s" by (cases f)
  have k: "total (parent_node f t) = k" by (simp add: f path_simps)
  show ?case
    using Cons.IH [of _ "parent_node f t"] unfolding k
    by (simp add: f path_simps sum_items)
qed simp

lemma sumTo_ok: "iter_of root i \<Longrightarrow> sumTo root i = metric_sum (upto_iter root i)"
proof (cases i)
  case (Some l)
  obtain t path where l: "l = (t, path)" by (cases l)
  show "iter_of root i \<Longrightarrow> ?thesis"
    using sum_up_ok [of "total (child t False)" t path] Some l
    by (cases t) (simp_all add: sumTo_def upto_iter_def before_def iter_of_def at_def sum_items)
qed (simp add: sumTo_def upto_iter_def sum_items)

lemma index_from_ok:
  "case index_from m t path of
     None \<Rightarrow> t = Leaf \<or> total t \<le> m
   | Some i \<Rightarrow> at (plug t path) i \<and> (\<exists>pre. before i = litems (total t) path @ pre \<and>
       (pre = [] \<or> metric_sum pre \<le> m) \<and> m < metric_sum pre + snd (here i))"
proof (induction m t path rule: index_from.induct)
  case (2 m l x b k r path)
  show ?case
  proof (cases "l \<noteq> Leaf \<and> m < total l")
    case True
    then show ?thesis using "2.IH"(1) [OF True]
      by (auto simp: path_simps split: option.splits)
  next
    case False
    let ?m = "m - k + total r" and ?f = "Frame True x b k l"
    have m2: "(if r \<noteq> Leaf then m - k + total r else m - k) = ?m" by (cases r) simp_all
    have step: "index_from m (Node l x b k r) path =
        (if ?m < 0 then Some (Node l x b k r, path) else index_from ?m r (?f # path))"
      using False m2 by (auto simp: Let_def)
    show ?thesis
    proof (cases "?m < 0")
      case True
      have "items l = [] \<or> total l \<le> m" using False by (auto simp: not_less)
      then show ?thesis using True step
        by (auto simp: at_Node sum_items algebra_simps intro!: exI [of _ "items l"])
    next
      case nonneg: False
      have "\<not> (if r \<noteq> Leaf then m - k + total r else m - k) < 0" using nonneg m2 by simp
      note IH = "2.IH"(2) [OF False refl refl this, unfolded m2, simplified]
      show ?thesis
      proof (cases "index_from ?m r (?f # path)")
        case None
        then show ?thesis using IH step nonneg by (auto simp: algebra_simps)
      next
        case (Some i)
        then obtain pre where pre: "at (plug (Node l x b k r) path) i"
            "before i = litems (total r) (?f # path) @ pre"
            "pre = [] \<or> metric_sum pre \<le> ?m" "?m < metric_sum pre + snd (here i)"
          using IH by (auto simp: path_simps)
        let ?pre = "items l @ (x, k - total l - total r) # pre"
        have "before i = litems k path @ ?pre" using pre(2) by (simp add: path_simps)
        moreover have "metric_sum ?pre = k - total r + metric_sum pre" by (simp add: sum_items)
        moreover have "metric_sum ?pre \<le> m"
          using pre(3) nonneg calculation(2) by (auto simp: algebra_simps not_less)
        moreover have "m < metric_sum ?pre + snd (here i)"
          using pre(4) unfolding calculation(2) by (simp add: algebra_simps)
        ultimately show ?thesis using Some step nonneg pre(1) by auto
      qed
    qed
  qed
qed simp

subsection \<open>Properties\<close>

text \<open>Iterating \<open>n\<close> times from an iterator, forwards or backwards, reading each item.\<close>

fun walk :: "bool \<Rightarrow> nat \<Rightarrow> ('a, 'm::ab_group_add) iter \<Rightarrow> ('a \<times> 'm) list" where
  "walk d 0 i = []"
| "walk d (Suc n) None = []"
| "walk d (Suc n) (Some l) = here l # walk d n (moveIterator d l)"

lemma walk_forward: "iter_of root i \<Longrightarrow> length (from_iter i) \<le> n \<Longrightarrow> walk True n i = from_iter i"
proof (induction n arbitrary: i)
  case (Suc n)
  show ?case
  proof (cases i)
    case (Some l)
    then have "at root l" using Suc.prems by (simp add: iter_of_def)
    then show ?thesis
      using Suc.IH [of "moveIterator True l"] moveIterator_next [of root l] Suc.prems(2) Some
      by (simp add: from_iter_def [of "Some _"])
  qed (simp add: from_iter_def)
qed (simp add: from_iter_def)

lemma walk_backward:
  "at root l \<Longrightarrow> length (before l) < n \<Longrightarrow> walk False n (Some l) = here l # rev (before l)"
proof (induction n arbitrary: l)
  case (Suc n)
  have p: "case moveIterator False l of None \<Rightarrow> before l = []
     | Some j \<Rightarrow> at root j \<and> before l = before j @ [here j] \<and> after j = here l # after l"
    by (rule moveIterator_prev [OF Suc.prems(1)])
  show ?case
  proof (cases "moveIterator False l")
    case None
    then show ?thesis using p by (cases n) simp_all
  next
    case (Some j)
    then show ?thesis using p Suc.IH [of j] Suc.prems(2) by simp
  qed
qed simp

text \<open>
  Iterating from \<open>begin()\<close> with \<open>operator++\<close> visits every item exactly once, in order,
  and then reaches \<open>end()\<close>; iterating from \<open>lastItem()\<close> with \<open>decrementNonEnd\<close> visits them in
  reverse. This holds of every tree, balanced or not.
\<close>

theorem iteration_visits_items:
  "walk True (length (items root)) (begin_iter root) = items root \<and>
   walk False (length (items root)) (lastItem root) = rev (items root)"
proof
  show "walk True (length (items root)) (begin_iter root) = items root"
    using walk_forward [OF begin_iter_ok(1), of root] by (simp add: begin_iter_ok(2))
  show "walk False (length (items root)) (lastItem root) = rev (items root)"
    using lastItem_ok [of root] walk_backward [of root "the (lastItem root)" "length (items root)"]
    by (cases "lastItem root") (auto simp: lastItem_def split: if_splits)
qed

text \<open>
  On a well-formed set \<open>find\<close> returns the location of the equal item or \<open>end()\<close>;
  \<open>lower_bound\<close> and \<open>upper_bound\<close> return the boundary between the smaller and the remaining
  items; \<open>lastLessOrEqual\<close> returns the last item not above the key, or \<open>end()\<close> when there is none.
\<close>

theorem searches_correct:
  fixes root :: "('a::linorder, 'm::ab_group_add) is_tree"
  assumes "is_ok root"
  shows "(case is_find root key of
      None \<Rightarrow> map_of (items root) key = None
    | Some i \<Rightarrow> at root i \<and> fst (here i) = key \<and> map_of (items root) key = Some (getMetric i)) \<and>
   iter_of root (lower_bound root key) \<and>
   upto_iter root (lower_bound root key) = filter (\<lambda>y. fst y < key) (items root) \<and>
   from_iter (lower_bound root key) = filter (\<lambda>y. key \<le> fst y) (items root) \<and>
   iter_of root (upper_bound root key) \<and>
   upto_iter root (upper_bound root key) = filter (\<lambda>y. fst y \<le> key) (items root) \<and>
   from_iter (upper_bound root key) = filter (\<lambda>y. key < fst y) (items root) \<and>
   (case lastLessOrEqual root key of
      None \<Rightarrow> filter (\<lambda>y. fst y \<le> key) (items root) = []
    | Some j \<Rightarrow> at root j \<and> before j @ [here j] = filter (\<lambda>y. fst y \<le> key) (items root))"
proof -
  have s: "sorted_items (items root)" using assms by (simp add: is_ok_def)
  show ?thesis
    using is_find_ok [OF assms] lower_bound_ok [OF s] upper_bound_ok [OF s] lastLessOrEqual_ok [OF s]
    by blast
qed

definition three_nodes :: "(int, int) is_tree" where
  "three_nodes = Node (Node Leaf 10 0 2 Leaf) 20 0 11 (Node Leaf 30 0 4 Leaf)"

lemma three_nodes_ok: "is_ok three_nodes"
  by (simp add: three_nodes_def is_ok_def sorted_items_def)

theorem searches_correct_witness:
  "is_ok three_nodes \<and>
   lower_bound three_nodes 15 = Some (three_nodes, []) \<and>
   lastLessOrEqual three_nodes 5 = None \<and>
   from_iter (lower_bound three_nodes 15) = [(20, 5), (30, 4)]"
proof -
  have ev: "lower_bound three_nodes 15 = Some (three_nodes, [])" "lastLessOrEqual three_nodes 5 = None"
    by (simp_all add: three_nodes_def lower_bound_def bound_search_def moveIterator_def path_simps
        lastLessOrEqual_def upper_bound_def begin_iter_def)
  then show ?thesis
    using searches_correct [OF three_nodes_ok, of 15] three_nodes_ok
    by (simp add: three_nodes_def)
qed

text \<open>
  \<open>sumTo\<close> is the sum of the metrics of the items before the iterator, and
  \<open>sumRange(begin, end)\<close> by keys is the sum of the metrics of the items \<open>x\<close> with
  \<open>begin <= x < end\<close>, read off the subtree totals along two paths.
\<close>

theorem sumRange_correct:
  fixes root :: "('a::linorder, 'm::ab_group_add) is_tree"
  assumes "is_ok root" and "b \<le> e"
  shows "sumRange_keys root b e = metric_sum (filter (\<lambda>y. b \<le> fst y \<and> fst y < e) (items root))"
proof -
  have s: "sorted_items (items root)" using assms(1) by (simp add: is_ok_def)
  have split: "metric_sum (filter (\<lambda>y. fst y < e) xs) =
      metric_sum (filter (\<lambda>y. fst y < b) xs) + metric_sum (filter (\<lambda>y. b \<le> fst y \<and> fst y < e) xs)"
    for xs :: "('a \<times> 'm) list"
    using assms(2) by (induction xs) (auto simp: algebra_simps not_less)
  show ?thesis
    using split [of "items root"]
    by (simp add: sumRange_keys_def sumRange_def sumTo_ok lower_bound_ok [OF s])
qed

theorem sumRange_correct_witness:
  "is_ok three_nodes \<and> (10::int) \<le> 30 \<and> sumRange_keys three_nodes 10 30 = 7"
  using sumRange_correct [OF three_nodes_ok, of 10 30] three_nodes_ok
  by (simp add: three_nodes_def)

text \<open>
  With metrics that are not negative, \<open>index(m)\<close> returns the first item whose running
  sum exceeds \<open>m\<close>, and \<open>end()\<close> exactly when no running sum does.
\<close>

theorem index_correct:
  fixes root :: "('a::linorder, 'm::linordered_ab_group_add) is_tree"
  assumes "\<forall>y \<in> set (items root). 0 \<le> snd y"
  shows "case is_index root m of
      None \<Rightarrow> \<forall>L y R. items root = L @ y # R \<longrightarrow> metric_sum (L @ [y]) \<le> m
    | Some i \<Rightarrow> at root i \<and> m < metric_sum (before i @ [here i]) \<and>
        (\<forall>L y R. before i = L @ y # R \<longrightarrow> metric_sum (L @ [y]) \<le> m)"
proof -
  have mono: "metric_sum (L @ [y]) \<le> metric_sum (L @ y # R)" if "\<forall>z \<in> set R. 0 \<le> snd z"
    for L R and y :: "'a \<times> 'm"
    using that by (auto intro!: sum_list_nonneg)
  show ?thesis
  proof (cases "is_index root m")
    case None
    then have tot: "root = Leaf \<or> total root \<le> m"
      using index_from_ok [of root m "[]"] by (simp add: is_index_def)
    have "metric_sum (L @ [y]) \<le> m" if "items root = L @ y # R" for L y R
    proof -
      have "\<forall>z \<in> set R. 0 \<le> snd z" using assms that by simp
      then have "metric_sum (L @ [y]) \<le> metric_sum (items root)" unfolding that by (rule mono)
      then have "metric_sum (L @ [y]) \<le> total root" by (simp only: sum_items)
      moreover have "root \<noteq> Leaf" using that by auto
      ultimately show ?thesis using tot by (meson order_trans)
    qed
    then show ?thesis using None by simp
  next
    case (Some i)
    then have i: "at root i" "before i = [] \<or> metric_sum (before i) \<le> m"
        "m < metric_sum (before i) + snd (here i)"
      using index_from_ok [of root m "[]"] by (auto simp: is_index_def)
    have nn: "\<forall>z \<in> set (before i). 0 \<le> snd z" using assms at_split [OF i(1)] by auto
    have "metric_sum (L @ [y]) \<le> m" if "before i = L @ y # R" for L y R
    proof -
      have "metric_sum (L @ [y]) \<le> metric_sum (before i)" unfolding that by (rule mono) (use nn that in simp)
      moreover have "metric_sum (before i) \<le> m" using i(2) that by auto
      ultimately show ?thesis by (rule order_trans)
    qed
    then show ?thesis using Some i by simp
  qed
qed

theorem index_correct_witness:
  "is_index three_nodes 6 = Some (three_nodes, []) \<and>
   (6::int) < metric_sum (before (three_nodes, []) @ [here (three_nodes, [])])"
proof -
  have nn: "\<forall>y \<in> set (items three_nodes). 0 \<le> snd y" by (simp add: three_nodes_def)
  have ev: "is_index three_nodes 6 = Some (three_nodes, [])"
    by (simp add: three_nodes_def is_index_def)
  show ?thesis using index_correct [OF nn, of 6] nn ev by simp
qed

text \<open>
  \<open>addMetric\<close> returns the item's old metric (none: zero) plus the increment and leaves
  a well-formed set in which exactly that item's metric has become the returned value.
\<close>

theorem addMetric_correct:
  fixes root :: "('a::linorder, 'm::ab_group_add) is_tree"
  assumes "is_ok root"
  shows "\<exists>t'. addMetric root x m =
      Inr (t', m + (case map_of (items root) x of None \<Rightarrow> 0 | Some k \<Rightarrow> k)) \<and> is_ok t' \<and>
    map_of (items t') =
      (map_of (items root))(x \<mapsto> m + (case map_of (items root) x of None \<Rightarrow> 0 | Some k \<Rightarrow> k))"
proof (cases "is_find root x")
  case None
  then have "map_of (items root) x = None" using is_find_ok [OF assms, of x] by simp
  then show ?thesis
    using None is_insert_ok [OF assms, of x m True] map_of_ins_items [of "items root" x m True] assms
    by (auto simp: addMetric_def is_ok_def)
next
  case (Some i)
  then have "map_of (items root) x = Some (getMetric i)" using is_find_ok [OF assms, of x] by simp
  then show ?thesis
    using Some is_insert_ok [OF assms, of x "m + getMetric i" True] assms
      map_of_ins_items [of "items root" x "m + getMetric i" True]
    by (auto simp: addMetric_def is_ok_def Let_def)
qed

theorem addMetric_correct_witness:
  "is_ok three_nodes \<and>
   (\<exists>t'. addMetric three_nodes 20 100 = Inr (t', 105) \<and> map_of (items t') 20 = Some 105)"
  using addMetric_correct [OF three_nodes_ok, of 20 100] three_nodes_ok
  by (auto simp: three_nodes_def)

end
