(* ===== verification/IS_Erase.thy ===== *)
theory IS_Erase
  imports IS_Search
begin

text \<open>
  \<open>IndexedSet::erase(iterator)\<close>: unlinking of a node with at most one child, replacement of a
  node with two children by its predecessor, the metric updates on both paths, and the
  retracing loop that restores the AVL balance. The result is the list of items without the
  erased one.
\<close>

subsection \<open>Model\<close>

text \<open>
  One rotation round of the loop; the flag says that the loop breaks after it (the branch
  \<open>n->balance == 0\<close>, in which the height does not change).
\<close>

definition erase_rebalance ::
  "('a, 'm::ab_group_add) is_tree \<Rightarrow> bool \<Rightarrow> (('a, 'm) is_tree \<times> bool) result" where
  "erase_rebalance t d =
     (let n = child t (\<not> d); bal = dir_sign d
      in if balance n = - bal
         then bind_result (ISRotate (set_child (set_balance t 0) (\<not> d) (set_balance n 0)) d)
                (\<lambda>t'. Inr (t', False))
         else if balance n = bal
         then bind_result (ISAdjustBalance t (\<not> d) (- bal)) (\<lambda>t1.
              bind_result (ISRotate (child t1 (\<not> d)) (\<not> d)) (\<lambda>c.
              bind_result (ISRotate (set_child t1 (\<not> d) c) d) (\<lambda>t'. Inr (t', False))))
         else bind_result (ISRotate (set_child (set_balance t (- bal)) (\<not> d) (set_balance n bal)) d)
                (\<lambda>t'. Inr (t', True)))"

fun erase_retrace ::
  "('a, 'm::ab_group_add) is_tree \<Rightarrow> bool \<Rightarrow> ('a, 'm) path \<Rightarrow> ('a, 'm) is_tree result" where
  "erase_retrace t0 d path =
     (let t = set_balance t0 (balance t0 - dir_sign d)
      in if balance t < - 1 \<or> balance t > 1
         then bind_result (erase_rebalance t d) (\<lambda>(t', stop).
                if stop then Inr (plug t' path)
                else case path of
                       [] \<Rightarrow> Inr t'
                     | f # fs \<Rightarrow> erase_retrace (parent_node f t') (f_dir f) fs)
         else if balance t \<noteq> 0 then Inr (plug t path)
         else case path of
                [] \<Rightarrow> Inr t
              | f # fs \<Rightarrow> erase_retrace (parent_node f t) (f_dir f) fs)"

text \<open>Retracing from the position whose subtree \<open>c\<close> has just replaced a taller one.\<close>

definition erase_from ::
  "('a, 'm::ab_group_add) is_tree \<Rightarrow> ('a, 'm) path \<Rightarrow> ('a, 'm) is_tree result" where
  "erase_from c path =
     (case path of [] \<Rightarrow> Inr c | f # fs \<Rightarrow> erase_retrace (parent_node f c) (f_dir f) fs)"

definition erase_iter ::
  "('a, 'm::ab_group_add) is_tree \<Rightarrow> ('a, 'm) iter \<Rightarrow> ('a, 'm) is_tree result" where
  "erase_iter root toErase =
     (case toErase of
        None \<Rightarrow> Inr root
      | Some (t, path) \<Rightarrow>
          let c0 = child t False; c1 = child t True
          in if c0 = Leaf \<or> c1 = Leaf
             then let tMetric = total t - total c0 - total c1;
                      c = child t (c0 = Leaf)
                  in erase_from c (add_totals (- tMetric) path)
             else let (predecessor, inner) = descend True c0 [];
                      tMetric = total t - total c0 - total c1;
                      pMetric = total predecessor - total (child predecessor False);
                      inner' = add_totals (- pMetric) inner;
                      c = child predecessor False;
                      total' = pMetric + total (plug c inner') + total c1;
                      f = Frame False (n_data predecessor) (balance t) total' c1
                  in erase_from c (inner' @ f # add_totals (- tMetric) path))"

definition erase_key ::
  "('a::linorder, 'm::ab_group_add) is_tree \<Rightarrow> 'a \<Rightarrow> ('a, 'm) is_tree result" where
  "erase_key root key = erase_iter root (is_find root key)"

subsection \<open>The retracing loop\<close>

lemma erase_rebalance_ok:
  assumes "avl c" and "avl s" and "height s = Suc (Suc (height c))"
  shows "\<exists>t' stop. erase_rebalance (parent_node (Frame d x (- 2 * dir_sign d) M s) c) d = Inr (t', stop) \<and>
    avl t' \<and> total t' = M \<and> height t' = (if stop then Suc (height s) else height s) \<and>
    items t' = items (parent_node (Frame d x (- 2 * dir_sign d) M s) c)"
proof -
  obtain cl y cb cm cr where s: "s = Node cl y cb cm cr" using assms(3) by (cases s) auto
  consider "cb = - dir_sign d" | "cb = dir_sign d" | "cb = 0"
    using assms(2) s by (cases d) (auto, linarith+)
  then show ?thesis
  proof cases
    case 1
    then show ?thesis using assms s
      by (cases d) (auto simp: erase_rebalance_def tree_simps path_simps)
  next
    case 2
    then obtain nl z nb nm nr where "(if d then cr else cl) = Node nl z nb nm nr"
      using assms(2) s by (cases d; cases cl; cases cr) auto
    then show ?thesis using assms s 2
      by (cases d) (auto simp: erase_rebalance_def tree_simps path_simps max_def split: if_splits)
  next
    case 3
    then show ?thesis using assms s
      by (cases d) (auto simp: erase_rebalance_def tree_simps path_simps)
  qed
qed

declare erase_retrace.simps [simp del]

lemma set_balance_parent_node:
  "set_balance (parent_node (Frame d x b m s) c) b' = parent_node (Frame d x b' m s) c"
  by (cases d) (simp_all add: path_simps)

lemma erase_retrace_step:
  "erase_retrace (parent_node (Frame d x b m s) c) d path =
     (let t = parent_node (Frame d x (b - dir_sign d) m s) c
      in if b - dir_sign d < - 1 \<or> b - dir_sign d > 1
         then bind_result (erase_rebalance t d) (\<lambda>(t', stop).
                if stop then Inr (plug t' path) else erase_from t' path)
         else if b - dir_sign d \<noteq> 0 then Inr (plug t path)
         else erase_from t path)"
  by (subst erase_retrace.simps)
    (simp only: parent_node_updates set_balance_parent_node Let_def erase_from_def)

lemma erase_from_ok:
  assumes "avl c" and "avl_path (Suc (height c)) path"
  shows "\<exists>t'. erase_from c path = Inr t' \<and> avl t' \<and> items t' = items (plug c path)"
  using assms
proof (induction path arbitrary: c)
  case Nil
  then show ?case by (simp add: erase_from_def)
next
  case (Cons f fs)
  obtain d x b m s where f: "f = Frame d x b m s" by (cases f)
  let ?t = "parent_node (Frame d x (b - dir_sign d) m s) c"
  have b: "b = dir_sign d * (1 + int (height c) - int (height s))" "- 1 \<le> b" "b \<le> 1" "avl s"
    and fs: "avl_path (Suc (max (Suc (height c)) (height s))) fs"
    using Cons.prems(2) f by auto
  have it: "items (plug ?t fs) = items (plug c (f # fs))" "total ?t = m"
    by (cases d; simp add: f items_plug path_simps)+
  have ht: "height ?t = Suc (max (height c) (height s))" by (simp only: parent_node_updates)
  have "b = 1 \<or> b = - 1 \<or> b = 0" using b(2,3) by linarith
  then consider "b = dir_sign d" | "b = 0" | "b = - dir_sign d" by (cases d) auto
  then show ?case
  proof cases
    case 1
    then have h: "height c = height s" using b(1) by (cases d) auto
    have "avl ?t" using 1 h b(4) Cons.prems(1) by (simp add: avl_parent_node)
    moreover have "avl_path (Suc (height ?t)) fs" using fs h ht by simp
    ultimately have "\<exists>t'. erase_from ?t fs = Inr t' \<and> avl t' \<and> items t' = items (plug ?t fs)"
      by (rule Cons.IH)
    then show ?thesis using 1 it f
      by (simp add: erase_from_def [of c "_ # _"] erase_retrace_step Let_def)
  next
    case 2
    then have h: "height s = Suc (height c)" using b(1) by (cases d) auto
    have "avl ?t" using 2 h b(4) Cons.prems(1) by (cases d) (simp_all add: avl_parent_node)
    then have "avl (plug ?t fs)" using fs h ht by (simp add: avl_plug)
    then show ?thesis using 2 it f
      by (cases d) (simp_all add: erase_from_def erase_retrace_step Let_def)
  next
    case 3
    then have h: "height s = Suc (Suc (height c))" using b(1) by (cases d) auto
    have t2: "?t = parent_node (Frame d x (- 2 * dir_sign d) m s) c" using 3 by simp
    obtain t' stop where t': "erase_rebalance ?t d = Inr (t', stop)" "avl t'" "total t' = m"
      "height t' = (if stop then Suc (height s) else height s)" "items t' = items ?t"
      using erase_rebalance_ok [OF Cons.prems(1) b(4) h, of d x m] unfolding t2 by blast
    have big: "b - dir_sign d < - 1 \<or> b - dir_sign d > 1" using 3 by (cases d) simp_all
    have it': "items (plug t' fs) = items (plug ?t fs)" using t'(3,5) it(2) by (simp add: items_plug)
    show ?thesis
    proof (cases stop)
      case True
      then have "avl (plug t' fs)" using t' fs h by (simp add: avl_plug)
      then show ?thesis using True big it it' f t'(1)
        by (simp add: erase_from_def erase_retrace_step Let_def)
    next
      case False
      then have "avl_path (Suc (height t')) fs" using fs t'(4) h by simp
      then have "\<exists>u. erase_from t' fs = Inr u \<and> avl u \<and> items u = items (plug t' fs)"
        using t'(2) by (intro Cons.IH)
      then show ?thesis using False big it it' f t'(1)
        by (simp add: erase_from_def [of c "_ # _"] erase_retrace_step Let_def)
    qed
  qed
qed

subsection \<open>Unlinking\<close>

lemma plug_append: "plug t (p @ q) = plug (plug t p) q"
  by (induction p arbitrary: t) auto

lemma height_plug_shift [simp]: "height (plug t (add_totals delta p)) = height (plug t p)"
proof -
  have "height (plug t (add_totals delta p)) = height (plug u p)" if "height t = height u"
    for t u :: "('a, 'b) is_tree"
    using that
  proof (induction p arbitrary: t u)
    case (Cons f p)
    have "height (parent_node (add_total delta f) t) = height (parent_node f u)"
      using Cons.prems by (cases f) (simp add: add_total_def path_simps)
    then show ?case using Cons.IH by simp
  qed simp
  then show ?thesis by simp
qed

lemma avl_path_append:
  fixes t :: "('a, 'm::zero) is_tree"
  shows "avl_path (height t) (p @ q) \<longleftrightarrow> avl_path (height t) p \<and> avl_path (height (plug t p)) q"
proof (induction p arbitrary: t)
  case (Cons f p)
  obtain d x b m s where f: "f = Frame d x b m s" by (cases f)
  show ?case
    using Cons.IH [of "parent_node f t", unfolded f parent_node_updates] by (simp add: f)
qed simp

lemma erase_one_child:
  assumes "at root (Node l x b m r, path)" and "avl root" and "l = Leaf \<or> r = Leaf"
  shows "\<exists>t'. erase_iter root (Some (Node l x b m r, path)) = Inr t' \<and> avl t' \<and>
    items t' = litems m path @ items l @ items r @ ritems m path"
proof -
  let ?c = "if l = Leaf then r else l" and ?d = "m - total l - total r"
  have a: "avl (Node l x b m r)" "avl_path (height (Node l x b m r)) path"
    using assms(1,2) avl_plug [of "Node l x b m r" path] by (simp_all add: at_Node)
  have c: "avl ?c" "height (Node l x b m r) = Suc (height ?c)" "total ?c + ?d = m"
      "items ?c = items l @ items r"
    using a(1) assms(3) by auto
  have "items (plug ?c (add_totals (- ?d) path)) = litems m path @ items l @ items r @ ritems m path"
    unfolding items_plug_shift using assms(3) by (cases "l = Leaf") simp_all
  then show ?thesis
    using erase_from_ok [OF c(1), of "add_totals (- ?d) path"] a(2) c(2) assms(3)
    by (simp add: erase_iter_def Let_def)
qed

lemma predecessor_ok:
  assumes "descend True l [] = (p, inner)" and "l \<noteq> Leaf" and "avl l"
  obtains pl px pb pm where "p = Node pl px pb pm Leaf" "avl pl"
    "avl_path (height p) inner" "height p = Suc (height pl)" "plug p inner = l"
    "items l = litems pm inner @ items pl @ [(px, pm - total pl)]" "ritems pm inner = []"
proof -
  have d: "at l (p, inner)" "after (p, inner) = []"
    using descend_ok [OF at_root [OF assms(2)], of True] assms(1) by simp_all
  then obtain pl px pb pm pr where p: "p = Node pl px pb pm pr" by (cases p) (auto simp: at_def)
  have pr: "pr = Leaf" "ritems pm inner = []" using d(2) p by (cases pr; simp add: at_Node)+
  have "plug p inner = l" using d(1) by (simp add: at_def)
  then have "avl p" "avl_path (height p) inner" using assms(3) avl_plug [of p inner] by simp_all
  then show thesis
    using that [of pl px pb pm] p pr at_split [OF d(1)] \<open>plug p inner = l\<close> by (simp add: at_Node)
qed

lemma erase_two_children:
  assumes "at root (Node l x b m r, path)" and "avl root" and "l \<noteq> Leaf" and "r \<noteq> Leaf"
  shows "\<exists>t'. erase_iter root (Some (Node l x b m r, path)) = Inr t' \<and> avl t' \<and>
    items t' = litems m path @ items l @ items r @ ritems m path"
proof -
  have a: "avl l" "avl r" "b = int (height r) - int (height l)" "- 1 \<le> b" "b \<le> 1"
    "avl_path (Suc (max (height l) (height r))) path"
    using assms(1,2) avl_plug [of "Node l x b m r" path] by (simp_all add: at_Node)
  obtain p inner where desc: "descend True l [] = (p, inner)" by fastforce
  obtain pl px pb pm where p: "p = Node pl px pb pm Leaf" and pl: "avl pl"
    and pi: "avl_path (height p) inner" "height p = Suc (height pl)" "plug p inner = l"
      "items l = litems pm inner @ items pl @ [(px, pm - total pl)]" "ritems pm inner = []"
    using predecessor_ok [OF desc assms(3) a(1)] .
  define pMetric where "pMetric = pm - total pl"
  define inner' where "inner' = add_totals (- pMetric) inner"
  define tMetric where "tMetric = m - total l - total r"
  define f where "f = Frame False px b (pMetric + total (plug pl inner') + total r) r"
  let ?path = "inner' @ f # add_totals (- tMetric) path"
  have L: "items (plug pl inner') = litems pm inner @ items pl"
    unfolding inner'_def items_plug_shift using pi(5) by (simp add: pMetric_def)
  have items_l: "items l = items (plug pl inner') @ [(px, pMetric)]"
    using pi(4) by (simp add: L pMetric_def)
  then have tot: "total l = total (plug pl inner') + pMetric"
    using sum_items [of l] sum_items [of "plug pl inner'"] by simp
  have "avl_path (height p) ?path"
    using pi(1,3) a by (simp add: avl_path_append inner'_def f_def max.commute)
  then have "\<exists>t'. erase_from pl ?path = Inr t' \<and> avl t' \<and> items t' = items (plug pl ?path)"
    using erase_from_ok [OF pl] pi(2) by simp
  moreover have "items (plug pl ?path) = litems m path @ items l @ items r @ ritems m path"
  proof -
    have "plug pl ?path = plug (Node (plug pl inner') px b (pMetric + total (plug pl inner') + total r) r)
        (add_totals (- tMetric) path)"
      by (simp add: plug_append f_def path_simps)
    moreover have "pMetric + total (plug pl inner') + total r - - tMetric = m"
      using tot by (simp add: tMetric_def)
    ultimately show ?thesis
      using items_l by (simp only: items_plug_shift total.simps items.simps) simp
  qed
  moreover have "erase_iter root (Some (Node l x b m r, path)) = erase_from pl ?path"
    using assms(3,4) desc p
    by (simp add: erase_iter_def Let_def f_def inner'_def tMetric_def pMetric_def)
  ultimately show ?thesis by simp
qed

lemma erase_iter_ok:
  assumes "at root i" and "avl root"
  shows "\<exists>t'. erase_iter root (Some i) = Inr t' \<and> avl t' \<and> items t' = before i @ after i"
proof -
  obtain l x b m r path where i: "i = (Node l x b m r, path)"
    using assms(1) by (cases i; cases "fst i") (auto simp: at_def)
  have "before i @ after i = litems m path @ items l @ items r @ ritems m path"
    by (simp add: i at_Node)
  then show ?thesis
    using erase_one_child [of root l x b m r path] erase_two_children [of root l x b m r path] assms i
    by metis
qed

lemma filter_neq_split:
  assumes "sorted_items (L @ y # R)"
  shows "filter (\<lambda>z. fst z \<noteq> fst y) (L @ y # R) = L @ R"
proof -
  have "filter (\<lambda>z. fst z \<noteq> fst y) L = L" "filter (\<lambda>z. fst z \<noteq> fst y) R = R"
    using assms by (auto simp: sorted_items_append sorted_items_Cons filter_id_conv)
  then show ?thesis by simp
qed

lemma sorted_items_filter: "sorted_items xs \<Longrightarrow> sorted_items (filter P xs)"
  by (simp add: sorted_items_def sorted_wrt_map sorted_wrt_filter)

lemma erase_key_ok:
  fixes root :: "('a::linorder, 'm::ab_group_add) is_tree"
  assumes "is_ok root"
  shows "\<exists>t'. erase_key root x = Inr t' \<and> is_ok t' \<and> items t' = filter (\<lambda>y. fst y \<noteq> x) (items root)"
proof (cases "is_find root x")
  case None
  then have "x \<notin> fst ` set (items root)"
    using is_find_ok [OF assms, of x] by (simp add: map_of_eq_None_iff)
  then have "filter (\<lambda>y. fst y \<noteq> x) (items root) = items root"
    by (auto simp: filter_id_conv)
  then show ?thesis using None assms by (simp add: erase_key_def erase_iter_def)
next
  case (Some i)
  then have i: "at root i" "fst (here i) = x" using is_find_ok [OF assms, of x] by simp_all
  have s: "sorted_items (items root)" "avl root" using assms by (simp_all add: is_ok_def)
  have "filter (\<lambda>y. fst y \<noteq> x) (items root) = before i @ after i"
    using filter_neq_split [of "before i" "here i" "after i"] s(1) i at_split [OF i(1)] by simp
  then show ?thesis
    using erase_iter_ok [OF i(1) s(2)] Some sorted_items_filter [OF s(1), of "\<lambda>y. fst y \<noteq> x"]
    by (auto simp: erase_key_def is_ok_def)
qed

text \<open>
  Property C23: erasing through an iterator removes exactly the item the iterator points at, and
  erasing by key removes the item equal to the key if there is one. Both succeed on every
  well-formed set, keep its AVL and ordering invariants, and leave every other item with its
  metric; \<open>erase(end())\<close> has no effect.
\<close>

theorem erase_refines:
  fixes root :: "('a::linorder, 'm::ab_group_add) is_tree"
  assumes "is_ok root" and "at root i"
  shows "\<exists>t' u. erase_iter root (Some i) = Inr t' \<and> is_ok t' \<and> items t' = before i @ after i \<and>
    items root = before i @ here i # after i \<and>
    erase_key root x = Inr u \<and> is_ok u \<and> items u = filter (\<lambda>y. fst y \<noteq> x) (items root) \<and>
    map_of (items u) = (map_of (items root))(x := None) \<and> erase_iter root None = Inr root"
proof -
  have srt: "sorted_items (before i @ after i)"
    using assms(1) at_split [OF assms(2)]
    by (auto simp: is_ok_def sorted_items_append sorted_items_Cons)
  have del: "map_of (filter (\<lambda>y. fst y \<noteq> x) xs) = (map_of xs)(x := None)"
    for xs :: "('a \<times> 'm) list"
    by (induction xs) (auto simp: fun_eq_iff)
  obtain t' where t': "erase_iter root (Some i) = Inr t'" "is_ok t'" "items t' = before i @ after i"
    using erase_iter_ok [OF assms(2)] assms(1) srt unfolding is_ok_def by metis
  obtain u where u: "erase_key root x = Inr u" "is_ok u" "items u = filter (\<lambda>y. fst y \<noteq> x) (items root)"
    using erase_key_ok [OF assms(1), of x] by metis
  have "map_of (items u) = (map_of (items root))(x := None)" unfolding u(3) by (rule del)
  moreover have "erase_iter root None = Inr root" by (simp add: erase_iter_def)
  ultimately show ?thesis using t' u at_split [OF assms(2)] by blast
qed

theorem erase_refines_witness:
  "is_ok three_nodes \<and> at three_nodes (three_nodes, []) \<and>
   (\<exists>t'. erase_iter three_nodes (Some (three_nodes, [])) = Inr t' \<and> is_ok t' \<and>
     items t' = [(10, 2), (30, 4)])"
proof -
  have a: "at three_nodes (three_nodes, [])" by (simp add: at_def three_nodes_def)
  have "before (three_nodes, []) @ after (three_nodes, []) = [(10, 2), (30, 4)]"
    by (simp add: before_def after_def three_nodes_def)
  then show ?thesis using erase_refines [OF three_nodes_ok a] three_nodes_ok a by auto
qed

end
