(* ===== verification/IS_Rebalance.thy ===== *)
theory IS_Rebalance
  imports IS_Erase
begin

text \<open>
  \<open>ISRebalance\<close>, the rebalancing of a node whose children are AVL trees but whose own balance is
  arbitrary, used by the range erase. The recursion (on the child the imbalance was pushed into,
  and on the root while it is still unbalanced) is shown to terminate, its assertion never to
  fail, and its result to be an AVL tree with the same items and the reported change of height.
\<close>

subsection \<open>Model\<close>

text \<open>
  The part of \<open>ISRebalance\<close> before the recursive calls: the optional first rotation at \<open>n\<close>, the
  balances of the two nodes, and the rotation at the root. The result holds the new root, the
  direction corrected balance \<open>nBal\<close> and \<open>doubleRotation\<close>.
\<close>

definition rebalance_rotate ::
  "('a, 'm::ab_group_add) is_tree \<Rightarrow> (('a, 'm) is_tree \<times> int \<times> bool) result" where
  "rebalance_rotate root =
     (let rebalanceDir = balance root < 0; n = child root (\<not> rebalanceDir);
          bal = dir_sign rebalanceDir; doubleRotation = (balance n = bal)
      in if n = Leaf then Inl Undefined_behaviour
         else bind_result
           (if doubleRotation
            then if child n rebalanceDir = Leaf then Inl Undefined_behaviour
                 else let x = balance (child n rebalanceDir)
                      in bind_result (ISRotate n (\<not> rebalanceDir)) (\<lambda>n1.
                           let n2 = set_balance n1 ((if x = - bal then - 2 else - 1) * bal);
                               c = set_balance (child n2 (\<not> rebalanceDir))
                                     ((if x = bal then - 1 else 0) * bal)
                           in Inr (set_child n2 (\<not> rebalanceDir) c))
            else Inr n) (\<lambda>n'.
           let root1 = set_child root (\<not> rebalanceDir) n';
               nBal = balance n' * bal;
               newRootBalance = bal * (1 + max nBal (bal * balance root + 1 + max nBal 0));
               newChildBalance = balance root + bal * (1 - min nBal 0)
           in bind_result (ISRotate root1 rebalanceDir) (\<lambda>root2.
                let root3 = set_balance root2 newRootBalance;
                    c = set_balance (child root3 rebalanceDir) newChildBalance
                in Inr (set_child root3 rebalanceDir c, nBal, doubleRotation))))"

lemma size_set [simp]:
  "size (set_balance t b) = size t" "size (set_total t m) = size t"
  by (cases t; simp)+

lemma size_set_child: "t \<noteq> Leaf \<Longrightarrow> size (set_child t d c) + size (child t d) = size t + size c"
  by (cases t) auto

lemma child_set_child [simp]:
  "t \<noteq> Leaf \<Longrightarrow> child (set_child t d c) d = c" "child (set_child t d c) (\<not> d) = child t (\<not> d)"
  "child (set_balance t b) d = child t d" "child (set_total t m) d = child t d"
  "balance (set_child t d c) = balance t" "t \<noteq> Leaf \<Longrightarrow> balance (set_balance t b) = b"
  "set_child t d c = Leaf \<longleftrightarrow> t = Leaf" "set_balance t b = Leaf \<longleftrightarrow> t = Leaf"
  by (cases t; simp)+

lemma size_child: "t \<noteq> Leaf \<Longrightarrow> size (child t d) < size t"
  by (cases t) auto

lemma ISRotate_size: "ISRotate t d = Inr t' \<Longrightarrow> size t' = size t \<and> t' \<noteq> Leaf"
  by (cases t; cases d; cases "child t True"; cases "child t False")
    (auto simp: tree_simps split: if_splits)

lemma set_child_same_size: "size c = size (child t d) \<Longrightarrow> size (set_child t d c) = size t"
  by (cases t) auto

lemma rebalance_rotate_size:
  assumes "rebalance_rotate root = Inr (root2, nBal, dbl)" and "root \<noteq> Leaf"
  shows "size root2 = size root" and "root2 \<noteq> Leaf"
  using assms unfolding rebalance_rotate_def
  by (auto simp: Let_def result_simps set_child_same_size dest!: ISRotate_size split: if_splits)

function ISRebalance ::
  "('a, 'm::ab_group_add) is_tree \<Rightarrow> (('a, 'm) is_tree \<times> int) result" where
  "ISRebalance root =
     (if root = Leaf \<or> (balance root \<ge> - 1 \<and> balance root \<le> 1) then Inr (root, 0)
      else case rebalance_rotate root of
             Inl e \<Rightarrow> Inl e
           | Inr (root2, nBal, doubleRotation) \<Rightarrow>
               let rebalanceDir = balance root < 0; bal = dir_sign rebalanceDir
               in case ISRebalance (child root2 rebalanceDir) of
                    Inl e \<Rightarrow> Inl e
                  | Inr (c, childHeightChange) \<Rightarrow>
                      let root3 = set_child (set_balance root2 (balance root2 + childHeightChange * bal))
                                    rebalanceDir c;
                          heightChange = (if doubleRotation then - 1
                                          else max (nBal + childHeightChange) (- 1))
                      in if balance root3 < - 1 \<or> balance root3 > 1
                         then if \<bar>balance root3\<bar> < \<bar>balance root\<bar>
                              then case ISRebalance root3 of
                                     Inl e \<Rightarrow> Inl e
                                   | Inr (root4, hc) \<Rightarrow> Inr (root4, heightChange + hc)
                              else Inl Assert_failed
                         else Inr (root3, heightChange))"
  by pat_completeness auto

lemma ISRebalance_size:
  "ISRebalance_dom t \<Longrightarrow> ISRebalance t = Inr (t', hc) \<Longrightarrow> size t' = size t"
proof (induction t arbitrary: t' hc rule: ISRebalance.pinduct)
  case (1 root)
  note eq = ISRebalance.psimps [OF "1.hyps"]
  show ?case
  proof (cases "root = Leaf \<or> (balance root \<ge> - 1 \<and> balance root \<le> 1)")
    case True
    then show ?thesis using "1.prems" unfolding eq by simp
  next
    case False
    then obtain root2 nBal dbl where rot: "rebalance_rotate root = Inr (root2, nBal, dbl)"
      using "1.prems" unfolding eq by (auto split: sum.splits)
    have s: "size root2 = size root" using rebalance_rotate_size [OF rot] False by blast
    let ?rd = "balance root < 0"
    obtain c chc where c: "ISRebalance (child root2 ?rd) = Inr (c, chc)"
      using "1.prems" False rot unfolding eq by (auto simp: Let_def split: sum.splits)
    have "size c = size (child root2 ?rd)" using "1.IH"(1) [OF False rot refl refl refl refl c] .
    then have s3: "size (set_child (set_balance root2 b) ?rd c) = size root" for b
      using s by (simp add: set_child_same_size)
    show ?thesis
      using "1.prems" "1.IH"(2) [OF False rot refl refl refl refl c refl refl refl] False rot c s3
      unfolding eq by (auto simp: Let_def split: sum.splits if_splits)
  qed
qed

termination ISRebalance
proof (relation "measures [size, \<lambda>t. nat \<bar>balance t\<bar>]", goal_cases)
  case 1
  then show ?case by simp
next
  case (2 root z root2 y nBal dbl rd bal)
  then show ?case
    using rebalance_rotate_size [of root root2 nBal dbl] size_child [of root2 rd] by auto
next
  case (3 root z root2 y nBal dbl rd bal z' c chc root3 hc)
  have "root \<noteq> Leaf" using 3(1) by simp
  then have s: "size root2 = size root" "root2 \<noteq> Leaf"
    using rebalance_rotate_size [of root root2 nBal dbl] 3 by auto
  have "size c = size (child root2 rd)" using ISRebalance_size 3 by blast
  then have "size root3 = size root" using 3 s by (simp add: set_child_same_size)
  then show ?case using 3 by simp
qed

declare ISRebalance.simps [simp del]

subsection \<open>One round of rotations\<close>

lemma length_items: "length (items t) = size t"
  by (induction t) simp_all

fun near_avl :: "('a, 'm) is_tree \<Rightarrow> bool" where
  "near_avl Leaf = True"
| "near_avl (Node l x b m r) \<longleftrightarrow> b = int (height r) - int (height l) \<and> avl l \<and> avl r"

text \<open>
  The tall child \<open>n\<close> is on side \<open>d\<close>; \<open>A\<close> is its child on that side and \<open>D\<close> the other one, as in
  the pictures of the source.
\<close>

lemma rebalance_single:
  fixes G A D :: "('a, 'm::ab_group_add) is_tree"
  assumes "dir_sign d * b > 0" and "nb \<noteq> - dir_sign d"
  shows "rebalance_rotate (parent_node (Frame d x b m G) (parent_node (Frame d y nb nm D) A)) =
    (let nBal = - dir_sign d * nb
     in Inr (parent_node (Frame d y (- dir_sign d * (1 + max nBal (1 - dir_sign d * b + max nBal 0))) m
          (parent_node (Frame d x (b - dir_sign d * (1 - min nBal 0)) (m - nm + total D) G) D)) A,
          nBal, False))"
  using assms by (cases d) (auto simp: rebalance_rotate_def tree_simps path_simps algebra_simps)

lemma rebalance_double:
  fixes G A C E :: "('a, 'm::ab_group_add) is_tree"
  assumes "dir_sign d * b > 0"
  shows "rebalance_rotate (parent_node (Frame d x b m G)
      (parent_node (Frame d y (- dir_sign d) nm (parent_node (Frame d z xb dm E) C)) A)) =
    (let nBal = (if xb = dir_sign d then - 2 else - 1)
     in Inr (parent_node (Frame d z (- dir_sign d * (1 + max nBal (1 - dir_sign d * b + max nBal 0))) m
          (parent_node (Frame d x (b - dir_sign d * (1 - min nBal 0)) (m - nm + total E) G) E))
          (parent_node (Frame d y (if xb = - dir_sign d then dir_sign d else 0)
             (nm - dm + total C) C) A), nBal, True))"
  using assms by (cases d) (auto simp: rebalance_rotate_def tree_simps path_simps algebra_simps)

lemma near_avl_parent_node:
  "near_avl (parent_node (Frame d x b m s) c) \<longleftrightarrow>
     b = dir_sign d * (int (height c) - int (height s)) \<and> avl s \<and> avl c"
  by (cases d) (auto simp: path_simps)

lemma child_parent_node:
  "child (parent_node (Frame d x b m s) c) d = c"
  "child (parent_node (Frame d x b m s) c) (\<not> d) = s"
  "set_child (parent_node (Frame d x b m s) c) (\<not> d) s' = parent_node (Frame d x b m s') c"
  "size (parent_node (Frame d x b m s) c) = Suc (size c + size s)"
  "parent_node (Frame d x b m s) c \<noteq> Leaf"
  by (cases d; simp add: path_simps)+

lemma items_rotated:
  fixes D A G :: "('a, 'm::ab_group_add) is_tree"
  shows "items (parent_node (Frame d x b m G) (parent_node (Frame d y nb nm D) A)) =
    items (parent_node (Frame d y b' m (parent_node (Frame d x b'' (m - nm + total D) G) D)) A)"
  by (cases d) (simp_all add: path_simps algebra_simps)

definition gentle :: "('a, 'm) is_tree \<Rightarrow> bool" where
  "gentle t \<longleftrightarrow> \<bar>balance t\<bar> \<le> 1 \<or> (\<bar>balance t\<bar> = 2 \<and> balance (child t (balance t > 0)) = 0)"

definition rebalanced ::
  "('a, 'm::ab_group_add) is_tree \<Rightarrow> ('a, 'm) is_tree \<Rightarrow> int \<Rightarrow> bool" where
  "rebalanced t t' hc \<longleftrightarrow> avl t' \<and> items t' = items t \<and> total t' = total t \<and>
     int (height t') = int (height t) + hc \<and> (hc = 0 \<or> hc = - 1) \<and> (gentle t \<longrightarrow> hc = 0)"

lemma ISRebalance_step:
  assumes "rebalance_rotate t = Inr (parent_node (Frame d y B m F) A, nBal, dbl)"
    and "ISRebalance F = Inr (c, chc)" and "dir_sign d * balance t > 1"
  shows "ISRebalance t =
    (let root3 = parent_node (Frame d y (B - dir_sign d * chc) m c) A;
         hc = (if dbl then - 1 else max (nBal + chc) (- 1))
     in if balance root3 < - 1 \<or> balance root3 > 1
        then if \<bar>balance root3\<bar> < \<bar>balance t\<bar>
             then case ISRebalance root3 of Inl e \<Rightarrow> Inl e | Inr (root4, h) \<Rightarrow> Inr (root4, hc + h)
             else Inl Assert_failed
        else Inr (root3, hc))"
proof -
  have d: "(balance t < 0) = (\<not> d)" "\<not> (balance t \<ge> - 1 \<and> balance t \<le> 1)" "t \<noteq> Leaf"
    using assms(3) by (cases d; auto)+
  have sgn: "dir_sign (\<not> d) = - dir_sign d" by (cases d) simp_all
  show ?thesis
    by (subst ISRebalance.simps)
      (simp add: assms(1,2) d sgn child_parent_node set_balance_parent_node parent_node_updates Let_def
        algebra_simps del: child_set_child)
qed

lemma gentle_small: "\<bar>balance t\<bar> \<le> 1 \<Longrightarrow> gentle t"
  by (simp add: gentle_def)

lemma gentle_parent_node:
  assumes "dir_sign d * b = 2"
  shows "gentle (parent_node (Frame d x b m s) c) \<longleftrightarrow> balance c = 0"
  using assms by (cases d) (auto simp: gentle_def path_simps)

lemma rebalance_single_ok:
  fixes G A D :: "('a, 'm::ab_group_add) is_tree"
  defines "t b x m y nb nm d \<equiv> parent_node (Frame d x b m G) (parent_node (Frame d y nb nm D) A)"
  assumes "near_avl (t b x m y nb nm d)" and "dir_sign d * b > 1" and "nb \<noteq> - dir_sign d"
    and IH: "\<And>F :: ('a, 'm) is_tree. size F < size (t b x m y nb nm d) \<Longrightarrow> near_avl F \<Longrightarrow>
      \<exists>t' hc. ISRebalance F = Inr (t', hc) \<and> rebalanced F t' hc"
  shows "\<exists>t' hc. ISRebalance (t b x m y nb nm d) = Inr (t', hc) \<and> rebalanced (t b x m y nb nm d) t' hc"
proof -
  let ?t = "t b x m y nb nm d"
  have b: "b = dir_sign d * (int (Suc (max (height A) (height D))) - int (height G))"
    and nb: "nb = dir_sign d * (int (height A) - int (height D))" "- 1 \<le> nb" "nb \<le> 1"
    and a: "avl A" "avl D" "avl G"
    using assms(2) by (auto simp: t_def near_avl_parent_node avl_parent_node parent_node_updates)
  let ?nBal = "- dir_sign d * nb"
  let ?B = "- dir_sign d * (1 + max ?nBal (1 - dir_sign d * b + max ?nBal 0))"
  let ?F = "parent_node (Frame d x (b - dir_sign d * (1 - min ?nBal 0)) (m - nm + total D) G) D"
  have rot: "rebalance_rotate ?t = Inr (parent_node (Frame d y ?B m ?F) A, ?nBal, False)"
    using rebalance_single [of d b nb] assms(3,4) unfolding t_def Let_def by simp
  have nF: "near_avl ?F" using a b nb assms(4)
    by (cases d) (auto simp: near_avl_parent_node)
  have "size ?F < size ?t" by (simp add: t_def child_parent_node)
  then obtain c chc where c: "ISRebalance ?F = Inr (c, chc)" "rebalanced ?F c chc"
    using IH nF by blast
  have hF: "height ?F = Suc (max (height D) (height G))" by (simp only: parent_node_updates)
  have chc: "avl c" "items c = items ?F" "total c = m - nm + total D"
    "int (height c) = int (Suc (max (height D) (height G))) + chc" "chc = 0 \<or> chc = - 1"
    "gentle ?F \<longrightarrow> chc = 0"
    using c(2) unfolding rebalanced_def hF by (simp_all add: parent_node_updates)
  let ?r = "parent_node (Frame d y (?B - dir_sign d * chc) m c) A"
  have bal: "dir_sign d * b > 1" by (rule assms(3))
  have r: "?B - dir_sign d * chc = dir_sign d * (int (height A) - int (height c))"
    "- 1 \<le> ?B - dir_sign d * chc" "?B - dir_sign d * chc \<le> 1"
    using chc(4,5) b nb bal assms(4) by (cases d; auto)+
  have "avl ?r" using r a(1) chc(1) by (simp add: avl_parent_node)
  moreover have "items ?r = items ?t"
    unfolding t_def items_rotated [of d x b m G y nb nm D A 0 0] using chc(2,3)
    by (cases d) (simp_all add: path_simps)
  moreover have "ISRebalance ?t = Inr (?r, max (?nBal + chc) (- 1))"
    using ISRebalance_step [OF rot c(1)] r bal by (simp add: t_def parent_node_updates Let_def)
  moreover have "int (height ?r) = int (height ?t) + max (?nBal + chc) (- 1)"
    using chc(4,5) b nb bal assms(4) by (cases d) (auto simp: t_def parent_node_updates)
  moreover have "max (?nBal + chc) (- 1) = 0 \<or> max (?nBal + chc) (- 1) = - 1"
    using nb assms(4) chc(5) by (cases d) auto
  moreover have "max (?nBal + chc) (- 1) = 0" if "gentle ?t"
  proof -
    have "dir_sign d * b = 2"
      using that bal by (cases d) (auto simp: gentle_def t_def parent_node_updates)
    moreover from this have "nb = 0"
      using that by (simp add: t_def gentle_parent_node parent_node_updates)
    ultimately have "gentle ?F" by (intro gentle_small, cases d) (auto simp: parent_node_updates)
    then show ?thesis using chc(6) \<open>nb = 0\<close> by simp
  qed
  ultimately show ?thesis by (auto simp: rebalanced_def t_def parent_node_updates)
qed

lemma items_double_rotated:
  fixes A C E G :: "('a, 'm::ab_group_add) is_tree"
  shows "items (parent_node (Frame d x b m G)
      (parent_node (Frame d y nb nm (parent_node (Frame d z xb dm E) C)) A)) =
    items (parent_node (Frame d z b1 m (parent_node (Frame d x b2 (m - nm + total E) G) E))
      (parent_node (Frame d y b3 (nm - dm + total C) C) A))"
  by (cases d) (simp_all add: path_simps algebra_simps)

lemma double_rotation_residue:
  fixes b chc n :: int
  assumes "dir_sign d * b > 1" and "chc = 0 \<or> chc = - 1" and "n = (if xb = dir_sign d then - 2 else - 1)"
    and "dir_sign d * (- dir_sign d * (1 + max n (1 - dir_sign d * b + max n 0)) - dir_sign d * chc) = 2"
  shows "xb = dir_sign d" and "dir_sign d * b > 2"
proof -
  have "- (1 + max n (1 - dir_sign d * b)) - chc = 2"
    using assms(3,4) by (cases d) (simp_all split: if_splits)
  then have "n = - 2" "1 - dir_sign d * b < - 1"
    using assms(2,3) by (auto simp: max_def split: if_splits)
  then show "xb = dir_sign d" "dir_sign d * b > 2"
    using assms(3) by (auto split: if_splits)
qed

lemma rebalance_double_ok:
  fixes t G A C E :: "('a, 'm::ab_group_add) is_tree"
  assumes t: "t = parent_node (Frame d x b m G)
      (parent_node (Frame d y (- dir_sign d) nm (parent_node (Frame d z xb dm E) C)) A)"
    and "near_avl t" and big: "dir_sign d * b > 1"
    and IH: "\<And>F :: ('a, 'm) is_tree. near_avl F \<Longrightarrow>
      size F < size t \<or> (size F = size t \<and> \<bar>balance F\<bar> < \<bar>balance t\<bar>) \<Longrightarrow>
      \<exists>t' hc. ISRebalance F = Inr (t', hc) \<and> rebalanced F t' hc"
  shows "\<exists>t' hc. ISRebalance t = Inr (t', hc) \<and> rebalanced t t' hc"
proof -
  have h: "height A = max (height C) (height E)" and xb: "xb = dir_sign d * (int (height C) - int (height E))"
      "- 1 \<le> xb" "xb \<le> 1"
    and b: "b = dir_sign d * (int (height A) + 2 - int (height G))"
    and a: "avl A" "avl C" "avl E" "avl G"
    using assms(2) by (cases d; auto simp: t near_avl_parent_node avl_parent_node parent_node_updates)+
  let ?nBal = "if xb = dir_sign d then - 2 else - 1 :: int"
  let ?B = "- dir_sign d * (1 + max ?nBal (1 - dir_sign d * b + max ?nBal 0))"
  let ?F = "parent_node (Frame d x (b - dir_sign d * (1 - min ?nBal 0)) (m - nm + total E) G) E"
  let ?A = "parent_node (Frame d y (if xb = - dir_sign d then dir_sign d else 0) (nm - dm + total C) C) A"
  have rot: "rebalance_rotate t = Inr (parent_node (Frame d z ?B m ?F) ?A, ?nBal, True)"
    unfolding t by (rule rebalance_double [unfolded Let_def]) (use big in simp)
  have nF: "near_avl ?F" using a b xb h by (cases d) (auto simp: near_avl_parent_node)
  have "size ?F < size t" by (simp add: t child_parent_node)
  then obtain c chc where c: "ISRebalance ?F = Inr (c, chc)" "rebalanced ?F c chc"
    using IH [of ?F] nF by blast
  have hF: "height ?F = Suc (max (height E) (height G))" by (simp only: parent_node_updates)
  have chc: "avl c" "items c = items ?F" "total c = m - nm + total E"
    "int (height c) = int (Suc (max (height E) (height G))) + chc" "chc = 0 \<or> chc = - 1"
    using c(2) unfolding rebalanced_def hF by (simp_all add: parent_node_updates)
  have A: "avl ?A" "height ?A = Suc (height A)"
    using a h xb by (cases d; auto simp: avl_parent_node parent_node_updates)+
  let ?r = "parent_node (Frame d z (?B - dir_sign d * chc) m c) ?A"
  have r: "?B - dir_sign d * chc = dir_sign d * (int (height ?A) - int (height c))"
    "dir_sign d * (?B - dir_sign d * chc) \<ge> 0" "dir_sign d * (?B - dir_sign d * chc) \<le> 2"
    using chc(4,5) b h xb big A(2) by (cases d; auto)+
  have nr: "near_avl ?r" using A(1) chc(1) r(1) by (simp only: near_avl_parent_node)
  have items_r: "items ?r = items t"
    unfolding t items_double_rotated [of d x b m G y _ nm z xb dm E C A 0 0 0] using chc(2,3)
    by (cases d) (simp_all add: path_simps)
  have ht: "int (height ?r) = int (height t) - 1"
    using r h xb b big A(2) by (cases d) (auto simp: t parent_node_updates)
  have tot: "total ?r = total t" "balance ?r = ?B - dir_sign d * chc" "balance t = b"
    by (simp_all add: t parent_node_updates)
  have ng: "\<not> gentle t" using big by (cases d) (auto simp: t gentle_def path_simps)
  have step: "ISRebalance t = (if balance ?r < - 1 \<or> balance ?r > 1
        then if \<bar>balance ?r\<bar> < \<bar>balance t\<bar>
             then case ISRebalance ?r of Inl e \<Rightarrow> Inl e | Inr (root4, h) \<Rightarrow> Inr (root4, - 1 + h)
             else Inl Assert_failed
        else Inr (?r, - 1))"
    using ISRebalance_step [OF rot c(1)] big by (simp add: tot Let_def)
  show ?thesis
  proof (cases "balance ?r < - 1 \<or> balance ?r > 1")
    case False
    then have "avl ?r" using nr by (cases ?r) auto
    then show ?thesis using step False items_r ht tot ng by (simp add: rebalanced_def)
  next
    case True
    define \<beta> where "\<beta> = balance ?r"
    have "dir_sign d * \<beta> \<ge> 0" "dir_sign d * \<beta> \<le> 2" "\<beta> < - 1 \<or> \<beta> > 1"
      using r(2,3) True unfolding tot \<beta>_def by blast+
    then have \<beta>: "dir_sign d * \<beta> = 2" by (cases d) simp_all
    then have two: "dir_sign d * balance ?r = 2" unfolding \<beta>_def .
    have xd: "xb = dir_sign d" "dir_sign d * b > 2"
      by (rule double_rotation_residue [OF big chc(5) refl two [unfolded tot]])+
    have "\<bar>\<beta>\<bar> < \<bar>b\<bar>" using \<beta> xd(2) by (cases d) auto
    then have less: "\<bar>balance ?r\<bar> < \<bar>balance t\<bar>" unfolding \<beta>_def tot(3) .
    have "size c = size ?F" using chc(2) by (simp only: length_items [symmetric])
    then have "size ?r = size t" by (simp add: t child_parent_node)
    then obtain t' hc where t': "ISRebalance ?r = Inr (t', hc)" "rebalanced ?r t' hc"
      using IH [OF nr] less by blast
    have "balance ?A = 0" using xd(1) by (cases d) (simp_all add: parent_node_updates)
    then have "gentle ?r" by (rule gentle_parent_node [OF two [unfolded tot(2)], THEN iffD2])
    then have hc: "hc = 0" using t'(2) unfolding rebalanced_def by blast
    have "ISRebalance t = Inr (t', - 1 + hc)"
      unfolding step if_P [OF True] if_P [OF less] t'(1) by (simp only: sum.case prod.case)
    moreover have "rebalanced t t' (- 1 + hc)"
      using t'(2) items_r ht tot(1) ng unfolding rebalanced_def hc by (simp only:) simp
    ultimately show ?thesis by blast
  qed
qed

lemma tall_child:
  assumes "near_avl t" and "\<not> (balance t \<ge> - 1 \<and> balance t \<le> 1)"
  obtains d x b m G y nb nm D A where "dir_sign d * b > 1"
    "t = parent_node (Frame d x b m G) (parent_node (Frame d y nb nm D) A)"
proof -
  obtain l x b m r where t: "t = Node l x b m r" using assms(2) by (cases t) auto
  show thesis
  proof (cases "b > 0")
    case True
    then obtain A y nb nm D where "r = Node D y nb nm A" using assms(1) t by (cases r) auto
    then show thesis using that [of True b x m l y nb nm D A] True assms(2) t by (simp add: path_simps)
  next
    case False
    then obtain A y nb nm D where "l = Node A y nb nm D" using assms t by (cases l) auto
    then show thesis using that [of False b x m r y nb nm D A] False assms(2) t by (simp add: path_simps)
  qed
qed

lemma ISRebalance_ok:
  fixes t :: "('a, 'm::ab_group_add) is_tree"
  assumes "near_avl t"
  shows "\<exists>t' hc. ISRebalance t = Inr (t', hc) \<and> rebalanced t t' hc"
  using assms
proof (induction t rule: wf_induct_rule [OF wf_measures [of "[size, \<lambda>t. nat \<bar>balance t\<bar>]"]])
  case (1 t)
  have IH: "\<exists>t' hc. ISRebalance F = Inr (t', hc) \<and> rebalanced F t' hc"
    if "near_avl F" "size F < size t \<or> (size F = size t \<and> \<bar>balance F\<bar> < \<bar>balance t\<bar>)"
    for F :: "('a, 'm) is_tree"
    using 1(1) [of F] that by auto
  show ?case
  proof (cases "balance t \<ge> - 1 \<and> balance t \<le> 1")
    case True
    then have "avl t" using "1.prems" by (cases t) auto
    then show ?thesis using True by (subst ISRebalance.simps) (simp add: rebalanced_def)
  next
    case False
    obtain d x b m G y nb nm D A where b: "dir_sign d * b > 1"
      and t: "t = parent_node (Frame d x b m G) (parent_node (Frame d y nb nm D) A)"
      using tall_child [OF "1.prems" False] .
    show ?thesis
    proof (cases "nb = - dir_sign d")
      case single: False
      then show ?thesis using rebalance_single_ok [of d x b m G y nb nm D A] "1.prems" b IH
        unfolding t by blast
    next
      case True
      have "avl (parent_node (Frame d y nb nm D) A)"
        using "1.prems" unfolding t by (simp add: near_avl_parent_node)
      then have "D \<noteq> Leaf" using True by (cases d) (auto simp: avl_parent_node)
      then obtain z xb dm E C where "D = parent_node (Frame d z xb dm E) C"
        by (cases D; cases d) (auto simp: path_simps)
      then show ?thesis using rebalance_double_ok [of t] t True "1.prems" b IH by blast
    qed
  qed
qed

text \<open>
  Property C22: for every node whose children are AVL trees and whose balance field is right,
  however large, \<open>ISRebalance\<close> terminates without a null access, its assertion that the balance
  improves holds at every round, and it returns an AVL tree with the same items and total
  together with the exact change of height, which is \<open>0\<close> or \<open>-1\<close>.
\<close>

theorem ISRebalance_correct:
  fixes t :: "('a, 'm::ab_group_add) is_tree"
  assumes "near_avl t"
  shows "\<exists>t' hc. ISRebalance t = Inr (t', hc) \<and> avl t' \<and> items t' = items t \<and> total t' = total t \<and>
    int (height t') = int (height t) + hc \<and> (hc = 0 \<or> hc = - 1)"
  using ISRebalance_ok [OF assms] by (auto simp: rebalanced_def)

definition left_heavy :: "(int, int) is_tree" where
  "left_heavy = Node (Node (Node Leaf 10 0 1 Leaf) 20 1 4 (Node (Node Leaf 25 0 1 Leaf) 30 (- 1) 2 Leaf))
     40 (- 3) 5 Leaf"

theorem ISRebalance_correct_witness:
  "near_avl left_heavy \<and>
   (\<exists>t'. ISRebalance left_heavy = Inr (t', - 1) \<and> avl t' \<and> items t' = items left_heavy)"
proof -
  have n: "near_avl left_heavy" by (simp add: left_heavy_def)
  obtain t' hc where t': "ISRebalance left_heavy = Inr (t', hc)" "avl t'" "items t' = items left_heavy"
    using ISRebalance_correct [OF n] by blast
  have "hc = - 1" using t'(1) by (simp add: left_heavy_def ISRebalance.simps rebalance_rotate_def tree_simps)
  then show ?thesis using n t' by blast
qed

end
