(* ===== verification/IS_RangeErase.thy ===== *)
theory IS_RangeErase
  imports IS_Rebalance "HOL-Library.Multiset"
begin

text \<open>
  The range erase of \<open>IndexedSet\<close>: the common subtree root of the first and the last node, the
  two calls of \<open>eraseHalf\<close> below it, the rebalancing loop above it, and the final erase of the
  subtree root itself. It is shown to remove exactly the items between the two iterators and to
  hand every other removed node over for freeing.
\<close>

subsection \<open>Model\<close>

fun climb_n :: "nat \<Rightarrow> ('a, 'm) loc \<Rightarrow> ('a, 'm) loc" where
  "climb_n (Suc n) (t, f # fs) = climb_n n (parent_node f t, fs)"
| "climb_n n i = i"

fun common_up :: "('a, 'm) is_tree \<Rightarrow> ('a, 'm) path \<Rightarrow> ('a, 'm) is_tree \<Rightarrow> ('a, 'm) path \<Rightarrow> ('a, 'm) iter"
where
  "common_up t [] u q = (if t = u \<and> q = [] then Some (t, []) else None)"
| "common_up t (f # fs) u q =
     (if t = u \<and> f # fs = q then Some (t, f # fs)
      else case q of [] \<Rightarrow> None | g # gs \<Rightarrow> common_up (parent_node f t) fs (parent_node g u) gs)"

definition ISCommonSubtreeRoot :: "('a, 'm) loc \<Rightarrow> ('a, 'm) loc \<Rightarrow> ('a, 'm) iter" where
  "ISCommonSubtreeRoot first final =
     (let firstDepth = Suc (length (snd first)); lastDepth = Suc (length (snd final));
          f = climb_n (firstDepth - lastDepth) first; l = climb_n (lastDepth - firstDepth) final
      in common_up (fst f) (snd f) (fst l) (snd l))"

text \<open>
  One round of the loop of \<open>eraseHalf\<close> up to the update of the parent: what replaces \<open>start\<close> in
  its parent, the metric and height changes, and the subtrees to free.
\<close>

definition half_fix ::
  "bool \<Rightarrow> bool \<Rightarrow> ('a, 'm::ab_group_add) is_tree \<Rightarrow> 'm \<Rightarrow> int \<Rightarrow> ('a, 'm) is_tree list \<Rightarrow>
    (('a, 'm) is_tree \<times> 'm \<times> int \<times> ('a, 'm) is_tree list) result" where
  "half_fix eraseDir fromDir start0 metricDelta heightDelta toFree =
     (let start = set_total start0 (total start0 - metricDelta)
      in if fromDir = eraseDir
         then bind_result (ISRebalance start) (\<lambda>(node, hc).
                Inr (node, metricDelta, heightDelta + hc, toFree))
         else let dh = heightDelta + (- 1 - max 0 (balance start * dir_sign eraseDir));
                  md = metricDelta + total start;
                  n = child start fromDir;
                  md' = (if n \<noteq> Leaf then md - total n else md)
              in Inr (n, md', dh, toFree @ [set_child start fromDir Leaf]))"

fun eraseHalf ::
  "bool \<Rightarrow> bool \<Rightarrow> ('a, 'm::ab_group_add) is_tree \<Rightarrow> ('a, 'm) path \<Rightarrow> 'm \<Rightarrow> int \<Rightarrow>
    ('a, 'm) is_tree list \<Rightarrow> (('a, 'm) is_tree \<times> 'm \<times> int \<times> ('a, 'm) is_tree list) result" where
  "eraseHalf eraseDir fromDir start [] metricDelta heightDelta toFree =
     Inr (start, metricDelta, heightDelta, toFree)"
| "eraseHalf eraseDir fromDir start (Frame nextDir x oldBalance m s # fs) metricDelta heightDelta toFree =
     bind_result (half_fix eraseDir fromDir start metricDelta heightDelta toFree) (\<lambda>(node, md, dh, free).
       if \<not> dh \<le> 0 then Inl Assert_failed
       else let dir = dir_sign nextDir;
                newBalance = oldBalance + dh * dir;
                maxHeightChange = max (oldBalance * dir) 0;
                balanceChange = (oldBalance - newBalance) * dir
            in eraseHalf eraseDir nextDir (parent_node (Frame nextDir x newBalance m s) node) fs md
                 (- min maxHeightChange balanceChange) free)"

text \<open>The loop from \<open>subRoot\<close> up to the root.\<close>

fun range_retrace ::
  "('a, 'm::ab_group_add) is_tree \<Rightarrow> ('a, 'm) path \<Rightarrow> 'm \<Rightarrow> int \<Rightarrow> ('a, 'm) is_tree result" where
  "range_retrace p [] metricDelta heightDelta =
     bind_result (ISRebalance (set_total p (total p - metricDelta))) (\<lambda>(p', hc). Inr p')"
| "range_retrace p (Frame d x oldb m s # fs) metricDelta heightDelta =
     bind_result (ISRebalance (set_total p (total p - metricDelta))) (\<lambda>(p', hc).
       let dir = dir_sign d; newb = oldb + (heightDelta + hc) * dir
       in range_retrace (parent_node (Frame d x newb m s) p') fs metricDelta
            (max (newb * dir) 0 - max (oldb * dir) 0))"

text \<open>
  The first call of \<open>eraseHalf\<close> has changed the node \<open>subRoot\<close>, which is the topmost frame on the
  way down to \<open>last\<close>.
\<close>

definition rebase :: "('a, 'm) is_tree \<Rightarrow> ('a, 'm) path \<Rightarrow> ('a, 'm) path" where
  "rebase subRoot path =
     (if path = [] then [] else butlast path @ [down_frame subRoot (f_dir (last path))])"

text \<open>
  The source erases the common root last, by its node; a node has no identity of its own here, and the
  node is found by its key, which no other node of an ordered tree has.
\<close>

definition erase_range ::
  "('a::linorder, 'm::ab_group_add) is_tree \<Rightarrow> ('a, 'm) iter \<Rightarrow> ('a, 'm) iter \<Rightarrow>
    (('a, 'm) is_tree \<times> ('a, 'm) is_tree list) result" where
  "erase_range root b e =
     (if \<not> (case e of None \<Rightarrow> True
            | Some le \<Rightarrow> (case b of None \<Rightarrow> False | Some lb \<Rightarrow> n_data (fst lb) \<le> n_data (fst le)))
      then Inl Assert_failed
      else if b = e then Inr (root, [])
      else case (b, previous root e) of
             (Some first, Some final) \<Rightarrow>
               (case ISCommonSubtreeRoot first final of
                  None \<Rightarrow> Inl Undefined_behaviour
                | Some (subRoot, path) \<Rightarrow>
                    let below = (\<lambda>i. take (length (snd i) - length path) (snd i));
                        left = below first; right = below final
                    in bind_result (eraseHalf True False (fst first) left 0 0 []) (\<lambda>(s1, md1, hd1, free1).
                       bind_result (eraseHalf False True (if right = [] then s1 else fst final)
                                      (rebase s1 right) 0 0 free1) (\<lambda>(s2, md2, hd2, free2).
                       bind_result (range_retrace s2 path (0 + md1 + md2) (hd1 + hd2)) (\<lambda>root'.
                       bind_result (erase_key root' (n_data subRoot)) (\<lambda>root''.
                       Inr (root'', free2))))))
           | _ \<Rightarrow> Inl Undefined_behaviour)"

definition erase_range_keys ::
  "('a::linorder, 'm::ab_group_add) is_tree \<Rightarrow> 'a \<Rightarrow> 'a \<Rightarrow>
    (('a, 'm) is_tree \<times> ('a, 'm) is_tree list) result" where
  "erase_range_keys root b e = erase_range root (lower_bound root b) (lower_bound root e)"

subsection \<open>The common subtree root\<close>

lemma climb_n_plug: "n \<le> length p \<Longrightarrow> climb_n n (t, p) = (plug t (take n p), drop n p)"
  by (induction n "(t, p)" arbitrary: t p rule: climb_n.induct) auto

lemma parent_node_inj:
  "parent_node f t = parent_node g u \<Longrightarrow> f_dir f = f_dir g \<Longrightarrow> f = g \<and> t = u"
  by (cases f; cases g) (auto simp: path_simps split: if_splits)

lemma common_up_ok:
  assumes "length p = length q" and "plug t p = plug u q"
  shows "\<exists>p1 p2 r. p = p1 @ r \<and> q = p2 @ r \<and> plug t p1 = plug u p2 \<and>
    common_up t p u q = Some (plug t p1, r) \<and>
    (p1 = [] \<and> p2 = [] \<or> p1 \<noteq> [] \<and> p2 \<noteq> [] \<and> f_dir (last p1) \<noteq> f_dir (last p2))"
  using assms
proof (induction p arbitrary: q t u)
  case (Cons f fs)
  then obtain g gs where q: "q = g # gs" by (cases q) auto
  show ?case
  proof (cases "t = u \<and> f # fs = q")
    case True
    then have "common_up t (f # fs) u q = Some (plug t [], f # fs)" unfolding q by simp
    then show ?thesis using True by (metis append_Nil)
  next
    case False
    obtain p1 p2 r where IH: "fs = p1 @ r" "gs = p2 @ r" "plug (parent_node f t) p1 = plug (parent_node g u) p2"
      "common_up (parent_node f t) fs (parent_node g u) gs = Some (plug (parent_node f t) p1, r)"
      "p1 = [] \<and> p2 = [] \<or> p1 \<noteq> [] \<and> p2 \<noteq> [] \<and> f_dir (last p1) \<noteq> f_dir (last p2)"
      using Cons.IH [of gs "parent_node f t" "parent_node g u"] Cons.prems unfolding q plug.simps list.size
      by (metis add_right_cancel)
    have "p1 = [] \<Longrightarrow> f_dir f \<noteq> f_dir g"
      using parent_node_inj [of f t g u] IH False q by auto
    then show ?thesis using IH False q
      by (intro exI [of _ "f # p1"] exI [of _ "g # p2"] exI [of _ r]) auto
  qed
qed simp

lemma ISCommonSubtreeRoot_ok:
  assumes "plug t p = plug u q"
  shows "\<exists>p1 p2 r. p = p1 @ r \<and> q = p2 @ r \<and> plug t p1 = plug u p2 \<and>
    ISCommonSubtreeRoot (t, p) (u, q) = Some (plug t p1, r) \<and>
    (p1 = [] \<or> p2 = [] \<or> f_dir (last p1) \<noteq> f_dir (last p2))"
proof -
  define n k where "n = length p - length q" and "k = length q - length p"
  have len: "n \<le> length p" "k \<le> length q" "length (drop n p) = length (drop k q)" "n = 0 \<or> k = 0"
    by (auto simp: n_def k_def)
  have "plug (plug t (take n p)) (drop n p) = plug (plug u (take k q)) (drop k q)"
    using assms by (simp flip: plug_append)
  from common_up_ok [OF len(3) this] obtain p1 p2 r where
    c: "drop n p = p1 @ r" "drop k q = p2 @ r"
      "plug (plug t (take n p)) p1 = plug (plug u (take k q)) p2"
      "common_up (plug t (take n p)) (drop n p) (plug u (take k q)) (drop k q) =
         Some (plug (plug t (take n p)) p1, r)"
      "p1 = [] \<and> p2 = [] \<or> p1 \<noteq> [] \<and> p2 \<noteq> [] \<and> f_dir (last p1) \<noteq> f_dir (last p2)" by blast
  have "p = (take n p @ p1) @ r" "q = (take k q @ p2) @ r"
    using c(1,2) by (metis append.assoc append_take_drop_id)+
  moreover have "ISCommonSubtreeRoot (t, p) (u, q) = Some (plug t (take n p @ p1), r)"
    using c(4) len(1,2)
    by (simp add: ISCommonSubtreeRoot_def Let_def climb_n_plug plug_append flip: n_def k_def)
  moreover have "take n p @ p1 = [] \<or> take k q @ p2 = [] \<or>
      f_dir (last (take n p @ p1)) \<noteq> f_dir (last (take k q @ p2))"
    using c(5) len(4) by auto
  ultimately show ?thesis using c(3) by (metis plug_append)
qed

subsection \<open>Erasing one half\<close>

abbreviation keys_of :: "('a, 'm::ab_group_add) is_tree \<Rightarrow> 'a multiset" where
  "keys_of t \<equiv> mset (map fst (items t))"

definition freed :: "('a, 'm::ab_group_add) is_tree list \<Rightarrow> 'a multiset" where
  "freed ts = sum_list (map keys_of ts)"

lemma freed_simps [simp]: "freed [] = {#}" "freed (ts @ us) = freed ts + freed us" "freed [t] = keys_of t"
  by (simp_all add: freed_def)

text \<open>
  \<open>n\<close> is a finished replacement of the subtree \<open>t0\<close>: an AVL tree that is \<open>- dh\<close> lower and \<open>md\<close>
  lighter and holds the items that are kept; the nodes handed over account for the others.
\<close>

definition slot_ok ::
  "('a \<Rightarrow> bool) \<Rightarrow> ('a, 'm::ab_group_add) is_tree \<Rightarrow> 'a multiset \<Rightarrow>
    ('a, 'm) is_tree \<times> 'm \<times> int \<times> ('a, 'm) is_tree list \<Rightarrow> bool" where
  "slot_ok keep t0 base = (\<lambda>(n, md, dh, free). avl n \<and> int (height n) = int (height t0) + dh \<and>
     dh \<le> 0 \<and> total n = total t0 - md \<and> items n = filter (keep \<circ> fst) (items t0) \<and>
     freed free + keys_of n = base + keys_of t0)"

text \<open>What the keys beside the path must be for one direction of erasing.\<close>

fun frame_keep :: "('a \<Rightarrow> bool) \<Rightarrow> bool \<Rightarrow> ('a, 'm::ab_group_add) frame \<Rightarrow> bool" where
  "frame_keep keep ed (Frame d x b m s) \<longleftrightarrow>
     (if d = ed then keep x \<and> (\<forall>y \<in> set (items s). keep (fst y))
      else \<not> keep x \<and> (\<forall>y \<in> set (items s). \<not> keep (fst y)))"

lemma half_parent:
  fixes n t0 s :: "('a, 'm::ab_group_add) is_tree" and oldB dh :: int
  assumes "avl n" and "avl s" and "int (height n) = int (height t0) + dh" and "dh \<le> 0"
    and "oldB = dir_sign d * (int (height t0) - int (height s))"
  defines "newB \<equiv> oldB + dh * dir_sign d"
  defines "hd' \<equiv> - min (max (oldB * dir_sign d) 0) ((oldB - newB) * dir_sign d)"
  shows "near_avl (parent_node (Frame d x newB m s) n)"
    and "int (height (parent_node (Frame d x newB m s) n)) =
      int (height (parent_node (Frame d x oldB m s) t0)) + hd'"
    and "hd' \<le> 0"
proof -
  show "near_avl (parent_node (Frame d x newB m s) n)"
    using assms(1-5) by (simp add: near_avl_parent_node newB_def algebra_simps)
  have "oldB * dir_sign d = int (height t0) - int (height s)" "(oldB - newB) * dir_sign d = - dh"
    using assms(5) by (cases d; simp add: newB_def)+
  then show "int (height (parent_node (Frame d x newB m s) n)) =
      int (height (parent_node (Frame d x oldB m s) t0)) + hd'" "hd' \<le> 0"
    using assms(3,4) unfolding hd'_def parent_node_updates by auto
qed

text \<open>The round at a parent whose child on the path has just been replaced.\<close>

lemma half_fix_parent:
  fixes n t0 s :: "('a, 'm::ab_group_add) is_tree"
  assumes "slot_ok keep t0 base (n, md, dh, free)" and "avl s"
    and "oldB = dir_sign d * (int (height t0) - int (height s))"
    and "frame_keep keep ed (Frame d x oldB m s)"
  defines "newB \<equiv> oldB + dh * dir_sign d"
  defines "hd' \<equiv> - min (max (oldB * dir_sign d) 0) ((oldB - newB) * dir_sign d)"
  shows "\<exists>r. half_fix ed d (parent_node (Frame d x newB m s) n) md hd' free = Inr r \<and>
    slot_ok keep (parent_node (Frame d x oldB m s) t0) base r"
proof -
  have n: "avl n" "int (height n) = int (height t0) + dh" "dh \<le> 0" "total n = total t0 - md"
    "items n = filter (keep \<circ> fst) (items t0)" "freed free + keys_of n = base + keys_of t0"
    using assms(1) unfolding slot_ok_def prod.case by blast+
  note par = half_parent [OF n(1) assms(2) n(2,3) assms(3), folded newB_def, folded hd'_def]
  let ?t0 = "parent_node (Frame d x oldB m s) t0"
  let ?start = "parent_node (Frame d x newB (m - md) s) n"
  have start: "set_total (parent_node (Frame d x newB m s) n) (m - md) = ?start"
    by (cases d) (simp_all add: path_simps)
  show ?thesis
  proof (cases "d = ed")
    case True
    have "near_avl ?start" using par(1) by (simp add: near_avl_parent_node)
    then obtain t' hc where t': "ISRebalance ?start = Inr (t', hc)" "rebalanced ?start t' hc"
      using ISRebalance_ok by blast
    have r: "avl t'" "items t' = items ?start" "total t' = m - md" "hc \<le> 0"
      "int (height t') = int (height ?t0) + (hd' + hc)"
      using t'(2) par(2) unfolding rebalanced_def by (auto simp: parent_node_updates)
    have it: "items ?start = filter (keep \<circ> fst) (items ?t0)"
      using assms(4) True n(4,5) by (cases d) (auto simp: path_simps filter_id_conv)
    have "freed free + keys_of ?start = base + keys_of ?t0"
      using n(6) by (cases d) (simp_all add: path_simps)
    then have "slot_ok keep ?t0 base (t', md, hd' + hc, free)"
      using r it par(3) by (simp add: slot_ok_def parent_node_updates)
    then show ?thesis using True t'(1) start
      by (simp add: half_fix_def parent_node_updates)
  next
    case False
    let ?free = "parent_node (Frame d x newB (m - md) s) Leaf"
    have "items n = filter (keep \<circ> fst) (items ?t0)"
      using assms(4) False n(5) by (cases d) (auto simp: path_simps filter_empty_conv)
    moreover have "freed free + keys_of ?free + keys_of n = base + keys_of ?t0"
      using n(6) by (cases d) (simp_all add: path_simps algebra_simps)
    moreover have ed: "dir_sign ed = - dir_sign d" using False by (cases d; cases ed) simp_all
    moreover have "int (height n) = int (height ?t0) + (hd' + (- 1 - max 0 (- newB * dir_sign d)))"
      using par(2) n(2) assms(3) unfolding newB_def parent_node_updates by (cases d) auto
    moreover have "hd' + (- 1 - max 0 (- newB * dir_sign d)) \<le> 0" using par(3) by simp
    ultimately have "slot_ok keep ?t0 base (n, md + (m - md) - total n,
        hd' + (- 1 - max 0 (newB * dir_sign ed)), free @ [?free])"
      using n(1) by (simp add: slot_ok_def parent_node_updates)
    moreover have "half_fix ed d (parent_node (Frame d x newB m s) n) md hd' free =
        Inr (n, md + (m - md) - total n, hd' + (- 1 - max 0 (newB * dir_sign ed)), free @ [?free])"
      using False start by (cases d; cases n) (simp_all add: half_fix_def Let_def path_simps)
    ultimately show ?thesis by blast
  qed
qed

lemma eraseHalf_ok:
  fixes start t0 :: "('a, 'm::ab_group_add) is_tree"
  assumes "half_fix ed fd start md dh free = Inr r" and "slot_ok keep t0 base r"
    and "avl_path (height t0) inner" and "\<forall>f \<in> set inner. frame_keep keep ed f"
    and "avl s" and "oldB = dir_sign d * (int (height (plug t0 inner)) - int (height s))"
  shows "\<exists>n md' hd' free'. slot_ok keep (plug t0 inner) base (n, md', hd', free') \<and>
    eraseHalf ed fd start (inner @ [Frame d x oldB m s]) md dh free =
      Inr (parent_node (Frame d x (oldB + hd' * dir_sign d) m s) n, md',
           - min (max (oldB * dir_sign d) 0) (- hd' * dir_sign d * dir_sign d), free')"
  using assms
proof (induction inner arbitrary: fd start md dh free r t0)
  case Nil
  obtain n md' hd' free' where r: "r = (n, md', hd', free')" by (cases r)
  moreover have "hd' \<le> 0" using Nil.prems(2) r by (simp add: slot_ok_def)
  ultimately show ?case using Nil.prems(1,2) by (auto simp: Let_def algebra_simps)
next
  case (Cons f inner)
  obtain n md1 hd1 free1 where r: "r = (n, md1, hd1, free1)" by (cases r)
  obtain d' x' b' m' s' where f: "f = Frame d' x' b' m' s'" by (cases f)
  have b': "b' = dir_sign d' * (int (height t0) - int (height s'))" "avl s'"
    and path: "avl_path (height (parent_node f t0)) inner"
    using Cons.prems(3) unfolding f parent_node_updates by simp_all
  have hd1: "hd1 \<le> 0" using Cons.prems(2) r by (simp add: slot_ok_def)
  have fk: "frame_keep keep ed (Frame d' x' b' m' s')" using Cons.prems(4) f by simp
  define newB hd2 where "newB = b' + hd1 * dir_sign d'"
    and "hd2 = - min (max (b' * dir_sign d') 0) ((b' - newB) * dir_sign d')"
  obtain r' where r': "half_fix ed d' (parent_node (Frame d' x' newB m' s') n) md1 hd2 free1 = Inr r'"
      "slot_ok keep (parent_node f t0) base r'"
    using half_fix_parent [OF Cons.prems(2) [unfolded r] b'(2,1) fk] unfolding newB_def hd2_def f
    by blast
  have "eraseHalf ed fd start ((f # inner) @ [Frame d x oldB m s]) md dh free =
      eraseHalf ed d' (parent_node (Frame d' x' newB m' s') n) (inner @ [Frame d x oldB m s]) md1 hd2 free1"
    using Cons.prems(1) hd1 by (simp add: r f Let_def newB_def hd2_def)
  then show ?case
    using Cons.IH [OF r' path] Cons.prems(4-6) by simp
qed

text \<open>The first round removes \<open>start\<close> and everything beyond it.\<close>

lemma half_fix_start:
  fixes t :: "('a, 'm::ab_group_add) is_tree"
  assumes "avl t" and "t = parent_node (Frame (\<not> ed) x b m s) c" and "\<not> keep x"
    and "\<forall>y \<in> set (items s). \<not> keep (fst y)" and "\<forall>y \<in> set (items c). keep (fst y)"
  shows "\<exists>r. half_fix ed (\<not> ed) t 0 0 free = Inr r \<and> slot_ok keep t (freed free) r"
proof -
  let ?free = "parent_node (Frame (\<not> ed) x b m s) Leaf"
  have b: "b = dir_sign (\<not> ed) * (int (height c) - int (height s))" and c: "avl c"
    using assms(1,2) by (simp_all add: avl_parent_node)
  have "half_fix ed (\<not> ed) t 0 0 free =
      Inr (c, m - total c, - 1 - max 0 (b * dir_sign ed), free @ [?free])"
    using assms(2) by (cases ed; cases c) (simp_all add: half_fix_def Let_def path_simps)
  moreover have "int (height c) = int (height t) + (- 1 - max 0 (b * dir_sign ed))"
    using b unfolding assms(2) parent_node_updates by (cases ed) auto
  moreover have "items c = filter (keep \<circ> fst) (items t)"
    using assms(2-5) by (cases ed) (auto simp: path_simps filter_id_conv filter_empty_conv)
  moreover have "keys_of ?free + keys_of c = keys_of t"
    unfolding assms(2) by (cases ed) (simp_all add: path_simps)
  ultimately show ?thesis using c assms(2)
    by (auto simp: slot_ok_def parent_node_updates algebra_simps)
qed

subsection \<open>The loop above the common root\<close>

lemma near_avl_set_total [simp]: "near_avl (set_total t m) = near_avl t" "height (set_total t m) = height t"
  by (cases t; simp)+

lemma range_retrace_ok:
  fixes t :: "('a, 'm::ab_group_add) is_tree"
  assumes "near_avl t" and "t \<noteq> Leaf" and "int (height t) = int h0 + dh" and "avl_path h0 path"
  shows "\<exists>t'. range_retrace t path md dh = Inr t' \<and> avl t' \<and>
    items t' = litems (total t) path @ items (set_total t (total t - md)) @ ritems (total t) path"
  using assms
proof (induction path arbitrary: t h0 dh)
  case Nil
  then obtain p hc where "ISRebalance (set_total t (total t - md)) = Inr (p, hc)"
      "rebalanced (set_total t (total t - md)) p hc"
    using ISRebalance_ok [of "set_total t (total t - md)"] by auto
  then show ?case by (simp add: rebalanced_def)
next
  case (Cons f fs)
  obtain d x b m s where f: "f = Frame d x b m s" by (cases f)
  let ?t = "set_total t (total t - md)"
  obtain p hc where p: "ISRebalance ?t = Inr (p, hc)" "rebalanced ?t p hc"
    using ISRebalance_ok [of ?t] Cons.prems(1) by auto
  have r: "avl p" "items p = items ?t" "total p = total t - md" "int (height p) = int h0 + (dh + hc)"
    using p(2) Cons.prems(2,3) by (cases t; simp add: rebalanced_def)+
  have b: "b = dir_sign d * (int h0 - int (height s))" "avl s"
    and fs: "avl_path (Suc (max h0 (height s))) fs" using Cons.prems(4) f by simp_all
  define newb where "newb = b + (dh + hc) * dir_sign d"
  let ?u = "parent_node (Frame d x newb m s) p"
  have u: "near_avl ?u" "?u \<noteq> Leaf" "total ?u = m"
    "int (height ?u) = int (Suc (max h0 (height s))) + (max (newb * dir_sign d) 0 - max (b * dir_sign d) 0)"
    using r(1,4) b by (cases d; auto simp: near_avl_parent_node child_parent_node parent_node_updates newb_def)+
  have "set_total ?u (m - md) = parent_node (Frame d x newb (m - md) s) p"
    by (cases d) (simp_all add: path_simps)
  then have "litems m fs @ items (set_total ?u (m - md)) @ ritems m fs =
      litems (total t) (f # fs) @ items ?t @ ritems (total t) (f # fs)"
    using r(2,3) by (cases d) (simp_all add: path_simps f algebra_simps)
  then show ?case
    using Cons.IH [OF u(1,2,4) fs] p(1) u(3) by (simp add: f newb_def Let_def)
qed

subsection \<open>Both halves below the common root\<close>

definition beyond :: "bool \<Rightarrow> 'a::linorder \<Rightarrow> 'a \<Rightarrow> bool" where
  "beyond ed k y = (if ed then y < k else k < y)"

lemma sorted_items_plug: "sorted_items (items (plug t p)) \<Longrightarrow> sorted_items (items t)"
  by (simp add: items_plug sorted_items_append)

lemma plug_frame_keep:
  fixes t :: "('a::linorder, 'm::ab_group_add) is_tree"
  assumes "sorted_items (items (plug t p))" and "k \<in> fst ` set (items t)"
  shows "\<forall>f \<in> set p. frame_keep (beyond ed k) ed f"
  using assms
proof (induction p arbitrary: t)
  case (Cons f p)
  obtain d x b m s where f: "f = Frame d x b m s" by (cases f)
  have srt: "sorted_items (items (parent_node f t))"
    using Cons.prems(1) sorted_items_plug [of "parent_node f t" p] by simp
  have "frame_keep (beyond ed k) ed f"
    using srt Cons.prems(2)
    by (cases d; cases ed) (force simp: f path_simps sorted_items_append sorted_items_Cons beyond_def)+
  moreover have "k \<in> fst ` set (items (parent_node f t))"
    using Cons.prems(2) by (cases d) (auto simp: f path_simps)
  ultimately show ?case using Cons.IH [of "parent_node f t"] Cons.prems(1) by simp
qed simp

lemma avl_plug_parts: "avl (plug t p) \<Longrightarrow> avl t \<and> avl_path (height t) p"
  by (simp add: avl_plug)

lemma eraseHalf_side:
  fixes t c s :: "('a::linorder, 'm::ab_group_add) is_tree"
  assumes "plug t inner = c" and "t \<noteq> Leaf" and "sorted_items (items c)" and "avl c"
    and "near_avl (parent_node (Frame (\<not> ed) x b m s) c)"
  shows "\<exists>n b' md dh free'.
    eraseHalf ed (\<not> ed) t (inner @ [Frame (\<not> ed) x b m s]) 0 0 free =
      Inr (parent_node (Frame (\<not> ed) x b' m s) n, md, dh, free') \<and>
    near_avl (parent_node (Frame (\<not> ed) x b' m s) n) \<and>
    int (height (parent_node (Frame (\<not> ed) x b' m s) n)) =
      int (height (parent_node (Frame (\<not> ed) x b m s) c)) + dh \<and>
    total n = total c - md \<and> items n = filter (beyond ed (n_data t) \<circ> fst) (items c) \<and>
    freed free' + keys_of n = freed free + keys_of c"
proof -
  let ?keep = "beyond ed (n_data t)" and ?d = "\<not> ed"
  obtain tx tb tm ts tc where t: "t = parent_node (Frame ?d tx tb tm ts) tc"
    using assms(2) by (cases t; cases ed) (auto simp: path_simps)
  have tx: "n_data t = tx" by (cases ed) (simp_all add: t path_simps)
  have a: "avl t" "avl_path (height t) inner" using avl_plug_parts [of t inner] assms(1,4) by auto
  have srt: "sorted_items (items t)" using sorted_items_plug [of t inner] assms(1,3) by simp
  have "\<not> ?keep tx" "\<forall>y \<in> set (items ts). \<not> ?keep (fst y)" "\<forall>y \<in> set (items tc). ?keep (fst y)"
    using srt unfolding tx
    by (cases ed; force simp: t path_simps sorted_items_append sorted_items_Cons beyond_def)+
  from half_fix_start [OF a(1) t this] obtain r where
    r: "half_fix ed ?d t 0 0 free = Inr r" "slot_ok ?keep t (freed free) r" by blast
  have k: "n_data t \<in> fst ` set (items t)" using assms(2) by (cases t) auto
  have fk: "\<forall>f \<in> set inner. frame_keep ?keep ed f"
    by (rule plug_frame_keep [OF _ k]) (simp add: assms(1,3))
  have bs: "b = dir_sign ?d * (int (height (plug t inner)) - int (height s))" "avl s"
    using assms(5) unfolding assms(1) near_avl_parent_node by simp_all
  obtain n md dh free' where n: "slot_ok ?keep c (freed free) (n, md, dh, free')"
    "eraseHalf ed ?d t (inner @ [Frame ?d x b m s]) 0 0 free =
      Inr (parent_node (Frame ?d x (b + dh * dir_sign ?d) m s) n, md,
           - min (max (b * dir_sign ?d) 0) (- dh * dir_sign ?d * dir_sign ?d), free')"
    using eraseHalf_ok [OF r a(2) fk bs(2,1), of x m] unfolding assms(1) by blast
  have sl: "avl n" "int (height n) = int (height c) + dh" "dh \<le> 0" "total n = total c - md"
    "items n = filter (?keep \<circ> fst) (items c)" "freed free' + keys_of n = freed free + keys_of c"
    using n(1) unfolding slot_ok_def prod.case by blast+
  have alg: "(b - (b + dh * dir_sign ?d)) * dir_sign ?d = - dh * dir_sign ?d * dir_sign ?d" by simp
  show ?thesis
    using n(2) sl(4-6) half_parent(1,2) [OF sl(1) bs(2) sl(2,3), of b ?d x m] bs(1)
    unfolding assms(1) alg by blast
qed

lemma plug_snoc_cases:
  fixes t :: "('a, 'm::ab_group_add) is_tree"
  assumes "plug t p = Node l x b m r" and "p \<noteq> []"
  shows "p = butlast p @ [Frame (f_dir (last p)) x b m (if f_dir (last p) then l else r)] \<and>
    plug t (butlast p) = (if f_dir (last p) then r else l)"
proof -
  obtain q f where p: "p = q @ [f]" using assms(2) by (metis rev_exhaust)
  obtain d y c n s where f: "f = Frame d y c n s" by (cases f)
  show ?thesis using assms(1) by (cases d) (auto simp: p f plug_append path_simps)
qed

lemma left_half:
  fixes l r :: "('a::linorder, 'm::ab_group_add) is_tree" and x :: 'a and b :: int and m :: 'm
  defines "S \<equiv> Node l x b m r"
  assumes "avl S" and "sorted_items (items S)" and "plug t p = S" and "t \<noteq> Leaf"
    and "p = [] \<or> \<not> f_dir (last p)"
  shows "\<exists>l' b' md dh free. eraseHalf True False t p 0 0 [] = Inr (Node l' x b' m r, md, dh, free) \<and>
    near_avl (Node l' x b' m r) \<and> int (height (Node l' x b' m r)) = int (height S) + dh \<and>
    total l' = total l - md \<and> items l' = filter (\<lambda>y. fst y < n_data t) (items l) \<and>
    freed free + keys_of l' = keys_of l"
proof (cases "p = []")
  case True
  have "filter (\<lambda>y. fst y < x) (items l) = items l"
    using assms(3) by (auto simp: S_def filter_id_conv sorted_items_append)
  then show ?thesis using True assms(2,4)
    by (intro exI [of _ l] exI [of _ b] exI [of _ 0] exI [of _ "[]"]) (auto simp: S_def)
next
  case False
  let ?q = "butlast p"
  have p: "p = ?q @ [Frame (\<not> True) x b m r]" "plug t ?q = l"
    using plug_snoc_cases [OF assms(4) [unfolded S_def] False] False assms(6) by simp_all
  have "sorted_items (items l)" "avl l" "near_avl (parent_node (Frame (\<not> True) x b m r) l)"
    using assms(2,3) by (auto simp: S_def sorted_items_append path_simps)
  from eraseHalf_side [OF p(2) assms(5) this, of "[]"] show ?thesis
    unfolding p(1) [symmetric] by (simp add: path_simps beyond_def o_def S_def)
qed

lemma right_half:
  fixes l r l' :: "('a::linorder, 'm::ab_group_add) is_tree" and x :: 'a and b :: int and m :: 'm
  defines "S \<equiv> Node l x b m r" and "S' \<equiv> \<lambda>b r. Node l' x b m r"
  assumes "near_avl (S' b' r)" and "sorted_items (items S)" and "plug t p = S" and "t \<noteq> Leaf"
    and "p = [] \<or> f_dir (last p)"
  shows "\<exists>r' b'' md dh free'.
    eraseHalf False True (if p = [] then S' b' r else t) (rebase (S' b' r) p) 0 0 free =
      Inr (S' b'' r', md, dh, free') \<and>
    near_avl (S' b'' r') \<and> int (height (S' b'' r')) = int (height (S' b' r)) + dh \<and>
    total r' = total r - md \<and> items r' = filter (\<lambda>y. n_data t < fst y) (items r) \<and>
    freed free' + keys_of r' = freed free + keys_of r"
proof (cases "p = []")
  case True
  have "filter (\<lambda>y. x < fst y) (items r) = items r"
    using assms(4) by (auto simp: S_def filter_id_conv sorted_items_append sorted_items_Cons)
  then show ?thesis using True assms(3,5)
    by (intro exI [of _ r] exI [of _ b'] exI [of _ 0] exI [of _ free])
      (auto simp: S_def rebase_def)
next
  case False
  let ?q = "butlast p"
  have q: "plug t ?q = r"
    using plug_snoc_cases [OF assms(5) [unfolded S_def] False] False assms(7) by simp
  have rb: "rebase (S' b' r) p = ?q @ [Frame (\<not> False) x b' m l']"
    using False assms(7) by (simp add: rebase_def S'_def)
  have "sorted_items (items r)" "avl r" "near_avl (parent_node (Frame (\<not> False) x b' m l') r)"
    using assms(3,4) by (auto simp: S_def S'_def sorted_items_append sorted_items_Cons path_simps)
  from eraseHalf_side [OF q assms(6) this, of free] show ?thesis
    unfolding rb using False by (simp add: path_simps beyond_def o_def S'_def)
qed

subsection \<open>Correctness\<close>

lemma find_from_plug:
  fixes t :: "('a::linorder, 'm::ab_group_add) is_tree"
  assumes "sorted_items (items (plug t p))" and "k \<in> fst ` set (items t)"
  shows "find_from k (plug t p) q = find_from k t (p @ q)"
  using assms
proof (induction p arbitrary: t)
  case (Cons f p)
  obtain d x b m s where f: "f = Frame d x b m s" by (cases f)
  have srt: "sorted_items (items (parent_node f t))"
    using Cons.prems(1) sorted_items_plug [of "parent_node f t" p] by simp
  then have "if d then x < k else k < x"
    using Cons.prems(2) by (cases d) (force simp: f path_simps sorted_items_append sorted_items_Cons)+
  then have "find_from k (parent_node f t) (p @ q) = find_from k t (f # p @ q)"
    by (cases d) (auto simp: f path_simps Let_def)
  moreover have "k \<in> fst ` set (items (parent_node f t))"
    using Cons.prems(2) by (cases d) (auto simp: f path_simps)
  ultimately show ?case using Cons.IH [of "parent_node f t"] Cons.prems(1) by simp
qed simp

lemma at_find:
  assumes "sorted_items (items root)" and "at root i"
  shows "find_from (n_data (fst i)) root [] = Some i"
proof -
  obtain l x b m r path where i: "i = (Node l x b m r, path)"
    using assms(2) by (cases i; cases "fst i") (auto simp: at_def)
  have "plug (Node l x b m r) path = root" using assms(2) by (simp add: i at_Node)
  then show ?thesis
    using find_from_plug [of "Node l x b m r" path x "[]"] assms(1) by (simp add: i)
qed

lemma at_filter:
  assumes "sorted_items (items root)" and "at root i"
  shows "before i = filter (\<lambda>y. fst y < n_data (fst i)) (items root)"
    and "after i = filter (\<lambda>y. n_data (fst i) < fst y) (items root)"
proof -
  have "sorted_items (before i @ here i # after i)" using assms at_split by metis
  moreover have "fst (here i) = n_data (fst i)" by (simp add: here_def)
  ultimately have "\<forall>y \<in> set (before i). fst y < n_data (fst i)" "\<forall>y \<in> set (after i). n_data (fst i) < fst y"
    by (auto simp: sorted_items_append sorted_items_Cons)
  then have "filter (\<lambda>y. fst y < n_data (fst i)) (before i) = before i"
      "filter (\<lambda>y. fst y < n_data (fst i)) (after i) = []"
      "filter (\<lambda>y. n_data (fst i) < fst y) (before i) = []"
      "filter (\<lambda>y. n_data (fst i) < fst y) (after i) = after i"
    by (auto simp: filter_id_conv filter_empty_conv dest: order.asym)
  then show "before i = filter (\<lambda>y. fst y < n_data (fst i)) (items root)"
    "after i = filter (\<lambda>y. n_data (fst i) < fst y) (items root)"
    unfolding at_split [OF assms(2)] by (simp_all add: here_def)
qed

text \<open>The node before the end of the range exists and is not before its first node.\<close>

lemma range_last:
  assumes "is_ok root" and "at root first" and "iter_of root e" and "e \<noteq> Some first"
    and "\<forall>le. e = Some le \<longrightarrow> n_data (fst first) \<le> n_data (fst le)"
  obtains fin where "previous root e = Some fin" "at root fin" "after fin = from_iter e"
    "n_data (fst first) \<le> n_data (fst fin)"
proof -
  have s: "sorted_items (items root)" using assms(1) by (simp add: is_ok_def)
  have mem: "here first \<in> set (upto_iter root e)"
  proof (cases e)
    case None
    then show ?thesis using at_split [OF assms(2)] by (simp add: upto_iter_def)
  next
    case (Some le)
    then have le: "at root le" using assms(3) by (simp add: iter_of_def)
    have "n_data (fst first) \<noteq> n_data (fst le)"
      using at_find [OF s assms(2)] at_find [OF s le] assms(4) Some by auto
    then have "n_data (fst first) < n_data (fst le)" using assms(5) Some by auto
    moreover have "here first \<in> set (items root)" using at_split [OF assms(2)] by simp
    ultimately show ?thesis
      using Some by (simp add: upto_iter_def at_filter [OF s le] here_def)
  qed
  obtain fin where fin: "previous root e = Some fin" "at root fin" "after fin = from_iter e"
      "upto_iter root e = before fin @ [here fin]"
    using previous_ok [OF assms(3)] mem by (cases "previous root e") auto
  have "n_data (fst first) \<le> n_data (fst fin)"
    using mem unfolding fin(4) at_filter [OF s fin(2)] by (auto simp: here_def)
  then show thesis using that fin by blast
qed

text \<open>Where the two ends lie below their common root.\<close>

lemma key_side:
  fixes l r :: "('a::linorder, 'm::ab_group_add) is_tree"
  assumes "plug t p = Node l x b m r" and "sorted_items (items (Node l x b m r))" and "t \<noteq> Leaf"
  shows "if p = [] then n_data t = x
    else if f_dir (last p) then x < n_data t else n_data t < x"
proof (cases "p = []")
  case False
  have "fst ` set (items t) \<subseteq> fst ` set (items (plug t (butlast p)))" by (auto simp: items_plug)
  moreover have "n_data t \<in> fst ` set (items t)" using assms(3) by (cases t) auto
  ultimately have "n_data t \<in> fst ` set (items (plug t (butlast p)))" by blast
  then have "n_data t \<in> fst ` set (items (if f_dir (last p) then r else l))"
    using plug_snoc_cases [OF assms(1) False] by simp
  then show ?thesis using assms(2) False
    by (cases "f_dir (last p)") (auto simp: sorted_items_append sorted_items_Cons)
qed (use assms in auto)

text \<open>The computation of \<open>erase_range\<close> once the last node and the common root are known.\<close>

lemma erase_range_run:
  fixes root :: "('a::linorder, 'm::ab_group_add) is_tree"
  assumes root: "is_ok root" and S: "plug (Node l x b m r) path = root"
    and t: "plug t p1 = Node l x b m r" "t \<noteq> Leaf" "p1 = [] \<or> \<not> f_dir (last p1)"
    and u: "plug u p2 = Node l x b m r" "u \<noteq> Leaf" "p2 = [] \<or> f_dir (last p2)"
  shows "\<exists>s1 md1 hd1 free1 s2 md2 hd2 free2 root'.
    eraseHalf True False t p1 0 0 [] = Inr (s1, md1, hd1, free1) \<and>
    eraseHalf False True (if p2 = [] then s1 else u) (rebase s1 p2) 0 0 free1 = Inr (s2, md2, hd2, free2) \<and>
    range_retrace s2 path (0 + md1 + md2) (hd1 + hd2) = Inr root' \<and> avl root' \<and>
    items root' = litems m path @ filter (\<lambda>y. fst y < n_data t) (items l) @
      (x, m - total l - total r) # filter (\<lambda>y. n_data u < fst y) (items r) @ ritems m path \<and>
    freed free2 + keys_of root' = keys_of root"
proof -
  have srt: "sorted_items (items (Node l x b m r))"
    using root S sorted_items_plug unfolding is_ok_def by blast
  have a: "avl (Node l x b m r)" "avl_path (height (Node l x b m r)) path"
    using root S avl_plug_parts unfolding is_ok_def by blast+
  obtain l' b1 md1 hd1 free1 where L: "eraseHalf True False t p1 0 0 [] = Inr (Node l' x b1 m r, md1, hd1, free1)"
    "near_avl (Node l' x b1 m r)" "int (height (Node l' x b1 m r)) = int (height (Node l x b m r)) + hd1"
    "total l' = total l - md1" "items l' = filter (\<lambda>y. fst y < n_data t) (items l)"
    "freed free1 + keys_of l' = keys_of l"
    using left_half [OF a(1) srt t] by blast
  obtain r' b2 md2 hd2 free2 where R:
    "eraseHalf False True (if p2 = [] then Node l' x b1 m r else u) (rebase (Node l' x b1 m r) p2) 0 0 free1 =
      Inr (Node l' x b2 m r', md2, hd2, free2)"
    "near_avl (Node l' x b2 m r')" "int (height (Node l' x b2 m r')) = int (height (Node l' x b1 m r)) + hd2"
    "total r' = total r - md2" "items r' = filter (\<lambda>y. n_data u < fst y) (items r)"
    "freed free2 + keys_of r' = freed free1 + keys_of r"
    using right_half [OF L(2) srt u, of free1] by blast
  have "int (height (Node l' x b2 m r')) = int (height (Node l x b m r)) + (hd1 + hd2)"
    using L(3) R(3) by simp
  from range_retrace_ok [OF R(2) _ this a(2), of "0 + md1 + md2"] obtain root' where
    rr: "range_retrace (Node l' x b2 m r') path (0 + md1 + md2) (hd1 + hd2) = Inr root'" "avl root'"
      "items root' = litems m path @ items (Node l' x b2 (m - (md1 + md2)) r') @ ritems m path"
    by auto
  have items': "items root' = litems m path @ items l' @ (x, m - total l - total r) # items r' @ ritems m path"
    using rr(3) L(4) R(4) by (simp add: algebra_simps)
  have items0: "items root = litems m path @ items l @ (x, m - total l - total r) # items r @ ritems m path"
    using S [symmetric] by (simp add: items_plug)
  let ?rest = "mset (map fst (litems m path)) + {#x#} + mset (map fst (ritems m path))"
  have "freed free2 + keys_of root' = (freed free2 + keys_of r') + keys_of l' + ?rest"
    unfolding items' by (simp add: ac_simps)
  also have "\<dots> = (freed free1 + keys_of l') + keys_of r + ?rest"
    unfolding R(6) by (simp only: ac_simps)
  also have "\<dots> = keys_of root" unfolding L(6) items0 by (simp add: ac_simps)
  finally have "freed free2 + keys_of root' = keys_of root" .
  then show ?thesis using L(1,5) R(1,5) rr(1,2) items' by auto
qed

lemma plug_not_Leaf: "t \<noteq> Leaf \<Longrightarrow> plug t p \<noteq> Leaf"
proof (induction p arbitrary: t)
  case (Cons f p)
  then show ?case by (cases f) (simp add: path_simps)
qed simp

lemma range_bounds:
  fixes t :: "('a::linorder, 'm::ab_group_add) is_tree"
  assumes "plug (Node l x b m r) path = root" and "sorted_items (items root)"
    and "plug t p = Node l x b m r" and "t \<noteq> Leaf"
  shows "\<forall>y \<in> set (litems m path). fst y < n_data t" and "\<forall>y \<in> set (ritems m path). n_data t < fst y"
    and "\<forall>y \<in> set (items l). fst y < x" and "\<forall>y \<in> set (items r). x < fst y"
proof -
  have srt: "sorted_items (litems m path @ items (Node l x b m r) @ ritems m path)"
    using assms(2) unfolding assms(1) [symmetric] by (simp add: items_plug)
  have "fst ` set (items t) \<subseteq> fst ` set (items (plug t p))" by (auto simp: items_plug)
  moreover have "n_data t \<in> fst ` set (items t)" using assms(4) by (cases t) auto
  ultimately have "n_data t \<in> fst ` set (items (Node l x b m r))"
    unfolding assms(3) by (rule subsetD)
  then obtain z where z: "z \<in> set (items (Node l x b m r))" "fst z = n_data t" by (metis imageE)
  have "\<forall>y \<in> set (litems m path). \<forall>z \<in> set (items (Node l x b m r)). fst y < fst z"
    "\<forall>z \<in> set (items (Node l x b m r)). \<forall>y \<in> set (ritems m path). fst z < fst y"
    using srt unfolding sorted_items_append set_append by blast+
  then show "\<forall>y \<in> set (litems m path). fst y < n_data t" "\<forall>y \<in> set (ritems m path). n_data t < fst y"
    using z by metis+
  have "sorted_items (items (Node l x b m r))" using srt unfolding sorted_items_append by blast
  then show "\<forall>y \<in> set (items l). fst y < x" "\<forall>y \<in> set (items r). x < fst y"
    unfolding sorted_items_subtrees by blast+
qed

lemma filter_mset_neq:
  assumes "sorted_items (L @ y # R)"
  shows "mset (map fst (filter (\<lambda>z. fst z \<noteq> fst y) (L @ y # R))) + {#fst y#} = mset (map fst (L @ y # R))"
  unfolding filter_neq_split [OF assms] by simp

lemma erase_range_ok:
  fixes root :: "('a::linorder, 'm::ab_group_add) is_tree"
  assumes ok: "is_ok root" and first: "at root first" and e: "iter_of root e" "e \<noteq> Some first"
    "\<forall>le. e = Some le \<longrightarrow> n_data (fst first) \<le> n_data (fst le)"
  shows "\<exists>t' free k. erase_range root (Some first) e = Inr (t', free) \<and> is_ok t' \<and>
    items t' = before first @ from_iter e \<and> freed free + {#k#} + keys_of t' = keys_of root"
proof -
  have srt: "sorted_items (items root)" using ok by (simp add: is_ok_def)
  obtain fin where fin: "previous root e = Some fin" "at root fin" "after fin = from_iter e"
    "n_data (fst first) \<le> n_data (fst fin)" using range_last [OF ok first e] .
  obtain t p u q where tu: "first = (t, p)" "fin = (u, q)" by (metis surj_pair)
  have at: "plug t p = root" "t \<noteq> Leaf" "plug u q = root" "u \<noteq> Leaf"
    using first fin(2) by (simp_all add: tu at_def)
  obtain p1 p2 path where pq: "p = p1 @ path" "q = p2 @ path" "plug t p1 = plug u p2"
    "ISCommonSubtreeRoot (t, p) (u, q) = Some (plug t p1, path)"
    "p1 = [] \<or> p2 = [] \<or> f_dir (last p1) \<noteq> f_dir (last p2)"
    using ISCommonSubtreeRoot_ok [of t p u q] at(1,3) by metis
  obtain l x b m r where S: "plug t p1 = Node l x b m r"
    using plug_not_Leaf [OF at(2), of p1] by (cases "plug t p1") auto
  have S': "plug u p2 = Node l x b m r" "plug (Node l x b m r) path = root"
    using S pq at by (simp_all add: plug_append)
  have srtS: "sorted_items (items (Node l x b m r))"
    using srt S'(2) sorted_items_plug by blast
  have le: "n_data t \<le> n_data u" using fin(4) by (simp add: tu)
  note side = key_side [OF S srtS at(2)] key_side [OF S'(1) srtS at(4)]
  have dirs: "p1 = [] \<or> \<not> f_dir (last p1)" "p2 = [] \<or> f_dir (last p2)" "n_data t \<le> x" "x \<le> n_data u"
    using side pq(5) le by (auto split: if_splits)
  obtain s1 md1 hd1 free1 s2 md2 hd2 free2 root' where
    run: "eraseHalf True False t p1 0 0 [] = Inr (s1, md1, hd1, free1)"
      "eraseHalf False True (if p2 = [] then s1 else u) (rebase s1 p2) 0 0 free1 = Inr (s2, md2, hd2, free2)"
      "range_retrace s2 path (0 + md1 + md2) (hd1 + hd2) = Inr root'" "avl root'"
      "items root' = litems m path @ filter (\<lambda>y. fst y < n_data t) (items l) @
        (x, m - total l - total r) # filter (\<lambda>y. n_data u < fst y) (items r) @ ritems m path"
      "freed free2 + keys_of root' = keys_of root"
    using erase_range_run [OF ok S'(2) S at(2) dirs(1) S'(1) at(4) dirs(2)] by blast
  have items0: "items root = litems m path @ items l @ (x, m - total l - total r) # items r @ ritems m path"
    using S'(2) [symmetric] by (simp add: items_plug)
  have bounds: "\<forall>y \<in> set (litems m path). fst y < n_data t" "\<forall>y \<in> set (ritems m path). n_data u < fst y"
    "\<forall>y \<in> set (items l). fst y < x" "\<forall>y \<in> set (items r). x < fst y"
    using range_bounds [OF S'(2) srt S at(2)] range_bounds [OF S'(2) srt S'(1) at(4)] by blast+
  have "filter (\<lambda>y. fst y < n_data t) (litems m path) = litems m path"
    "filter (\<lambda>y. fst y < n_data t) (items r) = []" "filter (\<lambda>y. fst y < n_data t) (ritems m path) = []"
    using bounds dirs(3) le by (fastforce simp: filter_id_conv filter_empty_conv)+
  then have bf: "before first = litems m path @ filter (\<lambda>y. fst y < n_data t) (items l)"
    using at_filter(1) [OF srt first] dirs(3) by (simp add: items0 tu)
  have "filter (\<lambda>y. n_data u < fst y) (ritems m path) = ritems m path"
    "filter (\<lambda>y. n_data u < fst y) (items l) = []" "filter (\<lambda>y. n_data u < fst y) (litems m path) = []"
    using bounds dirs(4) le by (fastforce simp: filter_id_conv filter_empty_conv)+
  then have af: "after fin = filter (\<lambda>y. n_data u < fst y) (items r) @ ritems m path"
    using at_filter(2) [OF srt fin(2)] dirs(4) by (simp add: items0 tu)
  have items': "items root' = before first @ (x, m - total l - total r) # after fin"
    unfolding bf af using run(5) by simp
  have "sorted_items (before first)" "sorted_items (after fin)"
    unfolding at_filter [OF srt first] at_filter [OF srt fin(2)] by (rule sorted_items_filter [OF srt])+
  moreover have "\<forall>y \<in> set (before first). fst y < x" "\<forall>y \<in> set (after fin). x < fst y"
    using at_filter [OF srt first] at_filter [OF srt fin(2)] dirs(3,4) by (auto simp: tu)
  ultimately have srt': "sorted_items (before first @ (x, m - total l - total r) # after fin)"
    by (auto simp: sorted_items_append sorted_items_Cons dest: less_trans)
  then have "is_ok root'" using run(4) items' by (simp add: is_ok_def)
  then obtain t' where t': "erase_key root' x = Inr t'" "is_ok t'" "items t' = filter (\<lambda>y. fst y \<noteq> x) (items root')"
    using erase_key_ok by blast
  have "items t' = before first @ after fin" "keys_of t' + {#x#} = keys_of root'"
    unfolding t'(3) items' using filter_neq_split [OF srt'] by simp_all
  moreover from this have "freed free2 + {#x#} + keys_of t' = keys_of root"
    using run(6) by (metis add.assoc add.commute)
  moreover have "erase_range root (Some first) e = Inr (t', free2)"
  proof -
    have "ISCommonSubtreeRoot first fin = Some (Node l x b m r, path)"
      using pq(4) S by (simp add: tu)
    moreover have "take (length (snd first) - length path) (snd first) = p1"
      "take (length (snd fin) - length path) (snd fin) = p2" "fst first = t" "fst fin = u"
      by (simp_all add: tu pq)
    moreover have "e = Some le \<Longrightarrow> n_data t \<le> n_data (fst le)" for le
      using e(3) by (auto simp: tu)
    ultimately show ?thesis
      using e(2) fin(1) run(2,3) unfolding erase_range_def
      by (cases e; cases "p2 = []") (simp_all add: run(1) t'(1) Let_def del: take_eq_Nil)
  qed
  ultimately show ?thesis using t'(2) fin(3) by auto
qed

lemma filter_outside:
  assumes "sorted_items xs" and "b \<le> e"
  shows "filter (\<lambda>y. \<not> (b \<le> fst y \<and> fst y < e)) xs =
    filter (\<lambda>y. fst y < b) xs @ filter (\<lambda>y. e \<le> fst y) xs"
  using assms(1)
proof (induction xs)
  case (Cons z zs)
  show ?case
  proof (cases "e \<le> fst z")
    case True
    then have "filter (\<lambda>y. fst y < b) zs = []"
      using Cons.prems assms(2) by (fastforce simp: filter_empty_conv sorted_items_Cons)
    then show ?thesis using Cons True assms(2) by (auto simp: sorted_items_Cons)
  next
    case False
    then show ?thesis using Cons by (auto simp: sorted_items_Cons)
  qed
qed simp

text \<open>
  Property C21: erasing the range of keys \<open>[b, e)\<close> of a well-formed set, with \<open>b <= e\<close>, never fails an
  assertion or follows a null pointer, keeps the AVL and ordering invariants, and leaves exactly the
  items outside the range with their metrics. Every key of the set is afterwards in the set, in a
  subtree handed over for freeing, or is the single common root that is freed at once.
\<close>

theorem erase_range_refines:
  fixes root :: "('a::linorder, 'm::ab_group_add) is_tree"
  assumes "is_ok root" and "b \<le> e"
  shows "\<exists>t' free. erase_range_keys root b e = Inr (t', free) \<and> is_ok t' \<and>
    items t' = filter (\<lambda>y. \<not> (b \<le> fst y \<and> fst y < e)) (items root) \<and>
    (\<exists>once. size once \<le> 1 \<and> freed free + once + keys_of t' = keys_of root)"
proof -
  have srt: "sorted_items (items root)" using assms(1) by (simp add: is_ok_def)
  let ?b = "lower_bound root b" and ?e = "lower_bound root e"
  note B = lower_bound_ok [OF srt, of b] and E = lower_bound_ok [OF srt, of e]
  have split: "filter (\<lambda>y. \<not> (b \<le> fst y \<and> fst y < e)) (items root) = upto_iter root ?b @ from_iter ?e"
    unfolding B(2) E(3) by (rule filter_outside [OF srt assms(2)])
  show ?thesis
  proof (cases "?b = ?e")
    case True
    have "erase_range_keys root b e = Inr (root, [])"
      using True by (simp add: erase_range_keys_def erase_range_def split: option.split)
    moreover have "upto_iter root ?b @ from_iter ?e = items root"
      using iter_split [OF E(1)] True by simp
    ultimately show ?thesis using assms(1) split
      by (intro exI [of _ root] exI [of _ "[]"] exI [of _ "{#}"] conjI) simp_all
  next
    case False
    have "?b \<noteq> None"
    proof
      assume none: "?b = None"
      then have "filter (\<lambda>y. b \<le> fst y) (items root) = []" using B(3) by (simp add: from_iter_def)
      then have "filter (\<lambda>y. e \<le> fst y) (items root) = []"
        using assms(2) by (meson filter_empty_conv order_trans)
      then show False using E(3) False none by (cases ?e) (auto simp: from_iter_def)
    qed
    then obtain first where first: "?b = Some first" by blast
    have "at root first" using B(1) first by (simp add: iter_of_def)
    moreover have "n_data (fst first) \<le> n_data (fst le)" if "?e = Some le" for le
    proof -
      have "here le \<in> set (filter (\<lambda>y. e \<le> fst y) (items root))"
        unfolding E(3) [symmetric] that by (simp add: from_iter_def)
      then have "here le \<in> set (from_iter ?b)" unfolding B(3) using assms(2) by auto
      moreover have "sorted_items (here first # after first)"
        using sorted_items_filter [OF srt, of "\<lambda>y. b \<le> fst y"] B(3) first by (simp add: from_iter_def)
      ultimately show ?thesis by (auto simp: first from_iter_def sorted_items_Cons here_def)
    qed
    ultimately obtain t' free k where "erase_range root (Some first) ?e = Inr (t', free)" "is_ok t'"
      "items t' = before first @ from_iter ?e" "freed free + {#k#} + keys_of t' = keys_of root"
      using erase_range_ok [OF assms(1) _ E(1)] False first by metis
    moreover have "before first = upto_iter root ?b" by (simp add: upto_iter_def first)
    ultimately show ?thesis
      using split first unfolding erase_range_keys_def
      by (intro exI [of _ t'] exI [of _ free] exI [of _ "{#k#}"] conjI) simp_all
  qed
qed

theorem erase_range_refines_witness:
  "is_ok three_nodes \<and> (10::int) \<le> 25 \<and>
   (\<exists>t' free. erase_range_keys three_nodes 10 25 = Inr (t', free) \<and> items t' = [(30, 4)])"
  using erase_range_refines [OF three_nodes_ok, of 10 25] three_nodes_ok
  by (auto simp: three_nodes_def)

end
