(* ===== verification/Flow_Words.thy ===== *)
theory Flow_Words
  imports Flow_Prelude
begin

text \<open>
  Further facts on machine words that the encoders and decoders share: single bits, disjoint
  disjunctions and complements, all reduced to arithmetic on natural numbers.
\<close>

lemma push_bit_or_nat:
  fixes a b :: nat
  assumes "b < 2 ^ n"
  shows "push_bit n a OR b = a * 2 ^ n + b"
proof -
  have "take_bit n b = b" using assms by (rule take_bit_nat_eq_self)
  then have "\<not> bit (push_bit n a) m \<or> \<not> bit b m" for m
    by (metis bit_push_bit_iff bit_take_bit_iff not_le)
  then have "push_bit n a + b = push_bit n a OR b" by (rule disjunctive_add)
  then show ?thesis by (simp add: push_bit_eq_mult)
qed

lemma unat_not_u8: "unat (NOT (x :: u8)) = 255 - unat x"
proof -
  have "NOT x = - 1 - x" by (simp add: not_eq_complement)
  moreover have "unat (- 1 - x :: u8) = unat (- 1 :: u8) - unat x"
    by (rule unat_sub) simp
  moreover have "unat (- 1 :: u8) = 255" by (simp add: unsigned_minus_1_eq_mask mask_eq_exp_minus_1)
  ultimately show ?thesis by simp
qed

subsection \<open>Single bits of a byte\<close>

lemma unat_exp_u8:
  assumes "i < 8"
  shows "unat ((2 :: u8) ^ i) = 2 ^ i"
proof -
  from assms have "(2 :: nat) ^ i < 2 ^ 8" by (intro power_strict_increasing) simp_all
  moreover have "(2 :: u8) ^ i = word_of_nat (2 ^ i)" by simp
  ultimately show ?thesis using assms by (simp add: unsigned_of_nat take_bit_nat_eq_self del: of_nat_power)
qed

lemma exp_u8_nz: "i < 8 \<Longrightarrow> (2 :: u8) ^ i \<noteq> 0"
  using unat_exp_u8 [of i] by (metis power_not_zero unat_0 zero_neq_numeral)

lemma drop_exp_u8: "Suc i < 8 \<Longrightarrow> drop_bit 1 ((2 :: u8) ^ Suc i) = 2 ^ i"
proof -
  assume "Suc i < 8"
  then have "unat (drop_bit 1 ((2 :: u8) ^ Suc i)) = unat ((2 :: u8) ^ i)"
    unfolding unat_drop_bit_eq by (simp only: unat_exp_u8 drop_bit_eq_div) (simp add: unat_exp_u8)
  then show ?thesis by (simp only: word_unat_eq_iff)
qed

lemma bit_u8_top:
  fixes b :: u8
  assumes "i < 8"
  shows "b AND 2 ^ i = 0 \<longleftrightarrow> unat b mod 2 ^ Suc i < 2 ^ i"
proof -
  have "b AND 2 ^ i = 0 \<longleftrightarrow> unat (b AND 2 ^ i) = 0" by (simp add: unat_eq_zero)
  also have "unat (b AND 2 ^ i) = unat b AND 2 ^ i" using assms by (simp add: unsigned_and_eq unat_exp_u8)
  also have "unat b AND 2 ^ i = 0 \<longleftrightarrow> \<not> bit (unat b) i" by (simp add: and_exp_eq_0_iff_not_bit)
  also have "\<dots> \<longleftrightarrow> unat b mod 2 ^ Suc i < 2 ^ i"
  proof -
    have "unat b mod 2 ^ Suc i = unat b mod 2 ^ i + (if bit (unat b) i then 2 ^ i else 0)"
      using take_bit_Suc_from_most [of i "unat b"] by (simp add: take_bit_eq_mod)
    moreover have "unat b mod 2 ^ i < 2 ^ i" by simp
    ultimately show ?thesis by auto
  qed
  finally show ?thesis .
qed

lemma or_u8_top:
  fixes b :: u8
  assumes "i < 8" and "unat b mod 2 ^ Suc i < 2 ^ i"
  shows "unat (b OR 2 ^ i) = unat b + 2 ^ i"
proof -
  have "unat (b AND 2 ^ i) = 0" using assms bit_u8_top by (simp add: unat_eq_zero)
  then have "unat b AND 2 ^ i = 0" using assms(1) by (simp add: unsigned_and_eq unat_exp_u8)
  then have "unat b + 2 ^ i = unat b OR 2 ^ i" by (rule disjunctive_add_eq_or)
  then show ?thesis using assms(1) by (simp add: unsigned_or_eq unat_exp_u8)
qed

lemma and_not_u8_top:
  fixes b :: u8
  assumes "i < 8" and "unat b < 2 ^ Suc i" and "2 ^ i \<le> unat b"
  shows "unat (b AND NOT (2 ^ i)) = unat b - 2 ^ i"
proof -
  have "\<not> unat b mod 2 ^ Suc i < 2 ^ i" using assms by simp
  then have "b AND 2 ^ i \<noteq> 0" using bit_u8_top [OF assms(1)] by blast
  then have "bit b i" by (simp add: and_exp_eq_0_iff_not_bit)
  then have "b - 2 ^ i = b AND NOT (2 ^ i)"
    by (intro disjunctive_diff) (auto simp: bit_exp_iff)
  moreover have "unat (b - 2 ^ i) = unat b - unat ((2 :: u8) ^ i)"
    using assms(1,3) by (intro unat_sub) (simp add: word_le_nat_alt unat_exp_u8)
  ultimately show ?thesis using assms(1) by (simp add: unat_exp_u8)
qed

subsection \<open>Signed 64-bit integers\<close>

lemma sint_u64: "sint (v :: u64) = (if unat v < 2 ^ 63 then int (unat v) else int (unat v) - 2 ^ 64)"
proof -
  have lt: "uint v < 2 ^ 64" "0 \<le> uint v" using unsigned_less [where 'b = 64, of v] by simp_all
  have "sint v = take_bit (Suc 63) (uint v) - 2 ^ Suc 63 * of_bool (bit (uint v) 63)"
    by (simp add: sint_uint signed_take_bit_eq_take_bit_minus)
  moreover have "take_bit (Suc 63) (uint v) = uint v" using lt by (simp add: take_bit_int_eq_self)
  moreover have "bit (uint v) 63 \<longleftrightarrow> 2 ^ 63 \<le> uint v"
  proof (cases "2 ^ 63 \<le> uint v")
    case True
    then have "uint v div 2 ^ 63 = 1" using lt by (simp add: div_pos_geq div_pos_pos_trivial)
    then show ?thesis using True by (simp add: bit_iff_odd)
  next
    case False
    then show ?thesis using lt by (simp add: bit_iff_odd div_pos_pos_trivial)
  qed
  moreover have "2 ^ 63 \<le> uint v \<longleftrightarrow> \<not> unat v < 2 ^ 63"
    using of_nat_le_iff [of "2 ^ 63" "unat v", where 'a = int] by (simp add: not_less)
  ultimately show ?thesis by simp
qed

lemma sint_u32: "sint (v :: u32) = (if unat v < 2 ^ 31 then int (unat v) else int (unat v) - 2 ^ 32)"
proof -
  have lt: "uint v < 2 ^ 32" "0 \<le> uint v" using unsigned_less [where 'b = 32, of v] by simp_all
  have "sint v = take_bit (Suc 31) (uint v) - 2 ^ Suc 31 * of_bool (bit (uint v) 31)"
    by (simp add: sint_uint signed_take_bit_eq_take_bit_minus)
  moreover have "take_bit (Suc 31) (uint v) = uint v" using lt by (simp add: take_bit_int_eq_self)
  moreover have "bit (uint v) 31 \<longleftrightarrow> 2 ^ 31 \<le> uint v"
  proof (cases "2 ^ 31 \<le> uint v")
    case True
    then have "uint v div 2 ^ 31 = 1" using lt by (simp add: div_pos_geq div_pos_pos_trivial)
    then show ?thesis using True by (simp add: bit_iff_odd)
  next
    case False
    then show ?thesis using lt by (simp add: bit_iff_odd div_pos_pos_trivial)
  qed
  moreover have "2 ^ 31 \<le> uint v \<longleftrightarrow> \<not> unat v < 2 ^ 31"
    using of_nat_le_iff [of "2 ^ 31" "unat v", where 'a = int] by (simp add: not_less)
  ultimately show ?thesis by simp
qed

lemma unat_not_u64: "unat (NOT (v :: u64)) = 2 ^ 64 - 1 - unat v"
proof -
  have "NOT v = - 1 - v" by (simp add: not_eq_complement)
  moreover have "unat (- 1 - v :: u64) = unat (- 1 :: u64) - unat v" by (rule unat_sub) simp
  moreover have "unat (- 1 :: u64) = 2 ^ 64 - 1" by (simp add: unsigned_minus_1_eq_mask mask_eq_exp_minus_1)
  ultimately show ?thesis by simp
qed

lemma sint_not_u64: "sint (NOT (v :: u64)) = - sint v - 1"
proof -
  have "unat v < 2 ^ 64" using unsigned_less [where 'b = 64, of v] by simp
  then show ?thesis unfolding sint_u64 unat_not_u64 by auto
qed

end
