(* ===== verification/Compressed_Int.thy ===== *)
theory Compressed_Int
  imports Flow_Words
begin

text \<open>
  \<open>CompressedInt<int64_t>\<close> (\<open>src/flow/CompressedInt.h\<close>): the variable length integer format with
  a sign bit, a unary length and the value bits. The two branches of \<open>serialize\<close> are modelled on
  the byte string of the archive; a read past the end is the reader's failed assertion. Shown:
  every value is decoded to itself, and the encodings are ordered like the values.
\<close>

subsection \<open>Encoding\<close>

text \<open>The bytes written from the right while \<open>v\<close> is not zero.\<close>

function value_bytes :: "u64 \<Rightarrow> bytes \<Rightarrow> bytes" where
  "value_bytes v buf = (if v = 0 then buf else value_bytes (drop_bit 8 v) (ucast v # buf))"
  by pat_completeness auto
termination
  by (relation "measure (\<lambda>(v, buf). unat v)") (simp_all add: unat_drop_bit_less)

function leading_zeros :: "u8 \<Rightarrow> nat \<Rightarrow> nat" where
  "leading_zeros b bitlen =
     (if b AND 0x80 \<noteq> 0 \<or> bitlen = 0 then bitlen else leading_zeros (push_bit 1 b) (bitlen - 1))"
  by pat_completeness auto
termination by (relation "measure snd") auto

fun set_header :: "nat \<Rightarrow> u8 \<Rightarrow> bytes \<Rightarrow> bytes" where
  "set_header 0 b buf = buf"
| "set_header (Suc hb) b [] = []"
| "set_header (Suc hb) b (x # xs) =
     (if b = 0
      then x # (case xs of [] \<Rightarrow> [] | y # ys \<Rightarrow> set_header hb 0x40 ((y OR 0x80) # ys))
      else set_header hb (drop_bit 1 b) ((x OR b) # xs))"

definition encode_len :: "bytes \<Rightarrow> nat" where
  "encode_len buf =
     (let bitlen = length buf * 8
      in (if bitlen \<noteq> 0 then leading_zeros (hd buf) bitlen else bitlen) div 7 + 1)"

definition compressed_encode :: "u64 \<Rightarrow> bytes" where
  "compressed_encode value =
     (let neg = sint value < 0;
          v = (if neg then NOT value else value);
          buf = value_bytes v [];
          encodedLen = encode_len buf;
          buf1 = replicate (encodedLen - length buf) 0 @ buf;
          buf2 = set_header encodedLen 0x80 buf1
      in if neg then map (\<lambda>b. NOT b) buf2 else buf2)"

subsection \<open>Decoding\<close>

definition flip_neg :: "bool \<Rightarrow> u8 \<Rightarrow> u8" where
  "flip_neg positive b = (if positive then b else NOT b)"

function scan_unary :: "bool \<Rightarrow> u8 \<Rightarrow> u8 \<Rightarrow> int \<Rightarrow> bytes \<Rightarrow> (u8 \<times> int \<times> bytes) result" where
  "scan_unary positive b hb bytesToRead ar =
     (if hb = 0
      then case ar of
             [] \<Rightarrow> Inl Assert_failed
           | x # xs \<Rightarrow> scan_unary positive (flip_neg positive x) 0x80 (bytesToRead - 1) xs
      else if b AND hb = 0 then Inr (b, bytesToRead, ar)
      else scan_unary positive (b AND NOT hb) (drop_bit 1 hb) (bytesToRead + 1) ar)"
  by pat_completeness auto
termination
  by (relation "measures [\<lambda>(p, b, hb, n, ar). length ar, \<lambda>(p, b, hb, n, ar). unat hb]")
    (simp_all add: unat_drop_bit_less)

fun read_value :: "bool \<Rightarrow> u64 \<Rightarrow> int \<Rightarrow> bytes \<Rightarrow> (u64 \<times> bytes) result" where
  "read_value positive value bytesToRead ar =
     (if bytesToRead = 0 then Inr (value, ar)
      else case ar of
             [] \<Rightarrow> Inl Assert_failed
           | x # xs \<Rightarrow>
               read_value positive (push_bit 8 value OR ucast (flip_neg positive x)) (bytesToRead - 1) xs)"

definition compressed_decode :: "bytes \<Rightarrow> (u64 \<times> bytes) result" where
  "compressed_decode ar =
     (case ar of
        [] \<Rightarrow> Inl Assert_failed
      | b0 # ar1 \<Rightarrow>
          let positive = b0 AND 0x80 \<noteq> 0;
              b = flip_neg positive b0 AND 0x7f
          in bind_result (scan_unary positive b 0x40 0 ar1) (\<lambda>(b, bytesToRead, ar2).
             bind_result (read_value positive (ucast b) bytesToRead ar2) (\<lambda>(value, ar3).
             Inr (if positive then value else NOT value, ar3))))"

declare value_bytes.simps [simp del] leading_zeros.simps [simp del] scan_unary.simps [simp del]
  read_value.simps [simp del]

subsection \<open>Byte strings as numbers\<close>

fun be_val :: "bytes \<Rightarrow> nat" where
  "be_val [] = 0"
| "be_val (x # xs) = unat x * 256 ^ length xs + be_val xs"

lemma be_val_less: "be_val xs < 256 ^ length xs"
proof (induction xs)
  case (Cons x xs)
  have "unat x * 256 ^ length xs + be_val xs < (unat x + 1) * 256 ^ length xs" using Cons by simp
  also have "\<dots> \<le> 256 * 256 ^ length xs"
    using unat_u8_less [of x] by (intro mult_right_mono) (simp_all only: Suc_eq_plus1 [symmetric] Suc_le_eq)
  finally show ?case by simp
qed simp

lemma be_val_append: "be_val (xs @ ys) = be_val xs * 256 ^ length ys + be_val ys"
  by (induction xs) (simp_all add: algebra_simps power_add)

lemma be_val_zeros [simp]: "be_val (replicate n 0 @ xs) = be_val xs"
  by (induction n) simp_all

lemma be_val_not: "be_val (map (\<lambda>b. NOT b) xs) = 256 ^ length xs - 1 - be_val xs"
proof (induction xs)
  case (Cons x xs)
  have "be_val xs < 256 ^ length xs" by (rule be_val_less)
  moreover have "unat x \<le> 255" by (rule unat_u8_le)
  moreover have "(255 - unat x) * 256 ^ length xs = 255 * 256 ^ length xs - unat x * 256 ^ length xs"
    by (simp add: diff_mult_distrib)
  moreover have "unat x * 256 ^ length xs \<le> 255 * 256 ^ length xs"
    using calculation(2) by (intro mult_right_mono) simp_all
  ultimately show ?case using Cons by (simp add: unat_not_u8)
qed simp

subsection \<open>The unary length\<close>

lemma scan_ones:
  assumes "unat b = (2 ^ j - 1) * 2 ^ (Suc i - j) + c" and "c < 2 ^ (i - j)" and "j \<le> i" and "i < 8"
  shows "scan_unary p b (2 ^ i) n ar = Inr (word_of_nat c, n + int j, ar)"
  using assms
proof (induction j arbitrary: b i n)
  case 0
  then have c: "unat b = c" and lt: "c < 2 ^ i" by simp_all
  have "b AND 2 ^ i = 0" using c lt "0.prems"(4) by (simp add: bit_u8_top)
  moreover have "b = word_of_nat c" by (simp flip: c)
  ultimately show ?case using exp_u8_nz [OF "0.prems"(4)] by (subst scan_unary.simps) simp
next
  case (Suc j)
  then obtain k where i: "i = Suc k" by (cases i) auto
  have e: "Suc i - Suc j = Suc k - j" "i - Suc j = k - j" using i by simp_all
  have kj: "j \<le> k" "k < 8" using Suc.prems(3,4) i by simp_all
  have pw: "(2 :: nat) ^ j * 2 ^ (Suc k - j) = 2 ^ i" using kj by (simp add: i flip: power_add)
  have le: "(2 :: nat) ^ (Suc k - j) \<le> 2 ^ i" using i by (intro power_increasing) simp_all
  have b: "unat b = 2 ^ i + ((2 ^ j - 1) * 2 ^ (Suc k - j) + c)"
  proof -
    have "(2 :: nat) ^ Suc j * 2 ^ (Suc k - j) = 2 * 2 ^ i" using pw by (simp add: mult.assoc)
    then have "((2 :: nat) ^ Suc j - 1) * 2 ^ (Suc k - j) = 2 ^ i + (2 ^ j - 1) * 2 ^ (Suc k - j)"
      unfolding diff_mult_distrib pw using le by simp
    then show ?thesis using Suc.prems(1) unfolding e by simp
  qed
  have rest: "(2 ^ j - 1) * 2 ^ (Suc k - j) + c < 2 ^ i"
  proof -
    have "c < 2 ^ (Suc k - j)" using Suc.prems(2) unfolding e
      by (meson diff_le_mono le_SucI le_refl less_le_trans one_le_numeral power_increasing)
    then have "(2 ^ j - 1) * 2 ^ (Suc k - j) + c < 2 ^ j * 2 ^ (Suc k - j)"
      unfolding diff_mult_distrib pw using le by linarith
    then show ?thesis using pw by simp
  qed
  have "\<not> unat b mod 2 ^ Suc i < 2 ^ i" using b rest by (simp add: mod_less)
  then have nz: "b AND 2 ^ i \<noteq> 0" using bit_u8_top [OF Suc.prems(4)] by blast
  have "unat (b AND NOT (2 ^ i)) = (2 ^ j - 1) * 2 ^ (Suc k - j) + c"
    using and_not_u8_top [OF Suc.prems(4), of b] b rest by simp
  then have "scan_unary p (b AND NOT (2 ^ i)) (2 ^ k) (n + 1) ar = Inr (word_of_nat c, n + 1 + int j, ar)"
    using Suc.IH [of "b AND NOT (2 ^ i)" k "n + 1"] Suc.prems(2) kj unfolding e by simp
  moreover have "drop_bit 1 ((2 :: u8) ^ i) = 2 ^ k"
    using drop_exp_u8 [of k] Suc.prems(4) unfolding i by blast
  ultimately show ?case
    using nz exp_u8_nz [OF Suc.prems(4)] by (subst scan_unary.simps) simp
qed

lemma scan_all_ones:
  assumes "unat b = 2 ^ Suc i - 1" and "i < 8"
  shows "scan_unary p b (2 ^ i) n ar = scan_unary p 0 0 (n + int (Suc i)) ar"
  using assms
proof (induction i arbitrary: b n)
  case 0
  have b: "b = 1" using "0.prems"(1) by (simp add: word_unat_eq_iff)
  show ?case unfolding b by (subst scan_unary.simps) simp
next
  case (Suc i)
  have b: "unat b = 2 ^ Suc i + (2 ^ Suc i - 1)" using Suc.prems(1) by simp
  have "\<not> unat b mod 2 ^ Suc (Suc i) < 2 ^ Suc i" using b by (simp add: mod_less)
  then have nz: "b AND 2 ^ Suc i \<noteq> 0" using bit_u8_top [OF Suc.prems(2)] by blast
  have "unat (b AND NOT (2 ^ Suc i)) = 2 ^ Suc i - 1"
    using and_not_u8_top [OF Suc.prems(2), of b] b by simp
  then have "scan_unary p (b AND NOT (2 ^ Suc i)) (2 ^ i) (n + 1) ar = scan_unary p 0 0 (n + 1 + int (Suc i)) ar"
    using Suc.IH Suc.prems(2) by simp
  then show ?case
    using nz exp_u8_nz [OF Suc.prems(2)] drop_exp_u8 [OF Suc.prems(2)]
    by (subst scan_unary.simps) (simp add: algebra_simps)
qed

subsection \<open>Reading the value bytes\<close>

lemma unat_shift_in:
  fixes v :: u64 and b :: u8
  assumes "unat v * 256 + unat b < 2 ^ 64"
  shows "unat (push_bit 8 v OR ucast b) = unat v * 256 + unat b"
proof -
  have v: "unat (push_bit 8 v) = push_bit 8 (unat v)"
    using assms unfolding unsigned_push_bit_eq
    by (intro take_bit_nat_eq_self) (simp add: push_bit_eq_mult)
  have b: "unat (ucast b :: u64) = unat b"
    unfolding unsigned_ucast_eq by (intro take_bit_nat_eq_self less_trans [OF unat_u8_less]) simp
  have "push_bit 8 (unat v) OR unat b = unat v * 2 ^ 8 + unat b"
    by (rule push_bit_or_nat) (use unat_u8_less [of b] in simp)
  then show ?thesis by (simp add: unsigned_or_eq v b)
qed

lemma read_value_ok:
  assumes "unat v * 256 ^ length cs + be_val cs < 2 ^ 64"
  shows "read_value p v (int (length cs)) (map (flip_neg p) cs @ rest) =
    Inr (word_of_nat (unat v * 256 ^ length cs + be_val cs), rest)"
  using assms
proof (induction cs arbitrary: v)
  case Nil
  then show ?case by (subst read_value.simps) simp
next
  case (Cons c cs)
  have dbl: "flip_neg p (flip_neg p c) = c" by (simp add: flip_neg_def)
  have bnd: "(unat v * 256 + unat c) * 256 ^ length cs + be_val cs < 2 ^ 64"
    using Cons.prems by (simp add: algebra_simps)
  have "unat v * 256 + unat c \<le> (unat v * 256 + unat c) * 256 ^ length cs" by simp
  also have "\<dots> \<le> (unat v * 256 + unat c) * 256 ^ length cs + be_val cs" by simp
  finally have "unat v * 256 + unat c < 2 ^ 64" using bnd by (rule le_less_trans)
  then have "unat (push_bit 8 v OR ucast c) = unat v * 256 + unat c" by (rule unat_shift_in)
  then show ?case
    using Cons.IH [of "push_bit 8 v OR ucast c"] dbl bnd
    by (subst read_value.simps) (simp add: algebra_simps)
qed

subsection \<open>Decoding an encoded number\<close>

lemma power_256: "(256 :: nat) ^ n = 2 ^ (8 * n)"
  by (simp add: power_mult)

lemma be_val_split:
  assumes "be_val (c # cs) = a * 256 ^ length cs + w"
  shows "unat c = a + w div 256 ^ length cs" and "be_val cs = w mod 256 ^ length cs"
proof -
  have "unat c = be_val (c # cs) div 256 ^ length cs" "be_val cs = be_val (c # cs) mod 256 ^ length cs"
    using be_val_less [of cs] by simp_all
  then show "unat c = a + w div 256 ^ length cs" "be_val cs = w mod 256 ^ length cs"
    unfolding assms by simp_all
qed

lemma sign_byte:
  assumes "128 \<le> unat c"
  shows "(flip_neg p c AND 0x80 \<noteq> 0) = p" and "unat (c AND 0x7f) = unat c - 128"
proof -
  have eq: "b AND 0x80 = 0 \<longleftrightarrow> unat b < 128" for b :: u8
    using bit_u8_top [of 7 b] unat_u8_less [of b] by simp
  show "(flip_neg p c AND 0x80 \<noteq> 0) = p"
    using assms unat_u8_less [of c] by (auto simp: eq flip_neg_def unat_not_u8)
  have "unat (c AND 0x7f) = unat c mod 2 ^ 7" by (rule unat_and_mask) simp
  also have "\<dots> = (unat c - 128) mod 128" using assms by (simp add: le_mod_geq)
  also have "\<dots> = unat c - 128" using unat_u8_less [of c] by (intro mod_less) linarith
  finally show "unat (c AND 0x7f) = unat c - 128" .
qed

lemma decode_tail:
  assumes "scan_unary p (c AND 0x7f) 0x40 0 (map (flip_neg p) cs @ rest) =
      Inr (word_of_nat q, int (length ds), map (flip_neg p) ds @ rest)"
    and "128 \<le> unat c" and "q < 256" and "v = q * 256 ^ length ds + be_val ds" and "v < 2 ^ 64"
  shows "compressed_decode (map (flip_neg p) (c # cs) @ rest) =
    Inr (if p then word_of_nat v else NOT (word_of_nat v), rest)"
proof -
  have q: "unat (ucast (word_of_nat q :: u8) :: u64) = q"
    using assms(3) by (simp add: unsigned_ucast_eq unsigned_of_nat take_bit_nat_eq_self)
  have dbl: "flip_neg p (flip_neg p c) = c" by (simp add: flip_neg_def)
  have "read_value p (ucast (word_of_nat q :: u8)) (int (length ds)) (map (flip_neg p) ds @ rest) =
      Inr (word_of_nat v, rest)"
    using read_value_ok [of "ucast (word_of_nat q :: u8)" ds p rest] assms(4,5) q by simp
  then show ?thesis
    using assms(1) sign_byte(1) [OF assms(2), of p] dbl by (simp add: compressed_decode_def)
qed

lemma decode_short:
  assumes "length e = L" and "be_val e = (2 ^ L - 1) * 2 ^ (7 * L) + v" and "v < 2 ^ (7 * L - 1)"
    and "1 \<le> L" and "L \<le> 7"
  shows "compressed_decode (map (flip_neg p) e @ rest) =
    Inr (if p then word_of_nat v else NOT (word_of_nat v), rest)"
proof -
  obtain c cs where e: "e = c # cs" and len: "length cs = L - 1"
    using assms(1,4) by (cases e) auto
  let ?n = "L - 1" and ?q = "v div 256 ^ (L - 1)"
  have p1: "(2 :: nat) ^ (7 * L) = 2 ^ (8 - L) * 256 ^ ?n"
    using assms(4,5) unfolding power_256 power_add [symmetric] by (intro arg_cong [of _ _ "\<lambda>k. 2 ^ k"]) simp
  have p2: "(2 :: nat) ^ (7 * L - 1) = 2 ^ (7 - L) * 256 ^ ?n"
    using assms(4,5) unfolding power_256 power_add [symmetric] by (intro arg_cong [of _ _ "\<lambda>k. 2 ^ k"]) simp
  have c: "unat c = (2 ^ L - 1) * 2 ^ (8 - L) + ?q" "be_val cs = v mod 256 ^ ?n"
    using be_val_split [of c cs "(2 ^ L - 1) * 2 ^ (8 - L)" v] assms(2) unfolding e len p1
    by (simp_all add: mult.assoc)
  have q: "?q < 2 ^ (7 - L)" using assms(3) unfolding p2 by (simp add: less_mult_imp_div_less)
  have top: "((2 :: nat) ^ L - 1) * 2 ^ (8 - L) = 128 + (2 ^ (L - 1) - 1) * 2 ^ (8 - L)"
  proof -
    have "(2 :: nat) ^ (L - 1) * 2 ^ (8 - L) = 2 ^ 7" "(2 :: nat) ^ L * 2 ^ (8 - L) = 2 ^ 8"
      using assms(4,5) by (simp_all flip: power_add)
    moreover have "(2 :: nat) ^ (8 - L) \<le> 2 ^ 7" using assms(4) by (intro power_increasing) simp_all
    ultimately show ?thesis unfolding diff_mult_distrib by simp
  qed
  have "unat (c AND 0x7f) = (2 ^ (L - 1) - 1) * 2 ^ (Suc 6 - (L - 1)) + ?q"
    using sign_byte(2) [of c] c(1) top assms(4) by simp
  moreover have "?q < 2 ^ (6 - (L - 1))" "L - 1 \<le> 6" using q assms(4,5) by (simp_all add: diff_diff_eq)
  ultimately have scan: "scan_unary p (c AND 0x7f) (2 ^ 6) 0 (map (flip_neg p) cs @ rest) =
      Inr (word_of_nat ?q, 0 + int (L - 1), map (flip_neg p) cs @ rest)"
    by (intro scan_ones) simp_all
  have "(2 :: nat) ^ (7 * L - 1) \<le> 2 ^ 64" "(2 :: nat) ^ (7 - L) \<le> 2 ^ 8"
    using assms(5) by (intro power_increasing; simp)+
  then have "?q < 2 ^ 8" "v < 2 ^ 64" using q assms(3) less_le_trans by blast+
  moreover have "v = ?q * 256 ^ length cs + be_val cs"
    unfolding len c(2) by (rule div_mult_mod_eq [symmetric])
  moreover have "128 \<le> unat c" using c(1) top by simp
  moreover have "scan_unary p (c AND 0x7f) 0x40 0 (map (flip_neg p) cs @ rest) =
      Inr (word_of_nat ?q, int (length cs), map (flip_neg p) cs @ rest)"
    using scan len by simp
  ultimately show ?thesis unfolding e by (intro decode_tail) simp_all
qed

lemma decode_long:
  assumes "length e = L" and "be_val e = (2 ^ L - 1) * 2 ^ (7 * L) + v" and "v < 2 ^ (7 * L - 1)"
    and "8 \<le> L" and "L \<le> 15" and "v < 2 ^ 64"
  shows "compressed_decode (map (flip_neg p) e @ rest) =
    Inr (if p then word_of_nat v else NOT (word_of_nat v), rest)"
proof -
  obtain c d ds where e: "e = c # d # ds" and len: "length ds = L - 2"
    using assms(1,4) by (cases e; cases "tl e") auto
  let ?q = "v div 256 ^ (L - 2)" and ?w = "(2 ^ (L - 8) - 1) * 2 ^ (7 * L) + v"
  have pw: "(2 :: nat) ^ (7 * L) = 2 ^ (16 - L) * 256 ^ (L - 2)"
    "(2 :: nat) ^ (7 * L - 1) = 2 ^ (15 - L) * 256 ^ (L - 2)"
    using assms(4,5) unfolding power_256 power_add [symmetric]
    by (intro arg_cong [of _ _ "\<lambda>k. 2 ^ k"]; simp)+
  have "(2 :: nat) ^ L * 2 ^ (7 * L) = 2 ^ (8 * Suc (L - 1))"
    "(2 :: nat) ^ (L - 8) * 2 ^ (7 * L) = 2 ^ (8 * (L - 1))"
    using assms(4) unfolding power_add [symmetric] by (intro arg_cong [of _ _ "\<lambda>k. 2 ^ k"]; simp)+
  then have "(2 :: nat) ^ L * 2 ^ (7 * L) = 256 * 256 ^ (L - 1)"
    "(2 :: nat) ^ (L - 8) * 2 ^ (7 * L) = 256 ^ (L - 1)" unfolding power_256 [symmetric] by simp_all
  moreover have "(2 :: nat) ^ (7 * L) \<le> 256 ^ (L - 1)"
    unfolding power_256 using assms(4) by (intro power_increasing) simp_all
  moreover have "length (d # ds) = L - 1" using len assms(4) by simp
  ultimately have "be_val (c # d # ds) = 255 * 256 ^ length (d # ds) + ?w"
    using assms(2) unfolding e diff_mult_distrib by (simp del: be_val.simps)
  note cd = be_val_split [OF this]
  have c: "unat c = 255" using cd(1) unat_u8_le [of c] by simp
  then have "?w div 256 ^ length (d # ds) = 0" using cd(1) by simp
  then have "be_val (d # ds) = ?w" using cd(2) by (simp only: div_eq_0_iff) auto
  then have "be_val (d # ds) = ((2 ^ (L - 8) - 1) * 2 ^ (16 - L)) * 256 ^ length ds + v"
    unfolding len pw(1) by (simp add: mult.assoc)
  note d = be_val_split [OF this]
  have q: "?q < 2 ^ (15 - L)" using assms(3) unfolding pw(2) by (simp add: less_mult_imp_div_less)
  have c7: "unat (c AND 0x7f) = 2 ^ Suc 6 - 1" using sign_byte(2) [of c] c by simp
  have dbl: "flip_neg p (flip_neg p d) = d" by (simp add: flip_neg_def)
  have "scan_unary p d (2 ^ 7) 6 (map (flip_neg p) ds @ rest) =
      Inr (word_of_nat ?q, 6 + int (L - 8), map (flip_neg p) ds @ rest)"
  proof (rule scan_ones)
    show "unat d = (2 ^ (L - 8) - 1) * 2 ^ (Suc 7 - (L - 8)) + ?q"
      using d(1) assms(4) unfolding len by (simp add: diff_diff_eq2)
    show "?q < 2 ^ (7 - (L - 8))" using q assms(4) by (simp add: diff_diff_eq2)
  qed (use assms(5) in simp_all)
  moreover have "scan_unary p (c AND 0x7f) (2 ^ 6) 0 (map (flip_neg p) (d # ds) @ rest) =
      scan_unary p 0 0 7 (map (flip_neg p) (d # ds) @ rest)"
    using scan_all_ones [OF c7, of p 0] by simp
  ultimately have scan: "scan_unary p (c AND 0x7f) 0x40 0 (map (flip_neg p) (d # ds) @ rest) =
      Inr (word_of_nat ?q, int (length ds), map (flip_neg p) ds @ rest)"
    using dbl len assms(4) by (subst (asm) (2) scan_unary.simps) simp
  have "(2 :: nat) ^ (15 - L) \<le> 2 ^ 8" using assms(4) by (intro power_increasing) simp_all
  then have "?q < 2 ^ 8" using q less_le_trans by blast
  moreover have "v = ?q * 256 ^ length ds + be_val ds"
    unfolding d(2) len by (rule div_mult_mod_eq [symmetric])
  ultimately show ?thesis unfolding e using c scan assms(6) by (intro decode_tail) simp_all
qed

subsection \<open>The encoded number\<close>

lemma value_bytes_ok:
  "be_val (value_bytes v buf) = unat v * 256 ^ length buf + be_val buf"
  "v \<noteq> 0 \<or> (buf \<noteq> [] \<and> hd buf \<noteq> 0) \<Longrightarrow> value_bytes v buf \<noteq> [] \<and> hd (value_bytes v buf) \<noteq> 0"
proof (induction v buf rule: value_bytes.induct)
  case (1 v buf)
  have low: "unat (ucast v :: u8) = unat v mod 256"
    by (simp add: unsigned_ucast_eq take_bit_eq_mod)
  have shift: "unat (drop_bit 8 v) = unat v div 256"
    unfolding unat_drop_bit_eq by (simp add: drop_bit_eq_div)
  have step: "v \<noteq> 0 \<Longrightarrow> value_bytes v buf = value_bytes (drop_bit 8 v) (ucast v # buf)"
    and stop: "v = 0 \<Longrightarrow> value_bytes v buf = buf"
    by (subst value_bytes.simps, simp)+
  { case 1
    show ?case
    proof (cases "v = 0")
      case False
      have "unat v div 256 * 256 + unat v mod 256 = unat v" by (rule div_mult_mod_eq)
      then have "unat v div 256 * (256 * 256 ^ length buf) + unat v mod 256 * 256 ^ length buf =
          unat v * 256 ^ length buf" by (metis distrib_right mult.assoc)
      then show ?thesis unfolding step [OF False] "1.IH"(1) [OF False]
        by (simp only: low shift be_val.simps length_Cons power_Suc add.assoc [symmetric])
    next
      case True
      then show ?thesis unfolding stop [OF True] by simp
    qed
  next
    case 2
    show ?case
    proof (cases "v = 0")
      case False
      have "drop_bit 8 v \<noteq> 0 \<or> (ucast v :: u8) \<noteq> 0"
      proof (rule ccontr)
        assume "\<not> ?thesis"
        then have "unat v div 256 = 0" "unat v mod 256 = 0" using low shift by auto
        then have "unat v = 0" by (metis div_mult_mod_eq mult_0 add_0)
        then show False using False by (simp add: unat_eq_zero)
      qed
      then show ?thesis unfolding step [OF False] by (intro "1.IH"(2) [OF False]) simp
    next
      case True
      then show ?thesis unfolding stop [OF True] using 2 by simp
    qed
  }
qed

lemma leading_zeros_ok:
  assumes "128 \<le> unat b * 2 ^ k" and "unat b * 2 ^ k < 256" and "k \<le> n"
  shows "leading_zeros b n = n - k"
  using assms
proof (induction k arbitrary: b n)
  case 0
  have "b AND 0x80 = 0 \<longleftrightarrow> unat b < 128"
    using bit_u8_top [of 7 b] unat_u8_less [of b] by simp
  then show ?case using 0 by (subst leading_zeros.simps) simp
next
  case (Suc k)
  have "unat b \<le> unat b * 2 ^ k" by simp
  also have "\<dots> < 128" using Suc.prems(2) by simp
  finally have lt: "unat b < 128" .
  then have "b AND 0x80 = 0" using bit_u8_top [of 7 b] unat_u8_less [of b] by simp
  moreover have "unat (push_bit 1 b) = unat b * 2"
    unfolding unsigned_push_bit_eq using lt by (simp add: push_bit_eq_mult take_bit_nat_eq_self)
  ultimately show ?case
    using Suc.IH [of "push_bit 1 b" "n - 1"] Suc.prems
    by (subst leading_zeros.simps) (simp add: mult.assoc)
qed

lemma top_bit_exists:
  assumes "0 < (x :: nat)" and "x < 256"
  obtains k where "128 \<le> x * 2 ^ k" and "x * 2 ^ k < 256" and "k \<le> 7"
proof -
  consider "128 \<le> x" | "64 \<le> x" "x < 128" | "32 \<le> x" "x < 64" | "16 \<le> x" "x < 32"
    | "8 \<le> x" "x < 16" | "4 \<le> x" "x < 8" | "2 \<le> x" "x < 4" | "x = 1"
    using assms(1) by linarith
  then show thesis
    using that [of 0] that [of 1] that [of 2] that [of 3] that [of 4] that [of 5] that [of 6] that [of 7]
      assms(2) by cases simp_all
qed

text \<open>The number of significant bits of a value, and the encoded length it needs.\<close>

lemma encode_len_bounds:
  assumes "buf \<noteq> []" and "hd buf \<noteq> 0"
  obtains r where "encode_len buf = r div 7 + 1" and "8 * length buf < r + 8" and "r \<le> 8 * length buf"
    and "2 ^ r \<le> 2 * be_val buf" and "be_val buf < 2 ^ r"
proof -
  obtain b bs where buf: "buf = b # bs" using assms(1) by (cases buf) auto
  have "0 < unat b" using assms(2) buf by (simp add: unat_gt_0)
  then obtain k where k: "128 \<le> unat b * 2 ^ k" "unat b * 2 ^ k < 256" "k \<le> 7"
    using top_bit_exists [of "unat b"] unat_u8_less [of b] by blast
  let ?r = "8 * length buf - k"
  have "leading_zeros b (length buf * 8) = length buf * 8 - k"
    using k by (intro leading_zeros_ok) (simp_all add: buf)
  then have enc: "encode_len buf = ?r div 7 + 1" using buf by (simp add: encode_len_def Let_def mult.commute)
  have pk: "(2 :: nat) ^ ?r * 2 ^ k = 256 * 256 ^ length bs"
    using k(3) unfolding power_256 power_add [symmetric] by (simp add: buf power_add)
  have v: "be_val buf < (unat b + 1) * 256 ^ length bs" "unat b * 256 ^ length bs \<le> be_val buf"
    using be_val_less [of bs] by (simp_all add: buf)
  have k8: "(2 :: nat) ^ (8 - k) * 2 ^ k = 256" using k(3) by (simp flip: power_add)
  then have "unat b * 2 ^ k < 2 ^ (8 - k) * 2 ^ k" using k(2) by simp
  then have b1: "(unat b + 1) * 2 ^ k \<le> 256" unfolding k8 [symmetric] by (intro mult_right_mono) simp_all
  have "be_val buf * 2 ^ k < (unat b + 1) * 256 ^ length bs * 2 ^ k" using v(1) by simp
  also have "\<dots> = ((unat b + 1) * 2 ^ k) * 256 ^ length bs" by (simp only: ac_simps)
  also have "\<dots> \<le> 256 * 256 ^ length bs" using b1 by (rule mult_right_mono) simp
  finally have up: "be_val buf * 2 ^ k < 2 ^ ?r * 2 ^ k" unfolding pk .
  have "256 * 256 ^ length bs \<le> 2 * (unat b * 2 ^ k) * 256 ^ length bs"
    using k(1) by (intro mult_right_mono) simp_all
  also have "\<dots> = 2 * (unat b * 256 ^ length bs) * 2 ^ k" by (simp only: ac_simps)
  also have "\<dots> \<le> 2 * be_val buf * 2 ^ k" using v(2) by simp
  finally have low: "2 ^ ?r * 2 ^ k \<le> 2 * be_val buf * 2 ^ k" unfolding pk .
  show thesis
    using that [OF enc] k(3) buf up low by simp
qed

lemma top_byte_mod:
  assumes "be_val (x # xs) mod 2 ^ (8 * length xs + Suc i) < 2 ^ (8 * length xs + i)"
  shows "unat x mod 2 ^ Suc i < 2 ^ i"
proof -
  let ?B = "(2 :: nat) ^ (8 * length xs)"
  have "be_val (x # xs) mod (?B * 2 ^ Suc i) =
      ?B * (be_val (x # xs) div ?B mod 2 ^ Suc i) + be_val (x # xs) mod ?B"
    by (rule mod_mult2_eq)
  moreover have "be_val (x # xs) div ?B = unat x"
    using be_val_less [of xs] by (simp add: power_256)
  ultimately have "?B * (unat x mod 2 ^ Suc i) \<le> be_val (x # xs) mod 2 ^ (8 * length xs + Suc i)"
    by (simp only: power_add le_add1)
  also have "\<dots> < ?B * 2 ^ i" using assms by (simp add: power_add)
  finally show ?thesis by simp
qed

lemma set_header_next:
  "set_header (Suc n) 0 (x # y # ys) = x # set_header (Suc n) (2 ^ 7) (y # ys)"
proof -
  have "drop_bit 1 (0x80 :: u8) = 0x40" by simp
  then show ?thesis by simp
qed

lemma set_header_ok:
  assumes "i < 8" and "n \<le> 8 * length xs + Suc i"
    and "be_val (x # xs) mod 2 ^ (8 * length xs + Suc i) < 2 ^ (8 * length xs + Suc i - n)"
  shows "length (set_header n (2 ^ i) (x # xs)) = Suc (length xs) \<and>
    be_val (set_header n (2 ^ i) (x # xs)) =
      be_val (x # xs) + (2 ^ n - 1) * 2 ^ (8 * length xs + Suc i - n)"
  using assms
proof (induction n arbitrary: i x xs)
  case (Suc n)
  let ?v = "be_val (x # xs)" and ?Q = "8 * length xs + i" and ?y = "x OR 2 ^ i"
  have zero: "?v mod 2 ^ Suc ?Q < 2 ^ (?Q - n)" and n: "n \<le> ?Q" using Suc.prems by simp_all
  have "(2 :: nat) ^ (?Q - n) \<le> 2 ^ ?Q" by (intro power_increasing) simp_all
  then have z1: "?v mod 2 ^ Suc ?Q < 2 ^ ?Q" using zero by linarith
  have y: "be_val (?y # xs) = ?v + 2 ^ ?Q"
    using or_u8_top [OF Suc.prems(1) top_byte_mod] z1 by (simp add: power_256 power_add algebra_simps)
  have "?v mod 2 ^ ?Q \<le> ?v mod 2 ^ Suc ?Q"
    using take_bit_Suc_from_most [of ?Q ?v] by (simp add: take_bit_eq_mod del: power_Suc be_val.simps)
  then have rest: "be_val (?y # xs) mod 2 ^ ?Q < 2 ^ (?Q - n)" unfolding y using zero by simp
  have sum: "2 ^ ?Q + (2 ^ n - 1) * 2 ^ (?Q - n) = ((2 :: nat) ^ Suc n - 1) * 2 ^ (?Q - n)"
  proof -
    have "(2 :: nat) ^ n * 2 ^ (?Q - n) = 2 ^ ?Q" using n by (simp flip: power_add)
    moreover have "(2 :: nat) ^ (?Q - n) \<le> 2 ^ ?Q" by (intro power_increasing) simp_all
    ultimately show ?thesis unfolding diff_mult_distrib power_Suc mult.assoc by simp
  qed
  have step: "set_header (Suc n) (2 ^ i) (x # xs) = set_header n (drop_bit 1 (2 ^ i)) (?y # xs)"
    using exp_u8_nz [OF Suc.prems(1)] by simp
  have "length (set_header n (drop_bit 1 (2 ^ i)) (?y # xs)) = Suc (length xs) \<and>
    be_val (set_header n (drop_bit 1 (2 ^ i)) (?y # xs)) =
      be_val (?y # xs) + (2 ^ n - 1) * 2 ^ (?Q - n)"
  proof (cases i)
    case 0
    show ?thesis
    proof (cases n)
      case (Suc k)
      then obtain z zs where xs: "xs = z # zs" using n 0 by (cases xs) auto
      have Q: "8 * length zs + Suc 7 = ?Q" using 0 xs by simp
      have bx: "be_val xs < 2 ^ ?Q" using be_val_less [of xs] 0 by (simp add: power_256)
      have "be_val (?y # xs) mod 2 ^ ?Q = be_val xs" using bx 0 by (simp add: power_256)
      then have "be_val (z # zs) mod 2 ^ ?Q < 2 ^ (?Q - n)" using rest bx by (simp add: xs)
      then have "length (set_header n (2 ^ 7) (z # zs)) = Suc (length zs) \<and>
        be_val (set_header n (2 ^ 7) (z # zs)) = be_val (z # zs) + (2 ^ n - 1) * 2 ^ (?Q - n)"
        using Suc.IH [of 7 zs z] n unfolding Q by (simp del: be_val.simps)
      then show ?thesis using 0 Suc set_header_next [of k ?y z zs]
        unfolding xs by (simp del: set_header.simps)
    qed (simp add: 0)
  next
    case (Suc k)
    then have "drop_bit 1 ((2 :: u8) ^ i) = 2 ^ k" using drop_exp_u8 [of k] Suc.prems(1) by blast
    then show ?thesis using Suc.IH [of k xs ?y] Suc.prems(1) rest n Suc by simp
  qed
  then show ?case unfolding step y using sum by simp
qed simp

text \<open>What a non-negative value is encoded to, before the bits of a negative one are flipped.\<close>

definition encode_magnitude :: "u64 \<Rightarrow> bytes" where
  "encode_magnitude v =
     (let buf = value_bytes v []; L = encode_len buf
      in set_header L 0x80 (replicate (L - length buf) 0 @ buf))"

lemma compressed_encode_cases:
  "compressed_encode v =
     (if sint v < 0 then map (\<lambda>b. NOT b) (encode_magnitude (NOT v)) else encode_magnitude v)"
  by (simp add: compressed_encode_def encode_magnitude_def Let_def)

lemma significant_bits:
  obtains r where "encode_len (value_bytes v []) = r div 7 + 1" and "length (value_bytes v []) \<le> r div 7 + 1"
    and "unat v < 2 ^ r" and "r = 0 \<or> 2 ^ r \<le> 2 * unat v"
proof (cases "v = 0")
  case True
  then have "value_bytes v [] = []" by (subst value_bytes.simps) simp
  then show thesis using that [of 0] True by (simp add: encode_len_def)
next
  case False
  let ?buf = "value_bytes v []"
  have val: "be_val ?buf = unat v" using value_bytes_ok(1) [of v "[]"] by simp
  have nz: "?buf \<noteq> []" "hd ?buf \<noteq> 0" using value_bytes_ok(2) [of v "[]"] False by simp_all
  obtain r where r: "encode_len ?buf = r div 7 + 1" "8 * length ?buf < r + 8" "2 ^ r \<le> 2 * be_val ?buf"
    "be_val ?buf < 2 ^ r" using encode_len_bounds [OF nz] by metis
  have "length ?buf \<le> r div 7 + 1" using r(2) by linarith
  then show thesis using that [of r] r val by simp
qed

lemma encode_magnitude_ok:
  assumes "unat v < 2 ^ 63"
  obtains L r where "length (encode_magnitude v) = L" "be_val (encode_magnitude v) = (2 ^ L - 1) * 2 ^ (7 * L) + unat v"
    "unat v < 2 ^ (7 * L - 1)" "1 \<le> L" "L \<le> 10" "L = r div 7 + 1" "unat v < 2 ^ r" "r = 0 \<or> 2 ^ r \<le> 2 * unat v"
proof -
  let ?buf = "value_bytes v []" and ?L = "encode_len (value_bytes v [])"
  obtain r where r: "?L = r div 7 + 1" "length ?buf \<le> r div 7 + 1" "unat v < 2 ^ r" "r = 0 \<or> 2 ^ r \<le> 2 * unat v"
    using significant_bits .
  have "r \<le> 63"
  proof (rule ccontr)
    assume "\<not> r \<le> 63"
    then have "(2 :: nat) ^ 64 \<le> 2 ^ r" by (intro power_increasing) simp_all
    moreover have "2 ^ r \<le> 2 * unat v" using r(4) \<open>\<not> r \<le> 63\<close> by auto
    ultimately have "(2 :: nat) ^ 64 \<le> 2 * unat v" by (rule order_trans)
    then show False using assms by simp
  qed
  then have L: "1 \<le> ?L" "?L \<le> 10" using r(1) by (linarith, simp add: r(1) less_eq_div_iff_mult_less_eq)
  have "r \<le> 7 * ?L - 1" using r(1) by linarith
  then have "(2 :: nat) ^ r \<le> 2 ^ (7 * ?L - 1)" by (intro power_increasing) simp_all
  then have v: "unat v < 2 ^ (7 * ?L - 1)" using r(3) by linarith
  define xs where "xs = replicate (?L - length ?buf) 0 @ ?buf"
  have len: "length xs = ?L" using r(1,2) by (simp add: xs_def)
  then obtain c cs where c: "xs = c # cs" "length cs = ?L - 1" using L(1) by (cases xs) auto
  have val: "be_val (c # cs) = unat v"
    unfolding c(1) [symmetric] xs_def using value_bytes_ok(1) [of v "[]"] by simp
  have P: "8 * length cs + Suc 7 = 8 * ?L" using c(2) L(1) by simp
  have "(2 :: nat) ^ (7 * ?L - 1) \<le> 2 ^ (7 * ?L)" by (intro power_increasing) simp_all
  then have "unat v < 2 ^ (7 * ?L)" using v by linarith
  moreover have eL: "8 * ?L - ?L = 7 * ?L" by simp
  ultimately have "be_val (c # cs) mod 2 ^ (8 * ?L) < 2 ^ (8 * ?L - ?L)"
    unfolding val eL using mod_less_eq_dividend le_less_trans by blast
  then have "length (set_header ?L (2 ^ 7) (c # cs)) = Suc (length cs) \<and>
      be_val (set_header ?L (2 ^ 7) (c # cs)) = be_val (c # cs) + (2 ^ ?L - 1) * 2 ^ (8 * ?L - ?L)"
    using set_header_ok [of 7 ?L cs c, unfolded P] by simp
  then have "length (encode_magnitude v) = ?L"
    "be_val (encode_magnitude v) = (2 ^ ?L - 1) * 2 ^ (7 * ?L) + unat v"
    using c L(1) val unfolding encode_magnitude_def Let_def xs_def [symmetric] by simp_all
  then show thesis using that [of ?L r] v L r by simp
qed

text \<open>
  Property C30: every 64-bit value is read back from its encoding, and exactly the encoded bytes are
  consumed, whatever follows them in the archive.
\<close>

theorem compressed_int_roundtrip: "compressed_decode (compressed_encode v @ rest) = Inr (v, rest)"
proof -
  have dec: "compressed_decode (map (flip_neg p) (encode_magnitude m) @ rest) =
      Inr (if p then m else NOT m, rest)" if m: "unat m < 2 ^ 63" for p m
  proof -
    obtain L where L: "length (encode_magnitude m) = L"
      "be_val (encode_magnitude m) = (2 ^ L - 1) * 2 ^ (7 * L) + unat m"
      "unat m < 2 ^ (7 * L - 1)" "1 \<le> L" "L \<le> 10" using encode_magnitude_ok [OF m] by metis
    have "unat m < 2 ^ 64" using m by simp
    then show ?thesis
      using decode_short [OF L(1-4), of p rest] decode_long [OF L(1-3), of p rest] L(5)
      by (cases "L \<le> 7") simp_all
  qed
  have flip: "map (flip_neg True) xs = xs" "map (flip_neg False) xs = map (\<lambda>b. NOT b) xs" for xs
    by (simp_all add: flip_neg_def map_idI)
  show ?thesis
  proof (cases "sint v < 0")
    case True
    then have "unat (NOT v) < 2 ^ 63" unfolding sint_u64 unat_not_u64 by (auto split: if_splits)
    then show ?thesis using dec [of "NOT v" False] True by (simp add: compressed_encode_cases flip)
  next
    case False
    then have "unat v < 2 ^ 63"
      using unsigned_less [where 'b = 64, of v] unfolding sint_u64 by (auto split: if_splits)
    then show ?thesis using dec [of v True] False by (simp add: compressed_encode_cases flip)
  qed
qed

subsection \<open>Order\<close>

text \<open>Two byte strings that differ first at a position where the left one is smaller.\<close>

fun bytes_lt :: "bytes \<Rightarrow> bytes \<Rightarrow> bool" where
  "bytes_lt (x # xs) (y # ys) \<longleftrightarrow> x < y \<or> (x = y \<and> bytes_lt xs ys)"
| "bytes_lt _ _ \<longleftrightarrow> False"

lemma bytes_lt_be_val:
  assumes "length xs \<le> length ys" and "be_val xs < be_val ys div 256 ^ (length ys - length xs)"
  shows "bytes_lt xs ys"
  using assms
proof (induction xs arbitrary: ys)
  case Nil
  then show ?case using be_val_less [of ys] by simp
next
  case (Cons x xs)
  then obtain y zs where ys: "ys = y # zs" by (cases ys) auto
  let ?d = "length zs - length xs" and ?q = "be_val zs div 256 ^ (length zs - length xs)"
  have pw: "(256 :: nat) ^ length zs = 256 ^ length xs * 256 ^ ?d"
    using Cons.prems(1) ys by (simp flip: power_add)
  have "be_val ys div 256 ^ ?d = unat y * 256 ^ length xs + ?q"
    unfolding ys be_val.simps pw by (simp add: mult.assoc [symmetric])
  then have lt: "unat x * 256 ^ length xs + be_val xs < unat y * 256 ^ length xs + ?q"
    using Cons.prems(2) ys by simp
  have "?q < 256 ^ length xs"
    using be_val_less [of zs] unfolding pw by (simp add: less_mult_imp_div_less)
  then have "unat x * 256 ^ length xs < (unat y + 1) * 256 ^ length xs" using lt by simp
  then have "unat x < unat y + 1" using mult_less_cancel2 by blast
  then have "unat x \<le> unat y" by simp
  then show ?case
    using lt Cons.IH [of zs] Cons.prems(1) ys
    by (cases "unat x = unat y") (auto simp: word_less_nat_alt word_unat_eq_iff)
qed

lemma bytes_lt_not: "bytes_lt xs ys \<Longrightarrow> bytes_lt (map (\<lambda>b. NOT b) ys) (map (\<lambda>b. NOT b) xs)"
proof (induction xs ys rule: bytes_lt.induct)
  case (1 x xs y ys)
  have "x < y \<Longrightarrow> NOT y < NOT x"
    using unat_u8_le [of y] by (simp add: word_less_nat_alt unat_not_u8)
  then show ?case using 1 by auto
qed simp_all

text \<open>Longer unary lengths are larger whatever the value bits are.\<close>

lemma header_order:
  assumes "(v :: nat) < 2 ^ (7 * L - 1)" and "1 \<le> L" and "L < M"
  shows "(2 ^ L - 1) * 2 ^ (7 * L) + v < ((2 ^ M - 1) * 2 ^ (7 * M) + w) div 256 ^ (M - L)"
proof -
  define N where "N = ((2 :: nat) ^ Suc L - 1) * 2 ^ (7 * L - 1)"
  have a: "(2 :: nat) ^ L * 2 ^ (7 * L) = 2 ^ (8 * L)" "(2 :: nat) ^ Suc L * 2 ^ (7 * L - 1) = 2 ^ (8 * L)"
    "2 * (2 :: nat) ^ (7 * L - 1) = 2 ^ (7 * L)"
    "(2 :: nat) ^ (8 * L) * 256 ^ (M - L) = 2 ^ M * 2 ^ (7 * M)"
    using assms(2,3) unfolding power_256 power_add [symmetric] power_Suc [symmetric]
    by (intro arg_cong [of _ _ "\<lambda>k. 2 ^ k"]; simp)+
  have small: "(2 :: nat) ^ (7 * L) \<le> 2 ^ (8 * L)" by (intro power_increasing) simp_all
  have "(2 ^ L - 1) * 2 ^ (7 * L) + v < N"
    unfolding N_def diff_mult_distrib a(1,2) using assms(1) a(3) small by linarith
  also have "N * 256 ^ (M - L) \<le> (2 ^ M - 1) * 2 ^ (7 * M)"
  proof -
    have "7 * M \<le> 7 * L - 1 + 8 * (M - L)" using assms(2,3) by linarith
    then have "(2 :: nat) ^ (7 * M) \<le> 2 ^ (7 * L - 1) * 256 ^ (M - L)"
      unfolding power_256 power_add [symmetric] by (intro power_increasing) simp_all
    then show ?thesis unfolding N_def diff_mult_distrib a(2) a(4) by simp
  qed
  then have "N \<le> ((2 ^ M - 1) * 2 ^ (7 * M) + w) div 256 ^ (M - L)"
    by (simp add: less_eq_div_iff_mult_less_eq)
  finally show ?thesis .
qed

lemma encode_magnitude_order:
  assumes "unat v < 2 ^ 63" and "unat w < 2 ^ 63" and "unat v < unat w"
  shows "bytes_lt (encode_magnitude v) (encode_magnitude w)"
proof -
  obtain L r where L: "length (encode_magnitude v) = L"
    "be_val (encode_magnitude v) = (2 ^ L - 1) * 2 ^ (7 * L) + unat v"
    "unat v < 2 ^ (7 * L - 1)" "1 \<le> L" "L = r div 7 + 1" "r = 0 \<or> 2 ^ r \<le> 2 * unat v"
    using encode_magnitude_ok [OF assms(1)] by metis
  obtain M q where M: "length (encode_magnitude w) = M"
    "be_val (encode_magnitude w) = (2 ^ M - 1) * 2 ^ (7 * M) + unat w" "M = q div 7 + 1" "unat w < 2 ^ q"
    using encode_magnitude_ok [OF assms(2)] by metis
  have "r \<le> q"
  proof (rule ccontr)
    assume "\<not> r \<le> q"
    then have "(2 :: nat) ^ Suc q \<le> 2 ^ r" by (intro power_increasing) simp_all
    then show False using L(6) M(4) assms(3) \<open>\<not> r \<le> q\<close> by auto
  qed
  then have "L \<le> M" using L(5) M(3) by (simp add: div_le_mono)
  show ?thesis
  proof (rule bytes_lt_be_val)
    show "length (encode_magnitude v) \<le> length (encode_magnitude w)" using \<open>L \<le> M\<close> L(1) M(1) by simp
    show "be_val (encode_magnitude v) < be_val (encode_magnitude w) div
        256 ^ (length (encode_magnitude w) - length (encode_magnitude v))"
      using header_order [OF L(3,4), of M "unat w"] \<open>L \<le> M\<close> assms(3) L(1,2) M(1,2)
      by (cases "L = M") simp_all
  qed
qed

lemma encode_magnitude_top:
  assumes "unat v < 2 ^ 63"
  shows "encode_magnitude v \<noteq> [] \<and> 128 \<le> unat (hd (encode_magnitude v))"
proof -
  obtain L where L: "length (encode_magnitude v) = L"
    "be_val (encode_magnitude v) = (2 ^ L - 1) * 2 ^ (7 * L) + unat v" "1 \<le> L"
    using encode_magnitude_ok [OF assms] by metis
  then obtain c cs where e: "encode_magnitude v = c # cs" by (cases "encode_magnitude v") auto
  have "7 + 8 * length cs = L - 1 + 7 * L" using L(1,3) e by simp
  then have "(2 :: nat) ^ 7 * 2 ^ (8 * length cs) = 2 ^ (L - 1) * 2 ^ (7 * L)"
    by (simp only: power_add [symmetric])
  then have "128 * (256 :: nat) ^ length cs = 2 ^ (L - 1) * 2 ^ (7 * L)" by (simp add: power_256)
  also have "(2 :: nat) ^ (L - 1) \<le> 2 ^ L - 1" using L(3) by (cases L) simp_all
  then have "(2 :: nat) ^ (L - 1) * 2 ^ (7 * L) \<le> (2 ^ L - 1) * 2 ^ (7 * L)" by (rule mult_right_mono) simp
  also have "\<dots> \<le> be_val (c # cs)" using L(2) unfolding e by linarith
  also have "be_val (c # cs) < (unat c + 1) * 256 ^ length cs" using be_val_less [of cs] by simp
  finally have "128 < unat c + 1" using mult_less_cancel2 by blast
  then show ?thesis by (simp add: e)
qed

text \<open>
  Property C34: the encoding keeps the order of the values, as the format promises: of two different
  values the smaller one has the encoding that is smaller at the first byte where they differ.
\<close>

theorem compressed_int_order:
  assumes "sint v < sint w"
  shows "bytes_lt (compressed_encode v) (compressed_encode w)"
proof -
  have nonneg: "unat x < 2 ^ 63" if "\<not> sint x < 0" for x :: u64
    using that unsigned_less [where 'b = 64, of x] unfolding sint_u64 by (auto split: if_splits)
  have neg: "unat (NOT x) < 2 ^ 63" if "sint x < 0" for x :: u64
    using nonneg [of "NOT x"] that by (simp add: sint_not_u64)
  have num: "sint x = int (unat x)" if "\<not> sint x < 0" for x :: u64
    using nonneg [OF that] by (simp add: sint_u64)
  show ?thesis
  proof (cases "sint v < 0"; cases "sint w < 0")
    assume vw: "sint v < 0" "sint w < 0"
    then have "\<not> sint (NOT v) < 0" "\<not> sint (NOT w) < 0" by (simp_all add: sint_not_u64)
    then have "int (unat (NOT w)) < int (unat (NOT v))"
      using num [of "NOT v"] num [of "NOT w"] assms unfolding sint_not_u64 by linarith
    then have "unat (NOT w) < unat (NOT v)" by (simp only: of_nat_less_iff)
    then have "bytes_lt (encode_magnitude (NOT w)) (encode_magnitude (NOT v))"
      by (rule encode_magnitude_order [OF neg [OF vw(2)] neg [OF vw(1)]])
    then show ?thesis using bytes_lt_not vw by (simp add: compressed_encode_cases)
  next
    assume vw: "sint v < 0" "\<not> sint w < 0"
    obtain c cs d ds where e: "encode_magnitude (NOT v) = c # cs" "encode_magnitude w = d # ds"
      "128 \<le> unat c" "128 \<le> unat d"
      using encode_magnitude_top [OF neg [OF vw(1)]] encode_magnitude_top [OF nonneg [OF vw(2)]]
      by (metis list.collapse)
    have "NOT c < d" using e(3,4) by (simp add: word_less_nat_alt unat_not_u8)
    then show ?thesis using vw e(1,2) by (simp add: compressed_encode_cases)
  next
    assume "\<not> sint v < 0" "sint w < 0"
    then show ?thesis using assms by simp
  next
    assume vw: "\<not> sint v < 0" "\<not> sint w < 0"
    then have "int (unat v) < int (unat w)" using num [of v] num [of w] assms by linarith
    then have "unat v < unat w" by (simp only: of_nat_less_iff)
    then show ?thesis
      using encode_magnitude_order [OF nonneg nonneg] vw by (simp add: compressed_encode_cases)
  qed
qed

theorem compressed_int_order_witness:
  "sint (5 :: u64) < sint (300 :: u64) \<and>
   bytes_lt (compressed_encode 5) (compressed_encode 300)"
  using compressed_int_order [of 5 300] by (simp add: sint_u64)

end
