(* ===== verification/Flow_Error.thy ===== *)
theory Flow_Error
  imports Flow_Words
begin

text \<open>
  Errors (\<open>src/flow/Error.h\<close>, \<open>Error.cpp\<close> and \<open>error_definitions.h\<close>): the table of error codes,
  the \<open>Error\<close> object with its 16-bit code and flags, the conversion of unvalidated codes, and
  the look-up of names and descriptions.
\<close>

subsection \<open>The error definitions\<close>

type_synonym error_def = "int \<times> string \<times> string"

definition errors_normal :: "error_def list" where
  "errors_normal = [
     (0, ''success'', ''Success''),
     (1, ''end_of_stream'', ''End of stream''),
     (1000, ''operation_failed'', ''Operation failed''),
     (1001, ''wrong_shard_server'', ''Shard is not available from this server''),
     (1004, ''timed_out'', ''Operation timed out''),
     (1005, ''coordinated_state_conflict'', ''Conflict occurred while changing coordination information''),
     (1006, ''all_alternatives_failed'', ''All alternatives failed''),
     (1007, ''transaction_too_old'', ''Transaction is too old to perform reads or be committed''),
     (1008, ''no_more_servers'', ''Not enough physical servers available''),
     (1009, ''future_version'', ''Request for future version''),
     (1010, ''movekeys_conflict'', ''Conflicting attempts to change data distribution''),
     (1011, ''tlog_stopped'', ''TLog stopped''),
     (1012, ''server_request_queue_full'', ''Server request queue is full''),
     (1020, ''not_committed'', ''Transaction not committed due to conflict with another transaction''),
     (1021, ''commit_unknown_result'', ''Transaction may or may not have committed''),
     (1025, ''transaction_cancelled'', ''Operation aborted because the transaction was cancelled''),
     (1026, ''connection_failed'', ''Network connection failed''),
     (1027, ''coordinators_changed'', ''Coordination servers have changed''),
     (1028, ''new_coordinators_timed_out'', ''New coordination servers did not respond in a timely way''),
     (1029, ''watch_cancelled'', ''Watch cancelled because storage server watch limit exceeded''),
     (1030, ''request_maybe_delivered'', ''Request may or may not have been delivered''),
     (1031, ''transaction_timed_out'', ''Operation aborted because the transaction timed out''),
     (1032, ''too_many_watches'', ''Too many watches currently set''),
     (1033, ''locality_information_unavailable'', ''Locality information not available''),
     (1034, ''watches_disabled'', ''Watches cannot be set if read your writes is disabled''),
     (1035, ''default_error_or'', ''Default error for an ErrorOr object''),
     (1036, ''accessed_unreadable'', ''Read or wrote an unreadable key''),
     (1037, ''process_behind'', ''Storage process does not have recent mutations''),
     (1038, ''database_locked'', ''Database is locked''),
     (1039, ''cluster_version_changed'', ''The protocol version of the cluster has changed''),
     (1040, ''external_client_already_loaded'', ''External client has already been loaded''),
     (1041, ''lookup_failed'', ''DNS lookup failed''),
     (1042, ''proxy_memory_limit_exceeded'', ''Proxy commit memory limit exceeded''),
     (1043, ''shutdown_in_progress'', ''Operation no longer supported due to shutdown''),
     (1044, ''serialization_failed'', ''Failed to deserialize an object''),
     (1100, ''broken_promise'', ''Broken promise''),
     (1101, ''operation_cancelled'', ''Asynchronous operation cancelled''),
     (1102, ''future_released'', ''Future has been released''),
     (1103, ''connection_leaked'', ''Connection object leaked''),
     (1200, ''recruitment_failed'', ''Recruitment of a server failed''),
     (1201, ''move_to_removed_server'', ''Attempt to move keys to a storage server that was removed''),
     (1202, ''worker_removed'', ''Normal worker shut down''),
     (1203, ''master_recovery_failed'', ''Master recovery failed''),
     (1204, ''master_max_versions_in_flight'', ''Master hit maximum number of versions in flight''),
     (1205, ''master_tlog_failed'', ''Master terminating because a TLog failed''),
     (1206, ''worker_recovery_failed'', ''Recovery of a worker process failed''),
     (1207, ''please_reboot'', ''Reboot of server process requested''),
     (1208, ''please_reboot_delete'', ''Reboot of server process requested, with deletion of state''),
     (1209, ''master_proxy_failed'', ''Master terminating because a Proxy failed''),
     (1210, ''master_resolver_failed'', ''Master terminating because a Resolver failed''),
     (1211, ''server_overloaded'', ''Server is under too much load and cannot respond'')]"

definition errors_platform :: "error_def list" where
  "errors_platform = [
     (1500, ''platform_error'', ''Platform error''),
     (1501, ''large_alloc_failed'', ''Large block allocation failed''),
     (1502, ''performance_counter_error'', ''QueryPerformanceCounter error''),
     (1510, ''io_error'', ''Disk i/o operation failed''),
     (1511, ''file_not_found'', ''File not found''),
     (1512, ''bind_failed'', ''Unable to bind to network''),
     (1513, ''file_not_readable'', ''File could not be read''),
     (1514, ''file_not_writable'', ''File could not be written''),
     (1515, ''no_cluster_file_found'', ''No cluster file found in current directory or default location''),
     (1516, ''file_too_large'', ''File too large to be read''),
     (1517, ''non_sequential_op'', ''Non sequential file operation not allowed''),
     (1518, ''http_bad_response'', ''HTTP response was badly formed''),
     (1519, ''http_not_accepted'', ''HTTP request not accepted''),
     (1520, ''checksum_failed'', ''A data checksum failed''),
     (1521, ''io_timeout'', ''A disk IO operation failed to complete in a timely manner''),
     (1522, ''file_corrupt'', ''A structurally corrupt data file was detected''),
     (1523, ''http_request_failed'', ''HTTP response code not received or indicated failure''),
     (1524, ''http_auth_failed'', ''HTTP request failed due to bad credentials''),
     (1525, ''http_bad_request_id'', ''HTTP response contained an unexpected X-Request-ID header'')]"

definition errors_client :: "error_def list" where
  "errors_client = [
     (2000, ''client_invalid_operation'', ''Invalid API call''),
     (2002, ''commit_read_incomplete'', ''Commit with incomplete read''),
     (2003, ''test_specification_invalid'', ''Invalid test specification''),
     (2004, ''key_outside_legal_range'', ''Key outside legal range''),
     (2005, ''inverted_range'', ''Range begin key larger than end key''),
     (2006, ''invalid_option_value'', ''Option set with an invalid value''),
     (2007, ''invalid_option'', ''Option not valid in this context''),
     (2008, ''network_not_setup'', ''Action not possible before the network is configured''),
     (2009, ''network_already_setup'', ''Network can be configured only once''),
     (2010, ''read_version_already_set'', ''Transaction already has a read version set''),
     (2011, ''version_invalid'', ''Version not valid''),
     (2012, ''range_limits_invalid'', ''Range limits not valid''),
     (2013, ''invalid_database_name'', ''Database name must be '' @ [CHR 0x27] @ ''DB'' @ [CHR 0x27]),
     (2014, ''attribute_not_found'', ''Attribute not found''),
     (2015, ''future_not_set'', ''Future not ready''),
     (2016, ''future_not_error'', ''Future not an error''),
     (2017, ''used_during_commit'', ''Operation issued while a commit was outstanding''),
     (2018, ''invalid_mutation_type'', ''Unrecognized atomic mutation type''),
     (2019, ''attribute_too_large'', ''Attribute too large for type int''),
     (2020, ''transaction_invalid_version'', ''Transaction does not have a valid commit version''),
     (2021, ''no_commit_version'', ''Transaction is read-only and therefore does not have a commit version''),
     (2022, ''environment_variable_network_option_failed'', ''Environment variable network option could not be set''),
     (2023, ''transaction_read_only'', ''Attempted to commit a transaction specified as read-only''),
     (2100, ''incompatible_protocol_version'', ''Incompatible protocol version''),
     (2101, ''transaction_too_large'', ''Transaction exceeds byte limit''),
     (2102, ''key_too_large'', ''Key length exceeds limit''),
     (2103, ''value_too_large'', ''Value length exceeds limit''),
     (2104, ''connection_string_invalid'', ''Connection string invalid''),
     (2105, ''address_in_use'', ''Local address in use''),
     (2106, ''invalid_local_address'', ''Invalid local address''),
     (2107, ''tls_error'', ''TLS error''),
     (2108, ''unsupported_operation'', ''Operation is not supported''),
     (2200, ''api_version_unset'', ''API version is not set''),
     (2201, ''api_version_already_set'', ''API version may be set only once''),
     (2202, ''api_version_invalid'', ''API version not valid''),
     (2203, ''api_version_not_supported'', ''API version not supported''),
     (2210, ''exact_mode_without_limits'', ''EXACT streaming mode requires limits, but none were given''),
     (2250, ''invalid_tuple_data_type'', ''Unrecognized data type in packed tuple''),
     (2251, ''invalid_tuple_index'', ''Tuple does not have element at specified index''),
     (2252, ''key_not_in_subspace'', ''Cannot unpack key that is not in subspace''),
     (2253, ''manual_prefixes_not_enabled'', ''Cannot specify a prefix unless manual prefixes are enabled''),
     (2254, ''prefix_in_partition'', ''Cannot specify a prefix in a partition''),
     (2255, ''cannot_open_root_directory'', ''Root directory cannot be opened''),
     (2256, ''directory_already_exists'', ''Directory already exists''),
     (2257, ''directory_does_not_exist'', ''Directory does not exist''),
     (2258, ''parent_directory_does_not_exist'', ''Directory'' @ [CHR 0x27] @ ''s parent does not exist''),
     (2259, ''mismatched_layer'', ''Directory has already been created with a different layer string''),
     (2260, ''invalid_directory_layer_metadata'', ''Invalid directory layer metadata''),
     (2261, ''cannot_move_directory_between_partitions'', ''Directory cannot be moved between partitions''),
     (2262, ''cannot_use_partition_as_subspace'', ''Directory partition cannot be used as subspace''),
     (2263, ''incompatible_directory_version'', ''Directory layer was created with an incompatible version''),
     (2264, ''directory_prefix_not_empty'', ''Database has keys stored at the prefix chosen by the automatic prefix allocator''),
     (2265, ''directory_prefix_in_use'', ''Directory layer already has a conflicting prefix''),
     (2266, ''invalid_destination_directory'', ''Target directory is invalid''),
     (2267, ''cannot_modify_root_directory'', ''Root directory cannot be modified''),
     (2268, ''invalid_uuid_size'', ''UUID is not sixteen bytes'')]"

definition errors_backup :: "error_def list" where
  "errors_backup = [
     (2300, ''backup_error'', ''Backup error''),
     (2301, ''restore_error'', ''Restore error''),
     (2311, ''backup_duplicate'', ''Backup duplicate request''),
     (2312, ''backup_unneeded'', ''Backup unneeded request''),
     (2313, ''backup_bad_block_size'', ''Backup file block size too small''),
     (2314, ''backup_invalid_url'', ''Backup Container URL invalid''),
     (2315, ''backup_invalid_info'', ''Backup Container URL invalid''),
     (2316, ''backup_cannot_expire'', ''Cannot expire requested data from backup without violating minimum restorability''),
     (2317, ''backup_auth_missing'', ''Cannot find authentication details (such as a password or secret key) for the specified Backup Container URL''),
     (2318, ''backup_auth_unreadable'', ''Cannot read or parse one or more sources of authentication information for Backup Container URLs''),
     (2319, ''backup_does_not_exist'', ''Backup does not exist''),
     (2361, ''restore_invalid_version'', ''Invalid restore version''),
     (2362, ''restore_corrupted_data'', ''Corrupted backup data''),
     (2363, ''restore_missing_data'', ''Missing backup data''),
     (2364, ''restore_duplicate_tag'', ''Restore duplicate request''),
     (2365, ''restore_unknown_tag'', ''Restore tag does not exist''),
     (2366, ''restore_unknown_file_type'', ''Unknown backup/restore file type''),
     (2367, ''restore_unsupported_file_version'', ''Unsupported backup file version''),
     (2368, ''restore_bad_read'', ''Unexpected number of bytes read''),
     (2369, ''restore_corrupted_data_padding'', ''Backup file has unexpected padding bytes''),
     (2370, ''restore_destination_not_empty'', ''Attempted to restore into a non-empty destination database''),
     (2371, ''restore_duplicate_uid'', ''Attempted to restore using a UID that had been used for an aborted restore''),
     (2381, ''task_invalid_version'', ''Invalid task version''),
     (2382, ''task_interrupted'', ''Task execution stopped due to timeout, abort, or completion by another worker''),
     (2400, ''key_not_found'', ''Expected key is missing''),
     (2401, ''json_malformed'', ''JSON string was malformed''),
     (2402, ''json_eof_expected'', ''JSON string did not terminate where expected'')]"

definition errors_internal :: "error_def list" where
  "errors_internal = [
     (4000, ''unknown_error'', ''An unknown error occurred''),
     (4100, ''internal_error'', ''An internal error occurred'')]"

definition error_definitions :: "error_def list" where
  "error_definitions = errors_normal @ errors_platform @ errors_client @ errors_backup @ errors_internal"

text \<open>\<open>ErrorCodeTable\<close> is a \<open>std::map\<close> filled by \<open>addCode\<close> in the order of the definitions.\<close>

definition addCode :: "error_def \<Rightarrow> (int \<rightharpoonup> string \<times> string) \<Rightarrow> (int \<rightharpoonup> string \<times> string)" where
  "addCode d table = table(fst d \<mapsto> snd d)"

definition errorCodeTable :: "int \<rightharpoonup> string \<times> string" where
  "errorCodeTable = fold addCode error_definitions (\<lambda>_. None)"

subsection \<open>Error objects\<close>

record error =
  error_code :: u16
  error_flags :: u16

definition invalid_error_code :: u16 where
  "invalid_error_code = 0xffff"

definition FLAG_INJECTED_FAULT :: u16 where
  "FLAG_INJECTED_FAULT = 1"

definition error_new :: error where
  "error_new = \<lparr>error_code = invalid_error_code, error_flags = 0\<rparr>"

definition error_fromCode :: "int \<Rightarrow> error" where
  "error_fromCode code = error_new\<lparr>error_code := word_of_int code\<rparr>"

definition error_fromUnvalidatedCode :: "int \<Rightarrow> error" where
  "error_fromUnvalidatedCode code =
     (if code < 0 \<or> code > 30000 then error_fromCode 4000 else error_fromCode code)"

definition error_isValid :: "error \<Rightarrow> bool" where
  "error_isValid e \<longleftrightarrow> error_code e \<noteq> invalid_error_code"

definition error_isInjectedFault :: "error \<Rightarrow> bool" where
  "error_isInjectedFault e \<longleftrightarrow> error_flags e AND FLAG_INJECTED_FAULT \<noteq> 0"

definition error_asInjectedFault :: "error \<Rightarrow> error" where
  "error_asInjectedFault e = e\<lparr>error_flags := error_flags e OR FLAG_INJECTED_FAULT\<rparr>"

definition error_name :: "error \<Rightarrow> string" where
  "error_name e =
     (case errorCodeTable (uint (error_code e)) of
        None \<Rightarrow> ''UNKNOWN_ERROR'' | Some (name, what) \<Rightarrow> name)"

definition error_what :: "error \<Rightarrow> string" where
  "error_what e =
     (case errorCodeTable (uint (error_code e)) of
        None \<Rightarrow> ''UNKNOWN_ERROR'' | Some (name, what) \<Rightarrow> what)"

text \<open>The codes other components throw.\<close>

abbreviation "end_of_stream \<equiv> (1 :: u16)"
abbreviation "timed_out \<equiv> (1004 :: u16)"
abbreviation "serialization_failed \<equiv> (1044 :: u16)"
abbreviation "broken_promise \<equiv> (1100 :: u16)"
abbreviation "operation_cancelled \<equiv> (1101 :: u16)"
abbreviation "incompatible_protocol_version \<equiv> (2100 :: u16)"
abbreviation "connection_string_invalid \<equiv> (2104 :: u16)"

subsection \<open>Facts\<close>

lemma fold_addCode:
  "distinct (map fst ds) \<Longrightarrow> (c, d) \<in> set ds \<Longrightarrow> fold addCode ds m c = Some d"
proof (induction ds arbitrary: m)
  case (Cons x ds)
  have keep: "c \<notin> fst ` set ds \<Longrightarrow> fold addCode ds m c = m c" for m
    by (induction ds arbitrary: m) (auto simp: addCode_def)
  show ?case
  proof (cases "(c, d) \<in> set ds")
    case True
    then show ?thesis using Cons by simp
  next
    case False
    then have "x = (c, d)" using Cons.prems by simp
    then have "fold addCode ds (addCode x m) c = addCode x m c"
      using keep [of "addCode x m"] Cons.prems(1) by simp
    moreover have "addCode x m c = Some d" using \<open>x = (c, d)\<close> by (simp add: addCode_def)
    ultimately show ?thesis by simp
  qed
qed simp

lemma error_codes_increasing: "successively (<) (map fst error_definitions)"
  by (simp add: error_definitions_def errors_normal_def errors_platform_def errors_client_def
      errors_backup_def errors_internal_def)

lemma error_codes_distinct: "distinct (map fst error_definitions)"
proof -
  have "sorted_wrt (<) (map fst error_definitions)"
    using error_codes_increasing by (simp add: successively_conv_sorted_wrt)
  then show ?thesis by (simp add: strict_sorted_iff)
qed

lemma error_codes_range: "(c, d) \<in> set error_definitions \<Longrightarrow> 0 \<le> c \<and> c \<le> 4100"
proof -
  have "list_all (\<lambda>x. 0 \<le> fst x \<and> fst x \<le> 4100) error_definitions"
    by (simp add: error_definitions_def errors_normal_def errors_platform_def errors_client_def
      errors_backup_def errors_internal_def)
  then show "(c, d) \<in> set error_definitions \<Longrightarrow> ?thesis" by (auto simp: list_all_iff)
qed

lemma uint_u16_of_int: "0 \<le> c \<Longrightarrow> c < 65536 \<Longrightarrow> uint (word_of_int c :: u16) = c"
  by (simp add: unsigned_of_int take_bit_int_eq_self)

text \<open>
  Every code of \<open>error_definitions.h\<close> is defined once, survives the 16-bit code field
  of \<open>Error\<close>, and is looked up to its own name and description; a code received from elsewhere
  becomes a valid error whatever its value, unchanged exactly when it is in the legal range, and
  marking an error as injected keeps its code.
\<close>

theorem error_table_correct:
  "(\<forall>(code, name, what) \<in> set error_definitions.
      error_name (error_fromCode code) = name \<and> error_what (error_fromCode code) = what \<and>
      error_fromUnvalidatedCode code = error_fromCode code) \<and>
   error_isValid (error_fromUnvalidatedCode c) \<and>
   uint (error_code (error_fromUnvalidatedCode c)) = (if 0 \<le> c \<and> c \<le> 30000 then c else 4000) \<and>
   error_isInjectedFault (error_asInjectedFault e) \<and>
   error_code (error_asInjectedFault e) = error_code e"
proof (intro conjI ballI)
  fix d assume "d \<in> set error_definitions"
  moreover obtain code name what where d: "d = (code, name, what)" by (cases d)
  ultimately have m: "(code, name, what) \<in> set error_definitions" by simp
  have r: "0 \<le> code" "code \<le> 4100" using error_codes_range [OF m] by auto
  have "errorCodeTable code = Some (name, what)"
    unfolding errorCodeTable_def by (rule fold_addCode [OF error_codes_distinct m])
  moreover have "uint (error_code (error_fromCode code)) = code"
    using r by (simp add: error_fromCode_def uint_u16_of_int)
  ultimately show "case d of (code, name, what) \<Rightarrow>
      error_name (error_fromCode code) = name \<and> error_what (error_fromCode code) = what \<and>
      error_fromUnvalidatedCode code = error_fromCode code"
    using r d by (simp add: error_name_def error_what_def error_fromUnvalidatedCode_def)
next
  show u: "uint (error_code (error_fromUnvalidatedCode c)) = (if 0 \<le> c \<and> c \<le> 30000 then c else 4000)"
    by (simp add: error_fromUnvalidatedCode_def error_fromCode_def uint_u16_of_int)
  have "uint invalid_error_code = 65535" by (simp add: invalid_error_code_def)
  then show "error_isValid (error_fromUnvalidatedCode c)"
    using u by (auto simp: error_isValid_def split: if_splits)
  show "error_isInjectedFault (error_asInjectedFault e)"
    by (simp add: error_isInjectedFault_def error_asInjectedFault_def FLAG_INJECTED_FAULT_def
        and_one_eq or_one_eq mod_2_eq_odd)
  show "error_code (error_asInjectedFault e) = error_code e"
    by (simp add: error_asInjectedFault_def)
qed

theorem error_table_correct_witness:
  "error_name (error_fromCode 1101) = ''operation_cancelled'' \<and>
   uint (error_code (error_fromUnvalidatedCode 70000)) = 4000"
proof -
  have "(1101, ''operation_cancelled'', ''Asynchronous operation cancelled'') \<in> set error_definitions"
    by (simp add: error_definitions_def errors_normal_def)
  then show ?thesis using error_table_correct [of 70000] by fastforce
qed

end
