(* ===== verification/Serialize.thy ===== *)
theory Serialize
  imports Flow_Error "HOL-Library.Sublist"
begin

text \<open>
  The serialisation templates of \<open>src/flow/serialize.h\<close> and the ones of \<open>src/flow/Arena.h\<close> for
  \<open>Optional\<close>, \<open>StringRef\<close>, \<open>VectorRef\<close> and \<open>Standalone\<close>.  The template parameter \<open>Archive\<close> is a
  record of the operations the templates call on it; a template over an element type takes the
  element's own \<open>save\<close> or \<open>load\<close> as an argument.  The locales \<open>writer_archive\<close> and
  \<open>reader_archive\<close> state what a template may rely on, and the encodings the templates produce and
  consume are proved once inside them.  \<open>ASSERT\<close>s are taken as enabled.
\<close>

subsection \<open>Archives\<close>

record 'w writer_ops =
  wr_serializeBytes :: "bytes \<Rightarrow> 'w \<Rightarrow> 'w result"
  wr_serializeBinaryItem :: "bytes \<Rightarrow> 'w \<Rightarrow> 'w result"
  wr_protocolVersion :: "'w \<Rightarrow> u64"
  wr_setProtocolVersion :: "u64 \<Rightarrow> 'w \<Rightarrow> 'w"

record 'r reader_ops =
  rd_serializeBytes :: "int \<Rightarrow> 'r \<Rightarrow> (bytes \<times> 'r) result"
  rd_serializeBinaryItem :: "int \<Rightarrow> 'r \<Rightarrow> (bytes \<times> 'r) result"
  rd_arenaRead :: "int \<Rightarrow> 'r \<Rightarrow> (bytes \<times> 'r) result"
  rd_protocolVersion :: "'r \<Rightarrow> u64"
  rd_setProtocolVersion :: "u64 \<Rightarrow> 'r \<Rightarrow> 'r"

type_synonym 'w save_action = "'w \<Rightarrow> 'w result"
type_synonym ('a, 'r) load_action = "'r \<Rightarrow> ('a \<times> 'r) result"

definition assert_wr_version :: "'w writer_ops \<Rightarrow> 'w save_action" where
  "assert_wr_version ops w =
     bind_result (assert_that (wr_protocolVersion ops w \<noteq> 0)) (\<lambda>_. Inr w)"

definition assert_rd_version :: "'r reader_ops \<Rightarrow> 'a \<Rightarrow> ('a, 'r) load_action" where
  "assert_rd_version ops x r =
     bind_result (assert_that (rd_protocolVersion ops r \<noteq> 0)) (\<lambda>_. Inr (x, r))"

definition then_load :: "('a, 'r) load_action \<Rightarrow> ('a \<Rightarrow> ('b, 'r) load_action) \<Rightarrow> ('b, 'r) load_action"
  where "then_load g h r = bind_result (g r) (\<lambda>(x, r'). h x r')"

definition then_save :: "'w save_action \<Rightarrow> 'w save_action \<Rightarrow> 'w save_action" where
  "then_save f g w = bind_result (f w) g"

definition return_load :: "'a \<Rightarrow> ('a, 'r) load_action" where
  "return_load x r = Inr (x, r)"

subsection \<open>Binary items\<close>

text \<open>
  The binary serializable types are stored as they lie in memory: a little-endian machine's bytes
  of the integer.
\<close>

fun le_bytes :: "nat \<Rightarrow> 'a::len word \<Rightarrow> bytes" where
  "le_bytes 0 x = []"
| "le_bytes (Suc n) x = ucast x # le_bytes n (drop_bit 8 x)"

fun le_val :: "bytes \<Rightarrow> nat" where
  "le_val [] = 0"
| "le_val (b # bs) = unat b + 256 * le_val bs"

definition item_bytes :: "'a::len word \<Rightarrow> bytes" where
  "item_bytes x = le_bytes (LENGTH('a) div 8) x"

definition save_item :: "'w writer_ops \<Rightarrow> 'a::len word \<Rightarrow> 'w save_action" where
  "save_item ops x = wr_serializeBinaryItem ops (item_bytes x)"

definition load_item :: "'r reader_ops \<Rightarrow> ('a::len word, 'r) load_action" where
  "load_item ops = then_load (rd_serializeBinaryItem ops (int (LENGTH('a) div 8)))
     (\<lambda>bs. return_load (word_of_nat (le_val bs)))"

definition save_bool :: "'w writer_ops \<Rightarrow> bool \<Rightarrow> 'w save_action" where
  "save_bool ops b = wr_serializeBinaryItem ops [if b then 1 else 0]"

text \<open>Reading a byte other than 0 and 1 as a \<open>bool\<close> is undefined.\<close>

definition load_bool :: "'r reader_ops \<Rightarrow> (bool, 'r) load_action" where
  "load_bool ops = then_load (rd_serializeBinaryItem ops 1)
     (\<lambda>bs r. if bs = [0] then Inr (False, r) else if bs = [1] then Inr (True, r)
             else Inl Undefined_behaviour)"

subsection \<open>Strings, pairs and containers\<close>

definition save_class :: "'w writer_ops \<Rightarrow> 'w save_action \<Rightarrow> 'w save_action" where
  "save_class ops serialize = then_save serialize (assert_wr_version ops)"

definition load_class :: "'r reader_ops \<Rightarrow> ('a, 'r) load_action \<Rightarrow> ('a, 'r) load_action" where
  "load_class ops serialize = then_load serialize (assert_rd_version ops)"

definition save_string :: "'w writer_ops \<Rightarrow> bytes \<Rightarrow> 'w save_action" where
  "save_string ops value =
     then_save (save_item ops (word_of_nat (length value) :: u32))
       (then_save (wr_serializeBytes ops value) (assert_wr_version ops))"

definition load_string :: "'r reader_ops \<Rightarrow> (bytes, 'r) load_action" where
  "load_string ops =
     then_load (load_item ops) (\<lambda>len :: u32.
       if sint len < 0 then (\<lambda>r. Inl Length_error)
       else then_load (rd_serializeBytes ops (sint len)) (assert_rd_version ops))"

definition save_pair ::
  "('a \<Rightarrow> 'w save_action) \<Rightarrow> ('b \<Rightarrow> 'w save_action) \<Rightarrow> 'a \<times> 'b \<Rightarrow> 'w save_action" where
  "save_pair sa sb p = then_save (sa (fst p)) (sb (snd p))"

definition load_pair ::
  "('a, 'r) load_action \<Rightarrow> ('b, 'r) load_action \<Rightarrow> ('a \<times> 'b, 'r) load_action" where
  "load_pair la lb = then_load la (\<lambda>a. then_load lb (\<lambda>b. return_load (a, b)))"

fun save_each :: "('a \<Rightarrow> 'w save_action) \<Rightarrow> 'a list \<Rightarrow> 'w save_action" where
  "save_each sv [] w = Inr w"
| "save_each sv (x # xs) w = then_save (sv x) (save_each sv xs) w"

fun load_each :: "('a, 'r) load_action \<Rightarrow> nat \<Rightarrow> ('a list, 'r) load_action" where
  "load_each ld 0 r = Inr ([], r)"
| "load_each ld (Suc n) r = then_load ld (\<lambda>x. then_load (load_each ld n) (\<lambda>xs. return_load (x # xs))) r"

definition save_vector :: "'w writer_ops \<Rightarrow> ('a \<Rightarrow> 'w save_action) \<Rightarrow> 'a list \<Rightarrow> 'w save_action" where
  "save_vector ops sv value =
     then_save (save_item ops (word_of_nat (length value) :: u32))
       (then_save (save_each sv value) (assert_wr_version ops))"

text \<open>\<open>reserve\<close> of a negative count throws \<open>length_error\<close>.\<close>

definition load_vector :: "'r reader_ops \<Rightarrow> ('a, 'r) load_action \<Rightarrow> ('a list, 'r) load_action" where
  "load_vector ops ld =
     then_load (load_item ops) (\<lambda>s :: u32.
       if sint s < 0 then (\<lambda>r. Inl Length_error)
       else then_load (load_each ld (nat (sint s))) (assert_rd_version ops))"

definition save_array :: "'w writer_ops \<Rightarrow> ('a \<Rightarrow> 'w save_action) \<Rightarrow> 'a list \<Rightarrow> 'w save_action" where
  "save_array ops sv value = then_save (save_each sv value) (assert_wr_version ops)"

definition load_array :: "'r reader_ops \<Rightarrow> nat \<Rightarrow> ('a, 'r) load_action \<Rightarrow> ('a list, 'r) load_action" where
  "load_array ops N ld = then_load (load_each ld N) (assert_rd_version ops)"

text \<open>
  A \<open>std::set\<close> is the list of its elements in the order of its comparison; a \<open>std::map\<close> the list
  of its pairs.  \<open>insert\<close> and \<open>emplace\<close> keep an element that is already there.
\<close>

fun set_insert :: "('a \<Rightarrow> 'a \<Rightarrow> bool) \<Rightarrow> 'a \<Rightarrow> 'a list \<Rightarrow> 'a list" where
  "set_insert lt x [] = [x]"
| "set_insert lt x (y # ys) =
     (if lt x y then x # y # ys else if lt y x then y # set_insert lt x ys else y # ys)"

fun load_set_loop ::
  "('a \<Rightarrow> 'a \<Rightarrow> bool) \<Rightarrow> ('a, 'r) load_action \<Rightarrow> nat \<Rightarrow> 'a list \<Rightarrow> ('a list, 'r) load_action" where
  "load_set_loop lt ld 0 value r = Inr (value, r)"
| "load_set_loop lt ld (Suc n) value r =
     then_load ld (\<lambda>x. load_set_loop lt ld n (set_insert lt x value)) r"

definition save_set :: "'w writer_ops \<Rightarrow> ('a \<Rightarrow> 'w save_action) \<Rightarrow> 'a list \<Rightarrow> 'w save_action" where
  "save_set ops sv value =
     then_save (save_item ops (word_of_nat (length value) :: u32))
       (then_save (save_each sv value) (assert_wr_version ops))"

definition load_set ::
  "'r reader_ops \<Rightarrow> ('a \<Rightarrow> 'a \<Rightarrow> bool) \<Rightarrow> ('a, 'r) load_action \<Rightarrow> ('a list, 'r) load_action" where
  "load_set ops lt ld =
     then_load (load_item ops) (\<lambda>s :: u32.
       then_load (load_set_loop lt ld (nat (sint s)) []) (assert_rd_version ops))"

definition save_map ::
  "'w writer_ops \<Rightarrow> ('k \<Rightarrow> 'w save_action) \<Rightarrow> ('v \<Rightarrow> 'w save_action) \<Rightarrow> ('k \<times> 'v) list \<Rightarrow>
   'w save_action" where
  "save_map ops sk sv value =
     then_save (save_item ops (word_of_nat (length value) :: u32))
       (then_save (save_each (\<lambda>it. then_save (sk (fst it)) (sv (snd it))) value)
         (assert_wr_version ops))"

definition load_map ::
  "'r reader_ops \<Rightarrow> ('k \<Rightarrow> 'k \<Rightarrow> bool) \<Rightarrow> ('k, 'r) load_action \<Rightarrow> ('v, 'r) load_action \<Rightarrow>
   (('k \<times> 'v) list, 'r) load_action" where
  "load_map ops lt lk lv =
     then_load (load_item ops) (\<lambda>s :: u32.
       then_load (load_set_loop (\<lambda>a b. lt (fst a) (fst b))
           (then_load lk (\<lambda>k. then_load lv (\<lambda>v. return_load (k, v)))) (nat (sint s)) [])
         (assert_rd_version ops))"

subsection \<open>Templates of \<open>Arena.h\<close>\<close>

definition save_StringRef :: "'w writer_ops \<Rightarrow> bytes \<Rightarrow> 'w save_action" where
  "save_StringRef ops value =
     then_save (save_item ops (word_of_nat (length value) :: u32)) (wr_serializeBytes ops value)"

text \<open>The unsigned length is passed to \<open>arenaRead(int)\<close>.\<close>

definition load_StringRef :: "'r reader_ops \<Rightarrow> (bytes, 'r) load_action" where
  "load_StringRef ops = then_load (load_item ops) (\<lambda>len :: u32. rd_arenaRead ops (sint len))"

definition save_VectorRef :: "'w writer_ops \<Rightarrow> ('a \<Rightarrow> 'w save_action) \<Rightarrow> 'a list \<Rightarrow> 'w save_action" where
  "save_VectorRef ops sv value =
     then_save (save_item ops (word_of_nat (length value) :: u32)) (save_each sv value)"

text \<open>The argument \<open>sizeof_T\<close> is the size of an element in memory.\<close>

definition load_VectorRef ::
  "'r reader_ops \<Rightarrow> nat \<Rightarrow> ('a, 'r) load_action \<Rightarrow> ('a list, 'r) load_action" where
  "load_VectorRef ops sizeof_T ld =
     then_load (load_item ops) (\<lambda>len :: u32.
       if unat len * sizeof_T < 100 * 2 ^ 20 then load_each ld (unat len)
       else (\<lambda>r. Inl Assert_failed))"

definition save_Optional :: "'w writer_ops \<Rightarrow> ('a \<Rightarrow> 'w save_action) \<Rightarrow> 'a option \<Rightarrow> 'w save_action" where
  "save_Optional ops sv value =
     save_class ops (then_save (save_bool ops (value \<noteq> None))
       (case value of None \<Rightarrow> Inr | Some x \<Rightarrow> sv x))"

definition load_Optional :: "'r reader_ops \<Rightarrow> ('a, 'r) load_action \<Rightarrow> ('a option, 'r) load_action" where
  "load_Optional ops ld =
     load_class ops (then_load (load_bool ops) (\<lambda>valid.
       if valid then then_load ld (\<lambda>x. return_load (Some x)) else return_load None))"

text \<open>A \<open>Standalone\<close> saves its contents; saving or loading its arena moves no bytes.\<close>

definition save_Standalone :: "'w writer_ops \<Rightarrow> ('a \<Rightarrow> 'w save_action) \<Rightarrow> 'a \<Rightarrow> 'w save_action" where
  "save_Standalone ops sv value = save_class ops (sv value)"

definition load_Standalone :: "'r reader_ops \<Rightarrow> ('a, 'r) load_action \<Rightarrow> ('a, 'r) load_action" where
  "load_Standalone ops ld = load_class ops ld"

subsection \<open>Version options\<close>

definition currentProtocolVersion :: u64 where
  "currentProtocolVersion = 0x0FDB00B061060001"

definition minValidProtocolVersion :: u64 where
  "minValidProtocolVersion = 0x0FDB00A200060001"

datatype version_option = IncludeVersion u64 | AssumeVersion u64 | Unversioned

text \<open>The constructors of the options check their version.\<close>

definition make_IncludeVersion :: "u64 \<Rightarrow> version_option result" where
  "make_IncludeVersion v =
     bind_result (assert_that (v \<ge> minValidProtocolVersion)) (\<lambda>_. Inr (IncludeVersion v))"

definition make_AssumeVersion :: "bool \<Rightarrow> u64 \<Rightarrow> version_option result" where
  "make_AssumeVersion isSimulated v =
     (if v < minValidProtocolVersion
      then if isSimulated then Inl Assert_failed else Inl (Thrown serialization_failed)
      else Inr (AssumeVersion v))"

fun write_version :: "'w writer_ops \<Rightarrow> version_option \<Rightarrow> 'w save_action" where
  "write_version ops (IncludeVersion v) w = save_item ops v (wr_setProtocolVersion ops v w)"
| "write_version ops (AssumeVersion v) w = Inr (wr_setProtocolVersion ops v w)"
| "write_version ops Unversioned w = Inr (wr_setProtocolVersion ops 0 w)"

fun read_version :: "'r reader_ops \<Rightarrow> version_option \<Rightarrow> 'r \<Rightarrow> 'r result" where
  "read_version ops (IncludeVersion _) r =
     bind_result (load_item ops r) (\<lambda>(v, r').
       if v < minValidProtocolVersion then Inl (Thrown incompatible_protocol_version)
       else if v > currentProtocolVersion then Inl (Thrown incompatible_protocol_version)
       else Inr (rd_setProtocolVersion ops v r'))"
| "read_version ops (AssumeVersion v) r = Inr (rd_setProtocolVersion ops v r)"
| "read_version ops Unversioned r = Inr (rd_setProtocolVersion ops 0 r)"

subsection \<open>Encodings\<close>

lemma length_le_bytes [simp]: "length (le_bytes n x) = n"
  by (induction n arbitrary: x) simp_all

lemma le_val_le_bytes: "le_val (le_bytes n x) = unat x mod 256 ^ n"
proof (induction n arbitrary: x)
  case (Suc n)
  have "unat (ucast x :: u8) = unat x mod 256"
    by (simp add: unsigned_ucast_eq take_bit_eq_mod)
  moreover have "unat (drop_bit 8 x) = unat x div 256"
    unfolding unat_drop_bit_eq by (simp add: drop_bit_eq_div)
  ultimately show ?case using Suc by (simp add: mod_mult2_eq)
qed simp

lemma length_item_bytes [simp]: "length (item_bytes (x :: 'a::len word)) = LENGTH('a) div 8"
  by (simp add: item_bytes_def)

lemma le_val_item_bytes:
  assumes "8 dvd LENGTH('a::len)"
  shows "word_of_nat (le_val (item_bytes (x :: 'a word))) = x"
proof -
  have "(256 :: nat) ^ (LENGTH('a) div 8) = 2 ^ (8 * (LENGTH('a) div 8))"
    by (simp add: power_mult)
  also have "\<dots> = 2 ^ LENGTH('a)" using assms by simp
  finally show ?thesis
    using unsigned_less [of x] by (simp add: item_bytes_def le_val_le_bytes)
qed

lemma count_u32:
  assumes "n < 2 ^ 31"
  shows "sint (word_of_nat n :: u32) = int n" and "unat (word_of_nat n :: u32) = n"
proof -
  have "n < 2 ^ 32" using assms by simp
  then show "unat (word_of_nat n :: u32) = n" by (simp add: unsigned_of_nat take_bit_nat_eq_self)
  have "signed_take_bit 31 (int n) = int n"
    by (rule signed_take_bit_int_eq_self) (use assms in simp_all)
  then show "sint (word_of_nat n :: u32) = int n" by (simp add: signed_of_nat)
qed

definition enc_count :: "'a list \<Rightarrow> bytes" where
  "enc_count xs = item_bytes (word_of_nat (length xs) :: u32)"

definition enc_string :: "bytes \<Rightarrow> bytes" where
  "enc_string s = enc_count s @ s"

definition enc_list :: "('a \<Rightarrow> bytes) \<Rightarrow> 'a list \<Rightarrow> bytes" where
  "enc_list enc xs = enc_count xs @ concat (map enc xs)"

definition enc_pair :: "('a \<Rightarrow> bytes) \<Rightarrow> ('b \<Rightarrow> bytes) \<Rightarrow> 'a \<times> 'b \<Rightarrow> bytes" where
  "enc_pair ea eb p = ea (fst p) @ eb (snd p)"

definition enc_option :: "('a \<Rightarrow> bytes) \<Rightarrow> 'a option \<Rightarrow> bytes" where
  "enc_option enc x = (case x of None \<Rightarrow> [0] | Some y \<Rightarrow> 1 # enc y)"

lemma set_insert_above:
  assumes "\<forall>y \<in> set ys. lt y x" and "transp lt" and "irreflp lt"
  shows "set_insert lt x ys = ys @ [x]"
  using assms(1)
proof (induction ys)
  case (Cons y ys)
  then have "lt y x" by simp
  then have "\<not> lt x y" using assms(2,3) by (meson irreflpD transpD)
  then show ?case using Cons by simp
qed simp

subsection \<open>What templates write\<close>

named_theorems writes_intros \<open>encodings written by the templates\<close>
named_theorems reads_intros \<open>encodings read by the templates\<close>

locale writer_archive =
  fixes ops :: "'w writer_ops"
    and inv :: "'w \<Rightarrow> bool"
    and out :: "'w \<Rightarrow> bytes"
    and room :: "'w \<Rightarrow> nat"
  assumes serializeBytes_ok:
      "inv w \<Longrightarrow> length bs \<le> room w \<Longrightarrow>
       \<exists>w'. wr_serializeBytes ops bs w = Inr w' \<and> inv w' \<and> out w' = out w @ bs \<and>
            room w' = room w - length bs \<and> wr_protocolVersion ops w' = wr_protocolVersion ops w"
    and serializeBinaryItem_ok:
      "inv w \<Longrightarrow> length bs \<le> room w \<Longrightarrow>
       \<exists>w'. wr_serializeBinaryItem ops bs w = Inr w' \<and> inv w' \<and> out w' = out w @ bs \<and>
            room w' = room w - length bs \<and> wr_protocolVersion ops w' = wr_protocolVersion ops w"
    and setProtocolVersion_ok:
      "inv w \<Longrightarrow> inv (wr_setProtocolVersion ops v w)"
      "out (wr_setProtocolVersion ops v w) = out w"
      "room (wr_setProtocolVersion ops v w) = room w"
      "wr_protocolVersion ops (wr_setProtocolVersion ops v w) = v"
begin

definition writes :: "bytes \<Rightarrow> 'w save_action \<Rightarrow> bool" where
  "writes bs f \<longleftrightarrow>
     (\<forall>w. inv w \<and> length bs \<le> room w \<and> wr_protocolVersion ops w \<noteq> 0 \<longrightarrow>
        (\<exists>w'. f w = Inr w' \<and> inv w' \<and> out w' = out w @ bs \<and> room w' = room w - length bs \<and>
              wr_protocolVersion ops w' = wr_protocolVersion ops w))"

lemma writes_bytes [writes_intros]: "writes bs (wr_serializeBytes ops bs)"
  unfolding writes_def using serializeBytes_ok by blast

lemma writes_binary [writes_intros]: "writes bs (wr_serializeBinaryItem ops bs)"
  unfolding writes_def using serializeBinaryItem_ok by blast

lemma writes_skip [writes_intros]: "writes [] Inr"
  by (simp add: writes_def)

lemma writes_check [writes_intros]: "writes [] (assert_wr_version ops)"
  by (simp add: writes_def assert_wr_version_def)

lemma writes_then:
  assumes f: "writes bs f" and g: "writes cs g"
  shows "writes (bs @ cs) (then_save f g)"
  unfolding writes_def
proof (intro allI impI)
  fix w assume w: "inv w \<and> length (bs @ cs) \<le> room w \<and> wr_protocolVersion ops w \<noteq> 0"
  then obtain w1 where w1: "f w = Inr w1" "inv w1" "out w1 = out w @ bs"
      "room w1 = room w - length bs" "wr_protocolVersion ops w1 = wr_protocolVersion ops w"
    using f [unfolded writes_def, THEN spec, of w] by auto
  then have "length cs \<le> room w1" "wr_protocolVersion ops w1 \<noteq> 0" using w by auto
  then obtain w2 where "g w1 = Inr w2" "inv w2" "out w2 = out w1 @ cs"
      "room w2 = room w1 - length cs" "wr_protocolVersion ops w2 = wr_protocolVersion ops w1"
    using g [unfolded writes_def, THEN spec, of w1] w1(2) by auto
  with w1 show "\<exists>w'. then_save f g w = Inr w' \<and> inv w' \<and> out w' = out w @ bs @ cs \<and>
      room w' = room w - length (bs @ cs) \<and> wr_protocolVersion ops w' = wr_protocolVersion ops w"
    by (simp add: then_save_def)
qed

lemma writes_then_check: "writes bs f \<Longrightarrow> writes bs (then_save f (assert_wr_version ops))"
  using writes_then [OF _ writes_check] by simp

lemma writes_item [writes_intros]: "writes (item_bytes x) (save_item ops x)"
  by (simp add: save_item_def writes_binary)

lemma writes_class [writes_intros]: "writes bs f \<Longrightarrow> writes bs (save_class ops f)"
  by (simp add: save_class_def writes_then_check)

lemma writes_string [writes_intros]: "writes (enc_string s) (save_string ops s)"
  unfolding enc_string_def enc_count_def save_string_def
  by (intro writes_then writes_item writes_then_check writes_bytes)

lemma writes_pair [writes_intros]:
  assumes "writes (ea (fst p)) (sa (fst p))" and "writes (eb (snd p)) (sb (snd p))"
  shows "writes (enc_pair ea eb p) (save_pair sa sb p)"
  unfolding enc_pair_def save_pair_def using assms by (rule writes_then)

lemma writes_each:
  assumes "\<And>x. x \<in> set xs \<Longrightarrow> writes (enc x) (sv x)"
  shows "writes (concat (map enc xs)) (save_each sv xs)"
  using assms
proof (induction xs)
  case Nil
  then show ?case by (simp add: writes_def)
next
  case (Cons x xs)
  have "writes (enc x @ concat (map enc xs)) (then_save (sv x) (save_each sv xs))"
    using Cons by (intro writes_then) simp_all
  moreover have "save_each sv (x # xs) = then_save (sv x) (save_each sv xs)" by (rule ext) simp
  ultimately show ?case by simp
qed

lemma writes_vector [writes_intros]:
  assumes "\<And>x. x \<in> set xs \<Longrightarrow> writes (enc x) (sv x)"
  shows "writes (enc_list enc xs) (save_vector ops sv xs)"
  unfolding enc_list_def enc_count_def save_vector_def using assms
  by (intro writes_then writes_item writes_then_check writes_each)

lemma writes_set [writes_intros]:
  assumes "\<And>x. x \<in> set xs \<Longrightarrow> writes (enc x) (sv x)"
  shows "writes (enc_list enc xs) (save_set ops sv xs)"
  unfolding save_set_def using writes_vector [OF assms] by (simp add: save_vector_def)

lemma writes_array [writes_intros]:
  assumes "\<And>x. x \<in> set xs \<Longrightarrow> writes (enc x) (sv x)"
  shows "writes (concat (map enc xs)) (save_array ops sv xs)"
  unfolding save_array_def using assms by (intro writes_then_check writes_each)

lemma writes_map [writes_intros]:
  assumes "\<And>k v. (k, v) \<in> set xs \<Longrightarrow> writes (ek k) (sk k)"
    and "\<And>k v. (k, v) \<in> set xs \<Longrightarrow> writes (ev v) (sv v)"
  shows "writes (enc_list (enc_pair ek ev) xs) (save_map ops sk sv xs)"
  unfolding save_map_def enc_list_def enc_count_def
  by (intro writes_then writes_item writes_then_check writes_each)
     (use assms in \<open>auto simp: enc_pair_def intro!: writes_then\<close>)

lemma writes_StringRef [writes_intros]: "writes (enc_string s) (save_StringRef ops s)"
  unfolding enc_string_def enc_count_def save_StringRef_def
  by (intro writes_then writes_item writes_bytes)

lemma writes_VectorRef [writes_intros]:
  assumes "\<And>x. x \<in> set xs \<Longrightarrow> writes (enc x) (sv x)"
  shows "writes (enc_list enc xs) (save_VectorRef ops sv xs)"
  unfolding enc_list_def enc_count_def save_VectorRef_def using assms
  by (intro writes_then writes_item writes_each)

lemma writes_Optional [writes_intros]:
  assumes "\<And>y. x = Some y \<Longrightarrow> writes (enc y) (sv y)"
  shows "writes (enc_option enc x) (save_Optional ops sv x)"
proof (cases x)
  case None
  then show ?thesis
    using writes_then [OF writes_binary [of "[0]"] writes_skip]
    by (auto simp: enc_option_def save_Optional_def save_bool_def intro!: writes_class)
next
  case (Some y)
  then show ?thesis
    using writes_then [OF writes_binary [of "[1]"] assms [OF Some]]
    by (auto simp: enc_option_def save_Optional_def save_bool_def intro!: writes_class)
qed

lemma writes_Standalone [writes_intros]: "writes bs (sv x) \<Longrightarrow> writes bs (save_Standalone ops sv x)"
  by (simp add: save_Standalone_def writes_class)

text \<open>Writing the version and then a value, from an empty archive.\<close>

lemma write_versioned:
  assumes f: "writes bs f" and w: "inv w" "8 + length bs \<le> room w" and v: "v \<noteq> 0"
  shows "\<exists>w'. then_save (write_version ops (IncludeVersion v)) f w = Inr w' \<and> inv w' \<and>
    out w' = out w @ item_bytes v @ bs"
proof -
  let ?w = "wr_setProtocolVersion ops v w"
  have "writes (item_bytes v @ bs) (then_save (save_item ops v) f)"
    using f by (intro writes_then writes_item)
  moreover have "inv ?w" "length (item_bytes v @ bs) \<le> room ?w" "wr_protocolVersion ops ?w \<noteq> 0"
    using w v by (simp_all add: setProtocolVersion_ok)
  ultimately show ?thesis
    unfolding writes_def by (fastforce simp: then_save_def setProtocolVersion_ok)
qed

end

subsection \<open>What templates read\<close>

text \<open>
  A template reads an encoding when, on input that starts with it, it returns the value and leaves
  the rest, and on input that ends inside it, it fails the way the archive fails when it is read
  past its end.
\<close>

locale reader_archive =
  fixes ops :: "'r reader_ops"
    and inv :: "'r \<Rightarrow> bool"
    and rest :: "'r \<Rightarrow> bytes"
    and overrun :: fault
  assumes serializeBytes_ok:
      "inv r \<Longrightarrow> rest r = bs @ ys \<Longrightarrow> length bs < 2 ^ 31 \<Longrightarrow>
       \<exists>r'. rd_serializeBytes ops (int (length bs)) r = Inr (bs, r') \<and> inv r' \<and> rest r' = ys \<and>
            rd_protocolVersion ops r' = rd_protocolVersion ops r"
    and serializeBytes_short:
      "inv r \<Longrightarrow> length (rest r) < n \<Longrightarrow> n < 2 ^ 31 \<Longrightarrow> rd_serializeBytes ops (int n) r = Inl overrun"
    and serializeBinaryItem_eq:
      "inv r \<Longrightarrow> 0 \<le> m \<Longrightarrow> rd_serializeBinaryItem ops m r = rd_serializeBytes ops m r"
    and arenaRead_eq:
      "inv r \<Longrightarrow> 0 \<le> m \<Longrightarrow> rd_arenaRead ops m r = rd_serializeBytes ops m r"
    and setProtocolVersion_ok:
      "inv r \<Longrightarrow> inv (rd_setProtocolVersion ops v r)"
      "rest (rd_setProtocolVersion ops v r) = rest r"
      "rd_protocolVersion ops (rd_setProtocolVersion ops v r) = v"
begin

definition returns :: "('a, 'r) load_action \<Rightarrow> 'r \<Rightarrow> 'a \<Rightarrow> bytes \<Rightarrow> bool" where
  "returns g r x ys \<longleftrightarrow>
     (\<exists>r'. g r = Inr (x, r') \<and> inv r' \<and> rest r' = ys \<and>
           rd_protocolVersion ops r' = rd_protocolVersion ops r)"

definition reads :: "bytes \<Rightarrow> 'a \<Rightarrow> ('a, 'r) load_action \<Rightarrow> bool" where
  "reads bs x g \<longleftrightarrow>
     (\<forall>r. inv r \<and> rd_protocolVersion ops r \<noteq> 0 \<longrightarrow>
        (\<forall>ys. rest r = bs @ ys \<longrightarrow> returns g r x ys) \<and>
        (strict_prefix (rest r) bs \<longrightarrow> g r = Inl overrun))"

lemma reads_bytes:
  assumes "length bs < 2 ^ 31" and "n = int (length bs)"
  shows "reads bs bs (rd_serializeBytes ops n)"
  unfolding reads_def returns_def using assms serializeBytes_ok serializeBytes_short
  by (metis prefix_length_less)

lemma reads_cong:
  assumes "reads bs x g" and "\<And>r. inv r \<Longrightarrow> h r = g r"
  shows "reads bs x h"
  using assms by (simp add: reads_def returns_def)

lemma reads_return [reads_intros]: "reads [] x (return_load x)"
  by (simp add: reads_def returns_def return_load_def)

lemma reads_check [reads_intros]: "reads [] x (assert_rd_version ops x)"
  by (simp add: reads_def returns_def assert_rd_version_def)

lemma reads_then:
  assumes g: "reads bs x g" and h: "reads cs y (h x)"
  shows "reads (bs @ cs) y (then_load g h)"
  unfolding reads_def
proof (intro allI impI conjI)
  fix r assume r: "inv r \<and> rd_protocolVersion ops r \<noteq> 0"
  have after: "\<exists>r1. g r = Inr (x, r1) \<and> inv r1 \<and> rest r1 = zs \<and>
      rd_protocolVersion ops r1 = rd_protocolVersion ops r" if "rest r = bs @ zs" for zs
    using g r that unfolding reads_def returns_def by blast
  { fix ys assume "rest r = (bs @ cs) @ ys"
    then obtain r1 where "g r = Inr (x, r1)" "inv r1" "rest r1 = cs @ ys"
        "rd_protocolVersion ops r1 = rd_protocolVersion ops r"
      using after [of "cs @ ys"] by auto
    then show "returns (then_load g h) r y ys"
      using h r unfolding reads_def returns_def then_load_def by (metis bind_result_simps(2) case_prod_conv) }
  assume p: "strict_prefix (rest r) (bs @ cs)"
  show "then_load g h r = Inl overrun"
  proof (cases "prefix bs (rest r)")
    case True
    then obtain zs where zs: "rest r = bs @ zs" by (auto simp: prefix_def)
    then obtain r1 where r1: "g r = Inr (x, r1)" "inv r1" "rest r1 = zs"
        "rd_protocolVersion ops r1 = rd_protocolVersion ops r"
      using after by blast
    have "strict_prefix zs cs" using p zs by (simp add: strict_prefix_def)
    then have "h x r1 = Inl overrun" using h r r1 unfolding reads_def by simp
    then show ?thesis using r1(1) by (simp add: then_load_def)
  next
    case False
    have "prefix (rest r) (bs @ cs)" using p by (simp add: strict_prefix_def)
    then have "strict_prefix (rest r) bs"
      using False by (metis prefix_append prefix_order.dual_order.not_eq_order_implies_strict prefix_order.refl prefix_def)
    then have "g r = Inl overrun" using g r unfolding reads_def by simp
    then show ?thesis by (simp add: then_load_def)
  qed
qed

lemma reads_then_check: "reads bs x g \<Longrightarrow> reads bs x (then_load g (assert_rd_version ops))"
  using reads_then [where cs = "[]" and h = "assert_rd_version ops"] reads_check by fastforce

lemma reads_map:
  assumes "reads bs x g"
  shows "reads bs (f x) (then_load g (\<lambda>x. return_load (f x)))"
  using reads_then [OF assms reads_return, of f] by simp

lemma reads_binary:
  assumes "length bs < 2 ^ 31" and "n = int (length bs)"
  shows "reads bs bs (rd_serializeBinaryItem ops n)"
  using reads_bytes [OF assms] by (rule reads_cong) (simp add: serializeBinaryItem_eq assms(2))

lemma reads_arena:
  assumes "length bs < 2 ^ 31" and "n = int (length bs)"
  shows "reads bs bs (rd_arenaRead ops n)"
  using reads_bytes [OF assms] by (rule reads_cong) (simp add: arenaRead_eq assms(2))

lemma reads_item:
  fixes x :: "'a::len word"
  assumes "8 dvd LENGTH('a)" and "LENGTH('a) < 2 ^ 31"
  shows "reads (item_bytes x) x (load_item ops)"
proof -
  have "LENGTH('a) div 8 < 2 ^ 31" using assms(2) by (meson div_le_dividend le_less_trans)
  then have "reads (item_bytes x) (word_of_nat (le_val (item_bytes x)) :: 'a word) (load_item ops)"
    unfolding load_item_def by (intro reads_map reads_binary) simp_all
  then show ?thesis by (simp add: le_val_item_bytes [OF assms(1)])
qed

lemma reads_count:
  assumes "length xs < 2 ^ 31" and "reads bs y (h (word_of_nat (length xs) :: u32))"
  shows "reads (enc_count xs @ bs) y (then_load (load_item ops) h)"
  unfolding enc_count_def by (rule reads_then [where x = "word_of_nat (length xs)"])
    (use assms reads_item [where 'a = 32] in simp_all)

lemma reads_bool [reads_intros]: "reads [if b then 1 else 0] b (load_bool ops)"
proof -
  let ?bs = "[if b then 1 else 0] :: bytes"
  have "reads ?bs ?bs (rd_serializeBinaryItem ops 1)" by (rule reads_binary) simp_all
  then have "reads (?bs @ []) b (load_bool ops)"
    unfolding load_bool_def by (rule reads_then) (simp add: reads_def returns_def)
  then show ?thesis by simp
qed

lemma reads_class [reads_intros]: "reads bs x g \<Longrightarrow> reads bs x (load_class ops g)"
  by (simp add: load_class_def reads_then_check)

lemma reads_string [reads_intros]:
  assumes "length s < 2 ^ 31"
  shows "reads (enc_string s) s (load_string ops)"
  unfolding enc_string_def load_string_def
  by (intro reads_count) (use assms in \<open>simp_all add: count_u32 reads_then_check reads_bytes\<close>)

lemma reads_pair [reads_intros]:
  assumes "reads (ea (fst p)) (fst p) la" and "reads (eb (snd p)) (snd p) lb"
  shows "reads (enc_pair ea eb p) p (load_pair la lb)"
  unfolding enc_pair_def load_pair_def
  using reads_then [OF assms(1), of _ "p" "\<lambda>a. then_load lb (\<lambda>b. return_load (a, b))"]
    reads_map [OF assms(2), of "\<lambda>b. (fst p, b)"] by simp

lemma reads_each:
  assumes "\<And>x. x \<in> set xs \<Longrightarrow> reads (enc x) x ld"
  shows "reads (concat (map enc xs)) xs (load_each ld (length xs))"
  using assms
proof (induction xs)
  case Nil
  then show ?case by (simp add: reads_def returns_def)
next
  case (Cons x xs)
  have "reads (enc x @ concat (map enc xs)) (x # xs)
      (then_load ld (\<lambda>x. then_load (load_each ld (length xs)) (\<lambda>xs. return_load (x # xs))))"
    using Cons by (intro reads_then [where x = x] reads_map) simp_all
  moreover have "load_each ld (length (x # xs)) =
      then_load ld (\<lambda>x. then_load (load_each ld (length xs)) (\<lambda>xs. return_load (x # xs)))"
    by (rule ext) simp
  ultimately show ?case by simp
qed

lemma reads_vector [reads_intros]:
  assumes "length xs < 2 ^ 31" and "\<And>x. x \<in> set xs \<Longrightarrow> reads (enc x) x ld"
  shows "reads (enc_list enc xs) xs (load_vector ops ld)"
  unfolding enc_list_def load_vector_def
  by (intro reads_count) (use assms in \<open>simp_all add: count_u32 reads_then_check reads_each\<close>)

lemma reads_array [reads_intros]:
  assumes "\<And>x. x \<in> set xs \<Longrightarrow> reads (enc x) x ld"
  shows "reads (concat (map enc xs)) xs (load_array ops (length xs) ld)"
  unfolding load_array_def using assms by (intro reads_then_check reads_each)

lemma reads_set_loop:
  assumes "sorted_wrt lt (ys @ xs)" and "transp lt" and "irreflp lt"
    and "\<And>x. x \<in> set xs \<Longrightarrow> reads (enc x) x ld"
  shows "reads (concat (map enc xs)) (ys @ xs) (load_set_loop lt ld (length xs) ys)"
  using assms(1,4)
proof (induction xs arbitrary: ys)
  case Nil
  then show ?case by (simp add: reads_def returns_def)
next
  case (Cons x xs)
  have ins: "set_insert lt x ys = ys @ [x]"
    using Cons.prems(1) assms(2,3) by (intro set_insert_above) (auto simp: sorted_wrt_append)
  have "reads (concat (map enc xs)) ((ys @ [x]) @ xs) (load_set_loop lt ld (length xs) (ys @ [x]))"
    by (rule Cons.IH) (use Cons.prems in simp_all)
  then have "reads (enc x @ concat (map enc xs)) (ys @ x # xs)
      (then_load ld (\<lambda>x. load_set_loop lt ld (length xs) (set_insert lt x ys)))"
    using Cons.prems(2) by (intro reads_then [where x = x]) (simp_all add: ins)
  moreover have "load_set_loop lt ld (length (x # xs)) ys =
      then_load ld (\<lambda>x. load_set_loop lt ld (length xs) (set_insert lt x ys))"
    by (rule ext) simp
  ultimately show ?case by simp
qed

lemma reads_set [reads_intros]:
  assumes "length xs < 2 ^ 31" and "sorted_wrt lt xs" and "transp lt" and "irreflp lt"
    and "\<And>x. x \<in> set xs \<Longrightarrow> reads (enc x) x ld"
  shows "reads (enc_list enc xs) xs (load_set ops lt ld)"
  unfolding enc_list_def load_set_def
  by (intro reads_count)
     (use assms reads_set_loop [of lt "[]" xs enc ld] in \<open>simp_all add: count_u32 reads_then_check\<close>)

lemma reads_map_container [reads_intros]:
  assumes "length xs < 2 ^ 31" and "sorted_wrt lt (map fst xs)" and "transp lt" and "irreflp lt"
    and k: "\<And>k v. (k, v) \<in> set xs \<Longrightarrow> reads (ek k) k lk"
    and v: "\<And>k v. (k, v) \<in> set xs \<Longrightarrow> reads (ev v) v lv"
  shows "reads (enc_list (enc_pair ek ev) xs) xs (load_map ops lt lk lv)"
proof -
  let ?lt = "\<lambda>a b :: 'a \<times> 'b. lt (fst a) (fst b)"
  have lt: "sorted_wrt ?lt xs" "transp ?lt" "irreflp ?lt"
    using assms(2-4) by (auto simp: sorted_wrt_map transp_def irreflp_def)
  have "reads (enc_list (enc_pair ek ev) xs) xs (load_set ops ?lt (load_pair lk lv))"
    using assms(1) lt by (intro reads_set reads_pair) (use k v in auto)
  then show ?thesis by (simp add: load_set_def load_map_def load_pair_def)
qed

lemma reads_StringRef [reads_intros]:
  assumes "length s < 2 ^ 31"
  shows "reads (enc_string s) s (load_StringRef ops)"
  unfolding enc_string_def load_StringRef_def
  by (intro reads_count) (use assms in \<open>simp_all add: count_u32 reads_arena\<close>)

lemma reads_VectorRef [reads_intros]:
  assumes "length xs < 2 ^ 31" and "length xs * sizeof_T < 100 * 2 ^ 20"
    and "\<And>x. x \<in> set xs \<Longrightarrow> reads (enc x) x ld"
  shows "reads (enc_list enc xs) xs (load_VectorRef ops sizeof_T ld)"
  unfolding enc_list_def load_VectorRef_def
  by (intro reads_count) (use assms in \<open>simp_all add: count_u32 reads_each\<close>)

lemma reads_Optional [reads_intros]:
  assumes "\<And>y. x = Some y \<Longrightarrow> reads (enc y) y ld"
  shows "reads (enc_option enc x) x (load_Optional ops ld)"
proof -
  let ?h = "\<lambda>valid. if valid then then_load ld (\<lambda>x. return_load (Some x)) else return_load None"
  have "reads (enc_option enc x) x (then_load (load_bool ops) ?h)"
  proof (cases x)
    case None
    then show ?thesis
      using reads_then [OF reads_bool [of False], of "[]" x ?h] by (simp add: enc_option_def reads_return)
  next
    case (Some y)
    then show ?thesis
      using reads_then [OF reads_bool [of True], of "enc y" x ?h] reads_map [OF assms [OF Some], of Some]
      by (simp add: enc_option_def)
  qed
  then show ?thesis unfolding load_Optional_def by (rule reads_class)
qed

lemma reads_Standalone [reads_intros]: "reads bs x ld \<Longrightarrow> reads bs x (load_Standalone ops ld)"
  by (simp add: load_Standalone_def reads_class)

text \<open>
  Reading the version of an archive whose own version is not yet set, and then a value of it.
\<close>

lemma load_item_any_version:
  fixes x :: "'a::len word"
  assumes "8 dvd LENGTH('a)" and "LENGTH('a) < 2 ^ 31" and "inv r"
  shows "rest r = item_bytes x @ ys \<Longrightarrow> \<exists>r'. load_item ops r = Inr (x, r') \<and> inv r' \<and> rest r' = ys"
    and "length (rest r) < LENGTH('a) div 8 \<Longrightarrow>
      (load_item ops :: ('a word, 'r) load_action) r = Inl overrun"
proof -
  have n: "LENGTH('a) div 8 < 2 ^ 31" using assms(2) by (meson div_le_dividend le_less_trans)
  show "\<exists>r'. load_item ops r = Inr (x, r') \<and> inv r' \<and> rest r' = ys" if "rest r = item_bytes x @ ys"
    using serializeBytes_ok [OF assms(3) that] n
    by (auto simp: load_item_def then_load_def return_load_def serializeBinaryItem_eq assms(3)
        le_val_item_bytes [OF assms(1)])
  show "(load_item ops :: ('a word, 'r) load_action) r = Inl overrun"
    if "length (rest r) < LENGTH('a) div 8"
    using serializeBytes_short [OF assms(3) that n]
    by (simp add: load_item_def then_load_def serializeBinaryItem_eq assms(3))
qed

lemma read_version_ok:
  assumes "inv r" and "rest r = item_bytes v @ ys"
    and "minValidProtocolVersion \<le> v" and "v \<le> currentProtocolVersion"
  shows "\<exists>r'. read_version ops (IncludeVersion v') r = Inr r' \<and> inv r' \<and> rest r' = ys \<and>
    rd_protocolVersion ops r' = v"
proof -
  obtain r1 where "load_item ops r = Inr (v, r1)" "inv r1" "rest r1 = ys"
    using load_item_any_version(1) [OF _ _ assms(1,2)] by auto
  then show ?thesis using assms(3,4) by (simp add: setProtocolVersion_ok not_less)
qed

lemma read_version_rejects:
  assumes "inv r" and "rest r = item_bytes v @ ys"
    and "v < minValidProtocolVersion \<or> currentProtocolVersion < v"
  shows "read_version ops (IncludeVersion v') r = Inl (Thrown incompatible_protocol_version)"
proof -
  obtain r1 where "load_item ops r = Inr (v, r1)"
    using load_item_any_version(1) [OF _ _ assms(1,2)] by auto
  then show ?thesis using assms(3) by auto
qed

lemma version_nonzero: "minValidProtocolVersion \<le> v \<Longrightarrow> v \<noteq> 0"
  by (auto simp: minValidProtocolVersion_def)

text \<open>A versioned value: it is returned, and every truncation of it is refused.\<close>

lemma read_versioned:
  assumes g: "reads bs x g" and r: "inv r"
    and v: "minValidProtocolVersion \<le> v" "v \<le> currentProtocolVersion"
  shows "rest r = item_bytes v @ bs @ ys \<Longrightarrow>
      \<exists>r'. bind_result (read_version ops (IncludeVersion v') r) g = Inr (x, r') \<and> rest r' = ys"
    and "strict_prefix (rest r) (item_bytes v @ bs) \<Longrightarrow>
      bind_result (read_version ops (IncludeVersion v') r) g = Inl overrun"
proof -
  have run: "\<exists>r'. bind_result (read_version ops (IncludeVersion v') r) g = g r' \<and> inv r' \<and>
      rest r' = zs \<and> rd_protocolVersion ops r' \<noteq> 0" if "rest r = item_bytes v @ zs" for zs
    using read_version_ok [OF r that v, of v'] version_nonzero [OF v(1)]
    by (metis bind_result_simps(2))
  show "\<exists>r'. bind_result (read_version ops (IncludeVersion v') r) g = Inr (x, r') \<and> rest r' = ys"
    if "rest r = item_bytes v @ bs @ ys"
    using run [OF that] g unfolding reads_def returns_def by metis
  assume p: "strict_prefix (rest r) (item_bytes v @ bs)"
  show "bind_result (read_version ops (IncludeVersion v') r) g = Inl overrun"
  proof (cases "prefix (item_bytes v) (rest r)")
    case True
    then obtain zs where zs: "rest r = item_bytes v @ zs" by (auto simp: prefix_def)
    then have "strict_prefix zs bs" using p by (simp add: strict_prefix_def)
    then show ?thesis using run [OF zs] g unfolding reads_def by metis
  next
    case False
    have "length (rest r) < 8"
    proof (rule ccontr)
      assume "\<not> length (rest r) < 8"
      then have "length (item_bytes v) \<le> length (rest r)" by simp
      then show False
        using p False by (metis prefix_append prefix_length_prefix prefix_order.less_imp_le prefix_order.refl)
    qed
    then have "(load_item ops :: (u64, 'r) load_action) r = Inl overrun"
      using load_item_any_version(2) [where 'a = 64, OF _ _ r] by simp
    then show ?thesis by simp
  qed
qed

end

end
