(* ===== verification/Archives.thy ===== *)
theory Archives
  imports Serialize
begin

text \<open>
  The archives of \<open>src/flow/serialize.h\<close>: the growing \<open>BinaryWriter\<close>, the \<open>OverWriter\<close> that fills a
  \<open>SplitBuffer\<close> (\<open>src/flow/Net2Packet.cpp\<close>), and the readers \<open>ArenaReader\<close> and \<open>BinaryReader\<close>.
  Memory is a list of bytes, a slot that was never written being \<open>None\<close>; pointers are offsets into
  it, and a copy outside it is \<open>Undefined_behaviour\<close>.  The interpretations at the end of each part
  show that the archive meets the contract the templates rely on.
\<close>

definition INT_MAX :: int where
  "INT_MAX = 2147483647"

subsection \<open>BinaryWriter\<close>

record binary_writer =
  bw_data :: "u8 option list"
  bw_size :: int
  bw_allocated :: int
  bw_protocolVersion :: u64

text \<open>\<open>ArenaBlock\<close> has a 4-byte count, two bytes, padding, and three 4-byte fields.\<close>

definition sizeof_ArenaBlock :: int where
  "sizeof_ArenaBlock = 20"

definition arena_new_array :: "int \<Rightarrow> u8 option list result" where
  "arena_new_array n =
     (if n \<ge> INT_MAX then Inl Assert_failed
      else if n + sizeof_ArenaBlock > INT_MAX then Inl Undefined_behaviour
      else Inr (replicate (nat n) None))"

definition memcpy :: "'a list \<Rightarrow> int \<Rightarrow> 'a list \<Rightarrow> 'a list result" where
  "memcpy dest p src =
     (if 0 \<le> p \<and> p + int (length src) \<le> int (length dest)
      then Inr (take (nat p) dest @ src @ drop (nat p + length src) dest)
      else Inl Undefined_behaviour)"

definition binary_writer_new :: binary_writer where
  "binary_writer_new = \<lparr>bw_data = [], bw_size = 0, bw_allocated = 0, bw_protocolVersion = 0\<rparr>"

definition grown_allocation :: "int \<Rightarrow> int \<Rightarrow> int result" where
  "grown_allocation allocated sz =
     (if sz \<le> 512 - sizeof_ArenaBlock then Inr (512 - sizeof_ArenaBlock)
      else if sz \<le> 4096 - sizeof_ArenaBlock then Inr (4096 - sizeof_ArenaBlock)
      else if allocated * 2 > INT_MAX then Inl Undefined_behaviour
      else Inr (max (allocated * 2) sz))"

definition bw_writeBytes :: "int \<Rightarrow> binary_writer \<Rightarrow> (binary_writer \<times> int) result" where
  "bw_writeBytes s w =
     (let p = bw_size w; sz = p + s
      in if sz > INT_MAX then Inl Undefined_behaviour
         else if sz > bw_allocated w
         then bind_result (grown_allocation (bw_allocated w) sz) (\<lambda>allocated.
              bind_result (arena_new_array allocated) (\<lambda>fresh.
              bind_result (memcpy fresh 0 (take (nat p) (bw_data w))) (\<lambda>newData.
                Inr (w\<lparr>bw_data := newData, bw_size := sz, bw_allocated := allocated\<rparr>, p))))
         else Inr (w\<lparr>bw_size := sz\<rparr>, p))"

definition bw_serializeBytes :: "bytes \<Rightarrow> binary_writer \<Rightarrow> binary_writer result" where
  "bw_serializeBytes bs w =
     bind_result (bw_writeBytes (int (length bs)) w) (\<lambda>(w', p).
     bind_result (memcpy (bw_data w') p (map Some bs)) (\<lambda>d. Inr (w'\<lparr>bw_data := d\<rparr>)))"

definition bw_serializeBinaryItem :: "bytes \<Rightarrow> binary_writer \<Rightarrow> binary_writer result" where
  "bw_serializeBinaryItem item w =
     bind_result (bw_writeBytes (int (length item)) w) (\<lambda>(w', p).
     bind_result (memcpy (bw_data w') p (map Some item)) (\<lambda>d. Inr (w'\<lparr>bw_data := d\<rparr>)))"

definition binary_writer_ops :: "binary_writer writer_ops" where
  "binary_writer_ops =
     \<lparr>wr_serializeBytes = bw_serializeBytes, wr_serializeBinaryItem = bw_serializeBinaryItem,
      wr_protocolVersion = bw_protocolVersion,
      wr_setProtocolVersion = (\<lambda>v w. w\<lparr>bw_protocolVersion := v\<rparr>)\<rparr>"

text \<open>The bytes of a written archive; reading one that was never written is undefined.\<close>

definition bw_toValue :: "binary_writer \<Rightarrow> bytes result" where
  "bw_toValue w =
     (let d = take (nat (bw_size w)) (bw_data w)
      in if None \<in> set d \<or> int (length d) < bw_size w then Inl Undefined_behaviour
         else Inr (map the d))"

definition toValue :: "('a \<Rightarrow> binary_writer save_action) \<Rightarrow> 'a \<Rightarrow> version_option \<Rightarrow> bytes result" where
  "toValue sv t vo =
     bind_result (write_version binary_writer_ops vo binary_writer_new) (\<lambda>wr.
     bind_result (sv t wr) bw_toValue)"

definition bw_move :: "binary_writer \<Rightarrow> binary_writer \<times> binary_writer" where
  "bw_move rhs = (rhs, rhs\<lparr>bw_size := 0, bw_allocated := 0, bw_data := []\<rparr>)"

subsection \<open>SplitBuffer and OverWriter\<close>

record split_buffer =
  sb_begin_mem :: bytes
  sb_begin :: int
  sb_next_mem :: bytes
  sb_next :: int
  sb_first_length :: int

definition sb_write_at :: "bytes \<Rightarrow> int \<Rightarrow> split_buffer \<Rightarrow> split_buffer result" where
  "sb_write_at data offset b =
     (let len = int (length data); first = sb_first_length b
      in if len + offset \<le> first
         then bind_result (memcpy (sb_begin_mem b) (sb_begin b + offset) data) (\<lambda>m.
                Inr (b\<lparr>sb_begin_mem := m\<rparr>))
         else if offset \<ge> first
         then bind_result (memcpy (sb_next_mem b) (sb_next b + offset - first) data) (\<lambda>m.
                Inr (b\<lparr>sb_next_mem := m\<rparr>))
         else bind_result (memcpy (sb_begin_mem b) (sb_begin b + offset) (take (nat (first - offset)) data))
                (\<lambda>m. bind_result (memcpy (sb_next_mem b) (sb_next b) (drop (nat (first - offset)) data))
                (\<lambda>m'. Inr (b\<lparr>sb_begin_mem := m, sb_next_mem := m'\<rparr>))))"

definition sb_write :: "bytes \<Rightarrow> split_buffer \<Rightarrow> split_buffer result" where
  "sb_write data b = sb_write_at data 0 b"

definition sb_writeAndShrink :: "bytes \<Rightarrow> split_buffer \<Rightarrow> split_buffer result" where
  "sb_writeAndShrink data b =
     (let len = int (length data); first = sb_first_length b
      in if len \<le> first
         then bind_result (memcpy (sb_begin_mem b) (sb_begin b) data) (\<lambda>m.
                Inr (b\<lparr>sb_begin_mem := m, sb_begin := sb_begin b + len, sb_first_length := first - len\<rparr>))
         else bind_result (memcpy (sb_begin_mem b) (sb_begin b) (take (nat first) data)) (\<lambda>m.
              bind_result (memcpy (sb_next_mem b) (sb_next b) (drop (nat first) data)) (\<lambda>m'.
                Inr (b\<lparr>sb_begin_mem := m, sb_next_mem := m', sb_next := sb_next b + (len - first),
                       sb_first_length := 0\<rparr>))))"

record over_writer =
  ow_len :: int
  ow_buf :: split_buffer
  ow_protocolVersion :: u64

definition over_writer_split :: "split_buffer \<Rightarrow> over_writer" where
  "over_writer_split b = \<lparr>ow_len = INT_MAX, ow_buf = b, ow_protocolVersion = 0\<rparr>"

text \<open>Built on one block, the writer leaves \<open>buf.next\<close> unset: there is no second block.\<close>

definition over_writer_mem :: "bytes \<Rightarrow> over_writer" where
  "over_writer_mem m =
     \<lparr>ow_len = int (length m),
      ow_buf = \<lparr>sb_begin_mem = m, sb_begin = 0, sb_next_mem = [], sb_next = 0,
                sb_first_length = int (length m)\<rparr>,
      ow_protocolVersion = 0\<rparr>"

definition ow_writeBytes :: "bytes \<Rightarrow> over_writer \<Rightarrow> over_writer result" where
  "ow_writeBytes data w =
     bind_result (assert_that (int (length data) \<le> ow_len w)) (\<lambda>_.
     bind_result (sb_writeAndShrink data (ow_buf w)) (\<lambda>b.
       Inr (w\<lparr>ow_buf := b, ow_len := ow_len w - int (length data)\<rparr>)))"

definition over_writer_ops :: "over_writer writer_ops" where
  "over_writer_ops =
     \<lparr>wr_serializeBytes = ow_writeBytes, wr_serializeBinaryItem = ow_writeBytes,
      wr_protocolVersion = ow_protocolVersion,
      wr_setProtocolVersion = (\<lambda>v w. w\<lparr>ow_protocolVersion := v\<rparr>)\<rparr>"

subsection \<open>ArenaReader\<close>

text \<open>
  Pointers are offsets from the start of the input.  \<open>readBytes\<close> gives the bytes behind the pointer it
  returns.  A negative count passes the check and moves the read position back: that is defined while
  the position stays in the input, and there are no bytes then.  A copy of a negative number of bytes
  is undefined.  A \<open>StringRef\<close> of negative length is the empty string here.
\<close>

record arena_reader =
  ar_input :: bytes
  ar_begin :: int
  ar_end :: int
  ar_check :: "int option"
  ar_protocolVersion :: u64

definition ar_readBytes :: "int \<Rightarrow> arena_reader \<Rightarrow> (bytes \<times> arena_reader) result" where
  "ar_readBytes n r =
     (let b = ar_begin r; e = b + n
      in bind_result (assert_that (e \<le> ar_end r)) (\<lambda>_.
         if e < 0 then Inl Undefined_behaviour
         else Inr (take (nat n) (drop (nat b) (ar_input r)), r\<lparr>ar_begin := e\<rparr>)))"

definition ar_serializeBytes :: "int \<Rightarrow> arena_reader \<Rightarrow> (bytes \<times> arena_reader) result" where
  "ar_serializeBytes n r =
     bind_result (ar_readBytes n r) (\<lambda>x. if n < 0 then Inl Undefined_behaviour else Inr x)"

text \<open>A type has at least one byte.\<close>

definition ar_serializeBinaryItem :: "int \<Rightarrow> arena_reader \<Rightarrow> (bytes \<times> arena_reader) result" where
  "ar_serializeBinaryItem n r = ar_readBytes n r"

definition ar_arenaRead :: "int \<Rightarrow> arena_reader \<Rightarrow> (bytes \<times> arena_reader) result" where
  "ar_arenaRead n r = ar_readBytes n r"

definition ar_peekBytes :: "int \<Rightarrow> arena_reader \<Rightarrow> bytes result" where
  "ar_peekBytes n r =
     bind_result (assert_that (ar_begin r + n \<le> ar_end r)) (\<lambda>_.
       if ar_begin r + n < 0 then Inl Undefined_behaviour
       else Inr (take (nat n) (drop (nat (ar_begin r)) (ar_input r))))"

definition arena_reader_ops :: "arena_reader reader_ops" where
  "arena_reader_ops =
     \<lparr>rd_serializeBytes = ar_serializeBytes, rd_serializeBinaryItem = ar_serializeBinaryItem,
      rd_arenaRead = ar_arenaRead, rd_protocolVersion = ar_protocolVersion,
      rd_setProtocolVersion = (\<lambda>v r. r\<lparr>ar_protocolVersion := v\<rparr>)\<rparr>"

definition arena_reader_init :: "bytes \<Rightarrow> arena_reader" where
  "arena_reader_init input =
     \<lparr>ar_input = input, ar_begin = 0, ar_end = int (length input), ar_check = None,
      ar_protocolVersion = 0\<rparr>"

definition ArenaReader :: "bytes \<Rightarrow> version_option \<Rightarrow> arena_reader result" where
  "ArenaReader input vo = read_version arena_reader_ops vo (arena_reader_init input)"

definition ar_empty :: "arena_reader \<Rightarrow> bool" where
  "ar_empty r \<longleftrightarrow> ar_begin r = ar_end r"

definition ar_checkpoint :: "arena_reader \<Rightarrow> arena_reader" where
  "ar_checkpoint r = r\<lparr>ar_check := Some (ar_begin r)\<rparr>"

definition ar_rewind :: "arena_reader \<Rightarrow> arena_reader result" where
  "ar_rewind r =
     (case ar_check r of None \<Rightarrow> Inl Assert_failed
      | Some c \<Rightarrow> Inr (r\<lparr>ar_begin := c, ar_check := None\<rparr>))"

subsection \<open>BinaryReader\<close>

text \<open>
  \<open>br_check\<close> is \<open>None\<close> while the member is uninitialised.  The first argument of the operations says
  whether the network is simulated.
\<close>

record binary_reader =
  br_input :: bytes
  br_begin :: int
  br_end :: int
  br_check :: "int option option"
  br_protocolVersion :: u64

definition br_overrun :: "bool \<Rightarrow> fault" where
  "br_overrun isSimulated = (if isSimulated then Assert_failed else Thrown serialization_failed)"

definition br_readBytes :: "bool \<Rightarrow> int \<Rightarrow> binary_reader \<Rightarrow> (bytes \<times> binary_reader) result" where
  "br_readBytes isSimulated n r =
     (let b = br_begin r; e = b + n
      in if e > br_end r then Inl (br_overrun isSimulated)
         else if e < 0 then Inl Undefined_behaviour
         else Inr (take (nat n) (drop (nat b) (br_input r)), r\<lparr>br_begin := e\<rparr>))"

definition br_serializeBytes :: "bool \<Rightarrow> int \<Rightarrow> binary_reader \<Rightarrow> (bytes \<times> binary_reader) result" where
  "br_serializeBytes isSimulated n r =
     bind_result (br_readBytes isSimulated n r) (\<lambda>x. if n < 0 then Inl Undefined_behaviour else Inr x)"

definition br_serializeBinaryItem :: "bool \<Rightarrow> int \<Rightarrow> binary_reader \<Rightarrow> (bytes \<times> binary_reader) result" where
  "br_serializeBinaryItem isSimulated n r = br_readBytes isSimulated n r"

definition br_peekBytes :: "int \<Rightarrow> binary_reader \<Rightarrow> bytes result" where
  "br_peekBytes n r =
     bind_result (assert_that (br_begin r + n \<le> br_end r)) (\<lambda>_.
       if br_begin r + n < 0 then Inl Undefined_behaviour
       else Inr (take (nat n) (drop (nat (br_begin r)) (br_input r))))"

text \<open>A negative array size is a \<open>bad_array_new_length\<close>, a \<open>bad_alloc\<close>.\<close>

definition br_arenaRead :: "bool \<Rightarrow> int \<Rightarrow> binary_reader \<Rightarrow> (bytes \<times> binary_reader) result" where
  "br_arenaRead isSimulated n r =
     (if n = 0 then Inr ([], r)
      else if n < 0 then Inl Bad_alloc
      else br_serializeBytes isSimulated n r)"

definition binary_reader_ops :: "bool \<Rightarrow> binary_reader reader_ops" where
  "binary_reader_ops isSimulated =
     \<lparr>rd_serializeBytes = br_serializeBytes isSimulated, rd_serializeBinaryItem = br_serializeBinaryItem isSimulated,
      rd_arenaRead = br_arenaRead isSimulated, rd_protocolVersion = br_protocolVersion,
      rd_setProtocolVersion = (\<lambda>v r. r\<lparr>br_protocolVersion := v\<rparr>)\<rparr>"

definition binary_reader_init :: "int option option \<Rightarrow> bytes \<Rightarrow> binary_reader" where
  "binary_reader_init check input =
     \<lparr>br_input = input, br_begin = 0, br_end = int (length input), br_check = check,
      br_protocolVersion = 0\<rparr>"

definition BinaryReader_data :: "bool \<Rightarrow> bytes \<Rightarrow> version_option \<Rightarrow> binary_reader result" where
  "BinaryReader_data isSimulated input vo =
     read_version (binary_reader_ops isSimulated) vo (binary_reader_init (Some None) input)"

definition BinaryReader_StringRef :: "bool \<Rightarrow> bytes \<Rightarrow> version_option \<Rightarrow> binary_reader result" where
  "BinaryReader_StringRef isSimulated input vo =
     read_version (binary_reader_ops isSimulated) vo (binary_reader_init None input)"

text \<open>
  The reader and its arena end with this function.  The value it returns must own its bytes: \<open>StringRef\<close>s
  loaded into it point into the arena and dangle.
\<close>

definition fromStringRef ::
  "bool \<Rightarrow> ('a, binary_reader) load_action \<Rightarrow> bytes \<Rightarrow> version_option \<Rightarrow> 'a result" where
  "fromStringRef isSimulated ld sr vo =
     bind_result (BinaryReader_StringRef isSimulated sr vo) (\<lambda>r.
     bind_result (ld r) (\<lambda>(t, _). Inr t))"

definition br_assertEnd :: "binary_reader \<Rightarrow> unit result" where
  "br_assertEnd r = assert_that (br_begin r = br_end r)"

definition br_empty :: "binary_reader \<Rightarrow> bool" where
  "br_empty r \<longleftrightarrow> br_begin r = br_end r"

definition br_checkpoint :: "binary_reader \<Rightarrow> binary_reader" where
  "br_checkpoint r = r\<lparr>br_check := Some (Some (br_begin r))\<rparr>"

definition br_rewind :: "binary_reader \<Rightarrow> binary_reader result" where
  "br_rewind r =
     (case br_check r of
        None \<Rightarrow> Inl Undefined_behaviour
      | Some None \<Rightarrow> Inl Assert_failed
      | Some (Some c) \<Rightarrow> Inr (r\<lparr>br_begin := c, br_check := Some None\<rparr>))"

subsection \<open>Copies\<close>

lemma memcpy_Inr:
  "0 \<le> p \<Longrightarrow> p + int (length src) \<le> int (length dest) \<Longrightarrow>
   memcpy dest p src = Inr (take (nat p) dest @ src @ drop (nat p + length src) dest)"
  by (simp add: memcpy_def)

lemma memcpy_prefix:
  assumes "memcpy dest p src = Inr d"
  shows "length d = length dest" and "take (nat p + length src) d = take (nat p) dest @ src"
proof -
  have d: "d = take (nat p) dest @ src @ drop (nat p + length src) dest"
    and n: "nat p + length src \<le> length dest"
    using assms by (auto simp: memcpy_def split: if_splits)
  then have "min (length dest) (nat p) = nat p" by simp
  then show "length d = length dest" and "take (nat p + length src) d = take (nat p) dest @ src"
    using n by (simp_all add: d)
qed

subsection \<open>BinaryWriter appends\<close>

definition bw_inv :: "binary_writer \<Rightarrow> bool" where
  "bw_inv w \<longleftrightarrow>
     0 \<le> bw_size w \<and> bw_size w \<le> bw_allocated w \<and> bw_allocated w \<le> 2 ^ 30 \<and>
     int (length (bw_data w)) = bw_allocated w \<and> None \<notin> set (take (nat (bw_size w)) (bw_data w))"

definition bw_out :: "binary_writer \<Rightarrow> bytes" where
  "bw_out w = map the (take (nat (bw_size w)) (bw_data w))"

definition bw_room :: "binary_writer \<Rightarrow> nat" where
  "bw_room w = 2 ^ 29 - nat (bw_size w)"

lemma bw_writeBytes_ok:
  assumes w: "bw_inv w" and n: "n \<le> bw_room w"
  shows "\<exists>w'. bw_writeBytes (int n) w = Inr (w', bw_size w) \<and>
    bw_size w' = bw_size w + int n \<and> bw_size w' \<le> bw_allocated w' \<and> bw_allocated w' \<le> 2 ^ 30 \<and>
    int (length (bw_data w')) = bw_allocated w' \<and>
    take (nat (bw_size w)) (bw_data w') = take (nat (bw_size w)) (bw_data w) \<and>
    bw_protocolVersion w' = bw_protocolVersion w"
proof (cases "bw_size w + int n > bw_allocated w")
  case False
  have "bw_size w + int n \<le> INT_MAX" using False w by (simp add: bw_inv_def INT_MAX_def)
  then show ?thesis using False w by (simp add: bw_writeBytes_def bw_inv_def Let_def)
next
  case True
  let ?size = "bw_size w + int n"
  have n29: "?size \<le> 2 ^ 29" if "n > 0"
    using n w that by (simp add: bw_room_def bw_inv_def)
  have "n > 0" using True w by (cases n) (simp_all add: bw_inv_def)
  then have s: "?size \<le> 2 ^ 29" "bw_allocated w < 2 ^ 29" using n29 True by simp_all
  then have "\<exists>a. grown_allocation (bw_allocated w) ?size = Inr a \<and> ?size \<le> a \<and> a \<le> 2 ^ 30"
    by (auto simp: grown_allocation_def INT_MAX_def sizeof_ArenaBlock_def)
  then obtain a where a: "grown_allocation (bw_allocated w) ?size = Inr a" "?size \<le> a" "a \<le> 2 ^ 30"
    by blast
  have "arena_new_array a = Inr (replicate (nat a) None)"
    using a(3) by (simp add: arena_new_array_def INT_MAX_def sizeof_ArenaBlock_def)
  moreover have p: "nat (bw_size w) \<le> length (bw_data w)" "bw_size w \<le> a" "0 \<le> bw_size w"
    using w a(2) by (auto simp: bw_inv_def)
  moreover have "memcpy (replicate (nat a) None) 0 (take (nat (bw_size w)) (bw_data w)) =
      Inr (take (nat (bw_size w)) (bw_data w) @ replicate (nat a - nat (bw_size w)) None)"
    using p by (simp add: memcpy_def min_def)
  moreover have "\<not> ?size > INT_MAX" using s by (simp add: INT_MAX_def)
  ultimately show ?thesis using True a by (simp add: bw_writeBytes_def min_def Let_def)
qed

lemma bw_serializeBytes_ok:
  assumes w: "bw_inv w" and n: "length bs \<le> bw_room w"
  shows "\<exists>w'. bw_serializeBytes bs w = Inr w' \<and> bw_inv w' \<and> bw_out w' = bw_out w @ bs \<and>
    bw_room w' = bw_room w - length bs \<and> bw_protocolVersion w' = bw_protocolVersion w"
proof -
  obtain w1 where w1: "bw_writeBytes (int (length bs)) w = Inr (w1, bw_size w)"
      "bw_size w1 = bw_size w + int (length bs)" "bw_size w1 \<le> bw_allocated w1"
      "bw_allocated w1 \<le> 2 ^ 30" "int (length (bw_data w1)) = bw_allocated w1"
      "take (nat (bw_size w)) (bw_data w1) = take (nat (bw_size w)) (bw_data w)"
      "bw_protocolVersion w1 = bw_protocolVersion w"
    using bw_writeBytes_ok [OF w n] by blast
  have s: "0 \<le> bw_size w" using w by (simp add: bw_inv_def)
  then obtain d where d: "memcpy (bw_data w1) (bw_size w) (map Some bs) = Inr d"
    using w1 by (simp add: memcpy_def)
  have n1: "nat (bw_size w1) = nat (bw_size w) + length bs" using s w1(2) by simp
  have t: "take (nat (bw_size w1)) d = take (nat (bw_size w)) (bw_data w) @ map Some bs"
    using memcpy_prefix(2) [OF d] w1(6) by (simp add: n1)
  have "bw_inv (w1\<lparr>bw_data := d\<rparr>)"
    using w w1 s t memcpy_prefix(1) [OF d] by (auto simp: bw_inv_def)
  moreover have "bw_out (w1\<lparr>bw_data := d\<rparr>) = bw_out w @ bs"
    by (simp add: bw_out_def t comp_def)
  moreover have "bw_room (w1\<lparr>bw_data := d\<rparr>) = bw_room w - length bs"
    by (simp add: bw_room_def n1)
  ultimately show ?thesis using w1 d by (simp add: bw_serializeBytes_def)
qed

interpretation bw: writer_archive binary_writer_ops bw_inv bw_out bw_room
proof (unfold_locales, goal_cases)
  case (1 w bs)
  then show ?case using bw_serializeBytes_ok by (simp add: binary_writer_ops_def)
next
  case (2 w bs)
  have "bw_serializeBinaryItem = bw_serializeBytes"
    by (intro ext) (simp add: bw_serializeBinaryItem_def bw_serializeBytes_def)
  then show ?case using 2 bw_serializeBytes_ok by (simp add: binary_writer_ops_def)
qed (simp_all add: binary_writer_ops_def bw_inv_def bw_out_def bw_room_def)

lemma bw_toValue_ok: "bw_inv w \<Longrightarrow> bw_toValue w = Inr (bw_out w)"
  by (auto simp: bw_toValue_def bw_inv_def bw_out_def Let_def min_def)

lemma toValue_ok:
  assumes "bw.writes bs (sv x)" and "8 + length bs \<le> 2 ^ 29" and "v \<noteq> 0"
  shows "toValue sv x (IncludeVersion v) = Inr (item_bytes v @ bs)"
proof -
  have new: "bw_inv binary_writer_new" "bw_out binary_writer_new = []"
      "bw_room binary_writer_new = 2 ^ 29"
    by (simp_all add: binary_writer_new_def bw_inv_def bw_out_def bw_room_def)
  obtain w' where "then_save (write_version binary_writer_ops (IncludeVersion v)) (sv x)
      binary_writer_new = Inr w'" "bw_inv w'" "bw_out w' = item_bytes v @ bs"
    using bw.write_versioned [OF assms(1) new(1) _ assms(3)] assms(2) new by auto
  then show ?thesis
    by (auto simp: toValue_def then_save_def result_simps bw_toValue_ok simp del: write_version.simps)
qed
subsection \<open>OverWriter overwrites\<close>

text \<open>
  The first block is full once the second is written to; \<open>begin\<close> is then no longer advanced.
\<close>

definition ow_inv :: "over_writer \<Rightarrow> bool" where
  "ow_inv w \<longleftrightarrow>
     (let b = ow_buf w
      in 0 \<le> sb_begin b \<and> 0 \<le> sb_first_length b \<and> 0 \<le> sb_next b \<and> 0 \<le> ow_len w \<and>
         sb_begin b + sb_first_length b \<le> int (length (sb_begin_mem b)) \<and>
         sb_next b \<le> int (length (sb_next_mem b)) \<and>
         (if sb_next b = 0 then sb_begin b + sb_first_length b = int (length (sb_begin_mem b))
          else sb_first_length b = 0))"

definition ow_out :: "over_writer \<Rightarrow> bytes" where
  "ow_out w =
     (let b = ow_buf w
      in if sb_next b = 0 then take (nat (sb_begin b)) (sb_begin_mem b)
         else sb_begin_mem b @ take (nat (sb_next b)) (sb_next_mem b))"

definition ow_room :: "over_writer \<Rightarrow> nat" where
  "ow_room w =
     (let b = ow_buf w
      in nat (min (ow_len w) (sb_first_length b + (int (length (sb_next_mem b)) - sb_next b))))"

lemma ow_writeBytes_ok:
  assumes w: "ow_inv w" and n: "length bs \<le> ow_room w"
  shows "\<exists>w'. ow_writeBytes bs w = Inr w' \<and> ow_inv w' \<and> ow_out w' = ow_out w @ bs \<and>
    ow_room w' = ow_room w - length bs \<and> ow_protocolVersion w' = ow_protocolVersion w"
proof -
  obtain m p m' p' k where b: "ow_buf w = \<lparr>sb_begin_mem = m, sb_begin = p, sb_next_mem = m',
      sb_next = p', sb_first_length = k\<rparr>" by (cases "ow_buf w") auto
  have i: "0 \<le> p" "0 \<le> k" "0 \<le> p'" "p + k \<le> int (length m)" "p' \<le> int (length m')"
      "p' = 0 \<Longrightarrow> p + k = int (length m)" "p' \<noteq> 0 \<Longrightarrow> k = 0" "0 \<le> ow_len w"
    using w b by (auto simp: ow_inv_def Let_def split: if_splits)
  have len: "int (length bs) \<le> ow_len w" "int (length bs) \<le> k + (int (length m') - p')"
    using n i b by (auto simp: ow_room_def Let_def)
  show ?thesis
  proof (cases "int (length bs) \<le> k")
    case True
    have c: "p' = 0 \<or> bs = []" using i(7) True by (cases "p' = 0") simp_all
    obtain d where d: "memcpy m p bs = Inr d" using i True by (simp add: memcpy_def)
    let ?w = "w\<lparr>ow_buf := \<lparr>sb_begin_mem = d, sb_begin = p + int (length bs), sb_next_mem = m',
        sb_next = p', sb_first_length = k - int (length bs)\<rparr>, ow_len := ow_len w - int (length bs)\<rparr>"
    have "nat (p + int (length bs)) = nat p + length bs" using i by simp
    then have "take (nat (p + int (length bs))) d = take (nat p) m @ bs"
      using memcpy_prefix(2) [OF d] by simp
    moreover have "d = m" if "bs = []" using d that i by (simp add: memcpy_def split: if_splits)
    ultimately have "ow_out ?w = ow_out w @ bs" using c by (auto simp: ow_out_def b Let_def)
    moreover have "ow_inv ?w" using i True len c memcpy_prefix(1) [OF d] by (auto simp: ow_inv_def Let_def)
    moreover have "ow_room ?w = ow_room w - length bs" using b by (simp add: ow_room_def Let_def)
    moreover have "ow_writeBytes bs w = Inr ?w"
      using len(1) True d by (simp add: ow_writeBytes_def sb_writeAndShrink_def b Let_def)
    ultimately show ?thesis by (intro exI [of _ ?w]) simp
  next
    case False
    have first: "int (length (take (nat k) bs)) = k" using False i by simp
    then obtain d where d: "memcpy m p (take (nat k) bs) = Inr d" using i by (simp add: memcpy_def)
    have rest: "int (length (drop (nat k) bs)) = int (length bs) - k" using False i by simp
    then obtain d' where d': "memcpy m' p' (drop (nat k) bs) = Inr d'"
      using i len by (simp add: memcpy_def)
    let ?w = "w\<lparr>ow_buf := \<lparr>sb_begin_mem = d, sb_begin = p, sb_next_mem = d',
        sb_next = p' + (int (length bs) - k), sb_first_length = 0\<rparr>, ow_len := ow_len w - int (length bs)\<rparr>"
    have "nat (p' + (int (length bs) - k)) = nat p' + length (drop (nat k) bs)" using i False by simp
    then have second: "take (nat (p' + (int (length bs) - k))) d' = take (nat p') m' @ drop (nat k) bs"
      using memcpy_prefix(2) [OF d'] by simp
    have fill: "d = take (nat p) m @ take (nat k) bs" if "p' = 0"
      using d i(1,2) i(6) [OF that] first by (auto simp: memcpy_def split: if_splits)
    have keep: "d = m" if "p' \<noteq> 0"
      using d i(1) i(7) [OF that] by (auto simp: memcpy_def split: if_splits)
    have "ow_out ?w = ow_out w @ bs"
      using i(3,7) False fill keep second by (cases "p' = 0") (auto simp: ow_out_def b Let_def)
    moreover have "ow_inv ?w"
      using i False len memcpy_prefix(1) [OF d] memcpy_prefix(1) [OF d'] by (auto simp: ow_inv_def Let_def)
    moreover have "ow_room ?w = ow_room w - length bs"
      using b memcpy_prefix(1) [OF d'] by (simp add: ow_room_def Let_def)
    moreover have "ow_writeBytes bs w = Inr ?w"
      using len(1) False d d' by (simp add: ow_writeBytes_def sb_writeAndShrink_def b Let_def)
    ultimately show ?thesis by (intro exI [of _ ?w]) simp
  qed
qed

interpretation ow: writer_archive over_writer_ops ow_inv ow_out ow_room
  by unfold_locales
     (use ow_writeBytes_ok in \<open>auto simp: over_writer_ops_def ow_inv_def ow_out_def ow_room_def\<close>)

subsection \<open>The readers read\<close>

definition ar_inv :: "arena_reader \<Rightarrow> bool" where
  "ar_inv r \<longleftrightarrow> 0 \<le> ar_begin r \<and> ar_begin r \<le> ar_end r \<and> ar_end r = int (length (ar_input r))"

definition ar_rest :: "arena_reader \<Rightarrow> bytes" where
  "ar_rest r = drop (nat (ar_begin r)) (ar_input r)"

definition br_inv :: "binary_reader \<Rightarrow> bool" where
  "br_inv r \<longleftrightarrow> 0 \<le> br_begin r \<and> br_begin r \<le> br_end r \<and> br_end r = int (length (br_input r))"

definition br_rest :: "binary_reader \<Rightarrow> bytes" where
  "br_rest r = drop (nat (br_begin r)) (br_input r)"

text \<open>Taking \<open>bs\<close> off the front of what is left of the input.\<close>

lemma drop_eq_append:
  assumes "drop b xs = bs @ ys" and "b \<le> length xs"
  shows "take (length bs) (drop b xs) = bs" and "b + length bs \<le> length xs"
    and "drop (b + length bs) xs = ys"
proof -
  have "length xs - b = length bs + length ys" using arg_cong [OF assms(1), of length] by simp
  then show "b + length bs \<le> length xs" using assms(2) by linarith
  show "take (length bs) (drop b xs) = bs" using assms(1) by simp
  have "drop (length bs) (drop b xs) = ys" using assms(1) by simp
  then show "drop (b + length bs) xs = ys" by (simp add: add.commute)
qed

lemma bind_result_Inr [simp]: "bind_result x Inr = x"
  by (cases x) simp_all

lemmas ar_read_defs = ar_serializeBytes_def ar_serializeBinaryItem_def ar_arenaRead_def ar_readBytes_def
lemmas br_read_defs = br_serializeBytes_def br_serializeBinaryItem_def br_readBytes_def

interpretation ar: reader_archive arena_reader_ops ar_inv ar_rest Assert_failed
proof (unfold_locales, goal_cases)
  case (1 r bs ys)
  then have b: "nat (ar_begin r) \<le> length (ar_input r)" by (auto simp: ar_inv_def)
  note d = drop_eq_append [OF 1(2) [unfolded ar_rest_def] b]
  have "nat (ar_begin r + int (length bs)) = nat (ar_begin r) + length bs"
    using 1(1) by (auto simp: ar_inv_def)
  then show ?case
    using 1(1) d by (auto simp: arena_reader_ops_def ar_read_defs ar_inv_def ar_rest_def Let_def)
next
  case (2 r n)
  then have "ar_begin r + int n > ar_end r" by (auto simp: ar_inv_def ar_rest_def)
  then show ?case by (simp add: arena_reader_ops_def ar_read_defs Let_def)
qed (simp_all add: arena_reader_ops_def ar_inv_def ar_rest_def ar_read_defs Let_def)

interpretation br: reader_archive "binary_reader_ops sim" br_inv br_rest "br_overrun sim" for sim
proof (unfold_locales, goal_cases)
  case (1 r bs ys)
  then have b: "nat (br_begin r) \<le> length (br_input r)" by (auto simp: br_inv_def)
  note d = drop_eq_append [OF 1(2) [unfolded br_rest_def] b]
  have "nat (br_begin r + int (length bs)) = nat (br_begin r) + length bs"
    using 1(1) by (auto simp: br_inv_def)
  then show ?case
    using 1(1) d by (auto simp: binary_reader_ops_def br_read_defs br_inv_def br_rest_def Let_def)
next
  case (2 r n)
  then have "br_begin r + int n > br_end r" by (auto simp: br_inv_def br_rest_def)
  then show ?case by (simp add: binary_reader_ops_def br_read_defs Let_def)
next
  case (4 r m)
  then show ?case by (auto simp: binary_reader_ops_def br_arenaRead_def br_read_defs br_inv_def Let_def)
qed (simp_all add: binary_reader_ops_def br_inv_def br_rest_def br_read_defs Let_def)
lemma fromStringRef_ok:
  assumes "br.reads sim bs x ld" and v: "minValidProtocolVersion \<le> v" "v \<le> currentProtocolVersion"
  shows "fromStringRef sim ld (item_bytes v @ bs) (IncludeVersion v') = Inr x"
    and "strict_prefix zs (item_bytes v @ bs) \<Longrightarrow>
      fromStringRef sim ld zs (IncludeVersion v') = Inl (br_overrun sim)"
proof -
  have init: "br_inv (binary_reader_init None input)" "br_rest (binary_reader_init None input) = input"
    for input by (simp_all add: binary_reader_init_def br_inv_def br_rest_def)
  have from_def: "fromStringRef sim ld input vo =
      bind_result (bind_result (read_version (binary_reader_ops sim) vo (binary_reader_init None input)) ld)
        (\<lambda>(t, _). Inr t)" for input vo
    by (cases "read_version (binary_reader_ops sim) vo (binary_reader_init None input)")
       (simp_all add: fromStringRef_def BinaryReader_StringRef_def)
  show "fromStringRef sim ld (item_bytes v @ bs) (IncludeVersion v') = Inr x"
    using br.read_versioned(1) [OF assms(1) init(1) v, of "item_bytes v @ bs" "[]" v']
    by (auto simp: from_def init(2) simp del: read_version.simps)
  show "fromStringRef sim ld zs (IncludeVersion v') = Inl (br_overrun sim)"
    if "strict_prefix zs (item_bytes v @ bs)"
    using br.read_versioned(2) [OF assms(1) init(1) v, of zs v'] that
    by (simp add: from_def init(2) del: read_version.simps)
qed

subsection \<open>A template instance\<close>

text \<open>
  The templates at \<open>std::map<std::string, std::vector<std::pair<uint32_t, Optional<std::string>>>>\<close>,
  a value that owns all its bytes.
  \<open>std::string\<close> compares its characters as unsigned bytes.
\<close>

fun string_less :: "bytes \<Rightarrow> bytes \<Rightarrow> bool" where
  "string_less xs [] \<longleftrightarrow> False"
| "string_less [] (y # ys) \<longleftrightarrow> True"
| "string_less (x # xs) (y # ys) \<longleftrightarrow> x < y \<or> (x = y \<and> string_less xs ys)"

lemma string_less_irrefl: "\<not> string_less xs xs"
  by (induction xs) simp_all

lemma string_less_trans: "string_less xs ys \<Longrightarrow> string_less ys zs \<Longrightarrow> string_less xs zs"
proof (induction xs ys arbitrary: zs rule: string_less.induct)
  case (2 y ys)
  then show ?case by (cases zs) simp_all
next
  case (3 x xs y ys)
  then show ?case by (cases zs) auto
qed simp

lemma string_less_order: "transp string_less" "irreflp string_less"
  using string_less_trans string_less_irrefl by (auto simp: transp_def irreflp_def)

type_synonym rows = "(bytes \<times> (u32 \<times> bytes option) list) list"

definition save_rows :: "'w writer_ops \<Rightarrow> rows \<Rightarrow> 'w save_action" where
  "save_rows ops = save_map ops (save_string ops)
     (save_vector ops (save_pair (save_item ops) (save_Optional ops (save_string ops))))"

definition load_rows :: "'r reader_ops \<Rightarrow> (rows, 'r) load_action" where
  "load_rows ops = load_map ops string_less (load_string ops)
     (load_vector ops (load_pair (load_item ops) (load_Optional ops (load_string ops))))"

definition enc_rows :: "rows \<Rightarrow> bytes" where
  "enc_rows = enc_list (enc_pair enc_string (enc_list (enc_pair item_bytes (enc_option enc_string))))"

lemma length_concat_ge: "x \<in> set xs \<Longrightarrow> length (enc x) \<le> length (concat (map enc xs))"
  by (induction xs) auto

lemma length_list_ge:
  "(\<And>x. x \<in> set xs \<Longrightarrow> 0 < length (enc x)) \<Longrightarrow> length xs \<le> length (concat (map enc xs))"
proof (induction xs)
  case (Cons x xs)
  then have "0 < length (enc x)" "length xs \<le> length (concat (map enc xs))" by simp_all
  then have "1 + length xs \<le> length (enc x) + length (concat (map enc xs))" by linarith
  then show ?case by simp
qed simp

lemma length_enc_list:
  assumes "\<And>x. x \<in> set xs \<Longrightarrow> 0 < length (enc x)"
  shows "length xs \<le> length (enc_list enc xs)"
    and "x \<in> set xs \<Longrightarrow> length (enc x) \<le> length (enc_list enc xs)"
  using length_list_ge [of xs enc] assms length_concat_ge [of x xs enc]
  by (simp_all add: enc_list_def le_SucI trans_le_add2)

lemma length_enc_parts:
  "length (enc_string s) = 4 + length s"
  "length (enc_option enc (Some y)) = Suc (length (enc y))"
  "0 < length (enc_list enc xs)"
  "length (enc_pair ea eb p) = length (ea (fst p)) + length (eb (snd p))"
  by (simp_all add: enc_string_def enc_count_def enc_option_def enc_list_def enc_pair_def)

context writer_archive
begin

lemma writes_rows: "writes (enc_rows m) (save_rows ops m)"
  unfolding enc_rows_def save_rows_def by (intro writes_intros)

end

context reader_archive
begin

lemma reads_rows:
  assumes "sorted_wrt string_less (map fst m)" and "length (enc_rows m) < 2 ^ 31"
  shows "reads (enc_rows m) m (load_rows ops)"
proof -
  let ?ei = "enc_pair item_bytes (enc_option enc_string) :: u32 \<times> bytes option \<Rightarrow> bytes"
  have item: "0 < length (?ei i)" for i by (simp add: length_enc_parts)
  have row: "0 < length (enc_pair enc_string (enc_list ?ei) r)" for r
    by (simp add: length_enc_parts)
  note rows = length_enc_list [of m "enc_pair enc_string (enc_list ?ei)", OF row,
      folded enc_rows_def, unfolded length_enc_parts(4)]
  have key: "length k < 2 ^ 31" and cell: "length (enc_list ?ei v) < 2 ^ 31"
    if "(k, v) \<in> set m" for k v
    using rows(2) [OF that] assms(2) by (simp_all add: length_enc_parts)
  have str: "length s < 2 ^ 31" if "(i, Some s) \<in> set v" "(k, v) \<in> set m" for i s k v
    using length_enc_list(2) [of v ?ei, OF item that(1)] cell [OF that(2)] by (simp add: length_enc_parts)
  have vec: "length v < 2 ^ 31" if "(k, v) \<in> set m" for k v
    using length_enc_list(1) [of v ?ei, OF item] cell [OF that] by simp
  have "reads (enc_option enc_string (snd x)) (snd x) (load_Optional ops (load_string ops))"
    if "x \<in> set v" "(k, v) \<in> set m" for x k v
    using str [OF _ that(2)] that(1) by (intro reads_Optional reads_string) (metis prod.collapse)
  then show ?thesis
    unfolding enc_rows_def load_rows_def
    using assms(1) string_less_order rows(1) assms(2) key vec
    by (intro reads_map_container reads_string reads_vector reads_pair reads_item) auto
qed

end

subsection \<open>Properties\<close>

text \<open>
  Property C24: a nested container written by \<open>BinaryWriter::toValue\<close> with its protocol version is read
  back by \<open>BinaryReader::fromStringRef\<close> as the same value, and every truncation of the bytes is
  refused: with \<open>serialization_failed\<close>, or a failed assertion in simulation.
\<close>

theorem serialize_roundtrip:
  assumes "sorted_wrt string_less (map fst m)" and "length (enc_rows m) + 8 \<le> 2 ^ 29"
    and "minValidProtocolVersion \<le> v" and "v \<le> currentProtocolVersion"
  shows "\<exists>bs. toValue (save_rows binary_writer_ops) m (IncludeVersion v) = Inr bs \<and>
    fromStringRef sim (load_rows (binary_reader_ops sim)) bs (IncludeVersion v') = Inr m \<and>
    (\<forall>zs. strict_prefix zs bs \<longrightarrow>
       fromStringRef sim (load_rows (binary_reader_ops sim)) zs (IncludeVersion v') =
         Inl (if sim then Assert_failed else Thrown serialization_failed))"
proof -
  have v: "v \<noteq> 0" using assms(3) by (auto simp: minValidProtocolVersion_def)
  have "toValue (save_rows binary_writer_ops) m (IncludeVersion v) = Inr (item_bytes v @ enc_rows m)"
    using bw.writes_rows assms(2) v by (intro toValue_ok) simp_all
  moreover have "br.reads sim (enc_rows m) m (load_rows (binary_reader_ops sim))"
    using assms(1,2) by (intro br.reads_rows) simp_all
  note r = fromStringRef_ok [OF this assms(3,4), where v' = v', unfolded br_overrun_def]
  ultimately show ?thesis using r by (intro exI [of _ "item_bytes v @ enc_rows m"]) simp
qed

theorem serialize_roundtrip_witness:
  "\<exists>bs. toValue (save_rows binary_writer_ops) [([97], [(7, Some [1, 2])]), ([98], [(8, None)])]
      (IncludeVersion currentProtocolVersion) = Inr bs \<and>
    fromStringRef False (load_rows (binary_reader_ops False)) bs (IncludeVersion 0) =
      Inr [([97], [(7, Some [1, 2])]), ([98], [(8, None)])]"
  using serialize_roundtrip [of "[([97], [(7, Some [1, 2])]), ([98], [(8, None)])]"
      currentProtocolVersion False 0]
  by (auto simp: enc_rows_def enc_list_def enc_pair_def enc_string_def enc_option_def enc_count_def
      currentProtocolVersion_def minValidProtocolVersion_def)

text \<open>
  An archive read with \<open>IncludeVersion\<close> whose recorded protocol version is below the
  oldest valid one or above the current one is refused with \<open>incompatible_protocol_version\<close>,
  whatever follows and whichever reader is used, before any value is loaded; input shorter than a
  version fails as an overrun.
\<close>

theorem version_errors:
  assumes "v < minValidProtocolVersion \<or> currentProtocolVersion < v" and "length zs < 8"
  shows "ArenaReader (item_bytes v @ ys) (IncludeVersion v') = Inl (Thrown incompatible_protocol_version) \<and>
    BinaryReader_data sim (item_bytes v @ ys) (IncludeVersion v') =
      Inl (Thrown incompatible_protocol_version) \<and>
    fromStringRef sim ld (item_bytes v @ ys) (IncludeVersion v') =
      Inl (Thrown incompatible_protocol_version) \<and>
    ArenaReader zs (IncludeVersion v') = Inl Assert_failed \<and>
    fromStringRef sim ld zs (IncludeVersion v') = Inl (br_overrun sim)"
proof -
  have ai: "ar_inv (arena_reader_init i)" "ar_rest (arena_reader_init i) = i" for i
    by (simp_all add: arena_reader_init_def ar_inv_def ar_rest_def)
  have bi: "br_inv (binary_reader_init c i)" "br_rest (binary_reader_init c i) = i" for c i
    by (simp_all add: binary_reader_init_def br_inv_def br_rest_def)
  have a: "ArenaReader (item_bytes v @ ys) (IncludeVersion v') = Inl (Thrown incompatible_protocol_version)"
    unfolding ArenaReader_def by (rule ar.read_version_rejects [OF ai assms(1)])
  have b: "read_version (binary_reader_ops sim) (IncludeVersion v')
      (binary_reader_init c (item_bytes v @ ys)) = Inl (Thrown incompatible_protocol_version)" for c
    by (rule br.read_version_rejects [OF bi assms(1)])
  have "(load_item arena_reader_ops :: (u64, _) load_action) (arena_reader_init zs) = Inl Assert_failed"
    using ar.load_item_any_version(2) [where 'a = 64, OF _ _ ai(1)] assms(2) ai(2) by simp
  moreover have "(load_item (binary_reader_ops sim) :: (u64, _) load_action)
      (binary_reader_init None zs) = Inl (br_overrun sim)"
    using br.load_item_any_version(2) [where 'a = 64, OF _ _ bi(1)] assms(2) bi(2) by simp
  ultimately show ?thesis
    using a b by (simp add: BinaryReader_data_def BinaryReader_StringRef_def fromStringRef_def
        ArenaReader_def)
qed

theorem version_errors_witness:
  "ArenaReader (item_bytes (5 :: u64) @ [1]) (IncludeVersion currentProtocolVersion) =
     Inl (Thrown incompatible_protocol_version)"
  using version_errors [of 5 "[]" "[1]" currentProtocolVersion False "load_bool (binary_reader_ops False)"]
  by (simp add: minValidProtocolVersion_def)
lemma malformed_length_read:
  shows "load_item arena_reader_ops ((arena_reader_init (item_bytes (n :: u32) @ ys))\<lparr>ar_protocolVersion := v\<rparr>) =
      Inr (n, (arena_reader_init (item_bytes n @ ys))\<lparr>ar_protocolVersion := v, ar_begin := 4\<rparr>)"
    and "load_item (binary_reader_ops sim) ((binary_reader_init c (item_bytes n @ ys))\<lparr>br_protocolVersion := v\<rparr>) =
      Inr (n, (binary_reader_init c (item_bytes n @ ys))\<lparr>br_protocolVersion := v, br_begin := 4\<rparr>)"
  by (simp_all add: load_item_def then_load_def return_load_def arena_reader_ops_def binary_reader_ops_def ar_read_defs
      br_read_defs arena_reader_init_def binary_reader_init_def Let_def le_val_item_bytes [where 'a = 32])

text \<open>
  Property C40: lengths with the top bit set in the input, through either reader.  A \<open>std::string\<close> or a
  \<open>std::vector\<close> fails with \<open>length_error\<close>, a \<open>VectorRef\<close> fails its assertion, and a set or a map is read as
  empty.  A \<open>StringRef\<close> read through \<open>BinaryReader\<close> fails to allocate.  Through \<open>ArenaReader\<close> the negative
  count passes the end check and moves the read position back from behind the length: by up to four
  bytes it is then in the input again, by more it is before the input, which is undefined.
\<close>

theorem malformed_lengths:
  fixes n :: u32 and ys :: bytes and v :: u64 and c :: "int option option"
  defines "a \<equiv> (arena_reader_init (item_bytes n @ ys))\<lparr>ar_protocolVersion := v\<rparr>"
    and "b \<equiv> (binary_reader_init c (item_bytes n @ ys))\<lparr>br_protocolVersion := v\<rparr>"
  assumes n: "sint n < 0" and v: "v \<noteq> 0"
  shows "load_string arena_reader_ops a = Inl Length_error \<and>
    load_string (binary_reader_ops sim) b = Inl Length_error \<and>
    load_vector arena_reader_ops ld a = Inl Length_error \<and>
    load_vector (binary_reader_ops sim) ld' b = Inl Length_error \<and>
    load_VectorRef arena_reader_ops (Suc k) ld a = Inl Assert_failed \<and>
    load_VectorRef (binary_reader_ops sim) (Suc k) ld' b = Inl Assert_failed \<and>
    load_set arena_reader_ops lt ld a = Inr ([], a\<lparr>ar_begin := 4\<rparr>) \<and>
    load_set (binary_reader_ops sim) lt ld' b = Inr ([], b\<lparr>br_begin := 4\<rparr>) \<and>
    load_map arena_reader_ops lt' lk ld a = Inr ([], a\<lparr>ar_begin := 4\<rparr>) \<and>
    load_map (binary_reader_ops sim) lt' lk' ld' b = Inr ([], b\<lparr>br_begin := 4\<rparr>) \<and>
    load_StringRef (binary_reader_ops sim) b = Inl Bad_alloc \<and>
    load_StringRef arena_reader_ops a =
      (if sint n < - 4 then Inl Undefined_behaviour else Inr ([], a\<lparr>ar_begin := 4 + sint n\<rparr>))"
proof -
  note r = malformed_length_read [where n = n and ys = ys and v = v, folded a_def b_def]
  have "\<not> unat n * Suc k < 100 * 2 ^ 20"
  proof -
    have "2 ^ 31 \<le> unat n" using n by (simp add: sint_u32 split: if_splits)
    then have "2 ^ 31 * 1 \<le> unat n * Suc k" by (intro mult_le_mono) simp_all
    then show ?thesis by simp
  qed
  then show ?thesis
    using n v unfolding a_def b_def
    by (simp add: load_string_def load_vector_def load_VectorRef_def load_StringRef_def load_set_def load_map_def then_load_def
        malformed_length_read assert_rd_version_def)
       (simp add: arena_reader_ops_def binary_reader_ops_def br_arenaRead_def ar_read_defs arena_reader_init_def Let_def)
qed

theorem malformed_lengths_witness:
  "load_StringRef arena_reader_ops ((arena_reader_init (item_bytes (0xFFFFFFFC :: u32) @ [1, 2, 3]))\<lparr>ar_protocolVersion := 1\<rparr>) =
     Inr ([], (arena_reader_init (item_bytes (0xFFFFFFFC :: u32) @ [1, 2, 3]))\<lparr>ar_protocolVersion := 1, ar_begin := 0\<rparr>) \<and>
   load_StringRef arena_reader_ops ((arena_reader_init (item_bytes (0xFFFFFFF0 :: u32) @ [1, 2, 3]))\<lparr>ar_protocolVersion := 1\<rparr>) =
     Inl Undefined_behaviour"
proof -
  have n: "sint (0xFFFFFFFC :: u32) = - 4" "sint (0xFFFFFFF0 :: u32) = - 16" by (simp_all add: sint_u32)
  have "load_StringRef arena_reader_ops ((arena_reader_init (item_bytes n @ ys))\<lparr>ar_protocolVersion := 1\<rparr>) =
      (if sint n < - 4 then Inl Undefined_behaviour
       else Inr ([], (arena_reader_init (item_bytes n @ ys))\<lparr>ar_protocolVersion := 1, ar_begin := 4 + sint n\<rparr>))"
    if "sint n < 0" for n :: u32 and ys
    using malformed_lengths [OF that, of 1 ys] by (simp only: one_neq_zero not_False_eq_True simp_thms) blast
  then show ?thesis using n by simp
qed

text \<open>
  After \<open>checkpoint\<close>, whatever is loaded, \<open>rewind\<close> restores the position, once: a second
  \<open>rewind\<close> fails its assertion, as does one without a checkpoint.  A \<open>BinaryReader\<close> built from a
  \<open>StringRef\<close> or a \<open>std::string\<close> never initialises \<open>check\<close>, so there a \<open>rewind\<close> without checkpoint
  is undefined.
\<close>

theorem rewind_restores:
  assumes "br_readBytes sim n (br_checkpoint r) = Inr (bs, r')"
    and "ar_readBytes k (ar_checkpoint a) = Inr (cs, a')"
  shows "\<exists>r'' a''. br_rewind r' = Inr r'' \<and> br_rest r'' = br_rest r \<and> br_rewind r'' = Inl Assert_failed \<and>
    ar_rewind a' = Inr a'' \<and> ar_rest a'' = ar_rest a \<and> ar_rewind a'' = Inl Assert_failed \<and>
    ar_rewind (arena_reader_init i) = Inl Assert_failed \<and>
    br_rewind (binary_reader_init (Some None) i) = Inl Assert_failed \<and>
    br_rewind (binary_reader_init None i) = Inl Undefined_behaviour"
  using assms
  by (auto simp: br_readBytes_def ar_readBytes_def br_checkpoint_def ar_checkpoint_def br_rewind_def
      ar_rewind_def br_rest_def ar_rest_def Let_def result_simps arena_reader_init_def
      binary_reader_init_def split: if_splits)

theorem rewind_restores_witness:
  "\<exists>r''. br_rewind (binary_reader_init None [1, 2]\<lparr>br_begin := 1, br_check := Some (Some 0)\<rparr>) = Inr r'' \<and>
     br_rest r'' = [1, 2]"
  using rewind_restores [of False 1 "binary_reader_init None [1, 2]" "[1]"
      "binary_reader_init None [1, 2]\<lparr>br_begin := 1, br_check := Some (Some 0)\<rparr>"
      1 "arena_reader_init [3]" "[3]" "arena_reader_init [3]\<lparr>ar_begin := 1, ar_check := Some 0\<rparr>"]
  by (auto simp: br_readBytes_def ar_readBytes_def br_checkpoint_def ar_checkpoint_def
      arena_reader_init_def binary_reader_init_def br_rest_def)

end
