(* ===== verification/Tuple.thy ===== *)
theory Tuple
  imports Archives Compressed_Int
begin

text \<open>
  The order-preserving tuple encoding of \<open>BinaryWriter\<close> (\<open>src/flow/serialize.h\<close>,
  \<open>bytesNeeded\<close> and the \<open>serializeAsTuple\<close> overloads): strings with escaped zero bytes, booleans, and
  integers with a length-and-sign byte.  The encodings compare bytewise like the values.
\<close>

function bytesNeeded_from :: "u64 \<Rightarrow> nat \<Rightarrow> nat" where
  "bytesNeeded_from val n =
     (if n < 8 \<and> drop_bit (n * 8) val \<noteq> 0 then bytesNeeded_from val (n + 1) else n)"
  by pat_completeness auto
termination bytesNeeded_from by (relation "measure (\<lambda>(_, n). 8 - n)") auto

definition bytesNeeded :: "u64 \<Rightarrow> nat" where
  "bytesNeeded val = bytesNeeded_from val 1"

text \<open>The object representation of \<open>bigEndian64(x)\<close>.\<close>

definition bigEndian64 :: "u64 \<Rightarrow> bytes" where
  "bigEndian64 x = rev (le_bytes 8 x)"

function tuple_string_loop :: "bytes \<Rightarrow> nat \<Rightarrow> nat \<Rightarrow> binary_writer \<Rightarrow> (nat \<times> binary_writer) result" where
  "tuple_string_loop str pos last_pos w =
     (if pos < length str
      then if str ! pos = 0
           then bind_result (bw_serializeBytes (take (pos - last_pos) (drop last_pos str)) w) (\<lambda>w1.
                bind_result (bw_serializeBytes [0, 0xff] w1)
                  (tuple_string_loop str (pos + 1) (pos + 1)))
           else tuple_string_loop str (pos + 1) last_pos w
      else Inr (last_pos, w))"
  by pat_completeness auto
termination tuple_string_loop by (relation "measure (\<lambda>(str, pos, _, _). length str - pos)") auto

definition serializeAsTuple_string :: "bytes \<Rightarrow> binary_writer \<Rightarrow> binary_writer result" where
  "serializeAsTuple_string str w =
     bind_result (bw_serializeBytes [1] w) (\<lambda>w1.
     bind_result (tuple_string_loop str 0 0 w1) (\<lambda>(last_pos, w2).
     bind_result (bw_serializeBytes (take (length str - last_pos) (drop last_pos str)) w2)
       (bw_serializeBytes [0])))"

definition serializeAsTuple_bool :: "bool \<Rightarrow> binary_writer \<Rightarrow> binary_writer result" where
  "serializeAsTuple_bool t w = (if \<not> t then bw_serializeBytes [20] w else bw_serializeBytes [21, 1] w)"

definition serializeAsTuple_u64 :: "u64 \<Rightarrow> binary_writer \<Rightarrow> binary_writer result" where
  "serializeAsTuple_u64 t w =
     (if t = 0 then bw_serializeBytes [20] w
      else let n = bytesNeeded t
           in bw_serializeBytes (word_of_nat (20 + n) # take n (drop (8 - n) (bigEndian64 t))) w)"

text \<open>For the least value, \<open>-t\<close> and \<open>t-1\<close> overflow.\<close>

definition serializeAsTuple_i64 :: "u64 \<Rightarrow> binary_writer \<Rightarrow> binary_writer result" where
  "serializeAsTuple_i64 t w =
     (if t = 0 then bw_serializeBytes [20] w
      else if sint t > 0
      then let n = bytesNeeded t
           in bw_serializeBytes (word_of_nat (20 + n) # take n (drop (8 - n) (bigEndian64 t))) w
      else if sint t = - (2 ^ 63) then Inl Undefined_behaviour
      else let n = bytesNeeded (- t)
           in bw_serializeBytes (word_of_nat (20 - n) # take n (drop (8 - n) (bigEndian64 (t - 1)))) w)"

declare bytesNeeded_from.simps [simp del] tuple_string_loop.simps [simp del]

subsection \<open>Lengths and payloads\<close>

lemma bytesNeeded_from_ok:
  assumes "1 \<le> n" and "n \<le> 8" and "n = 1 \<or> 256 ^ (n - 1) \<le> unat val"
  shows "1 \<le> bytesNeeded_from val n \<and> bytesNeeded_from val n \<le> 8 \<and>
    unat val < 256 ^ bytesNeeded_from val n \<and>
    (bytesNeeded_from val n = 1 \<or> 256 ^ (bytesNeeded_from val n - 1) \<le> unat val)"
  using assms
proof (induction val n rule: bytesNeeded_from.induct)
  case (1 val n)
  have shift: "unat (drop_bit (n * 8) val) = unat val div 256 ^ n"
    unfolding unat_drop_bit_eq by (simp add: drop_bit_eq_div power_256 mult.commute)
  show ?case
  proof (cases "n < 8 \<and> drop_bit (n * 8) val \<noteq> 0")
    case True
    then have "unat val div 256 ^ n \<noteq> 0" using shift by (metis unat_eq_zero)
    then have "256 ^ n \<le> unat val" by (simp add: div_eq_0_iff not_less)
    then show ?thesis using 1 True by (subst (1 2 3 4 5) bytesNeeded_from.simps) simp
  next
    case False
    then consider "n = 8" | "drop_bit (n * 8) val = 0" using "1.prems"(2) by linarith
    then have "unat val < 256 ^ n"
    proof cases
      case 1
      then show ?thesis using unsigned_less [where 'b = 64, of val] by simp
    next
      case 2
      then have "unat val div 256 ^ n = 0" using shift by simp
      then show ?thesis by (simp add: div_eq_0_iff)
    qed
    then show ?thesis using "1.prems" False by (subst (1 2 3 4 5) bytesNeeded_from.simps) auto
  qed
qed

lemma bytesNeeded_ok:
  shows "1 \<le> bytesNeeded t" and "bytesNeeded t \<le> 8" and "unat t < 256 ^ bytesNeeded t"
    and "bytesNeeded t = 1 \<or> 256 ^ (bytesNeeded t - 1) \<le> unat t"
  using bytesNeeded_from_ok [of 1 t] by (simp_all add: bytesNeeded_def)

lemma bytesNeeded_mono:
  assumes "unat s \<le> unat t"
  shows "bytesNeeded s \<le> bytesNeeded t"
proof (rule ccontr)
  assume "\<not> bytesNeeded s \<le> bytesNeeded t"
  then have n: "bytesNeeded t \<le> bytesNeeded s - 1" "bytesNeeded s \<noteq> 1"
    using bytesNeeded_ok(1) [of t] by auto
  then have "256 ^ (bytesNeeded s - 1) \<le> unat t" using bytesNeeded_ok(4) [of s] assms by simp
  moreover have "(256 :: nat) ^ bytesNeeded t \<le> 256 ^ (bytesNeeded s - 1)"
    using n(1) by (intro power_increasing) simp_all
  ultimately show False using bytesNeeded_ok(3) [of t] by linarith
qed

lemma be_val_rev: "be_val (rev xs) = le_val xs"
  by (induction xs) (simp_all add: be_val_append)

lemma take_le_bytes: "n \<le> k \<Longrightarrow> take n (le_bytes k x) = le_bytes n x"
proof (induction k arbitrary: n x)
  case (Suc k)
  then show ?case by (cases n) simp_all
qed simp

definition payload :: "nat \<Rightarrow> u64 \<Rightarrow> bytes" where
  "payload n x = rev (le_bytes n x)"

lemma payload_eq: "n \<le> 8 \<Longrightarrow> take n (drop (8 - n) (bigEndian64 x)) = payload n x"
  by (simp add: bigEndian64_def payload_def drop_rev take_le_bytes)

lemma payload_simps [simp]: "length (payload n x) = n" "be_val (payload n x) = unat x mod 256 ^ n"
  by (simp_all add: payload_def be_val_rev le_val_le_bytes)

subsection \<open>Encodings\<close>

definition enc_magnitude :: "u64 \<Rightarrow> bytes" where
  "enc_magnitude t = word_of_nat (20 + bytesNeeded t) # payload (bytesNeeded t) t"

definition enc_negative :: "u64 \<Rightarrow> bytes" where
  "enc_negative t = word_of_nat (20 - bytesNeeded (- t)) # payload (bytesNeeded (- t)) (t - 1)"

definition enc_u64 :: "u64 \<Rightarrow> bytes" where
  "enc_u64 t = (if t = 0 then [20] else enc_magnitude t)"

definition enc_i64 :: "u64 \<Rightarrow> bytes" where
  "enc_i64 t = (if t = 0 then [20] else if sint t > 0 then enc_magnitude t else enc_negative t)"

definition escape :: "bytes \<Rightarrow> bytes" where
  "escape s = concat (map (\<lambda>b. if b = 0 then [0, 0xff] else [b]) s)"

lemma unat_header: "n \<le> 255 \<Longrightarrow> unat (word_of_nat n :: u8) = n"
  by (simp add: unsigned_of_nat take_bit_nat_eq_self)

lemma header_lt: "x < y \<Longrightarrow> y \<le> 255 \<Longrightarrow> bytes_lt (word_of_nat x # xs) (word_of_nat y # ys)"
  by (simp add: word_less_nat_alt unat_header)

lemma payload_lt:
  assumes "length xs = length ys" and "be_val xs < be_val ys"
  shows "bytes_lt (h # xs) (h # ys)"
  using bytes_lt_be_val [of xs ys] assms by simp

lemma enc_magnitude_order:
  assumes "unat s < unat t"
  shows "bytes_lt (enc_magnitude s) (enc_magnitude t)"
proof (cases "bytesNeeded s = bytesNeeded t")
  case True
  then have "be_val (payload (bytesNeeded t) s) < be_val (payload (bytesNeeded t) t)"
    using assms bytesNeeded_ok(3) [of s] bytesNeeded_ok(3) [of t] by simp
  then show ?thesis unfolding enc_magnitude_def True by (intro payload_lt) simp_all
next
  case False
  then have "bytesNeeded s < bytesNeeded t" using bytesNeeded_mono [of s t] assms by simp
  then show ?thesis
    unfolding enc_magnitude_def using bytesNeeded_ok(2) [of t] by (intro header_lt) simp_all
qed

lemma negative_payload:
  assumes "t \<noteq> 0"
  shows "unat (t - 1) mod 256 ^ bytesNeeded (- t) = 256 ^ bytesNeeded (- t) - 1 - unat (- t)"
proof -
  let ?n = "bytesNeeded (- t)" and ?m = "unat (- t)"
  have m: "0 < ?m" "?m < 2 ^ 64"
    using assms unsigned_less [where 'b = 64, of "- t"] by (simp_all add: unat_gt_0)
  have "unat (t - 1) = 2 ^ 64 - 1 - ?m"
    using unat_not_u64 [of "- t"] by (simp add: not_eq_complement)
  moreover have "(2 :: nat) ^ 64 = 256 ^ (8 - ?n) * 256 ^ ?n"
    using bytesNeeded_ok(2) [of "- t"] by (simp flip: power_add)
  moreover have "?m < 256 ^ ?n" by (rule bytesNeeded_ok)
  moreover have "(256 :: nat) ^ ?n \<le> 2 ^ 64"
    using bytesNeeded_ok(2) [of "- t"] power_increasing [of ?n 8 "256 :: nat"] by simp
  ultimately have "unat (t - 1) = (256 ^ (8 - ?n) - 1) * 256 ^ ?n + (256 ^ ?n - 1 - ?m)"
    by (simp add: algebra_simps)
  then show ?thesis by simp
qed

lemma enc_negative_order:
  assumes "unat (- t) < unat (- s)" and "s \<noteq> 0" and "t \<noteq> 0"
  shows "bytes_lt (enc_negative s) (enc_negative t)"
proof (cases "bytesNeeded (- s) = bytesNeeded (- t)")
  case True
  have "be_val (payload (bytesNeeded (- t)) (s - 1)) < be_val (payload (bytesNeeded (- t)) (t - 1))"
    using assms(1) negative_payload [OF assms(2)] negative_payload [OF assms(3)] True
      bytesNeeded_ok(3) [of "- s"] by simp
  then show ?thesis unfolding enc_negative_def True by (intro payload_lt) simp_all
next
  case False
  then have "bytesNeeded (- t) < bytesNeeded (- s)" using bytesNeeded_mono [of "- t" "- s"] assms(1) by simp
  then show ?thesis
    unfolding enc_negative_def using bytesNeeded_ok(2) [of "- s"] by (intro header_lt) simp_all
qed
subsection \<open>The writer produces the encodings\<close>

lemma bw_append:
  assumes "bw_inv w" and "length bs \<le> bw_room w"
  obtains w' where "bw_serializeBytes bs w = Inr w'" and "bw_inv w'" and "bw_out w' = bw_out w @ bs"
    and "bw_room w' = bw_room w - length bs"
  using bw_serializeBytes_ok [OF assms] by blast

lemma escape_simps [simp]:
  "escape [] = []" "escape (xs @ ys) = escape xs @ escape ys"
  "escape (x # xs) = (if x = 0 then [0, 0xff] else [x]) @ escape xs"
  by (simp_all add: escape_def)

lemma escape_none: "0 \<notin> set xs \<Longrightarrow> escape xs = xs"
  by (induction xs) auto

lemma length_escape: "length (escape xs) \<le> 2 * length xs"
  by (induction xs) auto

lemma tuple_string_loop_ok:
  assumes "bw_inv w" and "last_pos \<le> pos" and "pos \<le> length str"
    and "0 \<notin> set (take (pos - last_pos) (drop last_pos str))"
    and "length (escape (drop last_pos str)) \<le> bw_room w"
  shows "\<exists>l w'. tuple_string_loop str pos last_pos w = Inr (l, w') \<and> bw_inv w' \<and>
    bw_out w' @ drop l str = bw_out w @ escape (drop last_pos str) \<and> l \<le> length str \<and>
    bw_room w - length (escape (drop last_pos str)) \<le> bw_room w' - length (drop l str) \<and>
    length (drop l str) \<le> bw_room w'"
  using assms
proof (induction str pos last_pos w rule: tuple_string_loop.induct)
  case (1 str pos last_pos w)
  let ?seg = "take (pos - last_pos) (drop last_pos str)"
  have split: "drop last_pos str = ?seg @ drop pos str"
    using "1.prems"(2,3) by (metis append_take_drop_id drop_drop le_add_diff_inverse2)
  have seg: "escape ?seg = ?seg" using "1.prems"(4) by (rule escape_none)
  show ?case
  proof (cases "pos < length str")
    case False
    then have "drop pos str = []" by simp
    then have "escape (drop last_pos str) = drop last_pos str" using split seg by simp
    moreover have "tuple_string_loop str pos last_pos w = Inr (last_pos, w)"
      using False by (subst tuple_string_loop.simps) simp
    ultimately show ?thesis using "1.prems"(1,2,3,5) by simp
  next
    case True
    then have d: "drop pos str = str ! pos # drop (pos + 1) str" by (simp add: Cons_nth_drop_Suc)
    show ?thesis
    proof (cases "str ! pos = 0")
      case True
      have e: "escape (drop last_pos str) = ?seg @ [0, 0xff] @ escape (drop (pos + 1) str)"
      proof -
        have "escape (drop last_pos str) = escape (?seg @ drop pos str)" by (rule arg_cong [OF split])
        also have "\<dots> = ?seg @ escape (drop pos str)" by (simp only: escape_simps(2) seg)
        also have "escape (drop pos str) = [0, 0xff] @ escape (drop (pos + 1) str)"
          unfolding d using True by (simp only: escape_simps(3)) simp
        finally show ?thesis .
      qed
      have total: "length ?seg + (2 + length (escape (drop (pos + 1) str))) \<le> bw_room w"
        using "1.prems"(5) unfolding e by simp
      then have room: "length ?seg \<le> bw_room w" by linarith
      obtain w1 where w1: "bw_serializeBytes ?seg w = Inr w1" "bw_inv w1"
          "bw_out w1 = bw_out w @ ?seg" "bw_room w1 = bw_room w - length ?seg"
        using bw_append [OF "1.prems"(1) room] by blast
      have "2 \<le> bw_room w1" using total w1(4) by linarith
      then obtain w2 where w2: "bw_serializeBytes [0, 0xff] w1 = Inr w2" "bw_inv w2"
          "bw_out w2 = bw_out w1 @ [0, 0xff]" "bw_room w2 = bw_room w1 - 2"
        using bw_append [OF w1(2), of "[0, 0xff]"] by (auto simp: numeral_2_eq_2)
      have r2: "length (escape (drop (pos + 1) str)) \<le> bw_room w2"
        using total w1(4) w2(4) by linarith
      have "tuple_string_loop str pos last_pos w = tuple_string_loop str (pos + 1) (pos + 1) w2"
        using \<open>pos < length str\<close> True w1(1) w2(1) by (subst tuple_string_loop.simps) simp
      moreover have "bw_out w2 @ escape (drop (pos + 1) str) = bw_out w @ escape (drop last_pos str)"
        using e w1(3) w2(3) by simp
      moreover have "bw_room w - length (escape (drop last_pos str)) =
          bw_room w2 - length (escape (drop (pos + 1) str))"
        using e w1(4) w2(4) by simp
      ultimately show ?thesis
        using "1.IH"(1) [OF \<open>pos < length str\<close> True w2(2) le_refl _ _ r2]
          \<open>pos < length str\<close> by simp
    next
      case False
      have "tuple_string_loop str pos last_pos w = tuple_string_loop str (pos + 1) last_pos w"
        using \<open>pos < length str\<close> False by (subst tuple_string_loop.simps) simp
      moreover have "take (pos + 1 - last_pos) (drop last_pos str) = ?seg @ [str ! pos]"
        using "1.prems"(2) \<open>pos < length str\<close> by (simp add: Suc_diff_le take_Suc_conv_app_nth)
      ultimately show ?thesis
        using "1.IH"(2) [OF \<open>pos < length str\<close> False "1.prems"(1) _ _ _ "1.prems"(5)] "1.prems"(2,4)
          \<open>pos < length str\<close> False by simp
    qed
  qed
qed
lemma serializeAsTuple_string_ok:
  assumes w: "bw_inv w" and r: "length (escape str) + 2 \<le> bw_room w"
  shows "\<exists>w'. serializeAsTuple_string str w = Inr w' \<and> bw_inv w' \<and>
    bw_out w' = bw_out w @ 1 # escape str @ [0]"
proof -
  obtain w1 where w1: "bw_serializeBytes [1] w = Inr w1" "bw_inv w1" "bw_out w1 = bw_out w @ [1]"
      "bw_room w1 = bw_room w - 1"
    using bw_append [OF w, of "[1]"] r by auto
  have "length (escape str) \<le> bw_room w1" using w1(4) r by simp
  then obtain l w2 where w2: "tuple_string_loop str 0 0 w1 = Inr (l, w2)" "bw_inv w2"
      "bw_out w2 @ drop l str = bw_out w1 @ escape str" "l \<le> length str"
      "bw_room w1 - length (escape str) \<le> bw_room w2 - length (drop l str)"
      "length (drop l str) \<le> bw_room w2"
    using tuple_string_loop_ok [OF w1(2), of 0 0 str] by auto
  obtain w3 where w3: "bw_serializeBytes (drop l str) w2 = Inr w3" "bw_inv w3"
      "bw_out w3 = bw_out w2 @ drop l str" "bw_room w3 = bw_room w2 - length (drop l str)"
    using bw_append [OF w2(2,6)] by blast
  have "length [0 :: u8] \<le> bw_room w3" using w3(4) w2(5) w1(4) r by simp
  then obtain w4 where "bw_serializeBytes [0] w3 = Inr w4" "bw_inv w4" "bw_out w4 = bw_out w3 @ [0]"
    using bw_append [OF w3(2), of "[0]"] by blast
  then show ?thesis using w1 w2 w3 by (simp add: serializeAsTuple_string_def)
qed

text \<open>The bytes one item writes into an empty writer.\<close>

definition tuple_bytes :: "(binary_writer \<Rightarrow> binary_writer result) \<Rightarrow> bytes result" where
  "tuple_bytes f = bind_result (f binary_writer_new) bw_toValue"

lemma writer_new: "bw_inv binary_writer_new" "bw_out binary_writer_new = []" "bw_room binary_writer_new = 2 ^ 29"
  by (simp_all add: binary_writer_new_def bw_inv_def bw_out_def bw_room_def)

lemma tuple_bytes_append: "length bs \<le> 9 \<Longrightarrow> tuple_bytes (bw_serializeBytes bs) = Inr bs"
proof -
  assume "length bs \<le> 9"
  then have "length bs \<le> bw_room binary_writer_new" by (simp add: writer_new)
  then obtain w where "bw_serializeBytes bs binary_writer_new = Inr w" "bw_inv w" "bw_out w = [] @ bs"
    using bw_append [OF writer_new(1)] writer_new(2) by metis
  then show ?thesis by (simp add: tuple_bytes_def bw_toValue_ok)
qed

lemma tuple_bytes_string:
  assumes "length str \<le> 2 ^ 27"
  shows "tuple_bytes (serializeAsTuple_string str) = Inr (1 # escape str @ [0])"
proof -
  have "length (escape str) + 2 \<le> bw_room binary_writer_new"
    using length_escape [of str] assms by (simp add: writer_new)
  from serializeAsTuple_string_ok [OF writer_new(1) this] show ?thesis
    by (auto simp: tuple_bytes_def bw_toValue_ok writer_new)
qed

lemma tuple_bytes_u64: "tuple_bytes (serializeAsTuple_u64 t) = Inr (enc_u64 t)"
proof (cases "t = 0")
  case True
  then have "serializeAsTuple_u64 t = bw_serializeBytes [20]"
    by (intro ext) (simp add: serializeAsTuple_u64_def)
  then show ?thesis using True by (simp add: enc_u64_def tuple_bytes_append)
next
  case False
  then have "serializeAsTuple_u64 t = bw_serializeBytes (enc_magnitude t)"
    by (intro ext)
       (simp add: serializeAsTuple_u64_def enc_magnitude_def payload_eq bytesNeeded_ok(2) Let_def)
  moreover have "length (enc_magnitude t) \<le> 9" using bytesNeeded_ok(2) [of t] by (simp add: enc_magnitude_def)
  ultimately show ?thesis using False by (simp add: enc_u64_def tuple_bytes_append)
qed

lemma unat_u64_less: "unat (x :: u64) < 2 ^ 64"
  using unsigned_less [where 'b = 64, of x] by simp

lemma sint_u64_nonneg: "0 \<le> sint (t :: u64) \<Longrightarrow> int (unat t) = sint t"
  using sint_u64 [of t] unat_u64_less [of t] of_nat_less_iff [of "unat t" "2 ^ 64", where 'a = int]
  by (simp split: if_splits)

lemma sint_u64_0: "sint t = 0 \<longleftrightarrow> (t :: u64) = 0"
proof
  assume "sint t = 0"
  then have "unat t = 0" using sint_u64_nonneg [of t] by linarith
  then show "t = 0" by (simp add: unat_eq_zero)
qed simp

lemma negative_unat:
  assumes "sint (t :: u64) < 0"
  shows "int (unat (- t)) = - sint t"
proof -
  have nz: "t \<noteq> 0" using assms by auto
  have "unat (- t) = 2 ^ 64 - 1 - unat (t - 1)"
    using unat_not_u64 [of "t - 1"] by (simp add: not_eq_complement)
  moreover have "unat (t - 1) = unat t - 1" by (rule unat_pred_word [OF nz])
  moreover have "0 < unat t" using nz unat_gt_0 by blast
  ultimately show ?thesis
    using assms unat_u64_less [of t] by (simp add: sint_u64 of_nat_diff split: if_splits)
qed

lemma tuple_bytes_i64:
  assumes "sint t \<noteq> - (2 ^ 63)"
  shows "tuple_bytes (serializeAsTuple_i64 t) = Inr (enc_i64 t)"
proof (cases "sint t < 0")
  case True
  then have t: "t \<noteq> 0" "\<not> sint t > 0" by auto
  then have "serializeAsTuple_i64 t = bw_serializeBytes (enc_negative t)"
    using assms by (intro ext)
       (simp add: serializeAsTuple_i64_def enc_negative_def payload_eq bytesNeeded_ok(2) Let_def)
  moreover have "length (enc_negative t) \<le> 9" using bytesNeeded_ok(2) [of "- t"] by (simp add: enc_negative_def)
  ultimately show ?thesis using t by (simp add: enc_i64_def tuple_bytes_append)
next
  case False
  have "sint t = 0 \<longleftrightarrow> t = 0" by (rule sint_u64_0)
  then have "t \<noteq> 0 \<Longrightarrow> sint t > 0" using False by linarith
  then have "serializeAsTuple_i64 t = serializeAsTuple_u64 t" "enc_i64 t = enc_u64 t"
    by (auto simp: serializeAsTuple_i64_def serializeAsTuple_u64_def enc_i64_def enc_u64_def fun_eq_iff)
  then show ?thesis by (simp add: tuple_bytes_u64)
qed

subsection \<open>Order\<close>

lemma bytes_lt_less: "bytes_lt xs ys \<Longrightarrow> string_less (xs @ as) (ys @ bs)"
  by (induction xs ys rule: bytes_lt.induct) auto

lemma enc_u64_order:
  assumes "s < t"
  shows "bytes_lt (enc_u64 s) (enc_u64 t)"
proof (cases "s = 0")
  case True
  have "bytes_lt (word_of_nat 20 # []) (word_of_nat (20 + bytesNeeded t) # payload (bytesNeeded t) t)"
    using bytesNeeded_ok(1,2) [of t] by (intro header_lt) simp_all
  then show ?thesis using True assms by (auto simp: enc_u64_def enc_magnitude_def)
next
  case False
  then show ?thesis using assms enc_magnitude_order [of s t]
    by (auto simp: enc_u64_def word_less_nat_alt)
qed

lemma enc_i64_order:
  assumes "sint s < sint t"
  shows "bytes_lt (enc_i64 s) (enc_i64 t)"
proof -
  consider "0 \<le> sint s" | "sint s < 0" "sint t < 0" | "sint s < 0" "0 \<le> sint t" by linarith
  then show ?thesis
  proof cases
    case 1
    have "unat s < unat t" using 1 assms sint_u64_nonneg [of s] sint_u64_nonneg [of t] by linarith
    then have "s < t" by (simp add: word_less_nat_alt)
    moreover have "enc_i64 s = enc_u64 s" "enc_i64 t = enc_u64 t"
      using 1 assms sint_u64_0 [of s] by (auto simp: enc_i64_def enc_u64_def)
    ultimately show ?thesis by (simp add: enc_u64_order)
  next
    case 2
    then have "s \<noteq> 0" "t \<noteq> 0" by auto
    moreover have "unat (- t) < unat (- s)" using assms 2 negative_unat [of s] negative_unat [of t] by linarith
    ultimately show ?thesis using 2 enc_negative_order [of t s] by (simp add: enc_i64_def)
  next
    case 3
    then have s: "enc_i64 s = enc_negative s" by (auto simp: enc_i64_def)
    have "bytes_lt (enc_negative s) (word_of_nat (20 + n) # xs)" if "n \<le> 8" for n xs
      unfolding enc_negative_def using that bytesNeeded_ok(1) [of "- s"] by (intro header_lt) simp_all
    from this [of 0 "[]"] this [of "bytesNeeded t" "payload (bytesNeeded t) t"]
    show ?thesis
      using 3(2) sint_u64_0 [of t] bytesNeeded_ok(2) [of t] unfolding s
      by (auto simp: enc_i64_def enc_magnitude_def)
  qed
qed

lemma escape_order:
  assumes "string_less s t" and "as = [] \<or> hd as < 0xff"
  shows "string_less (escape s @ 0 # as) (escape t @ 0 # bs)"
  using assms(1)
proof (induction s t rule: string_less.induct)
  case (2 y ys)
  then show ?case using assms(2) by (cases as) (auto simp: word_gt_0)
next
  case (3 x xs y ys)
  then show ?case by (auto simp: word_gt_0)
qed simp
subsection \<open>Property\<close>

text \<open>
  Property C35: the tuple encoding preserves order.  The bytes written for two values compare, whatever
  is appended to them, like the values: for signed and unsigned 64-bit integers and booleans with
  any continuation, for strings when what follows the smaller one does not start with the escape
  byte 255.  The only value with no encoding is the least signed one, whose negation overflows.
\<close>

theorem tuple_order:
  "(s < t \<longrightarrow> (\<exists>x y. tuple_bytes (serializeAsTuple_u64 s) = Inr x \<and> tuple_bytes (serializeAsTuple_u64 t) = Inr y \<and>
      string_less (x @ as) (y @ bs))) \<and>
   (sint i < sint j \<and> sint i \<noteq> - (2 ^ 63) \<longrightarrow>
     (\<exists>x y. tuple_bytes (serializeAsTuple_i64 i) = Inr x \<and> tuple_bytes (serializeAsTuple_i64 j) = Inr y \<and>
      string_less (x @ as) (y @ bs))) \<and>
   (\<exists>x y. tuple_bytes (serializeAsTuple_bool False) = Inr x \<and> tuple_bytes (serializeAsTuple_bool True) = Inr y \<and>
      string_less (x @ as) (y @ bs)) \<and>
   (string_less p q \<and> length p \<le> 2 ^ 27 \<and> length q \<le> 2 ^ 27 \<and> (as = [] \<or> hd as < 0xff) \<longrightarrow>
     (\<exists>x y. tuple_bytes (serializeAsTuple_string p) = Inr x \<and> tuple_bytes (serializeAsTuple_string q) = Inr y \<and>
      string_less (x @ as) (y @ bs))) \<and>
   tuple_bytes (serializeAsTuple_i64 (2 ^ 63)) = Inl Undefined_behaviour"
proof (intro conjI impI)
  assume "s < t"
  then show "\<exists>x y. tuple_bytes (serializeAsTuple_u64 s) = Inr x \<and>
      tuple_bytes (serializeAsTuple_u64 t) = Inr y \<and> string_less (x @ as) (y @ bs)"
    by (simp add: tuple_bytes_u64 bytes_lt_less enc_u64_order)
next
  assume i: "sint i < sint j \<and> sint i \<noteq> - (2 ^ 63)"
  then have "sint j \<noteq> - (2 ^ 63)" using sint_ge [of i] by simp
  then show "\<exists>x y. tuple_bytes (serializeAsTuple_i64 i) = Inr x \<and>
      tuple_bytes (serializeAsTuple_i64 j) = Inr y \<and> string_less (x @ as) (y @ bs)"
    using i tuple_bytes_i64 bytes_lt_less enc_i64_order by blast
next
  have "serializeAsTuple_bool False = bw_serializeBytes [20]" "serializeAsTuple_bool True = bw_serializeBytes [21, 1]"
    by (simp_all add: serializeAsTuple_bool_def fun_eq_iff)
  then show "\<exists>x y. tuple_bytes (serializeAsTuple_bool False) = Inr x \<and>
      tuple_bytes (serializeAsTuple_bool True) = Inr y \<and> string_less (x @ as) (y @ bs)"
    by (simp add: tuple_bytes_append)
next
  assume "string_less p q \<and> length p \<le> 2 ^ 27 \<and> length q \<le> 2 ^ 27 \<and> (as = [] \<or> hd as < 0xff)"
  then show "\<exists>x y. tuple_bytes (serializeAsTuple_string p) = Inr x \<and>
      tuple_bytes (serializeAsTuple_string q) = Inr y \<and> string_less (x @ as) (y @ bs)"
    using tuple_bytes_string [of p] tuple_bytes_string [of q] escape_order [of p q as bs] by simp
next
  have "sint (2 ^ 63 :: u64) = - (2 ^ 63)" by (simp add: sint_u64)
  then show "tuple_bytes (serializeAsTuple_i64 (2 ^ 63)) = Inl Undefined_behaviour"
    by (simp add: tuple_bytes_def serializeAsTuple_i64_def)
qed

theorem tuple_order_witness:
  "\<exists>x y. tuple_bytes (serializeAsTuple_i64 (- 300)) = Inr x \<and> tuple_bytes (serializeAsTuple_i64 7) = Inr y \<and>
     string_less (x @ [1]) (y @ [2])"
proof -
  have "sint (- 300 :: u64) = - 300" "sint (7 :: u64) = 7" by (simp_all add: sint_u64)
  then show ?thesis
    using tuple_order [of 0 1 "[1]" "[2]" "- 300" 7 "[]" "[1]"] by simp
qed

end
