(* ===== verification/String_Ref.thy ===== *)
theory String_Ref
  imports Archives
begin

text \<open>
  \<open>StringRef\<close> (\<open>src/flow/Arena.h\<close>): views on byte strings with their comparisons, prefixes and
  suffixes, tokenising and printing.  A view is its bytes; making one outside the bytes it was
  taken from is \<open>Undefined_behaviour\<close>.
\<close>

subsection \<open>Operations\<close>

text \<open>Only the sign of \<open>memcmp\<close> is defined by C; its magnitude is never used.\<close>

fun memcmp :: "bytes \<Rightarrow> bytes \<Rightarrow> nat \<Rightarrow> int" where
  "memcmp (x # xs) (y # ys) (Suc n) =
     (if x = y then memcmp xs ys n else uint x - uint y)"
| "memcmp _ _ _ = 0"

definition sr_substr_from :: "bytes \<Rightarrow> int \<Rightarrow> bytes result" where
  "sr_substr_from s start =
     (if 0 \<le> start \<and> start \<le> int (length s) then Inr (drop (nat start) s) else Inl Undefined_behaviour)"

definition sr_substr :: "bytes \<Rightarrow> int \<Rightarrow> int \<Rightarrow> bytes result" where
  "sr_substr s start n =
     (if 0 \<le> start \<and> 0 \<le> n \<and> start + n \<le> int (length s)
      then Inr (take (nat n) (drop (nat start) s)) else Inl Undefined_behaviour)"

definition sr_startsWith :: "bytes \<Rightarrow> bytes \<Rightarrow> bool" where
  "sr_startsWith this s \<longleftrightarrow> length this \<ge> length s \<and> memcmp this s (length s) = 0"

definition sr_endsWith :: "bytes \<Rightarrow> bytes \<Rightarrow> bool" where
  "sr_endsWith this s \<longleftrightarrow>
     length this \<ge> length s \<and> memcmp (drop (length this - length s) this) s (length s) = 0"

text \<open>Joining two views in fresh arena memory.\<close>

definition arena_join :: "bytes \<Rightarrow> bytes \<Rightarrow> bytes result" where
  "arena_join a b =
     (if int (length a) + int (length b) > INT_MAX then Inl Undefined_behaviour
      else bind_result (arena_new_array (int (length a) + int (length b))) (\<lambda>s.
           bind_result (memcpy s 0 (map Some a)) (\<lambda>s1.
           bind_result (memcpy s1 (int (length a)) (map Some b)) (\<lambda>s2. Inr (map the s2)))))"

definition sr_withPrefix :: "bytes \<Rightarrow> bytes \<Rightarrow> bytes result" where
  "sr_withPrefix this pre = arena_join pre this"

definition sr_withSuffix :: "bytes \<Rightarrow> bytes \<Rightarrow> bytes result" where
  "sr_withSuffix this suf = arena_join this suf"

definition sr_removePrefix :: "bytes \<Rightarrow> bytes \<Rightarrow> bytes result" where
  "sr_removePrefix this s =
     bind_result (assert_that (length s \<le> length this)) (\<lambda>_. sr_substr_from this (int (length s)))"

definition sr_removeSuffix :: "bytes \<Rightarrow> bytes \<Rightarrow> bytes result" where
  "sr_removeSuffix this s =
     bind_result (assert_that (length s \<le> length this))
       (\<lambda>_. sr_substr this 0 (int (length this) - int (length s)))"

definition sr_compare :: "bytes \<Rightarrow> bytes \<Rightarrow> int" where
  "sr_compare this other =
     (let c = memcmp this other (min (length this) (length other))
      in if c \<noteq> 0 then c else int (length this) - int (length other))"

definition sr_eq :: "bytes \<Rightarrow> bytes \<Rightarrow> bool" where
  "sr_eq lhs rhs \<longleftrightarrow> length lhs = length rhs \<and> memcmp lhs rhs (length lhs) = 0"

definition sr_less :: "bytes \<Rightarrow> bytes \<Rightarrow> bool" where
  "sr_less lhs rhs \<longleftrightarrow>
     (let c = memcmp lhs rhs (min (length lhs) (length rhs))
      in if c \<noteq> 0 then c < 0 else length lhs < length rhs)"

definition sr_greater :: "bytes \<Rightarrow> bytes \<Rightarrow> bool" where
  "sr_greater lhs rhs \<longleftrightarrow>
     (let c = memcmp lhs rhs (min (length lhs) (length rhs))
      in if c \<noteq> 0 then c > 0 else length lhs > length rhs)"

definition sr_neq :: "bytes \<Rightarrow> bytes \<Rightarrow> bool" where "sr_neq lhs rhs \<longleftrightarrow> \<not> sr_eq lhs rhs"
definition sr_le :: "bytes \<Rightarrow> bytes \<Rightarrow> bool" where "sr_le lhs rhs \<longleftrightarrow> \<not> sr_greater lhs rhs"
definition sr_ge :: "bytes \<Rightarrow> bytes \<Rightarrow> bool" where "sr_ge lhs rhs \<longleftrightarrow> \<not> sr_less lhs rhs"

text \<open>\<open>eat\<close> returns the token and what is left of the view.\<close>

definition sr_eat_all :: "bytes \<Rightarrow> bytes \<times> bytes" where
  "sr_eat_all this = (this, [])"

function sr_eat_from :: "bytes \<Rightarrow> bytes \<Rightarrow> int \<Rightarrow> (bytes \<times> bytes) result" where
  "sr_eat_from this sep i =
     (if i \<le> int (length this) - int (length sep)
      then bind_result (sr_substr this i (int (length sep))) (\<lambda>w.
           if sr_compare sep w = 0
           then bind_result (sr_substr this 0 i) (\<lambda>token.
                bind_result (sr_substr_from this (i + int (length sep))) (\<lambda>left. Inr (token, left)))
           else sr_eat_from this sep (i + 1))
      else Inr (sr_eat_all this))"
  by pat_completeness auto
termination sr_eat_from by (relation "measure (\<lambda>(this, sep, i). nat (int (length this) + 1 - i))") auto

definition sr_eat :: "bytes \<Rightarrow> bytes \<Rightarrow> (bytes \<times> bytes) result" where
  "sr_eat this sep = sr_eat_from this sep 0"

fun find_first_of :: "bytes \<Rightarrow> bytes \<Rightarrow> nat" where
  "find_first_of [] sep = 0"
| "find_first_of (b # bs) sep = (if b \<in> set sep then 0 else Suc (find_first_of bs sep))"

definition sr_eatAny :: "bytes \<Rightarrow> bytes \<Rightarrow> (bytes \<times> bytes \<times> u8 option) result" where
  "sr_eatAny this sep =
     (let i = find_first_of this sep
      in if i \<noteq> length this
         then bind_result (sr_substr this 0 (int i)) (\<lambda>token.
              bind_result (sr_substr_from this (int i + 1)) (\<lambda>left. Inr (token, left, Some (this ! i))))
         else let (token, left) = sr_eat_all this in Inr (token, left, None))"

subsection \<open>Printing\<close>

definition hex_digit :: "u8 \<Rightarrow> u8" where
  "hex_digit n = (if n < 10 then 48 + n else 87 + n)"

definition is_special :: "u8 \<Rightarrow> bool" where
  "is_special b \<longleftrightarrow> b < 32 \<or> b \<ge> 127 \<or> b = 92"

fun additionalLength :: "bytes \<Rightarrow> nat" where
  "additionalLength [] = 0"
| "additionalLength (b # bs) =
     (if b = 92 then 1 else if b < 32 \<or> b \<ge> 127 then 3 else 0) + additionalLength bs"

function printable_loop :: "bytes \<Rightarrow> nat \<Rightarrow> nat \<Rightarrow> nat \<Rightarrow> bytes \<Rightarrow> (nat \<times> nat \<times> bytes) result" where
  "printable_loop data i beginCopy resultPos s =
     (if i < length data
      then let b = data ! i
           in if is_special b
              then bind_result (memcpy s (int resultPos) (take (i - beginCopy) (drop beginCopy data))) (\<lambda>s1.
                   let pos = resultPos + (i - beginCopy)
                   in if b = 92 then printable_loop data (i + 1) (i + 1) (pos + 2) s1
                      else bind_result (memcpy s1 (int (pos + 1)) [120]) (\<lambda>s2.
                           bind_result (memcpy s2 (int (pos + 2)) [hex_digit (drop_bit 4 b)]) (\<lambda>s3.
                           bind_result (memcpy s3 (int (pos + 3)) [hex_digit (b AND 0xf)])
                             (printable_loop data (i + 1) (i + 1) (pos + 4)))))
              else printable_loop data (i + 1) beginCopy resultPos s
      else Inr (beginCopy, resultPos, s))"
  by pat_completeness auto
termination printable_loop by (relation "measure (\<lambda>(data, i, _, _, _). length data - i)") auto

definition sr_printable :: "bytes \<Rightarrow> bytes result" where
  "sr_printable data =
     (let additional = additionalLength data
      in if additional = 0 then Inr data
         else bind_result (printable_loop data 0 0 0 (replicate (length data + additional) 92))
                (\<lambda>(beginCopy, resultPos, s).
                   if beginCopy < length data
                   then memcpy s (int resultPos) (drop beginCopy data) else Inr s))"

declare sr_eat_from.simps [simp del] printable_loop.simps [simp del]

subsection \<open>Comparison\<close>

lemma memcmp_zero:
  "n \<le> length xs \<Longrightarrow> n \<le> length ys \<Longrightarrow> memcmp xs ys n = 0 \<longleftrightarrow> take n xs = take n ys"
proof (induction xs ys n rule: memcmp.induct)
  case (1 x xs y ys n)
  then show ?case by (auto simp: word_uint_eq_iff)
qed auto

lemma sr_less_string_less: "sr_less xs ys \<longleftrightarrow> string_less xs ys"
proof (induction xs ys rule: string_less.induct)
  case (3 x xs y ys)
  then show ?case by (auto simp: sr_less_def Let_def word_less_def word_uint_eq_iff)
qed (simp_all add: sr_less_def)

lemma memcmp_swap: "memcmp ys xs n = - memcmp xs ys n"
proof (induction xs arbitrary: ys n)
  case Nil
  then show ?case by (cases ys) simp_all
next
  case (Cons x xs)
  then show ?case by (cases ys; cases n) simp_all
qed

lemma sr_greater_less: "sr_greater xs ys \<longleftrightarrow> string_less ys xs"
  using memcmp_swap [of xs ys] by (simp add: sr_less_string_less [symmetric] sr_greater_def sr_less_def Let_def min.commute)

lemma sr_eq_iff: "sr_eq xs ys \<longleftrightarrow> xs = ys"
  using memcmp_zero [of "length xs" xs ys] by (auto simp: sr_eq_def)

lemma string_less_total: "xs = ys \<or> string_less xs ys \<or> string_less ys xs"
proof (induction xs ys rule: string_less.induct)
  case (1 xs)
  then show ?case by (cases xs) simp_all
qed auto

lemma sr_compare_sign:
  "sr_compare xs ys < 0 \<longleftrightarrow> string_less xs ys"
  "sr_compare xs ys > 0 \<longleftrightarrow> string_less ys xs"
  "sr_compare xs ys = 0 \<longleftrightarrow> xs = ys"
proof -
  show lt: "sr_compare xs ys < 0 \<longleftrightarrow> string_less xs ys"
    by (simp add: sr_less_string_less [symmetric] sr_compare_def sr_less_def Let_def)
  show gt: "sr_compare xs ys > 0 \<longleftrightarrow> string_less ys xs"
    by (simp add: sr_greater_less [symmetric] sr_compare_def sr_greater_def Let_def)
  show "sr_compare xs ys = 0 \<longleftrightarrow> xs = ys"
    using lt gt string_less_total [of xs ys] string_less_irrefl [of xs] by auto
qed

lemma sr_startsWith_iff: "sr_startsWith this s \<longleftrightarrow> prefix s this"
proof -
  have "sr_startsWith this s \<longleftrightarrow> length s \<le> length this \<and> take (length s) this = s"
    using memcmp_zero [of "length s" this s] by (auto simp: sr_startsWith_def)
  also have "\<dots> \<longleftrightarrow> prefix s this"
    by (metis append_eq_conv_conj prefix_def prefix_length_le take_is_prefix)
  finally show ?thesis .
qed

lemma sr_endsWith_iff: "sr_endsWith this s \<longleftrightarrow> suffix s this"
proof -
  have "sr_endsWith this s \<longleftrightarrow> length s \<le> length this \<and> drop (length this - length s) this = s"
    using memcmp_zero [of "length s" "drop (length this - length s) this" s]
    by (auto simp: sr_endsWith_def)
  also have "\<dots> \<longleftrightarrow> suffix s this"
    by (metis append_eq_conv_conj length_drop diff_diff_cancel suffix_def suffix_drop suffix_length_le
        append_take_drop_id append_eq_append_conv length_append add_diff_cancel_right')
  finally show ?thesis .
qed

lemma arena_join_ok:
  assumes "length a + length b < 2 ^ 30"
  shows "arena_join a b = Inr (a @ b)"
proof -
  let ?n = "length a + length b"
  have "arena_new_array (int ?n) = Inr (replicate ?n None)"
    using assms by (simp add: arena_new_array_def INT_MAX_def sizeof_ArenaBlock_def nat_int_add del: replicate_add)
  then show ?thesis
    using assms by (simp add: arena_join_def INT_MAX_def memcpy_def comp_def del: replicate_add)
qed

subsection \<open>Tokens\<close>

lemma sr_eat_from_ok:
  assumes "0 \<le> i" and "\<forall>j. j < nat i \<longrightarrow> \<not> prefix sep (drop j this)" and "i \<le> int (length this)"
  shows "\<exists>token left. sr_eat_from this sep i = Inr (token, left) \<and>
    (if \<exists>j. prefix sep (drop j this) \<and> j \<le> length this
     then this = token @ sep @ left \<and> (\<forall>j < length token. \<not> prefix sep (drop j this))
     else token = this \<and> left = [])"
  using assms
proof (induction this sep i rule: sr_eat_from.induct)
  case (1 this sep i)
  show ?case
  proof (cases "i \<le> int (length this) - int (length sep)")
    case False
    have "\<not> (prefix sep (drop j this) \<and> j \<le> length this)" for j
    proof
      assume j: "prefix sep (drop j this) \<and> j \<le> length this"
      then have "int j + int (length sep) \<le> int (length this)" using prefix_length_le by fastforce
      then have "j < nat i" using False by linarith
      then show False using j "1.prems"(2) by blast
    qed
    then show ?thesis using False by (subst sr_eat_from.simps) (auto simp: sr_eat_all_def)
  next
    case inb: True
    let ?w = "take (length sep) (drop (nat i) this)"
    have w: "sr_substr this i (int (length sep)) = Inr ?w"
      using inb "1.prems"(1) by (simp add: sr_substr_def)
    have pre: "?w = sep \<longleftrightarrow> prefix sep (drop (nat i) this)"
      by (metis append_eq_conv_conj prefix_def take_is_prefix)
    show ?thesis
    proof (cases "?w = sep")
      case True
      have "this = take (nat i) this @ drop (nat i) this" by simp
      also have "drop (nat i) this = ?w @ drop (length sep) (drop (nat i) this)"
        by (rule append_take_drop_id [symmetric])
      finally have parts: "this = take (nat i) this @ sep @ drop (nat i + length sep) this"
        unfolding True by (simp add: add.commute)
      have "sr_eat_from this sep i = Inr (take (nat i) this, drop (nat i + length sep) this)"
        using w True inb "1.prems"(1)
        by (subst sr_eat_from.simps) (simp add: sr_compare_sign sr_substr_def sr_substr_from_def nat_add_distrib)
      moreover have "\<exists>j. prefix sep (drop j this) \<and> j \<le> length this"
        using pre True "1.prems"(1,3) by (intro exI [of _ "nat i"]) simp
      ultimately show ?thesis using parts "1.prems"(2) by auto
    next
      case False
      have step: "sr_eat_from this sep i = sr_eat_from this sep (i + 1)"
        using w False inb by (subst sr_eat_from.simps) (simp add: sr_compare_sign)
      have "sep \<noteq> []" using False by auto
      then have "i + 1 \<le> int (length this)" using inb by (cases sep) simp_all
      moreover have "\<forall>j. j < nat (i + 1) \<longrightarrow> \<not> prefix sep (drop j this)"
        using "1.prems"(1,2) False pre by (auto simp: nat_add_distrib less_Suc_eq)
      ultimately show ?thesis
        using "1.IH" [OF inb, of ?w] False "1.prems"(1) by (simp add: step sr_compare_sign)
    qed
  qed
qed

lemma find_first_of_ok:
  "find_first_of xs sep \<le> length xs"
  "\<forall>b \<in> set (take (find_first_of xs sep) xs). b \<notin> set sep"
  "find_first_of xs sep < length xs \<Longrightarrow> xs ! find_first_of xs sep \<in> set sep"
  by (induction xs) auto
subsection \<open>The printed form\<close>

definition esc :: "u8 \<Rightarrow> bytes" where
  "esc b = (if b = 92 then [92, 92]
            else if is_special b then [92, 120, hex_digit (drop_bit 4 b), hex_digit (b AND 0xf)]
            else [b])"

definition escaped :: "bytes \<Rightarrow> bytes" where
  "escaped bs = concat (map esc bs)"

lemma escaped_simps [simp]:
  "escaped [] = []" "escaped (b # bs) = esc b @ escaped bs" "escaped (xs @ ys) = escaped xs @ escaped ys"
  by (simp_all add: escaped_def)

lemma escaped_plain: "\<forall>b \<in> set bs. \<not> is_special b \<Longrightarrow> escaped bs = bs"
  by (induction bs) (auto simp: esc_def is_special_def)

lemma length_escaped: "length (escaped bs) = length bs + additionalLength bs"
  by (induction bs) (auto simp: esc_def is_special_def)

lemma additionalLength_0: "additionalLength bs = 0 \<Longrightarrow> \<forall>b \<in> set bs. \<not> is_special b"
  by (induction bs) (auto simp: is_special_def split: if_splits)

lemma memcpy_fill:
  "length xs \<le> k \<Longrightarrow> n = int (length P) \<Longrightarrow>
   memcpy (P @ replicate k c) n xs = Inr ((P @ xs) @ replicate (k - length xs) c)"
  by (simp add: memcpy_def)

lemma printable_loop_ok:
  assumes "bc \<le> i" and "i \<le> length data" and "\<forall>b \<in> set (take (i - bc) (drop bc data)). \<not> is_special b"
    and "s = escaped (take bc data) @ replicate (length (escaped (drop bc data))) 92"
    and "rp = length (escaped (take bc data))"
  shows "\<exists>bc'. bc' \<le> length data \<and> (\<forall>b \<in> set (drop bc' data). \<not> is_special b) \<and>
    printable_loop data i bc rp s =
      Inr (bc', length (escaped (take bc' data)),
        escaped (take bc' data) @ replicate (length (escaped (drop bc' data))) 92)"
  using assms
proof (induction data i bc rp s rule: printable_loop.induct)
  case (1 data i bc rp s)
  let ?seg = "take (i - bc) (drop bc data)"
  have split: "drop bc data = ?seg @ drop i data"
    using "1.prems"(1,2) by (metis append_take_drop_id drop_drop le_add_diff_inverse2)
  show ?case
  proof (cases "i < length data")
    case False
    then have "drop bc data = ?seg" using split by simp
    then have "\<forall>b \<in> set (drop bc data). \<not> is_special b" using "1.prems"(3) by simp
    then show ?thesis
      using False "1.prems" by (intro exI [of _ bc]) (subst printable_loop.simps, simp)
  next
    case True
    let ?b = "data ! i"
    have d: "drop i data = ?b # drop (i + 1) data" using True by (simp add: Cons_nth_drop_Suc)
    show ?thesis
    proof (cases "is_special ?b")
      case False
      have "take (i + 1 - bc) (drop bc data) = ?seg @ [?b]"
        using "1.prems"(1) True by (simp add: Suc_diff_le take_Suc_conv_app_nth)
      then show ?thesis
        using "1.IH"(3) [OF True refl False] "1.prems" False True
        by (subst printable_loop.simps) (simp add: Let_def)
    next
      case special: True
      define P where "P = escaped (take bc data) @ ?seg"
      define E where "E = escaped (drop (i + 1) data)"
      have seg: "escaped ?seg = ?seg" using "1.prems"(3) by (rule escaped_plain)
      have "escaped (drop bc data) = escaped (?seg @ drop i data)" by (rule arg_cong [OF split])
      then have k: "length (escaped (drop bc data)) = length ?seg + (length (esc ?b) + length E)"
        unfolding d E_def by (simp only: escaped_simps seg length_append)
      have "take (i + 1) data = take bc data @ ?seg @ [?b]"
        using "1.prems"(1) True
        by (metis Suc_eq_plus1 append.assoc le_add_diff_inverse take_Suc_conv_app_nth take_add)
      then have P': "escaped (take (i + 1) data) = P @ esc ?b" by (simp add: P_def seg)
      have pos: "rp + (i - bc) = length P"
        using "1.prems"(1,2,5) by (simp add: P_def)
      have s1: "memcpy s (int rp) ?seg = Inr (P @ replicate (length (esc ?b) + length E) 92)"
        unfolding "1.prems"(4) k by (subst memcpy_fill) (simp_all add: "1.prems"(5) P_def)
      show ?thesis
      proof (cases "?b = 92")
        case True
        have "P @ replicate (length (esc ?b) + length E) 92 =
            escaped (take (i + 1) data) @ replicate (length E) 92"
          unfolding P' using True by (simp add: esc_def)
        moreover have "length P + 2 = length (escaped (take (i + 1) data))"
          unfolding P' using True by (simp add: esc_def)
        ultimately show ?thesis
          using "1.IH"(1) [OF \<open>i < length data\<close> refl special refl True] special True s1 pos \<open>i < length data\<close>
          by (subst printable_loop.simps) (simp add: Let_def E_def)
      next
        case False
        then have e: "esc ?b = [92, 120, hex_digit (drop_bit 4 ?b), hex_digit (?b AND 0xf)]"
          using special by (simp add: esc_def)
        let ?h = "hex_digit (drop_bit 4 ?b)" and ?l = "hex_digit (?b AND 0xf)"
        have r: "P @ replicate (length (esc ?b) + length E) 92 = (P @ [92]) @ replicate (3 + length E) 92"
          by (simp add: e eval_nat_numeral)
        have s2: "memcpy (P @ replicate (length (esc ?b) + length E) 92) (int (length P + 1)) [120] =
            Inr ((P @ [92, 120]) @ replicate (2 + length E) 92)"
          unfolding r by (subst memcpy_fill) simp_all
        have s3: "memcpy ((P @ [92, 120]) @ replicate (2 + length E) 92) (int (length P + 2)) [?h] =
            Inr ((P @ [92, 120, ?h]) @ replicate (1 + length E) 92)"
          by (subst memcpy_fill) simp_all
        have s4: "memcpy ((P @ [92, 120, ?h]) @ replicate (1 + length E) 92) (int (length P + 3)) [?l] =
            Inr ((P @ esc ?b) @ replicate (length E) 92)"
          by (subst memcpy_fill) (simp_all add: e)
        have "printable_loop data i bc rp s =
            printable_loop data (i + 1) (i + 1) (length P + 4) (escaped (take (i + 1) data) @ replicate (length E) 92)"
          using True special False s1 s2 s3 s4 pos P'
          by (subst printable_loop.simps) (simp add: Let_def)
        moreover have "length P + 4 = length (escaped (take (i + 1) data))"
          unfolding P' by (simp add: e)
        ultimately show ?thesis
          using "1.IH"(2) [OF \<open>i < length data\<close> refl special refl False, unfolded pos]
            True P' by (simp add: E_def)
      qed
    qed
  qed
qed

lemma sr_printable_ok: "sr_printable data = Inr (escaped data)"
proof (cases "additionalLength data = 0")
  case True
  then show ?thesis using additionalLength_0 escaped_plain by (simp add: sr_printable_def Let_def)
next
  case False
  have "printable_loop data 0 0 0 (replicate (length data + additionalLength data) 92) =
      printable_loop data 0 0 0 (escaped (take 0 data) @ replicate (length (escaped (drop 0 data))) 92)"
    by (simp add: length_escaped)
  then obtain bc where bc: "bc \<le> length data" "\<forall>b \<in> set (drop bc data). \<not> is_special b"
      "printable_loop data 0 0 0 (replicate (length data + additionalLength data) 92) =
        Inr (bc, length (escaped (take bc data)),
          escaped (take bc data) @ replicate (length (escaped (drop bc data))) 92)"
    using printable_loop_ok [of 0 0 data "replicate (length (escaped data)) 92" 0] by auto
  have e: "escaped (drop bc data) = drop bc data" using bc(2) by (rule escaped_plain)
  have "escaped data = escaped (take bc data @ drop bc data)" by simp
  also have "\<dots> = escaped (take bc data) @ drop bc data" by (simp only: escaped_simps e)
  finally have all: "escaped data = escaped (take bc data) @ drop bc data" .
  show ?thesis
  proof (cases "bc < length data")
    case True
    have "memcpy (escaped (take bc data) @ replicate (length (drop bc data)) 92)
        (int (length (escaped (take bc data)))) (drop bc data) = Inr (escaped data)"
      by (subst memcpy_fill) (simp_all add: all)
    then have "bind_result (printable_loop data 0 0 0 (replicate (length data + additionalLength data) 92))
        (\<lambda>(beginCopy, resultPos, s). if beginCopy < length data
           then memcpy s (int resultPos) (drop beginCopy data) else Inr s) = Inr (escaped data)"
      unfolding bc(3) e using True by simp
    then show ?thesis using False by (simp only: sr_printable_def Let_def if_False)
  next
    case False
    then have "bind_result (printable_loop data 0 0 0 (replicate (length data + additionalLength data) 92))
        (\<lambda>(beginCopy, resultPos, s). if beginCopy < length data
           then memcpy s (int resultPos) (drop beginCopy data) else Inr s) = Inr (escaped data)"
      unfolding bc(3) all by (simp add: e)
    then show ?thesis
      using \<open>additionalLength data \<noteq> 0\<close> by (simp only: sr_printable_def Let_def if_False)
  qed
qed
lemma unat_hex_digit:
  assumes "unat n < 16"
  shows "unat (hex_digit n) = (if unat n < 10 then 48 + unat n else 87 + unat n)"
  using assms by (simp add: hex_digit_def word_less_nat_alt unat_word_ariths)

lemma hex_digit_inj: "unat m < 16 \<Longrightarrow> unat n < 16 \<Longrightarrow> hex_digit m = hex_digit n \<Longrightarrow> m = n"
  by (simp add: word_unat_eq_iff unat_hex_digit split: if_splits)

lemma nibbles:
  "unat (drop_bit 4 (b :: u8)) = unat b div 16" "unat (b AND 0xf) = unat b mod 16"
proof -
  show "unat (drop_bit 4 b) = unat b div 16" unfolding unat_drop_bit_eq by (simp add: drop_bit_eq_div)
  show "unat (b AND 0xf) = unat b mod 16" using unat_and_mask [of "0xf :: u8" 4 b] by simp
qed

lemma esc_prefix_free:
  assumes "esc a @ xs = esc b @ ys"
  shows "a = b \<and> xs = ys"
proof (cases "is_special a \<and> is_special b \<and> a \<noteq> 92 \<and> b \<noteq> 92")
  case True
  have small: "unat (drop_bit 4 c) < 16" "unat (c AND 0xf) < 16" for c :: u8
    using unat_u8_less [of c] by (simp_all add: nibbles less_mult_imp_div_less)
  have "hex_digit (drop_bit 4 a) = hex_digit (drop_bit 4 b)" "hex_digit (a AND 0xf) = hex_digit (b AND 0xf)" "xs = ys"
    using assms True by (simp_all add: esc_def)
  then have "unat a div 16 = unat b div 16" "unat a mod 16 = unat b mod 16"
    using hex_digit_inj small by (metis nibbles(1), metis nibbles(2))
  then have "unat a = unat b" by (metis div_mult_mod_eq)
  then show ?thesis using \<open>xs = ys\<close> by (simp add: word_unat_eq_iff)
next
  case False
  then show ?thesis using assms by (auto simp: esc_def is_special_def split: if_splits)
qed

lemma escaped_inj: "escaped xs = escaped ys \<Longrightarrow> xs = ys"
proof (induction xs arbitrary: ys)
  case Nil
  then show ?case by (cases ys) (simp_all add: esc_def split: if_splits)
next
  case (Cons x xs)
  then obtain y zs where ys: "ys = y # zs" by (cases ys) (simp_all add: esc_def split: if_splits)
  then show ?case using Cons esc_prefix_free [of x "escaped xs" y "escaped zs"] by auto
qed

subsection \<open>Properties\<close>

text \<open>
  The comparison operators of \<open>StringRef\<close> and \<open>compare\<close> all decide one strict total order,
  the lexicographic order of unsigned bytes in which a proper prefix is smaller; \<open>==\<close> is equality,
  and \<open>startsWith\<close> and \<open>endsWith\<close> are the prefix and suffix relations.
\<close>

theorem stringref_order:
  "sr_less x y = string_less x y \<and> sr_greater x y = string_less y x \<and> sr_le x y = (x = y \<or> string_less x y) \<and>
   sr_ge x y = (x = y \<or> string_less y x) \<and> sr_eq x y = (x = y) \<and> sr_neq x y = (x \<noteq> y) \<and>
   (sr_compare x y < 0) = sr_less x y \<and> (sr_compare x y = 0) = sr_eq x y \<and>
   (sr_compare x y > 0) = sr_greater x y \<and>
   \<not> string_less x x \<and> (string_less x y \<and> string_less y z \<longrightarrow> string_less x z) \<and>
   (x = y \<or> string_less x y \<or> string_less y x) \<and>
   sr_startsWith x y = (\<exists>zs. x = y @ zs) \<and> sr_endsWith x y = (\<exists>zs. x = zs @ y)"
  using string_less_total [of x y] string_less_trans string_less_irrefl
  by (auto simp: sr_less_string_less sr_greater_less sr_eq_iff sr_neq_def sr_le_def sr_ge_def
      sr_compare_sign sr_startsWith_iff sr_endsWith_iff prefix_def suffix_def)

theorem stringref_order_witness: "string_less [1] [1, 0] \<and> string_less [1, 0] [2] \<and> string_less [1] [2]"
proof -
  have "string_less [1] [1, 0]" "string_less [1, 0] [2]" by simp_all
  then show ?thesis using stringref_order [of "[1]" "[1, 0]" "[2]"] by blast
qed

text \<open>
  Adding a prefix or suffix and removing it again gives the view back, and removing one
  that is longer than the view fails its assertion.
\<close>

theorem prefix_suffix_roundtrip:
  assumes "length s + length t < 2 ^ 30" and "length s < length long"
  shows "bind_result (sr_withPrefix s t) (\<lambda>r. sr_removePrefix r t) = Inr s \<and>
    bind_result (sr_withSuffix s t) (\<lambda>r. sr_removeSuffix r t) = Inr s \<and>
    bind_result (sr_withPrefix s t) (\<lambda>r. Inr (sr_startsWith r t)) = Inr True \<and>
    bind_result (sr_withSuffix s t) (\<lambda>r. Inr (sr_endsWith r t)) = Inr True \<and>
    sr_removePrefix s long = Inl Assert_failed \<and> sr_removeSuffix s long = Inl Assert_failed"
  using assms arena_join_ok [of s t] arena_join_ok [of t s]
  by (simp add: sr_withPrefix_def sr_withSuffix_def sr_removePrefix_def sr_removeSuffix_def
      sr_substr_def sr_substr_from_def sr_startsWith_iff sr_endsWith_iff suffix_def)

theorem prefix_suffix_roundtrip_witness:
  "bind_result (sr_withPrefix [1, 2] [3]) (\<lambda>r. sr_removePrefix r [3]) = Inr [1, 2]"
  using prefix_suffix_roundtrip [of "[1, 2]" "[3]" "[1, 2, 3]"] by simp

text \<open>
  \<open>eat\<close> splits the view at the first occurrence of the separator, removes it from what is
  left, and takes everything when there is none; \<open>eatAny\<close> does so at the first byte that is one of
  the separator bytes and reports which one it was.
\<close>

theorem eat_splits:
  "(\<exists>token left. sr_eat this sep = Inr (token, left) \<and>
     (if \<exists>before after. this = before @ sep @ after
      then this = token @ sep @ left \<and> (\<nexists>before after. this = before @ sep @ after \<and> length before < length token)
      else token = this \<and> left = [])) \<and>
   (\<exists>token left found. sr_eatAny this sep = Inr (token, left, found) \<and> set token \<inter> set sep = {} \<and>
     (case found of None \<Rightarrow> token = this \<and> left = []
      | Some b \<Rightarrow> this = token @ b # left \<and> b \<in> set sep))"
proof (intro conjI)
  have occurs: "(\<exists>j. prefix sep (drop j this) \<and> j \<le> length this) \<longleftrightarrow> (\<exists>before after. this = before @ sep @ after)"
  proof
    assume "\<exists>j. prefix sep (drop j this) \<and> j \<le> length this"
    then show "\<exists>before after. this = before @ sep @ after" by (metis append_take_drop_id prefix_def)
  next
    assume "\<exists>before after. this = before @ sep @ after"
    then obtain before after where "this = before @ sep @ after" by blast
    then show "\<exists>j. prefix sep (drop j this) \<and> j \<le> length this"
      by (intro exI [of _ "length before"]) (simp add: prefix_def)
  qed
  have first: "prefix sep (drop (length before) this)" if "this = before @ sep @ after" for before after
    using that by (simp add: prefix_def)
  obtain token left where e: "sr_eat this sep = Inr (token, left)"
      "if \<exists>before after. this = before @ sep @ after
       then this = token @ sep @ left \<and> (\<forall>j < length token. \<not> prefix sep (drop j this))
       else token = this \<and> left = []"
    using sr_eat_from_ok [of 0 sep this] unfolding occurs sr_eat_def by auto
  then have "\<exists>before after. this = before @ sep @ after \<Longrightarrow>
      \<nexists>before after. this = before @ sep @ after \<and> length before < length token"
    using first by metis
  then show "\<exists>token left. sr_eat this sep = Inr (token, left) \<and>
     (if \<exists>before after. this = before @ sep @ after
      then this = token @ sep @ left \<and> (\<nexists>before after. this = before @ sep @ after \<and> length before < length token)
      else token = this \<and> left = [])"
    using e by (intro exI [of _ token] exI [of _ left]) metis
next
  let ?i = "find_first_of this sep"
  note f = find_first_of_ok [of this sep]
  show "\<exists>token left found. sr_eatAny this sep = Inr (token, left, found) \<and> set token \<inter> set sep = {} \<and>
     (case found of None \<Rightarrow> token = this \<and> left = [] | Some b \<Rightarrow> this = token @ b # left \<and> b \<in> set sep)"
  proof (cases "?i = length this")
    case True
    then show ?thesis using f(2) by (auto simp: sr_eatAny_def sr_eat_all_def)
  next
    case False
    then have lt: "?i < length this" using f(1) by simp
    then have "this = take ?i this @ this ! ?i # drop (Suc ?i) this" by (simp add: id_take_nth_drop)
    moreover have "sr_eatAny this sep = Inr (take ?i this, drop (Suc ?i) this, Some (this ! ?i))"
      using lt by (simp add: sr_eatAny_def Let_def sr_substr_def sr_substr_from_def nat_add_distrib)
    ultimately show ?thesis using f(2,3) lt by auto
  qed
qed

text \<open>
  \<open>printable\<close>, which computes the length first and then fills a preset buffer run by run,
  never writes outside it and returns the reference form: each byte escaped on its own.  Different
  strings have different printed forms.
\<close>

theorem printable_correct:
  "sr_printable data = Inr (concat (map esc data)) \<and> (sr_printable x = sr_printable y) = (x = y)"
  using escaped_inj [of x y] by (auto simp: sr_printable_ok escaped_def)

end
