(* ===== verification/Flow_Util.thy ===== *)
theory Flow_Util
  imports String_Ref
begin

text \<open>
  The helpers of \<open>src/flow/flow.cpp\<close>: printing and parsing of \<open>UID\<close>s, sizes with a unit suffix,
  \<open>strinc\<close>, version stamps and the per-line buggify switches.  A \<open>std::string\<close> is its bytes; the C
  functions it is passed to see it up to the first zero byte.
\<close>

subsection \<open>C library\<close>

definition c_str :: "bytes \<Rightarrow> bytes" where
  "c_str s = takeWhile (\<lambda>b. b \<noteq> 0) s"

definition isspace :: "u8 \<Rightarrow> bool" where
  "isspace b \<longleftrightarrow> b = 32 \<or> (9 \<le> b \<and> b \<le> 13)"

definition isdigit :: "u8 \<Rightarrow> bool" where
  "isdigit b \<longleftrightarrow> 48 \<le> b \<and> b \<le> 57"

definition isxdigit :: "u8 \<Rightarrow> bool" where
  "isxdigit b \<longleftrightarrow> isdigit b \<or> (97 \<le> b \<and> b \<le> 102) \<or> (65 \<le> b \<and> b \<le> 70)"

definition digit_val :: "u8 \<Rightarrow> nat" where
  "digit_val b = (if isdigit b then unat b - 48 else if 97 \<le> b then unat b - 87 else unat b - 55)"

definition num_val :: "nat \<Rightarrow> bytes \<Rightarrow> nat" where
  "num_val base ds = foldl (\<lambda>acc d. acc * base + digit_val d) 0 ds"

text \<open>A sign: whether it negates, and what follows.\<close>

definition scan_sign :: "bytes \<Rightarrow> bool \<times> bytes" where
  "scan_sign s = (case s of [] \<Rightarrow> (False, [])
     | c # cs \<Rightarrow> if c = 45 then (True, cs) else if c = 43 then (False, cs) else (False, s))"

text \<open>
  \<open>strtoull(s, &endptr, 10)\<close>: white space, a sign, digits.  A value that does not fit is
  \<open>ULLONG_MAX\<close>; without digits nothing is consumed, which is \<open>None\<close>.
\<close>

definition strtoull :: "bytes \<Rightarrow> (u64 \<times> bytes) option" where
  "strtoull s =
     (let (neg, s1) = scan_sign (dropWhile isspace s); ds = takeWhile isdigit s1; n = num_val 10 ds
      in if ds = [] then None
         else Some (if n \<ge> 2 ^ 64 then - 1 else if neg then - word_of_nat n else word_of_nat n,
                    dropWhile isdigit s1))"

text \<open>The \<open>%16llx\<close> conversion: at most 16 characters of an optionally signed and prefixed number.\<close>

definition scan_hex16 :: "bytes \<Rightarrow> (u64 \<times> bytes) option" where
  "scan_hex16 s =
     (let s0 = dropWhile isspace s; (neg, s1) = scan_sign s0;
          w1 = 16 - (length s0 - length s1);
          pre = (case s1 of z # x # _ \<Rightarrow> z = 48 \<and> (x = 120 \<or> x = 88) | _ \<Rightarrow> False);
          s2 = (if pre then drop 2 s1 else s1); w2 = (if pre then w1 - 2 else w1);
          ds = takeWhile isxdigit (take w2 s2); n = num_val 16 ds
      in if ds = [] then None
         else Some (if neg then - word_of_nat n else word_of_nat n, drop (length ds) s2))"

fun format_hex :: "nat \<Rightarrow> u64 \<Rightarrow> bytes" where
  "format_hex 0 x = []"
| "format_hex (Suc n) x = format_hex n (drop_bit 4 x) @ [hex_digit (ucast (x AND 0xf))]"

subsection \<open>UID\<close>

record uid =
  uid_part0 :: u64
  uid_part1 :: u64

definition uid_toString :: "uid \<Rightarrow> bytes" where
  "uid_toString u = format_hex 16 (uid_part0 u) @ format_hex 16 (uid_part1 u)"

definition uid_fromString :: "bytes \<Rightarrow> uid result" where
  "uid_fromString s =
     (if length s \<noteq> 32 then Inl Assert_failed
      else case scan_hex16 (c_str s) of
             None \<Rightarrow> Inl Assert_failed
           | Some (a, rest) \<Rightarrow>
               (case scan_hex16 rest of
                  None \<Rightarrow> Inl Assert_failed
                | Some (b, _) \<Rightarrow> Inr \<lparr>uid_part0 = a, uid_part1 = b\<rparr>))"

definition uid_shortString :: "uid \<Rightarrow> bytes" where
  "uid_shortString u = format_hex 16 (uid_part0 u)"

subsection \<open>Sizes with a unit\<close>

definition lit :: "string \<Rightarrow> bytes" where
  "lit s = map of_char s"

definition unit_multiplier :: "bytes \<Rightarrow> u64 option" where
  "unit_multiplier u =
     (if u = lit ''B'' then Some 1
      else if u = lit ''KB'' then Some (10 ^ 3)
      else if u = lit ''KiB'' then Some (2 ^ 10)
      else if u = lit ''MB'' then Some (10 ^ 6)
      else if u = lit ''MiB'' then Some (2 ^ 20)
      else if u = lit ''GB'' then Some (10 ^ 9)
      else if u = lit ''GiB'' then Some (2 ^ 30)
      else if u = lit ''TB'' then Some (10 ^ 12)
      else if u = lit ''TiB'' then Some (2 ^ 40)
      else None)"

definition parse_with_suffix :: "bytes \<Rightarrow> bytes \<Rightarrow> u64 option" where
  "parse_with_suffix toparse default_unit =
     (case strtoull (c_str toparse) of
        None \<Rightarrow> None
      | Some (ret, endptr) \<Rightarrow>
          if endptr = []
          then if default_unit \<noteq> []
               then (case unit_multiplier default_unit of None \<Rightarrow> None | Some f \<Rightarrow> Some (ret * f))
               else None
          else (case unit_multiplier endptr of None \<Rightarrow> None | Some f \<Rightarrow> Some (ret * f)))"

subsection \<open>Keys\<close>

fun strinc_index :: "bytes \<Rightarrow> nat \<Rightarrow> int" where
  "strinc_index str 0 = - 1"
| "strinc_index str (Suc index) = (if str ! index \<noteq> 255 then int index else strinc_index str index)"

definition strinc :: "bytes \<Rightarrow> bytes result" where
  "strinc str =
     (let index = strinc_index str (length str)
      in bind_result (assert_that (index \<ge> 0)) (\<lambda>_.
         let r = take (nat (index + 1)) str in Inr (r[length r - 1 := r ! (length r - 1) + 1])))"

definition addVersionStampAtEnd :: "bytes \<Rightarrow> bytes result" where
  "addVersionStampAtEnd str =
     (let n = int (length str)
      in if n + 14 > INT_MAX then Inl Undefined_behaviour
         else bind_result (arena_new_array (n + 14)) (\<lambda>s.
              bind_result (memcpy s 0 (map Some str)) (\<lambda>s1.
              bind_result (memcpy s1 n (replicate 10 (Some 0))) (\<lambda>s2.
              bind_result (memcpy s2 (n + 10) (map Some (item_bytes (word_of_int n :: u32)))) (\<lambda>s3.
                Inr (map the s3))))))"

subsection \<open>Buggify switches\<close>

text \<open>
  The random source is a parameter: a step \<open>draw\<close> that decides \<open>random01() <
  P_BUGGIFIED_SECTION_ACTIVATED\<close> and advances the generator.
\<close>

record 'g buggify_state =
  buggifyActivated :: bool
  SBVars :: "(bytes \<times> int) \<rightharpoonup> bool"
  generator :: 'g

definition getSBVar ::
  "('g \<Rightarrow> bool \<times> 'g) \<Rightarrow> bytes \<Rightarrow> int \<Rightarrow> 'g buggify_state \<Rightarrow> bool \<times> 'g buggify_state" where
  "getSBVar draw file line st =
     (if \<not> buggifyActivated st then (False, st)
      else case SBVars st (file, line) of
             Some v \<Rightarrow> (v, st)
           | None \<Rightarrow> let (v, g) = draw (generator st)
                     in (v, st\<lparr>SBVars := (SBVars st)((file, line) \<mapsto> v), generator := g\<rparr>))"

definition enableBuggify :: "bool \<Rightarrow> 'g buggify_state \<Rightarrow> 'g buggify_state" where
  "enableBuggify enabled st = st\<lparr>buggifyActivated := enabled\<rparr>"

definition validationIsEnabled :: "'g buggify_state \<Rightarrow> bool" where
  "validationIsEnabled st = buggifyActivated st"

subsection \<open>Hexadecimal numbers\<close>

lemma unat_nibble: "unat (ucast (x AND 0xf :: u64) :: u8) = unat x mod 16"
proof -
  have "unat (x AND 0xf) = unat x mod 16" using unat_and_mask [of "0xf :: u64" 4 x] by simp
  then have "unat (x AND 0xf) < 256" using mod_less_divisor [of 16 "unat x"] by simp
  then show ?thesis using \<open>unat (x AND 0xf) = _\<close>
    by (simp add: unsigned_ucast_eq take_bit_nat_eq_self)
qed

lemma hex_digit_props:
  assumes "unat n < 16"
  shows "isxdigit (hex_digit n)" and "digit_val (hex_digit n) = unat n"
    and "hex_digit n \<noteq> 0" and "hex_digit n \<noteq> 45" and "hex_digit n \<noteq> 43" and "\<not> isspace (hex_digit n)"
    and "hex_digit n \<noteq> 120" and "hex_digit n \<noteq> 88"
  using unat_hex_digit [OF assms] assms
  by (auto simp: isxdigit_def isdigit_def digit_val_def isspace_def word_le_nat_alt word_unat_eq_iff
      split: if_splits)

lemma length_format_hex [simp]: "length (format_hex n x) = n"
  by (induction n arbitrary: x) simp_all

lemma format_hex_digits: "\<forall>c \<in> set (format_hex n x). \<exists>d. unat d < 16 \<and> c = hex_digit d"
proof (induction n arbitrary: x)
  case (Suc n)
  have "unat (ucast (x AND 0xf) :: u8) < 16" by (simp add: unat_nibble)
  then show ?case using Suc by auto
qed simp

lemma num_val_snoc: "num_val base (ds @ [d]) = num_val base ds * base + digit_val d"
  by (simp add: num_val_def)

lemma num_val_format_hex: "num_val 16 (format_hex n x) = unat x mod 16 ^ n"
proof (induction n arbitrary: x)
  case 0
  then show ?case by (simp add: num_val_def)
next
  case (Suc n)
  have "unat (drop_bit 4 x) = unat x div 16"
    unfolding unat_drop_bit_eq by (simp add: drop_bit_eq_div)
  moreover have "digit_val (hex_digit (ucast (x AND 0xf))) = unat x mod 16"
    by (simp add: hex_digit_props unat_nibble)
  ultimately show ?case using Suc by (simp add: num_val_snoc mod_mult2_eq)
qed

lemma scan_hex16_format:
  "scan_hex16 (format_hex 16 x @ rest) = Some (x, rest)"
proof -
  let ?h = "format_hex 16 x"
  have len: "length ?h = 16" by simp
  obtain c t where t: "?h = c # t" using len by (cases ?h) auto
  then obtain d cs where "t = d # cs" using len by (cases t) auto
  then have h: "?h = c # d # cs" using t by simp
  have all: "\<forall>c \<in> set ?h. isxdigit c \<and> c \<noteq> 45 \<and> c \<noteq> 43 \<and> \<not> isspace c \<and> c \<noteq> 120 \<and> c \<noteq> 88"
  proof
    fix c assume "c \<in> set ?h"
    then obtain d where "unat d < 16" "c = hex_digit d" using format_hex_digits [of 16 x] by blast
    then show "isxdigit c \<and> c \<noteq> 45 \<and> c \<noteq> 43 \<and> \<not> isspace c \<and> c \<noteq> 120 \<and> c \<noteq> 88"
      using hex_digit_props [of d] by simp
  qed
  have sp: "dropWhile isspace (?h @ rest) = ?h @ rest" using all h by simp
  have sg: "scan_sign (?h @ rest) = (False, ?h @ rest)" using all h by (simp add: scan_sign_def)
  have tw: "takeWhile isxdigit (take 16 (?h @ rest)) = ?h"
    using all by (simp add: takeWhile_eq_all_conv)
  have "num_val 16 ?h = unat x" using unsigned_less [where 'a = nat and 'b = 64, of x] by (simp add: num_val_format_hex)
  then show ?thesis
    unfolding scan_hex16_def sp sg Let_def using tw all h by simp
qed

lemma c_str_id: "0 \<notin> set s \<Longrightarrow> c_str s = s"
  unfolding c_str_def by (simp add: takeWhile_eq_all_conv) (metis)

subsection \<open>Ranges of keys with a prefix\<close>

lemma strinc_index_ok:
  assumes "n \<le> length str" and "\<forall>i. n \<le> i \<and> i < length str \<longrightarrow> str ! i = 255"
  shows "(strinc_index str n = - 1 \<and> (\<forall>i < length str. str ! i = 255)) \<or>
    (\<exists>k < length str. strinc_index str n = int k \<and> str ! k \<noteq> 255 \<and> (\<forall>i. k < i \<and> i < length str \<longrightarrow> str ! i = 255))"
  using assms
proof (induction n)
  case (Suc n)
  show ?case
  proof (cases "str ! n = 255")
    case True
    have "\<forall>i. n \<le> i \<and> i < length str \<longrightarrow> str ! i = 255"
      using Suc.prems(2) True by (metis le_eq_less_or_eq Suc_le_eq)
    then show ?thesis using Suc True by simp
  next
    case False
    then show ?thesis using Suc.prems by (intro disjI2 exI [of _ n]) (auto simp: Suc_le_eq)
  qed
qed simp

lemma string_less_same_prefix: "string_less (p @ a) (p @ b) \<longleftrightarrow> string_less a b"
  by (induction p) simp_all

lemma u8_max: "(y :: u8) < 255 \<longleftrightarrow> y \<noteq> 255"
proof -
  have "y = 255 \<longleftrightarrow> unat y = 255" by (simp add: word_unat_eq_iff)
  then show ?thesis using unat_u8_le [of y] by (auto simp: word_less_nat_alt)
qed

lemma prefix_all_max: "prefix (replicate k 255) x \<longleftrightarrow> \<not> string_less x (replicate k 255)"
proof (induction k arbitrary: x)
  case (Suc k)
  then show ?case by (cases x) (auto simp: u8_max)
qed simp

lemma u8_less_succ: "c \<noteq> 255 \<Longrightarrow> (y :: u8) < c + 1 \<longleftrightarrow> y \<le> c"
proof -
  assume "c \<noteq> 255"
  then have "unat c < 255" using u8_max [of c] by (simp add: word_less_nat_alt)
  then have "unat (c + 1) = unat c + 1" by (simp add: unat_word_ariths)
  then show ?thesis by (simp add: word_less_nat_alt word_le_nat_alt less_Suc_eq_le)
qed

lemma prefix_range:
  assumes "c \<noteq> 255"
  shows "prefix (p @ c # replicate k 255) x \<longleftrightarrow>
    \<not> string_less x (p @ c # replicate k 255) \<and> string_less x (p @ [c + 1])"
proof (induction p arbitrary: x)
  case Nil
  then show ?case
    using prefix_all_max [of k] u8_less_succ [OF assms] by (cases x) (auto simp: not_less)
next
  case (Cons a p)
  then show ?case by (cases x) auto
qed
lemma strinc_ok:
  "strinc str = Inl Assert_failed \<and> set str \<subseteq> {255} \<or>
   (\<exists>p c k. str = p @ c # replicate k 255 \<and> c \<noteq> 255 \<and> strinc str = Inr (p @ [c + 1]))"
proof -
  consider "strinc_index str (length str) = - 1" "\<forall>i < length str. str ! i = 255"
    | j where "j < length str" "strinc_index str (length str) = int j" "str ! j \<noteq> 255"
        "\<forall>i. j < i \<and> i < length str \<longrightarrow> str ! i = 255"
  proof -
    have "\<forall>i. length str \<le> i \<and> i < length str \<longrightarrow> str ! i = 255" by auto
    then show thesis using strinc_index_ok [of "length str" str] that by blast
  qed
  then show ?thesis
  proof cases
    case 1
    then have "set str \<subseteq> {255}" by (auto simp: in_set_conv_nth)
    then show ?thesis using 1(1) by (simp add: strinc_def)
  next
    case 2
    have "drop (Suc j) str = replicate (length str - Suc j) 255"
      using 2(1,4) by (intro nth_equalityI) auto
    then have str: "str = take j str @ str ! j # replicate (length str - Suc j) 255"
      using id_take_nth_drop [OF 2(1)] by simp
    have "take (Suc j) str = take j str @ [str ! j]" using 2(1) by (rule take_Suc_conv_app_nth)
    then have "strinc str = Inr (take j str @ [str ! j + 1])"
      using 2(1,2) by (simp add: strinc_def Let_def nat_add_distrib nth_append list_update_append)
    then show ?thesis using str 2(3) by blast
  qed
qed

subsection \<open>Properties\<close>

text \<open>
  A \<open>UID\<close> prints as 32 hexadecimal digits that \<open>fromString\<close> reads back; a string of any
  other length fails its assertion.
\<close>

theorem uid_roundtrip:
  "uid_fromString (uid_toString u) = Inr u \<and> length (uid_toString u) = 32 \<and>
   uid_toString u = uid_shortString u @ format_hex 16 (uid_part1 u) \<and>
   (length s \<noteq> 32 \<longrightarrow> uid_fromString s = Inl Assert_failed)"
proof -
  have nz: "0 \<notin> set (format_hex n x)" for n x
    using format_hex_digits [of n x] hex_digit_props(3) by metis
  have "c_str (uid_toString u) = uid_toString u"
    by (intro c_str_id) (simp add: uid_toString_def nz)
  then have "uid_fromString (uid_toString u) = Inr u"
    using scan_hex16_format [of "uid_part1 u" "[]"]
    by (simp add: uid_fromString_def uid_toString_def scan_hex16_format)
  then show ?thesis by (simp add: uid_toString_def uid_shortString_def uid_fromString_def)
qed

theorem uid_roundtrip_witness: "uid_fromString [48, 49] = Inl Assert_failed"
  using uid_roundtrip [where s = "[48, 49]"] by simp

text \<open>
  \<open>strinc\<close> returns the least key above every key with the given prefix: the keys between
  the two are exactly those that start with it.  It fails its assertion exactly when every byte of
  the string is 255, where no such key exists.
\<close>

theorem strinc_bounds_prefix:
  "case strinc str of
     Inr r \<Rightarrow> (\<forall>x. prefix str x = (sr_ge x str \<and> sr_less x r))
   | Inl e \<Rightarrow> e = Assert_failed \<and> set str \<subseteq> {255} \<and> (\<forall>r. \<exists>x. prefix str x \<and> \<not> sr_less x r)"
proof -
  consider "strinc str = Inl Assert_failed" "set str \<subseteq> {255}"
    | p c k where "str = p @ c # replicate k 255" "c \<noteq> 255" "strinc str = Inr (p @ [c + 1])"
    using strinc_ok by blast
  then show ?thesis
  proof cases
    case 1
    then have str: "str = replicate (length str) 255" by (simp add: replicate_eqI subset_iff)
    have "\<not> string_less (str @ replicate (length r) 255) r" for r
    proof -
      have "\<not> string_less (replicate n 255) r" if "length r \<le> n" for n
        using that
      proof (induction r arbitrary: n)
        case (Cons y r)
        then show ?case using unat_u8_le [of y] by (cases n) (auto simp: word_less_nat_alt)
      qed simp
      then show ?thesis by (subst str) (simp flip: replicate_add)
    qed
    then show ?thesis using 1 by (auto simp: sr_less_string_less prefix_def)
  next
    case 2
    then show ?thesis using prefix_range [OF 2(2), of p k]
      by (simp add: sr_ge_def sr_less_string_less)
  qed
qed

lemma takeWhile_digits:
  assumes "\<forall>d \<in> set ds. isdigit d" and "u = [] \<or> \<not> isdigit (hd u)"
  shows "takeWhile isdigit (ds @ u) = ds" and "dropWhile isdigit (ds @ u) = u"
  using assms by (induction ds) (cases u; auto)+

text \<open>
  \<open>parse_with_suffix\<close> on digits followed by a unit returns the number times the unit's
  factor, as 64-bit arithmetic: a number beyond 64 bits is read as the largest one and the product
  wraps.  Without a unit the default applies; no digits, no unit at all, or an unknown unit give no
  value.
\<close>

theorem parse_with_suffix_correct:
  assumes "\<forall>d \<in> set ds. isdigit d" and "ds \<noteq> []" and "0 \<notin> set u" and "u = [] \<or> \<not> isdigit (hd u)"
  shows "parse_with_suffix (ds @ u) dflt =
      (case unit_multiplier (if u = [] then dflt else u) of
         None \<Rightarrow> None
       | Some f \<Rightarrow> Some (word_of_nat (min (num_val 10 ds) (2 ^ 64 - 1)) * f)) \<and>
    (u \<noteq> [] \<and> \<not> isspace (hd u) \<and> hd u \<noteq> 43 \<and> hd u \<noteq> 45 \<longrightarrow> parse_with_suffix u dflt = None)"
proof -
  have nz: "0 \<notin> set ds" using assms(1) by (auto simp: isdigit_def)
  obtain d ds' where d: "ds = d # ds'" "isdigit d" using assms(1,2) by (cases ds) auto
  have plain: "\<not> isspace d" "d \<noteq> 45" "d \<noteq> 43"
    using d(2) by (auto simp: isdigit_def isspace_def word_le_nat_alt)
  have sp: "dropWhile isspace (ds @ u) = ds @ u" "scan_sign (ds @ u) = (False, ds @ u)"
    using d plain by (simp_all add: scan_sign_def)
  have max: "(- 1 :: u64) = word_of_nat (2 ^ 64 - 1)" by simp
  have "strtoull (c_str (ds @ u)) = Some (word_of_nat (min (num_val 10 ds) (2 ^ 64 - 1)), u)"
    using sp takeWhile_digits [OF assms(1,4)] assms(2,3) nz max
    by (simp add: c_str_id strtoull_def min_def not_less_eq_eq)
  moreover have "unit_multiplier [] = None" by (simp add: unit_multiplier_def lit_def)
  ultimately have "parse_with_suffix (ds @ u) dflt =
      (case unit_multiplier (if u = [] then dflt else u) of
         None \<Rightarrow> None
       | Some f \<Rightarrow> Some (word_of_nat (min (num_val 10 ds) (2 ^ 64 - 1)) * f))"
    by (simp add: parse_with_suffix_def split: option.splits)
  moreover have "parse_with_suffix u dflt = None"
    if "u \<noteq> [] \<and> \<not> isspace (hd u) \<and> hd u \<noteq> 43 \<and> hd u \<noteq> 45"
    using that assms(3,4) by (cases u) (auto simp: parse_with_suffix_def c_str_id strtoull_def scan_sign_def)
  ultimately show ?thesis by blast
qed

theorem parse_with_suffix_correct_witness: "parse_with_suffix (lit ''12KiB'') [] = Some 12288"
  using parse_with_suffix_correct [of "lit ''12''" "lit ''KiB''" "[]"]
  by (simp add: lit_def isdigit_def num_val_def digit_val_def unit_multiplier_def)

text \<open>
  A versionstamped key is the key, ten zero bytes, and the key's length in the last four
  bytes, little-endian, where a reader of the key finds the stamp's position.
\<close>

theorem addVersionStampAtEnd_correct:
  assumes "length str < 2 ^ 30"
  shows "\<exists>r. addVersionStampAtEnd str = Inr r \<and> length r = length str + 14 \<and> prefix str r \<and>
    le_val (drop (length r - 4) r) = length str \<and> take 10 (drop (length str) r) = replicate 10 0"
proof -
  let ?n = "length str" and ?size = "item_bytes (word_of_nat (length str) :: u32)"
  have "arena_new_array (int ?n + 14) = Inr (replicate (?n + 14) None)"
    using assms by (simp add: arena_new_array_def INT_MAX_def sizeof_ArenaBlock_def nat_add_distrib del: replicate_add)
  moreover have "memcpy (replicate (?n + 14) None) 0 (map Some str) = Inr (map Some str @ replicate 14 None)"
    by (simp add: memcpy_def)
  moreover have "memcpy (map Some str @ replicate 14 None) (int ?n) (replicate 10 (Some 0)) =
      Inr ((map Some str @ replicate 10 (Some 0)) @ replicate 4 None)"
    by (subst memcpy_fill) simp_all
  moreover have "memcpy ((map Some str @ replicate 10 (Some 0)) @ replicate 4 None) (int ?n + 10)
      (map Some ?size) = Inr ((map Some str @ replicate 10 (Some 0)) @ map Some ?size)"
    by (subst memcpy_fill) simp_all
  ultimately have r: "addVersionStampAtEnd str = Inr (str @ replicate 10 0 @ ?size)"
    using assms by (simp add: addVersionStampAtEnd_def Let_def INT_MAX_def comp_def)
  have "unat (word_of_nat ?n :: u32) = ?n" by (rule count_u32) (use assms in simp)
  then have "le_val ?size = ?n" using assms by (simp add: item_bytes_def le_val_le_bytes)
  then show ?thesis unfolding r by (intro exI [of _ "str @ replicate 10 0 @ ?size"]) (simp)
qed

theorem addVersionStampAtEnd_correct_witness:
  "\<exists>r. addVersionStampAtEnd [7, 8] = Inr r \<and> length r = 16 \<and> le_val (drop 12 r) = 2"
proof -
  obtain r where "addVersionStampAtEnd [7, 8] = Inr r" "length r = 16" "le_val (drop (length r - 4) r) = 2"
    using addVersionStampAtEnd_correct [of "[7, 8]"] by auto
  then show ?thesis by auto
qed

text \<open>
  A buggify switch is drawn at most once for each source line: asking again gives the same
  answer, draws nothing and leaves the others alone; while buggify is off every switch is off.
\<close>

theorem getSBVar_stable:
  "getSBVar draw f l st = (v, st') \<longrightarrow>
     getSBVar draw f l st' = (v, st') \<and>
     ((f', l') \<noteq> (f, l) \<longrightarrow> SBVars st' (f', l') = SBVars st (f', l')) \<and>
     (SBVars st (f, l) = Some w \<and> buggifyActivated st \<longrightarrow> v = w \<and> st' = st) \<and>
     (\<not> validationIsEnabled st \<longrightarrow> \<not> v \<and> st' = st)"
  by (auto simp: getSBVar_def validationIsEnabled_def split: if_splits option.splits prod.splits)

theorem getSBVar_stable_witness:
  "fst (getSBVar (\<lambda>g. (odd g, g + 1)) [97] 3 (snd (getSBVar (\<lambda>g. (odd g, g + 1)) [97] 3
     \<lparr>buggifyActivated = True, SBVars = Map.empty, generator = (1 :: nat)\<rparr>)))"
  using getSBVar_stable [of "\<lambda>g. (odd g, g + 1)" "[97]" 3
      "\<lparr>buggifyActivated = True, SBVars = Map.empty, generator = (1 :: nat)\<rparr>" True]
  by (simp add: getSBVar_def)

end
