(* ===== verification/Sav.thy ===== *)
theory Sav
  imports Flow_Error
begin

text \<open>
  Single-assignment variables (\<open>src/flow/flow.h\<close>, \<open>Callback\<close> and \<open>SAV\<close>), the shared state behind
  every \<open>Promise\<close>, \<open>Future\<close> and actor result.  An operation is a function on the variable's state.
  The loop that fires the callbacks calls into code that may use the variable again, so it is a
  phase of the state: \<open>sav_loop\<close> says which statement follows the loop, and one turn of the loop is
  an operation of its own.  Using a destroyed variable is \<open>Undefined_behaviour\<close>.
\<close>

subsection \<open>State\<close>

text \<open>What a callback is told: a value, or an error's code.\<close>

datatype 'a outcome = Value 'a | Failure u16

text \<open>
  \<open>After_send\<close>: the loop of \<open>send\<close> and \<open>sendError\<close>, nothing follows.  \<open>After_send_del\<close>: the loop of the
  \<open>...AndDelPromiseRef\<close> operations.  \<open>After_broken\<close>: the loop inside \<open>delPromiseRef\<close>.
\<close>

datatype firing = No_loop | After_send | After_send_del | After_broken

record 'a sav =
  sav_promises :: int
  sav_futures :: int
  sav_error_state :: u16
  sav_value :: "'a option"
  sav_chain :: "nat list"
  sav_loop :: firing
  sav_destroyed :: bool
  sav_cancels :: nat
  sav_fired :: "(nat \<times> 'a outcome) list"

definition UNSET_ERROR_CODE :: u16 where "UNSET_ERROR_CODE = - 3"
definition NEVER_ERROR_CODE :: u16 where "NEVER_ERROR_CODE = - 2"
definition SET_ERROR_CODE :: u16 where "SET_ERROR_CODE = - 1"

definition sav_new :: "int \<Rightarrow> int \<Rightarrow> 'a sav" where
  "sav_new futures promises =
     \<lparr>sav_promises = promises, sav_futures = futures, sav_error_state = UNSET_ERROR_CODE,
      sav_value = None, sav_chain = [], sav_loop = No_loop, sav_destroyed = False, sav_cancels = 0,
      sav_fired = []\<rparr>"

definition sav_isSet :: "'a sav \<Rightarrow> bool" where
  "sav_isSet s \<longleftrightarrow> sint (sav_error_state s) > sint NEVER_ERROR_CODE"

definition sav_canBeSet :: "'a sav \<Rightarrow> bool" where
  "sav_canBeSet s \<longleftrightarrow> sint (sav_error_state s) = sint UNSET_ERROR_CODE"

definition sav_isError :: "'a sav \<Rightarrow> bool" where
  "sav_isError s \<longleftrightarrow> sint (sav_error_state s) > sint SET_ERROR_CODE"

subsection \<open>Operations\<close>

definition on_live :: "('a sav \<Rightarrow> 'b result) \<Rightarrow> 'a sav \<Rightarrow> 'b result" where
  "on_live f s = (if sav_destroyed s then Inl Undefined_behaviour else f s)"

definition sav_destroy :: "'a sav \<Rightarrow> 'a sav" where
  "sav_destroy s = s\<lparr>sav_destroyed := True\<rparr>"

definition sav_cancel :: "'a sav \<Rightarrow> 'a sav" where
  "sav_cancel s = s\<lparr>sav_cancels := Suc (sav_cancels s)\<rparr>"

definition sav_get :: "'a sav \<Rightarrow> 'a result" where
  "sav_get = on_live (\<lambda>s. bind_result (assert_that (sav_isSet s)) (\<lambda>_.
     if sav_isError s then Inl (Thrown (sav_error_state s))
     else case sav_value s of None \<Rightarrow> Inl Undefined_behaviour | Some v \<Rightarrow> Inr v))"

definition sav_send :: "'a \<Rightarrow> 'a sav \<Rightarrow> 'a sav result" where
  "sav_send v = on_live (\<lambda>s. bind_result (assert_that (sav_canBeSet s)) (\<lambda>_.
     Inr (s\<lparr>sav_value := Some v, sav_error_state := SET_ERROR_CODE, sav_loop := After_send\<rparr>)))"

definition sav_send_never :: "'a sav \<Rightarrow> 'a sav result" where
  "sav_send_never = on_live (\<lambda>s. bind_result (assert_that (sav_canBeSet s)) (\<lambda>_.
     Inr (s\<lparr>sav_error_state := NEVER_ERROR_CODE\<rparr>)))"

definition sav_sendError :: "u16 \<Rightarrow> 'a sav \<Rightarrow> 'a sav result" where
  "sav_sendError err = on_live (\<lambda>s. bind_result (assert_that (sav_canBeSet s \<and> sint err > 0)) (\<lambda>_.
     Inr (s\<lparr>sav_error_state := err, sav_loop := After_send\<rparr>)))"

definition sav_sendAndDelPromiseRef :: "'a \<Rightarrow> 'a sav \<Rightarrow> 'a sav result" where
  "sav_sendAndDelPromiseRef v = on_live (\<lambda>s. bind_result (assert_that (sav_canBeSet s)) (\<lambda>_.
     if sav_promises s = 1 \<and> sav_futures s = 0 then Inr (sav_destroy s)
     else Inr (s\<lparr>sav_value := Some v, sav_error_state := SET_ERROR_CODE, sav_loop := After_send_del\<rparr>)))"

text \<open>\<open>if (!--promises && !futures) destroy();\<close>\<close>

definition sav_drop_promise :: "'a sav \<Rightarrow> 'a sav" where
  "sav_drop_promise s =
     (let s1 = s\<lparr>sav_promises := sav_promises s - 1\<rparr>
      in if sav_promises s1 = 0 \<and> sav_futures s1 = 0 then sav_destroy s1 else s1)"

definition sav_sendAndDelPromiseRef_never :: "'a sav \<Rightarrow> 'a sav result" where
  "sav_sendAndDelPromiseRef_never = on_live (\<lambda>s. bind_result (assert_that (sav_canBeSet s)) (\<lambda>_.
     Inr (sav_drop_promise (s\<lparr>sav_error_state := NEVER_ERROR_CODE\<rparr>))))"

definition sav_sendErrorAndDelPromiseRef :: "u16 \<Rightarrow> 'a sav \<Rightarrow> 'a sav result" where
  "sav_sendErrorAndDelPromiseRef err =
     on_live (\<lambda>s. bind_result (assert_that (sav_canBeSet s \<and> sint err > 0)) (\<lambda>_.
     if sav_promises s = 1 \<and> sav_futures s = 0 then Inr (sav_destroy s)
     else Inr (s\<lparr>sav_error_state := err, sav_loop := After_send_del\<rparr>)))"

definition sav_addPromiseRef :: "'a sav \<Rightarrow> 'a sav result" where
  "sav_addPromiseRef = on_live (\<lambda>s. Inr (s\<lparr>sav_promises := sav_promises s + 1\<rparr>))"

definition sav_addFutureRef :: "'a sav \<Rightarrow> 'a sav result" where
  "sav_addFutureRef = on_live (\<lambda>s. Inr (s\<lparr>sav_futures := sav_futures s + 1\<rparr>))"

definition sav_delPromiseRef :: "'a sav \<Rightarrow> 'a sav result" where
  "sav_delPromiseRef = on_live (\<lambda>s.
     if sav_promises s = 1
     then if sav_futures s \<noteq> 0 \<and> sav_canBeSet s
          then bind_result (sav_sendError broken_promise s) (\<lambda>s1. Inr (s1\<lparr>sav_loop := After_broken\<rparr>))
          else let s1 = s\<lparr>sav_promises := 0\<rparr>
               in Inr (if sav_futures s1 = 0 then sav_destroy s1 else s1)
     else Inr (s\<lparr>sav_promises := sav_promises s - 1\<rparr>))"

definition sav_delFutureRef :: "'a sav \<Rightarrow> 'a sav result" where
  "sav_delFutureRef = on_live (\<lambda>s.
     let s1 = s\<lparr>sav_futures := sav_futures s - 1\<rparr>
     in Inr (if sav_futures s1 = 0 then if sav_promises s1 \<noteq> 0 then sav_cancel s1 else sav_destroy s1
             else s1))"

text \<open>
  The callbacks form a ring through the variable; \<open>sav_chain\<close> lists them from \<open>next\<close> on.  The three
  ways to add callbacks differ in where they go.
\<close>

definition sav_make_room :: "'a sav \<Rightarrow> 'a sav result" where
  "sav_make_room s = (if sav_chain s \<noteq> [] then sav_delFutureRef s else Inr s)"

definition sav_addCallbackAndDelFutureRef :: "nat \<Rightarrow> 'a sav \<Rightarrow> 'a sav result" where
  "sav_addCallbackAndDelFutureRef cb =
     on_live (\<lambda>s. bind_result (sav_make_room s) (\<lambda>s1. Inr (s1\<lparr>sav_chain := cb # sav_chain s1\<rparr>)))"

definition sav_addYieldedCallbackAndDelFutureRef :: "nat \<Rightarrow> 'a sav \<Rightarrow> 'a sav result" where
  "sav_addYieldedCallbackAndDelFutureRef cb =
     on_live (\<lambda>s. bind_result (sav_make_room s) (\<lambda>s1. Inr (s1\<lparr>sav_chain := sav_chain s1 @ [cb]\<rparr>)))"

definition sav_addCallbackChainAndDelFutureRef :: "nat list \<Rightarrow> 'a sav \<Rightarrow> 'a sav result" where
  "sav_addCallbackChainAndDelFutureRef cbs =
     on_live (\<lambda>s. bind_result (sav_make_room s) (\<lambda>s1. Inr (s1\<lparr>sav_chain := cbs @ sav_chain s1\<rparr>)))"

definition sav_unwait :: "'a sav \<Rightarrow> 'a sav result" where
  "sav_unwait s = sav_delFutureRef s"

definition callback_remove :: "nat \<Rightarrow> 'a sav \<Rightarrow> 'a sav result" where
  "callback_remove cb = on_live (\<lambda>s.
     if cb \<notin> set (sav_chain s) then Inl Undefined_behaviour
     else let s1 = s\<lparr>sav_chain := remove1 cb (sav_chain s)\<rparr>
          in if sav_chain s1 = [] then sav_unwait s1 else Inr s1)"

definition countCallbacks :: "'a sav \<Rightarrow> nat" where
  "countCallbacks s = length (sav_chain s)"

text \<open>
  One turn of a firing loop: while there is a callback, it is told the outcome and, as every
  callback of an actor does first, removes itself; otherwise the statement after the loop runs.
\<close>

definition sav_outcome :: "'a sav \<Rightarrow> 'a outcome option" where
  "sav_outcome s =
     (if sav_isError s then Some (Failure (sav_error_state s)) else map_option Value (sav_value s))"

definition sav_fire :: "'a sav \<Rightarrow> 'a sav result" where
  "sav_fire = on_live (\<lambda>s.
     case sav_chain s of
       cb # _ \<Rightarrow>
         (case sav_outcome s of None \<Rightarrow> Inl Undefined_behaviour
          | Some r \<Rightarrow> callback_remove cb (s\<lparr>sav_fired := sav_fired s @ [(cb, r)]\<rparr>))
     | [] \<Rightarrow>
         (let s1 = s\<lparr>sav_loop := No_loop\<rparr>
          in case sav_loop s of
               After_send_del \<Rightarrow> Inr (sav_drop_promise s1)
             | After_broken \<Rightarrow>
                 bind_result (assert_that (sav_promises s1 = 1)) (\<lambda>_.
                   let s2 = s1\<lparr>sav_promises := 0\<rparr>
                   in Inr (if sav_futures s2 = 0 then sav_destroy s2 else s2))
             | _ \<Rightarrow> Inr s1))"

subsection \<open>Clients\<close>

text \<open>
  What the classes built on the variable do with it.  Every \<open>Promise\<close> and \<open>Future\<close> handle stands for
  one reference; the counts \<open>hp\<close> and \<open>hf\<close> are the handles that exist.  A handle is used only while it
  exists: a sender keeps its promise until \<open>send\<close> returns, the \<open>...AndDelPromiseRef\<close> operations and
  \<open>delPromiseRef\<close> give theirs up, waiting on a future gives the future up, and, as in the code
  generated for \<open>wait\<close>, only a variable that is not set is waited on, each callback once.  Nothing keeps a client
  from sending twice: the step exists only if the variable's own assertion lets it pass.
\<close>

record 'a client =
  cl_sav :: "'a sav"
  cl_promises :: nat
  cl_futures :: nat
  cl_used :: "nat set"

inductive sav_step :: "'a client \<Rightarrow> 'a client \<Rightarrow> bool" where
  copy_promise: "0 < cl_promises c \<Longrightarrow> sav_addPromiseRef (cl_sav c) = Inr s \<Longrightarrow>
    sav_step c (c\<lparr>cl_sav := s, cl_promises := cl_promises c + 1\<rparr>)"
| get_future: "0 < cl_promises c \<or> 0 < cl_futures c \<Longrightarrow> sav_addFutureRef (cl_sav c) = Inr s \<Longrightarrow>
    sav_step c (c\<lparr>cl_sav := s, cl_futures := cl_futures c + 1\<rparr>)"
| drop_promise: "(if sav_loop (cl_sav c) = After_send then 1 else 0) < cl_promises c \<Longrightarrow>
    sav_delPromiseRef (cl_sav c) = Inr s \<Longrightarrow>
    sav_step c (c\<lparr>cl_sav := s, cl_promises := cl_promises c - 1\<rparr>)"
| drop_future: "0 < cl_futures c \<Longrightarrow> sav_delFutureRef (cl_sav c) = Inr s \<Longrightarrow>
    sav_step c (c\<lparr>cl_sav := s, cl_futures := cl_futures c - 1\<rparr>)"
| send: "0 < cl_promises c \<Longrightarrow> sav_send v (cl_sav c) = Inr s \<Longrightarrow>
    sav_step c (c\<lparr>cl_sav := s\<rparr>)"
| send_error: "0 < cl_promises c \<Longrightarrow>
    sav_sendError e (cl_sav c) = Inr s \<Longrightarrow> sav_step c (c\<lparr>cl_sav := s\<rparr>)"
| send_never: "0 < cl_promises c \<Longrightarrow> sav_send_never (cl_sav c) = Inr s \<Longrightarrow>
    sav_step c (c\<lparr>cl_sav := s\<rparr>)"
| send_last: "0 < cl_promises c \<Longrightarrow>
    sav_sendAndDelPromiseRef v (cl_sav c) = Inr s \<Longrightarrow>
    sav_step c (c\<lparr>cl_sav := s, cl_promises := cl_promises c - 1\<rparr>)"
| send_error_last: "0 < cl_promises c \<Longrightarrow>
    sav_sendErrorAndDelPromiseRef e (cl_sav c) = Inr s \<Longrightarrow>
    sav_step c (c\<lparr>cl_sav := s, cl_promises := cl_promises c - 1\<rparr>)"
| send_never_last: "0 < cl_promises c \<Longrightarrow>
    sav_sendAndDelPromiseRef_never (cl_sav c) = Inr s \<Longrightarrow>
    sav_step c (c\<lparr>cl_sav := s, cl_promises := cl_promises c - 1\<rparr>)"
| wait: "0 < cl_futures c \<Longrightarrow> \<not> sav_isSet (cl_sav c) \<Longrightarrow> cb \<notin> cl_used c \<Longrightarrow>
    sav_addCallbackAndDelFutureRef cb (cl_sav c) = Inr s \<Longrightarrow>
    sav_step c (c\<lparr>cl_sav := s, cl_futures := cl_futures c - 1, cl_used := insert cb (cl_used c)\<rparr>)"
| wait_yielded: "0 < cl_futures c \<Longrightarrow> \<not> sav_isSet (cl_sav c) \<Longrightarrow> cb \<notin> cl_used c \<Longrightarrow>
    sav_addYieldedCallbackAndDelFutureRef cb (cl_sav c) = Inr s \<Longrightarrow>
    sav_step c (c\<lparr>cl_sav := s, cl_futures := cl_futures c - 1, cl_used := insert cb (cl_used c)\<rparr>)"
| wait_chain: "0 < cl_futures c \<Longrightarrow> \<not> sav_isSet (cl_sav c) \<Longrightarrow> cbs \<noteq> [] \<Longrightarrow> distinct cbs \<Longrightarrow>
    set cbs \<inter> cl_used c = {} \<Longrightarrow> sav_addCallbackChainAndDelFutureRef cbs (cl_sav c) = Inr s \<Longrightarrow>
    sav_step c (c\<lparr>cl_sav := s, cl_futures := cl_futures c - 1, cl_used := set cbs \<union> cl_used c\<rparr>)"
| stop_waiting: "cb \<in> set (sav_chain (cl_sav c)) \<Longrightarrow> callback_remove cb (cl_sav c) = Inr s \<Longrightarrow>
    sav_step c (c\<lparr>cl_sav := s\<rparr>)"
| fire: "sav_loop (cl_sav c) \<noteq> No_loop \<Longrightarrow> sav_fire (cl_sav c) = Inr s \<Longrightarrow>
    sav_step c (c\<lparr>cl_sav := s\<rparr>)"

text \<open>A variable starts as the one of a \<open>Promise\<close>, a ready \<open>Future\<close> or an actor.\<close>

definition client_new :: "nat \<Rightarrow> nat \<Rightarrow> 'a client" where
  "client_new futures promises =
     \<lparr>cl_sav = sav_new (int futures) (int promises), cl_promises = promises, cl_futures = futures,
      cl_used = {}\<rparr>"

inductive sav_reachable :: "'a client \<Rightarrow> bool" where
  start: "0 < promises \<Longrightarrow> sav_reachable (client_new futures promises)"
| step: "sav_reachable c \<Longrightarrow> sav_step c c' \<Longrightarrow> sav_reachable c'"
subsection \<open>Invariant\<close>

lemma code_sints [simp]:
  "sint UNSET_ERROR_CODE = - 3" "sint NEVER_ERROR_CODE = - 2" "sint SET_ERROR_CODE = - 1"
  "sint broken_promise = 1100"
  by (simp_all add: UNSET_ERROR_CODE_def NEVER_ERROR_CODE_def SET_ERROR_CODE_def)

named_theorems sav_defs \<open>the operations on single-assignment variables\<close>

lemmas [sav_defs] = on_live_def sav_destroy_def sav_cancel_def sav_send_def sav_send_never_def
  sav_sendError_def sav_sendAndDelPromiseRef_def sav_drop_promise_def
  sav_sendAndDelPromiseRef_never_def sav_sendErrorAndDelPromiseRef_def sav_addPromiseRef_def
  sav_addFutureRef_def sav_delPromiseRef_def sav_delFutureRef_def sav_make_room_def
  sav_addCallbackAndDelFutureRef_def sav_addYieldedCallbackAndDelFutureRef_def
  sav_addCallbackChainAndDelFutureRef_def sav_unwait_def callback_remove_def

lemmas sav_queries = sav_isSet_def sav_canBeSet_def sav_isError_def sav_outcome_def

text \<open>The promise reference a running loop still has to give up.\<close>

definition loop_owns :: "firing \<Rightarrow> nat" where
  "loop_owns l = (if l = After_send_del \<or> l = After_broken then 1 else 0)"

definition refs_ok :: "'a client \<Rightarrow> bool" where
  "refs_ok c \<longleftrightarrow>
     (let s = cl_sav c
      in if sav_destroyed s
         then cl_promises c = 0 \<and> cl_futures c = 0 \<and> sav_chain s = [] \<and> sav_loop s = No_loop
         else sav_promises s = int (cl_promises c + loop_owns (sav_loop s)) \<and>
              sav_futures s = int (cl_futures c + (if sav_chain s = [] then 0 else 1)) \<and>
              (sav_promises s > 0 \<or> sav_futures s > 0) \<and>
              (sav_loop s = After_send \<longrightarrow> 0 < cl_promises c) \<and>
              (sav_loop s = After_broken \<longrightarrow> cl_promises c = 0))"

definition state_ok :: "'a sav \<Rightarrow> bool" where
  "state_ok s \<longleftrightarrow>
     (sav_isSet s \<or> sav_canBeSet s \<or> sav_error_state s = NEVER_ERROR_CODE) \<and>
     (sav_isSet s \<longrightarrow> sav_outcome s \<noteq> None) \<and>
     (sav_isError s \<longrightarrow> sint (sav_error_state s) > 0) \<and>
     (sav_loop s \<noteq> No_loop \<longrightarrow> sav_isSet s) \<and>
     (sav_isSet s \<and> sav_chain s \<noteq> [] \<longrightarrow> sav_loop s \<noteq> No_loop) \<and>
     (\<forall>(cb, r) \<in> set (sav_fired s). sav_isSet s \<and> sav_outcome s = Some r)"

definition chain_ok :: "'a client \<Rightarrow> bool" where
  "chain_ok c \<longleftrightarrow>
     (let s = cl_sav c
      in distinct (sav_chain s @ map fst (sav_fired s)) \<and>
         set (sav_chain s) \<union> fst ` set (sav_fired s) \<subseteq> cl_used c)"

definition sav_inv :: "'a client \<Rightarrow> bool" where
  "sav_inv c \<longleftrightarrow> refs_ok c \<and> state_ok (cl_sav c) \<and> chain_ok c"

lemma sav_inv_new: "0 < promises \<Longrightarrow> sav_inv (client_new futures promises)"
  by (simp add: sav_inv_def refs_ok_def state_ok_def chain_ok_def client_new_def sav_new_def
      loop_owns_def sav_queries)

text \<open>The two kinds of turns of a firing loop.\<close>

lemma sav_fire_callback:
  assumes "sav_fire s = Inr s'" and "sav_chain s = cb # cbs"
  obtains r where "sav_outcome s = Some r"
    and "callback_remove cb (s\<lparr>sav_fired := sav_fired s @ [(cb, r)]\<rparr>) = Inr s'"
  using assms by (auto simp: sav_fire_def on_live_def split: if_splits option.splits)

lemma callback_remove_head:
  assumes "callback_remove cb s = Inr s'" and "sav_chain s = cb # cbs"
  shows "(if cbs = [] then sav_delFutureRef (s\<lparr>sav_chain := cbs\<rparr>) else Inr (s\<lparr>sav_chain := cbs\<rparr>)) = Inr s'"
  using assms by (auto simp: callback_remove_def sav_unwait_def on_live_def Let_def split: if_splits)

lemma unset_no_loop:
  assumes "state_ok s" and "sav_canBeSet s \<or> \<not> sav_isSet s"
  shows "sav_loop s = No_loop"
  using assms by (auto simp: state_ok_def sav_queries)

lemma refs_fire:
  assumes "refs_ok c" and l: "sav_loop (cl_sav c) \<noteq> No_loop" and f: "sav_fire (cl_sav c) = Inr s"
  shows "refs_ok (c\<lparr>cl_sav := s\<rparr>)"
proof (cases "sav_chain (cl_sav c)")
  case Nil
  show ?thesis
    using f assms(1) l Nil
    by (cases "sav_loop (cl_sav c)")
       (clarsimp simp: sav_fire_def refs_ok_def loop_owns_def sav_defs Let_def result_simps split: if_splits)+
next
  case (Cons cb cbs)
  obtain r where r: "callback_remove cb ((cl_sav c)\<lparr>sav_fired := sav_fired (cl_sav c) @ [(cb, r)]\<rparr>) = Inr s"
    using sav_fire_callback [OF f Cons] by blast
  have "(if cbs = [] then sav_delFutureRef ((cl_sav c)\<lparr>sav_fired := sav_fired (cl_sav c) @ [(cb, r)], sav_chain := cbs\<rparr>)
     else Inr ((cl_sav c)\<lparr>sav_fired := sav_fired (cl_sav c) @ [(cb, r)], sav_chain := cbs\<rparr>)) = Inr s"
    using callback_remove_head [OF r, of cbs] Cons by simp
  then show ?thesis
    using Cons assms(1) l
    by (cases "sav_loop (cl_sav c)"; cases cbs)
       (clarsimp simp: refs_ok_def loop_owns_def sav_delFutureRef_def on_live_def sav_cancel_def
        sav_destroy_def Let_def split: if_splits)+
qed

lemma refs_step: "sav_step c c' \<Longrightarrow> refs_ok c \<Longrightarrow> state_ok (cl_sav c) \<Longrightarrow> refs_ok c'"
proof (induction rule: sav_step.induct)
  case (copy_promise c s)
  then show ?case
    by (cases "sav_loop (cl_sav c)"; cases "sav_chain (cl_sav c)")
      (clarsimp simp: refs_ok_def loop_owns_def sav_defs Let_def result_simps split: if_splits)+
next
  case (get_future c s)
  then show ?case
    by (cases "sav_loop (cl_sav c)"; cases "sav_chain (cl_sav c)")
      (clarsimp simp: refs_ok_def loop_owns_def sav_defs Let_def result_simps split: if_splits)+
next
  case (drop_promise c s)
  then show ?case
    by (cases "sav_loop (cl_sav c)"; cases "sav_chain (cl_sav c)")
      (clarsimp simp: refs_ok_def loop_owns_def sav_defs Let_def result_simps split: if_splits)+
next
  case (drop_future c s)
  then show ?case
    by (cases "sav_loop (cl_sav c)"; cases "sav_chain (cl_sav c)")
      (clarsimp simp: refs_ok_def loop_owns_def sav_defs Let_def result_simps split: if_splits)+
next
  case (send c v s)
  then show ?case
    using unset_no_loop [of "cl_sav c"] by (cases "sav_loop (cl_sav c)"; cases "sav_chain (cl_sav c)")
      (clarsimp simp: refs_ok_def loop_owns_def sav_defs Let_def result_simps split: if_splits)+
next
  case (send_error c e s)
  then show ?case
    using unset_no_loop [of "cl_sav c"] by (cases "sav_loop (cl_sav c)"; cases "sav_chain (cl_sav c)")
      (clarsimp simp: refs_ok_def loop_owns_def sav_defs Let_def result_simps split: if_splits)+
next
  case (send_never c s)
  then show ?case
    using unset_no_loop [of "cl_sav c"] by (cases "sav_loop (cl_sav c)"; cases "sav_chain (cl_sav c)")
      (clarsimp simp: refs_ok_def loop_owns_def sav_defs Let_def result_simps split: if_splits)+
next
  case (send_last c v s)
  then show ?case
    using unset_no_loop [of "cl_sav c"] by (cases "sav_loop (cl_sav c)"; cases "sav_chain (cl_sav c)")
      (clarsimp simp: refs_ok_def loop_owns_def sav_defs Let_def result_simps split: if_splits)+
next
  case (send_error_last c e s)
  then show ?case
    using unset_no_loop [of "cl_sav c"] by (cases "sav_loop (cl_sav c)"; cases "sav_chain (cl_sav c)")
      (clarsimp simp: refs_ok_def loop_owns_def sav_defs Let_def result_simps split: if_splits)+
next
  case (send_never_last c s)
  then show ?case
    using unset_no_loop [of "cl_sav c"] by (cases "sav_loop (cl_sav c)"; cases "sav_chain (cl_sav c)")
      (clarsimp simp: refs_ok_def loop_owns_def sav_defs Let_def result_simps split: if_splits)+
next
  case (wait c cb s)
  then show ?case
    using unset_no_loop [of "cl_sav c"] by (cases "sav_loop (cl_sav c)"; cases "sav_chain (cl_sav c)")
      (clarsimp simp: refs_ok_def loop_owns_def sav_defs Let_def result_simps split: if_splits)+
next
  case (wait_yielded c cb s)
  then show ?case
    using unset_no_loop [of "cl_sav c"] by (cases "sav_loop (cl_sav c)"; cases "sav_chain (cl_sav c)")
      (clarsimp simp: refs_ok_def loop_owns_def sav_defs Let_def result_simps split: if_splits)+
next
  case (wait_chain c cbs s)
  then show ?case
    using unset_no_loop [of "cl_sav c"] by (cases "sav_loop (cl_sav c)"; cases "sav_chain (cl_sav c)")
      (clarsimp simp: refs_ok_def loop_owns_def sav_defs Let_def result_simps split: if_splits)+
next
  case (stop_waiting cb c s)
  then show ?case
    by (cases "sav_loop (cl_sav c)"; cases "sav_chain (cl_sav c)")
      (clarsimp simp: refs_ok_def loop_owns_def sav_defs Let_def result_simps split: if_splits)+
next
  case (fire c s)
  then show ?case using refs_fire by blast
qed
text \<open>
  Operations that only count references leave the assigned outcome, the callbacks and the log alone.
\<close>

definition same_core :: "'a sav \<Rightarrow> 'a sav \<Rightarrow> bool" where
  "same_core s s' \<longleftrightarrow>
     sav_error_state s' = sav_error_state s \<and> sav_value s' = sav_value s \<and>
     sav_fired s' = sav_fired s \<and> sav_chain s' = sav_chain s \<and> sav_loop s' = sav_loop s"

lemma delFutureRef_core: "sav_delFutureRef s = Inr s' \<Longrightarrow> same_core s s'"
  by (clarsimp simp: sav_defs same_core_def Let_def split: if_splits)

lemma make_room_core: "sav_make_room s = Inr s' \<Longrightarrow> same_core s s'"
  unfolding sav_make_room_def using delFutureRef_core
  by (auto simp: same_core_def split: if_splits)

lemma add_callbacks_core:
  "sav_addCallbackAndDelFutureRef cb s = Inr s' \<Longrightarrow> same_core (s\<lparr>sav_chain := cb # sav_chain s\<rparr>) s'"
  "sav_addYieldedCallbackAndDelFutureRef cb s = Inr s' \<Longrightarrow> same_core (s\<lparr>sav_chain := sav_chain s @ [cb]\<rparr>) s'"
  "sav_addCallbackChainAndDelFutureRef cbs s = Inr s' \<Longrightarrow> same_core (s\<lparr>sav_chain := cbs @ sav_chain s\<rparr>) s'"
  unfolding sav_addCallbackAndDelFutureRef_def sav_addYieldedCallbackAndDelFutureRef_def
    sav_addCallbackChainAndDelFutureRef_def on_live_def
  by (auto simp: result_simps same_core_def dest!: make_room_core split: if_splits)

lemma callback_remove_core:
  assumes "callback_remove cb s = Inr s'"
  shows "same_core (s\<lparr>sav_chain := remove1 cb (sav_chain s)\<rparr>) s'" and "cb \<in> set (sav_chain s)"
  using assms delFutureRef_core [of "s\<lparr>sav_chain := remove1 cb (sav_chain s)\<rparr>" s']
  by (auto simp: callback_remove_def on_live_def sav_unwait_def Let_def same_core_def split: if_splits)

lemma state_ok_core:
  "state_ok s \<longleftrightarrow>
     (let e = sint (sav_error_state s)
      in (e \<ge> - 1 \<or> e = - 3 \<or> sav_error_state s = NEVER_ERROR_CODE) \<and> (e = - 1 \<longrightarrow> sav_value s \<noteq> None) \<and>
         (e \<ge> 0 \<longrightarrow> e > 0) \<and> (sav_loop s \<noteq> No_loop \<longrightarrow> e \<ge> - 1) \<and>
         (e \<ge> - 1 \<and> sav_chain s \<noteq> [] \<longrightarrow> sav_loop s \<noteq> No_loop) \<and>
         (\<forall>(cb, r) \<in> set (sav_fired s). e \<ge> - 1 \<and> sav_outcome s = Some r))"
  unfolding state_ok_def by (auto simp: sav_queries Let_def)

lemma outcome_core: "same_core s s' \<Longrightarrow> sav_outcome s' = sav_outcome s"
  by (simp add: same_core_def sav_outcome_def sav_isError_def)

lemma state_same_core: "state_ok s \<Longrightarrow> same_core s s' \<Longrightarrow> state_ok s'"
  using outcome_core [of s s'] by (simp add: state_ok_core same_core_def)

lemma unset_not_fired: "state_ok s \<Longrightarrow> sav_canBeSet s \<or> \<not> sav_isSet s \<Longrightarrow> sav_fired s = []"
  by (cases "sav_fired s") (auto simp: state_ok_def sav_queries)

lemma state_shrink_chain:
  "state_ok s \<Longrightarrow> (sav_chain s = [] \<Longrightarrow> cbs = []) \<Longrightarrow> state_ok (s\<lparr>sav_chain := cbs\<rparr>)"
  by (auto simp: state_ok_core Let_def sav_outcome_def sav_isError_def)

lemma state_fire:
  assumes "state_ok s" and "sav_loop s \<noteq> No_loop" and f: "sav_fire s = Inr s'"
  shows "state_ok s'"
proof (cases "sav_chain s")
  case Nil
  then have "state_ok (s\<lparr>sav_loop := No_loop\<rparr>)"
    using assms(1) by (auto simp: state_ok_core Let_def sav_outcome_def sav_isError_def)
  moreover have "same_core (s\<lparr>sav_loop := No_loop\<rparr>) s'"
    using f Nil by (cases "sav_loop s")
      (clarsimp simp: sav_fire_def sav_defs same_core_def Let_def result_simps split: if_splits)+
  ultimately show ?thesis by (rule state_same_core)
next
  case (Cons cb cbs)
  obtain r where o: "sav_outcome s = Some r"
      and r: "callback_remove cb (s\<lparr>sav_fired := sav_fired s @ [(cb, r)]\<rparr>) = Inr s'"
    using sav_fire_callback [OF f Cons] by blast
  have "sint (sav_error_state s) \<ge> - 1" using assms(1,2) by (simp add: state_ok_core Let_def)
  then have "state_ok (s\<lparr>sav_fired := sav_fired s @ [(cb, r)]\<rparr>)"
    using assms(1) o by (auto simp: state_ok_core Let_def sav_outcome_def sav_isError_def)
  then have "state_ok (s\<lparr>sav_fired := sav_fired s @ [(cb, r)], sav_chain := cbs\<rparr>)"
    using Cons by (intro state_shrink_chain) simp_all
  then show ?thesis using callback_remove_core(1) [OF r] Cons state_same_core by fastforce
qed

lemma state_step: "sav_step c c' \<Longrightarrow> state_ok (cl_sav c) \<Longrightarrow> state_ok (cl_sav c')"
proof (induction rule: sav_step.induct)
  case (copy_promise c s)
  then show ?case
    by (elim state_same_core) (clarsimp simp: sav_defs same_core_def split: if_splits)
next
  case (get_future c s)
  then show ?case
    by (elim state_same_core) (clarsimp simp: sav_defs same_core_def split: if_splits)
next
  case (drop_promise c s)
  then show ?case
    using unset_not_fired [of "cl_sav c"]
    by (clarsimp simp: sav_defs Let_def result_simps split: if_splits)
       (auto simp: state_ok_core sav_queries Let_def)
next
  case (drop_future c s)
  then show ?case
    using delFutureRef_core state_same_core by fastforce
next
  case (send c v s)
  then show ?case
    using unset_not_fired [of "cl_sav c"] unset_no_loop [of "cl_sav c"]
    by (clarsimp simp: sav_defs Let_def result_simps split: if_splits)
       (auto simp: state_ok_core sav_queries Let_def)?
next
  case (send_error c e s)
  then show ?case
    using unset_not_fired [of "cl_sav c"] unset_no_loop [of "cl_sav c"]
    by (clarsimp simp: sav_defs Let_def result_simps split: if_splits)
       (auto simp: state_ok_core sav_queries Let_def)?
next
  case (send_never c s)
  then show ?case
    using unset_not_fired [of "cl_sav c"] unset_no_loop [of "cl_sav c"]
    by (clarsimp simp: sav_defs Let_def result_simps split: if_splits)
       (auto simp: state_ok_core sav_queries Let_def)?
next
  case (send_last c v s)
  then show ?case
    using unset_not_fired [of "cl_sav c"] unset_no_loop [of "cl_sav c"]
    by (clarsimp simp: sav_defs Let_def result_simps split: if_splits)
       (auto simp: state_ok_core sav_queries Let_def)?
next
  case (send_error_last c e s)
  then show ?case
    using unset_not_fired [of "cl_sav c"] unset_no_loop [of "cl_sav c"]
    by (clarsimp simp: sav_defs Let_def result_simps split: if_splits)
       (auto simp: state_ok_core sav_queries Let_def)?
next
  case (send_never_last c s)
  then show ?case
    using unset_not_fired [of "cl_sav c"] unset_no_loop [of "cl_sav c"]
    by (clarsimp simp: sav_defs Let_def result_simps split: if_splits)
       (auto simp: state_ok_core sav_queries Let_def)?
next
  case (wait c cb s)
  then show ?case
    using make_room_core [of "cl_sav c"] unset_not_fired [of "cl_sav c"]
    by (fastforce simp: sav_addCallbackAndDelFutureRef_def sav_addYieldedCallbackAndDelFutureRef_def
        sav_addCallbackChainAndDelFutureRef_def on_live_def result_simps same_core_def state_ok_core
        sav_isSet_def Let_def split: if_splits)
next
  case (wait_yielded c cb s)
  then show ?case
    using make_room_core [of "cl_sav c"] unset_not_fired [of "cl_sav c"]
    by (fastforce simp: sav_addCallbackAndDelFutureRef_def sav_addYieldedCallbackAndDelFutureRef_def
        sav_addCallbackChainAndDelFutureRef_def on_live_def result_simps same_core_def state_ok_core
        sav_isSet_def Let_def split: if_splits)
next
  case (wait_chain c cbs s)
  then show ?case
    using make_room_core [of "cl_sav c"] unset_not_fired [of "cl_sav c"]
    by (fastforce simp: sav_addCallbackAndDelFutureRef_def sav_addYieldedCallbackAndDelFutureRef_def
        sav_addCallbackChainAndDelFutureRef_def on_live_def result_simps same_core_def state_ok_core
        sav_isSet_def Let_def split: if_splits)
next
  case (stop_waiting cb c s)
  then show ?case
    using callback_remove_core [of cb "cl_sav c" s]
    by (auto intro!: state_same_core [of "(cl_sav c)\<lparr>sav_chain := remove1 cb (sav_chain (cl_sav c))\<rparr>" s]
        state_shrink_chain)
next
  case (fire c s)
  then show ?case using state_fire by simp
qed
text \<open>Each callback is told at most once.\<close>

lemma chain_core: "chain_ok c \<Longrightarrow> same_core (cl_sav c) s \<Longrightarrow> chain_ok (c\<lparr>cl_sav := s, cl_promises := m, cl_futures := n\<rparr>)"
  by (simp add: chain_ok_def same_core_def Let_def)

lemma chain_removed:
  assumes "chain_ok c" and "callback_remove cb (cl_sav c) = Inr s"
  shows "chain_ok (c\<lparr>cl_sav := s\<rparr>)"
  using assms(1) callback_remove_core [OF assms(2)]
  by (auto simp: chain_ok_def same_core_def Let_def distinct_remove1 dest: notin_set_remove1)

lemma chain_fire:
  assumes "chain_ok c" and f: "sav_fire (cl_sav c) = Inr s"
  shows "chain_ok (c\<lparr>cl_sav := s\<rparr>)"
proof (cases "sav_chain (cl_sav c)")
  case Nil
  have "same_core ((cl_sav c)\<lparr>sav_loop := No_loop\<rparr>) s"
    using f Nil by (cases "sav_loop (cl_sav c)")
      (clarsimp simp: sav_fire_def sav_defs same_core_def Let_def result_simps split: if_splits)+
  then show ?thesis using assms(1) by (simp add: chain_ok_def same_core_def Let_def)
next
  case (Cons cb cbs)
  obtain r where r: "callback_remove cb ((cl_sav c)\<lparr>sav_fired := sav_fired (cl_sav c) @ [(cb, r)]\<rparr>) = Inr s"
    using sav_fire_callback [OF f Cons] by blast
  show ?thesis
    using assms(1) callback_remove_core(1) [OF r] Cons by (auto simp: chain_ok_def same_core_def Let_def)
qed

lemma chain_step: "sav_step c c' \<Longrightarrow> chain_ok c \<Longrightarrow> chain_ok c'"
proof (induction rule: sav_step.induct)
  case (wait c cb s)
  then show ?case using add_callbacks_core(1) [OF wait(4)] by (auto simp: same_core_def chain_ok_def Let_def)
next
  case (wait_yielded c cb s)
  then show ?case using add_callbacks_core(2) [OF wait_yielded(4)] by (auto simp: same_core_def chain_ok_def Let_def)
next
  case (wait_chain c cbs s)
  then show ?case using add_callbacks_core(3) [OF wait_chain(6)] by (auto simp: same_core_def chain_ok_def Let_def)
next
  case (stop_waiting cb c s)
  then show ?case using chain_removed by blast
next
  case (fire c s)
  then show ?case using chain_fire by blast
next
  case (drop_future c s)
  then show ?case using delFutureRef_core [OF drop_future(2)] by (auto simp: chain_ok_def same_core_def Let_def)
qed (clarsimp simp: chain_ok_def sav_defs Let_def result_simps split: if_splits)+

lemma sav_inv_step: "sav_step c c' \<Longrightarrow> sav_inv c \<Longrightarrow> sav_inv c'"
  using refs_step state_step chain_step by (auto simp: sav_inv_def)

lemma sav_reachable_inv: "sav_reachable c \<Longrightarrow> sav_inv c"
  by (induction rule: sav_reachable.induct) (auto intro: sav_inv_new sav_inv_step)

subsection \<open>The loop ends\<close>

text \<open>The loop run on its own: \<open>None\<close> when the given number of turns is not enough.\<close>

fun sav_run_loop :: "nat \<Rightarrow> 'a sav \<Rightarrow> 'a sav result option" where
  "sav_run_loop 0 s = (if sav_loop s = No_loop then Some (Inr s) else None)"
| "sav_run_loop (Suc n) s =
     (if sav_loop s = No_loop then Some (Inr s)
      else case sav_fire s of Inl e \<Rightarrow> Some (Inl e) | Inr s' \<Rightarrow> sav_run_loop n s')"

lemma sav_fire_ok:
  assumes "sav_inv c" and l: "sav_loop (cl_sav c) \<noteq> No_loop"
  obtains s where "sav_fire (cl_sav c) = Inr s" and
    "case sav_chain (cl_sav c) of
       [] \<Rightarrow> sav_loop s = No_loop \<and> sav_chain s = [] \<and> sav_fired s = sav_fired (cl_sav c)
     | cb # cbs \<Rightarrow> sav_loop s = sav_loop (cl_sav c) \<and> sav_chain s = cbs \<and>
         sav_fired s = sav_fired (cl_sav c) @ [(cb, the (sav_outcome (cl_sav c)))]"
    and "sav_error_state s = sav_error_state (cl_sav c)" and "sav_value s = sav_value (cl_sav c)"
proof -
  let ?s = "cl_sav c"
  have live: "\<not> sav_destroyed ?s"
    using assms by (auto simp: sav_inv_def refs_ok_def Let_def)
  show thesis
  proof (cases "sav_chain ?s")
    case Nil
    have "sav_loop ?s = After_broken \<Longrightarrow> sav_promises ?s = 1"
      using assms(1) live by (simp add: sav_inv_def refs_ok_def Let_def loop_owns_def)
    then obtain s where s: "sav_fire ?s = Inr s" "same_core (?s\<lparr>sav_loop := No_loop\<rparr>) s"
      using live Nil by (cases "sav_loop ?s")
        (auto simp: sav_fire_def on_live_def same_core_def Let_def sav_drop_promise_def sav_destroy_def)
    then show ?thesis using Nil by (intro that [of s]) (auto simp: same_core_def)
  next
    case (Cons cb cbs)
    have "sav_isSet ?s" "sav_outcome ?s \<noteq> None"
      using assms by (auto simp: sav_inv_def state_ok_def)
    then obtain r where r: "sav_outcome ?s = Some r" by blast
    let ?t = "?s\<lparr>sav_fired := sav_fired ?s @ [(cb, r)]\<rparr>"
    obtain s where s: "callback_remove cb ?t = Inr s"
      using live Cons
      by (cases cbs) (auto simp: callback_remove_def on_live_def Let_def sav_unwait_def sav_delFutureRef_def)
    then have "sav_fire ?s = Inr s" using live Cons r by (simp add: sav_fire_def on_live_def)
    then show ?thesis
      using callback_remove_core(1) [OF s] Cons r by (intro that [of s]) (auto simp: same_core_def)
  qed
qed

lemma sav_run_loop_ok:
  assumes "sav_inv c" and "sav_loop (cl_sav c) \<noteq> No_loop" and "length (sav_chain (cl_sav c)) < n"
  shows "\<exists>s. sav_run_loop n (cl_sav c) = Some (Inr s) \<and> sav_inv (c\<lparr>cl_sav := s\<rparr>) \<and> sav_loop s = No_loop \<and>
    sav_chain s = [] \<and> sav_outcome s = sav_outcome (cl_sav c) \<and>
    sav_fired s = sav_fired (cl_sav c) @
      map (\<lambda>cb. (cb, the (sav_outcome (cl_sav c)))) (sav_chain (cl_sav c))"
  using assms
proof (induction n arbitrary: c)
  case (Suc n)
  obtain s where f: "sav_fire (cl_sav c) = Inr s"
    and chain: "case sav_chain (cl_sav c) of
       [] \<Rightarrow> sav_loop s = No_loop \<and> sav_chain s = [] \<and> sav_fired s = sav_fired (cl_sav c)
     | cb # cbs \<Rightarrow> sav_loop s = sav_loop (cl_sav c) \<and> sav_chain s = cbs \<and>
         sav_fired s = sav_fired (cl_sav c) @ [(cb, the (sav_outcome (cl_sav c)))]"
    and core: "sav_error_state s = sav_error_state (cl_sav c)" "sav_value s = sav_value (cl_sav c)"
    using sav_fire_ok [OF Suc.prems(1,2)] by blast
  have o: "sav_outcome s = sav_outcome (cl_sav c)" using core by (simp add: sav_outcome_def sav_isError_def)
  have inv: "sav_inv (c\<lparr>cl_sav := s\<rparr>)"
    using sav_inv_step [OF sav_step.fire [OF Suc.prems(2) f] Suc.prems(1)] .
  show ?case
  proof (cases "sav_chain (cl_sav c)")
    case Nil
    then have "sav_run_loop (Suc n) (cl_sav c) = Some (Inr s)"
      using chain f Suc.prems(2) by (cases n) simp_all
    then show ?thesis using Nil chain o inv by simp
  next
    case (Cons cb cbs)
    then have "length (sav_chain s) < n" "sav_loop s \<noteq> No_loop" using chain Suc.prems(2,3) by simp_all
    then show ?thesis
      using Suc.IH [OF inv] Cons chain f o Suc.prems(2) by simp
  qed
qed simp
subsection \<open>Properties\<close>

text \<open>
  Property C1: reference counting.  In every state clients can reach, a variable that is still alive
  counts exactly its promise handles, plus the one a finishing sender or a breaking promise still
  holds, and its future handles, plus one while callbacks wait; it is destroyed exactly when the
  last reference is gone, and then no handle, callback or running loop refers to it.
\<close>

theorem sav_refcounts:
  assumes "sav_reachable c"
  shows "if sav_destroyed (cl_sav c)
    then cl_promises c = 0 \<and> cl_futures c = 0 \<and> sav_chain (cl_sav c) = [] \<and> sav_loop (cl_sav c) = No_loop
    else sav_promises (cl_sav c) =
           int (cl_promises c) + (if sav_loop (cl_sav c) \<in> {After_send_del, After_broken} then 1 else 0) \<and>
         sav_futures (cl_sav c) = int (cl_futures c) + (if sav_chain (cl_sav c) = [] then 0 else 1) \<and>
         (sav_promises (cl_sav c) > 0 \<or> sav_futures (cl_sav c) > 0)"
  using sav_reachable_inv [OF assms]
  by (auto simp: sav_inv_def refs_ok_def loop_owns_def Let_def split: if_splits)

theorem sav_refcounts_witness:
  "sav_promises (cl_sav (client_new 2 1 :: nat client)) = 1 \<and> sav_futures (cl_sav (client_new 2 1 :: nat client)) = 2"
  using sav_refcounts [OF sav_reachable.start, of 1 2] by (simp add: client_new_def sav_new_def)

lemma callback_remove_total:
  assumes "sav_reachable c" and "cb \<in> set (sav_chain (cl_sav c))"
  shows "\<exists>s. callback_remove cb (cl_sav c) = Inr s"
proof -
  have "\<not> sav_destroyed (cl_sav c)" using sav_reachable_inv [OF assms(1)] assms(2) by (auto simp: sav_inv_def refs_ok_def Let_def)
  then show ?thesis using assms(2) by (auto simp: callback_remove_def on_live_def sav_unwait_def sav_delFutureRef_def Let_def)
qed

text \<open>An operation that succeeds when its guard holds, and otherwise fails an assertion.\<close>

definition guarded :: "bool \<Rightarrow> 'b result \<Rightarrow> bool" where
  "guarded P r \<longleftrightarrow> (if P then \<exists>x. r = Inr x else r = Inl Assert_failed)"

text \<open>
  Property C2: in every reachable state, every operation of the variable that the handles, the waiting callbacks or the
  running loop may call succeeds, with exactly these exceptions.  A send fails its assertion when the variable cannot be set,
  or when the error code is not positive, and \<open>get\<close> when the variable is not set.  No operation touches a destroyed variable.
\<close>

theorem sav_operations_safe:
  assumes "sav_reachable c"
  shows "(0 < cl_promises c \<longrightarrow>
       guarded True (sav_addPromiseRef (cl_sav c)) \<and> guarded True (sav_delPromiseRef (cl_sav c)) \<and>
       guarded (sav_canBeSet (cl_sav c)) (sav_send v (cl_sav c)) \<and>
       guarded (sav_canBeSet (cl_sav c)) (sav_send_never (cl_sav c)) \<and>
       guarded (sav_canBeSet (cl_sav c) \<and> sint e > 0) (sav_sendError e (cl_sav c)) \<and>
       guarded (sav_canBeSet (cl_sav c)) (sav_sendAndDelPromiseRef v (cl_sav c)) \<and>
       guarded (sav_canBeSet (cl_sav c)) (sav_sendAndDelPromiseRef_never (cl_sav c)) \<and>
       guarded (sav_canBeSet (cl_sav c) \<and> sint e > 0) (sav_sendErrorAndDelPromiseRef e (cl_sav c))) \<and>
    (0 < cl_promises c \<or> 0 < cl_futures c \<longrightarrow> guarded True (sav_addFutureRef (cl_sav c))) \<and>
    (0 < cl_futures c \<longrightarrow>
       guarded True (sav_delFutureRef (cl_sav c)) \<and>
       guarded True (sav_addCallbackAndDelFutureRef cb (cl_sav c)) \<and>
       guarded True (sav_addYieldedCallbackAndDelFutureRef cb (cl_sav c)) \<and>
       guarded True (sav_addCallbackChainAndDelFutureRef cbs (cl_sav c)) \<and>
       sav_get (cl_sav c) =
         (if \<not> sav_isSet (cl_sav c) then Inl Assert_failed
          else case the (sav_outcome (cl_sav c)) of Value x \<Rightarrow> Inr x | Failure e \<Rightarrow> Inl (Thrown e))) \<and>
    (cb \<in> set (sav_chain (cl_sav c)) \<longrightarrow> guarded True (callback_remove cb (cl_sav c))) \<and>
    (sav_loop (cl_sav c) \<noteq> No_loop \<longrightarrow> guarded True (sav_fire (cl_sav c)))"
proof -
  let ?s = "cl_sav c"
  note inv = sav_reachable_inv [OF assms]
  have live: "0 < cl_promises c \<or> 0 < cl_futures c \<or> sav_chain ?s \<noteq> [] \<Longrightarrow> \<not> sav_destroyed ?s"
    using inv by (auto simp: sav_inv_def refs_ok_def Let_def)
  have get: "sav_get ?s = (if \<not> sav_isSet ?s then Inl Assert_failed
      else case the (sav_outcome ?s) of Value x \<Rightarrow> Inr x | Failure e \<Rightarrow> Inl (Thrown e))" if "0 < cl_futures c"
    using live that inv
    by (auto simp: sav_get_def on_live_def sav_outcome_def sav_inv_def state_ok_def split: option.splits)
  have room: "\<exists>t. sav_make_room ?s = Inr t" if "0 < cl_futures c"
    using live that by (simp add: sav_make_room_def sav_delFutureRef_def on_live_def Let_def)
  have add: "guarded True (sav_addCallbackAndDelFutureRef cb ?s)" "guarded True (sav_addYieldedCallbackAndDelFutureRef cb ?s)"
    "guarded True (sav_addCallbackChainAndDelFutureRef cbs ?s)" if "0 < cl_futures c"
    using live that room [OF that]
    by (auto simp: guarded_def sav_addCallbackAndDelFutureRef_def sav_addYieldedCallbackAndDelFutureRef_def
        sav_addCallbackChainAndDelFutureRef_def on_live_def)
  have remove: "guarded True (callback_remove cb ?s)" if "cb \<in> set (sav_chain ?s)"
    using callback_remove_total [OF assms that] by (simp add: guarded_def)
  have fire: "guarded True (sav_fire ?s)" if "sav_loop ?s \<noteq> No_loop"
    using sav_fire_ok [OF inv that] unfolding guarded_def by simp blast
  have sends: "guarded (sav_canBeSet ?s) (sav_send v ?s)" "guarded (sav_canBeSet ?s) (sav_send_never ?s)"
    "guarded (sav_canBeSet ?s \<and> sint e > 0) (sav_sendError e ?s)" "guarded (sav_canBeSet ?s) (sav_sendAndDelPromiseRef v ?s)"
    "guarded (sav_canBeSet ?s) (sav_sendAndDelPromiseRef_never ?s)"
    "guarded (sav_canBeSet ?s \<and> sint e > 0) (sav_sendErrorAndDelPromiseRef e ?s)" if "0 < cl_promises c"
    using live that by (auto simp: guarded_def sav_defs)
  show ?thesis
    using live get add remove fire sends
    by (auto simp: guarded_def sav_addPromiseRef_def sav_delPromiseRef_def sav_addFutureRef_def sav_delFutureRef_def
        sav_sendError_def on_live_def Let_def)
qed

theorem sav_operations_safe_witness:
  "(\<exists>s. sav_send (5 :: nat) (cl_sav (client_new 2 1)) = Inr s) \<and> sav_sendError 0 (cl_sav (client_new 2 1 :: nat client)) = Inl Assert_failed"
proof -
  have "sav_reachable (client_new 2 1 :: nat client)" by (rule sav_reachable.start) simp
  from sav_operations_safe [OF this, of 5 0] show ?thesis
    by (simp add: client_new_def sav_new_def sav_canBeSet_def guarded_def)
qed

lemma outcome_step:
  assumes "sav_step c c'" and "sav_isSet (cl_sav c)"
  shows "sav_outcome (cl_sav c') = sav_outcome (cl_sav c) \<and> sav_isSet (cl_sav c')"
  using assms
proof (induction rule: sav_step.induct)
  case (drop_promise c s)
  then show ?case
    by (clarsimp simp: sav_defs sav_queries Let_def split: if_splits)
next
  case (drop_future c s)
  then show ?case using delFutureRef_core [OF drop_future(2)] outcome_core
    by (fastforce simp: same_core_def sav_isSet_def)
next
  case (stop_waiting cb c s)
  then show ?case using callback_remove_core(1) [OF stop_waiting(2)]
    by (auto simp: same_core_def sav_queries)
next
  case (fire c s)
  then have "sav_error_state s = sav_error_state (cl_sav c) \<and> sav_value s = sav_value (cl_sav c)"
  proof (cases "sav_chain (cl_sav c)")
    case Nil
    then show ?thesis using fire(2) by (cases "sav_loop (cl_sav c)")
      (clarsimp simp: sav_fire_def sav_defs Let_def result_simps split: if_splits)+
  next
    case (Cons cb cbs)
    then show ?thesis using sav_fire_callback [OF fire(2) Cons]
      by (metis (no_types, lifting) callback_remove_core(1) same_core_def sav.select_convs(3,4) sav.simps
          sav.update_convs(5,9) sav.surjective)
  qed
  then show ?case using fire by (simp add: sav_queries)
qed (auto simp: sav_defs sav_queries split: if_splits)
lemma outcome_steps:
  "sav_step\<^sup>*\<^sup>* c c' \<Longrightarrow> sav_isSet (cl_sav c) \<Longrightarrow>
   sav_outcome (cl_sav c') = sav_outcome (cl_sav c) \<and> sav_isSet (cl_sav c')"
  by (induction rule: rtranclp_induct) (use outcome_step in fastforce)+

text \<open>A promise with one future, after \<open>send(7)\<close>.\<close>

definition sample_client :: "nat client" where
  "sample_client = (client_new 1 1)\<lparr>cl_sav := (sav_new 1 1)\<lparr>sav_value := Some 7,
     sav_error_state := SET_ERROR_CODE, sav_loop := After_send\<rparr>\<rparr>"

lemma sample_client_ok:
  "sav_reachable sample_client" "sav_isSet (cl_sav sample_client)" "sav_loop (cl_sav sample_client) \<noteq> No_loop"
proof -
  have "sav_step (client_new 1 1) sample_client"
    unfolding sample_client_def
    by (rule sav_step.send [where v = 7])
       (simp_all add: sav_send_def on_live_def client_new_def sav_new_def sav_canBeSet_def)
  moreover have "sav_reachable (client_new 1 1 :: nat client)" by (rule sav_reachable.start) simp
  ultimately show "sav_reachable sample_client" by (metis sav_reachable.step)
  show "sav_isSet (cl_sav sample_client)" "sav_loop (cl_sav sample_client) \<noteq> No_loop"
    by (simp_all add: sample_client_def sav_isSet_def)
qed

lemma reachable_steps: "sav_reachable c \<Longrightarrow> sav_step\<^sup>*\<^sup>* c c' \<Longrightarrow> sav_reachable c'"
  by (erule rtranclp_induct, assumption) (rule sav_reachable.step)

text \<open>
  Property C3: single assignment.  Once a variable is set its outcome never changes, whatever steps
  follow, and every further send fails its assertion; every callback is told at most once, and what it is told is that outcome.
\<close>

theorem sav_single_assignment:
  assumes "sav_reachable c" and "sav_isSet (cl_sav c)" and "sav_step\<^sup>*\<^sup>* c c'"
  shows "sav_outcome (cl_sav c) \<noteq> None \<and> sav_outcome (cl_sav c') = sav_outcome (cl_sav c) \<and>
    \<not> sav_canBeSet (cl_sav c') \<and> distinct (map fst (sav_fired (cl_sav c'))) \<and>
    set (map snd (sav_fired (cl_sav c'))) \<subseteq> {the (sav_outcome (cl_sav c))} \<and>
    (0 < cl_promises c' \<longrightarrow>
       sav_send v (cl_sav c') = Inl Assert_failed \<and> sav_send_never (cl_sav c') = Inl Assert_failed \<and>
       sav_sendError e (cl_sav c') = Inl Assert_failed \<and> sav_sendAndDelPromiseRef v (cl_sav c') = Inl Assert_failed \<and>
       sav_sendAndDelPromiseRef_never (cl_sav c') = Inl Assert_failed \<and>
       sav_sendErrorAndDelPromiseRef e (cl_sav c') = Inl Assert_failed)"
proof -
  have o: "sav_outcome (cl_sav c') = sav_outcome (cl_sav c)" "sav_isSet (cl_sav c')"
    using outcome_steps [OF assms(3,2)] by simp_all
  then have n: "\<not> sav_canBeSet (cl_sav c')" by (simp add: sav_isSet_def sav_canBeSet_def)
  have inv: "sav_inv c" "sav_inv c'" using sav_reachable_inv reachable_steps assms(1,3) by blast+
  have "0 < cl_promises c' \<Longrightarrow> \<not> sav_destroyed (cl_sav c')" using inv(2) by (auto simp: sav_inv_def refs_ok_def Let_def)
  then have "0 < cl_promises c' \<longrightarrow>
       sav_send v (cl_sav c') = Inl Assert_failed \<and> sav_send_never (cl_sav c') = Inl Assert_failed \<and>
       sav_sendError e (cl_sav c') = Inl Assert_failed \<and> sav_sendAndDelPromiseRef v (cl_sav c') = Inl Assert_failed \<and>
       sav_sendAndDelPromiseRef_never (cl_sav c') = Inl Assert_failed \<and>
       sav_sendErrorAndDelPromiseRef e (cl_sav c') = Inl Assert_failed"
    using n by (simp add: sav_defs)
  moreover have "sav_outcome (cl_sav c) \<noteq> None \<and> distinct (map fst (sav_fired (cl_sav c'))) \<and>
    set (map snd (sav_fired (cl_sav c'))) \<subseteq> {the (sav_outcome (cl_sav c))}"
    using inv o assms(2) by (auto simp: sav_inv_def state_ok_def chain_ok_def Let_def)
  ultimately show ?thesis using o(1) n by blast
qed

theorem sav_single_assignment_witness:
  "sav_outcome (cl_sav sample_client) \<noteq> None \<and> \<not> sav_canBeSet (cl_sav sample_client)"
  using sav_single_assignment [OF sample_client_ok(1,2) rtranclp.rtrancl_refl] by blast

text \<open>
  Property C4: delivery.  A running loop ends after at most one turn for each waiting callback and one
  more, and has then told every callback that was waiting, in chain order, the variable's outcome.
\<close>

theorem sav_loop_delivers:
  assumes "sav_reachable c" and "sav_loop (cl_sav c) \<noteq> No_loop"
  shows "\<exists>s. sav_run_loop (countCallbacks (cl_sav c) + 1) (cl_sav c) = Some (Inr s) \<and> sav_loop s = No_loop \<and>
    sav_chain s = [] \<and>
    sav_fired s = sav_fired (cl_sav c) @
      map (\<lambda>cb. (cb, the (sav_outcome (cl_sav c)))) (sav_chain (cl_sav c))"
  using sav_run_loop_ok [OF sav_reachable_inv [OF assms(1)] assms(2)] by (fastforce simp: countCallbacks_def)

theorem sav_loop_delivers_witness:
  "\<exists>s. sav_run_loop (countCallbacks (cl_sav sample_client) + 1) (cl_sav sample_client) = Some (Inr s) \<and>
     sav_loop s = No_loop"
  using sav_loop_delivers [OF sample_client_ok(1,3)] by blast

text \<open>
  Property C5: a broken promise is never silent.  When the last promise of an unset variable is dropped
  while futures remain, every waiting callback is told \<open>broken_promise\<close>, and afterwards the variable
  is either destroyed or, when future handles remain, ready with that error.
\<close>

theorem broken_promise_delivered:
  assumes "sav_reachable c" and "cl_promises c = 1" and "sav_canBeSet (cl_sav c)"
    and "sav_futures (cl_sav c) > 0"
  shows "\<exists>s1 s2. sav_delPromiseRef (cl_sav c) = Inr s1 \<and>
    sav_run_loop (countCallbacks (cl_sav c) + 1) s1 = Some (Inr s2) \<and>
    sav_fired s2 = map (\<lambda>cb. (cb, Failure broken_promise)) (sav_chain (cl_sav c)) \<and>
    (if cl_futures c = 0 then sav_destroyed s2 else sav_get s2 = Inl (Thrown broken_promise))"
proof -
  note inv = sav_reachable_inv [OF assms(1)]
  have st: "state_ok (cl_sav c)" and rf: "refs_ok c" using inv by (simp_all add: sav_inv_def)
  have nl: "sav_loop (cl_sav c) = No_loop" and nf: "sav_fired (cl_sav c) = []"
    using unset_no_loop [OF st] unset_not_fired [OF st] assms(3) by auto
  have live: "\<not> sav_destroyed (cl_sav c)" "sav_promises (cl_sav c) = 1"
    using rf assms(2) nl by (auto simp: refs_ok_def loop_owns_def Let_def split: if_splits)
  let ?s1 = "(cl_sav c)\<lparr>sav_error_state := broken_promise, sav_loop := After_broken\<rparr>"
  have d: "sav_delPromiseRef (cl_sav c) = Inr ?s1"
    using live assms(3,4) by (simp add: sav_delPromiseRef_def sav_sendError_def on_live_def)
  let ?c1 = "c\<lparr>cl_sav := ?s1, cl_promises := cl_promises c - 1\<rparr>"
  have "sav_step c ?c1" using assms(2) nl d by (intro sav_step.drop_promise) simp_all
  then have inv1: "sav_inv ?c1" using inv by (rule sav_inv_step)
  have o: "sav_outcome ?s1 = Some (Failure broken_promise)" by (simp add: sav_outcome_def sav_isError_def)
  obtain s2 where s2: "sav_run_loop (countCallbacks (cl_sav c) + 1) ?s1 = Some (Inr s2)"
      "sav_inv (?c1\<lparr>cl_sav := s2\<rparr>)" "sav_loop s2 = No_loop" "sav_chain s2 = []" "sav_outcome s2 = sav_outcome ?s1"
      "sav_fired s2 = map (\<lambda>cb. (cb, Failure broken_promise)) (sav_chain (cl_sav c))"
    using sav_run_loop_ok [OF inv1, of "countCallbacks (cl_sav c) + 1"] o nf by (auto simp: countCallbacks_def)
  have r2: "refs_ok (?c1\<lparr>cl_sav := s2\<rparr>)" using s2(2) by (simp add: sav_inv_def)
  have "sav_isError s2" "sav_error_state s2 = broken_promise"
    using s2(5) o by (auto simp: sav_outcome_def split: if_splits)
  moreover from this have "sav_isSet s2" by (simp add: sav_isSet_def sav_isError_def)
  ultimately have "\<not> sav_destroyed s2 \<Longrightarrow> sav_get s2 = Inl (Thrown broken_promise)"
    by (simp add: sav_get_def on_live_def)
  moreover have "sav_destroyed s2 \<longleftrightarrow> cl_futures c = 0"
    using r2 s2(3,4) assms(2) by (auto simp: refs_ok_def Let_def loop_owns_def split: if_splits)
  ultimately show ?thesis using d s2 by auto
qed

theorem broken_promise_delivered_witness:
  "\<exists>s1 s2. sav_delPromiseRef (cl_sav (client_new 1 1 :: nat client)) = Inr s1 \<and> sav_run_loop 1 s1 = Some (Inr s2) \<and>
     sav_get s2 = Inl (Thrown broken_promise)"
proof -
  have "sav_reachable (client_new 1 1 :: nat client)" by (rule sav_reachable.start) simp
  moreover have "cl_promises (client_new 1 1 :: nat client) = 1" "cl_futures (client_new 1 1 :: nat client) = 1"
      "sav_canBeSet (cl_sav (client_new 1 1 :: nat client))" "sav_futures (cl_sav (client_new 1 1 :: nat client)) > 0"
      "countCallbacks (cl_sav (client_new 1 1 :: nat client)) = 0"
    by (simp_all add: client_new_def sav_new_def sav_canBeSet_def countCallbacks_def)
  ultimately show ?thesis using broken_promise_delivered [of "client_new 1 1 :: nat client"] by (metis add_0 zero_neq_one)
qed

end
