(* ===== verification/Notified_Queue.thy ===== *)
theory Notified_Queue
  imports Flow_Error
begin

text \<open>
  The queue behind \<open>PromiseStream\<close> and \<open>FutureStream\<close> (\<open>src/flow/flow.h\<close>, \<open>SingleCallback\<close> and
  \<open>NotifiedQueue\<close>): values wait in a queue unless a single callback is waiting for them.  The queue's
  container is the list that the \<open>Deque\<close> theory shows the ring buffer to implement.  A callback that
  is fired removes itself first, as the code generated for an actor does; \<open>nq_out\<close> records the values
  handed over, \<open>nq_told\<close> the errors.
\<close>

subsection \<open>State and operations\<close>

record 'a nqueue =
  nq_promises :: int
  nq_futures :: int
  nq_queue :: "'a list"
  nq_error :: u16
  nq_callback :: "nat option"
  nq_destroyed :: bool
  nq_cancels :: nat
  nq_out :: "'a list"
  nq_told :: "u16 list"

definition nq_new :: "int \<Rightarrow> int \<Rightarrow> 'a nqueue" where
  "nq_new futures promises =
     \<lparr>nq_promises = promises, nq_futures = futures, nq_queue = [], nq_error = invalid_error_code,
      nq_callback = None, nq_destroyed = False, nq_cancels = 0, nq_out = [], nq_told = []\<rparr>"

definition nq_error_valid :: "'a nqueue \<Rightarrow> bool" where
  "nq_error_valid q \<longleftrightarrow> nq_error q \<noteq> invalid_error_code"

definition nq_isReady :: "'a nqueue \<Rightarrow> bool" where
  "nq_isReady q \<longleftrightarrow> nq_queue q \<noteq> [] \<or> nq_error_valid q"

definition nq_isError :: "'a nqueue \<Rightarrow> bool" where
  "nq_isError q \<longleftrightarrow> nq_queue q = [] \<and> nq_error_valid q"

definition on_live_nq :: "('a nqueue \<Rightarrow> 'b result) \<Rightarrow> 'a nqueue \<Rightarrow> 'b result" where
  "on_live_nq f q = (if nq_destroyed q then Inl Undefined_behaviour else f q)"

text \<open>\<open>pop\<close> is not only called when the queue is ready: on an empty open queue it throws.\<close>

abbreviation "internal_error \<equiv> (4100 :: u16)"

definition nq_pop :: "'a nqueue \<Rightarrow> ('a \<times> 'a nqueue) result" where
  "nq_pop = on_live_nq (\<lambda>q.
     case nq_queue q of
       [] \<Rightarrow> if nq_error_valid q then Inl (Thrown (nq_error q)) else Inl (Thrown internal_error)
     | v # vs \<Rightarrow> Inr (v, q\<lparr>nq_queue := vs, nq_out := nq_out q @ [v]\<rparr>))"

definition nq_cancel :: "'a nqueue \<Rightarrow> 'a nqueue" where
  "nq_cancel q = q\<lparr>nq_cancels := Suc (nq_cancels q)\<rparr>"

definition nq_destroy :: "'a nqueue \<Rightarrow> 'a nqueue" where
  "nq_destroy q = q\<lparr>nq_destroyed := True\<rparr>"

definition nq_addPromiseRef :: "'a nqueue \<Rightarrow> 'a nqueue result" where
  "nq_addPromiseRef = on_live_nq (\<lambda>q. Inr (q\<lparr>nq_promises := nq_promises q + 1\<rparr>))"

definition nq_addFutureRef :: "'a nqueue \<Rightarrow> 'a nqueue result" where
  "nq_addFutureRef = on_live_nq (\<lambda>q. Inr (q\<lparr>nq_futures := nq_futures q + 1\<rparr>))"

definition nq_delFutureRef :: "'a nqueue \<Rightarrow> 'a nqueue result" where
  "nq_delFutureRef = on_live_nq (\<lambda>q.
     let q1 = q\<lparr>nq_futures := nq_futures q - 1\<rparr>
     in Inr (if nq_futures q1 = 0 then if nq_promises q1 \<noteq> 0 then nq_cancel q1 else nq_destroy q1
             else q1))"

definition nq_unwait :: "'a nqueue \<Rightarrow> 'a nqueue result" where
  "nq_unwait q = nq_delFutureRef q"

definition single_remove :: "nat \<Rightarrow> 'a nqueue \<Rightarrow> 'a nqueue result" where
  "single_remove cb = on_live_nq (\<lambda>q.
     bind_result (assert_that (nq_callback q = Some cb)) (\<lambda>_. nq_unwait (q\<lparr>nq_callback := None\<rparr>)))"

definition nq_send :: "'a \<Rightarrow> 'a nqueue \<Rightarrow> 'a nqueue result" where
  "nq_send v = on_live_nq (\<lambda>q.
     if nq_error_valid q then Inr q
     else case nq_callback q of
            Some cb \<Rightarrow> single_remove cb (q\<lparr>nq_out := nq_out q @ [v]\<rparr>)
          | None \<Rightarrow> Inr (q\<lparr>nq_queue := nq_queue q @ [v]\<rparr>))"

definition nq_sendError :: "u16 \<Rightarrow> 'a nqueue \<Rightarrow> 'a nqueue result" where
  "nq_sendError err = on_live_nq (\<lambda>q.
     if nq_error_valid q then Inr q
     else let q1 = q\<lparr>nq_error := err\<rparr>
          in case nq_callback q1 of
               Some cb \<Rightarrow> single_remove cb (q1\<lparr>nq_told := nq_told q1 @ [err]\<rparr>)
             | None \<Rightarrow> Inr q1)"

definition nq_delPromiseRef :: "'a nqueue \<Rightarrow> 'a nqueue result" where
  "nq_delPromiseRef = on_live_nq (\<lambda>q.
     let q1 = q\<lparr>nq_promises := nq_promises q - 1\<rparr>
     in if nq_promises q1 = 0
        then if nq_futures q1 \<noteq> 0 then nq_sendError broken_promise q1 else Inr (nq_destroy q1)
        else Inr q1)"

definition nq_addCallbackAndDelFutureRef :: "nat \<Rightarrow> 'a nqueue \<Rightarrow> 'a nqueue result" where
  "nq_addCallbackAndDelFutureRef cb = on_live_nq (\<lambda>q.
     bind_result (assert_that (nq_callback q = None)) (\<lambda>_. Inr (q\<lparr>nq_callback := Some cb\<rparr>)))"

subsection \<open>Clients\<close>

text \<open>
  Stream handles each stand for one reference.  As in the code generated for \<open>waitNext\<close>, a stream is
  waited on only when it is not ready, by one actor at a time, and the wait gives the handle up; it is
  popped only when it is ready.  \<open>sc_sent\<close> records what was sent before the stream was closed.
\<close>

record 'a stream_client =
  sc_queue :: "'a nqueue"
  sc_promises :: nat
  sc_futures :: nat
  sc_sent :: "'a list"

inductive nq_step :: "'a stream_client \<Rightarrow> 'a stream_client \<Rightarrow> bool" where
  copy_promise: "0 < sc_promises c \<Longrightarrow> nq_addPromiseRef (sc_queue c) = Inr q \<Longrightarrow>
    nq_step c (c\<lparr>sc_queue := q, sc_promises := sc_promises c + 1\<rparr>)"
| get_future: "0 < sc_promises c \<or> 0 < sc_futures c \<Longrightarrow> nq_addFutureRef (sc_queue c) = Inr q \<Longrightarrow>
    nq_step c (c\<lparr>sc_queue := q, sc_futures := sc_futures c + 1\<rparr>)"
| drop_promise: "0 < sc_promises c \<Longrightarrow> nq_delPromiseRef (sc_queue c) = Inr q \<Longrightarrow>
    nq_step c (c\<lparr>sc_queue := q, sc_promises := sc_promises c - 1\<rparr>)"
| drop_future: "0 < sc_futures c \<Longrightarrow> nq_delFutureRef (sc_queue c) = Inr q \<Longrightarrow>
    nq_step c (c\<lparr>sc_queue := q, sc_futures := sc_futures c - 1\<rparr>)"
| send: "0 < sc_promises c \<Longrightarrow> nq_send v (sc_queue c) = Inr q \<Longrightarrow>
    nq_step c (c\<lparr>sc_queue := q,
      sc_sent := (if nq_error_valid (sc_queue c) then sc_sent c else sc_sent c @ [v])\<rparr>)"
| send_error: "0 < sc_promises c \<Longrightarrow> e \<noteq> invalid_error_code \<Longrightarrow> nq_sendError e (sc_queue c) = Inr q \<Longrightarrow>
    nq_step c (c\<lparr>sc_queue := q\<rparr>)"
| wait: "0 < sc_futures c \<Longrightarrow> \<not> nq_isReady (sc_queue c) \<Longrightarrow> nq_callback (sc_queue c) = None \<Longrightarrow>
    nq_addCallbackAndDelFutureRef cb (sc_queue c) = Inr q \<Longrightarrow>
    nq_step c (c\<lparr>sc_queue := q, sc_futures := sc_futures c - 1\<rparr>)"
| stop_waiting: "nq_callback (sc_queue c) = Some cb \<Longrightarrow> single_remove cb (sc_queue c) = Inr q \<Longrightarrow>
    nq_step c (c\<lparr>sc_queue := q\<rparr>)"
| pop: "0 < sc_futures c \<Longrightarrow> nq_isReady (sc_queue c) \<Longrightarrow> nq_pop (sc_queue c) = Inr (v, q) \<Longrightarrow>
    nq_step c (c\<lparr>sc_queue := q\<rparr>)"

definition stream_new :: "nat \<Rightarrow> nat \<Rightarrow> 'a stream_client" where
  "stream_new futures promises =
     \<lparr>sc_queue = nq_new (int futures) (int promises), sc_promises = promises, sc_futures = futures,
      sc_sent = []\<rparr>"

inductive nq_reachable :: "'a stream_client \<Rightarrow> bool" where
  start: "0 < promises \<Longrightarrow> nq_reachable (stream_new futures promises)"
| step: "nq_reachable c \<Longrightarrow> nq_step c c' \<Longrightarrow> nq_reachable c'"

subsection \<open>Invariant\<close>

definition nq_inv :: "'a stream_client \<Rightarrow> bool" where
  "nq_inv c \<longleftrightarrow>
     (let q = sc_queue c
      in (nq_callback q = None \<or> (nq_queue q = [] \<and> \<not> nq_error_valid q)) \<and>
         sc_sent c = nq_out q @ nq_queue q \<and>
         (if nq_destroyed q then sc_promises c = 0 \<and> sc_futures c = 0 \<and> nq_callback q = None
          else nq_promises q = int (sc_promises c) \<and>
               nq_futures q = int (sc_futures c) + (if nq_callback q = None then 0 else 1) \<and>
               (nq_promises q > 0 \<or> nq_futures q > 0)) \<and>
         (\<not> nq_destroyed q \<and> sc_promises c = 0 \<longrightarrow> nq_error_valid q))"

lemma broken_promise_valid [simp]: "broken_promise \<noteq> invalid_error_code"
  by (simp add: invalid_error_code_def)

lemmas nq_defs = on_live_nq_def nq_pop_def nq_cancel_def nq_destroy_def nq_addPromiseRef_def
  nq_addFutureRef_def nq_delFutureRef_def nq_unwait_def single_remove_def nq_send_def nq_sendError_def
  nq_delPromiseRef_def nq_addCallbackAndDelFutureRef_def nq_isReady_def nq_error_valid_def

lemma nq_inv_new: "0 < promises \<Longrightarrow> nq_inv (stream_new futures promises)"
  by (simp add: nq_inv_def stream_new_def nq_new_def)

lemma nq_inv_step: "nq_step c c' \<Longrightarrow> nq_inv c \<Longrightarrow> nq_inv c'"
proof (induction rule: nq_step.induct)
  case (drop_promise c q)
  then show ?case
    by (cases "nq_callback (sc_queue c)")
       (clarsimp simp: nq_inv_def nq_defs Let_def result_simps split: if_splits)+
next
  case (send c v q)
  then show ?case
    by (cases "nq_callback (sc_queue c)")
       (clarsimp simp: nq_inv_def nq_defs Let_def result_simps split: if_splits)+
next
  case (send_error c e q)
  then show ?case
    by (cases "nq_callback (sc_queue c)")
       (clarsimp simp: nq_inv_def nq_defs Let_def result_simps split: if_splits)+
next
  case (pop c v q)
  then show ?case
    by (cases "nq_queue (sc_queue c)")
       (clarsimp simp: nq_inv_def nq_defs Let_def result_simps split: if_splits)+
qed (clarsimp simp: nq_inv_def nq_defs Let_def result_simps split: if_splits)+
lemma nq_reachable_inv: "nq_reachable c \<Longrightarrow> nq_inv c"
  by (induction rule: nq_reachable.induct) (auto intro: nq_inv_new nq_inv_step)

subsection \<open>Properties\<close>

text \<open>
  Property C7: a stream delivers in order and loses nothing.  In every reachable state the values sent
  before the stream was closed are those handed over, in order, followed by those still queued; the
  invariant the source states holds (a callback waits only on an empty queue without an error); and
  the references counted are the handles and the waiting callback.
\<close>

theorem stream_fifo:
  assumes "nq_reachable c"
  shows "sc_sent c = nq_out (sc_queue c) @ nq_queue (sc_queue c) \<and>
    (nq_callback (sc_queue c) = None \<or> nq_queue (sc_queue c) = [] \<and> \<not> nq_error_valid (sc_queue c)) \<and>
    (if nq_destroyed (sc_queue c) then sc_promises c = 0 \<and> sc_futures c = 0
     else nq_promises (sc_queue c) = int (sc_promises c) \<and>
       nq_futures (sc_queue c) = int (sc_futures c) + (if nq_callback (sc_queue c) = None then 0 else 1))"
  using nq_reachable_inv [OF assms] by (auto simp: nq_inv_def Let_def split: if_splits)

text \<open>One value sent to a stream with one reader.\<close>

definition sample_stream :: "nat stream_client" where
  "sample_stream = (stream_new 1 1)\<lparr>sc_queue := (nq_new 1 1)\<lparr>nq_queue := [7]\<rparr>, sc_sent := [7]\<rparr>"

lemma sample_stream_ok: "nq_reachable sample_stream"
proof -
  let ?c = "stream_new 1 1 :: nat stream_client"
  let ?c' = "?c\<lparr>sc_queue := (nq_new 1 1)\<lparr>nq_queue := [7]\<rparr>,
    sc_sent := (if nq_error_valid (sc_queue ?c) then sc_sent ?c else sc_sent ?c @ [7])\<rparr>"
  have "nq_step ?c ?c'"
    by (rule nq_step.send) (simp_all add: stream_new_def nq_new_def nq_defs)
  moreover have "nq_reachable ?c" by (rule nq_reachable.start) simp
  ultimately have "nq_reachable ?c'" by (rule nq_reachable.step [rotated])
  moreover have "?c' = sample_stream"
    by (simp add: sample_stream_def stream_new_def nq_new_def nq_error_valid_def)
  ultimately show ?thesis by simp
qed

theorem stream_fifo_witness: "sc_sent sample_stream = nq_out (sc_queue sample_stream) @ nq_queue (sc_queue sample_stream)"
  using stream_fifo [OF sample_stream_ok] by blast

text \<open>
  Property C8: closing a stream.  After the last promise is dropped, or an error sent, a reader first
  gets every queued value and only then the error, which later sends and errors do not change; a
  reader that was already waiting is told the error at once.
\<close>

theorem stream_close:
  assumes "nq_reachable c" and "0 < sc_promises c" and "e \<noteq> invalid_error_code"
    and "\<not> nq_error_valid (sc_queue c)"
  shows "\<exists>q. nq_sendError e (sc_queue c) = Inr q \<and> nq_error q = e \<and> nq_queue q = nq_queue (sc_queue c) \<and>
    nq_told q = nq_told (sc_queue c) @ (if nq_callback (sc_queue c) = None then [] else [e]) \<and>
    nq_send v q = Inr q \<and> nq_sendError e' q = Inr q \<and>
    (case nq_queue q of [] \<Rightarrow> nq_isError q \<and> nq_pop q = Inl (Thrown e)
     | x # xs \<Rightarrow> \<not> nq_isError q \<and> (\<exists>q'. nq_pop q = Inr (x, q') \<and> nq_queue q' = xs \<and> nq_error q' = e))"
proof -
  note inv = nq_reachable_inv [OF assms(1)]
  have live: "\<not> nq_destroyed (sc_queue c)" "nq_promises (sc_queue c) > 0"
    using inv assms(2) by (auto simp: nq_inv_def Let_def split: if_splits)
  have "\<exists>q. nq_sendError e (sc_queue c) = Inr q \<and> nq_error q = e \<and> nq_queue q = nq_queue (sc_queue c) \<and>
      nq_told q = nq_told (sc_queue c) @ (if nq_callback (sc_queue c) = None then [] else [e]) \<and>
      \<not> nq_destroyed q"
    using live assms(4)
    by (cases "nq_callback (sc_queue c)")
       (auto simp: nq_sendError_def on_live_nq_def single_remove_def nq_unwait_def nq_delFutureRef_def
        nq_cancel_def nq_error_valid_def Let_def)
  then obtain q where q: "nq_sendError e (sc_queue c) = Inr q" "nq_error q = e"
      "nq_queue q = nq_queue (sc_queue c)" "\<not> nq_destroyed q"
      "nq_told q = nq_told (sc_queue c) @ (if nq_callback (sc_queue c) = None then [] else [e])" by blast
  then show ?thesis
    using assms(3)
    by (intro exI [of _ q])
       (auto simp: nq_send_def nq_sendError_def nq_pop_def nq_isError_def nq_error_valid_def on_live_nq_def
        split: list.splits)
qed

theorem stream_close_witness:
  "\<exists>q. nq_sendError end_of_stream (sc_queue sample_stream) = Inr q \<and> nq_queue q = [7] \<and> nq_send 8 q = Inr q"
proof -
  have "0 < sc_promises sample_stream" "end_of_stream \<noteq> invalid_error_code"
      "\<not> nq_error_valid (sc_queue sample_stream)" "nq_queue (sc_queue sample_stream) = [7]"
    by (simp_all add: sample_stream_def stream_new_def nq_new_def nq_error_valid_def invalid_error_code_def)
  then show ?thesis using stream_close [OF sample_stream_ok, of end_of_stream 8 0] by auto
qed

text \<open>
  Property C9: in every reachable state every operation that the handles of a stream may call succeeds and none uses the queue after
  it was destroyed, with exactly these exceptions: a second reader that starts to wait fails its assertion, and \<open>pop\<close> on an empty
  queue throws the error the stream was closed with, or \<open>internal_error\<close> while it is open.
\<close>

theorem stream_operations_safe:
  assumes "nq_reachable c"
  shows "(0 < sc_promises c \<longrightarrow> (\<exists>q. nq_send v (sc_queue c) = Inr q) \<and> (\<exists>q. nq_sendError e (sc_queue c) = Inr q) \<and>
      (\<exists>q. nq_addPromiseRef (sc_queue c) = Inr q) \<and> (\<exists>q. nq_delPromiseRef (sc_queue c) = Inr q)) \<and>
    (0 < sc_promises c \<or> 0 < sc_futures c \<longrightarrow> (\<exists>q. nq_addFutureRef (sc_queue c) = Inr q)) \<and>
    (0 < sc_futures c \<longrightarrow> (\<exists>q. nq_delFutureRef (sc_queue c) = Inr q) \<and>
      (case nq_queue (sc_queue c) of
         x # xs \<Rightarrow> \<exists>q. nq_pop (sc_queue c) = Inr (x, q) \<and> nq_queue q = xs
       | [] \<Rightarrow> nq_pop (sc_queue c) =
           Inl (Thrown (if nq_error_valid (sc_queue c) then nq_error (sc_queue c) else internal_error))) \<and>
      (if nq_callback (sc_queue c) = None then \<exists>q. nq_addCallbackAndDelFutureRef cb (sc_queue c) = Inr q
       else nq_addCallbackAndDelFutureRef cb (sc_queue c) = Inl Assert_failed)) \<and>
    (nq_callback (sc_queue c) = Some cb \<longrightarrow> (\<exists>q. single_remove cb (sc_queue c) = Inr q))"
proof -
  note inv = nq_reachable_inv [OF assms]
  have live: "\<not> nq_destroyed (sc_queue c)" if "0 < sc_promises c \<or> 0 < sc_futures c \<or> nq_callback (sc_queue c) \<noteq> None"
    using inv that by (auto simp: nq_inv_def Let_def split: if_splits)
  show ?thesis
    using live by (cases "nq_callback (sc_queue c)"; cases "nq_queue (sc_queue c)")
      (auto simp: nq_defs Let_def)
qed

theorem stream_operations_safe_witness:
  "(\<exists>q. nq_send 8 (sc_queue sample_stream) = Inr q) \<and> (\<exists>q. nq_addFutureRef (sc_queue sample_stream) = Inr q)"
  using stream_operations_safe [OF sample_stream_ok, of 8 1 0]
  by (simp add: sample_stream_def stream_new_def)

end
