(* ===== verification/Handles.thy ===== *)
theory Handles
  imports Sav
begin

text \<open>
  The handle classes \<open>Promise\<close> and \<open>Future\<close> (\<open>src/flow/flow.h\<close>) over a store of single-assignment
  variables.  A world holds the variables by address and, for each handle object of a program, the
  pointer in it.  Constructors act on a handle that holds no pointer, destructors leave it so.  The
  theory shows that every handle operation takes each variable along the client steps of the theory
  \<open>Sav\<close>, so its properties hold of whatever a program does with its handles.
\<close>

subsection \<open>Worlds and handles\<close>

record 'a world =
  w_sav :: "nat \<Rightarrow> 'a sav option"
  w_fut :: "nat \<Rightarrow> nat option"
  w_prom :: "nat \<Rightarrow> nat option"
  w_fresh :: nat

definition at_sav :: "nat \<Rightarrow> ('a sav \<Rightarrow> 'a sav result) \<Rightarrow> 'a world \<Rightarrow> 'a world result" where
  "at_sav a f w =
     (case w_sav w a of None \<Rightarrow> Inl Undefined_behaviour
      | Some s \<Rightarrow> bind_result (f s) (\<lambda>s'. Inr (w\<lparr>w_sav := (w_sav w)(a \<mapsto> s')\<rparr>)))"

text \<open>\<open>if (sav) sav->f();\<close>\<close>

definition if_sav :: "nat option \<Rightarrow> ('a sav \<Rightarrow> 'a sav result) \<Rightarrow> 'a world \<Rightarrow> 'a world result" where
  "if_sav p f w = (case p of None \<Rightarrow> Inr w | Some a \<Rightarrow> at_sav a f w)"

definition new_sav :: "'a sav \<Rightarrow> 'a world \<Rightarrow> 'a world" where
  "new_sav s w = w\<lparr>w_sav := (w_sav w)(w_fresh w \<mapsto> s), w_fresh := Suc (w_fresh w)\<rparr>"

subsection \<open>Future\<close>

definition future_isValid :: "nat \<Rightarrow> 'a world \<Rightarrow> bool" where
  "future_isValid i w \<longleftrightarrow> w_fut w i \<noteq> None"

definition future_get :: "nat \<Rightarrow> 'a world \<Rightarrow> 'a result" where
  "future_get i w =
     (case w_fut w i of None \<Rightarrow> Inl Undefined_behaviour
      | Some a \<Rightarrow> (case w_sav w a of None \<Rightarrow> Inl Undefined_behaviour | Some s \<Rightarrow> sav_get s))"

definition future_copy :: "nat \<Rightarrow> nat \<Rightarrow> 'a world \<Rightarrow> 'a world result" where
  "future_copy this rhs w =
     bind_result (if_sav (w_fut w rhs) sav_addFutureRef w) (\<lambda>w1.
       Inr (w1\<lparr>w_fut := (w_fut w1)(this := w_fut w1 rhs)\<rparr>))"

definition future_move :: "nat \<Rightarrow> nat \<Rightarrow> 'a world \<Rightarrow> 'a world result" where
  "future_move this rhs w = Inr (w\<lparr>w_fut := (w_fut w)(this := w_fut w rhs, rhs := None)\<rparr>)"

text \<open>A future of a present value: the loop of \<open>send\<close> finds no callback.\<close>

definition future_of_value :: "nat \<Rightarrow> 'a \<Rightarrow> 'a world \<Rightarrow> 'a world result" where
  "future_of_value this v w =
     bind_result (bind_result (sav_send v (sav_new 1 0)) sav_fire) (\<lambda>s.
       let a = w_fresh w; w1 = new_sav s w in Inr (w1\<lparr>w_fut := (w_fut w1)(this := Some a)\<rparr>))"

definition future_destroy :: "nat \<Rightarrow> 'a world \<Rightarrow> 'a world result" where
  "future_destroy this w =
     bind_result (if_sav (w_fut w this) sav_delFutureRef w) (\<lambda>w1.
       Inr (w1\<lparr>w_fut := (w_fut w1)(this := None)\<rparr>))"

definition future_assign :: "nat \<Rightarrow> nat \<Rightarrow> 'a world \<Rightarrow> 'a world result" where
  "future_assign this rhs w =
     bind_result (if_sav (w_fut w rhs) sav_addFutureRef w) (\<lambda>w1.
     bind_result (if_sav (w_fut w1 this) sav_delFutureRef w1) (\<lambda>w2.
       Inr (w2\<lparr>w_fut := (w_fut w2)(this := w_fut w2 rhs)\<rparr>)))"

definition future_move_assign :: "nat \<Rightarrow> nat \<Rightarrow> 'a world \<Rightarrow> 'a world result" where
  "future_move_assign this rhs w =
     (if w_fut w this \<noteq> w_fut w rhs
      then bind_result (if_sav (w_fut w this) sav_delFutureRef w) (\<lambda>w1.
             Inr (w1\<lparr>w_fut := (w_fut w1)(this := w_fut w1 rhs, rhs := None)\<rparr>))
      else Inr w)"

definition future_cancel :: "nat \<Rightarrow> 'a world \<Rightarrow> 'a world result" where
  "future_cancel this w = if_sav (w_fut w this) (on_live (\<lambda>s. Inr (sav_cancel s))) w"

definition future_addCallbackAndClear :: "nat \<Rightarrow> nat \<Rightarrow> 'a world \<Rightarrow> 'a world result" where
  "future_addCallbackAndClear this cb w =
     (case w_fut w this of None \<Rightarrow> Inl Undefined_behaviour
      | Some a \<Rightarrow> bind_result (at_sav a (sav_addCallbackAndDelFutureRef cb) w) (\<lambda>w1.
          Inr (w1\<lparr>w_fut := (w_fut w1)(this := None)\<rparr>)))"

definition future_addYieldedCallbackAndClear :: "nat \<Rightarrow> nat \<Rightarrow> 'a world \<Rightarrow> 'a world result" where
  "future_addYieldedCallbackAndClear this cb w =
     (case w_fut w this of None \<Rightarrow> Inl Undefined_behaviour
      | Some a \<Rightarrow> bind_result (at_sav a (sav_addYieldedCallbackAndDelFutureRef cb) w) (\<lambda>w1.
          Inr (w1\<lparr>w_fut := (w_fut w1)(this := None)\<rparr>)))"

subsection \<open>Promise\<close>

definition promise_new :: "nat \<Rightarrow> 'a world \<Rightarrow> 'a world result" where
  "promise_new this w =
     (let a = w_fresh w; w1 = new_sav (sav_new 0 1) w in Inr (w1\<lparr>w_prom := (w_prom w1)(this := Some a)\<rparr>))"

text \<open>The copy constructor uses the pointer without a check.\<close>

definition promise_copy :: "nat \<Rightarrow> nat \<Rightarrow> 'a world \<Rightarrow> 'a world result" where
  "promise_copy this rhs w =
     (case w_prom w rhs of None \<Rightarrow> Inl Undefined_behaviour
      | Some a \<Rightarrow> bind_result (at_sav a sav_addPromiseRef w) (\<lambda>w1.
          Inr (w1\<lparr>w_prom := (w_prom w1)(this := Some a)\<rparr>)))"

definition promise_move :: "nat \<Rightarrow> nat \<Rightarrow> 'a world \<Rightarrow> 'a world result" where
  "promise_move this rhs w = Inr (w\<lparr>w_prom := (w_prom w)(this := w_prom w rhs, rhs := None)\<rparr>)"

definition promise_destroy :: "nat \<Rightarrow> 'a world \<Rightarrow> 'a world result" where
  "promise_destroy this w =
     bind_result (if_sav (w_prom w this) sav_delPromiseRef w) (\<lambda>w1.
       Inr (w1\<lparr>w_prom := (w_prom w1)(this := None)\<rparr>))"

definition promise_assign :: "nat \<Rightarrow> nat \<Rightarrow> 'a world \<Rightarrow> 'a world result" where
  "promise_assign this rhs w =
     bind_result (if_sav (w_prom w rhs) sav_addPromiseRef w) (\<lambda>w1.
     bind_result (if_sav (w_prom w1 this) sav_delPromiseRef w1) (\<lambda>w2.
       Inr (w2\<lparr>w_prom := (w_prom w2)(this := w_prom w2 rhs)\<rparr>)))"

definition promise_move_assign :: "nat \<Rightarrow> nat \<Rightarrow> 'a world \<Rightarrow> 'a world result" where
  "promise_move_assign this rhs w =
     (if w_prom w this \<noteq> w_prom w rhs
      then bind_result (if_sav (w_prom w this) sav_delPromiseRef w) (\<lambda>w1.
             Inr (w1\<lparr>w_prom := (w_prom w1)(this := w_prom w1 rhs, rhs := None)\<rparr>))
      else Inr w)"

definition promise_swap :: "nat \<Rightarrow> nat \<Rightarrow> 'a world \<Rightarrow> 'a world result" where
  "promise_swap this other w =
     Inr (w\<lparr>w_prom := (w_prom w)(this := w_prom w other, other := w_prom w this)\<rparr>)"

text \<open>\<open>reset\<close> moves a new promise, held by the temporary \<open>tmp\<close>, into this one.\<close>

definition promise_reset :: "nat \<Rightarrow> nat \<Rightarrow> 'a world \<Rightarrow> 'a world result" where
  "promise_reset this tmp w =
     bind_result (promise_new tmp w) (\<lambda>w1.
     bind_result (promise_move_assign this tmp w1) (promise_destroy tmp))"

definition promise_getFuture :: "nat \<Rightarrow> nat \<Rightarrow> 'a world \<Rightarrow> 'a world result" where
  "promise_getFuture this fut w =
     (case w_prom w this of None \<Rightarrow> Inl Undefined_behaviour
      | Some a \<Rightarrow> bind_result (at_sav a sav_addFutureRef w) (\<lambda>w1.
          Inr (w1\<lparr>w_fut := (w_fut w1)(fut := Some a)\<rparr>)))"

definition promise_send :: "nat \<Rightarrow> 'a \<Rightarrow> 'a world \<Rightarrow> 'a world result" where
  "promise_send this v w =
     (case w_prom w this of None \<Rightarrow> Inl Undefined_behaviour | Some a \<Rightarrow> at_sav a (sav_send v) w)"

definition promise_sendError :: "nat \<Rightarrow> u16 \<Rightarrow> 'a world \<Rightarrow> 'a world result" where
  "promise_sendError this e w =
     (case w_prom w this of None \<Rightarrow> Inl Undefined_behaviour | Some a \<Rightarrow> at_sav a (sav_sendError e) w)"

subsection \<open>Worlds made of clients\<close>

definition handles :: "(nat \<Rightarrow> nat option) \<Rightarrow> nat \<Rightarrow> nat" where
  "handles f a = card {i. f i = Some a}"

definition client_at :: "'a world \<Rightarrow> nat \<Rightarrow> 'a sav \<Rightarrow> nat set \<Rightarrow> 'a client" where
  "client_at w a s used =
     \<lparr>cl_sav = s, cl_promises = handles (w_prom w) a, cl_futures = handles (w_fut w) a, cl_used = used\<rparr>"

text \<open>
  Every variable is in a state its clients can reach, with the handles that hold its address; \<open>U\<close> are
  the callbacks each variable has seen.
\<close>

definition world_ok :: "(nat \<Rightarrow> nat set) \<Rightarrow> 'a world \<Rightarrow> bool" where
  "world_ok U w \<longleftrightarrow>
     finite (dom (w_fut w)) \<and> finite (dom (w_prom w)) \<and> (\<forall>a. w_fresh w \<le> a \<longrightarrow> w_sav w a = None) \<and>
     ran (w_fut w) \<union> ran (w_prom w) \<subseteq> dom (w_sav w) \<and>
     (\<forall>a s. w_sav w a = Some s \<longrightarrow> sav_reachable (client_at w a s (U a)))"

lemma handles_update:
  assumes "finite (dom f)"
  shows "handles (f(i := x)) a =
    (if x = Some a then if f i = Some a then handles f a else Suc (handles f a)
     else if f i = Some a then handles f a - 1 else handles f a)"
proof -
  have fin: "finite {j. f j = Some a}" using assms by (rule rev_finite_subset) auto
  have "{j. (f(i := x)) j = Some a} =
      (if x = Some a then insert i {j. f j = Some a} else {j. f j = Some a} - {i})" by auto
  then show ?thesis using fin by (auto simp: handles_def insert_absorb)
qed

lemma handles_pos:
  assumes "finite (dom f)" and "f i = Some a"
  shows "0 < handles f a"
proof -
  have "finite {j. f j = Some a}" using assms(1) by (rule rev_finite_subset) auto
  then show ?thesis using assms(2) by (auto simp: handles_def card_gt_0_iff)
qed

lemma finite_dom_upd [simp]: "finite (dom f) \<Longrightarrow> finite (dom (f(i := x)))"
  by (cases x) simp_all

lemma ran_upd_subset: "ran (f(i := x)) \<subseteq> ran f \<union> set_option x"
  by (auto simp: ran_def split: if_splits)

text \<open>
  A world in which one variable took a client step, and handles changed to match it.
\<close>

lemma world_step:
  assumes w: "world_ok U w" and a: "w_sav w a = Some s" and st: "sav_step (client_at w a s (U a)) c"
    and w': "w_sav w' = (w_sav w)(a \<mapsto> cl_sav c)" "w_fresh w' = w_fresh w"
    and fin: "finite (dom (w_fut w'))" "finite (dom (w_prom w'))"
    and ptr: "ran (w_fut w') \<union> ran (w_prom w') \<subseteq> dom (w_sav w)"
    and cnt: "handles (w_fut w') a = cl_futures c" "handles (w_prom w') a = cl_promises c"
      "\<And>b. b \<noteq> a \<Longrightarrow> handles (w_fut w') b = handles (w_fut w) b \<and> handles (w_prom w') b = handles (w_prom w) b"
  shows "world_ok (U(a := cl_used c)) w'"
proof -
  have "sav_reachable (client_at w a s (U a))" using w a by (simp add: world_ok_def)
  then have "sav_reachable c" using st by (rule sav_reachable.step)
  moreover have "c = client_at w' a (cl_sav c) (cl_used c)" using cnt by (simp add: client_at_def)
  ultimately have "sav_reachable (client_at w' a (cl_sav c) (cl_used c))" by simp
  moreover have "sav_reachable (client_at w' b t (U b))" if "b \<noteq> a" "w_sav w b = Some t" for b t
    using w that cnt(3) [OF that(1)] by (simp add: world_ok_def client_at_def)
  moreover have "\<forall>b. w_fresh w \<le> b \<longrightarrow> w_sav w b = None" using w by (simp add: world_ok_def)
  moreover from this have "a < w_fresh w" using a by (metis not_less option.distinct(1))
  ultimately show ?thesis
    unfolding world_ok_def w' using fin ptr by auto
qed

text \<open>A variable with a handle is alive, so its references can be counted.\<close>

lemma handle_alive:
  assumes "sav_inv c" and "0 < cl_promises c \<or> 0 < cl_futures c"
  shows "\<not> sav_destroyed (cl_sav c)"
  using assms by (auto simp: sav_inv_def refs_ok_def Let_def)

lemma world_parts:
  assumes "world_ok U w" and "w_fut w i = Some a \<or> w_prom w i = Some a"
  obtains s where "w_sav w a = Some s" and "sav_inv (client_at w a s (U a))" and "\<not> sav_destroyed s"
    and "w_fut w i = Some a \<Longrightarrow> 0 < handles (w_fut w) a" and "w_prom w i = Some a \<Longrightarrow> 0 < handles (w_prom w) a"
proof -
  have "a \<in> dom (w_sav w)" using assms by (auto simp: world_ok_def ran_def)
  then obtain s where s: "w_sav w a = Some s" by blast
  have inv: "sav_inv (client_at w a s (U a))" using assms(1) s by (intro sav_reachable_inv) (simp add: world_ok_def)
  have f: "w_fut w i = Some a \<Longrightarrow> 0 < handles (w_fut w) a"
    using assms(1) handles_pos [of "w_fut w" i a] by (simp add: world_ok_def)
  have p: "w_prom w i = Some a \<Longrightarrow> 0 < handles (w_prom w) a"
    using assms(1) handles_pos [of "w_prom w" i a] by (simp add: world_ok_def)
  have "\<not> sav_destroyed s" using handle_alive [OF inv] assms(2) f p by (auto simp: client_at_def)
  then show thesis using that s inv f p by blast
qed

text \<open>One variable at a time: the future handles, or the promise handles, change in one place.\<close>

lemma world_future:
  assumes w: "world_ok U w" and a: "w_sav w a = Some s"
    and st: "sav_step (client_at w a s (U a)) ((client_at w a s (U a))\<lparr>cl_sav := t, cl_futures := n, cl_used := V\<rparr>)"
    and n: "handles ((w_fut w)(i := x)) a = n" and x: "x = None \<or> x = Some a" and i: "w_fut w i = None \<or> w_fut w i = Some a"
  shows "world_ok (U(a := V)) (w\<lparr>w_sav := (w_sav w)(a \<mapsto> t), w_fut := (w_fut w)(i := x)\<rparr>)"
proof -
  have fin: "finite (dom (w_fut w))" "finite (dom (w_prom w))" and ptr: "ran (w_fut w) \<union> ran (w_prom w) \<subseteq> dom (w_sav w)"
    using w by (simp_all add: world_ok_def)
  have "handles ((w_fut w)(i := x)) b = handles (w_fut w) b" if "b \<noteq> a" for b
    using that x i fin(1) by (auto simp: handles_update)
  moreover have "ran ((w_fut w)(i := x)) \<union> ran (w_prom w) \<subseteq> dom (w_sav w)"
    using ran_upd_subset [of "w_fut w" i x] ptr x a by auto
  ultimately show ?thesis
    using world_step [OF w a st, of "w\<lparr>w_sav := (w_sav w)(a \<mapsto> t), w_fut := (w_fut w)(i := x)\<rparr>"] fin n
    by (simp add: client_at_def)
qed

lemma world_promise:
  assumes w: "world_ok U w" and a: "w_sav w a = Some s"
    and st: "sav_step (client_at w a s (U a)) ((client_at w a s (U a))\<lparr>cl_sav := t, cl_promises := n\<rparr>)"
    and n: "handles ((w_prom w)(i := x)) a = n" and x: "x = None \<or> x = Some a" and i: "w_prom w i = None \<or> w_prom w i = Some a"
  shows "world_ok U (w\<lparr>w_sav := (w_sav w)(a \<mapsto> t), w_prom := (w_prom w)(i := x)\<rparr>)"
proof -
  have fin: "finite (dom (w_fut w))" "finite (dom (w_prom w))" and ptr: "ran (w_fut w) \<union> ran (w_prom w) \<subseteq> dom (w_sav w)"
    using w by (simp_all add: world_ok_def)
  have "handles ((w_prom w)(i := x)) b = handles (w_prom w) b" if "b \<noteq> a" for b
    using that x i fin(2) by (auto simp: handles_update)
  moreover have "ran (w_fut w) \<union> ran ((w_prom w)(i := x)) \<subseteq> dom (w_sav w)"
    using ran_upd_subset [of "w_prom w" i x] ptr x a by auto
  moreover have "U(a := U a) = U" by simp
  ultimately show ?thesis
    using world_step [OF w a st, of "w\<lparr>w_sav := (w_sav w)(a \<mapsto> t), w_prom := (w_prom w)(i := x)\<rparr>"] fin n
    by (simp add: client_at_def)
qed

lemma future_copy_ok:
  assumes w: "world_ok U w" and "w_fut w this = None" and "this \<noteq> rhs"
  shows "\<exists>w'. future_copy this rhs w = Inr w' \<and> world_ok U w'"
proof (cases "w_fut w rhs")
  case None
  then have "(w_fut w)(this := None) = w_fut w" using assms(2) by auto
  then show ?thesis using w None by (auto simp: future_copy_def if_sav_def)
next
  case (Some a)
  obtain s where s: "w_sav w a = Some s" "\<not> sav_destroyed s" "0 < handles (w_fut w) a"
    using world_parts [OF w, of rhs a] Some by blast
  let ?s = "s\<lparr>sav_futures := sav_futures s + 1\<rparr>"
  have add: "sav_addFutureRef s = Inr ?s" using s(2) by (simp add: sav_addFutureRef_def on_live_def)
  have fin: "finite (dom (w_fut w))" using w by (simp add: world_ok_def)
  have "sav_step (client_at w a s (U a)) ((client_at w a s (U a))\<lparr>cl_sav := ?s, cl_futures := handles (w_fut w) a + 1, cl_used := U a\<rparr>)"
    using sav_step.get_future [of "client_at w a s (U a)" ?s] s(3) add by (simp add: client_at_def)
  from world_future [OF w s(1) this, of this "Some a"] show ?thesis
    using Some s(1) add assms(2,3) fin by (simp add: future_copy_def if_sav_def at_sav_def handles_update)
qed

lemma future_destroy_ok:
  assumes w: "world_ok U w"
  shows "\<exists>w'. future_destroy this w = Inr w' \<and> world_ok U w' \<and> w_fut w' = (w_fut w)(this := None)"
proof (cases "w_fut w this")
  case None
  then have "(w_fut w)(this := None) = w_fut w" by auto
  then show ?thesis using w None by (auto simp: future_destroy_def if_sav_def)
next
  case (Some a)
  obtain s where s: "w_sav w a = Some s" "\<not> sav_destroyed s" "0 < handles (w_fut w) a"
    using world_parts [OF w, of this a] Some by blast
  obtain t where del: "sav_delFutureRef s = Inr t" using s(2) by (simp add: sav_delFutureRef_def on_live_def Let_def)
  have fin: "finite (dom (w_fut w))" using w by (simp add: world_ok_def)
  have "sav_step (client_at w a s (U a)) ((client_at w a s (U a))\<lparr>cl_sav := t, cl_futures := handles (w_fut w) a - 1, cl_used := U a\<rparr>)"
    using sav_step.drop_future [of "client_at w a s (U a)" t] s(3) del by (simp add: client_at_def)
  from world_future [OF w s(1) this, of this None] show ?thesis
    using Some s(1) del fin by (simp add: future_destroy_def if_sav_def at_sav_def handles_update)
qed

lemma future_wait_ok:
  assumes w: "world_ok U w" and a: "w_fut w this = Some a" and s: "w_sav w a = Some s"
    and "\<not> sav_isSet s" and "cb \<notin> U a"
  shows "\<exists>w'. future_addCallbackAndClear this cb w = Inr w' \<and> world_ok (U(a := insert cb (U a))) w'"
    and "\<exists>w'. future_addYieldedCallbackAndClear this cb w = Inr w' \<and> world_ok (U(a := insert cb (U a))) w'"
proof -
  have h: "\<not> sav_destroyed s" "0 < handles (w_fut w) a"
    using world_parts [OF w, of this a] a s by (metis option.inject)+
  have fin: "finite (dom (w_fut w))" using w by (simp add: world_ok_def)
  let ?c = "client_at w a s (U a)"
  obtain t where t: "sav_addCallbackAndDelFutureRef cb s = Inr t"
    using h(1) by (cases "sav_chain s") (auto simp: sav_addCallbackAndDelFutureRef_def sav_make_room_def sav_delFutureRef_def on_live_def Let_def)
  have "sav_step ?c (?c\<lparr>cl_sav := t, cl_futures := handles (w_fut w) a - 1, cl_used := insert cb (U a)\<rparr>)"
    using sav_step.wait [of ?c cb t] h(2) t assms(4,5) by (simp add: client_at_def)
  from world_future [OF w s this, of this None]
  show "\<exists>w'. future_addCallbackAndClear this cb w = Inr w' \<and> world_ok (U(a := insert cb (U a))) w'"
    using a s t fin by (simp add: future_addCallbackAndClear_def at_sav_def handles_update)
  obtain t where t: "sav_addYieldedCallbackAndDelFutureRef cb s = Inr t"
    using h(1) by (cases "sav_chain s") (auto simp: sav_addYieldedCallbackAndDelFutureRef_def sav_make_room_def sav_delFutureRef_def on_live_def Let_def)
  have "sav_step ?c (?c\<lparr>cl_sav := t, cl_futures := handles (w_fut w) a - 1, cl_used := insert cb (U a)\<rparr>)"
    using sav_step.wait_yielded [of ?c cb t] h(2) t assms(4,5) by (simp add: client_at_def)
  from world_future [OF w s this, of this None]
  show "\<exists>w'. future_addYieldedCallbackAndClear this cb w = Inr w' \<and> world_ok (U(a := insert cb (U a))) w'"
    using a s t fin by (simp add: future_addYieldedCallbackAndClear_def at_sav_def handles_update)
qed
text \<open>Moving or swapping pointers changes which handle holds an address, not how many do.\<close>

lemma world_permuted:
  assumes w: "world_ok U w" and h: "w_fut w' = w_fut w \<circ> f" "w_prom w' = w_prom w \<circ> g" and bij: "bij f" "bij g"
    and same: "w_sav w' = w_sav w" "w_fresh w' = w_fresh w"
  shows "world_ok U w'"
proof -
  have cnt: "handles (m \<circ> k) a = handles m a" if "bij k" for m :: "nat \<Rightarrow> nat option" and k a
  proof -
    have "{i. (m \<circ> k) i = Some a} = k -` {i. m i = Some a}" by auto
    moreover have "card (k -` {i. m i = Some a}) = card {i. m i = Some a}"
      using that by (intro card_vimage_inj) (simp_all add: bij_is_inj bij_is_surj)
    ultimately show ?thesis by (simp only: handles_def)
  qed
  have fin: "finite (dom (m \<circ> k))" if "bij k" "finite (dom m)" for m :: "nat \<Rightarrow> nat option" and k
  proof -
    have "dom (m \<circ> k) = k -` dom m" by auto
    then show ?thesis using that by (simp add: finite_vimageI bij_is_inj)
  qed
  have "ran (m \<circ> k) \<subseteq> ran m" for m :: "nat \<Rightarrow> nat option" and k :: "nat \<Rightarrow> nat" by (auto simp: ran_def)
  then show ?thesis
    using w cnt [OF bij(1), of "w_fut w"] cnt [OF bij(2), of "w_prom w"] fin [OF bij(1), of "w_fut w"]
      fin [OF bij(2), of "w_prom w"]
    by (auto simp: world_ok_def h same client_at_def) blast+
qed

lemma bij_swap: "bij (id(i := j, j := i))"
  by (rule o_bij [of "id(i := j, j := i)"]) (auto simp: fun_eq_iff)

lemma move_permutes: "m i = None \<Longrightarrow> m(i := m j, j := None) = m \<circ> (id(i := j, j := i))"
  by (auto simp: fun_eq_iff)

lemma future_move_ok:
  assumes w: "world_ok U w" and "w_fut w this = None"
  shows "\<exists>w'. future_move this rhs w = Inr w' \<and> world_ok U w'"
  using world_permuted [OF w _ _ bij_swap [of this rhs] bij_id,
      of "w\<lparr>w_fut := (w_fut w)(this := w_fut w rhs, rhs := None)\<rparr>"] move_permutes [of "w_fut w" this rhs] assms(2)
  by (simp add: future_move_def)

text \<open>Assignment is a copy into a temporary, the destruction of the old value and a move.\<close>

lemma unused_handle: "finite (dom f) \<Longrightarrow> \<exists>i. f i = None \<and> i \<noteq> j \<and> i \<noteq> (k :: nat)"
proof -
  assume "finite (dom f)"
  then have "finite (dom f \<union> {j, k})" by simp
  then obtain i where "i \<notin> dom f \<union> {j, k}" using ex_new_if_finite infinite_UNIV_nat by blast
  then show ?thesis by auto
qed

lemma bind_result_assoc: "bind_result (bind_result x g) h = bind_result x (\<lambda>y. bind_result (g y) h)"
  by (cases x) simp_all

lemma if_sav_frame:
  "if_sav p f (w\<lparr>w_fut := m\<rparr>) = bind_result (if_sav p f w) (\<lambda>w'. Inr (w'\<lparr>w_fut := m\<rparr>))"
  "if_sav p f (w\<lparr>w_prom := m\<rparr>) = bind_result (if_sav p f w) (\<lambda>w'. Inr (w'\<lparr>w_prom := m\<rparr>))"
  by (cases w; simp add: if_sav_def at_sav_def bind_result_assoc split: option.splits)+

lemma if_sav_same: "if_sav p f w = Inr w' \<Longrightarrow> w_fut w' = w_fut w \<and> w_prom w' = w_prom w"
  by (auto simp: if_sav_def at_sav_def result_simps split: option.splits)

lemma move_through_tmp:
  "m tmp = None \<Longrightarrow> tmp \<noteq> i \<Longrightarrow> (m(tmp := p, i := None))(i := (m(tmp := p, i := None)) tmp, tmp := None) = m(i := p)"
  by (auto simp: fun_eq_iff)

lemma future_assign_ok:
  assumes w: "world_ok U w"
  shows "\<exists>w'. future_assign this rhs w = Inr w' \<and> world_ok U w'"
proof -
  obtain tmp where tmp: "w_fut w tmp = None" "tmp \<noteq> this" "tmp \<noteq> rhs"
    using unused_handle [of "w_fut w" this rhs] w by (auto simp: world_ok_def)
  let ?p = "w_fut w rhs"
  obtain w1 where w1: "future_copy tmp rhs w = Inr w1" "world_ok U w1"
    using future_copy_ok [OF w tmp(1,3)] by blast
  then obtain wa where wa: "if_sav ?p sav_addFutureRef w = Inr wa" "w1 = wa\<lparr>w_fut := (w_fut w)(tmp := ?p)\<rparr>"
    using if_sav_same by (fastforce simp: future_copy_def result_simps)
  obtain w2 where w2: "future_destroy this w1 = Inr w2" "world_ok U w2"
    using future_destroy_ok [OF w1(2)] by blast
  then obtain wb where wb: "if_sav (w_fut w this) sav_delFutureRef wa = Inr wb"
      "w2 = wb\<lparr>w_fut := (w_fut w)(tmp := ?p, this := None)\<rparr>"
    using tmp(2) by (auto simp: future_destroy_def result_simps wa(2) if_sav_frame)
  obtain w3 where w3: "future_move this tmp w2 = Inr w3" "world_ok U w3"
    using future_move_ok [OF w2(2), of this tmp] wb(2) by auto
  then have "w3 = wb\<lparr>w_fut := (w_fut w)(this := ?p)\<rparr>"
    using move_through_tmp [where m = "w_fut w" and tmp = tmp and i = this and p = ?p] tmp(1,2) by (simp add: future_move_def wb(2))
  moreover have "w_fut wa = w_fut w" "w_fut wb = w_fut w" using if_sav_same wa(1) wb(1) by metis+
  ultimately have "future_assign this rhs w = Inr w3"
    using wa(1) wb(1) by (simp add: future_assign_def)
  then show ?thesis using w3(2) by blast
qed

lemma future_move_assign_ok:
  assumes w: "world_ok U w"
  shows "\<exists>w'. future_move_assign this rhs w = Inr w' \<and> world_ok U w'"
proof (cases "w_fut w this = w_fut w rhs")
  case True
  then show ?thesis using w by (simp add: future_move_assign_def)
next
  case False
  then have ne: "this \<noteq> rhs" by auto
  obtain w1 where w1: "future_destroy this w = Inr w1" "world_ok U w1"
    using future_destroy_ok [OF w] by blast
  then obtain wa where wa: "if_sav (w_fut w this) sav_delFutureRef w = Inr wa" "w1 = wa\<lparr>w_fut := (w_fut wa)(this := None)\<rparr>"
    by (auto simp: future_destroy_def result_simps)
  obtain w2 where "future_move this rhs w1 = Inr w2" "world_ok U w2"
    using future_move_ok [OF w1(2), of this rhs] wa(2) by auto
  then show ?thesis
    using wa False ne by (auto simp: future_move_assign_def future_move_def)
qed

subsection \<open>Promises keep the variables in order\<close>

lemma promise_copy_ok:
  assumes w: "world_ok U w" and "w_prom w this = None" and rhs: "w_prom w rhs = Some a"
  shows "\<exists>w'. promise_copy this rhs w = Inr w' \<and> world_ok U w'"
proof -
  obtain s where s: "w_sav w a = Some s" "\<not> sav_destroyed s" "0 < handles (w_prom w) a"
    using world_parts [OF w, of rhs a] rhs by blast
  let ?s = "s\<lparr>sav_promises := sav_promises s + 1\<rparr>"
  have add: "sav_addPromiseRef s = Inr ?s" using s(2) by (simp add: sav_addPromiseRef_def on_live_def)
  have fin: "finite (dom (w_prom w))" using w by (simp add: world_ok_def)
  have "sav_step (client_at w a s (U a)) ((client_at w a s (U a))\<lparr>cl_sav := ?s, cl_promises := handles (w_prom w) a + 1\<rparr>)"
    using sav_step.copy_promise [of "client_at w a s (U a)" ?s] s(3) add by (simp add: client_at_def)
  from world_promise [OF w s(1) this, of this "Some a"] show ?thesis
    using rhs s(1) add assms(2) fin by (simp add: promise_copy_def at_sav_def handles_update)
qed

text \<open>A promise that is sending is not the one to be dropped.\<close>

definition can_drop :: "'a world \<Rightarrow> nat \<Rightarrow> bool" where
  "can_drop w i \<longleftrightarrow>
     (case w_prom w i of None \<Rightarrow> True
      | Some a \<Rightarrow> (case w_sav w a of None \<Rightarrow> True
          | Some s \<Rightarrow> sav_loop s = After_send \<longrightarrow> 1 < handles (w_prom w) a))"

lemma delPromiseRef_total: "\<not> sav_destroyed s \<Longrightarrow> \<exists>t. sav_delPromiseRef s = Inr t"
  by (auto simp: sav_delPromiseRef_def sav_sendError_def on_live_def Let_def)

lemma promise_destroy_ok:
  assumes w: "world_ok U w" and d: "can_drop w this"
  shows "\<exists>w'. promise_destroy this w = Inr w' \<and> world_ok U w' \<and> w_prom w' = (w_prom w)(this := None)"
proof (cases "w_prom w this")
  case None
  then have "(w_prom w)(this := None) = w_prom w" by auto
  then show ?thesis using w None by (auto simp: promise_destroy_def if_sav_def)
next
  case (Some a)
  obtain s where s: "w_sav w a = Some s" "\<not> sav_destroyed s" "0 < handles (w_prom w) a"
    using world_parts [OF w, of this a] Some by blast
  obtain t where del: "sav_delPromiseRef s = Inr t" using delPromiseRef_total [OF s(2)] by blast
  have fin: "finite (dom (w_prom w))" using w by (simp add: world_ok_def)
  have "sav_step (client_at w a s (U a)) ((client_at w a s (U a))\<lparr>cl_sav := t, cl_promises := handles (w_prom w) a - 1\<rparr>)"
    using sav_step.drop_promise [of "client_at w a s (U a)" t] s(1,3) del d Some
    by (simp add: client_at_def can_drop_def)
  from world_promise [OF w s(1) this, of this None] show ?thesis
    using Some s(1) del fin by (simp add: promise_destroy_def if_sav_def at_sav_def handles_update)
qed

lemma promise_move_ok:
  assumes w: "world_ok U w" and "w_prom w this = None"
  shows "\<exists>w'. promise_move this rhs w = Inr w' \<and> world_ok U w'"
  using world_permuted [OF w _ _ bij_id bij_swap [of this rhs],
      of "w\<lparr>w_prom := (w_prom w)(this := w_prom w rhs, rhs := None)\<rparr>"] move_permutes [of "w_prom w" this rhs] assms(2)
  by (simp add: promise_move_def)

lemma promise_swap_ok:
  assumes w: "world_ok U w"
  shows "\<exists>w'. promise_swap this rhs w = Inr w' \<and> world_ok U w'"
proof -
  have "(w_prom w)(this := w_prom w rhs, rhs := w_prom w this) = w_prom w \<circ> (id(this := rhs, rhs := this))"
    by (auto simp: fun_eq_iff)
  then show ?thesis
    using world_permuted [OF w _ _ bij_id bij_swap [of this rhs],
      of "w\<lparr>w_prom := (w_prom w)(this := w_prom w rhs, rhs := w_prom w this)\<rparr>"]
    by (simp add: promise_swap_def)
qed

lemma promise_move_assign_ok:
  assumes w: "world_ok U w" and d: "can_drop w this"
  shows "\<exists>w'. promise_move_assign this rhs w = Inr w' \<and> world_ok U w'"
proof (cases "w_prom w this = w_prom w rhs")
  case True
  then show ?thesis using w by (simp add: promise_move_assign_def)
next
  case False
  then have ne: "this \<noteq> rhs" by auto
  obtain w1 where w1: "promise_destroy this w = Inr w1" "world_ok U w1"
    using promise_destroy_ok [OF w d] by blast
  then obtain wa where wa: "if_sav (w_prom w this) sav_delPromiseRef w = Inr wa" "w1 = wa\<lparr>w_prom := (w_prom wa)(this := None)\<rparr>"
    by (auto simp: promise_destroy_def result_simps)
  obtain w2 where "promise_move this rhs w1 = Inr w2" "world_ok U w2"
    using promise_move_ok [OF w1(2), of this rhs] wa(2) by auto
  then show ?thesis
    using wa False ne by (auto simp: promise_move_assign_def promise_move_def)
qed
lemma promise_assign_ok:
  assumes w: "world_ok U w" and d: "can_drop w this" and rhs: "w_prom w rhs = Some a"
  shows "\<exists>w'. promise_assign this rhs w = Inr w' \<and> world_ok U w'"
proof -
  obtain tmp where tmp: "w_prom w tmp = None" "tmp \<noteq> this" "tmp \<noteq> rhs"
    using unused_handle [of "w_prom w" this rhs] w by (auto simp: world_ok_def)
  obtain w1 where w1: "promise_copy tmp rhs w = Inr w1" "world_ok U w1"
    using promise_copy_ok [OF w tmp(1) rhs] by blast
  then obtain wa where wa: "if_sav (Some a) sav_addPromiseRef w = Inr wa" "w1 = wa\<lparr>w_prom := (w_prom w)(tmp := Some a)\<rparr>"
    using if_sav_same [of "Some a" sav_addPromiseRef w] rhs
    by (auto simp: promise_copy_def result_simps if_sav_def)
  have "can_drop w1 this"
  proof (cases "w_prom w this")
    case None
    then show ?thesis using tmp by (simp add: can_drop_def wa(2))
  next
    case (Some b)
    obtain s where s: "w_sav w b = Some s" using world_parts [OF w, of this b] Some by blast
    have fin: "finite (dom (w_prom w))" using w by (simp add: world_ok_def)
    have "\<exists>s'. w_sav wa b = Some s' \<and> sav_loop s' = sav_loop s"
      using wa(1) s by (auto simp: if_sav_def at_sav_def result_simps sav_addPromiseRef_def on_live_def
          split: option.splits if_splits)
    moreover have "handles (w_prom w) b \<le> handles ((w_prom w)(tmp := Some a)) b"
      using fin tmp(1) by (simp add: handles_update)
    ultimately show ?thesis using d Some s tmp(2) by (auto simp: can_drop_def wa(2))
  qed
  then obtain w2 where w2: "promise_destroy this w1 = Inr w2" "world_ok U w2"
    using promise_destroy_ok [OF w1(2)] by blast
  then obtain wb where wb: "if_sav (w_prom w this) sav_delPromiseRef wa = Inr wb"
      "w2 = wb\<lparr>w_prom := (w_prom w)(tmp := Some a, this := None)\<rparr>"
    using tmp(2) by (auto simp: promise_destroy_def result_simps wa(2) if_sav_frame)
  obtain w3 where w3: "promise_move this tmp w2 = Inr w3" "world_ok U w3"
    using promise_move_ok [OF w2(2), of this tmp] wb(2) by auto
  then have "w3 = wb\<lparr>w_prom := (w_prom w)(this := Some a)\<rparr>"
    using move_through_tmp [where m = "w_prom w" and tmp = tmp and i = this and p = "Some a"] tmp(1,2)
    by (simp add: promise_move_def wb(2))
  moreover have "w_prom wa = w_prom w" "w_prom wb = w_prom w" using if_sav_same wa(1) wb(1) by metis+
  ultimately have "promise_assign this rhs w = Inr w3"
    using wa(1) wb(1) rhs by (simp add: promise_assign_def)
  then show ?thesis using w3(2) by blast
qed

lemma promise_getFuture_ok:
  assumes w: "world_ok U w" and "w_prom w this = Some a" and "w_fut w fut = None"
  shows "\<exists>w'. promise_getFuture this fut w = Inr w' \<and> world_ok U w'"
proof -
  obtain s where s: "w_sav w a = Some s" "\<not> sav_destroyed s" "0 < handles (w_prom w) a"
    using world_parts [OF w, of this a] assms(2) by blast
  let ?s = "s\<lparr>sav_futures := sav_futures s + 1\<rparr>"
  have add: "sav_addFutureRef s = Inr ?s" using s(2) by (simp add: sav_addFutureRef_def on_live_def)
  have fin: "finite (dom (w_fut w))" using w by (simp add: world_ok_def)
  have "sav_step (client_at w a s (U a)) ((client_at w a s (U a))\<lparr>cl_sav := ?s, cl_futures := handles (w_fut w) a + 1, cl_used := U a\<rparr>)"
    using sav_step.get_future [of "client_at w a s (U a)" ?s] s(3) add by (simp add: client_at_def)
  from world_future [OF w s(1) this, of fut "Some a"] show ?thesis
    using assms(2,3) s(1) add fin by (simp add: promise_getFuture_def at_sav_def handles_update)
qed

lemma promise_send_ok:
  assumes w: "world_ok U w" and p: "w_prom w this = Some a" and s: "w_sav w a = Some s" and "sav_canBeSet s"
  shows "\<exists>w'. promise_send this v w = Inr w' \<and> world_ok U w'"
    and "sint e > 0 \<Longrightarrow> \<exists>w'. promise_sendError this e w = Inr w' \<and> world_ok U w'"
proof -
  have h: "\<not> sav_destroyed s" "0 < handles (w_prom w) a"
    using world_parts [OF w, of this a] p s by (metis option.inject)+
  have fin: "finite (dom (w_prom w))" using w by (simp add: world_ok_def)
  have same: "(w_prom w)(this := Some a) = w_prom w" using p by auto
  let ?c = "client_at w a s (U a)"
  obtain t where t: "sav_send v s = Inr t" using h(1) assms(4) by (simp add: sav_send_def on_live_def)
  have "sav_step ?c (?c\<lparr>cl_sav := t, cl_promises := handles (w_prom w) a\<rparr>)"
    using sav_step.send [of ?c v t] h(2) t assms(4) by (simp add: client_at_def)
  from world_promise [OF w s this, of this "Some a"]
  show "\<exists>w'. promise_send this v w = Inr w' \<and> world_ok U w'"
    using p s t by (simp add: promise_send_def at_sav_def same)
  assume e: "sint e > 0"
  obtain t where t: "sav_sendError e s = Inr t" using h(1) assms(4) e by (simp add: sav_sendError_def on_live_def)
  have "sav_step ?c (?c\<lparr>cl_sav := t, cl_promises := handles (w_prom w) a\<rparr>)"
    using sav_step.send_error [of ?c e t] h(2) t assms(4) e by (simp add: client_at_def)
  from world_promise [OF w s this, of this "Some a"]
  show "\<exists>w'. promise_sendError this e w = Inr w' \<and> world_ok U w'"
    using p s t by (simp add: promise_sendError_def at_sav_def same)
qed

text \<open>A new variable starts in order.\<close>

lemma world_new:
  assumes w: "world_ok U w" and inv: "sav_reachable (client_at w' (w_fresh w) s (U (w_fresh w)))"
    and w': "w_sav w' = (w_sav w)(w_fresh w \<mapsto> s)" "w_fresh w' = Suc (w_fresh w)"
      "finite (dom (w_fut w'))" "finite (dom (w_prom w'))"
      "ran (w_fut w') \<union> ran (w_prom w') \<subseteq> insert (w_fresh w) (dom (w_sav w))"
    and cnt: "\<And>b. b \<noteq> w_fresh w \<Longrightarrow> handles (w_fut w') b = handles (w_fut w) b \<and> handles (w_prom w') b = handles (w_prom w) b"
  shows "world_ok U w'"
proof -
  have "sav_reachable (client_at w' b t (U b))" if "b \<noteq> w_fresh w" "w_sav w b = Some t" for b t
    using w that cnt [OF that(1)] by (simp add: world_ok_def client_at_def)
  then show ?thesis using w inv w' by (auto simp: world_ok_def)
qed

lemma fresh_handles:
  assumes "world_ok U w"
  shows "handles (w_fut w) (w_fresh w) = 0" and "handles (w_prom w) (w_fresh w) = 0"
proof -
  have "w_fresh w \<notin> dom (w_sav w)" using assms by (auto simp: world_ok_def)
  then have "w_fresh w \<notin> ran (w_fut w) \<union> ran (w_prom w)" using assms by (auto simp: world_ok_def)
  then have "{i. w_fut w i = Some (w_fresh w)} = {}" "{i. w_prom w i = Some (w_fresh w)} = {}"
    by (auto simp: ran_def)
  then show "handles (w_fut w) (w_fresh w) = 0" "handles (w_prom w) (w_fresh w) = 0" by (simp_all add: handles_def)
qed

lemma promise_new_ok:
  assumes w: "world_ok U w" and "w_prom w this = None" and "U (w_fresh w) = {}"
  shows "\<exists>w'. promise_new this w = Inr w' \<and> world_ok U w'"
proof -
  let ?w = "(new_sav (sav_new 0 1) w)\<lparr>w_prom := (w_prom w)(this := Some (w_fresh w))\<rparr>"
  have fin: "finite (dom (w_fut w))" "finite (dom (w_prom w))" using w by (simp_all add: world_ok_def)
  have "client_at ?w (w_fresh w) (sav_new 0 1) (U (w_fresh w)) = client_new 0 1"
    using fresh_handles [OF w] fin assms(2,3)
    by (simp add: client_at_def client_new_def new_sav_def handles_update)
  then have "sav_reachable (client_at ?w (w_fresh w) (sav_new 0 1) (U (w_fresh w)))"
    using sav_reachable.start [of 1 0] by simp
  moreover have "ran ((w_prom w)(this := Some (w_fresh w))) \<subseteq> insert (w_fresh w) (dom (w_sav w))"
    using ran_upd_subset [of "w_prom w" this "Some (w_fresh w)"] w by (auto simp: world_ok_def)
  moreover have "ran (w_fut w) \<subseteq> insert (w_fresh w) (dom (w_sav w))" using w by (auto simp: world_ok_def)
  ultimately have "world_ok U ?w"
    using w fin assms(2) by (intro world_new [OF w]) (auto simp: new_sav_def handles_update)
  then show ?thesis by (simp add: promise_new_def Let_def new_sav_def)
qed
subsection \<open>Programs\<close>

text \<open>
  What a program may do next with its handles.  A constructor's target holds no pointer yet; a
  promise is used only where it holds one; a promise is not dropped while it is the one sending; a
  variable is set only while it can be, and waited on only while it is not set.  Between operations a running loop of a
  variable takes its turns, and a waiting callback may leave.
\<close>

datatype 'a handle_op =
    Future_copy nat nat | Future_move nat nat | Future_destroy nat | Future_assign nat nat
  | Future_move_assign nat nat | Future_wait nat nat | Future_waitYielded nat nat | Promise_new nat | Promise_copy nat nat
  | Promise_move nat nat | Promise_destroy nat | Promise_assign nat nat | Promise_move_assign nat nat
  | Promise_swap nat nat | Promise_getFuture nat nat | Promise_send nat 'a | Promise_sendError nat u16
  | Fire nat | Stop_waiting nat nat

fun do_op :: "'a handle_op \<Rightarrow> 'a world \<Rightarrow> 'a world result" where
  "do_op (Future_copy i j) = future_copy i j"
| "do_op (Future_move i j) = future_move i j"
| "do_op (Future_destroy i) = future_destroy i"
| "do_op (Future_assign i j) = future_assign i j"
| "do_op (Future_move_assign i j) = future_move_assign i j"
| "do_op (Future_wait i cb) = future_addCallbackAndClear i cb"
| "do_op (Future_waitYielded i cb) = future_addYieldedCallbackAndClear i cb"
| "do_op (Promise_new i) = promise_new i"
| "do_op (Promise_copy i j) = promise_copy i j"
| "do_op (Promise_move i j) = promise_move i j"
| "do_op (Promise_destroy i) = promise_destroy i"
| "do_op (Promise_assign i j) = promise_assign i j"
| "do_op (Promise_move_assign i j) = promise_move_assign i j"
| "do_op (Promise_swap i j) = promise_swap i j"
| "do_op (Promise_getFuture i j) = promise_getFuture i j"
| "do_op (Promise_send i v) = promise_send i v"
| "do_op (Promise_sendError i e) = promise_sendError i e"
| "do_op (Fire a) = at_sav a sav_fire"
| "do_op (Stop_waiting a cb) = at_sav a (callback_remove cb)"

definition promised :: "(('a sav) \<Rightarrow> bool) \<Rightarrow> nat option \<Rightarrow> 'a world \<Rightarrow> bool" where
  "promised P p w \<longleftrightarrow> (\<exists>a s. p = Some a \<and> w_sav w a = Some s \<and> P s)"

fun op_allowed :: "(nat \<Rightarrow> nat set) \<Rightarrow> 'a world \<Rightarrow> 'a handle_op \<Rightarrow> bool" where
  "op_allowed U w (Future_copy i j) \<longleftrightarrow> w_fut w i = None \<and> i \<noteq> j"
| "op_allowed U w (Future_move i j) \<longleftrightarrow> w_fut w i = None"
| "op_allowed U w (Future_wait i cb) \<longleftrightarrow>
     promised (\<lambda>s. \<not> sav_isSet s) (w_fut w i) w \<and> cb \<notin> U (the (w_fut w i))"
| "op_allowed U w (Future_waitYielded i cb) \<longleftrightarrow>
     promised (\<lambda>s. \<not> sav_isSet s) (w_fut w i) w \<and> cb \<notin> U (the (w_fut w i))"
| "op_allowed U w (Promise_new i) \<longleftrightarrow> w_prom w i = None \<and> U (w_fresh w) = {}"
| "op_allowed U w (Promise_copy i j) \<longleftrightarrow> w_prom w i = None \<and> w_prom w j \<noteq> None"
| "op_allowed U w (Promise_move i j) \<longleftrightarrow> w_prom w i = None"
| "op_allowed U w (Promise_destroy i) \<longleftrightarrow> can_drop w i"
| "op_allowed U w (Promise_assign i j) \<longleftrightarrow> can_drop w i \<and> w_prom w j \<noteq> None"
| "op_allowed U w (Promise_move_assign i j) \<longleftrightarrow> can_drop w i"
| "op_allowed U w (Promise_getFuture i j) \<longleftrightarrow> w_prom w i \<noteq> None \<and> w_fut w j = None"
| "op_allowed U w (Promise_send i v) \<longleftrightarrow> promised sav_canBeSet (w_prom w i) w"
| "op_allowed U w (Promise_sendError i e) \<longleftrightarrow> promised sav_canBeSet (w_prom w i) w \<and> sint e > 0"
| "op_allowed U w (Fire a) \<longleftrightarrow> promised (\<lambda>s. sav_loop s \<noteq> No_loop) (Some a) w"
| "op_allowed U w (Stop_waiting a cb) \<longleftrightarrow> promised (\<lambda>s. cb \<in> set (sav_chain s)) (Some a) w"
| "op_allowed U w _ \<longleftrightarrow> True"

lemma world_silent:
  assumes w: "world_ok U w" and a: "w_sav w a = Some s" and st: "sav_step (client_at w a s (U a)) ((client_at w a s (U a))\<lparr>cl_sav := t\<rparr>)"
  shows "world_ok U (w\<lparr>w_sav := (w_sav w)(a \<mapsto> t)\<rparr>)"
proof -
  have "U(a := U a) = U" by simp
  then show ?thesis
    using world_step [OF w a st, of "w\<lparr>w_sav := (w_sav w)(a \<mapsto> t)\<rparr>"] w by (simp add: client_at_def world_ok_def)
qed

lemma fire_ok:
  assumes w: "world_ok U w" and a: "w_sav w a = Some s" and "sav_loop s \<noteq> No_loop"
  shows "\<exists>w'. at_sav a sav_fire w = Inr w' \<and> world_ok U w'"
proof -
  let ?c = "client_at w a s (U a)"
  have inv: "sav_inv ?c" using w a by (intro sav_reachable_inv) (simp add: world_ok_def)
  have l: "sav_loop (cl_sav ?c) \<noteq> No_loop" using assms(3) by (simp add: client_at_def)
  obtain t where t: "sav_fire (cl_sav ?c) = Inr t" using sav_fire_ok [OF inv l] by blast
  from world_silent [OF w a sav_step.fire [OF l t]] show ?thesis using t a by (simp add: at_sav_def client_at_def)
qed

lemma stop_waiting_ok:
  assumes w: "world_ok U w" and a: "w_sav w a = Some s" and cb: "cb \<in> set (sav_chain s)"
  shows "\<exists>w'. at_sav a (callback_remove cb) w = Inr w' \<and> world_ok U w'"
proof -
  let ?c = "client_at w a s (U a)"
  have r: "sav_reachable ?c" using w a by (simp add: world_ok_def)
  have m: "cb \<in> set (sav_chain (cl_sav ?c))" using cb by (simp add: client_at_def)
  obtain t where t: "callback_remove cb (cl_sav ?c) = Inr t" using callback_remove_total [OF r m] by blast
  from world_silent [OF w a sav_step.stop_waiting [OF m t]] show ?thesis using t a by (simp add: at_sav_def client_at_def)
qed

text \<open>Every operation on its own keeps the world in order.\<close>

lemma do_op_ok:
  assumes "world_ok U w" and "op_allowed U w h"
  shows "\<exists>U' w'. do_op h w = Inr w' \<and> world_ok U' w'"
proof (cases h)
  case (Future_wait i cb)
  then obtain a s where "w_fut w i = Some a" "w_sav w a = Some s" "\<not> sav_isSet s" "cb \<notin> U a"
    using assms(2) by (auto simp: promised_def)
  from future_wait_ok(1) [OF assms(1) this] show ?thesis using Future_wait by auto
next
  case (Future_waitYielded i cb)
  then obtain a s where "w_fut w i = Some a" "w_sav w a = Some s" "\<not> sav_isSet s" "cb \<notin> U a"
    using assms(2) by (auto simp: promised_def)
  from future_wait_ok(2) [OF assms(1) this] show ?thesis using Future_waitYielded by auto
next
  case (Future_copy i j)
  then show ?thesis using assms(2) future_copy_ok [OF assms(1), of i j] by (auto simp: promised_def)
next
  case (Future_move i j)
  then show ?thesis using assms(2) future_move_ok [OF assms(1), of i j] by (auto simp: promised_def)
next
  case (Future_destroy i)
  then show ?thesis using assms(2) future_destroy_ok [OF assms(1), of i] by (auto simp: promised_def)
next
  case (Future_assign i j)
  then show ?thesis using assms(2) future_assign_ok [OF assms(1), of i j] by (auto simp: promised_def)
next
  case (Future_move_assign i j)
  then show ?thesis using assms(2) future_move_assign_ok [OF assms(1), of i j] by (auto simp: promised_def)
next
  case (Promise_new i)
  then show ?thesis using assms(2) promise_new_ok [OF assms(1), of i] by (auto simp: promised_def)
next
  case (Promise_copy i j)
  then show ?thesis using assms(2) promise_copy_ok [OF assms(1), of i j] by (auto simp: promised_def)
next
  case (Promise_move i j)
  then show ?thesis using assms(2) promise_move_ok [OF assms(1), of i j] by (auto simp: promised_def)
next
  case (Promise_destroy i)
  then show ?thesis using assms(2) promise_destroy_ok [OF assms(1), of i] by (auto simp: promised_def)
next
  case (Promise_assign i j)
  then show ?thesis using assms(2) promise_assign_ok [OF assms(1), of i j] by (auto simp: promised_def)
next
  case (Promise_move_assign i j)
  then show ?thesis using assms(2) promise_move_assign_ok [OF assms(1), of i j] by (auto simp: promised_def)
next
  case (Promise_swap i j)
  then show ?thesis using assms(2) promise_swap_ok [OF assms(1), of i j] by (auto simp: promised_def)
next
  case (Promise_getFuture i j)
  then show ?thesis using assms(2) promise_getFuture_ok [OF assms(1), of i _ j] by (auto simp: promised_def)
next
  case (Promise_send i v)
  then show ?thesis using assms(2) promise_send_ok(1) [OF assms(1), of i] by (auto simp: promised_def) blast
next
  case (Promise_sendError i e)
  then show ?thesis using assms(2) promise_send_ok(2) [OF assms(1), of i] by (auto simp: promised_def) blast
next
  case (Fire a)
  then show ?thesis using assms(2) fire_ok [OF assms(1), of a] by (auto simp: promised_def)
next
  case (Stop_waiting a cb)
  then show ?thesis using assms(2) stop_waiting_ok [OF assms(1), of a _ cb] by (auto simp: promised_def)
qed

text \<open>
  Property C6: programs over handles are safe.  In a world where every variable is in a state its clients can reach, with the
  handles that hold its address, every allowed operation on \<open>Promise\<close> and \<open>Future\<close> objects, every turn of a running loop and every
  callback that stops waiting succeeds, without failed assertions or use of destroyed variables, and leaves such a world.
  The promises a variable counts are the handles that hold its address, and one more while a loop that gives its promise up at the
  end runs; the futures it counts are the handles and one more while callbacks wait.
\<close>

theorem handles_safe:
  assumes "world_ok U w" and "op_allowed U w h"
  shows "\<exists>U' w'. do_op h w = Inr w' \<and> world_ok U' w' \<and>
    (\<forall>a s. w_sav w' a = Some s \<longrightarrow> sav_reachable (client_at w' a s (U' a)) \<and>
       (if sav_destroyed s then handles (w_prom w') a = 0 \<and> handles (w_fut w') a = 0
        else sav_promises s = int (handles (w_prom w') a) + (if sav_loop s \<in> {After_send_del, After_broken} then 1 else 0) \<and>
             sav_futures s = int (handles (w_fut w') a) + (if sav_chain s = [] then 0 else 1)))"
proof -
  have "\<exists>U' w'. do_op h w = Inr w' \<and> world_ok U' w'" using do_op_ok [OF assms] .
  then obtain U' w' where w': "do_op h w = Inr w'" "world_ok U' w'" by blast
  have r: "sav_reachable (client_at w' a s (U' a))" if "w_sav w' a = Some s" for a s
    using w'(2) that by (simp add: world_ok_def)
  have "if sav_destroyed s then handles (w_prom w') a = 0 \<and> handles (w_fut w') a = 0
        else sav_promises s = int (handles (w_prom w') a) + (if sav_loop s \<in> {After_send_del, After_broken} then 1 else 0) \<and>
             sav_futures s = int (handles (w_fut w') a) + (if sav_chain s = [] then 0 else 1)"
    if "w_sav w' a = Some s" for a s
    using sav_reachable_inv [OF r [OF that]]
    by (auto simp: sav_inv_def refs_ok_def client_at_def Let_def loop_owns_def split: if_splits)
  then show ?thesis using w' r by blast
qed

theorem handles_safe_witness:
  "\<exists>U' w'. do_op (Promise_new 0) (\<lparr>w_sav = (\<lambda>_. None), w_fut = (\<lambda>_. None), w_prom = (\<lambda>_. None), w_fresh = 0\<rparr> :: nat world)
     = Inr w' \<and> world_ok U' w'"
  using handles_safe [of "\<lambda>_. {}" "\<lparr>w_sav = (\<lambda>_. None), w_fut = (\<lambda>_. None), w_prom = (\<lambda>_. None), w_fresh = 0\<rparr> :: nat world" "Promise_new 0"]
  by (auto simp: world_ok_def)

end
