(* ===== verification/Hash3.thy ===== *)
theory Hash3
  imports Flow_Words
begin

text \<open>
  The lookup3 hash (\<open>src/flow/Hash3.c\<close>).  Memory is a function from addresses to bytes, a key an
  address and a length in it.  The machine says which of the macros \<open>HASH_LITTLE_ENDIAN\<close> and
  \<open>HASH_BIG_ENDIAN\<close> is 1 and how words are loaded; \<open>valgrind\<close> says whether \<open>VALGRIND\<close> is defined.  All
  arithmetic is on 32-bit words and wraps around.  The code reads keys by words, half-words or bytes,
  depending on their address; the theory shows that every way computes one function of the key's
  bytes, also where a load reads past the end of the key.
\<close>

unbundle bit_operations_syntax

subsection \<open>Mixing\<close>

type_synonym memory = "nat \<Rightarrow> u8"
type_synonym abc = "u32 \<times> u32 \<times> u32"

datatype machine = Little_endian | Big_endian | Unknown_endian

definition rot :: "u32 \<Rightarrow> nat \<Rightarrow> u32" where
  "rot x k = push_bit k x OR drop_bit (32 - k) x"

definition mix :: "abc \<Rightarrow> abc" where
  "mix = (\<lambda>(a, b, c).
     let a = a - c; a = a XOR rot c 4; c = c + b;
         b = b - a; b = b XOR rot a 6; a = a + c;
         c = c - b; c = c XOR rot b 8; b = b + a;
         a = a - c; a = a XOR rot c 16; c = c + b;
         b = b - a; b = b XOR rot a 19; a = a + c;
         c = c - b; c = c XOR rot b 4; b = b + a
     in (a, b, c))"

definition final_mix :: "abc \<Rightarrow> abc" where
  "final_mix = (\<lambda>(a, b, c).
     let c = c XOR b; c = c - rot b 14;
         a = a XOR c; a = a - rot c 11;
         b = b XOR a; b = b - rot a 25;
         c = c XOR b; c = c - rot b 16;
         a = a XOR c; a = a - rot c 4;
         b = b XOR a; b = b - rot a 14;
         c = c XOR b; c = c - rot b 24
     in (a, b, c))"

subsection \<open>Loads\<close>

text \<open>A byte as a \<open>uint32_t\<close>, and shifted left.\<close>

definition shl8 :: "nat \<Rightarrow> u8 \<Rightarrow> u32" where
  "shl8 i x = push_bit i (ucast x)"

abbreviation z8 :: "u8 \<Rightarrow> u32" where
  "z8 x \<equiv> ucast x"

text \<open>Aligned loads on a little-endian and a big-endian machine.\<close>

definition load16le :: "memory \<Rightarrow> nat \<Rightarrow> u32" where
  "load16le m k = z8 (m k) + shl8 8 (m (k + 1))"

definition load32le :: "memory \<Rightarrow> nat \<Rightarrow> u32" where
  "load32le m k = z8 (m k) + shl8 8 (m (k + 1)) + shl8 16 (m (k + 2)) + shl8 24 (m (k + 3))"

definition load32be :: "memory \<Rightarrow> nat \<Rightarrow> u32" where
  "load32be m k = shl8 24 (m k) + shl8 16 (m (k + 1)) + shl8 8 (m (k + 2)) + z8 (m (k + 3))"

subsection \<open>Words\<close>

fun hashword_loop :: "u32 list \<Rightarrow> abc \<Rightarrow> u32 list \<times> abc" where
  "hashword_loop (k0 # k1 # k2 # k3 # ks) (a, b, c) =
     hashword_loop (k3 # ks) (mix (a + k0, b + k1, c + k2))"
| "hashword_loop ks s = (ks, s)"

fun hashword_tail :: "u32 list \<Rightarrow> abc \<Rightarrow> abc" where
  "hashword_tail [k0, k1, k2] (a, b, c) = final_mix (a + k0, b + k1, c + k2)"
| "hashword_tail [k0, k1] (a, b, c) = final_mix (a + k0, b + k1, c)"
| "hashword_tail [k0] (a, b, c) = final_mix (a + k0, b, c)"
| "hashword_tail _ s = s"

definition hashword :: "u32 list \<Rightarrow> u32 \<Rightarrow> u32" where
  "hashword k initval =
     (let i = 0xdeadbeef + push_bit 2 (word_of_nat (length k)) + initval;
          (ks, s) = hashword_loop k (i, i, i);
          (a, b, c) = hashword_tail ks s
      in c)"

definition hashword2 :: "u32 list \<Rightarrow> u32 \<Rightarrow> u32 \<Rightarrow> u32 \<times> u32" where
  "hashword2 k pc pb =
     (let i = 0xdeadbeef + word_of_nat (push_bit 2 (length k) mod 2 ^ 64) + pc;
          (ks, s) = hashword_loop k (i, i, i + pb);
          (a, b, c) = hashword_tail ks s
      in (c, b))"

subsection \<open>Bytes: the three ways of reading\<close>

text \<open>
  The loops over all but the last block give the address and the number of the remaining bytes; the
  switches give \<open>None\<close> where the source returns without the final mixing.
\<close>

fun little_loop32 :: "memory \<Rightarrow> nat \<Rightarrow> nat \<Rightarrow> abc \<Rightarrow> nat \<times> nat \<times> abc" where
  "little_loop32 m k n (a, b, c) =
     (if 12 < n then little_loop32 m (k + 12) (n - 12)
        (mix (a + load32le m k, b + load32le m (k + 4), c + load32le m (k + 8)))
      else (k, n, (a, b, c)))"

definition little_tail32 :: "memory \<Rightarrow> nat \<Rightarrow> nat \<Rightarrow> abc \<Rightarrow> abc option" where
  "little_tail32 m k n = (\<lambda>(a, b, c).
     let k0 = load32le m k; k1 = load32le m (k + 4); k2 = load32le m (k + 8)
     in if n = 12 then Some (a + k0, b + k1, c + k2)
        else if n = 11 then Some (a + k0, b + k1, c + (k2 AND 0xffffff))
        else if n = 10 then Some (a + k0, b + k1, c + (k2 AND 0xffff))
        else if n = 9 then Some (a + k0, b + k1, c + (k2 AND 0xff))
        else if n = 8 then Some (a + k0, b + k1, c)
        else if n = 7 then Some (a + k0, b + (k1 AND 0xffffff), c)
        else if n = 6 then Some (a + k0, b + (k1 AND 0xffff), c)
        else if n = 5 then Some (a + k0, b + (k1 AND 0xff), c)
        else if n = 4 then Some (a + k0, b, c)
        else if n = 3 then Some (a + (k0 AND 0xffffff), b, c)
        else if n = 2 then Some (a + (k0 AND 0xffff), b, c)
        else if n = 1 then Some (a + (k0 AND 0xff), b, c)
        else None)"

definition little_tail32_valgrind :: "memory \<Rightarrow> nat \<Rightarrow> nat \<Rightarrow> abc \<Rightarrow> abc option" where
  "little_tail32_valgrind m k n = (\<lambda>(a, b, c).
     let k0 = load32le m k; k1 = load32le m (k + 4); k2 = load32le m (k + 8)
     in if n = 12 then Some (a + k0, b + k1, c + k2)
        else if 8 \<le> n then
          (let c = (if n = 11 then c + shl8 16 (m (k + 10)) else c);
               c = (if 10 \<le> n then c + shl8 8 (m (k + 9)) else c);
               c = (if 9 \<le> n then c + z8 (m (k + 8)) else c)
           in Some (a + k0, b + k1, c))
        else if 4 \<le> n then
          (let b = (if n = 7 then b + shl8 16 (m (k + 6)) else b);
               b = (if 6 \<le> n then b + shl8 8 (m (k + 5)) else b);
               b = (if 5 \<le> n then b + z8 (m (k + 4)) else b)
           in Some (a + k0, b, c))
        else if 1 \<le> n then
          (let a = (if n = 3 then a + shl8 16 (m (k + 2)) else a);
               a = (if 2 \<le> n then a + shl8 8 (m (k + 1)) else a)
           in Some (a + z8 (m k), b, c))
        else None)"

fun little_loop16 :: "memory \<Rightarrow> nat \<Rightarrow> nat \<Rightarrow> abc \<Rightarrow> nat \<times> nat \<times> abc" where
  "little_loop16 m k n (a, b, c) =
     (if 12 < n then little_loop16 m (k + 12) (n - 12)
        (mix (a + (load16le m k + push_bit 16 (load16le m (k + 2))),
              b + (load16le m (k + 4) + push_bit 16 (load16le m (k + 6))),
              c + (load16le m (k + 8) + push_bit 16 (load16le m (k + 10)))))
      else (k, n, (a, b, c)))"

definition little_tail16 :: "memory \<Rightarrow> nat \<Rightarrow> nat \<Rightarrow> abc \<Rightarrow> abc option" where
  "little_tail16 m k n = (\<lambda>(a, b, c).
     let k01 = load16le m k + push_bit 16 (load16le m (k + 2));
         k23 = load16le m (k + 4) + push_bit 16 (load16le m (k + 6));
         k45 = load16le m (k + 8) + push_bit 16 (load16le m (k + 10))
     in if n = 12 then Some (a + k01, b + k23, c + k45)
        else if n = 11 then Some (a + k01, b + k23, c + shl8 16 (m (k + 10)) + load16le m (k + 8))
        else if n = 10 then Some (a + k01, b + k23, c + load16le m (k + 8))
        else if n = 9 then Some (a + k01, b + k23, c + z8 (m (k + 8)))
        else if n = 8 then Some (a + k01, b + k23, c)
        else if n = 7 then Some (a + k01, b + shl8 16 (m (k + 6)) + load16le m (k + 4), c)
        else if n = 6 then Some (a + k01, b + load16le m (k + 4), c)
        else if n = 5 then Some (a + k01, b + z8 (m (k + 4)), c)
        else if n = 4 then Some (a + k01, b, c)
        else if n = 3 then Some (a + shl8 16 (m (k + 2)) + load16le m k, b, c)
        else if n = 2 then Some (a + load16le m k, b, c)
        else if n = 1 then Some (a + z8 (m k), b, c)
        else None)"

fun little_loop8 :: "memory \<Rightarrow> nat \<Rightarrow> nat \<Rightarrow> abc \<Rightarrow> nat \<times> nat \<times> abc" where
  "little_loop8 m k n (a, b, c) =
     (if 12 < n then little_loop8 m (k + 12) (n - 12)
        (mix (a + z8 (m k) + shl8 8 (m (k + 1)) + shl8 16 (m (k + 2)) + shl8 24 (m (k + 3)),
              b + z8 (m (k + 4)) + shl8 8 (m (k + 5)) + shl8 16 (m (k + 6)) + shl8 24 (m (k + 7)),
              c + z8 (m (k + 8)) + shl8 8 (m (k + 9)) + shl8 16 (m (k + 10)) + shl8 24 (m (k + 11))))
      else (k, n, (a, b, c)))"

text \<open>The cases of this switch fall through down to the first.\<close>

definition little_tail8 :: "memory \<Rightarrow> nat \<Rightarrow> nat \<Rightarrow> abc \<Rightarrow> abc option" where
  "little_tail8 m k n = (\<lambda>(a, b, c).
     if n = 0 then None
     else let c = (if 12 \<le> n then c + shl8 24 (m (k + 11)) else c);
              c = (if 11 \<le> n then c + shl8 16 (m (k + 10)) else c);
              c = (if 10 \<le> n then c + shl8 8 (m (k + 9)) else c);
              c = (if 9 \<le> n then c + z8 (m (k + 8)) else c);
              b = (if 8 \<le> n then b + shl8 24 (m (k + 7)) else b);
              b = (if 7 \<le> n then b + shl8 16 (m (k + 6)) else b);
              b = (if 6 \<le> n then b + shl8 8 (m (k + 5)) else b);
              b = (if 5 \<le> n then b + z8 (m (k + 4)) else b);
              a = (if 4 \<le> n then a + shl8 24 (m (k + 3)) else a);
              a = (if 3 \<le> n then a + shl8 16 (m (k + 2)) else a);
              a = (if 2 \<le> n then a + shl8 8 (m (k + 1)) else a)
          in Some (a + z8 (m k), b, c))"

text \<open>What follows the branches, and the branches: the state on return.\<close>

definition finish_hash :: "(memory \<Rightarrow> nat \<Rightarrow> nat \<Rightarrow> abc \<Rightarrow> abc option) \<Rightarrow> memory \<Rightarrow> nat \<times> nat \<times> abc \<Rightarrow> abc" where
  "finish_hash tail m = (\<lambda>(k, n, s). case tail m k n s of None \<Rightarrow> s | Some t \<Rightarrow> final_mix t)"

definition hashlittle_state :: "machine \<Rightarrow> bool \<Rightarrow> memory \<Rightarrow> nat \<Rightarrow> nat \<Rightarrow> abc \<Rightarrow> abc" where
  "hashlittle_state mach valgrind m key n s =
     (if mach = Little_endian \<and> key mod 4 = 0
      then finish_hash (if valgrind then little_tail32_valgrind else little_tail32) m (little_loop32 m key n s)
      else if mach = Little_endian \<and> key mod 2 = 0
      then finish_hash little_tail16 m (little_loop16 m key n s)
      else finish_hash little_tail8 m (little_loop8 m key n s))"

definition hashlittle :: "machine \<Rightarrow> bool \<Rightarrow> memory \<Rightarrow> nat \<Rightarrow> nat \<Rightarrow> u32 \<Rightarrow> u32" where
  "hashlittle mach valgrind m key n initval =
     (let i = 0xdeadbeef + word_of_nat n + initval;
          (a, b, c) = hashlittle_state mach valgrind m key n (i, i, i)
      in c)"

definition hashlittle2 :: "machine \<Rightarrow> bool \<Rightarrow> memory \<Rightarrow> nat \<Rightarrow> nat \<Rightarrow> u32 \<Rightarrow> u32 \<Rightarrow> u32 \<times> u32" where
  "hashlittle2 mach valgrind m key n pc pb =
     (let i = 0xdeadbeef + word_of_nat n + pc;
          (a, b, c) = hashlittle_state mach valgrind m key n (i, i, i + pb)
      in (c, b))"

subsection \<open>Big-endian reading\<close>

fun big_loop32 :: "memory \<Rightarrow> nat \<Rightarrow> nat \<Rightarrow> abc \<Rightarrow> nat \<times> nat \<times> abc" where
  "big_loop32 m k n (a, b, c) =
     (if 12 < n then big_loop32 m (k + 12) (n - 12)
        (mix (a + load32be m k, b + load32be m (k + 4), c + load32be m (k + 8)))
      else (k, n, (a, b, c)))"

definition big_tail32 :: "memory \<Rightarrow> nat \<Rightarrow> nat \<Rightarrow> abc \<Rightarrow> abc option" where
  "big_tail32 m k n = (\<lambda>(a, b, c).
     let k0 = load32be m k; k1 = load32be m (k + 4); k2 = load32be m (k + 8)
     in if n = 12 then Some (a + k0, b + k1, c + k2)
        else if n = 11 then Some (a + k0, b + k1, c + (k2 AND 0xffffff00))
        else if n = 10 then Some (a + k0, b + k1, c + (k2 AND 0xffff0000))
        else if n = 9 then Some (a + k0, b + k1, c + (k2 AND 0xff000000))
        else if n = 8 then Some (a + k0, b + k1, c)
        else if n = 7 then Some (a + k0, b + (k1 AND 0xffffff00), c)
        else if n = 6 then Some (a + k0, b + (k1 AND 0xffff0000), c)
        else if n = 5 then Some (a + k0, b + (k1 AND 0xff000000), c)
        else if n = 4 then Some (a + k0, b, c)
        else if n = 3 then Some (a + (k0 AND 0xffffff00), b, c)
        else if n = 2 then Some (a + (k0 AND 0xffff0000), b, c)
        else if n = 1 then Some (a + (k0 AND 0xff000000), b, c)
        else None)"

definition big_tail32_valgrind :: "memory \<Rightarrow> nat \<Rightarrow> nat \<Rightarrow> abc \<Rightarrow> abc option" where
  "big_tail32_valgrind m k n = (\<lambda>(a, b, c).
     let k0 = load32be m k; k1 = load32be m (k + 4); k2 = load32be m (k + 8)
     in if n = 12 then Some (a + k0, b + k1, c + k2)
        else if 8 \<le> n then
          (let c = (if n = 11 then c + shl8 8 (m (k + 10)) else c);
               c = (if 10 \<le> n then c + shl8 16 (m (k + 9)) else c);
               c = (if 9 \<le> n then c + shl8 24 (m (k + 8)) else c)
           in Some (a + k0, b + k1, c))
        else if 4 \<le> n then
          (let b = (if n = 7 then b + shl8 8 (m (k + 6)) else b);
               b = (if 6 \<le> n then b + shl8 16 (m (k + 5)) else b);
               b = (if 5 \<le> n then b + shl8 24 (m (k + 4)) else b)
           in Some (a + k0, b, c))
        else if 1 \<le> n then
          (let a = (if n = 3 then a + shl8 8 (m (k + 2)) else a);
               a = (if 2 \<le> n then a + shl8 16 (m (k + 1)) else a)
           in Some (a + shl8 24 (m k), b, c))
        else None)"

fun big_loop8 :: "memory \<Rightarrow> nat \<Rightarrow> nat \<Rightarrow> abc \<Rightarrow> nat \<times> nat \<times> abc" where
  "big_loop8 m k n (a, b, c) =
     (if 12 < n then big_loop8 m (k + 12) (n - 12)
        (mix (a + shl8 24 (m k) + shl8 16 (m (k + 1)) + shl8 8 (m (k + 2)) + z8 (m (k + 3)),
              b + shl8 24 (m (k + 4)) + shl8 16 (m (k + 5)) + shl8 8 (m (k + 6)) + z8 (m (k + 7)),
              c + shl8 24 (m (k + 8)) + shl8 16 (m (k + 9)) + shl8 8 (m (k + 10)) + z8 (m (k + 11))))
      else (k, n, (a, b, c)))"

definition big_tail8 :: "memory \<Rightarrow> nat \<Rightarrow> nat \<Rightarrow> abc \<Rightarrow> abc option" where
  "big_tail8 m k n = (\<lambda>(a, b, c).
     if n = 0 then None
     else let c = (if 12 \<le> n then c + z8 (m (k + 11)) else c);
              c = (if 11 \<le> n then c + shl8 8 (m (k + 10)) else c);
              c = (if 10 \<le> n then c + shl8 16 (m (k + 9)) else c);
              c = (if 9 \<le> n then c + shl8 24 (m (k + 8)) else c);
              b = (if 8 \<le> n then b + z8 (m (k + 7)) else b);
              b = (if 7 \<le> n then b + shl8 8 (m (k + 6)) else b);
              b = (if 6 \<le> n then b + shl8 16 (m (k + 5)) else b);
              b = (if 5 \<le> n then b + shl8 24 (m (k + 4)) else b);
              a = (if 4 \<le> n then a + z8 (m (k + 3)) else a);
              a = (if 3 \<le> n then a + shl8 8 (m (k + 2)) else a);
              a = (if 2 \<le> n then a + shl8 16 (m (k + 1)) else a)
          in Some (a + shl8 24 (m k), b, c))"

definition hashbig :: "machine \<Rightarrow> bool \<Rightarrow> memory \<Rightarrow> nat \<Rightarrow> nat \<Rightarrow> u32 \<Rightarrow> u32" where
  "hashbig mach valgrind m key n initval =
     (let i = 0xdeadbeef + word_of_nat n + initval;
          (a, b, c) =
            (if mach = Big_endian \<and> key mod 4 = 0
             then finish_hash (if valgrind then big_tail32_valgrind else big_tail32) m (big_loop32 m key n (i, i, i))
             else finish_hash big_tail8 m (big_loop8 m key n (i, i, i)))
      in c)"

declare little_loop32.simps [simp del] little_loop16.simps [simp del] little_loop8.simps [simp del]
  big_loop32.simps [simp del] big_loop8.simps [simp del]

subsection \<open>The function of the key's bytes\<close>

text \<open>
  The reference: a key is cut into blocks of twelve bytes, the last one padded with zeros, and each
  block read as three words.  \<open>le_word\<close> reads the first byte as the lowest, \<open>be_word\<close> as the highest.
\<close>

fun le_word :: "u8 list \<Rightarrow> u32" where
  "le_word [] = 0"
| "le_word (x # xs) = ucast x + push_bit 8 (le_word xs)"

definition be_word :: "u8 list \<Rightarrow> u32" where
  "be_word xs = le_word (rev xs)"

definition add_block :: "(u8 list \<Rightarrow> u32) \<Rightarrow> u8 list \<Rightarrow> abc \<Rightarrow> abc" where
  "add_block wd bs = (\<lambda>(a, b, c).
     let p = bs @ replicate (12 - length bs) 0
     in (a + wd (take 4 p), b + wd (take 4 (drop 4 p)), c + wd (drop 8 p)))"

function lookup3 :: "(u8 list \<Rightarrow> u32) \<Rightarrow> u8 list \<Rightarrow> abc \<Rightarrow> abc" where
  "lookup3 wd bs s =
     (if 12 < length bs then lookup3 wd (drop 12 bs) (mix (add_block wd (take 12 bs) s))
      else if bs = [] then s else final_mix (add_block wd bs s))"
  by pat_completeness auto
termination lookup3
  by (relation "measure (\<lambda>(wd, bs, s). length bs)") auto

declare lookup3.simps [simp del]

text \<open>
  A way of reading: a loop that adds blocks of the key and a switch that adds what is left.  Every
  such way computes the reference.
\<close>

locale key_reader =
  fixes wd :: "u8 list \<Rightarrow> u32"
    and loop :: "memory \<Rightarrow> nat \<Rightarrow> nat \<Rightarrow> abc \<Rightarrow> nat \<times> nat \<times> abc"
    and tail :: "memory \<Rightarrow> nat \<Rightarrow> nat \<Rightarrow> abc \<Rightarrow> abc option"
  assumes loop_block: "loop m k n s =
      (if 12 < n then loop m (k + 12) (n - 12) (mix (add_block wd (map m [k..<k + 12]) s)) else (k, n, s))"
    and tail_block: "n \<le> 12 \<Longrightarrow> tail m k n s =
      (if n = 0 then None else Some (add_block wd (map m [k..<k + n]) s))"
begin

lemma reads_key: "finish_hash tail m (loop m k n s) = lookup3 wd (map m [k..<k + n]) s"
proof (induction n arbitrary: k s rule: less_induct)
  case (less n)
  show ?case
  proof (cases "12 < n")
    case True
    then have "take 12 [k..<k + n] = [k..<k + 12]" "drop 12 [k..<k + n] = [k + 12..<k + 12 + (n - 12)]"
      by (simp_all add: take_upt)
    then show ?thesis
      using less.IH [of "n - 12"] True
      by (subst loop_block) (simp add: lookup3.simps [of wd "map m [k..<k + n]"] take_map drop_map)
  next
    case False
    then show ?thesis
      by (subst loop_block) (simp add: lookup3.simps [of wd "map m [k..<k + n]"] finish_hash_def tail_block)
  qed
qed

end

subsection \<open>Words and their bytes\<close>

lemma shl8_nat: "shl8 i x = word_of_nat (unat x * 2 ^ i)" "z8 x = word_of_nat (unat x)"
  by (simp_all add: shl8_def push_bit_eq_mult unsigned_ucast_eq)

lemma le_word_bytes:
  "le_word [p, q, r, t] = z8 p + shl8 8 q + shl8 16 r + shl8 24 t"
  by (simp add: shl8_def push_bit_add add.assoc)

lemma be_word_bytes:
  "be_word [p, q, r, t] = shl8 24 p + shl8 16 q + shl8 8 r + z8 t"
  by (simp add: be_word_def shl8_def push_bit_add add_ac)

lemma shl8_0 [simp]: "shl8 i 0 = 0"
  by (simp add: shl8_def)

lemma low_bits:
  assumes "x < 2 ^ i" "i \<le> 32"
  shows "(word_of_nat x + word_of_nat (y * 2 ^ i) :: u32) AND mask i = word_of_nat x"
proof -
  have "(word_of_nat x + word_of_nat (y * 2 ^ i) :: u32) = word_of_nat (x + y * 2 ^ i)" by simp
  also have "take_bit i \<dots> = word_of_nat (take_bit i (x + y * 2 ^ i))" by (simp only: take_bit_of_nat)
  also have "take_bit i (x + y * 2 ^ i) = x" using assms by (simp add: take_bit_eq_mod)
  finally show ?thesis by (simp only: take_bit_eq_mask)
qed

lemma high_bits:
  assumes "x < 2 ^ i" "i \<le> 32"
  shows "(word_of_nat x + word_of_nat (y * 2 ^ i) :: u32) AND NOT (mask i) = word_of_nat (y * 2 ^ i)"
proof -
  let ?w = "word_of_nat x + word_of_nat (y * 2 ^ i) :: u32"
  have "?w - (?w AND mask i) = ?w AND NOT (?w AND mask i)" by (rule disjunctive_diff) (simp add: bit_and_iff)
  also have "\<dots> = ?w AND NOT (mask i)" by (rule bit_eqI) (auto simp: bit_simps)
  finally show ?thesis using low_bits [OF assms, of y] by (metis add_diff_cancel_left')
qed

text \<open>The masks that cut a load down to the bytes of the key.\<close>

lemma mask_consts:
  "(0xff :: u32) = mask 8" "(0xffff :: u32) = mask 16" "(0xffffff :: u32) = mask 24"
  "(0xffffff00 :: u32) = NOT (mask 8)" "(0xffff0000 :: u32) = NOT (mask 16)" "(0xff000000 :: u32) = NOT (mask 24)"
  by (simp_all add: mask_eq_exp_minus_1 not_eq_complement)

lemma byte_less: "unat (x :: u8) < 256"
  using unsigned_less [where 'b = 8, of x] by simp

lemma bytes_less:
  "unat (p :: u8) + unat (q :: u8) * 256 < 65536" "unat p + unat q * 256 + unat (r :: u8) * 65536 < 16777216"
  using byte_less [of p] byte_less [of q] byte_less [of r] by linarith+

lemma bytes_low:
  fixes p q r t :: u8
  shows "z8 p + shl8 8 q + shl8 16 r = word_of_nat (unat p + unat q * 256 + unat r * 65536)"
    and "z8 p + shl8 8 q = word_of_nat (unat p + unat q * 256)"
    and "shl8 16 r + shl8 24 t = word_of_nat ((unat r + unat t * 256) * 2 ^ 16)"
    and "shl8 8 q + shl8 16 r + shl8 24 t = word_of_nat ((unat q + unat r * 256 + unat t * 65536) * 2 ^ 8)"
  unfolding shl8_nat of_nat_add [symmetric] by (rule arg_cong [of _ _ word_of_nat], simp)+

lemma le_masks:
  fixes p q r t :: u8
  shows "(z8 p + shl8 8 q + shl8 16 r + shl8 24 t) AND 0xffffff = z8 p + shl8 8 q + shl8 16 r"
    and "(z8 p + shl8 8 q + shl8 16 r + shl8 24 t) AND 0xffff = z8 p + shl8 8 q"
    and "(z8 p + shl8 8 q + shl8 16 r + shl8 24 t) AND 0xff = z8 p"
proof -
  show "(z8 p + shl8 8 q + shl8 16 r + shl8 24 t) AND 0xffffff = z8 p + shl8 8 q + shl8 16 r"
    unfolding mask_consts bytes_low(1) shl8_nat(1) [of 24] using bytes_less(2) by (intro low_bits) simp_all
  have "(z8 p + shl8 8 q + (shl8 16 r + shl8 24 t)) AND 0xffff = z8 p + shl8 8 q"
    unfolding mask_consts bytes_low(2,3) using bytes_less(1) by (intro low_bits) simp_all
  then show "(z8 p + shl8 8 q + shl8 16 r + shl8 24 t) AND 0xffff = z8 p + shl8 8 q" by (simp only: add.assoc)
  have "(z8 p + (shl8 8 q + shl8 16 r + shl8 24 t)) AND 0xff = z8 p"
    unfolding mask_consts bytes_low(4) shl8_nat(2) using byte_less by (intro low_bits) simp_all
  then show "(z8 p + shl8 8 q + shl8 16 r + shl8 24 t) AND 0xff = z8 p" by (simp only: add.assoc)
qed

lemma be_masks:
  fixes p q r t :: u8
  shows "(shl8 24 t + shl8 16 r + shl8 8 q + z8 p) AND 0xffffff00 = shl8 24 t + shl8 16 r + shl8 8 q"
    and "(shl8 24 t + shl8 16 r + shl8 8 q + z8 p) AND 0xffff0000 = shl8 24 t + shl8 16 r"
    and "(shl8 24 t + shl8 16 r + shl8 8 q + z8 p) AND 0xff000000 = shl8 24 t"
proof -
  have swap: "shl8 24 t + shl8 16 r + shl8 8 q + z8 p = z8 p + (shl8 8 q + shl8 16 r + shl8 24 t)"
      "z8 p + (shl8 8 q + shl8 16 r + shl8 24 t) = z8 p + shl8 8 q + (shl8 16 r + shl8 24 t)"
      "z8 p + (shl8 8 q + shl8 16 r + shl8 24 t) = z8 p + shl8 8 q + shl8 16 r + shl8 24 t"
    by (simp_all only: add_ac)
  have "(z8 p + (shl8 8 q + shl8 16 r + shl8 24 t)) AND 0xffffff00 = shl8 8 q + shl8 16 r + shl8 24 t"
    unfolding mask_consts bytes_low(4) shl8_nat(2) using byte_less by (intro high_bits) simp_all
  then show "(shl8 24 t + shl8 16 r + shl8 8 q + z8 p) AND 0xffffff00 = shl8 24 t + shl8 16 r + shl8 8 q"
    unfolding swap(1) by (simp only: add_ac)
  have "(z8 p + shl8 8 q + (shl8 16 r + shl8 24 t)) AND 0xffff0000 = shl8 16 r + shl8 24 t"
    unfolding mask_consts bytes_low(2,3) using bytes_less(1) by (intro high_bits) simp_all
  then show "(shl8 24 t + shl8 16 r + shl8 8 q + z8 p) AND 0xffff0000 = shl8 24 t + shl8 16 r"
    unfolding swap(1,2) by (simp only: add_ac)
  have "(z8 p + shl8 8 q + shl8 16 r + shl8 24 t) AND 0xff000000 = shl8 24 t"
    unfolding mask_consts bytes_low(1) shl8_nat(1) [of 24] using bytes_less(2) by (intro high_bits) simp_all
  then show "(shl8 24 t + shl8 16 r + shl8 8 q + z8 p) AND 0xff000000 = shl8 24 t"
    unfolding swap(1) by (simp only: add_ac)
qed

subsection \<open>Every way of reading computes the reference\<close>

declare le_word.simps [simp del]

lemma up_to_12:
  assumes "n \<le> (12 :: nat)"
  shows "12 = n \<or> 11 = n \<or> 10 = n \<or> 9 = n \<or> 8 = n \<or> 7 = n \<or> 6 = n \<or> 5 = n \<or> 4 = n \<or> 3 = n \<or> 2 = n \<or> 1 = n \<or> 0 = n"
  using assms by arith

lemma upt_12: "[0..<12] = [0, 1, 2, 3, 4, 5, 6, 7, 8, 9, 10, 11 :: nat]"
  by (simp add: upt_conv_Cons)

text \<open>Byte \<open>i\<close> of the last block.\<close>

definition byte_or_0 :: "memory \<Rightarrow> nat \<Rightarrow> nat \<Rightarrow> nat \<Rightarrow> u8" where
  "byte_or_0 m k n i = (if i < n then m (k + i) else 0)"

lemma padded_key:
  assumes "n \<le> 12"
  shows "map m [k..<k + n] @ replicate (12 - n) 0 = map (byte_or_0 m k n) [0..<12]"
  using assms by (intro nth_equalityI) (auto simp: nth_append byte_or_0_def)

lemma add_last_block:
  assumes "n \<le> 12"
  shows "add_block wd (map m [k..<k + n]) (a, b, c) =
     (let f = byte_or_0 m k n in
      (a + wd [f 0, f 1, f 2, f 3], b + wd [f 4, f 5, f 6, f 7], c + wd [f 8, f 9, f 10, f 11]))"
  using padded_key [OF assms, of m k] by (simp add: add_block_def Let_def upt_12 del: upt_rec_numeral)

lemma add_full_block:
  "add_block wd (map m [k..<k + 12]) (a, b, c) =
     (a + wd [m k, m (k + 1), m (k + 2), m (k + 3)], b + wd [m (k + 4), m (k + 5), m (k + 6), m (k + 7)],
      c + wd [m (k + 8), m (k + 9), m (k + 10), m (k + 11)])"
  by (subst add_last_block) (simp_all add: byte_or_0_def Let_def)

text \<open>The loads of a block, by the bytes of the block.\<close>

lemma block_loads:
  "load32le m (k + 4) = z8 (m (k + 4)) + shl8 8 (m (k + 5)) + shl8 16 (m (k + 6)) + shl8 24 (m (k + 7))"
  "load32le m (k + 8) = z8 (m (k + 8)) + shl8 8 (m (k + 9)) + shl8 16 (m (k + 10)) + shl8 24 (m (k + 11))"
  "load32be m (k + 4) = shl8 24 (m (k + 4)) + shl8 16 (m (k + 5)) + shl8 8 (m (k + 6)) + z8 (m (k + 7))"
  "load32be m (k + 8) = shl8 24 (m (k + 8)) + shl8 16 (m (k + 9)) + shl8 8 (m (k + 10)) + z8 (m (k + 11))"
  "load16le m (k + 2) = z8 (m (k + 2)) + shl8 8 (m (k + 3))" "load16le m (k + 4) = z8 (m (k + 4)) + shl8 8 (m (k + 5))"
  "load16le m (k + 6) = z8 (m (k + 6)) + shl8 8 (m (k + 7))" "load16le m (k + 8) = z8 (m (k + 8)) + shl8 8 (m (k + 9))"
  "load16le m (k + 10) = z8 (m (k + 10)) + shl8 8 (m (k + 11))"
  "load16le m (Suc (Suc k)) = z8 (m (Suc (Suc k))) + shl8 8 (m (k + 3))"
  unfolding load32le_def load32be_def load16le_def add.assoc [of k] by (simp_all add: numeral_3_eq_3)

lemma push_shl8: "push_bit 16 (z8 x + shl8 8 y) = shl8 16 x + shl8 24 y"
  by (simp add: shl8_def push_bit_add)

text \<open>The switches, one length at a time, and the interpretations.\<close>

lemmas tail_simps = byte_or_0_def Let_def le_word_bytes be_word_bytes block_loads push_shl8 le_masks be_masks

lemma little_tail32_block:
  assumes "n \<le> 12"
  shows "little_tail32 m k n (a, b, c) = (if n = 0 then None else Some (add_block le_word (map m [k..<k + n]) (a, b, c)))"
  unfolding add_last_block [OF assms] using up_to_12 [OF assms] by (elim disjE) (simp_all add: tail_simps little_tail32_def load32le_def [of m k])

interpretation little32: key_reader le_word little_loop32 little_tail32
proof
  fix m :: memory and k n :: nat and s :: abc
  obtain a b c where s: "s = (a, b, c)" by (cases s)
  show "little_loop32 m k n s =
      (if 12 < n then little_loop32 m (k + 12) (n - 12) (mix (add_block le_word (map m [k..<k + 12]) s)) else (k, n, s))"
    unfolding s add_full_block
    by (subst little_loop32.simps) (simp only: le_word_bytes block_loads push_shl8 load32le_def [of m k] add_ac)
  show "n \<le> 12 \<Longrightarrow> little_tail32 m k n s = (if n = 0 then None else Some (add_block le_word (map m [k..<k + n]) s))"
    unfolding s by (rule little_tail32_block)
qed

lemma little_tail32_valgrind_block:
  assumes "n \<le> 12"
  shows "little_tail32_valgrind m k n (a, b, c) = (if n = 0 then None else Some (add_block le_word (map m [k..<k + n]) (a, b, c)))"
  unfolding add_last_block [OF assms] using up_to_12 [OF assms] by (elim disjE) (simp_all add: tail_simps little_tail32_valgrind_def load32le_def [of m k] add_ac)

interpretation little32v: key_reader le_word little_loop32 little_tail32_valgrind
proof
  fix m :: memory and k n :: nat and s :: abc
  obtain a b c where s: "s = (a, b, c)" by (cases s)
  show "little_loop32 m k n s =
      (if 12 < n then little_loop32 m (k + 12) (n - 12) (mix (add_block le_word (map m [k..<k + 12]) s)) else (k, n, s))"
    unfolding s add_full_block
    by (subst little_loop32.simps) (simp only: le_word_bytes block_loads push_shl8 load32le_def [of m k] add_ac)
  show "n \<le> 12 \<Longrightarrow> little_tail32_valgrind m k n s = (if n = 0 then None else Some (add_block le_word (map m [k..<k + n]) s))"
    unfolding s by (rule little_tail32_valgrind_block)
qed

lemma little_tail16_block:
  assumes "n \<le> 12"
  shows "little_tail16 m k n (a, b, c) = (if n = 0 then None else Some (add_block le_word (map m [k..<k + n]) (a, b, c)))"
  unfolding add_last_block [OF assms] using up_to_12 [OF assms] by (elim disjE) (simp_all add: tail_simps little_tail16_def load16le_def [of m k] add_ac)

interpretation little16: key_reader le_word little_loop16 little_tail16
proof
  fix m :: memory and k n :: nat and s :: abc
  obtain a b c where s: "s = (a, b, c)" by (cases s)
  show "little_loop16 m k n s =
      (if 12 < n then little_loop16 m (k + 12) (n - 12) (mix (add_block le_word (map m [k..<k + 12]) s)) else (k, n, s))"
    unfolding s add_full_block
    by (subst little_loop16.simps) (simp only: le_word_bytes block_loads push_shl8 load16le_def [of m k] add_ac)
  show "n \<le> 12 \<Longrightarrow> little_tail16 m k n s = (if n = 0 then None else Some (add_block le_word (map m [k..<k + n]) s))"
    unfolding s by (rule little_tail16_block)
qed

lemma little_tail8_block:
  assumes "n \<le> 12"
  shows "little_tail8 m k n (a, b, c) = (if n = 0 then None else Some (add_block le_word (map m [k..<k + n]) (a, b, c)))"
  unfolding add_last_block [OF assms] using up_to_12 [OF assms] by (elim disjE) (simp_all add: tail_simps little_tail8_def add_ac)

interpretation little8: key_reader le_word little_loop8 little_tail8
proof
  fix m :: memory and k n :: nat and s :: abc
  obtain a b c where s: "s = (a, b, c)" by (cases s)
  show "little_loop8 m k n s =
      (if 12 < n then little_loop8 m (k + 12) (n - 12) (mix (add_block le_word (map m [k..<k + 12]) s)) else (k, n, s))"
    unfolding s add_full_block
    by (subst little_loop8.simps) (simp only: le_word_bytes block_loads push_shl8 add_ac)
  show "n \<le> 12 \<Longrightarrow> little_tail8 m k n s = (if n = 0 then None else Some (add_block le_word (map m [k..<k + n]) s))"
    unfolding s by (rule little_tail8_block)
qed

lemma big_tail32_block:
  assumes "n \<le> 12"
  shows "big_tail32 m k n (a, b, c) = (if n = 0 then None else Some (add_block be_word (map m [k..<k + n]) (a, b, c)))"
  unfolding add_last_block [OF assms] using up_to_12 [OF assms] by (elim disjE) (simp_all add: tail_simps big_tail32_def load32be_def [of m k])

interpretation big32: key_reader be_word big_loop32 big_tail32
proof
  fix m :: memory and k n :: nat and s :: abc
  obtain a b c where s: "s = (a, b, c)" by (cases s)
  show "big_loop32 m k n s =
      (if 12 < n then big_loop32 m (k + 12) (n - 12) (mix (add_block be_word (map m [k..<k + 12]) s)) else (k, n, s))"
    unfolding s add_full_block
    by (subst big_loop32.simps) (simp only: be_word_bytes block_loads push_shl8 load32be_def [of m k] add_ac)
  show "n \<le> 12 \<Longrightarrow> big_tail32 m k n s = (if n = 0 then None else Some (add_block be_word (map m [k..<k + n]) s))"
    unfolding s by (rule big_tail32_block)
qed

lemma big_tail32_valgrind_block:
  assumes "n \<le> 12"
  shows "big_tail32_valgrind m k n (a, b, c) = (if n = 0 then None else Some (add_block be_word (map m [k..<k + n]) (a, b, c)))"
  unfolding add_last_block [OF assms] using up_to_12 [OF assms] by (elim disjE) (simp_all add: tail_simps big_tail32_valgrind_def load32be_def [of m k] add_ac)

interpretation big32v: key_reader be_word big_loop32 big_tail32_valgrind
proof
  fix m :: memory and k n :: nat and s :: abc
  obtain a b c where s: "s = (a, b, c)" by (cases s)
  show "big_loop32 m k n s =
      (if 12 < n then big_loop32 m (k + 12) (n - 12) (mix (add_block be_word (map m [k..<k + 12]) s)) else (k, n, s))"
    unfolding s add_full_block
    by (subst big_loop32.simps) (simp only: be_word_bytes block_loads push_shl8 load32be_def [of m k] add_ac)
  show "n \<le> 12 \<Longrightarrow> big_tail32_valgrind m k n s = (if n = 0 then None else Some (add_block be_word (map m [k..<k + n]) s))"
    unfolding s by (rule big_tail32_valgrind_block)
qed

lemma big_tail8_block:
  assumes "n \<le> 12"
  shows "big_tail8 m k n (a, b, c) = (if n = 0 then None else Some (add_block be_word (map m [k..<k + n]) (a, b, c)))"
  unfolding add_last_block [OF assms] using up_to_12 [OF assms] by (elim disjE) (simp_all add: tail_simps big_tail8_def add_ac)

interpretation big8: key_reader be_word big_loop8 big_tail8
proof
  fix m :: memory and k n :: nat and s :: abc
  obtain a b c where s: "s = (a, b, c)" by (cases s)
  show "big_loop8 m k n s =
      (if 12 < n then big_loop8 m (k + 12) (n - 12) (mix (add_block be_word (map m [k..<k + 12]) s)) else (k, n, s))"
    unfolding s add_full_block
    by (subst big_loop8.simps) (simp only: be_word_bytes block_loads push_shl8 add_ac)
  show "n \<le> 12 \<Longrightarrow> big_tail8 m k n s = (if n = 0 then None else Some (add_block be_word (map m [k..<k + n]) s))"
    unfolding s by (rule big_tail8_block)
qed

subsection \<open>Properties\<close>

lemma hashlittle_state_eq: "hashlittle_state mach valgrind m key n s = lookup3 le_word (map m [key..<key + n]) s"
  by (simp add: hashlittle_state_def little32.reads_key little32v.reads_key little16.reads_key little8.reads_key)

text \<open>
  Property C25: the hash is a function of the key's bytes.  On every machine, for every alignment of
  the key and with or without the code for Valgrind, \<open>hashlittle\<close> and \<open>hashlittle2\<close> compute the reference
  on the bytes of the key; so they do not depend on where the key lies, nor on what lies behind it,
  although the aligned reads load bytes behind it.  With a zero second seed, the first hash
  of \<open>hashlittle2\<close> is that of \<open>hashlittle\<close>.
\<close>

theorem hashlittle_by_bytes:
  "hashlittle mach valgrind m key n initval =
     (let i = 0xdeadbeef + word_of_nat n + initval
      in snd (snd (lookup3 le_word (map m [key..<key + n]) (i, i, i)))) \<and>
   hashlittle2 mach valgrind m key n pc pb =
     (let i = 0xdeadbeef + word_of_nat n + pc; (a, b, c) = lookup3 le_word (map m [key..<key + n]) (i, i, i + pb)
      in (c, b)) \<and>
   fst (hashlittle2 mach valgrind m key n initval 0) = hashlittle mach' valgrind' m key n initval"
  by (simp add: hashlittle_def hashlittle2_def hashlittle_state_eq Let_def split: prod.splits)

lemma hashbig_eq:
  "hashbig mach valgrind m key n initval =
     (let i = 0xdeadbeef + word_of_nat n + initval
      in snd (snd (lookup3 be_word (map m [key..<key + n]) (i, i, i))))"
  by (simp add: hashbig_def big32.reads_key big32v.reads_key big8.reads_key Let_def split: prod.splits)

text \<open>The words of a key, and the hash of words.\<close>

definition key_words :: "(memory \<Rightarrow> nat \<Rightarrow> u32) \<Rightarrow> memory \<Rightarrow> nat \<Rightarrow> nat \<Rightarrow> u32 list" where
  "key_words ld m k n = map (\<lambda>i. ld m (k + 4 * i)) [0..<n]"

lemma key_words_Suc: "key_words ld m k (Suc n) = ld m k # key_words ld m (k + 4) n"
  by (simp add: key_words_def upt_conv_Cons map_Suc_upt [symmetric] del: upt_Suc map_Suc_upt)
     (simp add: add_ac)

lemma key_words_0 [simp]: "key_words ld m k 0 = []"
  by (simp add: key_words_def)

definition hash_words :: "u32 list \<Rightarrow> abc \<Rightarrow> abc" where
  "hash_words ks s = (let (ks', t) = hashword_loop ks s in hashword_tail ks' t)"

lemma hash_words_key:
  assumes ld: "\<And>k. ld m k = wd [m k, m (k + 1), m (k + 2), m (k + 3)]" and "wd [0, 0, 0, 0] = 0"
  shows "hash_words (key_words ld m k n) (a, b, c) = lookup3 wd (map m [k..<k + 4 * n]) (a, b, c)"
proof (induction n arbitrary: k a b c rule: less_induct)
  case (less n)
  have lds: "ld m (k + 4) = wd [m (k + 4), m (k + 5), m (k + 6), m (k + 7)]"
      "ld m (k + 8) = wd [m (k + 8), m (k + 9), m (k + 10), m (k + 11)]"
      "ld m (8 + k) = wd [m (k + 8), m (k + 9), m (k + 10), m (k + 11)]"
    unfolding ld add.assoc [of k] add.commute [of 8 k] by simp_all
  show ?case
  proof (cases "3 < n")
    case True
    define n' where "n' = n - 4"
    have n': "n = Suc (Suc (Suc (Suc n')))" using True by (simp add: n'_def)
    obtain a' b' c' where abc: "mix (a + ld m k, b + ld m (k + 4), c + ld m (k + 8)) = (a', b', c')"
      by (metis prod_cases3)
    have "hash_words (key_words ld m k n) (a, b, c) = hash_words (key_words ld m (k + 12) (Suc n')) (a', b', c')"
      using abc by (simp add: n' key_words_Suc hash_words_def add.assoc)
    also have "\<dots> = lookup3 wd (map m [k + 12..<k + 12 + 4 * Suc n']) (a', b', c')"
      by (rule less.IH) (simp add: n')
    also have "\<dots> = lookup3 wd (map m [k..<k + 4 * n]) (a, b, c)"
    proof -
      have "take 12 [k..<k + 4 * n] = [k..<k + 12]" "drop 12 [k..<k + 4 * n] = [k + 12..<k + 12 + 4 * Suc n']"
        by (simp_all add: take_upt n' add_ac)
      then show ?thesis
        using abc True
        by (simp add: lookup3.simps [of wd "map m [k..<k + 4 * n]"] take_map drop_map add_full_block ld [of k] lds)
    qed
    finally show ?thesis .
  next
    case False
    then have "n = 0 \<or> n = 1 \<or> n = 2 \<or> n = 3" by arith
    moreover have "lookup3 wd (map m [k..<k + 4 * n]) (a, b, c) =
        (if n = 0 then (a, b, c) else final_mix (add_block wd (map m [k..<k + 4 * n]) (a, b, c)))"
      using False by (simp add: lookup3.simps [of wd "map m [k..<k + 4 * n]"])
    moreover have "4 * n \<le> 12" using False by simp
    ultimately show ?thesis
      using lds
      by (elim disjE)
         (simp_all add: add_last_block byte_or_0_def Let_def assms(2) ld [of k] hash_words_def key_words_Suc
          numeral_2_eq_2 numeral_3_eq_3)
  qed
qed


lemma length_word: "push_bit 2 (word_of_nat n :: u32) = word_of_nat (4 * n)"
  by (simp add: push_bit_eq_mult mult.commute)

lemma word_of_nat_mod32: "(word_of_nat (x mod 2 ^ 32) :: u32) = word_of_nat x"
  unfolding word_of_nat_eq_iff by (simp add: take_bit_eq_mod)

lemma length_word2: "(word_of_nat (push_bit 2 n mod 2 ^ 64) :: u32) = word_of_nat (4 * n)"
proof -
  have "4 * n mod 2 ^ 64 mod 2 ^ 32 = 4 * n mod 2 ^ 32" by (simp add: mod_mod_cancel)
  then have "(word_of_nat (4 * n mod 2 ^ 64) :: u32) = word_of_nat (4 * n)"
    using word_of_nat_mod32 [of "4 * n mod 2 ^ 64"] word_of_nat_mod32 [of "4 * n"] by metis
  then show ?thesis by (simp add: push_bit_eq_mult mult.commute)
qed

lemma hashword_eq:
  "hashword ks initval = (let i = 0xdeadbeef + word_of_nat (4 * length ks) + initval in snd (snd (hash_words ks (i, i, i))))"
  by (simp add: hashword_def hash_words_def length_word Let_def split: prod.splits)

text \<open>
  The hash of an array of words.  As the source says, \<open>hashword\<close> agrees with \<open>hashlittle\<close> on
  the words as a little-endian machine loads them and with \<open>hashbig\<close> on the words as a big-endian
  machine loads them, for every length, with the length measured in words; and \<open>hashword2\<close> with a zero
  second seed gives the value of \<open>hashword\<close> first.
\<close>

theorem hashword_by_words:
  "hashword (key_words load32le m key n) initval = hashlittle mach valgrind m key (4 * n) initval \<and>
   hashword (key_words load32be m key n) initval = hashbig mach valgrind m key (4 * n) initval \<and>
   fst (hashword2 ks initval 0) = hashword ks initval"
proof -
  have len: "length (key_words ld m key n) = n" for ld by (simp add: key_words_def)
  have "hash_words (key_words load32le m key n) (a, b, c) = lookup3 le_word (map m [key..<key + 4 * n]) (a, b, c)"
    "hash_words (key_words load32be m key n) (a, b, c) = lookup3 be_word (map m [key..<key + 4 * n]) (a, b, c)" for a b c
    by (rule hash_words_key; simp add: le_word_bytes be_word_bytes load32le_def load32be_def)+
  then have "hashword (key_words load32le m key n) initval = hashlittle mach valgrind m key (4 * n) initval"
    "hashword (key_words load32be m key n) initval = hashbig mach valgrind m key (4 * n) initval"
    by (simp_all add: hashword_eq hashlittle_def hashlittle_state_eq hashbig_eq len Let_def split: prod.splits)
  moreover have "fst (hashword2 ks initval 0) = hashword ks initval"
    unfolding hashword2_def length_word2 by (simp add: hashword_eq hash_words_def Let_def split: prod.splits)
  ultimately show ?thesis by blast
qed

text \<open>One step of the mixing and its inverse, on the variables in rotated order.\<close>

definition mix_step :: "nat \<Rightarrow> abc \<Rightarrow> abc" where
  "mix_step k = (\<lambda>(a, b, c). (b, c + b, (a - c) XOR rot c k))"

definition final_step :: "nat \<Rightarrow> abc \<Rightarrow> abc" where
  "final_step k = (\<lambda>(a, b, c). (b, (c XOR b) - rot b k, a))"

lemma xor_cancel: "(x XOR y) XOR y = (x :: u32)"
  by (simp add: xor.assoc)

lemma bij_mix_step: "bij (mix_step k)"
  by (rule o_bij [of "\<lambda>(b, c, a). let c = c - b in ((a XOR rot c k) + c, b, c)"])
     (auto simp: mix_step_def Let_def fun_eq_iff xor_cancel)

lemma bij_final_step: "bij (final_step k)"
  by (rule o_bij [of "\<lambda>(b, c, a). (a, b, (c + rot b k) XOR b)"])
     (auto simp: final_step_def fun_eq_iff xor_cancel)

lemma mix_by_steps: "mix = mix_step 4 \<circ> mix_step 19 \<circ> mix_step 16 \<circ> mix_step 8 \<circ> mix_step 6 \<circ> mix_step 4"
  by (rule ext) (simp add: mix_def mix_step_def Let_def split: prod.splits)

definition turn :: "abc \<Rightarrow> abc" where
  "turn = (\<lambda>(a, b, c). (c, a, b))"

lemma bij_turn: "bij turn"
  by (rule o_bij [of "\<lambda>(c, a, b). (a, b, c)"]) (auto simp: turn_def fun_eq_iff)

lemma final_by_steps:
  "final_mix = turn \<circ> final_step 24 \<circ> final_step 14 \<circ> final_step 4 \<circ> final_step 16 \<circ> final_step 25 \<circ>
     final_step 11 \<circ> final_step 14"
  by (rule ext) (simp add: final_mix_def final_step_def turn_def Let_def split: prod.splits)

text \<open>
  Mixing loses no information.  As the source says, \<open>mix\<close> is reversible, and so is the
  final mixing: each is a bijection on the three words.
\<close>

theorem mix_reversible: "bij mix \<and> bij final_mix"
  unfolding mix_by_steps final_by_steps
  by (intro conjI bij_comp bij_mix_step bij_final_step bij_turn)

end
