(* ===== verification/Knobs.thy ===== *)
theory Knobs
  imports Complex_Main Flow_Util
begin

text \<open>
  The tuning knobs (\<open>src/flow/Knobs.h\<close>, \<open>src/flow/Knobs.cpp\<close>).  The members of \<open>FlowKnobs\<close> are named by
  their fields; the maps of \<open>Knobs\<close> hold, for the lower-case name of a knob, a pointer to its member.
  A \<open>double\<close> is the real number it stands for, before rounding.  The conversion \<open>%lf\<close> of \<open>sscanf\<close> is a
  parameter: the number read and the count of characters consumed, or \<open>None\<close>.  The answers of \<open>BUGGIFY\<close>
  and the results of \<open>random01\<close> are sequences that the constructor consumes.
\<close>

subsection \<open>Registry and members\<close>

datatype knob_type = Double_knob | Int64_knob | Int_knob

datatype knob_value = Double_val real | Int64_val int | Int_val int | String_val bytes

record knobs =
  double_knobs :: "string \<Rightarrow> string option"
  int64_knobs :: "string \<Rightarrow> string option"
  int_knobs :: "string \<Rightarrow> string option"
  string_knobs :: "string \<Rightarrow> string option"
  members :: "string \<Rightarrow> knob_value option"

definition lower_char :: "char \<Rightarrow> char" where
  "lower_char c =
     (let n = of_char c :: nat in if 65 \<le> n \<and> n \<le> 90 then char_of (n - 65 + 97) else c)"

fun toLower :: "string \<Rightarrow> string" where
  "toLower [] = []"
| "toLower (c # cs) = lower_char c # toLower cs"

text \<open>The overloads of \<open>initKnob\<close>, one for each type of member; a literal converts to that type.\<close>

definition trunc :: "real \<Rightarrow> int" where
  "trunc r = (if 0 \<le> r then \<lfloor>r\<rfloor> else \<lceil>r\<rceil>)"

fun convert :: "knob_type \<Rightarrow> real \<Rightarrow> knob_value" where
  "convert Double_knob r = Double_val r"
| "convert Int64_knob r = Int64_val (trunc r)"
| "convert Int_knob r = Int_val (trunc r)"

fun initKnob :: "knob_type \<Rightarrow> real \<Rightarrow> string \<Rightarrow> knobs \<Rightarrow> knobs" where
  "initKnob Double_knob v name s = s\<lparr>members := (members s)(name \<mapsto> convert Double_knob v),
     double_knobs := (double_knobs s)(toLower name \<mapsto> name)\<rparr>"
| "initKnob Int64_knob v name s = s\<lparr>members := (members s)(name \<mapsto> convert Int64_knob v),
     int64_knobs := (int64_knobs s)(toLower name \<mapsto> name)\<rparr>"
| "initKnob Int_knob v name s = s\<lparr>members := (members s)(name \<mapsto> convert Int_knob v),
     int_knobs := (int_knobs s)(toLower name \<mapsto> name)\<rparr>"

definition initKnob_string :: "bytes \<Rightarrow> string \<Rightarrow> knobs \<Rightarrow> knobs" where
  "initKnob_string v name s = s\<lparr>members := (members s)(name \<mapsto> String_val v),
     string_knobs := (string_knobs s)(toLower name \<mapsto> name)\<rparr>"

subsection \<open>FlowKnobs\<close>

text \<open>The members of the class with their types.\<close>

definition flow_knobs_fields :: "(string \<times> knob_type) list" where
  "flow_knobs_fields =
    [(''AUTOMATIC_TRACE_DUMP'', Int_knob),
     (''PREVENT_FAST_SPIN_DELAY'', Double_knob),
     (''CACHE_REFRESH_INTERVAL_WHEN_ALL_ALTERNATIVES_FAILED'', Double_knob),
     (''DELAY_JITTER_OFFSET'', Double_knob),
     (''DELAY_JITTER_RANGE'', Double_knob),
     (''BUSY_WAIT_THRESHOLD'', Double_knob),
     (''CLIENT_REQUEST_INTERVAL'', Double_knob),
     (''SERVER_REQUEST_INTERVAL'', Double_knob),
     (''DISABLE_ASSERTS'', Int_knob),
     (''QUEUE_MODEL_SMOOTHING_AMOUNT'', Double_knob),
     (''RANDOMSEED_RETRY_LIMIT'', Int_knob),
     (''FAST_ALLOC_LOGGING_BYTES'', Double_knob),
     (''HUGE_ARENA_LOGGING_BYTES'', Double_knob),
     (''HUGE_ARENA_LOGGING_INTERVAL'', Double_knob),
     (''SLOWTASK_PROFILING_INTERVAL'', Double_knob),
     (''SLOWTASK_PROFILING_MAX_LOG_INTERVAL'', Double_knob),
     (''SLOWTASK_PROFILING_LOG_BACKOFF'', Double_knob),
     (''CONNECTION_MONITOR_LOOP_TIME'', Double_knob),
     (''CONNECTION_MONITOR_TIMEOUT'', Double_knob),
     (''CONNECTION_REJECTED_MESSAGE_DELAY'', Double_knob),
     (''CONNECTION_ID_TIMEOUT'', Double_knob),
     (''CONNECTION_CLEANUP_DELAY'', Double_knob),
     (''INITIAL_RECONNECTION_TIME'', Double_knob),
     (''MAX_RECONNECTION_TIME'', Double_knob),
     (''RECONNECTION_TIME_GROWTH_RATE'', Double_knob),
     (''RECONNECTION_RESET_TIME'', Double_knob),
     (''CONNECTION_ACCEPT_DELAY'', Double_knob),
     (''TLS_CERT_REFRESH_DELAY_SECONDS'', Int_knob),
     (''PAGE_CACHE_4K'', Int64_knob),
     (''PAGE_CACHE_64K'', Int64_knob),
     (''SIM_PAGE_CACHE_4K'', Int64_knob),
     (''SIM_PAGE_CACHE_64K'', Int64_knob),
     (''BUGGIFY_SIM_PAGE_CACHE_4K'', Int64_knob),
     (''BUGGIFY_SIM_PAGE_CACHE_64K'', Int64_knob),
     (''MAX_EVICT_ATTEMPTS'', Int_knob),
     (''PAGE_CACHE_TRUNCATE_LOOKUP_FRACTION'', Double_knob),
     (''TOO_MANY_CONNECTIONS_CLOSED_RESET_DELAY'', Double_knob),
     (''TOO_MANY_CONNECTIONS_CLOSED_TIMEOUT'', Int_knob),
     (''MAX_OUTSTANDING'', Int_knob),
     (''MIN_SUBMIT'', Int_knob),
     (''PAGE_WRITE_CHECKSUM_HISTORY'', Int_knob),
     (''DISABLE_POSIX_KERNEL_AIO'', Int_knob),
     (''MAX_PRIOR_MODIFICATION_DELAY'', Double_knob),
     (''MAX_DELIVER_DUPLICATE_DELAY'', Double_knob),
     (''BUGGIFY_FLOW_LOCK_RELEASE_DELAY'', Double_knob),
     (''INCREMENTAL_DELETE_TRUNCATE_AMOUNT'', Int64_knob),
     (''INCREMENTAL_DELETE_INTERVAL'', Double_knob),
     (''MIN_COALESCE_DELAY'', Double_knob),
     (''MAX_COALESCE_DELAY'', Double_knob),
     (''SLOW_LOOP_CUTOFF'', Double_knob),
     (''SLOW_LOOP_SAMPLING_RATE'', Double_knob),
     (''TSC_YIELD_TIME'', Int64_knob),
     (''REACTOR_FLAGS'', Int64_knob),
     (''PACKET_LIMIT'', Int64_knob),
     (''PACKET_WARNING'', Int64_knob),
     (''TIME_OFFSET_LOGGING_INTERVAL'', Double_knob),
     (''MIN_OPEN_TIME'', Double_knob),
     (''MAX_OPEN_TIME'', Double_knob),
     (''SIM_DISK_IOPS'', Int64_knob),
     (''SIM_DISK_BANDWIDTH'', Int64_knob),
     (''MIN_NETWORK_LATENCY'', Double_knob),
     (''FAST_NETWORK_LATENCY'', Double_knob),
     (''SLOW_NETWORK_LATENCY'', Double_knob),
     (''MAX_CLOGGING_LATENCY'', Double_knob),
     (''MAX_BUGGIFIED_DELAY'', Double_knob),
     (''ZERO_LENGTH_FILE_PAD'', Int_knob),
     (''TRACE_FLUSH_INTERVAL'', Double_knob),
     (''TRACE_RETRY_OPEN_INTERVAL'', Double_knob),
     (''MIN_TRACE_SEVERITY'', Int_knob),
     (''MAX_TRACE_SUPPRESSIONS'', Int_knob),
     (''TRACE_SYNC_ENABLED'', Int_knob),
     (''TRACE_EVENT_METRIC_UNITS_PER_SAMPLE'', Int_knob),
     (''TRACE_EVENT_THROTTLER_SAMPLE_EXPIRY'', Int_knob),
     (''TRACE_EVENT_THROTTLER_MSG_LIMIT'', Int_knob),
     (''MAX_METRIC_SIZE'', Int64_knob),
     (''MAX_METRIC_LEVEL'', Int64_knob),
     (''METRIC_LEVEL_DIVISOR'', Double_knob),
     (''METRIC_LIMIT_START_QUEUE_SIZE'', Int_knob),
     (''METRIC_LIMIT_RESPONSE_FACTOR'', Int_knob),
     (''MAX_METRICS'', Int_knob),
     (''LOAD_BALANCE_MAX_BACKOFF'', Double_knob),
     (''LOAD_BALANCE_START_BACKOFF'', Double_knob),
     (''LOAD_BALANCE_BACKOFF_RATE'', Double_knob),
     (''MAX_LAGGING_REQUESTS_OUTSTANDING'', Int64_knob),
     (''INSTANT_SECOND_REQUEST_MULTIPLIER'', Double_knob),
     (''BASE_SECOND_REQUEST_TIME'', Double_knob),
     (''SECOND_REQUEST_MULTIPLIER_GROWTH'', Double_knob),
     (''SECOND_REQUEST_MULTIPLIER_DECAY'', Double_knob),
     (''SECOND_REQUEST_BUDGET_GROWTH'', Double_knob),
     (''SECOND_REQUEST_MAX_BUDGET'', Double_knob),
     (''ALTERNATIVES_FAILURE_RESET_TIME'', Double_knob),
     (''ALTERNATIVES_FAILURE_MAX_DELAY'', Double_knob),
     (''ALTERNATIVES_FAILURE_MIN_DELAY'', Double_knob),
     (''ALTERNATIVES_FAILURE_DELAY_RATIO'', Double_knob),
     (''FUTURE_VERSION_INITIAL_BACKOFF'', Double_knob),
     (''FUTURE_VERSION_MAX_BACKOFF'', Double_knob),
     (''FUTURE_VERSION_BACKOFF_GROWTH'', Double_knob)]"

text \<open>
  The constructor.  Each of its lines initialises a member with a literal and may then, if \<open>randomize\<close>
  and \<open>BUGGIFY\<close> are true, assign it another number, one of two numbers, or a random fraction of one.
\<close>

datatype buggify = No_buggify | Buggify real | Buggify_else real real | Buggify_random real

definition flow_knobs_lines :: "bool \<Rightarrow> (string \<times> real \<times> buggify) list" where
  "flow_knobs_lines isSimulated =
    [(''AUTOMATIC_TRACE_DUMP'', 1, No_buggify),
     (''PREVENT_FAST_SPIN_DELAY'', 1 / 100, No_buggify),
     (''CACHE_REFRESH_INTERVAL_WHEN_ALL_ALTERNATIVES_FAILED'', 1, No_buggify),
     (''DELAY_JITTER_OFFSET'', 9 / 10, No_buggify),
     (''DELAY_JITTER_RANGE'', 2 / 10, No_buggify),
     (''BUSY_WAIT_THRESHOLD'', 0, No_buggify),
     (''CLIENT_REQUEST_INTERVAL'', 1 / 10, Buggify (1)),
     (''SERVER_REQUEST_INTERVAL'', 1 / 10, Buggify (1)),
     (''REACTOR_FLAGS'', 0, No_buggify),
     (''DISABLE_ASSERTS'', 0, No_buggify),
     (''QUEUE_MODEL_SMOOTHING_AMOUNT'', 2, No_buggify),
     (''SLOWTASK_PROFILING_INTERVAL'', 125 / 1000, No_buggify),
     (''SLOWTASK_PROFILING_MAX_LOG_INTERVAL'', 1, No_buggify),
     (''SLOWTASK_PROFILING_LOG_BACKOFF'', 2, No_buggify),
     (''RANDOMSEED_RETRY_LIMIT'', 4, No_buggify),
     (''FAST_ALLOC_LOGGING_BYTES'', 10000000, No_buggify),
     (''HUGE_ARENA_LOGGING_BYTES'', 100000000, No_buggify),
     (''HUGE_ARENA_LOGGING_INTERVAL'', 5, No_buggify),
     (''CONNECTION_MONITOR_LOOP_TIME'', (if isSimulated then 75 / 100 else 1), Buggify (6)),
     (''CONNECTION_MONITOR_TIMEOUT'', (if isSimulated then 15 / 10 else 2), Buggify (6)),
     (''CONNECTION_REJECTED_MESSAGE_DELAY'', 1, No_buggify),
     (''CONNECTION_ID_TIMEOUT'', 600, Buggify (60)),
     (''CONNECTION_CLEANUP_DELAY'', 100, No_buggify),
     (''INITIAL_RECONNECTION_TIME'', 5 / 100, No_buggify),
     (''MAX_RECONNECTION_TIME'', 5 / 10, No_buggify),
     (''RECONNECTION_TIME_GROWTH_RATE'', 12 / 10, No_buggify),
     (''RECONNECTION_RESET_TIME'', 5, No_buggify),
     (''CONNECTION_ACCEPT_DELAY'', 1 / 100, No_buggify),
     (''TOO_MANY_CONNECTIONS_CLOSED_RESET_DELAY'', 5, No_buggify),
     (''TOO_MANY_CONNECTIONS_CLOSED_TIMEOUT'', 20, No_buggify),
     (''TLS_CERT_REFRESH_DELAY_SECONDS'', 12 * 60 * 60, No_buggify),
     (''PAGE_CACHE_4K'', 2000 * 2 ^ 20, No_buggify),
     (''PAGE_CACHE_64K'', 200 * 2 ^ 20, No_buggify),
     (''SIM_PAGE_CACHE_4K'', 100000000, No_buggify),
     (''SIM_PAGE_CACHE_64K'', 10000000, No_buggify),
     (''BUGGIFY_SIM_PAGE_CACHE_4K'', 1000000, No_buggify),
     (''BUGGIFY_SIM_PAGE_CACHE_64K'', 1000000, No_buggify),
     (''MAX_EVICT_ATTEMPTS'', 100, Buggify (2)),
     (''PAGE_CACHE_TRUNCATE_LOOKUP_FRACTION'', 1 / 10, Buggify_else (0) (1)),
     (''MAX_OUTSTANDING'', 64, No_buggify),
     (''MIN_SUBMIT'', 10, No_buggify),
     (''PAGE_WRITE_CHECKSUM_HISTORY'', 0, Buggify (10000000)),
     (''DISABLE_POSIX_KERNEL_AIO'', 0, No_buggify),
     (''MAX_PRIOR_MODIFICATION_DELAY'', 1, Buggify (10)),
     (''MAX_DELIVER_DUPLICATE_DELAY'', 1, Buggify (10)),
     (''BUGGIFY_FLOW_LOCK_RELEASE_DELAY'', 1, No_buggify),
     (''INCREMENTAL_DELETE_TRUNCATE_AMOUNT'', 500000000, No_buggify),
     (''INCREMENTAL_DELETE_INTERVAL'', 1, No_buggify),
     (''MIN_COALESCE_DELAY'', 1 / 100000, Buggify (0)),
     (''MAX_COALESCE_DELAY'', 2 / 100000, Buggify (0)),
     (''SLOW_LOOP_CUTOFF'', 15 / 1000, No_buggify),
     (''SLOW_LOOP_SAMPLING_RATE'', 1 / 10, No_buggify),
     (''TSC_YIELD_TIME'', 1000000, No_buggify),
     (''PACKET_LIMIT'', 100 * 2 ^ 20, No_buggify),
     (''PACKET_WARNING'', 2 * 2 ^ 20, No_buggify),
     (''TIME_OFFSET_LOGGING_INTERVAL'', 60, No_buggify),
     (''MIN_OPEN_TIME'', 2 / 10000, No_buggify),
     (''MAX_OPEN_TIME'', 12 / 10000, No_buggify),
     (''SIM_DISK_IOPS'', 5000, No_buggify),
     (''SIM_DISK_BANDWIDTH'', 50000000, No_buggify),
     (''MIN_NETWORK_LATENCY'', 1 / 10000, No_buggify),
     (''FAST_NETWORK_LATENCY'', 8 / 10000, No_buggify),
     (''SLOW_NETWORK_LATENCY'', 1 / 10, No_buggify),
     (''MAX_CLOGGING_LATENCY'', 0, Buggify_random (1 / 10)),
     (''MAX_BUGGIFIED_DELAY'', 0, Buggify_random (2 / 10)),
     (''ZERO_LENGTH_FILE_PAD'', 1, No_buggify),
     (''TRACE_FLUSH_INTERVAL'', 25 / 100, No_buggify),
     (''TRACE_RETRY_OPEN_INTERVAL'', 1, No_buggify),
     (''MIN_TRACE_SEVERITY'', (if isSimulated then 0 else 10), No_buggify),
     (''MAX_TRACE_SUPPRESSIONS'', 10000, No_buggify),
     (''TRACE_SYNC_ENABLED'', 0, No_buggify),
     (''TRACE_EVENT_METRIC_UNITS_PER_SAMPLE'', 500, No_buggify),
     (''TRACE_EVENT_THROTTLER_SAMPLE_EXPIRY'', 1800, No_buggify),
     (''TRACE_EVENT_THROTTLER_MSG_LIMIT'', 20000, No_buggify),
     (''MAX_METRICS'', 600, No_buggify),
     (''MAX_METRIC_SIZE'', 2500, No_buggify),
     (''MAX_METRIC_LEVEL'', 25, No_buggify),
     (''METRIC_LEVEL_DIVISOR'', ln 4, No_buggify),
     (''METRIC_LIMIT_START_QUEUE_SIZE'', 10, No_buggify),
     (''METRIC_LIMIT_RESPONSE_FACTOR'', 10, No_buggify),
     (''LOAD_BALANCE_MAX_BACKOFF'', 5, No_buggify),
     (''LOAD_BALANCE_START_BACKOFF'', 1 / 100, No_buggify),
     (''LOAD_BALANCE_BACKOFF_RATE'', 2, No_buggify),
     (''MAX_LAGGING_REQUESTS_OUTSTANDING'', 100000, No_buggify),
     (''INSTANT_SECOND_REQUEST_MULTIPLIER'', 2, No_buggify),
     (''BASE_SECOND_REQUEST_TIME'', 5 / 10000, No_buggify),
     (''SECOND_REQUEST_MULTIPLIER_GROWTH'', 1 / 100, No_buggify),
     (''SECOND_REQUEST_MULTIPLIER_DECAY'', 25 / 100000, No_buggify),
     (''SECOND_REQUEST_BUDGET_GROWTH'', 5 / 100, No_buggify),
     (''SECOND_REQUEST_MAX_BUDGET'', 100, No_buggify),
     (''ALTERNATIVES_FAILURE_RESET_TIME'', 5, No_buggify),
     (''ALTERNATIVES_FAILURE_MAX_DELAY'', 1, No_buggify),
     (''ALTERNATIVES_FAILURE_MIN_DELAY'', 5 / 100, No_buggify),
     (''ALTERNATIVES_FAILURE_DELAY_RATIO'', 2 / 10, No_buggify),
     (''FUTURE_VERSION_INITIAL_BACKOFF'', 1, No_buggify),
     (''FUTURE_VERSION_MAX_BACKOFF'', 8, No_buggify),
     (''FUTURE_VERSION_BACKOFF_GROWTH'', 2, No_buggify)]"

record knob_run =
  kr_knobs :: knobs
  kr_coin :: nat
  kr_random :: nat

definition assign_knob :: "knob_type \<Rightarrow> string \<Rightarrow> real \<Rightarrow> knob_run \<Rightarrow> knob_run" where
  "assign_knob t name v r = r\<lparr>kr_knobs := (kr_knobs r)\<lparr>members := (members (kr_knobs r))(name \<mapsto> convert t v)\<rparr>\<rparr>"

text \<open>\<open>randomize && BUGGIFY\<close> asks \<open>BUGGIFY\<close> only if \<open>randomize\<close> is true.\<close>

definition next_coin :: "knob_run \<Rightarrow> knob_run" where
  "next_coin r = r\<lparr>kr_coin := Suc (kr_coin r)\<rparr>"

fun run_buggify :: "bool \<Rightarrow> (nat \<Rightarrow> bool) \<Rightarrow> (nat \<Rightarrow> real) \<Rightarrow> knob_type \<Rightarrow> string \<Rightarrow> buggify \<Rightarrow> knob_run \<Rightarrow> knob_run" where
  "run_buggify randomize bug rnd t name No_buggify r = r"
| "run_buggify randomize bug rnd t name (Buggify v) r =
     (if randomize
      then if bug (kr_coin r) then assign_knob t name v (next_coin r) else next_coin r
      else r)"
| "run_buggify randomize bug rnd t name (Buggify_else v w) r =
     (if randomize
      then if bug (kr_coin r) then assign_knob t name v (next_coin r)
           else if bug (Suc (kr_coin r)) then assign_knob t name w (next_coin (next_coin r))
           else next_coin (next_coin r)
      else r)"
| "run_buggify randomize bug rnd t name (Buggify_random v) r =
     (if randomize
      then if bug (kr_coin r)
           then (assign_knob t name (v * rnd (kr_random r)) (next_coin r))\<lparr>kr_random := Suc (kr_random r)\<rparr>
           else next_coin r
      else r)"

fun run_lines :: "bool \<Rightarrow> (nat \<Rightarrow> bool) \<Rightarrow> (nat \<Rightarrow> real) \<Rightarrow> (string \<Rightarrow> knob_type option) \<Rightarrow>
    (string \<times> real \<times> buggify) list \<Rightarrow> knob_run \<Rightarrow> knob_run" where
  "run_lines randomize bug rnd types [] r = r"
| "run_lines randomize bug rnd types ((name, v, b) # ls) r =
     (case types name of None \<Rightarrow> run_lines randomize bug rnd types ls r
      | Some t \<Rightarrow> run_lines randomize bug rnd types ls
          (run_buggify randomize bug rnd t name b (r\<lparr>kr_knobs := initKnob t v name (kr_knobs r)\<rparr>)))"

definition no_knobs :: knobs where
  "no_knobs = \<lparr>double_knobs = \<lambda>_. None, int64_knobs = \<lambda>_. None, int_knobs = \<lambda>_. None, string_knobs = \<lambda>_. None,
     members = \<lambda>_. None\<rparr>"

definition flow_knobs :: "bool \<Rightarrow> bool \<Rightarrow> (nat \<Rightarrow> bool) \<Rightarrow> (nat \<Rightarrow> real) \<Rightarrow> knobs" where
  "flow_knobs randomize isSimulated bug rnd =
     kr_knobs (run_lines randomize bug rnd (map_of flow_knobs_fields) (flow_knobs_lines isSimulated)
       \<lparr>kr_knobs = no_knobs, kr_coin = 0, kr_random = 0\<rparr>)"

subsection \<open>Setting a knob by name\<close>

text \<open>
  \<open>%lld\<close>: white space, a sign and decimal digits.  A number that does not fit the type is undefined
  behaviour.  The result is the number and what follows it, or \<open>None\<close> when nothing matches.
\<close>

definition scan_lld :: "bytes \<Rightarrow> (int \<times> bytes) option result" where
  "scan_lld s =
     (let (neg, s1) = scan_sign (dropWhile isspace s); ds = takeWhile isdigit s1;
          v = (if neg then - int (num_val 10 ds) else int (num_val 10 ds))
      in if ds = [] then Inr None
         else if v < - (2 ^ 63) \<or> 2 ^ 63 \<le> v then Inl Undefined_behaviour
         else Inr (Some (v, dropWhile isdigit s1)))"

text \<open>
  \<open>0x%llx\<close>: the two characters, white space, a sign, a second prefix or none, and hexadecimal digits.
  The unsigned number is stored in a signed 64-bit variable.
\<close>

definition scan_0x_llx :: "bytes \<Rightarrow> (int \<times> bytes) option result" where
  "scan_0x_llx s =
     (let (neg, s1) = scan_sign (dropWhile isspace (drop 2 s));
          pre = (case s1 of z # x # _ \<Rightarrow> z = 48 \<and> (x = 120 \<or> x = 88) | _ \<Rightarrow> False);
          s2 = (if pre then drop 2 s1 else s1);
          ds = takeWhile isxdigit s2; n = num_val 16 ds
      in if ds = [] then Inr None
         else if 2 ^ 64 \<le> n then Inl Undefined_behaviour
         else Inr (Some (sint (if neg then - word_of_nat n else word_of_nat n :: u64), dropWhile isxdigit s2)))"

text \<open>The value of the text, with nothing left over.\<close>

definition scan_all :: "bytes \<Rightarrow> (int \<times> bytes) option result \<Rightarrow> int result" where
  "scan_all value r =
     bind_result r (\<lambda>res.
       case res of None \<Rightarrow> Inl (Thrown 2006)
       | Some (v, rest) \<Rightarrow> if length (c_str value) - length rest \<noteq> length value then Inl (Thrown 2006) else Inr v)"

definition scan_knob_int :: "bytes \<Rightarrow> int result" where
  "scan_knob_int value =
     (if take 2 value = [48, 120] then scan_all value (scan_0x_llx (c_str value))
      else scan_all value (scan_lld (c_str value)))"

definition set_member :: "string \<Rightarrow> knob_value \<Rightarrow> knobs \<Rightarrow> knobs" where
  "set_member p v s = s\<lparr>members := (members s)(p \<mapsto> v)\<rparr>"

definition setKnob :: "(bytes \<Rightarrow> (real \<times> nat) option) \<Rightarrow> string \<Rightarrow> bytes \<Rightarrow> knobs \<Rightarrow> (bool \<times> knobs) result" where
  "setKnob scan_lf knob value s =
     (case double_knobs s knob of
        Some p \<Rightarrow>
          (case scan_lf (c_str value) of
             None \<Rightarrow> Inl (Thrown 2006)
           | Some (v, n) \<Rightarrow> if n \<noteq> length value then Inl (Thrown 2006) else Inr (True, set_member p (Double_val v) s))
      | None \<Rightarrow>
          if int64_knobs s knob \<noteq> None \<or> int_knobs s knob \<noteq> None
          then bind_result (scan_knob_int value) (\<lambda>v.
            case int64_knobs s knob of
              Some p \<Rightarrow> Inr (True, set_member p (Int64_val v) s)
            | None \<Rightarrow>
                (if v < - (2 ^ 31) \<or> v > 2 ^ 31 - 1 then Inl (Thrown 2006)
                 else Inr (True, set_member (the (int_knobs s knob)) (Int_val v) s)))
          else (case string_knobs s knob of
              Some p \<Rightarrow> Inr (True, set_member p (String_val value) s)
            | None \<Rightarrow> Inr (False, s)))"

subsection \<open>The tables\<close>

definition knob_chars :: string where
  "knob_chars = ''ABCDEFGHIJKLMNOPQRSTUVWXYZ0123456789_''"

lemma names_knob_chars: "list_all (\<lambda>n. list_all (\<lambda>c. c \<in> set knob_chars) n) (map fst flow_knobs_fields)"
  by code_simp

lemma lower_char_inj: "distinct (map lower_char knob_chars)"
  by code_simp

lemma fields_distinct: "distinct (map fst flow_knobs_fields)"
  by code_simp

text \<open>The line of the constructor that initialises each field.\<close>

definition field_line :: "nat list" where
  "field_line =
    [0, 1, 2, 3, 4, 5, 6, 7, 9, 10, 14, 15, 16, 17, 11, 12, 13, 18, 19, 20,
     21, 22, 23, 24, 25, 26, 27, 30, 31, 32, 33, 34, 35, 36, 37, 38, 28, 29, 39, 40,
     41, 42, 43, 44, 45, 46, 47, 48, 49, 50, 51, 52, 8, 53, 54, 55, 56, 57, 58, 59,
     60, 61, 62, 63, 64, 65, 66, 67, 68, 69, 70, 71, 72, 73, 75, 76, 77, 78, 79, 74,
     80, 81, 82, 83, 84, 85, 86, 87, 88, 89, 90, 91, 92, 93, 94, 95, 96]"

lemma field_line_correct: "map (nth (map fst (flow_knobs_lines isSimulated))) field_line = map fst flow_knobs_fields"
  unfolding flow_knobs_lines_def flow_knobs_fields_def field_line_def list.map fst_conv
  by simp

lemma field_has_line:
  assumes "n \<in> set (map fst flow_knobs_fields)"
  shows "n \<in> set (map fst (flow_knobs_lines isSimulated))"
proof -
  have "list_all (\<lambda>i. i < 97) field_line" by (simp add: field_line_def)
  moreover have "length (map fst (flow_knobs_lines isSimulated)) = 97" by (simp add: flow_knobs_lines_def)
  moreover obtain i where "i \<in> set field_line" "n = map fst (flow_knobs_lines isSimulated) ! i"
    using assms unfolding field_line_correct [of isSimulated, symmetric] by auto
  ultimately show ?thesis using nth_mem [of i "map fst (flow_knobs_lines isSimulated)"] by (simp add: list_all_iff)
qed

lemma line_names: "set (map fst (flow_knobs_lines isSimulated)) = set (map fst flow_knobs_fields)"
  and lines_distinct: "distinct (map fst (flow_knobs_lines isSimulated))"
proof -
  let ?l = "map fst (flow_knobs_lines isSimulated)" and ?f = "map fst flow_knobs_fields"
  have sub: "set ?f \<subseteq> set ?l" using field_has_line by blast
  have len: "length ?l = 97" "length ?f = 97" by (simp_all add: flow_knobs_lines_def flow_knobs_fields_def)
  have "card (set ?f) = 97" using distinct_card [OF fields_distinct] len by simp
  moreover have "card (set ?l) \<le> 97" using card_length [of ?l] len by simp
  ultimately have "card (set ?l) \<le> card (set ?f)" by simp
  then show eq: "set ?l = set ?f" using card_seteq [OF finite_set sub] by blast
  then show "distinct ?l" using \<open>card (set ?f) = 97\<close> len by (intro card_distinct) simp
qed

lemma toLower_map: "toLower s = map lower_char s"
  by (induction s) simp_all

lemma toLower_inj: "inj_on toLower (set (map fst flow_knobs_fields))"
proof (rule inj_onI)
  fix x y
  assume "x \<in> set (map fst flow_knobs_fields)" "y \<in> set (map fst flow_knobs_fields)"
  then have "set x \<union> set y \<subseteq> set knob_chars" using names_knob_chars by (auto simp: list_all_iff)
  moreover have "inj_on lower_char (set knob_chars)" using lower_char_inj by (simp add: distinct_map)
  ultimately have "inj_on lower_char (set x \<union> set y)" by (metis inj_on_subset)
  moreover assume "toLower x = toLower y"
  ultimately show "x = y" by (simp add: toLower_map map_inj_on)
qed

lemma lower_lines_distinct: "distinct (map (\<lambda>l. toLower (fst l)) (flow_knobs_lines isSimulated))"
proof -
  have "distinct (map toLower (map fst (flow_knobs_lines isSimulated)))"
    using lines_distinct [of isSimulated] toLower_inj unfolding line_names [symmetric, of isSimulated]
    by (subst distinct_map) blast
  then show ?thesis by (simp add: comp_def)
qed

subsection \<open>Construction\<close>

text \<open>The map that a member of each type is registered in.\<close>

fun registry :: "knob_type \<Rightarrow> knobs \<Rightarrow> string \<Rightarrow> string option" where
  "registry Double_knob s = double_knobs s"
| "registry Int64_knob s = int64_knobs s"
| "registry Int_knob s = int_knobs s"

lemma initKnob_effect [simp]:
  "registry t' (initKnob t v n s) k = (if t' = t \<and> k = toLower n then Some n else registry t' s k)"
  "members (initKnob t v n s) = (members s)(n \<mapsto> convert t v)"
  "string_knobs (initKnob t v n s) = string_knobs s"
  by (cases t; cases t'; simp)+

lemma assign_knob_effect [simp]:
  "registry t' (kr_knobs (assign_knob t n v r)) = registry t' (kr_knobs r)"
  "members (kr_knobs (assign_knob t n v r)) = (members (kr_knobs r))(n \<mapsto> convert t v)"
  "string_knobs (kr_knobs (assign_knob t n v r)) = string_knobs (kr_knobs r)"
  "kr_knobs (next_coin r) = kr_knobs r"
  by (cases t'; simp add: assign_knob_def next_coin_def)+

text \<open>The numbers a line can leave in its member.\<close>

fun possible :: "bool \<Rightarrow> (nat \<Rightarrow> real) \<Rightarrow> real \<Rightarrow> buggify \<Rightarrow> real \<Rightarrow> bool" where
  "possible randomize rnd v No_buggify x \<longleftrightarrow> x = v"
| "possible randomize rnd v (Buggify w) x \<longleftrightarrow> x = v \<or> randomize \<and> x = w"
| "possible randomize rnd v (Buggify_else w u) x \<longleftrightarrow> x = v \<or> randomize \<and> (x = w \<or> x = u)"
| "possible randomize rnd v (Buggify_random w) x \<longleftrightarrow> x = v \<or> randomize \<and> (\<exists>i. x = w * rnd i)"

lemma run_buggify_effect:
  "registry t' (kr_knobs (run_buggify randomize bug rnd t n b r)) = registry t' (kr_knobs r)"
  "string_knobs (kr_knobs (run_buggify randomize bug rnd t n b r)) = string_knobs (kr_knobs r)"
  "m \<noteq> n \<Longrightarrow> members (kr_knobs (run_buggify randomize bug rnd t n b r)) m = members (kr_knobs r) m"
  by (cases b; simp)+

lemma run_buggify_value:
  assumes "members (kr_knobs r) n = Some (convert t v)"
  shows "\<exists>x. possible randomize rnd v b x \<and> members (kr_knobs (run_buggify randomize bug rnd t n b r)) n = Some (convert t x)"
  using assms by (cases b) auto

lemma run_lines_frame:
  "k \<notin> toLower ` set (map fst ls) \<Longrightarrow> registry t' (kr_knobs (run_lines randomize bug rnd types ls r)) k = registry t' (kr_knobs r) k"
  "string_knobs (kr_knobs (run_lines randomize bug rnd types ls r)) = string_knobs (kr_knobs r)"
  "n \<notin> set (map fst ls) \<Longrightarrow> members (kr_knobs (run_lines randomize bug rnd types ls r)) n = members (kr_knobs r) n"
  by (induction ls arbitrary: r)
     (auto simp: run_buggify_effect split: option.splits)

lemma run_lines_line:
  assumes "distinct (map (\<lambda>l. toLower (fst l)) ls)" and "(n, v, b) \<in> set ls" and "types n = Some t"
  shows "registry t' (kr_knobs (run_lines randomize bug rnd types ls r)) (toLower n) =
      (if t' = t then Some n else registry t' (kr_knobs r) (toLower n)) \<and>
    (\<exists>x. possible randomize rnd v b x \<and> members (kr_knobs (run_lines randomize bug rnd types ls r)) n = Some (convert t x))"
  using assms
proof (induction ls arbitrary: r)
  case (Cons l ls)
  obtain n' v' b' where l: "l = (n', v', b')" by (cases l)
  show ?case
  proof (cases "(n, v, b) = l")
    case True
    let ?r = "run_buggify randomize bug rnd t n b (r\<lparr>kr_knobs := initKnob t v n (kr_knobs r)\<rparr>)"
    have "toLower n \<notin> toLower ` set (map fst ls)" "n \<notin> set (map fst ls)"
      using Cons.prems(1) True by (force simp: image_image)+
    then show ?thesis
      using run_lines_frame(1) [of "toLower n" ls t' randomize bug rnd types ?r]
        run_lines_frame(3) [of n ls randomize bug rnd types ?r]
        run_buggify_value [of "r\<lparr>kr_knobs := initKnob t v n (kr_knobs r)\<rparr>" n t v randomize rnd b bug]
        Cons.prems(3) True
      by (simp add: True [symmetric] run_buggify_effect)
  next
    case False
    then have "(n, v, b) \<in> set ls" "toLower n \<noteq> toLower n'" using Cons.prems(1,2) l by force+
    moreover have "distinct (map (\<lambda>l. toLower (fst l)) ls)" using Cons.prems(1) by (simp add: comp_def)
    ultimately show ?thesis
      using Cons.IH Cons.prems(3) by (auto simp: l run_buggify_effect split: option.splits)
  qed
qed simp

lemma flow_knobs_member:
  assumes "(n, t) \<in> set flow_knobs_fields"
  shows "\<exists>v b x. (n, v, b) \<in> set (flow_knobs_lines isSimulated) \<and> possible randomize rnd v b x \<and>
      members (flow_knobs randomize isSimulated bug rnd) n = Some (convert t x) \<and>
      (\<forall>t'. registry t' (flow_knobs randomize isSimulated bug rnd) (toLower n) = (if t' = t then Some n else None))"
proof -
  have "n \<in> set (map fst (flow_knobs_lines isSimulated))" using assms unfolding line_names by force
  then obtain v b where l: "(n, v, b) \<in> set (flow_knobs_lines isSimulated)" by auto
  have t: "map_of flow_knobs_fields n = Some t" using assms fields_distinct by simp
  have none: "registry t' no_knobs k = None" for t' k by (cases t') (simp_all add: no_knobs_def)
  show ?thesis
    using run_lines_line [where types = "map_of flow_knobs_fields", OF lower_lines_distinct l t] l
    unfolding flow_knobs_def by (simp add: none) blast
qed

text \<open>No line can leave a negative number.\<close>

fun line_nonnegative :: "string \<times> real \<times> buggify \<Rightarrow> bool" where
  "line_nonnegative (n, v, No_buggify) \<longleftrightarrow> 0 \<le> v"
| "line_nonnegative (n, v, Buggify w) \<longleftrightarrow> 0 \<le> v \<and> 0 \<le> w"
| "line_nonnegative (n, v, Buggify_else w u) \<longleftrightarrow> 0 \<le> v \<and> 0 \<le> w \<and> 0 \<le> u"
| "line_nonnegative (n, v, Buggify_random w) \<longleftrightarrow> 0 \<le> v \<and> 0 \<le> w"

lemma lines_nonnegative: "list_all line_nonnegative (flow_knobs_lines isSimulated)"
  unfolding flow_knobs_lines_def by simp

lemma possible_nonnegative:
  assumes "possible randomize rnd v b x" and "line_nonnegative (n, v, b)" and "\<And>i. 0 \<le> rnd i"
  shows "0 \<le> x"
  using assms by (cases b) auto

text \<open>
  Property C37: the knobs are complete and well typed.  However \<open>BUGGIFY\<close> and \<open>random01\<close> answer, the
  constructor initialises every declared member with a value of its type, which is the number of its
  line or, under \<open>randomize\<close> only, one of the line's other numbers, and is never negative; and it
  registers the member under its lower-case name in the map of its type and in no other.
\<close>

theorem flow_knobs_complete:
  assumes "(n, t) \<in> set flow_knobs_fields" and "\<And>i. 0 \<le> rnd i"
  shows "\<exists>v b x. (n, v, b) \<in> set (flow_knobs_lines isSimulated) \<and> possible randomize rnd v b x \<and> 0 \<le> x \<and>
      members (flow_knobs randomize isSimulated bug rnd) n = Some (convert t x) \<and>
      (\<forall>t'. registry t' (flow_knobs randomize isSimulated bug rnd) (toLower n) = (if t' = t then Some n else None))"
proof -
  obtain v b x where "(n, v, b) \<in> set (flow_knobs_lines isSimulated)" "possible randomize rnd v b x"
      "members (flow_knobs randomize isSimulated bug rnd) n = Some (convert t x) \<and>
      (\<forall>t'. registry t' (flow_knobs randomize isSimulated bug rnd) (toLower n) = (if t' = t then Some n else None))"
    using flow_knobs_member [OF assms(1)] by blast
  moreover from this have "line_nonnegative (n, v, b)"
    using lines_nonnegative [of isSimulated] unfolding list_all_iff by blast
  ultimately show ?thesis using possible_nonnegative assms(2) by blast
qed

theorem flow_knobs_complete_witness:
  "\<exists>x. 0 \<le> x \<and> members (flow_knobs True False (\<lambda>i. even i) (\<lambda>_. 1 / 2)) ''MAX_METRICS'' = Some (convert Int_knob x)"
proof -
  have "(''MAX_METRICS'', Int_knob) \<in> set flow_knobs_fields" by (simp add: flow_knobs_fields_def)
  then show ?thesis using flow_knobs_complete [of "''MAX_METRICS''" Int_knob "\<lambda>_. 1 / 2" False True "\<lambda>i. even i"] by auto
qed

text \<open>The text of an integer.\<close>

lemma scan_decimal:
  assumes "\<forall>d \<in> set ds. isdigit d" and "ds \<noteq> []" and v: "v = (if neg then - int (num_val 10 ds) else int (num_val 10 ds))"
    and "- (2 ^ 63) \<le> v" and "v < 2 ^ 63"
  shows "scan_knob_int (if neg then 45 # ds else ds) = Inr v"
proof -
  let ?s = "if neg then 45 # ds else ds"
  have nz: "0 \<notin> set ds" using assms(1) by (auto simp: isdigit_def)
  obtain d ds' where d: "ds = d # ds'" "isdigit d" using assms(1,2) by (cases ds) auto
  have plain: "\<not> isspace d" "d \<noteq> 45" "d \<noteq> 43" "\<not> isspace 45" "\<not> isdigit 120"
    using d(2) by (auto simp: isdigit_def isspace_def word_le_nat_alt)
  have hex: "take 2 ?s \<noteq> [48, 120]"
    using d assms(1) plain(5) by (cases ds') (auto simp: numeral_2_eq_2)
  have cs: "c_str ?s = ?s" using nz by (intro c_str_id) auto
  have sign: "scan_sign (dropWhile isspace ?s) = (neg, ds)" using d plain by (auto simp: scan_sign_def)
  have tw: "takeWhile isdigit ds = ds" "dropWhile isdigit ds = []"
    using takeWhile_digits [OF assms(1), of "[]"] by simp_all
  have "scan_lld ?s = Inr (Some (v, []))"
    unfolding scan_lld_def sign Let_def prod.case tw using assms(2,4,5) by (simp add: v)
  then show ?thesis unfolding scan_knob_int_def scan_all_def cs using hex by simp
qed

text \<open>
  \<open>setKnob\<close> on the constructed knobs.  A declared knob is found by its lower-case name and
  only its own member changes: an integer knob takes the number of a decimal text that fits, a text
  beyond 32 bits for an \<open>int\<close> is refused with \<open>invalid_option_value\<close>, and a \<open>double\<close> takes the number read
  exactly if the whole text was read.  An undeclared name is reported and nothing changes.
\<close>

theorem setKnob_correct:
  assumes "\<forall>d \<in> set ds. isdigit d" and "ds \<noteq> []"
    and "v = (if neg then - int (num_val 10 ds) else int (num_val 10 ds))" and "- (2 ^ 63) \<le> v" and "v < 2 ^ 63"
    and "K = flow_knobs randomize isSimulated bug rnd" and "(n, t) \<in> set flow_knobs_fields"
    and "m \<notin> toLower ` set (map fst flow_knobs_fields)"
  shows "(t = Int64_knob \<longrightarrow>
        setKnob lf (toLower n) (if neg then 45 # ds else ds) K = Inr (True, set_member n (Int64_val v) K)) \<and>
      (t = Int_knob \<longrightarrow>
        setKnob lf (toLower n) (if neg then 45 # ds else ds) K =
          (if - (2 ^ 31) \<le> v \<and> v < 2 ^ 31 then Inr (True, set_member n (Int_val v) K) else Inl (Thrown 2006))) \<and>
      (t = Double_knob \<longrightarrow>
        setKnob lf (toLower n) value K =
          (case lf (c_str value) of
             Some (d, l) \<Rightarrow> if l = length value then Inr (True, set_member n (Double_val d) K) else Inl (Thrown 2006)
           | None \<Rightarrow> Inl (Thrown 2006))) \<and>
      setKnob lf m value K = Inr (False, K)"
proof -
  have reg: "registry t' K (toLower n) = (if t' = t then Some n else None)" for t'
    using flow_knobs_member [OF assms(7)] unfolding assms(6) by blast
  have maps: "double_knobs K (toLower n) = (if t = Double_knob then Some n else None)"
      "int64_knobs K (toLower n) = (if t = Int64_knob then Some n else None)"
      "int_knobs K (toLower n) = (if t = Int_knob then Some n else None)"
    using reg [of Double_knob] reg [of Int64_knob] reg [of Int_knob] by (simp_all split: if_splits)
  have none: "registry t' no_knobs k = None" "string_knobs no_knobs k = None" for t' k
    by (cases t'; simp add: no_knobs_def)+
  have "registry t' K m = None" for t'
    unfolding assms(6) flow_knobs_def using assms(8)
    by (subst run_lines_frame(1)) (simp_all add: line_names [unfolded set_map] none)
  then have m: "double_knobs K m = None" "int64_knobs K m = None" "int_knobs K m = None" "string_knobs K m = None"
    using run_lines_frame(2) [of randomize bug rnd "map_of flow_knobs_fields" "flow_knobs_lines isSimulated"] none
    by (simp_all add: assms(6) flow_knobs_def) (metis registry.simps)+
  have scan: "scan_knob_int (if neg then 45 # ds else ds) = Inr v" using scan_decimal [OF assms(1-5)] .
  show ?thesis
    using maps m scan by (auto simp: setKnob_def split: option.splits)
qed

theorem setKnob_correct_witness:
  "\<exists>K. setKnob (\<lambda>_. None) ''max_metrics'' (lit ''-12'') K = Inr (True, set_member ''MAX_METRICS'' (Int_val (- 12)) K)"
proof -
  let ?K = "flow_knobs False False (\<lambda>_. False) (\<lambda>_. 0)"
  have n: "(''MAX_METRICS'', Int_knob) \<in> set flow_knobs_fields" by (simp add: flow_knobs_fields_def)
  have "[] \<notin> toLower ` set (map fst flow_knobs_fields)" by (simp add: flow_knobs_fields_def)
  moreover have "toLower ''MAX_METRICS'' = ''max_metrics''" by code_simp
  moreover have "lit ''-12'' = 45 # [49, 50]" by (simp add: lit_def)
  ultimately show ?thesis
    using setKnob_correct [of "[49, 50]" "- 12" True ?K False False "\<lambda>_. False" "\<lambda>_. 0" "''MAX_METRICS''" Int_knob "[]" "\<lambda>_. None"] n
    by (auto simp: isdigit_def num_val_def digit_val_def intro!: exI [of _ ?K])
qed

end
