(* ===== verification/Flow_Random.thy ===== *)
theory Flow_Random
  imports Complex_Main Flow_Prelude "HOL-Library.Multiset"
begin

text \<open>
  Random numbers (\<open>src/flow/IRandom.h\<close>, \<open>src/flow/DeterministicRandom.h\<close>).  The engine \<open>std::mt19937\<close> is a
  sequence of 32-bit numbers that the generator consumes; the two draws of one expression, which C++
  leaves unordered, are taken from left to right.  Integers are mathematical with their wrap-around
  written out; a signed result that does not fit is undefined behaviour.  The log file \<open>randLog\<close> is
  left out.
\<close>

unbundle bit_operations_syntax

subsection \<open>The generator\<close>

record rng =
  rng_drawn :: nat
  rng_next :: u64

definition two_draws :: "(nat \<Rightarrow> u32) \<Rightarrow> nat \<Rightarrow> u64" where
  "two_draws engine i = push_bit 32 (ucast (engine i)) XOR ucast (engine (i + 1))"

definition deterministicRandom :: "(nat \<Rightarrow> u32) \<Rightarrow> u32 \<Rightarrow> rng result" where
  "deterministicRandom engine seed =
     bind_result (assert_that (seed \<noteq> 0)) (\<lambda>_. Inr \<lparr>rng_drawn = 2, rng_next = two_draws engine 0\<rparr>)"

definition gen64 :: "(nat \<Rightarrow> u32) \<Rightarrow> rng \<Rightarrow> u64 \<times> rng" where
  "gen64 engine r = (rng_next r, \<lparr>rng_drawn = rng_drawn r + 2, rng_next = two_draws engine (rng_drawn r)\<rparr>)"

definition rng_peek :: "rng \<Rightarrow> u64" where
  "rng_peek r = rng_next r"

definition random01 :: "(nat \<Rightarrow> u32) \<Rightarrow> rng \<Rightarrow> real \<times> rng" where
  "random01 engine r = (let (v, r') = gen64 engine r in (of_nat (unat v) / (2 ^ 64 - 1), r'))"

subsection \<open>Integers in a range\<close>

text \<open>Conversion of a number to an unsigned and to a signed type of \<open>w\<close> bits.\<close>

definition to_unsigned :: "nat \<Rightarrow> int \<Rightarrow> int" where
  "to_unsigned w x = x mod 2 ^ w"

definition to_signed :: "nat \<Rightarrow> int \<Rightarrow> int" where
  "to_signed w x = (x + 2 ^ (w - 1)) mod 2 ^ w - 2 ^ (w - 1)"

text \<open>
  \<open>randomInt\<close> and \<open>randomInt64\<close> are one text for two widths.  The negation of \<open>min\<close> is evaluated only where
  \<open>min\<close> is negative, and overflows for the least number of the type.
\<close>

definition range_size :: "nat \<Rightarrow> int \<Rightarrow> int \<Rightarrow> int" where
  "range_size w mn maxPlusOne =
     (if maxPlusOne < 0 then \<bar>maxPlusOne - mn\<bar>
      else to_unsigned w (to_unsigned w maxPlusOne - to_unsigned w mn))"

definition place_in_range :: "nat \<Rightarrow> int \<Rightarrow> int \<Rightarrow> int result" where
  "place_in_range w mn v =
     (if mn < 0 \<and> mn = - (2 ^ (w - 1)) then Inl Undefined_behaviour
      else if mn < 0 \<and> to_unsigned w (- mn) > v
      then Inr (- to_signed w (to_unsigned 64 (to_unsigned w (- mn) - v)))
      else Inr (to_signed w (to_unsigned 64 (v + to_unsigned 64 mn))))"

definition random_in :: "nat \<Rightarrow> (nat \<Rightarrow> u32) \<Rightarrow> int \<Rightarrow> int \<Rightarrow> rng \<Rightarrow> (int \<times> rng) result" where
  "random_in w engine mn maxPlusOne r =
     bind_result (assert_that (mn < maxPlusOne)) (\<lambda>_.
       let range = range_size w mn maxPlusOne;
           (g, r') = gen64 engine r
       in bind_result (place_in_range w mn (int (unat g) mod range)) (\<lambda>i. Inr (i, r')))"

definition randomInt :: "(nat \<Rightarrow> u32) \<Rightarrow> int \<Rightarrow> int \<Rightarrow> rng \<Rightarrow> (int \<times> rng) result" where
  "randomInt = random_in 32"

definition randomInt64 :: "(nat \<Rightarrow> u32) \<Rightarrow> int \<Rightarrow> int \<Rightarrow> rng \<Rightarrow> (int \<times> rng) result" where
  "randomInt64 = random_in 64"

definition randomUInt32 :: "(nat \<Rightarrow> u32) \<Rightarrow> rng \<Rightarrow> u32 \<times> rng" where
  "randomUInt32 engine r = (let (v, r') = gen64 engine r in (ucast v, r'))"

definition randomUniqueID :: "(nat \<Rightarrow> u32) \<Rightarrow> rng \<Rightarrow> (u64 \<times> u64) \<times> rng" where
  "randomUniqueID engine r = (let (x, r1) = gen64 engine r; (y, r2) = gen64 engine r1 in ((x, y), r2))"

definition alphanum :: string where
  "alphanum = ''0123456789ABCDEFGHIJKLMNOPQRSTUVWXYZabcdefghijklmnopqrstuvwxyz''"

definition randomAlphaNumeric_char :: "(nat \<Rightarrow> u32) \<Rightarrow> rng \<Rightarrow> char \<times> rng" where
  "randomAlphaNumeric_char engine r = (let (v, r') = gen64 engine r in (alphanum ! (unat v mod 62), r'))"

fun randomAlphaNumeric :: "(nat \<Rightarrow> u32) \<Rightarrow> nat \<Rightarrow> rng \<Rightarrow> string \<times> rng" where
  "randomAlphaNumeric engine 0 r = ([], r)"
| "randomAlphaNumeric engine (Suc n) r =
     (let (c, r1) = randomAlphaNumeric_char engine r; (cs, r2) = randomAlphaNumeric engine n r1 in (c # cs, r2))"

subsection \<open>Choice and shuffle\<close>

definition randomChoice :: "(nat \<Rightarrow> u32) \<Rightarrow> 'a list \<Rightarrow> rng \<Rightarrow> ('a \<times> rng) result" where
  "randomChoice engine c r =
     bind_result (randomInt engine 0 (to_signed 32 (int (length c))) r) (\<lambda>(i, r').
       if 0 \<le> i \<and> i < int (length c) then Inr (c ! nat i, r') else Inl Undefined_behaviour)"

text \<open>The loop from \<open>i\<close> on, with \<open>n\<close> turns left.\<close>

fun shuffle_loop :: "(nat \<Rightarrow> u32) \<Rightarrow> nat \<Rightarrow> nat \<Rightarrow> 'a list \<Rightarrow> rng \<Rightarrow> ('a list \<times> rng) result" where
  "shuffle_loop engine 0 i c r = Inr (c, r)"
| "shuffle_loop engine (Suc n) i c r =
     bind_result (randomInt engine (int i) (int (i + Suc n)) r) (\<lambda>(j, r').
       if j < 0 \<or> int (length c) \<le> j then Inl Undefined_behaviour
       else shuffle_loop engine n (Suc i)
         (if int i \<noteq> j then c[i := c ! nat j, nat j := c ! i] else c) r')"

definition randomShuffle :: "(nat \<Rightarrow> u32) \<Rightarrow> 'a list \<Rightarrow> rng \<Rightarrow> ('a list \<times> rng) result" where
  "randomShuffle engine c r = shuffle_loop engine (nat (to_signed 32 (int (length c)))) 0 c r"

definition coinflip :: "(nat \<Rightarrow> u32) \<Rightarrow> rng \<Rightarrow> bool \<times> rng" where
  "coinflip engine r = (let (d, r') = random01 engine r in (d < 1 / 2, r'))"

subsection \<open>Bounds\<close>

lemma to_signed_id: "0 < w \<Longrightarrow> - (2 ^ (w - 1)) \<le> x \<Longrightarrow> x < 2 ^ (w - 1) \<Longrightarrow> to_signed w x = x"
proof -
  assume a: "0 < w" "- (2 ^ (w - 1)) \<le> x" "x < 2 ^ (w - 1)"
  have "(2 :: int) ^ w = 2 * 2 ^ (w - 1)" using a(1) by (cases w) simp_all
  then have "(x + 2 ^ (w - 1)) mod 2 ^ w = x + 2 ^ (w - 1)" using a(2,3) by (intro mod_pos_pos_trivial) linarith+
  then show ?thesis by (simp add: to_signed_def)
qed

lemma to_signed_mod:
  assumes "0 < w" "w \<le> v" shows "to_signed w (x mod 2 ^ v) = to_signed w x"
proof -
  have "(2 :: int) ^ w dvd 2 ^ v" using assms by (simp add: le_imp_power_dvd)
  then show ?thesis by (simp add: to_signed_def mod_add_left_eq mod_mod_cancel)
     (metis mod_add_left_eq mod_mod_cancel)
qed

lemma range_size_eq:
  assumes "0 < w" and "- (2 ^ (w - 1)) \<le> mn" and "mn < mx" and "mx < 2 ^ (w - 1)"
  shows "range_size w mn mx = mx - mn"
proof -
  have w: "(2 :: int) ^ w = 2 * 2 ^ (w - 1)" using assms(1) by (cases w) simp_all
  have "(mx mod 2 ^ w - mn mod 2 ^ w) mod 2 ^ w = (mx - mn) mod 2 ^ w" by (simp add: mod_diff_eq)
  moreover have "(mx - mn) mod 2 ^ w = mx - mn" using assms w by (intro mod_pos_pos_trivial) linarith+
  ultimately show ?thesis using assms(3) by (simp add: range_size_def to_unsigned_def)
qed

lemma place_in_range_eq:
  assumes w: "0 < w" "w \<le> 64" and "- (2 ^ (w - 1)) < mn" and "0 \<le> v" and "mn + v < 2 ^ (w - 1)"
  shows "place_in_range w mn v = Inr (mn + v)"
proof (cases "mn < 0 \<and> to_unsigned w (- mn) > v")
  case True
  have p: "(2 :: int) ^ w = 2 * 2 ^ (w - 1)" using w by (cases w) simp_all
  have "- mn mod 2 ^ w = - mn" using True assms(3) p by (intro mod_pos_pos_trivial) linarith+
  then have u: "to_unsigned w (- mn) = - mn" by (simp add: to_unsigned_def)
  have "to_signed w (to_unsigned 64 (- mn - v)) = to_signed w (- mn - v)"
    unfolding to_unsigned_def by (rule to_signed_mod [OF w])
  also have "\<dots> = - mn - v" using True u assms by (intro to_signed_id) linarith+
  finally have "to_signed w (to_unsigned 64 (- mn - v)) = - mn - v" .
  then show ?thesis using True u assms(3) by (simp add: place_in_range_def)
next
  case False
  have "- (2 ^ (w - 1)) \<le> mn + v" using assms(3,4) by linarith
  moreover have "(v + mn mod 2 ^ 64) mod 2 ^ 64 = (mn + v) mod 2 ^ 64" by (simp add: mod_add_right_eq add.commute)
  ultimately have "to_signed w (to_unsigned 64 (v + to_unsigned 64 mn)) = mn + v"
    unfolding to_unsigned_def using assms w by (simp only: to_signed_mod to_signed_id)
  then show ?thesis unfolding place_in_range_def using False assms(3) by (simp only: if_False) simp
qed

lemma random_in_eq:
  assumes "0 < w" "w \<le> 64" and "- (2 ^ (w - 1)) < mn" and "mn < mx" and "mx < 2 ^ (w - 1)"
  shows "random_in w engine mn mx r = Inr (mn + int (unat (rng_next r)) mod (mx - mn), snd (gen64 engine r))"
proof -
  let ?v = "int (unat (rng_next r)) mod (mx - mn)"
  have "0 \<le> ?v" "?v < mx - mn" using assms(4) by simp_all
  then have "place_in_range w mn ?v = Inr (mn + ?v)" using assms by (intro place_in_range_eq) linarith+
  then show ?thesis
    using range_size_eq [of w mn mx] assms by (simp add: random_in_def gen64_def Let_def)
qed

text \<open>
  Random integers stay in their range.  For every state of the generator, \<open>randomInt\<close> and
  \<open>randomInt64\<close> return a number from \<open>min\<close> on and below \<open>maxPlusOne\<close>, and each number of the range comes
  from some state; an empty range fails the assertion.  The least number of the type as \<open>min\<close> is
  undefined behaviour, since its negation overflows.
\<close>

theorem random_in_range:
  assumes "mx < 2 ^ 31" and "mx64 < 2 ^ 63"
  shows "(- (2 ^ 31) < mn \<and> mn < mx \<longrightarrow>
      (\<exists>i r'. randomInt engine mn mx r = Inr (i, r') \<and> mn \<le> i \<and> i < mx)) \<and>
    (- (2 ^ 31) < mn \<and> mn \<le> j \<and> j < mx \<longrightarrow>
      (\<exists>v r'. randomInt engine mn mx (r\<lparr>rng_next := v\<rparr>) = Inr (j, r'))) \<and>
    (- (2 ^ 63) < mn64 \<and> mn64 < mx64 \<longrightarrow>
      (\<exists>i r'. randomInt64 engine mn64 mx64 r = Inr (i, r') \<and> mn64 \<le> i \<and> i < mx64)) \<and>
    (- (2 ^ 63) < mn64 \<and> mn64 \<le> j64 \<and> j64 < mx64 \<longrightarrow>
      (\<exists>v r'. randomInt64 engine mn64 mx64 (r\<lparr>rng_next := v\<rparr>) = Inr (j64, r'))) \<and>
    (mx \<le> mn \<longrightarrow> randomInt engine mn mx r = Inl Assert_failed) \<and>
    (- (2 ^ 31) < mx \<longrightarrow> randomInt engine (- (2 ^ 31)) mx r = Inl Undefined_behaviour)"
proof -
  have draw: "unat (word_of_nat (nat x) :: u64) = nat x" if "0 \<le> x" "x < 2 ^ 64" for x
  proof -
    have "nat x < 2 ^ 64" using that by (simp add: nat_less_iff)
    then show ?thesis by (simp only: unsigned_of_nat take_bit_nat_eq_self len_of_numeral_defs) (simp add: take_bit_nat_eq_self)
  qed
  have val: "mn + int (unat (word_of_nat (nat (j - mn)) :: u64)) mod (mx - mn) = j"
    if "mn \<le> j" "j < mx" "j - mn < 2 ^ 64" for mn j mx :: int
    using that draw [of "j - mn"] by (simp add: mod_pos_pos_trivial)
  have 1: "(\<exists>i r'. random_in w engine mn mx r = Inr (i, r') \<and> mn \<le> i \<and> i < mx)"
    if "0 < w" "w \<le> 64" "mx < 2 ^ (w - 1)" "- (2 ^ (w - 1)) < mn" "mn < mx" for w mn mx
  proof -
    have "0 \<le> int (unat (rng_next r)) mod (mx - mn)" "int (unat (rng_next r)) mod (mx - mn) < mx - mn"
      using that(5) by simp_all
    then show ?thesis using random_in_eq [OF that(1,2,4,5,3), of engine r] by (metis add_increasing2 less_diff_eq add.commute order_refl)
  qed
  have 2: "(\<exists>v r'. random_in w engine mn mx (r\<lparr>rng_next := v\<rparr>) = Inr (j, r'))"
    if "0 < w" "w \<le> 64" "mx < 2 ^ (w - 1)" "- (2 ^ (w - 1)) < mn" "mn \<le> j" "j < mx" for w mn mx j
  proof -
    have "(2 :: int) ^ (w - 1) \<le> 2 ^ 63" using that(1,2) by (intro power_increasing) auto
    then have "j - mn < 2 ^ 64" using that by simp
    moreover have "mn < mx" using that by simp
    ultimately show ?thesis
      using random_in_eq [OF that(1,2,4) _ that(3), of engine "r\<lparr>rng_next := word_of_nat (nat (j - mn))\<rparr>"] val [OF that(5,6)]
      by (intro exI) simp
  qed
  have 3: "random_in 32 engine mn mx r = Inl Assert_failed" if "mx \<le> mn" for mn mx using that by (simp add: random_in_def)
  have 4: "random_in 32 engine (- (2 ^ 31)) mx r = Inl Undefined_behaviour" if "- (2 ^ 31) < mx" for mx
    using that by (simp add: random_in_def gen64_def place_in_range_def Let_def)
  show ?thesis
    unfolding randomInt_def randomInt64_def
    using assms 1 [of 32] 1 [of 64] 2 [of 32] 2 [of 64] 3 4 by simp
qed

theorem random_in_range_witness:
  "\<exists>i r'. randomInt (\<lambda>i. word_of_nat (i * i)) (- 3) 4 \<lparr>rng_drawn = 2, rng_next = 12345\<rparr> = Inr (i, r') \<and> - 3 \<le> i \<and> i < 4"
  using random_in_range [of 4 0 "- 3" "\<lambda>i. word_of_nat (i * i)" "\<lparr>rng_drawn = 2, rng_next = 12345\<rparr>" 0 0 0] by simp

subsection \<open>Choice and shuffle\<close>

lemma shuffle_loop_ok:
  assumes "length c = i + n" and "length c < 2 ^ 31"
  shows "\<exists>c' r'. shuffle_loop engine n i c r = Inr (c', r') \<and> mset c' = mset c \<and> take i c' = take i c"
  using assms
proof (induction n arbitrary: i c r)
  case (Suc n)
  obtain j where draw: "randomInt engine (int i) (int (i + Suc n)) r = Inr (j, snd (gen64 engine r))"
      and j: "int i \<le> j" "j < int (i + Suc n)"
  proof
    show "randomInt engine (int i) (int (i + Suc n)) r =
        Inr (int i + int (unat (rng_next r)) mod int (Suc n), snd (gen64 engine r))"
      using random_in_eq [of 32 "int i" "int (i + Suc n)" engine r] Suc.prems by (simp add: randomInt_def)
  qed simp_all
  define c1 where "c1 = (if int i \<noteq> j then c[i := c ! nat j, nat j := c ! i] else c)"
  have len: "length c1 = Suc i + n" using Suc.prems(1) by (simp add: c1_def)
  have jl: "nat j < length c" "i < length c" "i \<le> nat j" "0 \<le> j" "j < int (length c)"
    using j Suc.prems(1) by linarith+
  have "mset c1 = mset c" using jl by (simp add: c1_def mset_swap)
  moreover have "take i c1 = take i c" using jl by (simp add: c1_def)
  moreover obtain c' r' where "shuffle_loop engine n (Suc i) c1 (snd (gen64 engine r)) = Inr (c', r')"
      "mset c' = mset c1" "take (Suc i) c' = take (Suc i) c1"
    using Suc.IH [of c1 "Suc i"] len Suc.prems by fastforce
  moreover from this have "take i c' = take i c1" by (metis min.absorb1 take_take Suc_n_not_le_n nat_le_linear)
  moreover have "shuffle_loop engine (Suc n) i c r = shuffle_loop engine n (Suc i) c1 (snd (gen64 engine r))"
    using draw jl by (simp add: c1_def)
  ultimately have "shuffle_loop engine (Suc n) i c r = Inr (c', r') \<and> mset c' = mset c \<and> take i c' = take i c" by simp
  then show ?case by blast
qed simp

text \<open>
  Shuffling permutes and choosing picks.  \<open>randomShuffle\<close> ends with a permutation of any
  container of less than \<open>2 ^ 31\<close> elements, and \<open>randomChoice\<close> returns one of the elements; choosing from
  an empty container fails the assertion of \<open>randomInt\<close>.
\<close>

theorem shuffle_permutes:
  assumes "length c < 2 ^ 31"
  shows "(\<exists>c' r'. randomShuffle engine c r = Inr (c', r') \<and> mset c' = mset c) \<and>
    (if c = [] then randomChoice engine c r = Inl Assert_failed
     else \<exists>x r'. randomChoice engine c r = Inr (x, r') \<and> x \<in> set c)"
proof
  have s: "to_signed 32 (int (length c)) = int (length c)" using assms by (intro to_signed_id) auto
  show "\<exists>c' r'. randomShuffle engine c r = Inr (c', r') \<and> mset c' = mset c"
    using shuffle_loop_ok [of c 0 "length c"] assms s by (auto simp: randomShuffle_def)
  show "if c = [] then randomChoice engine c r = Inl Assert_failed
     else \<exists>x r'. randomChoice engine c r = Inr (x, r') \<and> x \<in> set c"
  proof (cases "c = []")
    case True
    then show ?thesis using s by (simp add: randomChoice_def randomInt_def random_in_def)
  next
    case False
    let ?i = "int (unat (rng_next r)) mod int (length c)"
    have "0 \<le> ?i" "?i < int (length c)" using False by simp_all
    moreover have "randomInt engine 0 (int (length c)) r = Inr (?i, snd (gen64 engine r))"
      using random_in_eq [of 32 0 "int (length c)" engine r] assms False by (simp add: randomInt_def)
    ultimately show ?thesis using False s by (simp add: randomChoice_def nat_less_iff)
  qed
qed

theorem shuffle_permutes_witness:
  "\<exists>c' r'. randomShuffle (\<lambda>i. word_of_nat (7 * i)) [1, 2, 3 :: nat] \<lparr>rng_drawn = 2, rng_next = 5\<rparr> = Inr (c', r') \<and> mset c' = {#1, 2, 3#}"
  using shuffle_permutes [of "[1, 2, 3 :: nat]" "\<lambda>i. word_of_nat (7 * i)" "\<lparr>rng_drawn = 2, rng_next = 5\<rparr>"] by simp

text \<open>Random names have the length asked for and only letters and digits; \<open>random01\<close> is in the unit interval.\<close>

lemma alphanum_length: "length alphanum = 62"
  by (simp add: alphanum_def)

lemma randomAlphaNumeric_ok:
  "length (fst (randomAlphaNumeric engine n r)) = n \<and> set (fst (randomAlphaNumeric engine n r)) \<subseteq> set alphanum"
proof (induction n arbitrary: r)
  case (Suc n)
  let ?r = "snd (gen64 engine r)"
  have "fst (randomAlphaNumeric engine (Suc n) r) = alphanum ! (unat (rng_next r) mod 62) # fst (randomAlphaNumeric engine n ?r)"
    by (simp add: randomAlphaNumeric_char_def gen64_def Let_def split: prod.splits)
  moreover have "alphanum ! (unat (rng_next r) mod 62) \<in> set alphanum" by (rule nth_mem) (simp add: alphanum_length)
  ultimately show ?case using Suc [of ?r] by simp
qed simp

lemma random01_unit: "0 \<le> fst (random01 engine r) \<and> fst (random01 engine r) \<le> 1"
proof -
  have "unat (rng_next r) \<le> 2 ^ 64 - 1" using unsigned_less [where 'b = 64 and 'a = nat, of "rng_next r"] by simp
  then have "real (unat (rng_next r)) \<le> real (2 ^ 64 - 1)" by (simp only: of_nat_le_iff)
  moreover have "0 \<le> real (unat (rng_next r))" by (rule of_nat_0_le_iff)
  ultimately show ?thesis by (simp add: random01_def gen64_def del: of_nat_unat)
qed

end
