(* ===== verification/Trace_Format.thy ===== *)
theory Trace_Format
  imports Flow_Util
begin

text \<open>
  The trace log formatters (\<open>src/flow/XmlTraceLogFormatter.cpp\<close>, \<open>src/flow/JsonTraceLogFormatter.cpp\<close>).  An
  event is its list of fields, a name and a value each.  Strings are their bytes.  \<open>isprint\<close> is that of
  the C locale, with bytes above 127 not printable.  The warning event for a zero byte is counted.
  The position that XML escaping keeps in an \<open>int\<close> is a position here: strings are shorter than \<open>2 ^ 31\<close>.
\<close>

type_synonym trace_fields = "(bytes \<times> bytes) list"

subsection \<open>XML\<close>

definition xml_special :: "u8 \<Rightarrow> bool" where
  "xml_special c \<longleftrightarrow> c \<in> {38, 34, 60, 62, 13, 10, 0}"

definition xml_replacement :: "u8 \<Rightarrow> bytes" where
  "xml_replacement c =
     (if c = 38 then lit ''&amp;''
      else if c = 34 then lit ''&quot;''
      else if c = 60 then lit ''&lt;''
      else if c = 62 then lit ''&gt;''
      else [32])"

text \<open>The loop: text up to the first special character, its replacement, and on behind it.\<close>

function xml_escape :: "bytes \<Rightarrow> bytes \<times> nat" where
  "xml_escape source =
     (case dropWhile (\<lambda>c. \<not> xml_special c) source of
        [] \<Rightarrow> (source, 0)
      | c # rest \<Rightarrow>
          (let (out, warnings) = xml_escape rest
           in (takeWhile (\<lambda>c. \<not> xml_special c) source @ xml_replacement c @ out,
               (if c = 0 then Suc warnings else warnings))))"
  by pat_completeness auto
termination xml_escape
proof (relation "measure length")
  fix source c rest
  assume "dropWhile (\<lambda>c. \<not> xml_special c) source = c # rest"
  then have "length (c # rest) \<le> length source" by (metis length_dropWhile_le)
  then show "(rest, source) \<in> measure length" by simp
qed simp

definition xml_getHeader :: bytes where
  "xml_getHeader = lit ''<?xml version='' @ [34] @ lit ''1.0'' @ [34] @ lit ''?>'' @ [13, 10] @ lit ''<Trace>'' @ [13, 10]"

definition xml_getFooter :: bytes where
  "xml_getFooter = lit ''</Trace>'' @ [13, 10]"

fun xml_fields :: "trace_fields \<Rightarrow> bytes \<times> nat" where
  "xml_fields [] = ([], 0)"
| "xml_fields ((name, value) # fs) =
     (let (n, w1) = xml_escape name; (v, w2) = xml_escape value; (rest, w3) = xml_fields fs
      in (n @ [61, 34] @ v @ [34, 32] @ rest, w1 + w2 + w3))"

definition xml_formatEvent :: "trace_fields \<Rightarrow> bytes \<times> nat" where
  "xml_formatEvent ev =
     (let (body, warnings) = xml_fields ev in (lit ''<Event '' @ body @ lit ''/>'' @ [13, 10], warnings))"

subsection \<open>JSON\<close>

definition isprint :: "u8 \<Rightarrow> bool" where
  "isprint c \<longleftrightarrow> 32 \<le> c \<and> c \<le> 126"

definition json_hex :: "nat \<Rightarrow> u8" where
  "json_hex x = lit ''0123456789abcdef'' ! x"

definition json_char :: "u8 \<Rightarrow> bytes" where
  "json_char c =
     (if c = 34 then [92, 34]
      else if c = 92 then [92, 92]
      else if c = 10 then [92, 110]
      else if c = 13 then [92, 114]
      else if isprint c then [c]
      else [92, 120, json_hex (unat c div 16), json_hex (unat c mod 16)])"

fun escapeString :: "bytes \<Rightarrow> bytes" where
  "escapeString [] = []"
| "escapeString (c # cs) = json_char c @ escapeString cs"

fun json_fields :: "bool \<Rightarrow> trace_fields \<Rightarrow> bytes" where
  "json_fields at_begin [] = []"
| "json_fields at_begin ((name, value) # fs) =
     (if at_begin then [] else [44, 32]) @ [34] @ escapeString name @ [34, 58, 32, 34] @ escapeString value @ [34] @
     json_fields False fs"

definition json_formatEvent :: "trace_fields \<Rightarrow> bytes" where
  "json_formatEvent ev = [123, 32, 32] @ json_fields True ev @ [32, 125, 13, 10]"

declare xml_escape.simps [simp del]

subsection \<open>Reading escaped text back\<close>

text \<open>
  A strict reader of attribute text: it knows the four entities and refuses a raw quote, angle
  bracket, line end or zero byte, and an ampersand that begins no entity.
\<close>

definition xml_safe :: "u8 \<Rightarrow> bool" where
  "xml_safe c \<longleftrightarrow> c \<notin> {34, 60, 62, 13, 10, 0}"

fun xml_unescape :: "bytes \<Rightarrow> bytes option" where
  "xml_unescape [] = Some []"
| "xml_unescape (c # cs) =
     (if c = 38
      then if take 4 cs = lit ''amp;'' then map_option ((#) 38) (xml_unescape (drop 4 cs))
           else if take 5 cs = lit ''quot;'' then map_option ((#) 34) (xml_unescape (drop 5 cs))
           else if take 3 cs = lit ''lt;'' then map_option ((#) 60) (xml_unescape (drop 3 cs))
           else if take 3 cs = lit ''gt;'' then map_option ((#) 62) (xml_unescape (drop 3 cs))
           else None
      else if xml_safe c then map_option ((#) c) (xml_unescape cs) else None)"

definition blank_ends :: "u8 \<Rightarrow> u8" where
  "blank_ends c = (if c = 13 \<or> c = 10 \<or> c = 0 then 32 else c)"

lemma lit_simps: "lit (c # cs) = of_char c # lit cs" "lit [] = []"
  by (simp_all add: lit_def)

text \<open>The loop over special characters replaces character by character.\<close>

definition xml_char :: "u8 \<Rightarrow> bytes" where
  "xml_char c = (if xml_special c then xml_replacement c else [c])"

lemma xml_escape_chars: "xml_escape s = (concat (map xml_char s), length (filter (\<lambda>c. c = 0) s))"
proof (induction s rule: xml_escape.induct)
  case (1 s)
  let ?p = "takeWhile (\<lambda>c. \<not> xml_special c) s"
  have "xml_char c = [c] \<and> c \<noteq> 0" if "c \<in> set ?p" for c
    using set_takeWhileD [OF that] by (auto simp: xml_char_def xml_special_def)
  then have p: "concat (map xml_char ?p) = ?p" "filter (\<lambda>c. c = 0) ?p = []"
    by (induction ?p) (simp_all add: filter_empty_conv map_idI concat_map_singleton [of id, simplified] cong: map_cong)
  show ?case
  proof (cases "dropWhile (\<lambda>c. \<not> xml_special c) s")
    case Nil
    then have e: "?p = s" by (metis append_Nil2 takeWhile_dropWhile_id)
    show ?thesis unfolding xml_escape.simps [of s] Nil list.case using p unfolding e by simp
  next
    case (Cons c rest)
    then have s: "s = ?p @ c # rest" by (metis takeWhile_dropWhile_id)
    have c: "xml_special c" using Cons by (metis hd_dropWhile list.distinct(1) list.sel(1))
    have "xml_escape s = (?p @ xml_replacement c @ concat (map xml_char rest),
        length (filter (\<lambda>c. c = 0) (c # rest)))"
      unfolding xml_escape.simps [of s] Cons list.case "1.IH" [OF Cons] Let_def prod.case by simp
    moreover have "concat (map xml_char s) = ?p @ xml_replacement c @ concat (map xml_char rest)"
      by (subst s) (simp add: p c xml_char_def [of c])
    moreover have "filter (\<lambda>c. c = 0) s = filter (\<lambda>c. c = 0) (c # rest)" by (subst s) (simp only: filter_append p append_Nil)
    ultimately show ?thesis by simp
  qed
qed

lemma xml_unescape_char: "xml_unescape (xml_char c @ out) = map_option ((#) (blank_ends c)) (xml_unescape out)"
  by (auto simp: xml_char_def xml_special_def xml_replacement_def blank_ends_def lit_simps xml_safe_def)

lemma xml_unescape_escape: "xml_unescape (fst (xml_escape s)) = Some (map blank_ends s)"
  by (induction s) (simp_all add: xml_escape_chars xml_unescape_char)

text \<open>Escaped text has no character that ends an attribute, a tag or a line.\<close>

lemma xml_replacement_safe: "\<forall>d \<in> set (xml_replacement c). xml_safe d"
  by (simp add: xml_replacement_def xml_safe_def lit_simps)

lemma xml_escape_safe: "\<forall>c \<in> set (fst (xml_escape s)). xml_safe c"
proof -
  have "\<forall>d \<in> set (xml_char c). xml_safe d" for c
    using xml_replacement_safe [of c] by (simp add: xml_char_def xml_special_def xml_safe_def)
  then show ?thesis by (simp add: xml_escape_chars)
qed

text \<open>
  The attributes of an event as a strict reader takes them: a name up to the equals sign, a quoted
  value, a blank; anything else is refused.  Behind the last one come \<open>/>\<close> and the line end.
\<close>

function xml_read_fields :: "bytes \<Rightarrow> (bytes \<times> bytes) list option" where
  "xml_read_fields s =
     (if take 2 s = [47, 62] then if drop 2 s = [13, 10] then Some [] else None
      else let name = takeWhile (\<lambda>c. c \<noteq> 61) s; s1 = drop (length name) s;
               value = takeWhile (\<lambda>c. c \<noteq> 34) (drop 2 s1); s2 = drop (length value + 2) s1
           in if take 2 s1 \<noteq> [61, 34] \<or> take 2 s2 \<noteq> [34, 32] then None
              else case (xml_unescape name, xml_unescape value) of
                (Some n, Some v) \<Rightarrow> map_option ((#) (n, v)) (xml_read_fields (drop 2 s2))
              | _ \<Rightarrow> None)"
  by pat_completeness auto
termination xml_read_fields
proof (relation "measure length")
  fix s s1 s2 name val :: bytes
  assume "s1 = drop (length name) s" and "s2 = drop (length val + 2) s1" and "\<not> (take 2 s1 \<noteq> [61, 34] \<or> take 2 s2 \<noteq> [34, 32])"
  then show "(drop 2 s2, s) \<in> measure length" by (cases s) auto
qed simp

definition xml_read_event :: "bytes \<Rightarrow> (bytes \<times> bytes) list option" where
  "xml_read_event s = (if take 7 s = lit ''<Event '' then xml_read_fields (drop 7 s) else None)"

declare xml_read_fields.simps [simp del]

lemma xml_char_no_equals: "c \<noteq> 61 \<Longrightarrow> 61 \<notin> set (xml_char c)"
  by (simp add: xml_char_def xml_replacement_def lit_simps)

lemma xml_read_fields_cons:
  assumes "61 \<notin> set n" and "34 \<notin> set v" and "n = [] \<or> hd n \<noteq> 47"
    and "xml_unescape n = Some n'" and "xml_unescape v = Some v'"
  shows "xml_read_fields (n @ [61, 34] @ v @ [34, 32] @ rest) = map_option ((#) (n', v')) (xml_read_fields rest)"
proof -
  have tw: "takeWhile P (xs @ c # ys) = xs" if "\<forall>x \<in> set xs. P x" "\<not> P c" for P xs and c :: u8 and ys
    using that by (simp add: takeWhile_append2)
  have "takeWhile (\<lambda>c. c \<noteq> 61) (n @ 61 # 34 # v @ 34 # 32 # rest) = n" using assms(1) by (intro tw) auto
  moreover have "takeWhile (\<lambda>c. c \<noteq> 34) (v @ 34 # 32 # rest) = v" using assms(2) by (intro tw) auto
  moreover have "take 2 (n @ 61 # 34 # v @ 34 # 32 # rest) \<noteq> [47, 62]"
    using assms(3) by (cases n) auto
  ultimately show ?thesis
    using assms(4,5) by (subst xml_read_fields.simps) (simp add: Let_def)
qed

lemma xml_fields_cons:
  "fst (xml_fields ((n, v) # ev)) = fst (xml_escape n) @ [61, 34] @ fst (xml_escape v) @ [34, 32] @ fst (xml_fields ev)"
  "snd (xml_fields ((n, v) # ev)) = snd (xml_escape n) + snd (xml_escape v) + snd (xml_fields ev)"
  by (simp_all split: prod.splits)

lemma xml_fields_readable:
  assumes "\<forall>(n, v) \<in> set ev. 61 \<notin> set n \<and> (n = [] \<or> hd n \<noteq> 47)"
  shows "xml_read_fields (fst (xml_fields ev) @ [47, 62, 13, 10]) =
    Some (map (\<lambda>(n, v). (map blank_ends n, map blank_ends v)) ev)"
  using assms
proof (induction ev)
  case Nil
  then show ?case by (subst xml_read_fields.simps) simp
next
  case (Cons f ev)
  obtain n v where f: "f = (n, v)" by (cases f)
  let ?n = "fst (xml_escape n)" and ?v = "fst (xml_escape v)"
  have n61: "61 \<notin> set n" using Cons.prems by (simp add: f)
  have "61 \<notin> set (xml_char c)" if "c \<in> set n" for c using that n61 by (intro xml_char_no_equals) auto
  then have "61 \<notin> set ?n" by (simp add: xml_escape_chars)
  moreover have "34 \<notin> set ?v" using xml_escape_safe [of v] by (auto simp: xml_safe_def)
  moreover have "?n = [] \<or> hd ?n \<noteq> 47"
    using Cons.prems by (cases n) (auto simp: f xml_escape_chars xml_char_def xml_replacement_def lit_simps)
  ultimately have "xml_read_fields (?n @ [61, 34] @ ?v @ [34, 32] @ fst (xml_fields ev) @ [47, 62, 13, 10]) =
      map_option ((#) (map blank_ends n, map blank_ends v)) (xml_read_fields (fst (xml_fields ev) @ [47, 62, 13, 10]))"
    by (rule xml_read_fields_cons [OF _ _ _ xml_unescape_escape xml_unescape_escape])
  then show ?case
    using Cons.IH Cons.prems unfolding f xml_fields_cons append_assoc by simp
qed

lemma xml_fields_one_line: "{60, 62, 13, 10, 0} \<inter> set (fst (xml_fields ev)) = {}"
proof (induction ev)
  case (Cons f ev)
  obtain n v where f: "f = (n, v)" by (cases f)
  have safe: "{60, 62, 13, 10, 0} \<inter> set (fst (xml_escape s)) = {}" for s
    using xml_escape_safe [of s] unfolding xml_safe_def by blast
  show ?case unfolding f xml_fields_cons using safe [of n] safe [of v] Cons by simp
qed simp

lemma xml_fields_warnings: "snd (xml_fields ev) = length (filter (\<lambda>c. c = 0) (concat (map (\<lambda>(n, v). n @ v) ev)))"
proof (induction ev)
  case (Cons f ev)
  obtain n v where f: "f = (n, v)" by (cases f)
  show ?case using Cons unfolding f xml_fields_cons by (simp add: xml_escape_chars)
qed simp

text \<open>
  Property C38: an XML trace event can be read back.  If no field name contains an equals sign or starts
  with a slash, a strict reader of attributes, which refuses raw markup and unknown entities, accepts
  the event and gets every field in order, with line ends and zero bytes as blanks.  Whatever the names
  and values, between \<open><Event\<close> and the closing \<open>/>\<close> there is no angle bracket, line end or zero byte, so
  an event is one line and one tag, and one warning is traced for each zero byte replaced.
\<close>

theorem xml_event_readable:
  assumes "\<forall>(n, v) \<in> set ev. 61 \<notin> set n \<and> (n = [] \<or> hd n \<noteq> 47)"
  shows "xml_read_event (fst (xml_formatEvent ev)) = Some (map (\<lambda>(n, v). (map blank_ends n, map blank_ends v)) ev) \<and>
    (\<forall>fs. (\<exists>b. fst (xml_formatEvent fs) = lit ''<Event '' @ b @ lit ''/>'' @ [13, 10] \<and> {60, 62, 13, 10, 0} \<inter> set b = {}) \<and>
      snd (xml_formatEvent fs) = length (filter (\<lambda>c. c = 0) (concat (map (\<lambda>(n, v). n @ v) fs))))"
proof (intro conjI allI)
  have out: "xml_formatEvent fs = (lit ''<Event '' @ fst (xml_fields fs) @ lit ''/>'' @ [13, 10], snd (xml_fields fs))" for fs
    by (simp add: xml_formatEvent_def split: prod.splits)
  then show "xml_read_event (fst (xml_formatEvent ev)) = Some (map (\<lambda>(n, v). (map blank_ends n, map blank_ends v)) ev)"
    using xml_fields_readable [OF assms] by (simp add: xml_read_event_def lit_simps)
  show "\<exists>b. fst (xml_formatEvent fs) = lit ''<Event '' @ b @ lit ''/>'' @ [13, 10] \<and> {60, 62, 13, 10, 0} \<inter> set b = {}" for fs
    using xml_fields_one_line [of fs] out [of fs] by (metis fst_conv)
  show "snd (xml_formatEvent fs) = length (filter (\<lambda>c. c = 0) (concat (map (\<lambda>(n, v). n @ v) fs)))" for fs
    by (simp add: out xml_fields_warnings)
qed

theorem xml_event_readable_witness:
  "xml_read_event (fst (xml_formatEvent [(lit ''Type'', lit ''a<b'')])) = Some [(lit ''Type'', lit ''a<b'')]"
  using xml_event_readable [of "[(lit ''Type'', lit ''a<b'')]"] by (simp add: lit_simps blank_ends_def)

subsection \<open>Reading JSON\<close>

fun json_string :: "bytes \<Rightarrow> (bytes \<times> bytes) option" where
  "json_string [] = None"
| "json_string (c # cs) =
     (if c = 34 then Some ([], cs)
      else if c = 92
      then (case cs of
              [] \<Rightarrow> None
            | d # ds \<Rightarrow>
                if d = 34 \<or> d = 92 then map_option (apfst ((#) d)) (json_string ds)
                else if d = 110 then map_option (apfst ((#) 10)) (json_string ds)
                else if d = 114 then map_option (apfst ((#) 13)) (json_string ds)
                else (case ds of
                    h # l # es \<Rightarrow>
                      if d = 120 then map_option (apfst ((#) (word_of_nat (16 * digit_val h + digit_val l)))) (json_string es)
                      else None
                  | _ \<Rightarrow> None))
      else map_option (apfst ((#) c)) (json_string cs))"

lemma json_string_shorter: "json_string s = Some (x, r) \<Longrightarrow> length r < length s"
  by (induction s arbitrary: x rule: json_string.induct) (fastforce split: if_splits list.splits)+

lemma json_hex_val: "x < 16 \<Longrightarrow> digit_val (json_hex x) = x"
proof -
  assume "x < 16"
  then have "x \<in> set [0..<16]" by simp
  moreover have "list_all (\<lambda>x. digit_val (json_hex x) = x) [0..<16]" by code_simp
  ultimately show ?thesis by (simp only: list_all_iff)
qed

lemma json_string_char: "json_string (json_char c @ out) = map_option (apfst ((#) c)) (json_string out)"
proof -
  have "unat c < 256" using unsigned_less [where 'b = 8 and 'a = nat, of c] by simp
  then have "word_of_nat (16 * digit_val (json_hex (unat c div 16)) + digit_val (json_hex (unat c mod 16))) = c"
    by (simp add: json_hex_val less_mult_imp_div_less del: of_nat_add of_nat_mult)
  then show ?thesis by (simp add: json_char_def)
qed

lemma json_string_escape: "json_string (escapeString s @ 34 # rest) = Some (s, rest)"
  by (induction s) (simp_all add: json_string_char)

function json_read_fields :: "bool \<Rightarrow> bytes \<Rightarrow> (bytes \<times> bytes) list option" where
  "json_read_fields at_begin s =
     (if s = [32, 125, 13, 10] then Some []
      else let s0 = (if at_begin then s else drop 2 s)
           in if take 1 s0 \<noteq> [34] \<or> (\<not> at_begin \<and> take 2 s \<noteq> [44, 32]) then None
              else case json_string (drop 1 s0) of
                     None \<Rightarrow> None
                   | Some (name, s1) \<Rightarrow>
                       if take 4 (34 # s1) \<noteq> [34, 58, 32, 34] then None
                       else (case json_string (drop 3 s1) of
                           None \<Rightarrow> None
                         | Some (val, s2) \<Rightarrow> map_option ((#) (name, val)) (json_read_fields False s2)))"
  by pat_completeness auto
termination json_read_fields
  by (relation "measure (length \<circ> snd)") (auto dest!: json_string_shorter split: if_splits)

definition json_read_event :: "bytes \<Rightarrow> (bytes \<times> bytes) list option" where
  "json_read_event s = (if take 3 s = [123, 32, 32] then json_read_fields True (drop 3 s) else None)"

declare json_read_fields.simps [simp del]

lemma json_fields_readable: "json_read_fields b (json_fields b ev @ [32, 125, 13, 10]) = Some ev"
proof (induction ev arbitrary: b)
  case Nil
  then show ?case by (subst json_read_fields.simps) simp
next
  case (Cons f ev)
  obtain n v where f: "f = (n, v)" by (cases f)
  have sep: "take 4 (34 # 58 # 32 # 34 # xs) = [34, 58, 32, 34 :: u8]" for xs by simp
  show ?case
    using Cons.IH [of False] json_string_escape [of n "58 # 32 # 34 # escapeString v @ 34 # json_fields False ev @ [32, 125, 13, 10]"]
      json_string_escape [of v "json_fields False ev @ [32, 125, 13, 10]"]
    by (subst json_read_fields.simps) (simp add: f Let_def)
qed

lemma json_char_one_line: "13 \<notin> set (json_char c) \<and> 10 \<notin> set (json_char c)"
proof -
  have "list_all (\<lambda>x. json_hex x \<noteq> 13 \<and> json_hex x \<noteq> 10) [0..<16]" by code_simp
  then have hex: "x < 16 \<Longrightarrow> json_hex x \<noteq> 13 \<and> json_hex x \<noteq> 10" for x by (simp add: list_all_iff)
  have "unat c < 256" using unsigned_less [where 'b = 8 and 'a = nat, of c] by simp
  then have "json_hex (unat c div 16) \<notin> {13, 10}" "json_hex (unat c mod 16) \<notin> {13, 10}"
    using hex [of "unat c div 16"] hex [of "unat c mod 16"] by (simp_all add: less_mult_imp_div_less)
  then show ?thesis unfolding json_char_def
    by (cases "c = 34"; cases "c = 92"; cases "c = 10"; cases "c = 13"; cases "isprint c") auto
qed

lemma json_fields_one_line: "13 \<notin> set (json_fields b ev) \<and> 10 \<notin> set (json_fields b ev)"
proof -
  have esc: "13 \<notin> set (escapeString s) \<and> 10 \<notin> set (escapeString s)" for s
    by (induction s) (use json_char_one_line in simp_all)
  show ?thesis by (induction b ev rule: json_fields.induct) (use esc in simp_all)
qed

text \<open>
  A JSON trace event can be read back.  A reader that knows the escapes of \<open>escapeString\<close>
  gets exactly the fields of the event, whatever bytes their names and values have; the event is one
  line, with no line end before its own.
\<close>

theorem json_event_readable:
  "json_read_event (json_formatEvent ev) = Some ev \<and>
   (\<exists>b. json_formatEvent ev = b @ [13, 10] \<and> 13 \<notin> set b \<and> 10 \<notin> set b)"
proof
  show "json_read_event (json_formatEvent ev) = Some ev"
    using json_fields_readable [of True ev] by (simp add: json_read_event_def json_formatEvent_def)
  show "\<exists>b. json_formatEvent ev = b @ [13, 10] \<and> 13 \<notin> set b \<and> 10 \<notin> set b"
    using json_fields_one_line [of True ev]
    by (intro exI [of _ "[123, 32, 32] @ json_fields True ev @ [32, 125]"]) (simp add: json_formatEvent_def)
qed

end
