(* ===== verification/Vector_Ref.thy ===== *)
theory Vector_Ref
  imports Flow_Prelude
begin

text \<open>
  \<open>VectorRef\<close> (\<open>src/flow/Arena.h\<close>): a vector whose elements lie in an arena, and whose copies and slices
  share them.  The arena's memory is a store of arrays by address, whose slots are \<open>None\<close> until an
  element is constructed there; an arena frees nothing while it lives.  A reference is the address of
  an array, an offset into it, a size and a capacity.  The store says how many bytes an element has; what
  an arena does with a request is the theory \<open>Arena_Memory\<close>.  Sizes are 32-bit signed: an addition or
  multiplication that does not fit is undefined behaviour, as is a use of memory outside an array.
\<close>

subsection \<open>Store and references\<close>

record 'a vstore =
  vs_arrays :: "nat \<Rightarrow> 'a option list"
  vs_next :: nat
  vs_sizeof :: nat

record vref =
  vr_data :: "nat option"
  vr_off :: nat
  vr_size :: int
  vr_capacity :: int

definition fits_int :: "int \<Rightarrow> bool" where
  "fits_int x \<longleftrightarrow> - (2 ^ 31) \<le> x \<and> x < 2 ^ 31"

definition int_op :: "int \<Rightarrow> int result" where
  "int_op x = (if fits_int x then Inr x else Inl Undefined_behaviour)"

text \<open>The slots from \<open>data + i\<close> on, and a write of constructed elements to them.\<close>

definition slots :: "'a vstore \<Rightarrow> vref \<Rightarrow> 'a option list" where
  "slots st v = (case vr_data v of None \<Rightarrow> [] | Some a \<Rightarrow> drop (vr_off v) (vs_arrays st a))"

definition write_slots :: "int \<Rightarrow> 'a list \<Rightarrow> vref \<Rightarrow> 'a vstore \<Rightarrow> 'a vstore result" where
  "write_slots i xs v st =
     (if xs = [] then Inr st
      else if i < 0 \<or> int (length (slots st v)) < i + int (length xs) then Inl Undefined_behaviour
      else case vr_data v of
             None \<Rightarrow> Inl Undefined_behaviour
           | Some a \<Rightarrow>
               let arr = vs_arrays st a; k = vr_off v + nat i
               in Inr (st\<lparr>vs_arrays := (vs_arrays st)(a := take k arr @ map Some xs @ drop (k + length xs) arr)\<rparr>))"

text \<open>
  \<open>new (p) uint8_t[n * sizeof(T)]\<close>.  The number of bytes is a \<open>size_t\<close> and must be less than the greatest \<open>int\<close>.
\<close>

definition allocate :: "int \<Rightarrow> 'a vstore \<Rightarrow> (nat \<times> 'a vstore) result" where
  "allocate n st =
     bind_result (assert_that (0 \<le> n \<and> n * int (vs_sizeof st) < 2 ^ 31 - 1)) (\<lambda>_.
       Inr (vs_next st, st\<lparr>vs_arrays := (vs_arrays st)(vs_next st := replicate (nat n) None), vs_next := Suc (vs_next st)\<rparr>))"

text \<open>The elements that a read of the first \<open>n\<close> slots finds; an unconstructed one is undefined.\<close>

definition read_slots :: "int \<Rightarrow> 'a vstore \<Rightarrow> vref \<Rightarrow> 'a list result" where
  "read_slots n st v =
     (let s = take (nat n) (slots st v)
      in if int (length s) < n \<or> None \<in> set s then Inl Undefined_behaviour else Inr (map the s))"

subsection \<open>Construction and access\<close>

definition vr_empty :: vref where
  "vr_empty = \<lparr>vr_data = None, vr_off = 0, vr_size = 0, vr_capacity = 0\<rparr>"

definition vr_at :: "nat \<Rightarrow> nat \<Rightarrow> int \<Rightarrow> vref" where
  "vr_at a off n = \<lparr>vr_data = Some a, vr_off = off, vr_size = n, vr_capacity = n\<rparr>"

text \<open>The arena constructors: of plain elements and, with the copy constructor \<open>deep\<close>, of elements with
  memory of their own.\<close>

definition vr_copy :: "vref \<Rightarrow> 'a vstore \<Rightarrow> (vref \<times> 'a vstore) result" where
  "vr_copy toCopy st =
     bind_result (allocate (vr_size toCopy) st) (\<lambda>(a, st1).
       let v = vr_at a 0 (vr_size toCopy)
       in bind_result (read_slots (vr_size toCopy) st toCopy) (\<lambda>xs.
          bind_result (write_slots 0 xs v st1) (\<lambda>st2. Inr (v, st2))))"

definition vr_copy_deep :: "('a \<Rightarrow> 'a) \<Rightarrow> vref \<Rightarrow> 'a vstore \<Rightarrow> (vref \<times> 'a vstore) result" where
  "vr_copy_deep deep toCopy st =
     bind_result (allocate (vr_size toCopy) st) (\<lambda>(a, st1).
       let v = vr_at a 0 (vr_size toCopy)
       in bind_result (read_slots (vr_size toCopy) st toCopy) (\<lambda>xs.
          bind_result (write_slots 0 (map deep xs) v st1) (\<lambda>st2. Inr (v, st2))))"

definition vr_nth :: "'a vstore \<Rightarrow> vref \<Rightarrow> int \<Rightarrow> 'a result" where
  "vr_nth st v i =
     (if i < 0 \<or> int (length (slots st v)) \<le> i then Inl Undefined_behaviour
      else case slots st v ! nat i of None \<Rightarrow> Inl Undefined_behaviour | Some x \<Rightarrow> Inr x)"

definition vr_front :: "'a vstore \<Rightarrow> vref \<Rightarrow> 'a result" where
  "vr_front st v = vr_nth st v 0"

definition vr_back :: "'a vstore \<Rightarrow> vref \<Rightarrow> 'a result" where
  "vr_back st v = vr_nth st v (vr_size v - 1)"

definition vr_isEmpty :: "vref \<Rightarrow> bool" where
  "vr_isEmpty v \<longleftrightarrow> vr_size v = 0"

definition vr_slice :: "int \<Rightarrow> int \<Rightarrow> vref \<Rightarrow> vref" where
  "vr_slice b e v = v\<lparr>vr_off := vr_off v + nat b, vr_size := e - b, vr_capacity := e - b\<rparr>"

fun vr_equal_loop :: "'a vstore \<Rightarrow> vref \<Rightarrow> vref \<Rightarrow> nat \<Rightarrow> int \<Rightarrow> bool result" where
  "vr_equal_loop st v w 0 i = Inr True"
| "vr_equal_loop st v w (Suc n) i =
     bind_result (vr_nth st v i) (\<lambda>x. bind_result (vr_nth st w i) (\<lambda>y.
       if x \<noteq> y then Inr False else vr_equal_loop st v w n (i + 1)))"

definition vr_equal :: "'a vstore \<Rightarrow> vref \<Rightarrow> vref \<Rightarrow> bool result" where
  "vr_equal st v w = (if vr_size v \<noteq> vr_size w then Inr False else vr_equal_loop st v w (nat (vr_size v)) 0)"

subsection \<open>Mutation\<close>

definition vr_reallocate :: "int \<Rightarrow> vref \<Rightarrow> 'a vstore \<Rightarrow> (vref \<times> 'a vstore) result" where
  "vr_reallocate requiredCapacity v st =
     bind_result (int_op (vr_capacity v * 2)) (\<lambda>dbl.
     bind_result (allocate (max dbl requiredCapacity) st) (\<lambda>(a, st1).
       let v1 = \<lparr>vr_data = Some a, vr_off = 0, vr_size = vr_size v, vr_capacity = max dbl requiredCapacity\<rparr>
       in bind_result (read_slots (vr_size v) st v) (\<lambda>xs.
          bind_result (write_slots 0 xs v1 st1) (\<lambda>st2. Inr (v1, st2)))))"

definition vr_reserve :: "int \<Rightarrow> vref \<Rightarrow> 'a vstore \<Rightarrow> (vref \<times> 'a vstore) result" where
  "vr_reserve n v st = (if n > vr_capacity v then vr_reallocate n v st else Inr (v, st))"

definition vr_append :: "'a list \<Rightarrow> vref \<Rightarrow> 'a vstore \<Rightarrow> (vref \<times> 'a vstore) result" where
  "vr_append xs v st =
     bind_result (int_op (vr_size v + int (length xs))) (\<lambda>n.
     bind_result (vr_reserve n v st) (\<lambda>(v1, st1).
     bind_result (write_slots (vr_size v1) xs v1 st1) (\<lambda>st2. Inr (v1\<lparr>vr_size := n\<rparr>, st2))))"

definition vr_append_deep :: "('a \<Rightarrow> 'a) \<Rightarrow> 'a list \<Rightarrow> vref \<Rightarrow> 'a vstore \<Rightarrow> (vref \<times> 'a vstore) result" where
  "vr_append_deep deep xs = vr_append (map deep xs)"

definition vr_push_back :: "'a \<Rightarrow> vref \<Rightarrow> 'a vstore \<Rightarrow> (vref \<times> 'a vstore) result" where
  "vr_push_back x v st =
     bind_result (int_op (vr_size v + 1)) (\<lambda>n.
     bind_result (vr_reserve n v st) (\<lambda>(v1, st1).
     bind_result (write_slots (vr_size v1) [x] v1 st1) (\<lambda>st2. Inr (v1\<lparr>vr_size := n\<rparr>, st2))))"

definition vr_push_back_deep :: "('a \<Rightarrow> 'a) \<Rightarrow> 'a \<Rightarrow> vref \<Rightarrow> 'a vstore \<Rightarrow> (vref \<times> 'a vstore) result" where
  "vr_push_back_deep deep x = vr_push_back (deep x)"

definition vr_pop_back :: "vref \<Rightarrow> vref" where
  "vr_pop_back v = v\<lparr>vr_size := vr_size v - 1\<rparr>"

definition vr_pop_front :: "int \<Rightarrow> vref \<Rightarrow> vref" where
  "vr_pop_front count v =
     (let c = min (vr_size v) count
      in v\<lparr>vr_off := vr_off v + nat c, vr_size := vr_size v - c, vr_capacity := vr_capacity v - c\<rparr>)"

definition vr_resize :: "'a \<Rightarrow> int \<Rightarrow> vref \<Rightarrow> 'a vstore \<Rightarrow> (vref \<times> 'a vstore) result" where
  "vr_resize dflt n v st =
     bind_result (vr_reserve n v st) (\<lambda>(v1, st1).
     bind_result (write_slots (vr_size v1) (replicate (nat (n - vr_size v1)) dflt) v1 st1) (\<lambda>st2.
       Inr (v1\<lparr>vr_size := n\<rparr>, st2)))"

definition vr_extendUnsafeNoReallocNoInit :: "int \<Rightarrow> vref \<Rightarrow> vref" where
  "vr_extendUnsafeNoReallocNoInit amount v = v\<lparr>vr_size := vr_size v + amount\<rparr>"

definition vr_expectedSize :: "nat \<Rightarrow> vref \<Rightarrow> nat" where
  "vr_expectedSize sizeof_T v = sizeof_T * nat (vr_size v)"

definition vr_expectedSize_deep :: "nat \<Rightarrow> ('a \<Rightarrow> nat) \<Rightarrow> 'a vstore \<Rightarrow> vref \<Rightarrow> nat result" where
  "vr_expectedSize_deep sizeof_T expectedSize st v =
     bind_result (read_slots (vr_size v) st v) (\<lambda>xs. Inr (sizeof_T * nat (vr_size v) + sum_list (map expectedSize xs)))"

subsection \<open>The list a reference stands for\<close>

definition vr_ok :: "'a vstore \<Rightarrow> vref \<Rightarrow> bool" where
  "vr_ok st v \<longleftrightarrow>
     0 \<le> vr_size v \<and> vr_size v \<le> vr_capacity v \<and> vr_capacity v < 2 ^ 31 \<and>
     vr_capacity v \<le> int (length (slots st v)) \<and> None \<notin> set (take (nat (vr_size v)) (slots st v)) \<and>
     (\<forall>a. vr_data v = Some a \<longrightarrow> a < vs_next st) \<and> (\<forall>a \<ge> vs_next st. vs_arrays st a = []) \<and> 0 < vs_sizeof st"

definition elems :: "'a vstore \<Rightarrow> vref \<Rightarrow> 'a list" where
  "elems st v = map the (take (nat (vr_size v)) (slots st v))"

lemma read_slots_ok:
  assumes "vr_ok st v"
  shows "read_slots (vr_size v) st v = Inr (elems st v)" and "length (elems st v) = nat (vr_size v)"
proof -
  have "nat (vr_size v) \<le> length (slots st v)" "0 \<le> vr_size v" using assms by (auto simp: vr_ok_def)
  then show "read_slots (vr_size v) st v = Inr (elems st v)" "length (elems st v) = nat (vr_size v)"
    using assms by (simp_all add: read_slots_def elems_def vr_ok_def Let_def)
qed

text \<open>
  A write changes the slots written and no others; a reference that ends before them keeps its
  elements.
\<close>

definition kept :: "'a vstore \<Rightarrow> 'a vstore \<Rightarrow> vref \<Rightarrow> bool" where
  "kept st st' w \<longleftrightarrow> vr_ok st' w \<and> elems st' w = elems st w \<and> vs_sizeof st' = vs_sizeof st"

lemma write_slots_ok:
  assumes "vr_ok st v" and "vr_size v \<le> i" and "i + int (length xs) \<le> vr_capacity v"
  shows "\<exists>st'. write_slots i xs v st = Inr st' \<and>
    slots st' v = take (nat i) (slots st v) @ map Some xs @ drop (nat i + length xs) (slots st v) \<and>
    vs_next st' = vs_next st \<and> vs_sizeof st' = vs_sizeof st \<and>
    (\<forall>w. vr_ok st w \<and> (vr_data w = vr_data v \<longrightarrow> vr_off w + nat (vr_size w) \<le> vr_off v + nat i) \<longrightarrow> kept st st' w) \<and>
    (\<forall>a \<ge> vs_next st. vs_arrays st' a = [])"
proof (cases "xs = []")
  case True
  then show ?thesis using assms(1) by (auto simp: write_slots_def kept_def vr_ok_def)
next
  case False
  have len: "i + int (length xs) \<le> int (length (slots st v))" "0 \<le> i"
    using assms by (auto simp: vr_ok_def)
  moreover have "0 < length xs" using False by simp
  ultimately have "0 < length (slots st v)" by linarith
  then have "slots st v \<noteq> []" by simp
  then obtain a where a: "vr_data v = Some a" by (auto simp: slots_def split: option.splits)
  let ?arr = "vs_arrays st a" and ?k = "vr_off v + nat i"
  let ?new = "take ?k ?arr @ map Some xs @ drop (?k + length xs) ?arr"
  let ?st = "st\<lparr>vs_arrays := (vs_arrays st)(a := ?new)\<rparr>"
  have w: "write_slots i xs v st = Inr ?st" using False len a by (simp add: write_slots_def Let_def)
  have "i + int (length xs) \<le> int (length ?arr - vr_off v)" using len a by (simp add: slots_def)
  moreover have "0 < length xs" using False by simp
  ultimately have k: "?k + length xs \<le> length ?arr" using len(2) by linarith
  have s: "slots ?st v = take (nat i) (slots st v) @ map Some xs @ drop (nat i + length xs) (slots st v)"
    using a k by (simp add: slots_def drop_take add.commute add.left_commute)
  have "kept st ?st u" if u: "vr_ok st u" "vr_data u = vr_data v \<longrightarrow> vr_off u + nat (vr_size u) \<le> ?k" for u
  proof (cases "vr_data u = vr_data v")
    case True
    have l: "length ?new = length ?arr" using k by simp
    have "take (nat (vr_size u)) (drop (vr_off u) ?new) = take (nat (vr_size u)) (drop (vr_off u) ?arr)"
      using u(2) True k by (simp add: take_drop [symmetric] drop_take)
    moreover have sl: "slots ?st u = drop (vr_off u) ?new" "slots st u = drop (vr_off u) ?arr"
      using True a by (simp_all add: slots_def)
    ultimately have "take (nat (vr_size u)) (slots ?st u) = take (nat (vr_size u)) (slots st u)"
        "length (slots ?st u) = length (slots st u)"
      unfolding sl length_drop l by blast+
    then show ?thesis using u(1) assms(1) a by (auto simp: kept_def vr_ok_def elems_def)
  next
    case False
    then have "slots ?st u = slots st u" using a by (auto simp: slots_def split: option.splits)
    then show ?thesis using u(1) assms(1) a by (auto simp: kept_def vr_ok_def elems_def)
  qed
  moreover have "\<forall>b \<ge> vs_next st. vs_arrays ?st b = []" using assms(1) a by (auto simp: vr_ok_def)
  ultimately show ?thesis using w s by auto
qed

lemma slots_kept:
  assumes "vr_ok st w" and "\<And>a. a < vs_next st \<Longrightarrow> vs_arrays st' a = vs_arrays st a" and "vs_next st \<le> vs_next st'"
    and "\<forall>a \<ge> vs_next st'. vs_arrays st' a = []" and "vs_sizeof st' = vs_sizeof st"
  shows "kept st st' w"
proof -
  have "slots st' w = slots st w" using assms(1,2) by (auto simp: slots_def vr_ok_def split: option.splits)
  then show ?thesis using assms by (auto simp: kept_def vr_ok_def elems_def)
qed

lemma kept_trans: "kept st st' w \<Longrightarrow> kept st' st'' w \<Longrightarrow> kept st st'' w"
  by (simp add: kept_def)

text \<open>A fresh array, filled with the elements of an old one.\<close>

lemma fill_fresh:
  assumes v: "vr_ok st v" and xs: "length xs = nat n" and n: "0 \<le> n" "n \<le> c" "c < 2 ^ 31"
    and st1: "allocate c st = Inr (a, st1)" and v1: "v1 = \<lparr>vr_data = Some a, vr_off = 0, vr_size = n, vr_capacity = c\<rparr>"
  shows "\<exists>st2. write_slots 0 xs v1 st1 = Inr st2 \<and> vr_ok st2 v1 \<and> elems st2 v1 = xs \<and> a = vs_next st \<and>
    (\<forall>w. vr_ok st w \<longrightarrow> kept st st2 w)"
proof -
  have a: "a = vs_next st" "vs_next st1 = Suc (vs_next st)" "vs_arrays st1 a = replicate (nat c) None"
      "\<And>b. b < vs_next st \<Longrightarrow> vs_arrays st1 b = vs_arrays st b" "vs_sizeof st1 = vs_sizeof st"
    using st1 by (auto simp: allocate_def result_simps)
  have nx: "\<forall>b \<ge> vs_next st1. vs_arrays st1 b = []" using v st1 by (auto simp: allocate_def result_simps vr_ok_def)
  have pos: "0 < vs_sizeof st1" using v a(5) by (simp add: vr_ok_def)
  let ?v0 = "v1\<lparr>vr_size := 0\<rparr>"
  have "vr_ok st1 ?v0" using a nx n pos by (auto simp: vr_ok_def v1 slots_def)
  moreover have "write_slots 0 xs ?v0 st1 = write_slots 0 xs v1 st1" by (simp add: write_slots_def slots_def v1)
  ultimately obtain st2 where st2: "write_slots 0 xs v1 st1 = Inr st2"
      "slots st2 ?v0 = take 0 (slots st1 ?v0) @ map Some xs @ drop (length xs) (slots st1 ?v0)" "vs_next st2 = vs_next st1" "vs_sizeof st2 = vs_sizeof st1"
      "\<And>w. vr_ok st1 w \<Longrightarrow> (vr_data w = Some a \<longrightarrow> vr_off w + nat (vr_size w) \<le> 0) \<Longrightarrow> kept st1 st2 w"
      "\<forall>b \<ge> vs_next st1. vs_arrays st2 b = []"
    using write_slots_ok [of st1 ?v0 0 xs] xs n by (auto simp: v1)
  have s: "slots st2 v1 = map Some xs @ drop (length xs) (replicate (nat c) None)"
    using st2(2) a(3) by (simp add: slots_def v1)
  have "vr_ok st2 v1" using s xs n st2(3,4,6) a pos by (auto simp: vr_ok_def v1)
  moreover have "elems st2 v1 = xs" using s xs by (simp add: elems_def v1 comp_def)
  moreover have "kept st st2 w" if w: "vr_ok st w" for w
  proof -
    have "kept st st1 w" using slots_kept [OF w, of st1] a nx by auto
    moreover have "kept st1 st2 w"
    proof (rule st2(5))
      show "vr_ok st1 w" using \<open>kept st st1 w\<close> by (simp add: kept_def)
      show "vr_data w = Some a \<longrightarrow> vr_off w + nat (vr_size w) \<le> 0" using w a(1) by (auto simp: vr_ok_def)
    qed
    ultimately show ?thesis by (rule kept_trans)
  qed
  ultimately show ?thesis using st2(1) a(1) by blast
qed

text \<open>Room for \<open>n\<close> elements, or twice the old capacity, has less than \<open>2 ^ 30\<close> bytes.\<close>

definition grow_fits :: "'a vstore \<Rightarrow> vref \<Rightarrow> int \<Rightarrow> bool" where
  "grow_fits st v n \<longleftrightarrow> max (vr_capacity v * 2) n * int (vs_sizeof st) < 2 ^ 30"

lemma grow_fits_int:
  assumes "vr_ok st v" and "grow_fits st v n"
  shows "max (vr_capacity v * 2) n < 2 ^ 30" and "0 \<le> max (vr_capacity v * 2) n"
proof -
  let ?m = "max (vr_capacity v * 2) n"
  show "0 \<le> ?m" using assms(1) by (auto simp: vr_ok_def)
  then have "?m * 1 \<le> ?m * int (vs_sizeof st)" using assms(1) by (intro mult_left_mono) (auto simp: vr_ok_def)
  then show "?m < 2 ^ 30" using assms(2) by (simp add: grow_fits_def)
qed

lemma vr_reserve_ok:
  assumes v: "vr_ok st v" and n: "grow_fits st v n"
  shows "\<exists>v' st'. vr_reserve n v st = Inr (v', st') \<and> vr_ok st' v' \<and> elems st' v' = elems st v \<and>
    vr_size v' = vr_size v \<and> n \<le> vr_capacity v' \<and> (\<forall>w. vr_ok st w \<longrightarrow> kept st st' w) \<and>
    (if n \<le> vr_capacity v then v' = v \<and> st' = st else vr_data v' = Some (vs_next st))"
proof (cases "n \<le> vr_capacity v")
  case True
  then show ?thesis using v by (auto simp: vr_reserve_def kept_def)
next
  case False
  let ?req = "max (vr_capacity v * 2) n"
  note fit = grow_fits_int [OF v n]
  have b: "0 \<le> vr_size v" "vr_size v \<le> ?req" "?req < 2 ^ 31" "fits_int (vr_capacity v * 2)"
    using v fit by (auto simp: vr_ok_def fits_int_def)
  obtain a st1 where al: "allocate ?req st = Inr (a, st1)"
    using n fit(2) by (auto simp: allocate_def grow_fits_def)
  let ?v1 = "\<lparr>vr_data = Some a, vr_off = 0, vr_size = vr_size v, vr_capacity = ?req\<rparr>"
  obtain st2 where "write_slots 0 (elems st v) ?v1 st1 = Inr st2" "vr_ok st2 ?v1" "elems st2 ?v1 = elems st v"
      "a = vs_next st" "\<forall>w. vr_ok st w \<longrightarrow> kept st st2 w"
    using fill_fresh [OF v read_slots_ok(2) [OF v] b(1-3) al refl] by blast
  then show ?thesis
    using False al b(4) read_slots_ok(1) [OF v]
    by (simp add: vr_reserve_def vr_reallocate_def int_op_def Let_def)
qed

lemma vr_reserve_too_large:
  assumes "vr_ok st v" and "vr_capacity v < n" and "vr_capacity v < 2 ^ 30" and "2 ^ 31 - 1 \<le> max (vr_capacity v * 2) n * int (vs_sizeof st)"
  shows "vr_reserve n v st = Inl Assert_failed"
proof -
  have "fits_int (vr_capacity v * 2)" using assms(1,3) by (auto simp: vr_ok_def fits_int_def)
  then show ?thesis
    using assms(2,4) by (simp add: vr_reserve_def vr_reallocate_def int_op_def allocate_def)
qed

subsection \<open>Growing\<close>

text \<open>Room made, elements constructed behind the last one, and the size set.\<close>

lemma grow_ok:
  assumes v: "vr_ok st v" and n: "n = vr_size v + int (length xs)" "grow_fits st v n"
  shows "\<exists>v1 st1 st2. vr_reserve n v st = Inr (v1, st1) \<and> write_slots (vr_size v1) xs v1 st1 = Inr st2 \<and>
    vr_size v1 = vr_size v \<and>
    vr_ok st2 (v1\<lparr>vr_size := n\<rparr>) \<and> elems st2 (v1\<lparr>vr_size := n\<rparr>) = elems st v @ xs \<and>
    (\<forall>w. vr_ok st w \<and> (vr_capacity v < n \<or> vr_data w \<noteq> vr_data v \<or> vr_off w + nat (vr_size w) \<le> vr_off v + nat (vr_size v))
       \<longrightarrow> kept st st2 w)"
proof -
  obtain v1 st1 where r: "vr_reserve n v st = Inr (v1, st1)" "vr_ok st1 v1" "elems st1 v1 = elems st v"
      "vr_size v1 = vr_size v" "n \<le> vr_capacity v1" "\<forall>w. vr_ok st w \<longrightarrow> kept st st1 w"
      "if n \<le> vr_capacity v then v1 = v \<and> st1 = st else vr_data v1 = Some (vs_next st)"
    using vr_reserve_ok [OF v n(2)] by blast
  obtain st2 where w: "write_slots (vr_size v1) xs v1 st1 = Inr st2"
      "slots st2 v1 = take (nat (vr_size v1)) (slots st1 v1) @ map Some xs @ drop (nat (vr_size v1) + length xs) (slots st1 v1)"
      "vs_next st2 = vs_next st1" "vs_sizeof st2 = vs_sizeof st1"
      "\<forall>w. vr_ok st1 w \<and> (vr_data w = vr_data v1 \<longrightarrow> vr_off w + nat (vr_size w) \<le> vr_off v1 + nat (vr_size v1)) \<longrightarrow> kept st1 st2 w"
      "\<forall>a \<ge> vs_next st1. vs_arrays st2 a = []"
    using write_slots_ok [OF r(2), of "vr_size v1" xs] r(4,5) n(1) by auto
  let ?v = "v1\<lparr>vr_size := n\<rparr>"
  have len: "nat (vr_size v1) \<le> length (slots st1 v1)" "0 \<le> vr_size v1" "n \<le> int (length (slots st1 v1))"
      "nat n = nat (vr_size v1) + length xs" "0 \<le> n"
    using r(2,4,5) n(1) by (auto simp: vr_ok_def)
  have s: "slots st2 ?v = slots st2 v1" by (simp add: slots_def split: option.splits)
  have t: "take (nat n) (slots st2 v1) = take (nat (vr_size v1)) (slots st1 v1) @ map Some xs"
    using len by (simp add: w(2))
  have l: "length (slots st2 v1) = length (slots st1 v1)" using len w(2) by simp
  have "vr_ok st2 ?v" using r(2,5) len w(3,4,6) s t l by (auto simp: vr_ok_def)
  moreover have "elems st2 ?v = elems st v @ xs"
    using r(3) s t by (simp add: elems_def comp_def)
  moreover have "kept st st2 u"
    if u: "vr_ok st u" "vr_capacity v < n \<or> vr_data u \<noteq> vr_data v \<or> vr_off u + nat (vr_size u) \<le> vr_off v + nat (vr_size v)" for u
  proof -
    have k: "kept st st1 u" using r(6) u(1) by blast
    have "vr_data u = vr_data v1 \<longrightarrow> vr_off u + nat (vr_size u) \<le> vr_off v1 + nat (vr_size v1)"
      using r(7) u by (auto simp: vr_ok_def split: if_splits)
    then have "kept st1 st2 u" using w(5) k unfolding kept_def by blast
    then show ?thesis using k by (rule kept_trans [rotated])
  qed
  ultimately show ?thesis using r(1,4) w(1) by blast
qed

text \<open>
  Property C36: a \<open>VectorRef\<close> is a list, and growing it disturbs no other.  While room for the new size, or
  twice the capacity, has less than \<open>2 ^ 30\<close> bytes, \<open>append\<close>, \<open>push_back\<close> and \<open>resize\<close> to a size that is not
  smaller succeed and give the list with the elements added at its end.  Every other reference keeps
  its elements that has other memory or ends where the vector ends, such as a slice of it or an
  earlier copy; and if the vector was full, every other reference keeps its elements.  A vector that
  is full and would need more bytes than the arena's \<open>new[]\<close> allows fails its assertion.
\<close>

theorem vector_grows:
  assumes v: "vr_ok st v"
  defines "undisturbed \<equiv> \<lambda>n st' w. vr_ok st w \<and> (vr_capacity v < n \<or> vr_data w \<noteq> vr_data v \<or>
      vr_off w + nat (vr_size w) \<le> vr_off v + nat (vr_size v)) \<longrightarrow> kept st st' w"
  shows "(grow_fits st v (vr_size v + int (length xs)) \<longrightarrow>
      (\<exists>v' st'. vr_append xs v st = Inr (v', st') \<and> vr_ok st' v' \<and> elems st' v' = elems st v @ xs \<and>
        (\<forall>w. undisturbed (vr_size v + int (length xs)) st' w))) \<and>
    (grow_fits st v (vr_size v + 1) \<longrightarrow>
      (\<exists>v' st'. vr_push_back x v st = Inr (v', st') \<and> vr_ok st' v' \<and> elems st' v' = elems st v @ [x] \<and>
        (\<forall>w. undisturbed (vr_size v + 1) st' w))) \<and>
    (vr_size v \<le> m \<and> grow_fits st v m \<longrightarrow>
      (\<exists>v' st'. vr_resize d m v st = Inr (v', st') \<and> vr_ok st' v' \<and>
        elems st' v' = elems st v @ replicate (nat (m - vr_size v)) d \<and> (\<forall>w. undisturbed m st' w))) \<and>
    (vr_size v = vr_capacity v \<and> vr_capacity v < 2 ^ 30 \<and>
        2 ^ 31 - 1 \<le> max (vr_capacity v * 2) (vr_size v + 1) * int (vs_sizeof st) \<longrightarrow>
      vr_push_back x v st = Inl Assert_failed)"
proof (intro conjI impI)
  have sz: "0 \<le> vr_size v" "vr_size v \<le> vr_capacity v" using v by (auto simp: vr_ok_def)
  have f: "int_op n = Inr n" if "grow_fits st v n" "0 \<le> n" for n
    using grow_fits_int(1) [OF v that(1)] that(2) by (simp add: int_op_def fits_int_def)
  show "\<exists>v' st'. vr_append xs v st = Inr (v', st') \<and> vr_ok st' v' \<and> elems st' v' = elems st v @ xs \<and>
      (\<forall>w. undisturbed (vr_size v + int (length xs)) st' w)" if n: "grow_fits st v (vr_size v + int (length xs))"
    using grow_ok [OF v refl n] f [OF n] sz unfolding undisturbed_def by (fastforce simp: vr_append_def)
  show "\<exists>v' st'. vr_push_back x v st = Inr (v', st') \<and> vr_ok st' v' \<and> elems st' v' = elems st v @ [x] \<and>
      (\<forall>w. undisturbed (vr_size v + 1) st' w)" if n: "grow_fits st v (vr_size v + 1)"
    using grow_ok [OF v, of "vr_size v + 1" "[x]"] n f [OF n] sz unfolding undisturbed_def by (fastforce simp: vr_push_back_def)
  show "\<exists>v' st'. vr_resize d m v st = Inr (v', st') \<and> vr_ok st' v' \<and>
      elems st' v' = elems st v @ replicate (nat (m - vr_size v)) d \<and> (\<forall>w. undisturbed m st' w)"
    if m: "vr_size v \<le> m \<and> grow_fits st v m"
  proof -
    have "m = vr_size v + int (length (replicate (nat (m - vr_size v)) d))" using m by simp
    then show ?thesis
      using grow_ok [OF v, of m "replicate (nat (m - vr_size v)) d"] m unfolding undisturbed_def by (fastforce simp: vr_resize_def)
  qed
  show "vr_push_back x v st = Inl Assert_failed"
    if full: "vr_size v = vr_capacity v \<and> vr_capacity v < 2 ^ 30 \<and>
      2 ^ 31 - 1 \<le> max (vr_capacity v * 2) (vr_size v + 1) * int (vs_sizeof st)"
  proof -
    have "vr_reserve (vr_size v + 1) v st = Inl Assert_failed"
      using vr_reserve_too_large [OF v, of "vr_size v + 1"] full by linarith
    then show ?thesis using full sz by (simp add: vr_push_back_def int_op_def fits_int_def)
  qed
qed

definition no_vectors :: "nat vstore" where
  "no_vectors = \<lparr>vs_arrays = \<lambda>_. [], vs_next = 0, vs_sizeof = 8\<rparr>"

theorem vector_grows_witness:
  "(\<exists>v' st'. vr_append [4, 5] vr_empty no_vectors = Inr (v', st') \<and> elems st' v' = [4, 5]) \<and>
   (\<exists>v' st'. vr_resize 7 3 vr_empty no_vectors = Inr (v', st') \<and> elems st' v' = [7, 7, 7])"
proof -
  have e: "vr_ok no_vectors vr_empty" "vr_size vr_empty = 0" "elems no_vectors vr_empty = []"
    by (simp_all add: vr_ok_def vr_empty_def no_vectors_def slots_def elems_def)
  have f: "grow_fits no_vectors vr_empty n" if "n < 4" for n
    using that by (simp add: grow_fits_def vr_empty_def no_vectors_def)
  show ?thesis
    using vector_grows [OF e(1), of "[4, 5]" 0 3 7] e(2,3) f [of 2] f [of 3]
    by (fastforce simp: eval_nat_numeral)
qed

subsection \<open>Views\<close>

lemma vr_nth_ok:
  assumes "vr_ok st v" and "0 \<le> i" and "i < vr_size v"
  shows "vr_nth st v i = Inr (elems st v ! nat i)"
proof -
  have i: "nat i < nat (vr_size v)" "nat i < length (slots st v)" using assms by (auto simp: vr_ok_def)
  then have "slots st v ! nat i \<in> set (take (nat (vr_size v)) (slots st v))"
    by (metis (no_types, lifting) in_set_conv_nth length_take min_less_iff_conj nth_take)
  moreover have "None \<notin> set (take (nat (vr_size v)) (slots st v))" using assms(1) by (simp add: vr_ok_def)
  ultimately have "slots st v ! nat i \<noteq> None" by metis
  then show ?thesis using i assms(2) by (auto simp: vr_nth_def elems_def)
qed

lemma vr_equal_loop_ok:
  assumes "vr_ok st v" and "vr_ok st w" and "vr_size v = vr_size w" and "0 \<le> i" and "i + int n = vr_size v"
  shows "vr_equal_loop st v w n i = Inr (drop (nat i) (elems st v) = drop (nat i) (elems st w))"
  using assms(4,5)
proof (induction n arbitrary: i)
  case 0
  then show ?case using read_slots_ok(2) [OF assms(1)] read_slots_ok(2) [OF assms(2)] assms(3) by simp
next
  case (Suc n)
  have i: "nat i < length (elems st v)" "nat i < length (elems st w)"
    using Suc.prems read_slots_ok(2) [OF assms(1)] read_slots_ok(2) [OF assms(2)] assms(3) by auto
  have "nat (i + 1) = Suc (nat i)" using Suc.prems by simp
  then show ?case
    using Suc.IH [of "i + 1"] Suc.prems vr_nth_ok [OF assms(1)] vr_nth_ok [OF assms(2)] assms(3)
      Cons_nth_drop_Suc [OF i(1)] Cons_nth_drop_Suc [OF i(2)]
    by (simp add: list.inject [symmetric] del: list.inject) (metis list.inject)
qed

lemma view_ok:
  assumes "vr_ok st v" and "int k + n \<le> vr_size v" and "0 \<le> n" and "n \<le> c" and "int k + c \<le> vr_capacity v"
  shows "vr_ok st (v\<lparr>vr_off := vr_off v + k, vr_size := n, vr_capacity := c\<rparr>)"
    and "elems st (v\<lparr>vr_off := vr_off v + k, vr_size := n, vr_capacity := c\<rparr>) = take (nat n) (drop k (elems st v))"
proof -
  let ?w = "v\<lparr>vr_off := vr_off v + k, vr_size := n, vr_capacity := c\<rparr>"
  have s: "slots st ?w = drop k (slots st v)" by (simp add: slots_def add.commute split: option.splits)
  have "k + nat n \<le> nat (vr_size v)" using assms(2,3) by linarith
  then have t: "take (nat n) (drop k (take (nat (vr_size v)) (slots st v))) = take (nat n) (drop k (slots st v))"
    by (simp add: drop_take)
  have "set (take (nat n) (drop k (slots st v))) \<subseteq> set (take (nat (vr_size v)) (slots st v))"
    unfolding t [symmetric] by (meson set_drop_subset set_take_subset subset_trans)
  then have "None \<notin> set (take (nat n) (slots st ?w))" using assms(1) by (auto simp: s vr_ok_def)
  moreover have "c \<le> int (length (slots st ?w))" "c < 2 ^ 31" using assms by (auto simp: s vr_ok_def)
  ultimately show "vr_ok st ?w" using assms by (simp add: vr_ok_def)
  show "elems st ?w = take (nat n) (drop k (elems st v))"
    using t by (simp add: elems_def s take_map drop_map)
qed

text \<open>
  The views of a \<open>VectorRef\<close>.  A slice is the slice of the list, without spare capacity, so
  growing it copies; \<open>pop_front\<close> and \<open>pop_back\<close> drop elements; an arena copy (of less than \<open>2 ^ 30\<close> bytes) has its own memory and keeps
  all other references; two references are equal when their lists are.
\<close>

theorem vector_views:
  assumes v: "vr_ok st v" and w: "vr_ok st w" and be: "0 \<le> b" "b \<le> e" "e \<le> vr_size v" and c: "0 \<le> c"
    and bytes: "vr_size v * int (vs_sizeof st) < 2 ^ 30"
  shows "elems st (vr_slice b e v) = take (nat (e - b)) (drop (nat b) (elems st v)) \<and> vr_ok st (vr_slice b e v) \<and>
      vr_capacity (vr_slice b e v) = vr_size (vr_slice b e v) \<and>
    elems st (vr_pop_front c v) = drop (nat c) (elems st v) \<and> vr_ok st (vr_pop_front c v) \<and>
    (0 < vr_size v \<longrightarrow> elems st (vr_pop_back v) = butlast (elems st v) \<and> vr_ok st (vr_pop_back v)) \<and>
    (\<exists>v' st'. vr_copy v st = Inr (v', st') \<and> vr_ok st' v' \<and> elems st' v' = elems st v \<and> vr_data v' = Some (vs_next st) \<and>
      (\<forall>u. vr_ok st u \<longrightarrow> kept st st' u)) \<and>
    vr_equal st v w = Inr (elems st v = elems st w)"
proof (intro conjI impI)
  have sz: "0 \<le> vr_size v" "vr_size v \<le> vr_capacity v" "vr_capacity v < 2 ^ 31" and len: "length (elems st v) = nat (vr_size v)"
    using v read_slots_ok(2) [OF v] by (auto simp: vr_ok_def)
  show "elems st (vr_slice b e v) = take (nat (e - b)) (drop (nat b) (elems st v))" "vr_ok st (vr_slice b e v)"
    using view_ok [OF v, of "nat b" "e - b" "e - b"] be sz by (simp_all add: vr_slice_def)
  show "vr_capacity (vr_slice b e v) = vr_size (vr_slice b e v)" by (simp add: vr_slice_def)
  define d where "d = min (vr_size v) c"
  have d: "0 \<le> d" "d \<le> vr_size v" using c sz by (auto simp: d_def)
  have "drop (nat d) (elems st v) = drop (nat c) (elems st v)" using len by (simp add: d_def min_def)
  moreover have "nat d \<le> nat c" by (simp add: d_def)
  ultimately show "elems st (vr_pop_front c v) = drop (nat c) (elems st v)" "vr_ok st (vr_pop_front c v)"
    using view_ok [OF v, of "nat d" "vr_size v - d" "vr_capacity v - d"] d sz len
    by (simp_all add: vr_pop_front_def Let_def d_def [symmetric] nat_diff_distrib)
  show "elems st (vr_pop_back v) = butlast (elems st v)" "vr_ok st (vr_pop_back v)" if "0 < vr_size v"
    using view_ok [OF v, of 0 "vr_size v - 1" "vr_capacity v"] that sz len
    by (simp_all add: vr_pop_back_def butlast_conv_take nat_diff_distrib)
  obtain a st1 where al: "allocate (vr_size v) st = Inr (a, st1)" using bytes sz(1) by (auto simp: allocate_def)
  from fill_fresh [OF v len sz(1) order_refl _ al refl] sz
  show "\<exists>v' st'. vr_copy v st = Inr (v', st') \<and> vr_ok st' v' \<and> elems st' v' = elems st v \<and> vr_data v' = Some (vs_next st) \<and>
      (\<forall>u. vr_ok st u \<longrightarrow> kept st st' u)"
    using al read_slots_ok(1) [OF v] by (auto simp: vr_copy_def vr_at_def Let_def)
  show "vr_equal st v w = Inr (elems st v = elems st w)"
  proof (cases "vr_size v = vr_size w")
    case True
    then show ?thesis using vr_equal_loop_ok [OF v w True, of 0 "nat (vr_size v)"] sz by (simp add: vr_equal_def)
  next
    case False
    then have "length (elems st v) \<noteq> length (elems st w)"
      using read_slots_ok(2) [OF v] read_slots_ok(2) [OF w] v w by (auto simp: vr_ok_def)
    then show ?thesis using False by (auto simp: vr_equal_def)
  qed
qed

theorem vector_views_witness: "vr_equal no_vectors vr_empty vr_empty = Inr True"
proof -
  have "vr_ok no_vectors vr_empty" "vr_size vr_empty = 0" by (simp_all add: vr_ok_def vr_empty_def no_vectors_def slots_def)
  then show ?thesis using vector_views [of no_vectors vr_empty vr_empty 0 0 0] by simp
qed

end
