(* ===== verification/Packets.thy ===== *)
theory Packets
  imports Archives
begin

text \<open>
  Packet buffers (\<open>src/flow/Net2Packet.h\<close>, \<open>src/flow/Net2Packet.cpp\<close>, \<open>PacketBuffer\<close> and \<open>PacketWriter\<close> of
  \<open>src/flow/serialize.h\<close>).  Buffers and reliable packets live in a heap by address and point to each
  other.  The bytes of a buffer are a function of their index, with unspecified bytes where nothing
  was written.  Byte counts are natural numbers, those passed to
  operations below \<open>2 ^ 31 - DATA_SIZE\<close>, and the count a writer sums up is checked against the range of its \<open>int\<close>.  The last three fields of a writer are not in the
  source: they record the bytes that were in the first buffer at the start, and the buffers and
  reliable packets that were filled before the current ones.
\<close>

subsection \<open>The heap\<close>

definition DATA_SIZE :: nat where
  "DATA_SIZE = 4096 - 28"

record packet_buffer =
  pb_written :: nat
  pb_sent :: nat
  pb_data :: "nat \<Rightarrow> u8"
  pb_next :: "nat option"
  pb_refs :: int

record reliable_packet =
  rp_buffer :: nat
  rp_cont :: "nat option"
  rp_prev :: nat
  rp_next :: nat
  rp_begin :: nat
  rp_end :: nat

record pheap =
  ph_bufs :: "nat \<Rightarrow> packet_buffer option"
  ph_rels :: "nat \<Rightarrow> reliable_packet option"
  ph_fresh :: nat
  ph_junk :: "nat \<Rightarrow> u8"

definition pb_new :: "(nat \<Rightarrow> u8) \<Rightarrow> packet_buffer" where
  "pb_new junk = \<lparr>pb_written = 0, pb_sent = 0, pb_data = junk, pb_next = None, pb_refs = 1\<rparr>"

definition new_buffer :: "pheap \<Rightarrow> nat \<times> pheap" where
  "new_buffer h =
     (ph_fresh h, h\<lparr>ph_bufs := (ph_bufs h)(ph_fresh h \<mapsto> pb_new (ph_junk h)), ph_fresh := Suc (ph_fresh h)\<rparr>)"

definition get_buf :: "nat \<Rightarrow> pheap \<Rightarrow> packet_buffer result" where
  "get_buf a h = (case ph_bufs h a of None \<Rightarrow> Inl Undefined_behaviour | Some b \<Rightarrow> Inr b)"

definition upd_buf :: "nat \<Rightarrow> (packet_buffer \<Rightarrow> packet_buffer) \<Rightarrow> pheap \<Rightarrow> pheap result" where
  "upd_buf a f h = bind_result (get_buf a h) (\<lambda>b. Inr (h\<lparr>ph_bufs := (ph_bufs h)(a \<mapsto> f b)\<rparr>))"

definition get_rel :: "nat \<Rightarrow> pheap \<Rightarrow> reliable_packet result" where
  "get_rel a h = (case ph_rels h a of None \<Rightarrow> Inl Undefined_behaviour | Some r \<Rightarrow> Inr r)"

definition upd_rel :: "nat \<Rightarrow> (reliable_packet \<Rightarrow> reliable_packet) \<Rightarrow> pheap \<Rightarrow> pheap result" where
  "upd_rel a f h = bind_result (get_rel a h) (\<lambda>r. Inr (h\<lparr>ph_rels := (ph_rels h)(a \<mapsto> f r)\<rparr>))"

definition pb_addref :: "nat \<Rightarrow> pheap \<Rightarrow> pheap result" where
  "pb_addref a = upd_buf a (\<lambda>b. b\<lparr>pb_refs := pb_refs b + 1\<rparr>)"

definition pb_delref :: "nat \<Rightarrow> pheap \<Rightarrow> pheap result" where
  "pb_delref a h =
     bind_result (get_buf a h) (\<lambda>b.
       if pb_refs b - 1 = 0 then Inr (h\<lparr>ph_bufs := (ph_bufs h)(a := None)\<rparr>)
       else upd_buf a (\<lambda>b. b\<lparr>pb_refs := pb_refs b - 1\<rparr>) h)"

definition pb_unwritten :: "packet_buffer \<Rightarrow> nat" where
  "pb_unwritten b = DATA_SIZE - pb_written b"

text \<open>\<open>memcpy\<close> to the end of a buffer, and the bytes of a range of it.\<close>

definition put_bytes :: "bytes \<Rightarrow> packet_buffer \<Rightarrow> packet_buffer" where
  "put_bytes xs b = b\<lparr>pb_data := (\<lambda>i. if pb_written b \<le> i \<and> i < pb_written b + length xs then xs ! (i - pb_written b)
       else pb_data b i), pb_written := pb_written b + length xs\<rparr>"

definition pb_range :: "packet_buffer \<Rightarrow> nat \<Rightarrow> nat \<Rightarrow> bytes" where
  "pb_range b i j = map (pb_data b) [i..<j]"

subsection \<open>PacketWriter\<close>

record packet_writer =
  pw_heap :: pheap
  pw_buffer :: nat
  pw_reliable :: "nat option"
  pw_length :: int
  pw_version :: u64
  pw_start :: nat
  pw_filled :: "nat list"
  pw_rels :: "nat list"

definition on_heap :: "(pheap \<Rightarrow> pheap result) \<Rightarrow> packet_writer \<Rightarrow> packet_writer result" where
  "on_heap f w = bind_result (f (pw_heap w)) (\<lambda>h. Inr (w\<lparr>pw_heap := h\<rparr>))"

text \<open>\<open>length\<close> is a C \<open>int\<close>: a count that does not fit it is undefined.\<close>

definition pw_count :: "nat \<Rightarrow> packet_writer \<Rightarrow> packet_writer result" where
  "pw_count n w =
     (if pw_length w + int n < 2 ^ 31 then Inr (w\<lparr>pw_length := pw_length w + int n\<rparr>) else Inl Undefined_behaviour)"

lemma pw_count_Inr: "pw_count n w = Inr w' \<longleftrightarrow> pw_length w + int n < 2 ^ 31 \<and> w' = w\<lparr>pw_length := pw_length w + int n\<rparr>"
  by (auto simp: pw_count_def)

definition pw_init :: "nat \<Rightarrow> nat option \<Rightarrow> pheap \<Rightarrow> packet_writer result" where
  "pw_init buf reliable h =
     bind_result (get_buf buf h) (\<lambda>b.
       let w = \<lparr>pw_heap = h, pw_buffer = buf, pw_reliable = reliable, pw_length = 0 - int (pb_written b),
                pw_version = 0, pw_start = pb_written b, pw_filled = [], pw_rels = []\<rparr>
       in case reliable of
            None \<Rightarrow> Inr w
          | Some r \<Rightarrow>
              on_heap (\<lambda>h. bind_result (upd_rel r (\<lambda>p. p\<lparr>rp_buffer := buf\<rparr>) h) (\<lambda>h.
                bind_result (pb_addref buf h) (upd_rel r (\<lambda>p. p\<lparr>rp_begin := pb_written b\<rparr>)))) w)"

definition pw_finish :: "packet_writer \<Rightarrow> (nat \<times> packet_writer) result" where
  "pw_finish w =
     bind_result (get_buf (pw_buffer w) (pw_heap w)) (\<lambda>b.
     bind_result (pw_count (pb_written b) w) (\<lambda>w1.
       case pw_reliable w1 of
         None \<Rightarrow> Inr (pw_buffer w1, w1)
       | Some r \<Rightarrow>
           bind_result (on_heap (upd_rel r (\<lambda>p. p\<lparr>rp_cont := None, rp_end := pb_written b\<rparr>)) w1) (\<lambda>w2.
             Inr (pw_buffer w2, w2))))"

text \<open>The reliable part of \<open>nextBuffer\<close>: the packet ends here and goes on in a new one.\<close>

definition rel_next :: "nat \<Rightarrow> nat \<Rightarrow> pheap \<Rightarrow> (nat \<times> pheap) result" where
  "rel_next r buf h =
     (let r' = ph_fresh h;
          h1 = h\<lparr>ph_rels := (ph_rels h)(r' \<mapsto> \<lparr>rp_buffer = buf, rp_cont = None, rp_prev = 0, rp_next = 0, rp_begin = 0, rp_end = 0\<rparr>),
                 ph_fresh := Suc r'\<rparr>
      in bind_result (upd_rel r (\<lambda>p. p\<lparr>rp_end := DATA_SIZE, rp_cont := Some r'\<rparr>) h1) (\<lambda>h2.
         bind_result (pb_addref buf h2) (\<lambda>h3. Inr (r', h3))))"

definition pw_nextBuffer :: "packet_writer \<Rightarrow> packet_writer result" where
  "pw_nextBuffer w =
     bind_result (get_buf (pw_buffer w) (pw_heap w)) (\<lambda>b.
     bind_result (assert_that (pb_written b = DATA_SIZE)) (\<lambda>_.
     bind_result (pw_count DATA_SIZE w) (\<lambda>w1.
       let (nb, h1) = new_buffer (pw_heap w1)
       in bind_result (upd_buf (pw_buffer w) (\<lambda>b. b\<lparr>pb_next := Some nb\<rparr>) h1) (\<lambda>h2.
          let w2 = w1\<lparr>pw_heap := h2, pw_buffer := nb, pw_filled := pw_filled w @ [pw_buffer w]\<rparr>
          in case pw_reliable w of
               None \<Rightarrow> Inr w2
             | Some r \<Rightarrow> bind_result (rel_next r nb h2) (\<lambda>(r', h3).
                 Inr (w2\<lparr>pw_heap := h3, pw_reliable := Some r', pw_rels := pw_rels w @ [r]\<rparr>))))))"

text \<open>
  The loop over a boundary.  A turn that begins in a full buffer writes nothing, and the next one
  starts in an empty buffer.
\<close>

definition cur_begun :: "packet_writer \<Rightarrow> bool" where
  "cur_begun w \<longleftrightarrow> (case ph_bufs (pw_heap w) (pw_buffer w) of None \<Rightarrow> False | Some b \<Rightarrow> pb_written b \<noteq> 0)"

function serializeBytesAcrossBoundary :: "bytes \<Rightarrow> packet_writer \<Rightarrow> packet_writer result" where
  "serializeBytesAcrossBoundary xs w =
     (case get_buf (pw_buffer w) (pw_heap w) of
        Inl e \<Rightarrow> Inl e
      | Inr b \<Rightarrow>
          (let n = min (length xs) (DATA_SIZE - pb_written b)
           in case on_heap (upd_buf (pw_buffer w) (put_bytes (take n xs))) w of
                Inl e \<Rightarrow> Inl e
              | Inr w1 \<Rightarrow>
                  if length xs - n = 0 then Inr w1
                  else (case pw_nextBuffer w1 of
                          Inl e \<Rightarrow> Inl e
                        | Inr w2 \<Rightarrow> serializeBytesAcrossBoundary (drop n xs) w2)))"
  by pat_completeness auto


lemma nextBuffer_fresh:
  assumes "pw_nextBuffer w = Inr w'"
  shows "\<not> cur_begun w'"
proof -
  obtain b where b: "ph_bufs (pw_heap w) (pw_buffer w) = Some b"
    using assms by (auto simp: pw_nextBuffer_def get_buf_def split: option.splits)
  show ?thesis
    using assms b
    by (auto simp: pw_nextBuffer_def get_buf_def new_buffer_def upd_buf_def rel_next_def upd_rel_def get_rel_def
        pb_addref_def pb_new_def cur_begun_def pw_count_Inr result_simps Let_def split: option.splits if_splits)
qed

termination serializeBytesAcrossBoundary
proof (relation "measures [length \<circ> fst, \<lambda>(xs, w). if cur_begun w then 1 else 0]")
  fix xs :: bytes and w w1 w2 :: packet_writer and b :: packet_buffer and n :: nat
  assume b: "get_buf (pw_buffer w) (pw_heap w) = Inr b" and n: "n = min (length xs) (DATA_SIZE - pb_written b)"
    and more: "length xs - n \<noteq> 0" and "pw_nextBuffer w1 = Inr w2"
  then have "\<not> cur_begun w2" by (metis nextBuffer_fresh)
  moreover have "cur_begun w" if "n = 0"
  proof -
    have "pb_written b \<ge> DATA_SIZE" using that n more by auto
    then have "pb_written b \<noteq> 0" by (simp add: DATA_SIZE_def)
    then show ?thesis using b by (auto simp: cur_begun_def get_buf_def split: option.splits)
  qed
  ultimately show "((drop n xs, w2), (xs, w)) \<in> measures [length \<circ> fst, \<lambda>(xs, w). if cur_begun w then 1 else 0]"
    using more by (cases "n = 0") auto
qed simp

declare serializeBytesAcrossBoundary.simps [simp del]

definition pw_serializeBytes :: "bytes \<Rightarrow> packet_writer \<Rightarrow> packet_writer result" where
  "pw_serializeBytes xs w =
     bind_result (get_buf (pw_buffer w) (pw_heap w)) (\<lambda>b.
       if length xs \<le> pb_unwritten b then on_heap (upd_buf (pw_buffer w) (put_bytes xs)) w
       else serializeBytesAcrossBoundary xs w)"

definition pw_serializeBinaryItem :: "bytes \<Rightarrow> packet_writer \<Rightarrow> packet_writer result" where
  "pw_serializeBinaryItem xs w =
     bind_result (get_buf (pw_buffer w) (pw_heap w)) (\<lambda>b.
       if length xs \<le> pb_unwritten b then on_heap (upd_buf (pw_buffer w) (put_bytes xs)) w
       else serializeBytesAcrossBoundary xs w)"

text \<open>\<open>writeAhead\<close> leaves room for bytes to be written later: where they begin, how many fit there, and
  where the others go.\<close>

record split_place =
  sp_begin :: "nat \<times> nat"
  sp_first_length :: nat
  sp_next :: "nat option"

definition pw_writeAhead :: "nat \<Rightarrow> packet_writer \<Rightarrow> (split_place \<times> packet_writer) result" where
  "pw_writeAhead bytes w =
     bind_result (get_buf (pw_buffer w) (pw_heap w)) (\<lambda>b.
       if bytes \<le> DATA_SIZE - pb_written b
       then bind_result (on_heap (upd_buf (pw_buffer w) (\<lambda>b. b\<lparr>pb_written := pb_written b + bytes\<rparr>)) w) (\<lambda>w1.
              Inr (\<lparr>sp_begin = (pw_buffer w, pb_written b), sp_first_length = bytes, sp_next = None\<rparr>, w1))
       else let first_length = DATA_SIZE - pb_written b
            in bind_result (on_heap (upd_buf (pw_buffer w) (\<lambda>b. b\<lparr>pb_written := DATA_SIZE\<rparr>)) w) (\<lambda>w1.
               bind_result (pw_nextBuffer w1) (\<lambda>w2.
               bind_result (on_heap (upd_buf (pw_buffer w2) (\<lambda>b. b\<lparr>pb_written := bytes - first_length\<rparr>)) w2) (\<lambda>w3.
                 Inr (\<lparr>sp_begin = (pw_buffer w, pb_written b), sp_first_length = first_length, sp_next = Some (pw_buffer w2)\<rparr>, w3)))))"

definition packet_writer_ops :: "packet_writer writer_ops" where
  "packet_writer_ops = \<lparr>wr_serializeBytes = pw_serializeBytes, wr_serializeBinaryItem = pw_serializeBinaryItem,
     wr_protocolVersion = pw_version, wr_setProtocolVersion = (\<lambda>v w. w\<lparr>pw_version := v\<rparr>)\<rparr>"

subsection \<open>What a writer has written\<close>

definition links :: "(nat \<Rightarrow> packet_buffer option) \<Rightarrow> nat list \<Rightarrow> nat \<Rightarrow> bool" where
  "links B as a \<longleftrightarrow>
     (\<forall>i < length as. \<exists>b. B (as ! i) = Some b \<and> pb_written b = DATA_SIZE \<and> pb_next b = Some ((as @ [a]) ! Suc i)) \<and>
     (\<exists>b. B a = Some b \<and> pb_written b \<le> DATA_SIZE \<and> pb_next b = None)"

definition rlinks :: "(nat \<Rightarrow> reliable_packet option) \<Rightarrow> nat \<Rightarrow> nat list \<Rightarrow> nat \<Rightarrow> nat list \<Rightarrow> nat \<Rightarrow> bool" where
  "rlinks R start rs r as a \<longleftrightarrow>
     length rs = length as \<and>
     (\<forall>i < length rs. \<exists>p. R (rs ! i) = Some p \<and> rp_buffer p = as ! i \<and> rp_begin p = (if i = 0 then start else 0) \<and>
        rp_end p = DATA_SIZE \<and> rp_cont p = Some ((rs @ [r]) ! Suc i)) \<and>
     (\<exists>p. R r = Some p \<and> rp_buffer p = a \<and> rp_begin p = (if rs = [] then start else 0))"

definition buf_bytes :: "(nat \<Rightarrow> packet_buffer option) \<Rightarrow> nat \<Rightarrow> bytes" where
  "buf_bytes B a = (case B a of None \<Rightarrow> [] | Some b \<Rightarrow> pb_range b 0 (pb_written b))"

definition heap_ok :: "pheap \<Rightarrow> bool" where
  "heap_ok h \<longleftrightarrow> (\<forall>a \<ge> ph_fresh h. ph_bufs h a = None \<and> ph_rels h a = None)"

definition pw_out :: "packet_writer \<Rightarrow> bytes" where
  "pw_out w = drop (pw_start w) (concat (map (buf_bytes (ph_bufs (pw_heap w))) (pw_filled w @ [pw_buffer w])))"

definition pw_inv :: "packet_writer \<Rightarrow> bool" where
  "pw_inv w \<longleftrightarrow>
     heap_ok (pw_heap w) \<and> distinct (pw_filled w @ [pw_buffer w]) \<and>
     links (ph_bufs (pw_heap w)) (pw_filled w) (pw_buffer w) \<and>
     pw_start w \<le> length (buf_bytes (ph_bufs (pw_heap w)) (hd (pw_filled w @ [pw_buffer w]))) \<and>
     pw_length w + int (length (buf_bytes (ph_bufs (pw_heap w)) (pw_buffer w))) = int (length (pw_out w)) \<and>
     (case pw_reliable w of
        None \<Rightarrow> True
      | Some r \<Rightarrow> distinct (pw_rels w @ [r]) \<and>
          rlinks (ph_rels (pw_heap w)) (pw_start w) (pw_rels w) r (pw_filled w) (pw_buffer w))"

definition pw_room :: "packet_writer \<Rightarrow> nat" where
  "pw_room w = 2 ^ 31 - 1 - length (pw_out w)"

lemma put_bytes_range:
  "pb_range (put_bytes xs b) 0 (pb_written (put_bytes xs b)) = pb_range b 0 (pb_written b) @ xs"
  by (rule nth_equalityI) (auto simp: pb_range_def put_bytes_def nth_append)

lemma buf_bytes_put:
  "B a = Some b \<Longrightarrow> buf_bytes (B(a \<mapsto> put_bytes xs b)) a = buf_bytes B a @ xs"
  by (simp add: buf_bytes_def put_bytes_range)

lemma buf_bytes_other: "a \<notin> set as \<Longrightarrow> map (buf_bytes (B(a := x))) as = map (buf_bytes B) as"
  by (auto simp: buf_bytes_def)

lemma buf_bytes_length: "B a = Some b \<Longrightarrow> length (buf_bytes B a) = pb_written b"
  by (simp add: buf_bytes_def pb_range_def)

lemma pw_current:
  assumes "pw_inv w"
  obtains b where "ph_bufs (pw_heap w) (pw_buffer w) = Some b" and "pb_written b \<le> DATA_SIZE" and "pb_next b = None"
  using assms by (auto simp: pw_inv_def links_def)

text \<open>Bytes that fit the current buffer.\<close>

lemma put_ok:
  assumes inv: "pw_inv w" and b: "ph_bufs (pw_heap w) (pw_buffer w) = Some b" and n: "length xs \<le> DATA_SIZE - pb_written b"
  shows "\<exists>w'. on_heap (upd_buf (pw_buffer w) (put_bytes xs)) w = Inr w' \<and> pw_inv w' \<and> pw_out w' = pw_out w @ xs \<and>
    pw_version w' = pw_version w \<and> ph_bufs (pw_heap w') (pw_buffer w') = Some (put_bytes xs b)"
proof -
  let ?B = "ph_bufs (pw_heap w)" and ?a = "pw_buffer w" and ?as = "pw_filled w"
  let ?B' = "?B(?a \<mapsto> put_bytes xs b)"
  let ?w = "w\<lparr>pw_heap := (pw_heap w)\<lparr>ph_bufs := ?B'\<rparr>\<rparr>"
  have run: "on_heap (upd_buf ?a (put_bytes xs)) w = Inr ?w"
    using b by (simp add: on_heap_def upd_buf_def get_buf_def)
  have le: "pb_written b \<le> DATA_SIZE" "pb_next b = None" using pw_current [OF inv] b by auto
  have d: "?a \<notin> set ?as" using inv by (simp add: pw_inv_def)
  have bytes: "concat (map (buf_bytes ?B') (?as @ [?a])) = concat (map (buf_bytes ?B) (?as @ [?a])) @ xs"
    unfolding map_append list.map buf_bytes_other [OF d] using buf_bytes_put [of ?B ?a b xs] b by simp
  have start: "pw_start w \<le> length (buf_bytes ?B (hd (?as @ [?a])))" using inv by (simp add: pw_inv_def)
  then have "pw_start w \<le> length (concat (map (buf_bytes ?B) (?as @ [?a])))" by (cases ?as) auto
  then have out: "pw_out ?w = pw_out w @ xs" using bytes by (simp add: pw_out_def)
  have "links ?B' ?as ?a"
  proof -
    have "?as ! i \<noteq> ?a" if "i < length ?as" for i using d that by (metis nth_mem)
    then show ?thesis using inv n le by (auto simp: pw_inv_def links_def put_bytes_def)
  qed
  moreover have "pw_start w \<le> length (buf_bytes ?B' (hd (?as @ [?a])))"
    using start d by (cases ?as) (auto simp: buf_bytes_def put_bytes_range b)
  moreover have "length (buf_bytes ?B' ?a) = length (buf_bytes ?B ?a) + length xs" using buf_bytes_put [of ?B ?a b xs] b by simp
  ultimately have "pw_inv ?w"
    using inv out b by (auto simp: pw_inv_def heap_ok_def split: option.splits)
  then show ?thesis using run out by auto
qed

text \<open>On to the next buffer.\<close>

lemma links_extend:
  assumes "links B as a" and "B a = Some b" and "pb_written b = DATA_SIZE" and "n \<notin> set (as @ [a])" and "distinct (as @ [a])"
    and "B' = (B(a \<mapsto> b'))(n \<mapsto> c)" and "pb_written b' = DATA_SIZE" and "pb_next b' = Some n"
    and "pb_written c = 0" and "pb_next c = None"
  shows "links B' (as @ [a]) n"
proof -
  have "as ! i \<noteq> a \<and> as ! i \<noteq> n" if "i < length as" for i using assms(4,5) that by (auto simp: in_set_conv_nth)
  then have "\<exists>b. B' ((as @ [a]) ! i) = Some b \<and> pb_written b = DATA_SIZE \<and> pb_next b = Some (((as @ [a]) @ [n]) ! Suc i)"
    if "i < length (as @ [a])" for i
    using that assms unfolding links_def by (cases "i < length as") (auto simp: nth_append less_Suc_eq)
  then show ?thesis using assms(6,9,10) by (auto simp: links_def)
qed

lemma rlinks_extend:
  assumes "rlinks R start rs r as a" and "R r = Some p" and "r' \<notin> set (rs @ [r])" and "distinct (rs @ [r])"
    and "R' = (R(r' \<mapsto> q))(r \<mapsto> p\<lparr>rp_end := DATA_SIZE, rp_cont := Some r'\<rparr>)" and "rp_buffer q = n" and "rp_begin q = 0"
  shows "rlinks R' start (rs @ [r]) r' (as @ [a]) n"
proof -
  have len: "length rs = length as" using assms(1) by (simp add: rlinks_def)
  have "rs ! i \<noteq> r \<and> rs ! i \<noteq> r'" if "i < length rs" for i using assms(3,4) that by (auto simp: in_set_conv_nth)
  then have "\<exists>p. R' ((rs @ [r]) ! i) = Some p \<and> rp_buffer p = (as @ [a]) ! i \<and> rp_begin p = (if i = 0 then start else 0) \<and>
      rp_end p = DATA_SIZE \<and> rp_cont p = Some (((rs @ [r]) @ [r']) ! Suc i)" if "i < length (rs @ [r])" for i
    using that assms len unfolding rlinks_def by (cases "i < length rs") (auto simp: nth_append less_Suc_eq)
  then show ?thesis using assms len by (auto simp: rlinks_def)
qed

lemma nextBuffer_ok:
  assumes inv: "pw_inv w" and b: "ph_bufs (pw_heap w) (pw_buffer w) = Some b" and full: "pb_written b = DATA_SIZE"
    and fits: "length (pw_out w) < 2 ^ 31"
  shows "\<exists>w' c. pw_nextBuffer w = Inr w' \<and> pw_inv w' \<and> pw_out w' = pw_out w \<and> pw_version w' = pw_version w \<and>
    ph_bufs (pw_heap w') (pw_buffer w') = Some c \<and> pb_written c = 0"
proof -
  let ?h = "pw_heap w" and ?a = "pw_buffer w" and ?as = "pw_filled w" and ?n = "ph_fresh (pw_heap w)"
  let ?B = "ph_bufs ?h"
  let ?b = "b\<lparr>pb_next := Some ?n\<rparr>"
  have ok: "heap_ok ?h" "distinct (?as @ [?a])" "links ?B ?as ?a"
    "pw_start w \<le> length (buf_bytes ?B (hd (?as @ [?a])))"
    "pw_length w + int (length (buf_bytes ?B ?a)) = int (length (pw_out w))"
    using inv by (simp_all add: pw_inv_def)
  have "pw_length w + int DATA_SIZE = int (length (pw_out w))" using ok(5) buf_bytes_length [of ?B ?a b] b full by simp
  then have count: "pw_count DATA_SIZE w = Inr (w\<lparr>pw_length := pw_length w + int DATA_SIZE\<rparr>)"
    using fits by (simp add: pw_count_def)
  have "x \<noteq> ?n" if "x \<in> set (?as @ [?a])" for x
    using ok(1,3) that by (fastforce simp: heap_ok_def links_def in_set_conv_nth)
  then have n: "?n \<notin> set (?as @ [?a])" by blast
  have same: "map (buf_bytes ((?B(?a \<mapsto> ?b))(?n \<mapsto> c))) (?as @ [?a]) = map (buf_bytes ?B) (?as @ [?a])" for c
    using n ok(2) b by (auto simp: buf_bytes_def pb_range_def)
  have new: "length (buf_bytes ((?B(?a \<mapsto> ?b))(?n \<mapsto> c)) ?n) = pb_written c" for c
    by (simp add: buf_bytes_length)
  have out: "drop (pw_start w) (concat (map (buf_bytes ((?B(?a \<mapsto> ?b))(?n \<mapsto> c))) ((?as @ [?a]) @ [?n]))) = pw_out w"
    if "pb_written c = 0" for c
  proof -
    have "buf_bytes ((?B(?a \<mapsto> ?b))(?n \<mapsto> c)) ?n = []" using new [of c] that by simp
    then show ?thesis unfolding map_append [of _ "?as @ [?a]" "[?n]"] same [of c] pw_out_def by simp
  qed
  have hd: "buf_bytes ((?B(?a \<mapsto> ?b))(?n \<mapsto> c)) (hd ((?as @ [?a]) @ [?n])) = buf_bytes ?B (hd (?as @ [?a]))" for c
    using same [of c] by (cases ?as) auto
  have lk: "links ((?B(?a \<mapsto> ?b))(?n \<mapsto> c)) (?as @ [?a]) ?n" if "pb_written c = 0" "pb_next c = None" for c
    by (rule links_extend [OF ok(3) b full n ok(2) refl]) (use full that in simp_all)
  show ?thesis
  proof (cases "pw_reliable w")
    case None
    let ?c = "pb_new (ph_junk ?h)"
    let ?w = "w\<lparr>pw_heap := ?h\<lparr>ph_bufs := (?B(?a \<mapsto> ?b))(?n \<mapsto> ?c), ph_fresh := Suc ?n\<rparr>,
      pw_length := pw_length w + int DATA_SIZE, pw_buffer := ?n, pw_filled := ?as @ [?a]\<rparr>"
    have "pw_nextBuffer w = Inr ?w"
      using b full None n count
      by (simp add: pw_nextBuffer_def get_buf_def new_buffer_def upd_buf_def Let_def fun_upd_twist)
    moreover have c: "pb_written ?c = 0" "pb_next ?c = None" by (simp_all add: pb_new_def)
    moreover have "pw_out ?w = pw_out w" using out [OF c(1)] by (simp add: pw_out_def)
    moreover have "pw_inv ?w"
      using ok n None lk [OF c] new [of ?c] hd [of ?c] c(1) \<open>pw_out ?w = pw_out w\<close> buf_bytes_length [of ?B ?a b] b full
      by (auto simp: pw_inv_def heap_ok_def)
    ultimately show ?thesis by fastforce
  next
    case (Some r)
    let ?c = "(pb_new (ph_junk ?h))\<lparr>pb_refs := 2\<rparr>"
    have rl: "distinct (pw_rels w @ [r])" "rlinks (ph_rels ?h) (pw_start w) (pw_rels w) r ?as ?a"
      using inv Some by (simp_all add: pw_inv_def)
    then obtain p where p: "ph_rels ?h r = Some p" by (auto simp: rlinks_def)
    have r': "Suc ?n \<notin> set (pw_rels w @ [r])"
      using rl(2) ok(1) by (fastforce simp: rlinks_def heap_ok_def in_set_conv_nth)
    let ?q = "\<lparr>rp_buffer = ?n, rp_cont = None, rp_prev = 0, rp_next = 0, rp_begin = 0, rp_end = 0\<rparr>"
    let ?R = "((ph_rels ?h)(Suc ?n \<mapsto> ?q))(r \<mapsto> p\<lparr>rp_end := DATA_SIZE, rp_cont := Some (Suc ?n)\<rparr>)"
    let ?w = "w\<lparr>pw_heap := ?h\<lparr>ph_bufs := (?B(?a \<mapsto> ?b))(?n \<mapsto> ?c), ph_rels := ?R, ph_fresh := Suc (Suc ?n)\<rparr>,
      pw_length := pw_length w + int DATA_SIZE, pw_buffer := ?n, pw_filled := ?as @ [?a], pw_reliable := Some (Suc ?n),
      pw_rels := pw_rels w @ [r]\<rparr>"
    have "r \<noteq> Suc ?n" using r' by auto
    then have "pw_nextBuffer w = Inr ?w"
      using b full Some n p count
      by (simp add: pw_nextBuffer_def get_buf_def new_buffer_def upd_buf_def rel_next_def upd_rel_def get_rel_def
          pb_addref_def pb_new_def Let_def fun_upd_twist)
    moreover have c: "pb_written ?c = 0" "pb_next ?c = None" by (simp_all add: pb_new_def)
    moreover have "pw_out ?w = pw_out w" using out [OF c(1)] by (simp add: pw_out_def)
    moreover have "rlinks ?R (pw_start w) (pw_rels w @ [r]) (Suc ?n) (?as @ [?a]) ?n"
      by (rule rlinks_extend [OF rl(2) p r' rl(1) refl]) simp_all
    moreover from this have "pw_inv ?w"
      using ok n Some lk [OF c] new [of ?c] hd [of ?c] c(1) \<open>pw_out ?w = pw_out w\<close> buf_bytes_length [of ?B ?a b] b full r' rl(1) p
      by (auto simp: pw_inv_def heap_ok_def)
    ultimately show ?thesis by fastforce
  qed
qed

lemma nextBuffer_overflow:
  assumes inv: "pw_inv w" and b: "ph_bufs (pw_heap w) (pw_buffer w) = Some b" and full: "pb_written b = DATA_SIZE"
    and "2 ^ 31 \<le> length (pw_out w)"
  shows "pw_nextBuffer w = Inl Undefined_behaviour"
proof -
  have "pw_length w + int DATA_SIZE = int (length (pw_out w))"
    using inv buf_bytes_length [of "ph_bufs (pw_heap w)" "pw_buffer w" b] b full by (simp add: pw_inv_def)
  then show ?thesis using assms by (simp add: pw_nextBuffer_def get_buf_def pw_count_def)
qed

lemma nextBuffer_inv:
  assumes "pw_inv w" and "ph_bufs (pw_heap w) (pw_buffer w) = Some b" and "pb_written b = DATA_SIZE" and "pw_nextBuffer w = Inr w'"
  shows "pw_inv w'"
  using nextBuffer_ok [OF assms(1-3)] nextBuffer_overflow [OF assms(1-3)] assms(4) by (cases "length (pw_out w) < 2 ^ 31") auto

text \<open>A write succeeds, or the number of bytes written does not fit an \<open>int\<close>.\<close>

definition written :: "bytes \<Rightarrow> packet_writer \<Rightarrow> packet_writer result \<Rightarrow> bool" where
  "written xs w r \<longleftrightarrow>
     (\<exists>w'. r = Inr w' \<and> pw_inv w' \<and> pw_out w' = pw_out w @ xs \<and> pw_version w' = pw_version w) \<or>
     r = Inl Undefined_behaviour \<and> 2 ^ 31 \<le> length (pw_out w @ xs)"

lemma acrossBoundary_ok:
  assumes "pw_inv w"
  shows "written xs w (serializeBytesAcrossBoundary xs w)"
  using assms
proof (induction xs w rule: serializeBytesAcrossBoundary.induct)
  case (1 xs w)
  obtain b where b: "ph_bufs (pw_heap w) (pw_buffer w) = Some b" "pb_written b \<le> DATA_SIZE"
    using pw_current [OF "1.prems"] by blast
  have gb: "get_buf (pw_buffer w) (pw_heap w) = Inr b" using b by (simp add: get_buf_def)
  define n where "n = min (length xs) (DATA_SIZE - pb_written b)"
  obtain w1 where w1: "on_heap (upd_buf (pw_buffer w) (put_bytes (take n xs))) w = Inr w1" "pw_inv w1"
      "pw_out w1 = pw_out w @ take n xs" "pw_version w1 = pw_version w"
      "ph_bufs (pw_heap w1) (pw_buffer w1) = Some (put_bytes (take n xs) b)"
    using put_ok [OF "1.prems" b(1), of "take n xs"] by (auto simp: n_def)
  show ?case
  proof (cases "length xs - n = 0")
    case True
    then have "take n xs = xs" by simp
    then show ?thesis using gb w1 True unfolding written_def
      by (subst serializeBytesAcrossBoundary.simps) (simp add: n_def [symmetric] Let_def)
  next
    case False
    then have full: "pb_written (put_bytes (take n xs) b) = DATA_SIZE" using b(2) by (simp add: put_bytes_def n_def min_def split: if_splits)
    have run: "serializeBytesAcrossBoundary xs w =
        (case pw_nextBuffer w1 of Inl e \<Rightarrow> Inl e | Inr w2 \<Rightarrow> serializeBytesAcrossBoundary (drop n xs) w2)"
      using gb w1(1) False by (subst serializeBytesAcrossBoundary.simps) (simp add: n_def [symmetric] Let_def)
    show ?thesis
    proof (cases "length (pw_out w1) < 2 ^ 31")
      case True
      then obtain w2 where w2: "pw_nextBuffer w1 = Inr w2" "pw_inv w2" "pw_out w2 = pw_out w1" "pw_version w2 = pw_version w1"
        using nextBuffer_ok [OF w1(2,5) full] by blast
      have "written (drop n xs) w2 (serializeBytesAcrossBoundary (drop n xs) w2)"
        using "1.IH" [OF gb n_def w1(1) False w2(1,2)] .
      then show ?thesis using w1(3,4) w2 by (auto simp: run written_def)
    next
      case False
      then show ?thesis using nextBuffer_overflow [OF w1(2,5) full] w1(3) by (simp add: run written_def)
    qed
  qed
qed

lemma pw_serializeBytes_ok:
  assumes "pw_inv w"
  shows "written xs w (pw_serializeBytes xs w)"
proof -
  obtain b where "ph_bufs (pw_heap w) (pw_buffer w) = Some b" using pw_current [OF assms] by blast
  then show ?thesis
    using put_ok [OF assms, of b xs] acrossBoundary_ok [OF assms, of xs]
    by (auto simp: pw_serializeBytes_def get_buf_def pb_unwritten_def written_def)
qed

definition pw_ok :: "packet_writer \<Rightarrow> bool" where
  "pw_ok w \<longleftrightarrow> pw_inv w \<and> length (pw_out w) < 2 ^ 31"

lemma pw_binary_eq: "pw_serializeBinaryItem = pw_serializeBytes"
  by (intro ext) (simp add: pw_serializeBinaryItem_def pw_serializeBytes_def)

interpretation pw: writer_archive packet_writer_ops pw_ok pw_out pw_room
proof
  fix w and bs :: bytes
  assume "pw_ok w" "length bs \<le> pw_room w"
  then have ok: "pw_inv w" "length (pw_out w @ bs) < 2 ^ 31" by (auto simp: pw_ok_def pw_room_def)
  then obtain w' where "pw_serializeBytes bs w = Inr w'" "pw_ok w'" "pw_out w' = pw_out w @ bs" "pw_version w' = pw_version w"
    using pw_serializeBytes_ok [of w bs] by (auto simp: written_def pw_ok_def)
  then show "\<exists>w'. wr_serializeBytes packet_writer_ops bs w = Inr w' \<and> pw_ok w' \<and> pw_out w' = pw_out w @ bs \<and>
      pw_room w' = pw_room w - length bs \<and> wr_protocolVersion packet_writer_ops w' = wr_protocolVersion packet_writer_ops w"
    "\<exists>w'. wr_serializeBinaryItem packet_writer_ops bs w = Inr w' \<and> pw_ok w' \<and> pw_out w' = pw_out w @ bs \<and>
      pw_room w' = pw_room w - length bs \<and> wr_protocolVersion packet_writer_ops w' = wr_protocolVersion packet_writer_ops w"
    by (auto simp: packet_writer_ops_def pw_binary_eq pw_room_def)
next
  fix w v
  have same: "pw_out (w\<lparr>pw_version := v\<rparr>) = pw_out w" by (simp add: pw_out_def)
  then show "pw_ok w \<Longrightarrow> pw_ok (wr_setProtocolVersion packet_writer_ops v w)"
      "pw_out (wr_setProtocolVersion packet_writer_ops v w) = pw_out w"
      "pw_room (wr_setProtocolVersion packet_writer_ops v w) = pw_room w"
      "wr_protocolVersion packet_writer_ops (wr_setProtocolVersion packet_writer_ops v w) = v"
    by (simp_all add: packet_writer_ops_def pw_ok_def pw_inv_def pw_room_def split: option.splits)
qed

subsection \<open>Reliable packets\<close>

text \<open>The bytes of a reliable packet and those it goes on in.\<close>

fun rel_bytes :: "nat \<Rightarrow> pheap \<Rightarrow> nat option \<Rightarrow> bytes option" where
  "rel_bytes n h None = Some []"
| "rel_bytes 0 h (Some r) = None"
| "rel_bytes (Suc n) h (Some r) =
     (case ph_rels h r of
        None \<Rightarrow> None
      | Some p \<Rightarrow>
          (case ph_bufs h (rp_buffer p) of
             None \<Rightarrow> None
           | Some b \<Rightarrow> map_option ((@) (pb_range b (rp_begin p) (rp_end p))) (rel_bytes n h (rp_cont p))))"

lemma pb_range_drop: "pb_range b i j = drop i (pb_range b 0 j)"
  by (simp add: pb_range_def drop_map)

lemma rel_bytes_links:
  assumes B: "links (ph_bufs h) as a" and R: "rlinks (ph_rels h) start rs r as a" and b: "ph_bufs h a = Some b"
    and r: "ph_rels h r = Some p" "rp_cont p = None" "rp_end p = pb_written b" and "i \<le> length rs"
  shows "rel_bytes (Suc (length rs - i)) h (Some ((rs @ [r]) ! i)) =
    Some (drop (if i = 0 then start else 0) (buf_bytes (ph_bufs h) ((as @ [a]) ! i)) @
      concat (map (buf_bytes (ph_bufs h)) (drop (Suc i) (as @ [a]))))"
  using assms(7)
proof (induction "length rs - i" arbitrary: i)
  case 0
  have len: "length rs = length as" using R by (simp add: rlinks_def)
  have "i = length rs" using 0 by simp
  moreover have "rp_buffer p = a" "rp_begin p = (if rs = [] then start else 0)" using R r(1) by (auto simp: rlinks_def)
  ultimately show ?case
    using r b len by (auto simp: nth_append buf_bytes_def pb_range_drop [of b start])
next
  case (Suc n)
  have len: "length rs = length as" using R by (simp add: rlinks_def)
  have i: "i < length rs" using Suc.hyps(2) by simp
  obtain q where q: "ph_rels h (rs ! i) = Some q" "rp_buffer q = as ! i" "rp_begin q = (if i = 0 then start else 0)"
      "rp_end q = DATA_SIZE" "rp_cont q = Some ((rs @ [r]) ! Suc i)"
    using R i by (auto simp: rlinks_def)
  obtain c where c: "ph_bufs h (as ! i) = Some c" "pb_written c = DATA_SIZE"
    using B i len by (auto simp: links_def)
  have "rel_bytes (Suc (length rs - Suc i)) h (Some ((rs @ [r]) ! Suc i)) =
      Some (buf_bytes (ph_bufs h) ((as @ [a]) ! Suc i) @ concat (map (buf_bytes (ph_bufs h)) (drop (Suc (Suc i)) (as @ [a]))))"
    using Suc.hyps(1) [of "Suc i"] Suc.hyps(2) i by simp
  moreover have "drop (Suc i) (as @ [a]) = (as @ [a]) ! Suc i # drop (Suc (Suc i)) (as @ [a])"
    using i len by (intro Cons_nth_drop_Suc [symmetric]) simp
  moreover have "length rs - i = Suc (length rs - Suc i)" using i by simp
  ultimately show ?case
    using q c i len
    by (simp add: nth_append [of rs "[r]" i] nth_append [of as "[a]" i] buf_bytes_def [of "ph_bufs h" "as ! i"] pb_range_drop [of c start])
qed

text \<open>A packet: the writer is made on a buffer, bytes are written in turn, and it is finished.\<close>

fun pw_write_all :: "bytes list \<Rightarrow> packet_writer \<Rightarrow> packet_writer result" where
  "pw_write_all [] w = Inr w"
| "pw_write_all (xs # xss) w = bind_result (pw_serializeBytes xs w) (pw_write_all xss)"

definition write_packet :: "nat \<Rightarrow> nat option \<Rightarrow> bytes list \<Rightarrow> pheap \<Rightarrow> (nat \<times> packet_writer) result" where
  "write_packet buf reliable xss h =
     bind_result (pw_init buf reliable h) (\<lambda>w. bind_result (pw_write_all xss w) pw_finish)"

lemma pw_write_all_ok:
  assumes "pw_inv w"
  shows "written (concat xss) w (pw_write_all xss w)"
  using assms
proof (induction xss arbitrary: w)
  case (Cons xs xss)
  consider w1 where "pw_serializeBytes xs w = Inr w1" "pw_inv w1" "pw_out w1 = pw_out w @ xs" "pw_version w1 = pw_version w"
    | "pw_serializeBytes xs w = Inl Undefined_behaviour" "2 ^ 31 \<le> length (pw_out w @ xs)"
    using pw_serializeBytes_ok [OF Cons.prems, of xs] by (auto simp: written_def)
  then show ?case
  proof cases
    case 1
    then show ?thesis using Cons.IH [of w1] by (auto simp: written_def)
  next
    case 2
    then show ?thesis by (simp add: written_def)
  qed
qed (simp add: written_def)

lemma pw_init_ok:
  assumes h: "heap_ok h" and b: "ph_bufs h buf = Some b" "pb_written b \<le> DATA_SIZE" "pb_next b = None"
    and r: "\<And>r. reliable = Some r \<Longrightarrow> \<exists>p. ph_rels h r = Some p"
  shows "\<exists>w. pw_init buf reliable h = Inr w \<and> pw_inv w \<and> pw_out w = [] \<and> pw_rels w = [] \<and> pw_reliable w = reliable"
proof (cases reliable)
  case None
  then show ?thesis
    using h b by (auto simp: pw_init_def get_buf_def pw_inv_def links_def pw_out_def buf_bytes_def pb_range_def)
next
  case (Some r)
  then obtain p where "ph_rels h r = Some p" using assms(5) by blast
  then show ?thesis
    using h b Some
    by (auto simp: pw_init_def get_buf_def on_heap_def upd_rel_def get_rel_def pb_addref_def upd_buf_def pw_inv_def links_def
        rlinks_def pw_out_def buf_bytes_def pb_range_def heap_ok_def)
qed

text \<open>The first reliable packet of a writer stays the first.\<close>

definition first_rel :: "packet_writer \<Rightarrow> nat option" where
  "first_rel w = map_option (\<lambda>r. hd (pw_rels w @ [r])) (pw_reliable w)"

lemma nextBuffer_first: "pw_nextBuffer w = Inr w' \<Longrightarrow> first_rel w' = first_rel w"
  by (cases "pw_reliable w")
     (auto simp: pw_nextBuffer_def pw_count_Inr first_rel_def result_simps new_buffer_def Let_def hd_append split: prod.splits)

lemma on_heap_first: "on_heap f w = Inr w' \<Longrightarrow> first_rel w' = first_rel w"
  by (auto simp: on_heap_def first_rel_def result_simps)

lemma acrossBoundary_first: "serializeBytesAcrossBoundary xs w = Inr w' \<Longrightarrow> first_rel w' = first_rel w"
proof (induction xs w arbitrary: w' rule: serializeBytesAcrossBoundary.induct)
  case (1 xs w)
  obtain b where b: "get_buf (pw_buffer w) (pw_heap w) = Inr b"
    using "1.prems" by (subst (asm) serializeBytesAcrossBoundary.simps) (auto split: sum.splits)
  define n where "n = min (length xs) (DATA_SIZE - pb_written b)"
  have run: "(case on_heap (upd_buf (pw_buffer w) (put_bytes (take n xs))) w of
      Inl e \<Rightarrow> Inl e
    | Inr w1 \<Rightarrow> if length xs - n = 0 then Inr w1
        else (case pw_nextBuffer w1 of Inl e \<Rightarrow> Inl e | Inr w2 \<Rightarrow> serializeBytesAcrossBoundary (drop n xs) w2)) = Inr w'"
    using "1.prems" unfolding serializeBytesAcrossBoundary.simps [of xs w] b n_def Let_def by simp
  then obtain w1 where w1: "on_heap (upd_buf (pw_buffer w) (put_bytes (take n xs))) w = Inr w1" by (auto split: sum.splits)
  show ?case
  proof (cases "length xs - n = 0")
    case True
    then show ?thesis using run w1 on_heap_first [OF w1] by simp
  next
    case False
    then obtain w2 where w2: "pw_nextBuffer w1 = Inr w2" "serializeBytesAcrossBoundary (drop n xs) w2 = Inr w'"
      using run w1 by (auto split: sum.splits)
    then show ?thesis
      using "1.IH" [OF b n_def w1 False w2] nextBuffer_first [OF w2(1)] on_heap_first [OF w1] by simp
  qed
qed

lemma pw_write_all_first: "pw_write_all xss w = Inr w' \<Longrightarrow> first_rel w' = first_rel w"
proof (induction xss arbitrary: w)
  case (Cons xs xss)
  then obtain w1 where w1: "pw_serializeBytes xs w = Inr w1" "pw_write_all xss w1 = Inr w'" by (auto simp: result_simps)
  have "first_rel w1 = first_rel w"
    using w1(1) by (auto simp: pw_serializeBytes_def result_simps dest: on_heap_first acrossBoundary_first split: if_splits)
  then show ?case using Cons.IH w1(2) by simp
qed simp

lemma pw_finish_ok:
  assumes inv: "pw_inv w" and first: "first_rel w = reliable" and fits: "length (pw_out w) < 2 ^ 31"
  shows "\<exists>w'. pw_finish w = Inr (pw_buffer w', w') \<and> pw_out w' = pw_out w \<and> pw_length w' = int (length (pw_out w)) \<and>
    (reliable \<noteq> None \<longrightarrow> rel_bytes (Suc (length (pw_filled w'))) (pw_heap w') reliable = Some (pw_out w))"
proof -
  obtain c where c: "ph_bufs (pw_heap w) (pw_buffer w) = Some c" using pw_current [OF inv] by blast
  have len: "pw_length w + int (pb_written c) = int (length (pw_out w))"
    using inv buf_bytes_length [of "ph_bufs (pw_heap w)" "pw_buffer w" c] c by (simp add: pw_inv_def)
  then have count: "pw_count (pb_written c) w = Inr (w\<lparr>pw_length := int (length (pw_out w))\<rparr>)"
    using fits by (simp add: pw_count_def)
  show ?thesis
  proof (cases reliable)
    case None
    then have "pw_reliable w = None" using first by (simp add: first_rel_def)
    then show ?thesis
      using c count None by (intro exI [of _ "w\<lparr>pw_length := int (length (pw_out w))\<rparr>"])
        (simp add: pw_finish_def get_buf_def pw_out_def)
  next
    case (Some r0)
    then obtain r where r: "pw_reliable w = Some r" "hd (pw_rels w @ [r]) = r0" using first by (auto simp: first_rel_def)
    have R: "rlinks (ph_rels (pw_heap w)) (pw_start w) (pw_rels w) r (pw_filled w) (pw_buffer w)"
        "distinct (pw_rels w @ [r])" and B: "links (ph_bufs (pw_heap w)) (pw_filled w) (pw_buffer w)"
      using inv r(1) by (simp_all add: pw_inv_def)
    then obtain p where p: "ph_rels (pw_heap w) r = Some p" by (auto simp: rlinks_def)
    let ?p = "p\<lparr>rp_cont := None, rp_end := pb_written c\<rparr>"
    let ?h = "(pw_heap w)\<lparr>ph_rels := (ph_rels (pw_heap w))(r \<mapsto> ?p)\<rparr>"
    let ?w = "w\<lparr>pw_length := int (length (pw_out w)), pw_heap := ?h\<rparr>"
    have fin: "pw_finish w = Inr (pw_buffer ?w, ?w)"
      using c count r(1) p by (simp add: pw_finish_def get_buf_def on_heap_def upd_rel_def get_rel_def)
    have "pw_rels w ! i \<noteq> r" if "i < length (pw_rels w)" for i using R(2) that by (auto simp: in_set_conv_nth)
    then have R': "rlinks (ph_rels ?h) (pw_start w) (pw_rels w) r (pw_filled w) (pw_buffer w)"
      using R(1) p by (auto simp: rlinks_def)
    have l: "length (pw_rels w) = length (pw_filled w)" using R(1) by (simp add: rlinks_def)
    have "rel_bytes (Suc (length (pw_filled w))) ?h (Some r0) =
        Some (drop (pw_start w) (buf_bytes (ph_bufs (pw_heap w)) (hd (pw_filled w @ [pw_buffer w]))) @
          concat (map (buf_bytes (ph_bufs (pw_heap w))) (tl (pw_filled w @ [pw_buffer w]))))"
      using rel_bytes_links [of ?h "pw_filled w" "pw_buffer w" "pw_start w" "pw_rels w" r c ?p 0] B R' c r(2) l
      by (cases "pw_filled w") (simp_all add: hd_conv_nth drop_Suc del: rel_bytes.simps)
    also have "\<dots> = Some (pw_out w)"
      using inv by (cases "pw_filled w") (simp_all add: pw_out_def pw_inv_def)
    finally show ?thesis
      using fin Some by (intro exI [of _ ?w]) (simp add: pw_out_def del: rel_bytes.simps)
  qed
qed

lemma pw_finish_overflow:
  assumes "pw_inv w" and "2 ^ 31 \<le> length (pw_out w)"
  shows "pw_finish w = Inl Undefined_behaviour"
proof -
  obtain c where c: "ph_bufs (pw_heap w) (pw_buffer w) = Some c" using pw_current [OF assms(1)] by blast
  have "pw_length w + int (pb_written c) = int (length (pw_out w))"
    using assms(1) buf_bytes_length [of "ph_bufs (pw_heap w)" "pw_buffer w" c] c by (simp add: pw_inv_def)
  then show ?thesis using assms(2) c by (simp add: pw_finish_def get_buf_def pw_count_def)
qed

lemma write_packet_ok:
  assumes h: "heap_ok h" and b: "ph_bufs h buf = Some b" "pb_written b \<le> DATA_SIZE" "pb_next b = None"
    and r: "reliable = None \<or> (\<exists>r p. reliable = Some r \<and> ph_rels h r = Some p)"
  shows "if length (concat xss) < 2 ^ 31
    then \<exists>w'. write_packet buf reliable xss h = Inr (pw_buffer w', w') \<and> pw_out w' = concat xss \<and>
      pw_length w' = int (length (concat xss)) \<and>
      (reliable \<noteq> None \<longrightarrow> rel_bytes (Suc (length (pw_filled w'))) (pw_heap w') reliable = Some (concat xss))
    else write_packet buf reliable xss h = Inl Undefined_behaviour"
proof -
  obtain w where w: "pw_init buf reliable h = Inr w" "pw_inv w" "pw_out w = []" "pw_rels w = []" "pw_reliable w = reliable"
    using pw_init_ok [OF h b] r by blast
  consider (ok) w1 where "pw_write_all xss w = Inr w1" "pw_inv w1" "pw_out w1 = concat xss"
    | (overflow) "pw_write_all xss w = Inl Undefined_behaviour" "2 ^ 31 \<le> length (concat xss)"
    using pw_write_all_ok [OF w(2), of xss] w(3) by (auto simp: written_def)
  then show ?thesis
  proof cases
    case ok
    have "first_rel w1 = reliable"
      using pw_write_all_first [OF ok(1)] w(4,5) by (simp add: first_rel_def option.map_ident)
    then show ?thesis
      using pw_finish_ok [OF ok(2)] pw_finish_overflow [OF ok(2)] w(1) ok(1,3)
      by (simp add: write_packet_def del: rel_bytes.simps)
  next
    case overflow
    then show ?thesis using w(1) by (simp add: write_packet_def)
  qed
qed

lemma write_packet_overflow:
  assumes "heap_ok h" and "ph_bufs h buf = Some b" and "pb_written b \<le> DATA_SIZE" and "pb_next b = None"
    and "reliable = None \<or> (\<exists>r p. reliable = Some r \<and> ph_rels h r = Some p)" and "2 ^ 31 \<le> length (concat xss)"
  shows "write_packet buf reliable xss h = Inl Undefined_behaviour"
  using write_packet_ok [OF assms(1-5), of xss] assms(6) by (simp split: if_splits)

text \<open>
  Property C18: a packet carries what was written, up to the range of its \<open>int\<close> length.  On a buffer at
  the end of its chain, with or without a reliable packet, take any sequence of writes.  If they are
  fewer than \<open>2 ^ 31\<close> bytes together, all succeed; the chain of buffers holds exactly the bytes written,
  in order, behind what was in the first buffer; the writer's length is their number; and the reliable
  packet, followed through its continuations, has exactly these bytes.  Otherwise the length overflows,
  which is undefined.
\<close>

theorem packet_carries_bytes:
  assumes h: "heap_ok h" and b: "ph_bufs h buf = Some b" "pb_written b \<le> DATA_SIZE" "pb_next b = None"
    and r: "reliable = None \<or> (\<exists>r p. reliable = Some r \<and> ph_rels h r = Some p)"
  shows "if length (concat xss) < 2 ^ 31
    then \<exists>w'. write_packet buf reliable xss h = Inr (pw_buffer w', w') \<and> pw_out w' = concat xss \<and>
      pw_length w' = int (length (concat xss)) \<and>
      (reliable \<noteq> None \<longrightarrow> rel_bytes (Suc (length (pw_filled w'))) (pw_heap w') reliable = Some (concat xss))
    else write_packet buf reliable xss h = Inl Undefined_behaviour"
  by (rule write_packet_ok [OF assms])

definition sample_heap :: pheap where
  "sample_heap = \<lparr>ph_bufs = [0 \<mapsto> pb_new (\<lambda>_. 0)],
     ph_rels = [1 \<mapsto> \<lparr>rp_buffer = 0, rp_cont = None, rp_prev = 1, rp_next = 1, rp_begin = 0, rp_end = 0\<rparr>],
     ph_fresh = 2, ph_junk = \<lambda>_. 0\<rparr>"

theorem packet_carries_bytes_witness:
  "\<exists>w'. write_packet 0 (Some 1) [[1, 2], [3]] sample_heap = Inr (pw_buffer w', w') \<and> pw_out w' = [1, 2, 3] \<and> pw_length w' = 3"
proof -
  have "heap_ok sample_heap" "ph_bufs sample_heap 0 = Some (pb_new (\<lambda>_. 0))" "pb_written (pb_new (\<lambda>_. 0)) \<le> DATA_SIZE"
      "pb_next (pb_new (\<lambda>_. 0)) = None" "\<exists>p. ph_rels sample_heap 1 = Some p"
    by (simp_all add: sample_heap_def heap_ok_def pb_new_def)
  then show ?thesis
    using packet_carries_bytes [of sample_heap 0 "pb_new (\<lambda>_. 0)" "Some 1" "[[1, 2], [3]]"] by auto
qed

subsection \<open>UnsentPacketQueue\<close>

record unsent_queue =
  uq_heap :: pheap
  uq_first :: "nat option"
  uq_last :: "nat option"

definition uq_getWriteBuffer :: "unsent_queue \<Rightarrow> (nat \<times> unsent_queue) result" where
  "uq_getWriteBuffer q =
     (case uq_last q of
        Some a \<Rightarrow> Inr (a, q)
      | None \<Rightarrow>
          bind_result (assert_that (uq_first q = None)) (\<lambda>_.
            let (a, h) = new_buffer (uq_heap q) in Inr (a, \<lparr>uq_heap = h, uq_first = Some a, uq_last = Some a\<rparr>)))"

definition uq_setWriteBuffer :: "nat \<Rightarrow> unsent_queue \<Rightarrow> unsent_queue" where
  "uq_setWriteBuffer pb q = q\<lparr>uq_last := Some pb\<rparr>"

definition uq_prependWriteBuffer :: "nat \<Rightarrow> nat \<Rightarrow> unsent_queue \<Rightarrow> unsent_queue result" where
  "uq_prependWriteBuffer first_buf last_buf q =
     bind_result (upd_buf last_buf (\<lambda>b. b\<lparr>pb_next := uq_first q\<rparr>) (uq_heap q)) (\<lambda>h.
       Inr \<lparr>uq_heap = h, uq_first = Some first_buf, uq_last = (if uq_last q = None then Some last_buf else uq_last q)\<rparr>)"

definition uq_empty :: "unsent_queue \<Rightarrow> bool result" where
  "uq_empty q =
     (case uq_first q of
        None \<Rightarrow> Inr True
      | Some a \<Rightarrow> bind_result (get_buf a (uq_heap q)) (\<lambda>b. Inr (pb_sent b = pb_written b)))"

text \<open>The loop of \<open>sent\<close>.  It may not end if buffers form a ring, so its value is optional.\<close>

partial_function (option) uq_sent :: "nat \<Rightarrow> unsent_queue \<Rightarrow> unsent_queue result option" where
  "uq_sent bytes q =
     (if bytes = 0 then Some (Inr q)
      else case uq_first q of
             None \<Rightarrow> Some (Inl Assert_failed)
           | Some a \<Rightarrow>
               (case get_buf a (uq_heap q) of
                  Inl e \<Rightarrow> Some (Inl e)
                | Inr b \<Rightarrow>
                    if pb_sent b + bytes \<le> pb_written b \<and>
                       (pb_sent b + bytes \<noteq> pb_written b \<or> (pb_next b = None \<and> pb_unwritten b \<noteq> 0))
                    then Some (bind_result (upd_buf a (\<lambda>b. b\<lparr>pb_sent := pb_sent b + bytes\<rparr>) (uq_heap q)) (\<lambda>h.
                           bind_result (assert_that (pb_sent b + bytes \<le> DATA_SIZE)) (\<lambda>_. Inr (q\<lparr>uq_heap := h\<rparr>))))
                    else (case bind_result (upd_buf a (\<lambda>b. b\<lparr>pb_sent := pb_written b\<rparr>) (uq_heap q)) (\<lambda>h.
                                 bind_result (assert_that (pb_written b \<le> DATA_SIZE)) (\<lambda>_. pb_delref a h)) of
                            Inl e \<Rightarrow> Some (Inl e)
                          | Inr h \<Rightarrow>
                              uq_sent (bytes - (pb_written b - pb_sent b))
                                \<lparr>uq_heap = h, uq_first = pb_next b,
                                 uq_last = (if pb_next b = None then None else uq_last q)\<rparr>)))"

partial_function (option) uq_discard_loop :: "unsent_queue \<Rightarrow> unsent_queue result option" where
  "uq_discard_loop q =
     (case uq_first q of
        None \<Rightarrow> Some (Inr (q\<lparr>uq_last := None\<rparr>))
      | Some a \<Rightarrow>
          (case bind_result (get_buf a (uq_heap q)) (\<lambda>b. bind_result (pb_delref a (uq_heap q)) (\<lambda>h. Inr (pb_next b, h))) of
             Inl e \<Rightarrow> Some (Inl e)
           | Inr (n, h) \<Rightarrow> uq_discard_loop (q\<lparr>uq_heap := h, uq_first := n\<rparr>)))"

definition uq_discardAll :: "unsent_queue \<Rightarrow> unsent_queue result option" where
  "uq_discardAll = uq_discard_loop"

text \<open>
  A queue: a chain of buffers from the first to the last.  Each has bytes that are not sent yet, except
  that the last may have only room for more.
\<close>

definition live :: "packet_buffer \<Rightarrow> nat list \<Rightarrow> bool" where
  "live b as \<longleftrightarrow> pb_sent b \<le> pb_written b \<and> pb_written b \<le> DATA_SIZE \<and> (pb_sent b < pb_written b \<or> as = [] \<and> pb_written b < DATA_SIZE)"

fun queued :: "(nat \<Rightarrow> packet_buffer option) \<Rightarrow> nat option \<Rightarrow> nat list \<Rightarrow> bool" where
  "queued B p [] \<longleftrightarrow> p = None"
| "queued B p (a # as) \<longleftrightarrow>
     p = Some a \<and> (\<exists>b. B a = Some b \<and> live b as \<and> queued B (pb_next b) as)"

definition uq_ok :: "nat list \<Rightarrow> unsent_queue \<Rightarrow> bool" where
  "uq_ok as q \<longleftrightarrow>
     heap_ok (uq_heap q) \<and> distinct as \<and> queued (ph_bufs (uq_heap q)) (uq_first q) as \<and> uq_last q = (if as = [] then None else Some (last as))"

definition buf_unsent :: "(nat \<Rightarrow> packet_buffer option) \<Rightarrow> nat \<Rightarrow> bytes" where
  "buf_unsent B a = (case B a of None \<Rightarrow> [] | Some b \<Rightarrow> pb_range b (pb_sent b) (pb_written b))"

definition uq_unsent :: "nat list \<Rightarrow> unsent_queue \<Rightarrow> bytes" where
  "uq_unsent as q = concat (map (buf_unsent (ph_bufs (uq_heap q))) as)"

lemma queued_other: "a \<notin> set as \<Longrightarrow> queued (B(a := x)) p as = queued B p as"
  by (induction as arbitrary: p) auto

lemma unsent_other: "a \<notin> set as \<Longrightarrow> concat (map (buf_unsent (B(a := x))) as) = concat (map (buf_unsent B) as)"
  by (induction as) (auto simp: buf_unsent_def)

lemma delref_other:
  assumes "ph_bufs h a = Some b"
  shows "\<exists>h' x. pb_delref a h = Inr h' \<and> ph_bufs h' = (ph_bufs h)(a := x) \<and> (heap_ok h \<longrightarrow> heap_ok h')"
  using assms by (auto simp: pb_delref_def get_buf_def upd_buf_def heap_ok_def)

lemma uq_sent_ok:
  assumes "uq_ok as q" and "n \<le> length (uq_unsent as q)"
  shows "\<exists>q' as'. uq_sent n q = Some (Inr q') \<and> uq_ok as' q' \<and> uq_unsent as' q' = drop n (uq_unsent as q)"
  using assms
proof (induction as arbitrary: n q)
  case Nil
  then show ?case by (subst uq_sent.simps) (auto simp: uq_unsent_def)
next
  case (Cons a as)
  show ?case
  proof (cases "n = 0")
    case True
    then show ?thesis using Cons.prems by (subst uq_sent.simps) auto
  next
    case False
    obtain b where b: "uq_first q = Some a" "ph_bufs (uq_heap q) a = Some b" "pb_sent b \<le> pb_written b"
        "pb_written b \<le> DATA_SIZE" "queued (ph_bufs (uq_heap q)) (pb_next b) as" "a \<notin> set as" "distinct as"
      using Cons.prems(1) by (auto simp: uq_ok_def live_def)
    have ub: "buf_unsent (ph_bufs (uq_heap q)) a = pb_range b (pb_sent b) (pb_written b)" by (simp add: buf_unsent_def b(2))
    let ?cond = "pb_sent b + n \<le> pb_written b \<and> (pb_sent b + n \<noteq> pb_written b \<or> (pb_next b = None \<and> pb_unwritten b \<noteq> 0))"
    show ?thesis
    proof (cases ?cond)
      case True
      let ?B = "(ph_bufs (uq_heap q))(a \<mapsto> b\<lparr>pb_sent := pb_sent b + n\<rparr>)"
      let ?q = "q\<lparr>uq_heap := (uq_heap q)\<lparr>ph_bufs := ?B\<rparr>\<rparr>"
      have "uq_sent n q = Some (Inr ?q)"
        using True False b by (subst uq_sent.simps) (auto simp: get_buf_def upd_buf_def)
      moreover have "uq_ok (a # as) ?q"
        using Cons.prems(1) b True by (cases as) (auto simp: uq_ok_def queued_other live_def pb_unwritten_def heap_ok_def)
      moreover have "uq_unsent (a # as) ?q = drop n (uq_unsent (a # as) q)"
      proof -
        have "pb_range (b\<lparr>pb_sent := pb_sent b + n\<rparr>) (pb_sent b + n) (pb_written b) = drop n (pb_range b (pb_sent b) (pb_written b))"
          by (simp add: pb_range_def drop_map add.commute)
        moreover have "n \<le> length (pb_range b (pb_sent b) (pb_written b))" using True by (auto simp add: pb_range_def)
        ultimately show ?thesis
          using b(2,6) ub by (simp add: uq_unsent_def unsent_other) (simp add: buf_unsent_def)
      qed
      ultimately show ?thesis by blast
    next
      case cond: False
      let ?h1 = "(uq_heap q)\<lparr>ph_bufs := (ph_bufs (uq_heap q))(a \<mapsto> b\<lparr>pb_sent := pb_written b\<rparr>)\<rparr>"
      have "heap_ok ?h1" using Cons.prems(1) b(2) by (auto simp: uq_ok_def heap_ok_def)
      then obtain h x where h: "pb_delref a ?h1 = Inr h" "ph_bufs h = (ph_bufs ?h1)(a := x)" "heap_ok h"
        using delref_other [of ?h1 a] by auto
      let ?k = "pb_written b - pb_sent b"
      let ?q = "\<lparr>uq_heap = h, uq_first = pb_next b, uq_last = (if pb_next b = None then None else uq_last q)\<rparr>"
      have step: "uq_sent n q = uq_sent (n - ?k) ?q"
        using False cond b h by (subst uq_sent.simps) (auto simp: get_buf_def upd_buf_def)
      have rest: "uq_unsent as ?q = concat (map (buf_unsent (ph_bufs (uq_heap q))) as)"
        using b(6) h(2) by (simp add: uq_unsent_def unsent_other)
      have "pb_next b = None \<longleftrightarrow> as = []" using b(5) by (cases as) auto
      then have ok: "uq_ok as ?q"
        using Cons.prems(1) b h(2,3) by (auto simp: uq_ok_def queued_other)
      have len: "length (buf_unsent (ph_bufs (uq_heap q)) a) = ?k" by (simp add: ub pb_range_def)
      have all: "uq_unsent (a # as) q = buf_unsent (ph_bufs (uq_heap q)) a @ uq_unsent as ?q"
        using rest by (simp add: uq_unsent_def)
      have k: "?k \<le> n" using cond b(3) by auto
      then have "drop n (uq_unsent (a # as) q) = drop (n - ?k) (uq_unsent as ?q)" using all len by simp
      moreover have "n - ?k \<le> length (uq_unsent as ?q)" using Cons.prems(2) all len by simp
      ultimately show ?thesis using Cons.IH [OF ok, of "n - ?k"] step by simp
    qed
  qed
qed


text \<open>Taking the first buffer off leaves the others as they were.\<close>

lemma pop_ok:
  assumes "ph_bufs h1 = B(a \<mapsto> b)" and "a \<notin> set as" and "queued B p as"
  shows "\<exists>h. pb_delref a h1 = Inr h \<and> queued (ph_bufs h) p as \<and> map (buf_unsent (ph_bufs h)) as = map (buf_unsent B) as \<and>
    (heap_ok h1 \<longrightarrow> heap_ok h)"
proof -
  obtain h x where h: "pb_delref a h1 = Inr h" "ph_bufs h = (ph_bufs h1)(a := x)" "heap_ok h1 \<longrightarrow> heap_ok h"
    using delref_other [of h1 a b] assms(1) by auto
  moreover have "map (buf_unsent (ph_bufs h)) as = map (buf_unsent B) as" using h(2) assms by (auto simp: buf_unsent_def)
  ultimately show ?thesis using assms by (simp add: queued_other)
qed

text \<open>More bytes than are queued are an assertion failure, and discarding empties the queue.\<close>

lemma uq_sent_too_many:
  assumes "distinct as" and "queued (ph_bufs (uq_heap q)) (uq_first q) as" and "length (uq_unsent as q) < n"
  shows "uq_sent n q = Some (Inl Assert_failed)"
  using assms
proof (induction as arbitrary: n q)
  case Nil
  then show ?case by (subst uq_sent.simps) (auto simp: uq_unsent_def)
next
  case (Cons a as)
  obtain b where b: "uq_first q = Some a" "ph_bufs (uq_heap q) a = Some b" "pb_sent b \<le> pb_written b" "pb_written b \<le> DATA_SIZE"
      "queued (ph_bufs (uq_heap q)) (pb_next b) as" "a \<notin> set as" "distinct as"
    using Cons.prems(1,2) by (auto simp: live_def)
  have len: "length (uq_unsent (a # as) q) = pb_written b - pb_sent b + length (concat (map (buf_unsent (ph_bufs (uq_heap q))) as))"
    using b(2) by (simp add: uq_unsent_def buf_unsent_def pb_range_def)
  have over: "\<not> pb_sent b + n \<le> pb_written b" "n \<noteq> 0" using Cons.prems(3) len by auto
  obtain h where h: "pb_delref a ((uq_heap q)\<lparr>ph_bufs := (ph_bufs (uq_heap q))(a \<mapsto> b\<lparr>pb_sent := pb_written b\<rparr>)\<rparr>) = Inr h"
      "queued (ph_bufs h) (pb_next b) as" "map (buf_unsent (ph_bufs h)) as = map (buf_unsent (ph_bufs (uq_heap q))) as"
    using pop_ok [of "(uq_heap q)\<lparr>ph_bufs := (ph_bufs (uq_heap q))(a \<mapsto> b\<lparr>pb_sent := pb_written b\<rparr>)\<rparr>", OF _ b(6,5)] by auto
  let ?q = "\<lparr>uq_heap = h, uq_first = pb_next b, uq_last = (if pb_next b = None then None else uq_last q)\<rparr>"
  have "uq_sent n q = uq_sent (n - (pb_written b - pb_sent b)) ?q"
    using over b h(1) by (subst uq_sent.simps) (auto simp: get_buf_def upd_buf_def)
  moreover have "length (uq_unsent as ?q) < n - (pb_written b - pb_sent b)"
    using Cons.prems(3) len unfolding uq_unsent_def unsent_queue.simps h(3) by linarith
  ultimately show ?case using Cons.IH [of ?q] b(7) h(2) by simp
qed

lemma uq_discardAll_ok:
  assumes "heap_ok (uq_heap q)" and "distinct as" and "queued (ph_bufs (uq_heap q)) (uq_first q) as"
  shows "\<exists>q'. uq_discardAll q = Some (Inr q') \<and> uq_ok [] q'"
  unfolding uq_discardAll_def using assms
proof (induction as arbitrary: q)
  case Nil
  then show ?case by (subst uq_discard_loop.simps) (auto simp: uq_ok_def)
next
  case (Cons a as)
  obtain b where b: "uq_first q = Some a" "ph_bufs (uq_heap q) a = Some b" "queued (ph_bufs (uq_heap q)) (pb_next b) as"
      "a \<notin> set as" "distinct as"
    using Cons.prems by auto
  have "ph_bufs (uq_heap q) = (ph_bufs (uq_heap q))(a \<mapsto> b)" using b(2) by auto
  then obtain h where h: "pb_delref a (uq_heap q) = Inr h" "queued (ph_bufs h) (pb_next b) as" "heap_ok h"
    using pop_ok [OF _ b(4,3)] Cons.prems(1) by blast
  have "uq_discard_loop q = uq_discard_loop (q\<lparr>uq_heap := h, uq_first := pb_next b\<rparr>)"
    using b h(1) by (subst uq_discard_loop.simps) (simp add: get_buf_def)
  then show ?case using Cons.IH [of "q\<lparr>uq_heap := h, uq_first := pb_next b\<rparr>"] b(5) h(2,3) by simp
qed

subsection \<open>Packets through the queue\<close>

text \<open>What a writer leaves alone: buffers other than its own, and of its own what was sent and written.\<close>

definition grown :: "packet_buffer \<Rightarrow> packet_buffer \<Rightarrow> bool" where
  "grown b b' \<longleftrightarrow> pb_sent b' = pb_sent b \<and> pb_written b \<le> pb_written b' \<and> (\<forall>i < pb_written b. pb_data b' i = pb_data b i)"

definition keeps :: "packet_writer \<Rightarrow> packet_writer \<Rightarrow> bool" where
  "keeps w w' \<longleftrightarrow>
     pw_start w' = pw_start w \<and> hd (pw_filled w' @ [pw_buffer w']) = hd (pw_filled w @ [pw_buffer w]) \<and>
     (pw_buffer w' = pw_buffer w \<or> ph_bufs (pw_heap w) (pw_buffer w') = None) \<and>
     (\<forall>a \<in> set (pw_filled w'). a \<in> set (pw_filled w @ [pw_buffer w]) \<or> ph_bufs (pw_heap w) a = None) \<and>
     (\<forall>a b. ph_bufs (pw_heap w) a = Some b \<longrightarrow>
        (\<exists>b'. ph_bufs (pw_heap w') a = Some b' \<and> grown b b' \<and> (a \<noteq> pw_buffer w \<longrightarrow> b' = b))) \<and>
     (\<forall>a b. ph_bufs (pw_heap w) a = None \<and> ph_bufs (pw_heap w') a = Some b \<longrightarrow> pb_sent b = 0)"

lemma grown_refl [simp]: "grown b b"
  by (simp add: grown_def)

lemma grown_trans: "grown b c \<Longrightarrow> grown c d \<Longrightarrow> grown b d"
  by (auto simp: grown_def)

lemma keeps_refl [simp]: "keeps w w"
  by (auto simp: keeps_def)

lemma keeps_old:
  assumes "keeps w w'" and "ph_bufs (pw_heap w) a = Some b"
  obtains b' where "ph_bufs (pw_heap w') a = Some b'" and "grown b b'" and "a \<noteq> pw_buffer w \<Longrightarrow> b' = b"
  using assms unfolding keeps_def by blast

lemma keeps_sent_new: "keeps w w' \<Longrightarrow> ph_bufs (pw_heap w) a = None \<Longrightarrow> ph_bufs (pw_heap w') a = Some b \<Longrightarrow> pb_sent b = 0"
  by (simp add: keeps_def)

lemma keeps_absent: "keeps w w' \<Longrightarrow> ph_bufs (pw_heap w') a = None \<Longrightarrow> ph_bufs (pw_heap w) a = None"
  by (metis keeps_old not_Some_eq)

lemma keeps_trans:
  assumes "keeps w w1" and "keeps w1 w2"
  shows "keeps w w2"
proof -
  have buf: "pw_buffer w1 = pw_buffer w \<or> ph_bufs (pw_heap w) (pw_buffer w1) = None"
    using assms(1) by (simp add: keeps_def)
  have old: "\<exists>b'. ph_bufs (pw_heap w2) a = Some b' \<and> grown b b' \<and> (a \<noteq> pw_buffer w \<longrightarrow> b' = b)"
    if a: "ph_bufs (pw_heap w) a = Some b" for a b
  proof -
    obtain b1 where b1: "ph_bufs (pw_heap w1) a = Some b1" "grown b b1" "a \<noteq> pw_buffer w \<Longrightarrow> b1 = b"
      using keeps_old [OF assms(1) a] by blast
    obtain b2 where b2: "ph_bufs (pw_heap w2) a = Some b2" "grown b1 b2" "a \<noteq> pw_buffer w1 \<Longrightarrow> b2 = b1"
      using keeps_old [OF assms(2) b1(1)] by blast
    have "a \<noteq> pw_buffer w \<Longrightarrow> a \<noteq> pw_buffer w1" using buf a by auto
    then show ?thesis using b1 b2 grown_trans by blast
  qed
  have new: "pb_sent b = 0" if "ph_bufs (pw_heap w) a = None" "ph_bufs (pw_heap w2) a = Some b" for a b
  proof (cases "ph_bufs (pw_heap w1) a")
    case None
    then show ?thesis using keeps_sent_new [OF assms(2)] that by blast
  next
    case (Some b1)
    then obtain b2 where "ph_bufs (pw_heap w2) a = Some b2" "grown b1 b2" using keeps_old [OF assms(2)] by blast
    then show ?thesis using keeps_sent_new [OF assms(1) that(1) Some] that by (simp add: grown_def)
  qed
  have filled: "a \<in> set (pw_filled w @ [pw_buffer w]) \<or> ph_bufs (pw_heap w) a = None" if a: "a \<in> set (pw_filled w2)" for a
  proof -
    have "a \<in> set (pw_filled w1) \<or> a = pw_buffer w1 \<or> ph_bufs (pw_heap w1) a = None"
      using assms(2) a unfolding keeps_def by auto
    then show ?thesis using assms(1) buf keeps_absent [OF assms(1), of a] unfolding keeps_def by auto
  qed
  have "pw_buffer w2 = pw_buffer w \<or> ph_bufs (pw_heap w) (pw_buffer w2) = None"
    using assms(2) buf keeps_absent [OF assms(1)] unfolding keeps_def by metis
  moreover have "pw_start w2 = pw_start w" "hd (pw_filled w2 @ [pw_buffer w2]) = hd (pw_filled w @ [pw_buffer w])"
    using assms by (simp_all add: keeps_def)
  ultimately show ?thesis
    unfolding keeps_def using old filled by (intro conjI) (simp_all, blast intro: new)
qed

lemma put_keeps:
  assumes "on_heap (upd_buf (pw_buffer w) (put_bytes xs)) w = Inr w'"
  shows "keeps w w'"
  using assms
  by (auto simp: on_heap_def upd_buf_def get_buf_def result_simps keeps_def grown_def put_bytes_def split: option.splits if_splits)

lemma nextBuffer_keeps:
  assumes "pw_nextBuffer w = Inr w'" and "heap_ok (pw_heap w)"
  shows "keeps w w'"
proof -
  have "ph_bufs (pw_heap w) (ph_fresh (pw_heap w)) = None" using assms(2) by (simp add: heap_ok_def)
  then show ?thesis
    using assms(1)
    by (auto simp: pw_nextBuffer_def get_buf_def new_buffer_def upd_buf_def rel_next_def upd_rel_def get_rel_def
        pb_addref_def pb_new_def pw_count_Inr keeps_def grown_def result_simps Let_def hd_append split: option.splits if_splits)
qed

lemma acrossBoundary_keeps: "pw_inv w \<Longrightarrow> serializeBytesAcrossBoundary xs w = Inr w' \<Longrightarrow> keeps w w'"
proof (induction xs w arbitrary: w' rule: serializeBytesAcrossBoundary.induct)
  case (1 xs w)
  obtain b where b: "ph_bufs (pw_heap w) (pw_buffer w) = Some b" "pb_written b \<le> DATA_SIZE" using pw_current [OF "1.prems"(1)] by blast
  have gb: "get_buf (pw_buffer w) (pw_heap w) = Inr b" using b(1) by (simp add: get_buf_def)
  define n where "n = min (length xs) (DATA_SIZE - pb_written b)"
  obtain w1 where w1: "on_heap (upd_buf (pw_buffer w) (put_bytes (take n xs))) w = Inr w1" "pw_inv w1"
      "ph_bufs (pw_heap w1) (pw_buffer w1) = Some (put_bytes (take n xs) b)"
    using put_ok [OF "1.prems"(1) b(1), of "take n xs"] by (auto simp: n_def)
  show ?case
  proof (cases "length xs - n = 0")
    case True
    then have "w' = w1"
      using "1.prems"(2) gb w1 by (subst (asm) serializeBytesAcrossBoundary.simps) (simp add: n_def [symmetric] Let_def)
    then show ?thesis using put_keeps [OF w1(1)] by simp
  next
    case False
    then have full: "pb_written (put_bytes (take n xs) b) = DATA_SIZE" using b(2) by (simp add: put_bytes_def n_def min_def split: if_splits)
    obtain w2 where w2: "pw_nextBuffer w1 = Inr w2" "serializeBytesAcrossBoundary (drop n xs) w2 = Inr w'"
      using "1.prems"(2) gb w1 False
      by (subst (asm) serializeBytesAcrossBoundary.simps) (auto simp: n_def [symmetric] Let_def split: sum.splits)
    have i2: "pw_inv w2" by (rule nextBuffer_inv [OF w1(2,3) full w2(1)])
    have "keeps w2 w'" using "1.IH" [OF gb n_def w1(1) False w2(1) i2 w2(2)] .
    moreover have "keeps w1 w2" using nextBuffer_keeps [OF w2(1)] w1(2) by (simp add: pw_inv_def)
    ultimately show ?thesis using put_keeps [OF w1(1)] keeps_trans by blast
  qed
qed

lemma pw_write_all_keeps: "pw_inv w \<Longrightarrow> pw_write_all xss w = Inr w' \<Longrightarrow> keeps w w'"
proof (induction xss arbitrary: w)
  case (Cons xs xss)
  then obtain w1 where w1: "pw_serializeBytes xs w = Inr w1" "pw_write_all xss w1 = Inr w'" by (auto simp: result_simps)
  have "keeps w w1"
    using w1(1) Cons.prems(1)
    by (auto simp: pw_serializeBytes_def result_simps dest: put_keeps acrossBoundary_keeps split: if_splits)
  moreover have "pw_inv w1" using pw_serializeBytes_ok [OF Cons.prems(1), of xs] w1(1) by (auto simp: written_def)
  ultimately show ?case using Cons.IH [OF _ w1(2)] keeps_trans by blast
qed simp

text \<open>The heap after a packet: a chain from the buffer it began in, and the rest of the heap as it was.\<close>

definition packet_after :: "nat \<Rightarrow> packet_buffer \<Rightarrow> pheap \<Rightarrow> bytes \<Rightarrow> packet_writer \<Rightarrow> bool" where
  "packet_after buf b h xs w \<longleftrightarrow>
     heap_ok (pw_heap w) \<and> distinct (pw_filled w @ [pw_buffer w]) \<and>
     links (ph_bufs (pw_heap w)) (pw_filled w) (pw_buffer w) \<and>
     hd (pw_filled w @ [pw_buffer w]) = buf \<and>
     drop (pb_written b) (concat (map (buf_bytes (ph_bufs (pw_heap w))) (pw_filled w @ [pw_buffer w]))) = xs \<and>
     (\<exists>b'. ph_bufs (pw_heap w) buf = Some b' \<and> grown b b') \<and>
     (\<forall>a c. a \<noteq> buf \<and> ph_bufs h a = Some c \<longrightarrow> ph_bufs (pw_heap w) a = Some c) \<and>
     (\<forall>a \<in> set (pw_filled w @ [pw_buffer w]). a = buf \<or> ph_bufs h a = None) \<and>
     (\<forall>a c. ph_bufs h a = None \<and> ph_bufs (pw_heap w) a = Some c \<longrightarrow> pb_sent c = 0)"

lemma packet_after_on:
  "packet_after buf b h xs w \<Longrightarrow> a \<in> set (pw_filled w @ [pw_buffer w]) \<Longrightarrow> a = buf \<or> ph_bufs h a = None"
  by (auto simp: packet_after_def)

lemma packet_after_old: "packet_after buf b h xs w \<Longrightarrow> a \<noteq> buf \<Longrightarrow> ph_bufs h a = Some c \<Longrightarrow> ph_bufs (pw_heap w) a = Some c"
  by (simp add: packet_after_def)

lemma packet_after_new: "packet_after buf b h xs w \<Longrightarrow> ph_bufs h a = None \<Longrightarrow> ph_bufs (pw_heap w) a = Some c \<Longrightarrow> pb_sent c = 0"
  by (simp add: packet_after_def)

lemma pw_init_start:
  assumes "pw_init buf reliable h = Inr w" and "ph_bufs h buf = Some b"
  shows "pw_buffer w = buf \<and> pw_filled w = [] \<and> pw_start w = pb_written b \<and>
    (\<exists>b'. ph_bufs (pw_heap w) = (ph_bufs h)(buf \<mapsto> b') \<and> grown b b')"
proof (cases reliable)
  case None
  have "ph_bufs h = (ph_bufs h)(buf \<mapsto> b) \<and> grown b b" using assms(2) by auto
  then show ?thesis using assms None by (auto simp: pw_init_def get_buf_def Let_def)
next
  case (Some r)
  then show ?thesis
    using assms
    by (auto simp: pw_init_def get_buf_def on_heap_def upd_rel_def get_rel_def pb_addref_def upd_buf_def grown_def
        result_simps Let_def split: option.splits)
qed

lemma pw_finish_same:
  assumes "pw_finish w = Inr (a, w')"
  shows "a = pw_buffer w \<and> pw_buffer w' = pw_buffer w \<and> pw_filled w' = pw_filled w \<and> pw_start w' = pw_start w \<and>
    ph_bufs (pw_heap w') = ph_bufs (pw_heap w) \<and> (heap_ok (pw_heap w) \<longrightarrow> heap_ok (pw_heap w'))"
  using assms
  by (cases "pw_reliable w")
     (auto simp: pw_finish_def get_buf_def on_heap_def upd_rel_def get_rel_def heap_ok_def pw_count_Inr result_simps Let_def
       split: option.splits if_splits)

lemma write_packet_after:
  assumes h: "heap_ok h" and b: "ph_bufs h buf = Some b" "pb_written b \<le> DATA_SIZE" "pb_next b = None"
    and r: "reliable = None \<or> (\<exists>r p. reliable = Some r \<and> ph_rels h r = Some p)"
    and fits: "length (concat xss) < 2 ^ 31"
  shows "\<exists>w. write_packet buf reliable xss h = Inr (pw_buffer w, w) \<and> packet_after buf b h (concat xss) w"
proof -
  obtain w0 where w0: "pw_init buf reliable h = Inr w0" "pw_inv w0" "pw_out w0 = []"
    using pw_init_ok [OF h b] r by blast
  obtain b0 where start: "pw_buffer w0 = buf" "pw_filled w0 = []" "pw_start w0 = pb_written b"
      "ph_bufs (pw_heap w0) = (ph_bufs h)(buf \<mapsto> b0)" "grown b b0"
    using pw_init_start [OF w0(1) b(1)] by blast
  obtain w1 where w1: "pw_write_all xss w0 = Inr w1" "pw_inv w1" "pw_out w1 = concat xss"
    using pw_write_all_ok [OF w0(2), of xss] w0(3) fits by (auto simp: written_def)
  have k: "keeps w0 w1" by (rule pw_write_all_keeps [OF w0(2) w1(1)])
  obtain a w where w: "pw_finish w1 = Inr (a, w)" using pw_finish_ok [OF w1(2) refl] w1(3) fits by auto
  note fin = pw_finish_same [OF w]
  have run: "write_packet buf reliable xss h = Inr (pw_buffer w, w)" using w0(1) w1(1) w fin by (simp add: write_packet_def)
  have same: "pw_buffer w = pw_buffer w1" "pw_filled w = pw_filled w1" "ph_bufs (pw_heap w) = ph_bufs (pw_heap w1)"
      "heap_ok (pw_heap w)"
    using fin w1(2) by (simp_all add: pw_inv_def)
  have new: "pb_sent c = 0" if "ph_bufs h a = None" "ph_bufs (pw_heap w) a = Some c" for a c
    using keeps_sent_new [OF k, of a c] that start(4) same(3) b(1) by (cases "a = buf") auto
  have old: "ph_bufs (pw_heap w) a = Some c" if "a \<noteq> buf" "ph_bufs h a = Some c" for a c
    using keeps_old [OF k, of a c] that start(1,4) same(3) by auto
  obtain b1 where "ph_bufs (pw_heap w1) buf = Some b1" "grown b0 b1" using keeps_old [OF k, of buf b0] start(4) by auto
  then have b1: "\<exists>b'. ph_bufs (pw_heap w) buf = Some b' \<and> grown b b'" using start(5) grown_trans same(3) by auto
  have on: "a = buf \<or> ph_bufs h a = None" if "a \<in> set (pw_filled w @ [pw_buffer w])" for a
    using k that start(1,2,4) same(1,2) by (auto simp: keeps_def split: if_splits)
  show ?thesis
    using run w1(2,3) same new old b1 on k start(1-3)
    unfolding packet_after_def by (intro exI [of _ w] conjI) (auto simp: pw_inv_def pw_out_def keeps_def)
qed

text \<open>The chain a packet leaves, put behind the buffers before it.\<close>

lemma links_Cons:
  "links B (a # fs) c \<longleftrightarrow> (\<exists>b. B a = Some b \<and> pb_written b = DATA_SIZE \<and> pb_next b = Some (hd (fs @ [c]))) \<and> links B fs c"
proof -
  have "(a # fs @ [c]) ! Suc 0 = hd (fs @ [c])" by (cases fs) auto
  then show ?thesis
    unfolding links_def by (simp add: All_less_Suc2)
qed

lemma queued_links:
  assumes "links B fs c" and "\<And>a b. a \<in> set (fs @ [c]) \<Longrightarrow> B a = Some b \<Longrightarrow> pb_sent b \<le> pb_written b \<and> pb_sent b < DATA_SIZE"
  shows "queued B (Some (hd (fs @ [c]))) (fs @ [c])"
  using assms
proof (induction fs)
  case Nil
  then obtain b where b: "B c = Some b" "pb_written b \<le> DATA_SIZE" "pb_next b = None" by (auto simp: links_def)
  then show ?case using Nil(2) [of c b] by (auto simp: live_def)
next
  case (Cons a fs)
  then obtain b where "B a = Some b" "pb_written b = DATA_SIZE" "pb_next b = Some (hd (fs @ [c]))" "links B fs c"
    by (auto simp: links_Cons)
  moreover have "queued B (Some (hd (fs @ [c]))) (fs @ [c])" using Cons.prems(2) calculation(4) by (intro Cons.IH) auto
  ultimately show ?case using Cons.prems(2) [of a b] by (simp add: live_def)
qed

lemma queued_append:
  assumes "queued B p (pre @ [a])" and "\<And>x. x \<in> set pre \<Longrightarrow> B' x = B x" and "queued B' (Some a) rest" and "rest \<noteq> []"
  shows "queued B' p (pre @ rest)"
  using assms(1,2)
proof (induction pre arbitrary: p)
  case Nil
  then show ?case using assms(3) by simp
next
  case (Cons x pre)
  then show ?case using assms(4) by (auto simp: live_def)
qed

lemma queued_last:
  assumes "queued B p (pre @ [a])"
  obtains b where "B a = Some b" and "live b []" and "pb_next b = None"
  using assms by (induction pre arbitrary: p) auto

lemma queued_present: "queued B p as \<Longrightarrow> a \<in> set as \<Longrightarrow> B a \<noteq> None"
  by (induction as arbitrary: p) auto

text \<open>The bytes of a chain that are not sent, when only its first buffer was sent from.\<close>

lemma unsent_drop:
  assumes "\<And>x c. x \<in> set as \<Longrightarrow> B x = Some c \<Longrightarrow> pb_sent c = 0" and "B a = Some b" and "pb_sent b \<le> pb_written b"
  shows "concat (map (buf_unsent B) (a # as)) = drop (pb_sent b) (concat (map (buf_bytes B) (a # as)))"
proof -
  have "buf_unsent B x = buf_bytes B x" if "x \<in> set as" for x
    using assms(1) [OF that] by (auto simp: buf_unsent_def buf_bytes_def split: option.splits)
  then have "concat (map (buf_unsent B) as) = concat (map (buf_bytes B) as)" by (metis map_cong)
  moreover have "buf_unsent B a = drop (pb_sent b) (buf_bytes B a)" "pb_sent b \<le> length (buf_bytes B a)"
    using assms(2,3) by (simp_all add: buf_unsent_def buf_bytes_def drop_map pb_range_def)
  ultimately show ?thesis by simp
qed

lemma grown_bytes:
  assumes "grown b b'"
  shows "take (pb_written b) (pb_range b' 0 (pb_written b')) = pb_range b 0 (pb_written b)"
  using assms by (auto simp: grown_def pb_range_def take_map)

lemma packet_unsent:
  assumes after: "packet_after buf b h xs w" and b: "ph_bufs h buf = Some b" "pb_sent b \<le> pb_written b"
  shows "concat (map (buf_unsent (ph_bufs (pw_heap w))) (pw_filled w @ [pw_buffer w])) = pb_range b (pb_sent b) (pb_written b) @ xs"
proof -
  let ?B = "ph_bufs (pw_heap w)" and ?as = "pw_filled w @ [pw_buffer w]"
  obtain b' where b': "?B buf = Some b'" "grown b b'" using after by (auto simp: packet_after_def)
  obtain as where as: "?as = buf # as" using after by (cases ?as) (auto simp: packet_after_def)
  have dist: "distinct (buf # as)" using after unfolding packet_after_def as by blast
  have "x \<noteq> buf \<and> ph_bufs h x = None" if "x \<in> set as" for x
    using packet_after_on [OF after, of x] dist that unfolding as by auto
  then have "pb_sent c = 0" if "x \<in> set as" "?B x = Some c" for x c
    using packet_after_new [OF after, of x c] that by simp
  moreover have sent: "pb_sent b' = pb_sent b" "pb_written b \<le> pb_written b'" using b'(2) by (simp_all add: grown_def)
  ultimately have un: "concat (map (buf_unsent ?B) ?as) = drop (pb_sent b) (concat (map (buf_bytes ?B) ?as))"
    unfolding as using unsent_drop [of as ?B buf b'] b' b(2) by simp
  have "take (pb_written b) (concat (map (buf_bytes ?B) ?as)) = pb_range b 0 (pb_written b)"
    using grown_bytes [OF b'(2)] sent b'(1) unfolding as by (simp add: buf_bytes_def pb_range_def)
  moreover have "drop (pb_written b) (concat (map (buf_bytes ?B) ?as)) = xs" using after by (simp add: packet_after_def)
  ultimately have "concat (map (buf_bytes ?B) ?as) = pb_range b 0 (pb_written b) @ xs" by (metis append_take_drop_id)
  then show ?thesis using un b(2) by (simp add: pb_range_def drop_map)
qed

lemma packet_queued:
  assumes q: "heap_ok h" "distinct (pre @ [buf])" "queued (ph_bufs h) p (pre @ [buf])" and b: "ph_bufs h buf = Some b"
    and after: "packet_after buf b h xs w"
  shows "distinct (pre @ pw_filled w @ [pw_buffer w])" and "queued (ph_bufs (pw_heap w)) p (pre @ pw_filled w @ [pw_buffer w])"
    and "map (buf_unsent (ph_bufs (pw_heap w))) pre = map (buf_unsent (ph_bufs h)) pre"
proof -
  let ?B = "ph_bufs (pw_heap w)" and ?as = "pw_filled w @ [pw_buffer w]"
  note on = packet_after_on [OF after]
  have pre: "x \<noteq> buf \<and> ph_bufs h x \<noteq> None" if "x \<in> set pre" for x using q(2) queued_present [OF q(3), of x] that by auto
  then have "set pre \<inter> set ?as = {}" using on by blast
  then show "distinct (pre @ ?as)" using q(2) after by (simp add: packet_after_def)
  have same: "?B x = ph_bufs h x" if "x \<in> set pre" for x using packet_after_old [OF after] pre [OF that] by fastforce
  then show "map (buf_unsent ?B) pre = map (buf_unsent (ph_bufs h)) pre" by (simp add: buf_unsent_def)
  obtain b' where b': "?B buf = Some b'" "grown b b'" using after by (auto simp: packet_after_def)
  have "pb_sent c \<le> pb_written c \<and> pb_sent c < DATA_SIZE" if "x \<in> set ?as" "?B x = Some c" for x c
  proof (cases "x = buf")
    case True
    moreover obtain b0 where "ph_bufs h buf = Some b0" "live b0 []" using queued_last [OF q(3)] .
    ultimately show ?thesis using that b' b by (auto simp: grown_def live_def)
  next
    case False
    then have "pb_sent c = 0" using on [OF that(1)] packet_after_new [OF after _ that(2)] by blast
    then show ?thesis by (simp add: DATA_SIZE_def)
  qed
  then have "queued ?B (Some buf) ?as" using queued_links [of ?B "pw_filled w" "pw_buffer w"] after by (simp add: packet_after_def)
  then show "queued ?B p (pre @ ?as)" using queued_append [OF q(3) same] by blast
qed

text \<open>A packet is written to the write buffer, and the writer's last buffer is the new one.\<close>

definition uq_send :: "nat option \<Rightarrow> bytes list \<Rightarrow> unsent_queue \<Rightarrow> unsent_queue result" where
  "uq_send reliable xss q =
     bind_result (uq_getWriteBuffer q) (\<lambda>(a, q1).
     bind_result (write_packet a reliable xss (uq_heap q1)) (\<lambda>(pb, w).
       Inr (uq_setWriteBuffer pb (q1\<lparr>uq_heap := pw_heap w\<rparr>))))"

lemma getWriteBuffer_ok:
  assumes "uq_ok as q"
  shows "\<exists>pre a q1. uq_getWriteBuffer q = Inr (a, q1) \<and> uq_ok (pre @ [a]) q1 \<and> uq_unsent (pre @ [a]) q1 = uq_unsent as q \<and>
    ph_rels (uq_heap q1) = ph_rels (uq_heap q)"
proof (cases as rule: rev_cases)
  case Nil
  then show ?thesis
    using assms
    by (intro exI [of _ "[]"])
       (auto simp: uq_ok_def uq_getWriteBuffer_def new_buffer_def pb_new_def live_def DATA_SIZE_def heap_ok_def uq_unsent_def
          buf_unsent_def pb_range_def)
next
  case (snoc pre a)
  then show ?thesis using assms by (auto simp: uq_ok_def uq_getWriteBuffer_def)
qed

lemma uq_send_ok:
  assumes q: "uq_ok as q" and r: "reliable = None \<or> (\<exists>r p. reliable = Some r \<and> ph_rels (uq_heap q) r = Some p)"
  shows "if length (concat xss) < 2 ^ 31
    then \<exists>q' as'. uq_send reliable xss q = Inr q' \<and> uq_ok as' q' \<and> uq_unsent as' q' = uq_unsent as q @ concat xss
    else uq_send reliable xss q = Inl Undefined_behaviour"
proof (cases "length (concat xss) < 2 ^ 31")
  case False
  obtain pre a q1 where q1: "uq_getWriteBuffer q = Inr (a, q1)" "uq_ok (pre @ [a]) q1" "ph_rels (uq_heap q1) = ph_rels (uq_heap q)"
    using getWriteBuffer_ok [OF q] by blast
  then have h: "heap_ok (uq_heap q1)" "queued (ph_bufs (uq_heap q1)) (uq_first q1) (pre @ [a])" by (simp_all add: uq_ok_def)
  obtain b where b: "ph_bufs (uq_heap q1) a = Some b" "live b []" "pb_next b = None" using queued_last [OF h(2)] .
  have "write_packet a reliable xss (uq_heap q1) = Inl Undefined_behaviour"
    using write_packet_overflow [OF h(1) b(1) _ b(3), of reliable xss] b(2) r q1(3) False by (auto simp: live_def)
  then show ?thesis using q1(1) False by (simp add: uq_send_def)
next
  case True
  obtain pre a q1 where q1: "uq_getWriteBuffer q = Inr (a, q1)" "uq_ok (pre @ [a]) q1" "uq_unsent (pre @ [a]) q1 = uq_unsent as q"
      "ph_rels (uq_heap q1) = ph_rels (uq_heap q)"
    using getWriteBuffer_ok [OF q] by blast
  then have h: "heap_ok (uq_heap q1)" "distinct (pre @ [a])" "queued (ph_bufs (uq_heap q1)) (uq_first q1) (pre @ [a])"
    by (simp_all add: uq_ok_def)
  obtain b where b: "ph_bufs (uq_heap q1) a = Some b" "live b []" "pb_next b = None" using queued_last [OF h(3)] .
  obtain w where w: "write_packet a reliable xss (uq_heap q1) = Inr (pw_buffer w, w)" "packet_after a b (uq_heap q1) (concat xss) w"
    using write_packet_after [OF h(1) b(1) _ b(3), of reliable xss] b(2) r q1(4) True by (auto simp: live_def)
  let ?q = "uq_setWriteBuffer (pw_buffer w) (q1\<lparr>uq_heap := pw_heap w\<rparr>)" and ?as = "pre @ pw_filled w @ [pw_buffer w]"
  note pq = packet_queued [OF h b(1) w(2)]
  have "uq_send reliable xss q = Inr ?q" using q1(1) w(1) by (simp add: uq_send_def)
  moreover have "uq_ok ?as ?q" using pq(1,2) w(2) by (simp add: uq_ok_def uq_setWriteBuffer_def packet_after_def)
  moreover have "uq_unsent ?as ?q = uq_unsent as q @ concat xss"
  proof -
    have "concat (map (buf_unsent (ph_bufs (pw_heap w))) (pw_filled w @ [pw_buffer w])) = buf_unsent (ph_bufs (uq_heap q1)) a @ concat xss"
      using packet_unsent [OF w(2) b(1)] b by (simp add: live_def buf_unsent_def)
    moreover have "uq_unsent ?as ?q = concat (map (buf_unsent (ph_bufs (pw_heap w))) pre) @
        concat (map (buf_unsent (ph_bufs (pw_heap w))) (pw_filled w @ [pw_buffer w]))"
      by (simp add: uq_unsent_def uq_setWriteBuffer_def)
    ultimately show ?thesis unfolding pq(3) q1(3) [symmetric] by (simp add: uq_unsent_def)
  qed
  ultimately show ?thesis using True by auto
qed

lemma uq_empty_ok:
  assumes "uq_ok as q"
  shows "uq_empty q = Inr (uq_unsent as q = [])"
proof (cases as)
  case Nil
  then show ?thesis using assms by (simp add: uq_ok_def uq_empty_def uq_unsent_def)
next
  case (Cons a bs)
  then obtain b where b: "uq_first q = Some a" "ph_bufs (uq_heap q) a = Some b" "live b bs" using assms by (auto simp: uq_ok_def)
  then have "pb_sent b = pb_written b \<longleftrightarrow> uq_unsent as q = []"
    using Cons by (auto simp: uq_unsent_def buf_unsent_def pb_range_def live_def)
  then show ?thesis using b by (simp add: uq_empty_def get_buf_def)
qed

lemma uq_prepend_ok:
  assumes q: "uq_ok as q" and new: "distinct (pre @ [a])" "set (pre @ [a]) \<inter> set as = {}"
    "queued (ph_bufs (uq_heap q)) (Some f) (pre @ [a])" and some: "\<exists>b. ph_bufs (uq_heap q) a = Some b \<and> (pb_sent b < pb_written b \<or> as = [])"
  shows "\<exists>q'. uq_prependWriteBuffer f a q = Inr q' \<and> uq_ok (pre @ a # as) q' \<and>
    uq_unsent (pre @ a # as) q' = concat (map (buf_unsent (ph_bufs (uq_heap q))) (pre @ [a])) @ uq_unsent as q"
proof -
  let ?B = "ph_bufs (uq_heap q)"
  obtain b where b: "?B a = Some b" "live b []" "pb_next b = None" using queued_last [OF new(3)] .
  let ?B' = "?B(a \<mapsto> b\<lparr>pb_next := uq_first q\<rparr>)"
  have "queued ?B' (uq_first q) as" using q new(2) by (simp add: uq_ok_def queued_other)
  then have "queued ?B' (Some a) (a # as)" using b some by (auto simp: live_def)
  then have "queued ?B' (Some f) (pre @ a # as)"
    using new(1) by (intro queued_append [OF new(3)]) auto
  moreover have "buf_unsent ?B' = buf_unsent ?B"
    using b by (intro ext) (auto simp: buf_unsent_def pb_range_def)
  ultimately show ?thesis
    using q new(1,2) b(1)
    by (auto simp: uq_prependWriteBuffer_def upd_buf_def get_buf_def uq_ok_def heap_ok_def uq_unsent_def)
qed

text \<open>
  Property C19: the queue of unsent packets is a queue of bytes.  Sending a packet, reliable or not, puts
  exactly its bytes at the end (unless they are too many for the writer's \<open>int\<close>, which is undefined).  \<open>sent\<close> returns and takes that many bytes off the front, leaving a well-formed
  queue, and fails its assertion for more than there are.  Prepending a chain of buffers puts its bytes
  first.  \<open>empty\<close> says whether there are none, and \<open>discardAll\<close> returns with an empty queue.
\<close>

theorem unsent_queue_is_fifo:
  assumes q: "uq_ok as q"
  shows "(reliable = None \<or> (\<exists>r p. reliable = Some r \<and> ph_rels (uq_heap q) r = Some p) \<longrightarrow>
      (if length (concat xss) < 2 ^ 31
       then \<exists>q' as'. uq_send reliable xss q = Inr q' \<and> uq_ok as' q' \<and> uq_unsent as' q' = uq_unsent as q @ concat xss
       else uq_send reliable xss q = Inl Undefined_behaviour)) \<and>
    (n \<le> length (uq_unsent as q) \<longrightarrow>
      (\<exists>q' as'. uq_sent n q = Some (Inr q') \<and> uq_ok as' q' \<and> uq_unsent as' q' = drop n (uq_unsent as q))) \<and>
    (length (uq_unsent as q) < n \<longrightarrow> uq_sent n q = Some (Inl Assert_failed)) \<and>
    (distinct (pre @ [a]) \<and> set (pre @ [a]) \<inter> set as = {} \<and> queued (ph_bufs (uq_heap q)) (Some f) (pre @ [a]) \<and>
        (\<exists>b. ph_bufs (uq_heap q) a = Some b \<and> (pb_sent b < pb_written b \<or> as = [])) \<longrightarrow>
      (\<exists>q'. uq_prependWriteBuffer f a q = Inr q' \<and> uq_ok (pre @ a # as) q' \<and>
        uq_unsent (pre @ a # as) q' = concat (map (buf_unsent (ph_bufs (uq_heap q))) (pre @ [a])) @ uq_unsent as q)) \<and>
    uq_empty q = Inr (uq_unsent as q = []) \<and>
    (\<exists>q'. uq_discardAll q = Some (Inr q') \<and> uq_ok [] q')"
proof -
  have "length (uq_unsent as q) < n \<longrightarrow> uq_sent n q = Some (Inl Assert_failed)"
    "\<exists>q'. uq_discardAll q = Some (Inr q') \<and> uq_ok [] q'"
    using q uq_sent_too_many uq_discardAll_ok by (auto simp: uq_ok_def)
  then show ?thesis
    using uq_send_ok [OF q] uq_sent_ok [OF q] uq_prepend_ok [OF q] uq_empty_ok [OF q] by (intro conjI) blast+
qed

definition sample_queue :: unsent_queue where
  "sample_queue =
     \<lparr>uq_heap = \<lparr>ph_bufs = [0 \<mapsto> (put_bytes [1, 2] (pb_new (\<lambda>_. 0)))\<lparr>pb_sent := 1\<rparr>, 1 \<mapsto> put_bytes [9] (pb_new (\<lambda>_. 0))],
        ph_rels = Map.empty, ph_fresh = 2, ph_junk = \<lambda>_. 0\<rparr>,
      uq_first = Some 0, uq_last = Some 0\<rparr>"

theorem unsent_queue_is_fifo_witness:
  "(\<exists>q as. uq_send None [[7], [8]] sample_queue = Inr q \<and> uq_unsent as q = [2, 7, 8]) \<and>
   (\<exists>q as. uq_sent 1 sample_queue = Some (Inr q) \<and> uq_unsent as q = []) \<and>
   uq_sent 2 sample_queue = Some (Inl Assert_failed) \<and>
   (\<exists>q. uq_prependWriteBuffer 1 1 sample_queue = Inr q \<and> uq_unsent [1, 0] q = [9, 2]) \<and>
   uq_empty sample_queue = Inr False \<and> (\<exists>q. uq_discardAll sample_queue = Some (Inr q) \<and> uq_ok [] q)"
proof -
  have ok: "uq_ok [0] sample_queue"
    by (simp add: uq_ok_def sample_queue_def heap_ok_def live_def put_bytes_def pb_new_def DATA_SIZE_def)
  have un: "uq_unsent [0] sample_queue = [2]"
    by (simp add: uq_unsent_def sample_queue_def buf_unsent_def put_bytes_def pb_new_def pb_range_def upt_rec)
  have pre: "queued (ph_bufs (uq_heap sample_queue)) (Some 1) ([] @ [1])" "\<exists>b. ph_bufs (uq_heap sample_queue) 1 = Some b \<and> pb_sent b < pb_written b"
      "buf_unsent (ph_bufs (uq_heap sample_queue)) 1 = [9]"
    by (simp_all add: sample_queue_def live_def put_bytes_def pb_new_def DATA_SIZE_def buf_unsent_def pb_range_def)
  have "length (concat [[7 :: u8], [8]]) < 2 ^ 31" by simp
  then show ?thesis
    using unsent_queue_is_fifo [OF ok, of None "[[7], [8]]" 1 "[]" 1 1] unsent_queue_is_fifo [OF ok, of None "[[7], [8]]" 2 "[]" 1 1]
      un pre by auto
qed

end
