(* ===== verification/Reliable_Packets.thy ===== *)
theory Reliable_Packets
  imports Packets
begin

text \<open>
  Reliable packets and their list (\<open>ReliablePacket\<close> and \<open>ReliablePacketList\<close> of \<open>src/flow/Net2Packet.h\<close> and
  \<open>src/flow/Net2Packet.cpp\<close>): a ring of packets through a head, each packet a chain of ranges of shared,
  reference-counted buffers.  Compaction moves the packets that were sent to a new chain of buffers,
  which is then sent again.
\<close>

subsection \<open>The ring\<close>

definition rl_new :: "pheap \<Rightarrow> nat \<times> pheap" where
  "rl_new h =
     (let l = ph_fresh h
      in (l, h\<lparr>ph_rels := (ph_rels h)(l \<mapsto> \<lparr>rp_buffer = 0, rp_cont = None, rp_prev = l, rp_next = l, rp_begin = 0, rp_end = 0\<rparr>),
               ph_fresh := Suc l\<rparr>))"

definition rl_empty :: "nat \<Rightarrow> pheap \<Rightarrow> bool result" where
  "rl_empty l h = bind_result (get_rel l h) (\<lambda>q. Inr (rp_next q = l))"

definition rp_insertBefore :: "nat \<Rightarrow> nat \<Rightarrow> pheap \<Rightarrow> pheap result" where
  "rp_insertBefore this p h =
     bind_result (get_rel p h) (\<lambda>q.
     bind_result (upd_rel this (\<lambda>t. t\<lparr>rp_next := p, rp_prev := rp_prev q\<rparr>) h) (\<lambda>h1.
     bind_result (upd_rel p (\<lambda>t. t\<lparr>rp_prev := this\<rparr>) h1) (\<lambda>h2.
       upd_rel (rp_prev q) (\<lambda>t. t\<lparr>rp_next := this\<rparr>) h2)))"

definition rl_insert :: "nat \<Rightarrow> nat \<Rightarrow> pheap \<Rightarrow> pheap result" where
  "rl_insert l rp h = rp_insertBefore rp l h"

text \<open>Deletes a packet and those it goes on in.\<close>

partial_function (option) rp_delete_chain :: "nat option \<Rightarrow> pheap \<Rightarrow> pheap result option" where
  "rp_delete_chain p h =
     (case p of
        None \<Rightarrow> Some (Inr h)
      | Some c \<Rightarrow>
          (case bind_result (get_rel c h) (\<lambda>q. bind_result (pb_delref (rp_buffer q) h) (\<lambda>h1. Inr (rp_cont q, h1))) of
             Inl e \<Rightarrow> Some (Inl e)
           | Inr (n, h1) \<Rightarrow> rp_delete_chain n (h1\<lparr>ph_rels := (ph_rels h1)(c := None)\<rparr>)))"

definition rp_remove :: "nat \<Rightarrow> pheap \<Rightarrow> pheap result option" where
  "rp_remove this h =
     (case bind_result (get_rel this h) (\<lambda>t.
             bind_result (upd_rel (rp_next t) (\<lambda>q. q\<lparr>rp_prev := rp_prev t\<rparr>) h) (\<lambda>h1.
               upd_rel (rp_prev t) (\<lambda>q. q\<lparr>rp_next := rp_next t\<rparr>) h1)) of
        Inl e \<Rightarrow> Some (Inl e)
      | Inr h2 \<Rightarrow> rp_delete_chain (Some this) h2)"

partial_function (option) rl_discardAll :: "nat \<Rightarrow> pheap \<Rightarrow> pheap result option" where
  "rl_discardAll l h =
     (case get_rel l h of
        Inl e \<Rightarrow> Some (Inl e)
      | Inr q \<Rightarrow>
          if rp_next q = l then Some (Inr h)
          else Option.bind (rp_remove (rp_next q) h) (\<lambda>x.
                 case x of Inl e \<Rightarrow> Some (Inl e) | Inr h1 \<Rightarrow> rl_discardAll l h1))"

subsection \<open>Compaction\<close>

text \<open>A buffer with room: the given one or, if it is full, a new one after it.\<close>

definition compact_room :: "nat \<Rightarrow> pheap \<Rightarrow> (nat \<times> pheap) result" where
  "compact_room into h =
     bind_result (get_buf into h) (\<lambda>b.
       if pb_written b = DATA_SIZE
       then let (n, h1) = new_buffer h
            in bind_result (upd_buf into (\<lambda>b. b\<lparr>pb_next := Some n\<rparr>) h1) (\<lambda>h2. Inr (n, h2))
       else Inr (into, h))"

text \<open>How many bytes of a packet to move, after a split if they do not all fit.\<close>

definition compact_split :: "nat \<Rightarrow> nat \<Rightarrow> pheap \<Rightarrow> (nat \<times> pheap) result" where
  "compact_split c into h =
     bind_result (get_rel c h) (\<lambda>q.
     bind_result (get_buf into h) (\<lambda>b.
       if rp_end q - rp_begin q > pb_unwritten b
       then let len = pb_unwritten b; e = ph_fresh h;
                h1 = h\<lparr>ph_rels := (ph_rels h)(e \<mapsto> \<lparr>rp_buffer = rp_buffer q, rp_cont = rp_cont q, rp_prev = 0, rp_next = 0,
                         rp_begin = rp_begin q + len, rp_end = rp_end q\<rparr>), ph_fresh := Suc e\<rparr>
            in bind_result (pb_addref (rp_buffer q) h1) (\<lambda>h2.
               bind_result (upd_rel c (\<lambda>q. q\<lparr>rp_cont := Some e\<rparr>) h2) (\<lambda>h3. Inr (len, h3)))
       else Inr (rp_end q - rp_begin q, h)))"

text \<open>Copies the bytes and makes the packet a range of the new buffer.\<close>

definition put_data :: "nat \<Rightarrow> bytes \<Rightarrow> packet_buffer \<Rightarrow> packet_buffer" where
  "put_data i xs b = b\<lparr>pb_data := (\<lambda>j. if i \<le> j \<and> j < i + length xs then xs ! (j - i) else pb_data b j)\<rparr>"

definition compact_move :: "nat \<Rightarrow> nat \<Rightarrow> nat \<Rightarrow> pheap \<Rightarrow> pheap result" where
  "compact_move c into len h =
     bind_result (get_rel c h) (\<lambda>q.
     bind_result (get_buf (rp_buffer q) h) (\<lambda>src.
     bind_result (upd_buf into (\<lambda>b. put_data (pb_written b) (pb_range src (rp_begin q) (rp_begin q + len)) b) h) (\<lambda>h1.
     bind_result (pb_delref (rp_buffer q) h1) (\<lambda>h2.
     bind_result (upd_rel c (\<lambda>q. q\<lparr>rp_buffer := into\<rparr>) h2) (\<lambda>h3.
     bind_result (pb_addref into h3) (\<lambda>h4.
     bind_result (get_buf into h4) (\<lambda>b.
     bind_result (upd_rel c (\<lambda>q. q\<lparr>rp_begin := pb_written b\<rparr>) h4) (\<lambda>h5.
     bind_result (upd_buf into (\<lambda>b. b\<lparr>pb_written := pb_written b + len\<rparr>) h5) (\<lambda>h6.
       upd_rel c (\<lambda>q. q\<lparr>rp_end := pb_written b + len\<rparr>) h6)))))))))"

definition compact_turn :: "nat \<Rightarrow> nat \<Rightarrow> pheap \<Rightarrow> (nat \<times> nat option \<times> pheap) result" where
  "compact_turn c into h =
     bind_result (compact_room into h) (\<lambda>(into1, h1).
     bind_result (compact_split c into1 h1) (\<lambda>(len, h2).
     bind_result (compact_move c into1 len h2) (\<lambda>h3.
     bind_result (get_rel c h3) (\<lambda>q. Inr (into1, rp_cont q, h3)))))"

text \<open>The inner loop, over one packet: whether it met the end, where it writes, and the heap.\<close>

partial_function (option) compact_chain ::
  "nat option \<Rightarrow> nat option \<Rightarrow> nat \<Rightarrow> pheap \<Rightarrow> (bool \<times> nat \<times> pheap) result option" where
  "compact_chain stop p into h =
     (case p of
        None \<Rightarrow> Some (Inr (False, into, h))
      | Some c \<Rightarrow>
          (case get_rel c h of
             Inl e \<Rightarrow> Some (Inl e)
           | Inr q \<Rightarrow>
               if stop = Some (rp_buffer q) then Some (Inr (True, into, h))
               else (case compact_turn c into h of
                       Inl e \<Rightarrow> Some (Inl e)
                     | Inr (into1, n, h1) \<Rightarrow> compact_chain stop n into1 h1)))"

partial_function (option) compact_loop ::
  "nat \<Rightarrow> nat option \<Rightarrow> nat \<Rightarrow> nat \<Rightarrow> pheap \<Rightarrow> (nat \<times> pheap) result option" where
  "compact_loop l stop r into h =
     (if r = l then Some (Inr (into, h))
      else Option.bind (compact_chain stop (Some r) into h) (\<lambda>x.
             case x of
               Inl e \<Rightarrow> Some (Inl e)
             | Inr (quit, into1, h1) \<Rightarrow>
                 if quit then Some (Inr (into1, h1))
                 else (case get_rel r h1 of
                         Inl e \<Rightarrow> Some (Inl e)
                       | Inr q \<Rightarrow> compact_loop l stop (rp_next q) into1 h1)))"

definition rl_compact :: "nat \<Rightarrow> nat \<Rightarrow> nat option \<Rightarrow> pheap \<Rightarrow> (nat \<times> pheap) result option" where
  "rl_compact l into stop h =
     (case get_rel l h of
        Inl e \<Rightarrow> Some (Inl e)
      | Inr q \<Rightarrow> compact_loop l stop (rp_next q) into h)"

subsection \<open>Linked lists\<close>

fun dll :: "(nat \<Rightarrow> nat option) \<Rightarrow> (nat \<Rightarrow> nat option) \<Rightarrow> nat \<Rightarrow> nat list \<Rightarrow> nat \<Rightarrow> bool" where
  "dll nx pv p [] n \<longleftrightarrow> nx p = Some n \<and> pv n = Some p"
| "dll nx pv p (x # xs) n \<longleftrightarrow> nx p = Some x \<and> pv x = Some p \<and> dll nx pv x xs n"

lemma dll_append: "dll nx pv p (xs @ y # ys) n \<longleftrightarrow> dll nx pv p xs y \<and> dll nx pv y ys n"
  by (induction xs arbitrary: p) auto

lemma dll_prev: "dll nx pv p xs n \<Longrightarrow> pv n = Some (last (p # xs))"
  by (induction xs arbitrary: p) auto

lemma dll_last: "dll nx pv p xs n \<Longrightarrow> nx (last (p # xs)) = Some n"
  by (induction xs arbitrary: p) auto

lemma dll_next: "dll nx pv p xs n \<Longrightarrow> nx p = Some (hd (xs @ [n]))"
  by (cases xs) auto

lemma dll_cong:
  assumes "\<And>x. x \<in> set (p # xs) \<Longrightarrow> nx' x = nx x" and "\<And>x. x \<in> set (n # xs) \<Longrightarrow> pv' x = pv x"
  shows "dll nx' pv' p xs n = dll nx pv p xs n"
  using assms by (induction xs arbitrary: p) auto

lemma dll_insert:
  assumes "dll nx pv p xs n" and "distinct (p # xs)" and "n \<notin> set xs" and "r \<notin> set (p # xs)" and "r \<noteq> n" and "a = last (p # xs)"
  shows "dll (nx(r \<mapsto> n, a \<mapsto> r)) (pv(r \<mapsto> a, n \<mapsto> r)) p (xs @ [r]) n"
  using assms
proof (induction xs arbitrary: p)
  case (Cons x xs)
  have "p \<noteq> a" using Cons.prems(2,6) by (metis distinct.simps(2) last_ConsR last_in_set list.distinct(1))
  moreover have "dll (nx(r \<mapsto> n, a \<mapsto> r)) (pv(r \<mapsto> a, n \<mapsto> r)) x (xs @ [r]) n"
    using Cons.prems by (intro Cons.IH) auto
  ultimately show ?case using Cons.prems by (simp add: fun_upd_def)
qed auto

lemma dll_remove:
  assumes "dll nx pv p (xs @ r # ys) n" and "distinct (p # xs @ r # ys)" and "n \<notin> set (xs @ r # ys)"
    and "a = last (p # xs)" and "f = hd (ys @ [n])"
  shows "dll (nx(a \<mapsto> f)) (pv(f \<mapsto> a)) p (xs @ ys) n"
  using assms
proof (induction xs arbitrary: p)
  case Nil
  show ?case
  proof (cases ys)
    case Nil
    then show ?thesis using Nil.prems by auto
  next
    case (Cons y ys')
    then have "dll (nx(a \<mapsto> f)) (pv(f \<mapsto> a)) y ys' n = dll nx pv y ys' n"
      using Nil.prems by (intro dll_cong) auto
    then show ?thesis using Cons Nil.prems by (simp add: fun_upd_def)
  qed
next
  case (Cons x xs)
  have "p \<noteq> a" using Cons.prems(2,4) by (metis Un_iff distinct.simps(2) last_ConsR last_in_set list.distinct(1) set_append append_Cons)
  moreover have "x \<noteq> f" using Cons.prems(2,3,5) by (cases ys) auto
  moreover have "dll (nx(a \<mapsto> f)) (pv(f \<mapsto> a)) x (xs @ ys) n"
    using Cons.prems by (intro Cons.IH) auto
  ultimately show ?case using Cons.prems by (simp add: fun_upd_def)
qed

subsection \<open>References to buffers\<close>

text \<open>
  \<open>refs_ok F h\<close>: every buffer counts at least the references \<open>F\<close> knows of, so that it is there as long as
  there is one.  The ranges in a pool of packets are such references; \<open>E\<close> gives those of other owners.
\<close>

definition refs_ok :: "(nat \<Rightarrow> nat) \<Rightarrow> pheap \<Rightarrow> bool" where
  "refs_ok F h \<longleftrightarrow> (\<forall>a. 0 < F a \<longrightarrow> (\<exists>b. ph_bufs h a = Some b \<and> int (F a) \<le> pb_refs b))"

definition buf_of :: "(nat \<Rightarrow> reliable_packet option) \<Rightarrow> nat \<Rightarrow> nat option" where
  "buf_of R c = map_option rp_buffer (R c)"

definition uses :: "(nat \<Rightarrow> reliable_packet option) \<Rightarrow> nat list \<Rightarrow> nat \<Rightarrow> nat" where
  "uses R cs a = length (filter (\<lambda>c. buf_of R c = Some a) cs)"

definition entry_ok :: "pheap \<Rightarrow> nat \<Rightarrow> bool" where
  "entry_ok h c \<longleftrightarrow>
     (\<exists>q b. ph_rels h c = Some q \<and> ph_bufs h (rp_buffer q) = Some b \<and> rp_begin q \<le> rp_end q \<and> rp_end q \<le> pb_written b \<and>
        pb_written b \<le> DATA_SIZE)"

definition pool_ok :: "(nat \<Rightarrow> nat) \<Rightarrow> pheap \<Rightarrow> nat list \<Rightarrow> bool" where
  "pool_ok E h cs \<longleftrightarrow>
     heap_ok h \<and> distinct cs \<and> (\<forall>c \<in> set cs. entry_ok h c) \<and> refs_ok (\<lambda>a. uses (ph_rels h) cs a + E a) h"

definition ebytes :: "pheap \<Rightarrow> nat \<Rightarrow> bytes" where
  "ebytes h c =
     (case ph_rels h c of
        None \<Rightarrow> []
      | Some q \<Rightarrow> (case ph_bufs h (rp_buffer q) of None \<Rightarrow> [] | Some b \<Rightarrow> pb_range b (rp_begin q) (rp_end q)))"

lemma uses_append [simp]: "uses R (xs @ ys) a = uses R xs a + uses R ys a"
  by (simp add: uses_def)

lemma uses_Cons [simp]: "uses R (c # cs) a = (if buf_of R c = Some a then 1 else 0) + uses R cs a"
  by (simp add: uses_def)

lemma uses_Nil [simp]: "uses R [] a = 0"
  by (simp add: uses_def)

lemma uses_cong: "(\<And>c. c \<in> set cs \<Longrightarrow> buf_of R' c = buf_of R c) \<Longrightarrow> uses R' cs a = uses R cs a"
  unfolding uses_def by (metis (mono_tags, lifting) filter_cong)

lemma uses_pos: "c \<in> set cs \<Longrightarrow> buf_of R c = Some a \<Longrightarrow> 0 < uses R cs a"
  by (auto simp: uses_def filter_empty_conv)

lemma uses_upd:
  assumes "distinct cs" and "c \<in> set cs" and "R c = Some q"
  shows "uses (R(c \<mapsto> q')) cs a + (if rp_buffer q = a then 1 else 0) = uses R cs a + (if rp_buffer q' = a then 1 else 0)"
proof -
  obtain xs ys where cs: "cs = xs @ c # ys" using assms(2) by (metis split_list)
  have "uses (R(c \<mapsto> q')) xs a = uses R xs a" "uses (R(c \<mapsto> q')) ys a = uses R ys a"
    using assms(1) cs by (auto intro!: uses_cong simp: buf_of_def)
  then show ?thesis using assms(3) by (simp add: cs buf_of_def)
qed

lemma refs_okD:
  assumes "refs_ok F h" and "0 < F a"
  obtains b where "ph_bufs h a = Some b" and "int (F a) \<le> pb_refs b"
  using assms by (auto simp: refs_ok_def)

text \<open>References do not get more, and buffers keep their counts.\<close>

lemma refs_ok_mono:
  assumes "refs_ok F h" and "\<And>a. F' a \<le> F a"
    and "\<And>a b. ph_bufs h a = Some b \<Longrightarrow> 0 < F' a \<Longrightarrow> \<exists>b'. ph_bufs h' a = Some b' \<and> pb_refs b' = pb_refs b"
  shows "refs_ok F' h'"
  unfolding refs_ok_def
proof (intro allI impI)
  fix a
  assume a: "0 < F' a"
  then have "0 < F a" using assms(2) [of a] by simp
  then obtain b where b: "ph_bufs h a = Some b" "int (F a) \<le> pb_refs b" using refs_okD [OF assms(1)] by blast
  then obtain b' where "ph_bufs h' a = Some b'" "pb_refs b' = pb_refs b" using assms(3) [OF b(1) a] by blast
  then show "\<exists>b. ph_bufs h' a = Some b \<and> int (F' a) \<le> pb_refs b" using b(2) assms(2) [of a] by auto
qed

lemma refs_ok_new:
  assumes "refs_ok (F(n := 0)) h" and "ph_bufs h n = Some b" and "int (F n) \<le> pb_refs b"
  shows "refs_ok F h"
  unfolding refs_ok_def
proof (intro allI impI)
  fix a
  assume a: "0 < F a"
  show "\<exists>b. ph_bufs h a = Some b \<and> int (F a) \<le> pb_refs b"
    using a assms refs_okD [OF assms(1), of a] by (cases "a = n") auto
qed

lemma delref_refs:
  assumes "refs_ok F h" and "0 < F a"
  shows "\<exists>h'. pb_delref a h = Inr h' \<and> refs_ok (F(a := F a - 1)) h' \<and> ph_rels h' = ph_rels h \<and> (heap_ok h \<longrightarrow> heap_ok h') \<and>
    ph_fresh h' = ph_fresh h \<and> (\<forall>x b'. ph_bufs h' x = Some b' \<longrightarrow> (\<exists>b. ph_bufs h x = Some b \<and> b' = b\<lparr>pb_refs := pb_refs b'\<rparr>))"
proof -
  obtain b where b: "ph_bufs h a = Some b" "int (F a) \<le> pb_refs b" using assms by (auto simp: refs_ok_def)
  show ?thesis
  proof (cases "pb_refs b - 1 = 0")
    case True
    then have "F a - 1 = 0" using b(2) by linarith
    then show ?thesis using assms b True by (auto simp: pb_delref_def get_buf_def refs_ok_def heap_ok_def)
  next
    case False
    then show ?thesis using assms b by (auto simp: pb_delref_def upd_buf_def get_buf_def refs_ok_def heap_ok_def)
  qed
qed

lemma addref_refs:
  assumes "refs_ok F h" and "0 < F a"
  shows "\<exists>h' b. ph_bufs h a = Some b \<and> h' = h\<lparr>ph_bufs := (ph_bufs h)(a \<mapsto> b\<lparr>pb_refs := pb_refs b + 1\<rparr>)\<rparr> \<and>
    pb_addref a h = Inr h' \<and> refs_ok (F(a := F a + 1)) h'"
proof -
  obtain b where "ph_bufs h a = Some b" "int (F a) \<le> pb_refs b" using assms by (auto simp: refs_ok_def)
  then show ?thesis using assms(1) by (auto simp: pb_addref_def upd_buf_def get_buf_def refs_ok_def)
qed

text \<open>An entry keeps its bytes as long as its buffer only grows.\<close>

lemma entry_grown:
  assumes "entry_ok h c" and "ph_rels h c = Some q" and "ph_rels h' c = Some q'"
    and "rp_buffer q' = rp_buffer q" and "rp_begin q' = rp_begin q" and "rp_end q' = rp_end q"
    and "\<And>b. ph_bufs h (rp_buffer q) = Some b \<Longrightarrow> pb_written b \<le> DATA_SIZE \<Longrightarrow>
      \<exists>b'. ph_bufs h' (rp_buffer q) = Some b' \<and> grown b b' \<and> pb_written b' \<le> DATA_SIZE"
  shows "entry_ok h' c \<and> ebytes h' c = ebytes h c"
proof -
  obtain b where q: "ph_bufs h (rp_buffer q) = Some b" "rp_begin q \<le> rp_end q" "rp_end q \<le> pb_written b" "pb_written b \<le> DATA_SIZE"
    using assms(1,2) by (auto simp: entry_ok_def)
  obtain b' where b': "ph_bufs h' (rp_buffer q) = Some b'" "grown b b'" "pb_written b' \<le> DATA_SIZE" using assms(7) [OF q(1,4)] by blast
  have "entry_ok h' c" using q b' assms(2-6) by (auto simp: entry_ok_def grown_def)
  moreover have "ebytes h' c = ebytes h c" using q b' assms(2-6) by (auto simp: ebytes_def grown_def pb_range_def)
  ultimately show ?thesis by blast
qed

lemma entry_present:
  assumes "entry_ok h c"
  obtains q b where "ph_rels h c = Some q" and "ph_bufs h (rp_buffer q) = Some b"
  using assms by (auto simp: entry_ok_def)

lemma pool_entry: "pool_ok E h cs \<Longrightarrow> c \<in> set cs \<Longrightarrow> entry_ok h c"
  by (simp add: pool_ok_def)

lemma pool_heap: "pool_ok E h cs \<Longrightarrow> heap_ok h \<and> distinct cs \<and> refs_ok (\<lambda>a. uses (ph_rels h) cs a + E a) h"
  by (simp add: pool_ok_def)

lemma pool_fresh:
  assumes "pool_ok E h cs"
  shows "ph_fresh h \<notin> set cs"
proof
  assume "ph_fresh h \<in> set cs"
  then obtain q where "ph_rels h (ph_fresh h) = Some q" using entry_present pool_entry [OF assms] by blast
  then show False using assms by (simp add: pool_ok_def heap_ok_def)
qed

lemma pool_okI:
  "heap_ok h \<Longrightarrow> distinct cs \<Longrightarrow> (\<And>c. c \<in> set cs \<Longrightarrow> entry_ok h c) \<Longrightarrow> refs_ok (\<lambda>a. uses (ph_rels h) cs a + E a) h \<Longrightarrow> pool_ok E h cs"
  by (simp add: pool_ok_def)

lemma ebytes_length: "entry_ok h c \<Longrightarrow> ph_rels h c = Some q \<Longrightarrow> length (ebytes h c) = rp_end q - rp_begin q"
  by (auto simp: entry_ok_def ebytes_def pb_range_def)

lemma grown_refs: "b' = b\<lparr>pb_refs := pb_refs b'\<rparr> \<Longrightarrow> grown b b' \<and> pb_written b' = pb_written b \<and> pb_next b' = pb_next b"
  by (cases b; cases b') (auto simp: grown_def)

subsection \<open>A turn of the compaction\<close>

text \<open>The chain that is written: full buffers, then the current one, all held from outside the pool.\<close>

definition into_ok :: "(nat \<Rightarrow> nat) \<Rightarrow> pheap \<Rightarrow> nat list \<Rightarrow> nat \<Rightarrow> bool" where
  "into_ok E h fs into \<longleftrightarrow> distinct (fs @ [into]) \<and> links (ph_bufs h) fs into \<and> (\<forall>a \<in> set (fs @ [into]). 0 < E a)"

definition into_bytes :: "pheap \<Rightarrow> nat list \<Rightarrow> bytes" where
  "into_bytes h as = concat (map (buf_bytes (ph_bufs h)) as)"

lemma concat_map_cong: "(\<And>x. x \<in> set xs \<Longrightarrow> f x = g x) \<Longrightarrow> concat (map f xs) = concat (map g xs)"
  by (induction xs) auto

lemma into_current:
  assumes "into_ok E h fs into"
  obtains b where "ph_bufs h into = Some b" and "pb_written b \<le> DATA_SIZE" and "pb_next b = None"
  using assms by (auto simp: into_ok_def links_def)

definition same_buf :: "packet_buffer \<Rightarrow> packet_buffer \<Rightarrow> bool" where
  "same_buf b b' \<longleftrightarrow> grown b b' \<and> pb_written b' = pb_written b \<and> pb_next b' = pb_next b"

lemma links_same:
  assumes "links B fs i" and "\<And>x b. x \<in> set fs \<Longrightarrow> B x = Some b \<Longrightarrow> \<exists>b'. B' x = Some b' \<and> same_buf b b'"
    and "B' i = Some c" and "pb_written c \<le> DATA_SIZE" and "pb_next c = None"
  shows "links B' fs i"
  using assms
proof (induction fs)
  case (Cons a fs)
  obtain b where "B a = Some b" "pb_written b = DATA_SIZE" "pb_next b = Some (hd (fs @ [i]))" "links B fs i"
    using Cons.prems(1) by (auto simp: links_Cons)
  moreover from this obtain b' where "B' a = Some b'" "same_buf b b'" using Cons.prems(2) [of a b] by auto
  moreover have "links B' fs i" using Cons.IH calculation(4) Cons.prems(2-5) by auto
  ultimately show ?case by (simp add: links_Cons same_buf_def)
qed (auto simp: links_def)

lemma same_bytes:
  assumes "B x = Some b" and "B' x = Some b'" and "same_buf b b'"
  shows "buf_bytes B' x = buf_bytes B x"
  using assms by (auto simp: buf_bytes_def same_buf_def grown_def pb_range_def)

lemma into_same:
  assumes "into_ok E h fs i" and "\<And>x b. ph_bufs h x = Some b \<Longrightarrow> \<exists>b'. ph_bufs h' x = Some b' \<and> same_buf b b'"
  shows "into_ok E h' fs i \<and> into_bytes h' (fs @ [i]) = into_bytes h (fs @ [i])"
proof -
  obtain b where b: "ph_bufs h i = Some b" "pb_written b \<le> DATA_SIZE" "pb_next b = None" using into_current [OF assms(1)] .
  obtain b' where "ph_bufs h' i = Some b'" "same_buf b b'" using assms(2) [OF b(1)] by blast
  then have "links (ph_bufs h') fs i"
    using assms b by (intro links_same [of "ph_bufs h" fs i "ph_bufs h'" b']) (auto simp: into_ok_def same_buf_def)
  moreover have "ph_bufs h x \<noteq> None" if "x \<in> set (fs @ [i])" for x
    using assms(1) that by (fastforce simp: into_ok_def links_def in_set_conv_nth)
  then have "into_bytes h' (fs @ [i]) = into_bytes h (fs @ [i])"
    unfolding into_bytes_def using assms(2) by (intro concat_map_cong) (metis same_bytes not_None_eq)
  ultimately show ?thesis using assms(1) by (simp add: into_ok_def)
qed

lemma room_ok:
  assumes pool: "pool_ok E h cs" and into: "into_ok E h fs into"
  shows "\<exists>i1 h1 fs1 E1 b1. compact_room into h = Inr (i1, h1) \<and> pool_ok E1 h1 cs \<and> into_ok E1 h1 fs1 i1 \<and> ph_rels h1 = ph_rels h \<and>
    (\<forall>x \<in> set cs. ebytes h1 x = ebytes h x) \<and> into_bytes h1 (fs1 @ [i1]) = into_bytes h (fs @ [into]) \<and>
    hd (fs1 @ [i1]) = hd (fs @ [into]) \<and> ph_bufs h1 i1 = Some b1 \<and> pb_written b1 < DATA_SIZE"
proof -
  obtain b where b: "ph_bufs h into = Some b" "pb_written b \<le> DATA_SIZE" "pb_next b = None" using into_current [OF into] .
  show ?thesis
  proof (cases "pb_written b = DATA_SIZE")
    case False
    then show ?thesis using assms b
      by (intro exI [of _ into] exI [of _ h] exI [of _ fs] exI [of _ E] exI [of _ b]) (simp add: compact_room_def get_buf_def)
  next
    case True
    let ?n = "ph_fresh h" and ?b = "b\<lparr>pb_next := Some (ph_fresh h)\<rparr>"
    let ?B = "(ph_bufs h)(?n \<mapsto> pb_new (ph_junk h), into \<mapsto> ?b)"
    let ?h = "h\<lparr>ph_bufs := ?B, ph_fresh := Suc ?n\<rparr>" and ?E = "E(?n := 1)"
    have ok: "heap_ok h" "distinct (fs @ [into])" "links (ph_bufs h) fs into" using pool into by (simp_all add: pool_ok_def into_ok_def)
    then have none: "ph_bufs h ?n = None" by (simp add: heap_ok_def)
    have "?n \<notin> set (fs @ [into])" using none ok(3) by (auto simp: links_def in_set_conv_nth)
    then have n: "?n \<notin> set (fs @ [into])" "?n \<noteq> into" by auto
    have run: "compact_room into h = Inr (?n, ?h)"
      using b True n(2) by (simp add: compact_room_def get_buf_def new_buffer_def upd_buf_def Let_def fun_upd_twist)
    have entries: "entry_ok ?h x \<and> ebytes ?h x = ebytes h x" if "x \<in> set cs" for x
    proof -
      have x: "entry_ok h x" by (rule pool_entry [OF pool that])
      then obtain q where q: "ph_rels h x = Some q" using entry_present by blast
      show ?thesis by (rule entry_grown [OF x q]) (use q b none in \<open>auto simp: grown_def\<close>)
    qed
    have refs: "refs_ok (\<lambda>a. uses (ph_rels h) cs a + ?E a) ?h"
    proof -
      have "uses (ph_rels h) cs ?n = 0"
        using pool none by (auto simp: uses_def filter_empty_conv pool_ok_def entry_ok_def buf_of_def)
      moreover have "refs_ok ((\<lambda>a. uses (ph_rels h) cs a + ?E a)(?n := 0)) ?h"
        by (rule refs_ok_mono [of "\<lambda>a. uses (ph_rels h) cs a + E a" h]) (use pool b(1) in \<open>auto simp: pool_ok_def\<close>)
      ultimately show ?thesis 
        using n(2) refs_ok_new [of "\<lambda>a. uses (ph_rels h) cs a + ?E a" ?n ?h "pb_new (ph_junk h)"] by (simp add: pb_new_def)
    qed
    have "links ?B (fs @ [into]) ?n"
      using ok n b True by (intro links_extend [of "ph_bufs h" fs into b ?n _ ?b "pb_new (ph_junk h)"]) (auto simp: pb_new_def fun_upd_twist)
    then have "into_ok ?E ?h (fs @ [into]) ?n" using into n by (auto simp: into_ok_def)
    moreover have "pool_ok ?E ?h cs" using pool entries refs n(2) ok(1) b(1) by (auto simp: pool_ok_def heap_ok_def)
    moreover have "into_bytes ?h ((fs @ [into]) @ [?n]) = into_bytes h (fs @ [into])"
    proof -
      have "concat (map (buf_bytes ?B) (fs @ [into])) = concat (map (buf_bytes (ph_bufs h)) (fs @ [into]))"
        using n ok(2) b by (intro concat_map_cong) (auto simp: buf_bytes_def pb_range_def)
      moreover have "buf_bytes ?B ?n = []" using n(2) by (simp add: buf_bytes_def pb_new_def pb_range_def)
      ultimately show ?thesis by (simp add: into_bytes_def)
    qed
    ultimately show ?thesis
      using run entries n(2)
      by (intro exI [of _ ?n] exI [of _ ?h] exI [of _ "fs @ [into]"] exI [of _ ?E] exI [of _ "pb_new (ph_junk h)"])
         (simp add: pb_new_def DATA_SIZE_def hd_append)
  qed
qed

text \<open>A split adds an entry behind the one that is split.\<close>

lemma split_ok:
  assumes pool: "pool_ok E h (xs @ c # ys)" and into: "into_ok E h fs into"
    and b: "ph_bufs h into = Some b" "pb_written b < DATA_SIZE" and q: "ph_rels h c = Some q"
  shows "\<exists>len h1 es. compact_split c into h = Inr (len, h1) \<and> pool_ok E h1 (xs @ c # es @ ys) \<and> into_ok E h1 fs into \<and>
    len \<le> DATA_SIZE - pb_written b \<and> len \<le> length (ebytes h c) \<and> (\<forall>x \<in> set (xs @ c # ys). ebytes h1 x = ebytes h x) \<and>
    into_bytes h1 (fs @ [into]) = into_bytes h (fs @ [into]) \<and> (\<exists>b1. ph_bufs h1 into = Some b1 \<and> pb_written b1 = pb_written b) \<and>
    (es = [] \<and> len = length (ebytes h c) \<and> ph_rels h1 = ph_rels h \<or>
     (\<exists>e p. es = [e] \<and> 0 < len \<and> ph_rels h e = None \<and> rp_cont p = rp_cont q \<and> rp_buffer p = rp_buffer q \<and>
       ebytes h1 e = drop len (ebytes h c) \<and> ph_rels h1 = (ph_rels h)(e \<mapsto> p, c \<mapsto> q\<lparr>rp_cont := Some e\<rparr>)))"
proof -
  have c: "entry_ok h c" "heap_ok h" "distinct (xs @ c # ys)" using pool by (simp_all add: pool_ok_def)
  obtain a where a: "ph_bufs h (rp_buffer q) = Some a" "rp_begin q \<le> rp_end q" "rp_end q \<le> pb_written a" "pb_written a \<le> DATA_SIZE"
    using c(1) q by (auto simp: entry_ok_def)
  have len: "length (ebytes h c) = rp_end q - rp_begin q" by (rule ebytes_length [OF c(1) q])
  show ?thesis
  proof (cases "rp_end q - rp_begin q > pb_unwritten b")
    case False
    then show ?thesis
      using assms len
      by (intro exI [of _ "rp_end q - rp_begin q"] exI [of _ h] exI [of _ "[]"])
         (simp add: compact_split_def get_rel_def get_buf_def pb_unwritten_def)
  next
    case True
    let ?e = "ph_fresh h" and ?l = "pb_unwritten b"
    let ?p = "\<lparr>rp_buffer = rp_buffer q, rp_cont = rp_cont q, rp_prev = 0, rp_next = 0, rp_begin = rp_begin q + ?l, rp_end = rp_end q\<rparr>"
    let ?a = "a\<lparr>pb_refs := pb_refs a + 1\<rparr>"
    let ?R = "(ph_rels h)(?e \<mapsto> ?p, c \<mapsto> q\<lparr>rp_cont := Some ?e\<rparr>)" and ?B = "(ph_bufs h)(rp_buffer q \<mapsto> ?a)"
    let ?h = "h\<lparr>ph_rels := ?R, ph_bufs := ?B, ph_fresh := Suc ?e\<rparr>"
    have none: "ph_rels h ?e = None" using c(2) by (simp add: heap_ok_def)
    have e: "?e \<notin> set (xs @ c # ys)" by (rule pool_fresh [OF pool])
    have run: "compact_split c into h = Inr (?l, ?h)"
      using True q b a(1) e by (simp add: compact_split_def get_rel_def get_buf_def pb_addref_def upd_buf_def upd_rel_def Let_def)
    have grow: "\<exists>b'. ph_bufs ?h x = Some b' \<and> same_buf d b'" if "ph_bufs h x = Some d" for x d
      using that a(1) by (auto simp: grown_def same_buf_def)
    have entries: "entry_ok ?h x \<and> ebytes ?h x = ebytes h x" if "x \<in> set (xs @ c # ys)" for x
    proof -
      have x: "entry_ok h x" by (rule pool_entry [OF pool that])
      then obtain p where p: "ph_rels h x = Some p" using entry_present by blast
      let ?p' = "if x = c then q\<lparr>rp_cont := Some ?e\<rparr> else p"
      have p': "ph_rels ?h x = Some ?p'" using p e that by auto
      have "rp_buffer ?p' = rp_buffer p" "rp_begin ?p' = rp_begin p" "rp_end ?p' = rp_end p" using p q by auto
      moreover have "\<exists>b'. ph_bufs ?h (rp_buffer p) = Some b' \<and> grown d b' \<and> pb_written b' \<le> DATA_SIZE"
        if "ph_bufs h (rp_buffer p) = Some d" "pb_written d \<le> DATA_SIZE" for d
        using grow [OF that(1)] that(2) unfolding same_buf_def by auto
      ultimately show ?thesis using entry_grown [OF x p p'] by blast
    qed
    have l: "?l \<le> rp_end q - rp_begin q" "0 < ?l" using True b(2) by (simp_all add: pb_unwritten_def)
    have new: "entry_ok ?h ?e \<and> ebytes ?h ?e = drop ?l (ebytes h c)"
    proof -
      have "entry_ok ?h ?e" using a l(1) e by (auto simp: entry_ok_def)
      moreover have "ebytes ?h ?e = drop ?l (ebytes h c)"
        using a l(1) e q by (auto simp: ebytes_def pb_range_def drop_map add.commute)
      ultimately show ?thesis by blast
    qed
    have refs: "refs_ok (\<lambda>a. uses ?R (xs @ c # [?e] @ ys) a + E a) ?h"
    proof -
      let ?F = "\<lambda>a. uses (ph_rels h) (xs @ c # ys) a + E a"
      have "uses ?R xs x = uses (ph_rels h) xs x" "uses ?R ys x = uses (ph_rels h) ys x" for x
        using e c(3) by (auto intro!: uses_cong simp: buf_of_def)
      then have "(\<lambda>a. uses ?R (xs @ c # [?e] @ ys) a + E a) = ?F(rp_buffer q := ?F (rp_buffer q) + 1)"
        using q e by (auto simp: buf_of_def fun_eq_iff)
      moreover have "refs_ok (?F(rp_buffer q := ?F (rp_buffer q) + 1)) (h\<lparr>ph_bufs := ?B\<rparr>)"
        using addref_refs [of ?F h "rp_buffer q"] pool_heap [OF pool] a(1) q by (auto simp: buf_of_def)
      ultimately show ?thesis by (simp add: refs_ok_def)
    qed
    have "pool_ok E ?h (xs @ c # [?e] @ ys)"
    proof (rule pool_okI)
      show "heap_ok ?h" using c(2) q a(1) by (auto simp: heap_ok_def)
      show "distinct (xs @ c # [?e] @ ys)" using c(3) e by auto
      show "refs_ok (\<lambda>a. uses (ph_rels ?h) (xs @ c # [?e] @ ys) a + E a) ?h" using refs by simp
      show "entry_ok ?h x" if "x \<in> set (xs @ c # [?e] @ ys)" for x using entries new that by auto
    qed
    moreover have "into_ok E ?h fs into \<and> into_bytes ?h (fs @ [into]) = into_bytes h (fs @ [into])" by (rule into_same [OF into grow])
    moreover have "\<exists>b1. ph_bufs ?h into = Some b1 \<and> pb_written b1 = pb_written b" using grow [OF b(1)] by (auto simp: same_buf_def)
    ultimately show ?thesis
      using run entries new l none len
      by (intro exI [of _ ?l] exI [of _ ?h] exI [of _ "[?e]"] conjI disjI2 exI [of _ ?e] exI [of _ ?p]) (auto simp: pb_unwritten_def)
  qed
qed

text \<open>What a move does to the heap: the packet is a range of the buffer written to, and the other buffers
  keep their bytes as long as they are referred to.\<close>

definition moved :: "nat \<Rightarrow> reliable_packet \<Rightarrow> nat \<Rightarrow> packet_buffer \<Rightarrow> bytes \<Rightarrow> pheap \<Rightarrow> pheap \<Rightarrow> bool" where
  "moved c q into b xs h h1 \<longleftrightarrow>
     ph_rels h1 = (ph_rels h)(c \<mapsto> q\<lparr>rp_buffer := into, rp_begin := pb_written b, rp_end := pb_written b + length xs\<rparr>) \<and>
     (heap_ok h \<longrightarrow> heap_ok h1) \<and>
     (\<exists>n. ph_bufs h1 into = Some ((put_bytes xs b)\<lparr>pb_refs := n\<rparr>)) \<and>
     (\<forall>x b1. x \<noteq> into \<and> ph_bufs h1 x = Some b1 \<longrightarrow> (\<exists>b0. ph_bufs h x = Some b0 \<and> same_buf b0 b1))"

lemma move_heap:
  assumes refs: "refs_ok F h" "0 < F (rp_buffer q)" "0 < F into" "rp_buffer q = into \<Longrightarrow> 1 < F into"
    and q: "ph_rels h c = Some q" and src: "ph_bufs h (rp_buffer q) = Some src" and b: "ph_bufs h into = Some b"
    and xs_def: "xs = pb_range src (rp_begin q) (rp_begin q + len)" and F1_def: "F1 = F(rp_buffer q := F (rp_buffer q) - 1)"
  shows "\<exists>h1. compact_move c into len h = Inr h1 \<and> moved c q into b xs h h1 \<and> refs_ok (F1(into := F1 into + 1)) h1"
proof -
  let ?b = "put_data (pb_written b) xs b"
  let ?h1 = "h\<lparr>ph_bufs := (ph_bufs h)(into \<mapsto> ?b)\<rparr>"
  have r1: "refs_ok F ?h1" by (rule refs_ok_mono [OF refs(1)]) (use b in \<open>auto simp: put_data_def\<close>)
  obtain h2 where h2: "pb_delref (rp_buffer q) ?h1 = Inr h2" "refs_ok F1 h2" "ph_rels h2 = ph_rels h" "heap_ok ?h1 \<longrightarrow> heap_ok h2"
      "\<And>x b'. ph_bufs h2 x = Some b' \<Longrightarrow> \<exists>b. ph_bufs ?h1 x = Some b \<and> b' = b\<lparr>pb_refs := pb_refs b'\<rparr>"
    using delref_refs [OF r1 refs(2)] unfolding F1_def by auto
  have "0 < F1 into" using refs(3,4) by (auto simp: F1_def)
  then obtain b2 where b2: "ph_bufs h2 into = Some b2" "int (F1 into) \<le> pb_refs b2" using refs_okD [OF h2(2)] by blast
  then have eq: "b2 = ?b\<lparr>pb_refs := pb_refs b2\<rparr>" using h2(5) [OF b2(1)] by simp
  have w: "pb_written b2 = pb_written b" by (subst eq) (simp add: put_data_def)
  have len: "length xs = len" by (simp add: xs_def pb_range_def)
  let ?q = "q\<lparr>rp_buffer := into, rp_begin := pb_written b, rp_end := pb_written b + len\<rparr>"
  let ?b3 = "b2\<lparr>pb_refs := pb_refs b2 + 1, pb_written := pb_written b + len\<rparr>"
  let ?h = "h2\<lparr>ph_rels := (ph_rels h)(c \<mapsto> ?q), ph_bufs := (ph_bufs h2)(into \<mapsto> ?b3)\<rparr>"
  have run: "compact_move c into len h = Inr ?h"
    using q src b h2(1,3) b2(1) w
    by (simp add: compact_move_def get_rel_def get_buf_def upd_buf_def upd_rel_def pb_addref_def xs_def [symmetric])
  have "?b3 = (put_bytes xs b)\<lparr>pb_refs := pb_refs b2 + 1\<rparr>"
    by (subst eq) (simp add: put_data_def put_bytes_def len)
  moreover have "\<exists>b0. ph_bufs h x = Some b0 \<and> same_buf b0 b1" if x: "x \<noteq> into" "ph_bufs h2 x = Some b1" for x b1
  proof -
    obtain b0 where b0: "ph_bufs ?h1 x = Some b0" "b1 = b0\<lparr>pb_refs := pb_refs b1\<rparr>" using h2(5) [OF x(2)] by blast
    show ?thesis using grown_refs [OF b0(2)] b0(1) x(1) unfolding same_buf_def by simp
  qed
  moreover have "heap_ok ?h" if "heap_ok h"
  proof -
    have "heap_ok ?h1" using that b by (auto simp: heap_ok_def)
    then have ok: "heap_ok h2" using h2(4) by blast
    then have "into < ph_fresh h2" "c < ph_fresh h2" using b2(1) q h2(3) by (auto simp: heap_ok_def not_le [symmetric])
    then show ?thesis using ok h2(3) by (simp add: heap_ok_def)
  qed
  ultimately have "moved c q into b xs h ?h" using len by (auto simp: moved_def)
  moreover have "refs_ok (F1(into := F1 into + 1)) ?h" using h2(2) b2 by (auto simp: refs_ok_def)
  ultimately show ?thesis using run by blast
qed

lemma move_ok:
  assumes pool: "pool_ok E h cs" and c: "c \<in> set cs" and into: "into_ok E h fs into" and b: "ph_bufs h into = Some b"
    and q: "ph_rels h c = Some q" and len: "len \<le> DATA_SIZE - pb_written b" "len \<le> length (ebytes h c)"
  shows "\<exists>h1 q1. compact_move c into len h = Inr h1 \<and> pool_ok E h1 cs \<and> into_ok E h1 fs into \<and>
    ph_rels h1 = (ph_rels h)(c \<mapsto> q1) \<and> rp_cont q1 = rp_cont q \<and> rp_next q1 = rp_next q \<and> rp_prev q1 = rp_prev q \<and>
    ebytes h1 c = take len (ebytes h c) \<and> (\<forall>x \<in> set cs - {c}. ebytes h1 x = ebytes h x) \<and>
    into_bytes h1 (fs @ [into]) = into_bytes h (fs @ [into]) @ take len (ebytes h c)"
proof -
  have ok: "heap_ok h" "distinct cs" "refs_ok (\<lambda>a. uses (ph_rels h) cs a + E a) h" "entry_ok h c"
    using pool_heap [OF pool] pool_entry [OF pool c] by simp_all
  obtain src where src: "ph_bufs h (rp_buffer q) = Some src" "rp_begin q \<le> rp_end q" "rp_end q \<le> pb_written src"
    using ok(4) q by (auto simp: entry_ok_def)
  have le: "pb_written b \<le> DATA_SIZE" "pb_next b = None" using into_current [OF into] b by auto
  define xs where "xs = pb_range src (rp_begin q) (rp_begin q + len)"
  have xs: "xs = take len (ebytes h c)" "length xs = len"
    using src q len(2) by (auto simp: xs_def ebytes_def pb_range_def take_map)
  let ?F = "\<lambda>a. uses (ph_rels h) cs a + E a"
  let ?F1 = "?F(rp_buffer q := ?F (rp_buffer q) - 1)"
  have use: "0 < uses (ph_rels h) cs (rp_buffer q)" using uses_pos [OF c] q by (simp add: buf_of_def)
  have ext: "0 < E into" using into by (simp add: into_ok_def)
  have "rp_buffer q = into \<Longrightarrow> 1 < ?F into" using use ext by auto
  then obtain h1 where h1: "compact_move c into len h = Inr h1" "moved c q into b xs h h1" "refs_ok (?F1(into := ?F1 into + 1)) h1"
    using move_heap [OF ok(3) _ _ _ q src(1) b xs_def refl] use ext by auto
  let ?q = "q\<lparr>rp_buffer := into, rp_begin := pb_written b, rp_end := pb_written b + length xs\<rparr>"
  have rels: "ph_rels h1 = (ph_rels h)(c \<mapsto> ?q)" and hok: "heap_ok h1" using h1(2) ok(1) by (simp_all add: moved_def)
  obtain n where cur: "ph_bufs h1 into = Some ((put_bytes xs b)\<lparr>pb_refs := n\<rparr>)" using h1(2) by (auto simp: moved_def)
  have "uses (ph_rels h1) cs a + E a = (?F1(into := ?F1 into + 1)) a" for a
    using uses_upd [of cs c "ph_rels h" q ?q a] ok(2) c q use by (auto simp: rels)
  then have refs: "refs_ok (\<lambda>a. uses (ph_rels h1) cs a + E a) h1" using h1(3) by (simp add: refs_ok_def)
  have kept: "\<exists>b1. ph_bufs h1 a = Some b1 \<and> grown b0 b1 \<and> (a \<noteq> into \<longrightarrow> same_buf b0 b1) \<and> (pb_written b0 \<le> DATA_SIZE \<longrightarrow> pb_written b1 \<le> DATA_SIZE)"
    if a: "0 < uses (ph_rels h1) cs a + E a" and b0: "ph_bufs h a = Some b0" for a b0
  proof (cases "a = into")
    case True
    then show ?thesis using cur b0 b len(1) xs(2) le by (auto simp: grown_def put_bytes_def)
  next
    case False
    obtain b1 where b1: "ph_bufs h1 a = Some b1" using refs a unfolding refs_ok_def by metis
    then show ?thesis using h1(2) False b0 unfolding moved_def same_buf_def by fastforce
  qed
  have others: "entry_ok h1 x \<and> ebytes h1 x = ebytes h x" if x: "x \<in> set cs" "x \<noteq> c" for x
  proof -
    obtain p where p: "ph_rels h x = Some p" using entry_present [OF pool_entry [OF pool x(1)]] by blast
    then have p1: "ph_rels h1 x = Some p" using x(2) rels by simp
    have "0 < uses (ph_rels h1) cs (rp_buffer p) + E (rp_buffer p)" using uses_pos [OF x(1)] p1 by (simp add: buf_of_def)
    then show ?thesis using entry_grown [OF pool_entry [OF pool x(1)] p p1] kept [of "rp_buffer p"] by metis
  qed
  have self: "entry_ok h1 c" "ebytes h1 c = xs"
    using cur rels len(1) xs(2) le by (auto simp: entry_ok_def ebytes_def put_bytes_def pb_range_def intro!: nth_equalityI)
  have same: "\<exists>b1. ph_bufs h1 x = Some b1 \<and> same_buf b0 b1" if "x \<in> set fs" "ph_bufs h x = Some b0" for x b0
    using kept [of x b0] that into by (auto simp: into_ok_def)
  have "links (ph_bufs h1) fs into"
    using into len(1) xs(2) le by (intro links_same [of "ph_bufs h" fs into "ph_bufs h1", OF _ same cur]) (auto simp: into_ok_def put_bytes_def)
  then have into1: "into_ok E h1 fs into" using into by (simp add: into_ok_def)
  have "into_bytes h1 (fs @ [into]) = into_bytes h (fs @ [into]) @ xs"
  proof -
    have "\<exists>b0. ph_bufs h x = Some b0" if "x \<in> set fs" for x using into that by (auto simp: into_ok_def links_def in_set_conv_nth)
    then have "concat (map (buf_bytes (ph_bufs h1)) fs) = concat (map (buf_bytes (ph_bufs h)) fs)"
      using same same_bytes by (intro concat_map_cong) metis
    moreover have "buf_bytes (ph_bufs h1) into = buf_bytes (ph_bufs h) into @ xs"
      using cur b put_bytes_range [of xs b] by (simp add: buf_bytes_def pb_range_def)
    ultimately show ?thesis by (simp add: into_bytes_def)
  qed
  moreover have "pool_ok E h1 cs" by (rule pool_okI [OF hok ok(2) _ refs]) (use others self in blast)
  ultimately show ?thesis
    using h1(1) into1 rels self(2) others xs(1) by (intro exI [of _ h1] exI [of _ ?q]) simp
qed

text \<open>
  What a turn leaves: the entry it moved is a range of the chain written to, and behind it comes the
  rest of a split, or what came behind it before.
\<close>

definition turned :: "nat \<Rightarrow> reliable_packet \<Rightarrow> nat list \<Rightarrow> nat option \<Rightarrow> pheap \<Rightarrow> pheap \<Rightarrow> bool" where
  "turned c q es n h h1 \<longleftrightarrow>
     (\<forall>x. x \<noteq> c \<and> x \<notin> set es \<longrightarrow> ph_rels h1 x = ph_rels h x) \<and>
     (\<exists>q1. ph_rels h1 c = Some q1 \<and> rp_cont q1 = n \<and> rp_next q1 = rp_next q \<and> rp_prev q1 = rp_prev q) \<and>
     (es = [] \<and> n = rp_cont q \<and> ebytes h1 c = ebytes h c \<or>
      (\<exists>e p. es = [e] \<and> n = Some e \<and> ph_rels h e = None \<and> ph_rels h1 e = Some p \<and> rp_cont p = rp_cont q \<and>
         rp_buffer p = rp_buffer q \<and> ebytes h c = ebytes h1 c @ ebytes h1 e \<and> ebytes h1 c \<noteq> []))"

lemma turn_ok:
  assumes pool: "pool_ok E h (xs @ c # ys)" and into: "into_ok E h fs into" and q: "ph_rels h c = Some q"
  shows "\<exists>i1 n h1 fs1 E1 es. compact_turn c into h = Inr (i1, n, h1) \<and> pool_ok E1 h1 (xs @ c # es @ ys) \<and> into_ok E1 h1 fs1 i1 \<and>
    hd (fs1 @ [i1]) = hd (fs @ [into]) \<and> turned c q es n h h1 \<and> (\<forall>x \<in> set (xs @ ys). ebytes h1 x = ebytes h x) \<and>
    into_bytes h1 (fs1 @ [i1]) = into_bytes h (fs @ [into]) @ ebytes h1 c"
proof -
  obtain i1 h1 fs1 E1 b1 where h1: "compact_room into h = Inr (i1, h1)" "pool_ok E1 h1 (xs @ c # ys)" "into_ok E1 h1 fs1 i1"
      "ph_rels h1 = ph_rels h" "\<And>x. x \<in> set (xs @ c # ys) \<Longrightarrow> ebytes h1 x = ebytes h x"
      "into_bytes h1 (fs1 @ [i1]) = into_bytes h (fs @ [into])" "hd (fs1 @ [i1]) = hd (fs @ [into])"
      "ph_bufs h1 i1 = Some b1" "pb_written b1 < DATA_SIZE"
    using room_ok [OF pool into] by blast
  have q1: "ph_rels h1 c = Some q" using h1(4) q by simp
  obtain len h2 es where h2: "compact_split c i1 h1 = Inr (len, h2)" "pool_ok E1 h2 (xs @ c # es @ ys)" "into_ok E1 h2 fs1 i1"
      "len \<le> DATA_SIZE - pb_written b1" "len \<le> length (ebytes h1 c)" "\<forall>x \<in> set (xs @ c # ys). ebytes h2 x = ebytes h1 x"
      "into_bytes h2 (fs1 @ [i1]) = into_bytes h1 (fs1 @ [i1])"
    and b2: "\<exists>b2. ph_bufs h2 i1 = Some b2 \<and> pb_written b2 = pb_written b1"
    and es: "es = [] \<and> len = length (ebytes h1 c) \<and> ph_rels h2 = ph_rels h1 \<or>
     (\<exists>e p. es = [e] \<and> 0 < len \<and> ph_rels h1 e = None \<and> rp_cont p = rp_cont q \<and> rp_buffer p = rp_buffer q \<and>
       ebytes h2 e = drop len (ebytes h1 c) \<and> ph_rels h2 = (ph_rels h1)(e \<mapsto> p, c \<mapsto> q\<lparr>rp_cont := Some e\<rparr>))"
    using split_ok [OF h1(2,3,8,9) q1] by blast
  have c: "ebytes h1 c = ebytes h c" "ebytes h2 c = ebytes h c" using h1(5) h2(6) by simp_all
  let ?n = "if es = [] then rp_cont q else Some (hd es)"
  obtain q2 where q2: "ph_rels h2 c = Some q2" "rp_cont q2 = ?n" "rp_next q2 = rp_next q" "rp_prev q2 = rp_prev q"
    using es h1(4) q by auto
  obtain h3 q3 where h3: "compact_move c i1 len h2 = Inr h3" "pool_ok E1 h3 (xs @ c # es @ ys)" "into_ok E1 h3 fs1 i1"
      "ph_rels h3 = (ph_rels h2)(c \<mapsto> q3)" "rp_cont q3 = rp_cont q2" "rp_next q3 = rp_next q2" "rp_prev q3 = rp_prev q2"
      "ebytes h3 c = take len (ebytes h2 c)" "\<And>x. x \<in> set (xs @ c # es @ ys) - {c} \<Longrightarrow> ebytes h3 x = ebytes h2 x"
      "into_bytes h3 (fs1 @ [i1]) = into_bytes h2 (fs1 @ [i1]) @ take len (ebytes h2 c)"
    using b2 move_ok [OF h2(2) _ h2(3) _ q2(1), of _ len] h2(4,5) c by auto
  have run: "compact_turn c into h = Inr (i1, ?n, h3)"
    using h1(1) h2(1) h3(1,4,5) q2(2) by (simp add: compact_turn_def get_rel_def)
  have d: "c \<notin> set xs" "c \<notin> set es" "c \<notin> set ys" using h2(2) by (auto simp: pool_ok_def)
  have "turned c q es ?n h h3"
    unfolding turned_def
  proof (intro conjI)
    show "\<forall>x. x \<noteq> c \<and> x \<notin> set es \<longrightarrow> ph_rels h3 x = ph_rels h x" using es h3(4) h1(4) by auto
    show "\<exists>q1. ph_rels h3 c = Some q1 \<and> rp_cont q1 = ?n \<and> rp_next q1 = rp_next q \<and> rp_prev q1 = rp_prev q" using h3(4-7) q2 by simp
    show "es = [] \<and> ?n = rp_cont q \<and> ebytes h3 c = ebytes h c \<or>
      (\<exists>e p. es = [e] \<and> ?n = Some e \<and> ph_rels h e = None \<and> ph_rels h3 e = Some p \<and> rp_cont p = rp_cont q \<and>
         rp_buffer p = rp_buffer q \<and> ebytes h c = ebytes h3 c @ ebytes h3 e \<and> ebytes h3 c \<noteq> [])"
      using es
    proof (elim disjE conjE exE)
      assume "es = []" "len = length (ebytes h1 c)"
      then show ?thesis using h3(8) c by simp
    next
      fix e p
      assume e: "es = [e]" "0 < len" "ph_rels h1 e = None" "rp_cont p = rp_cont q" "rp_buffer p = rp_buffer q"
        "ebytes h2 e = drop len (ebytes h1 c)" "ph_rels h2 = (ph_rels h1)(e \<mapsto> p, c \<mapsto> q\<lparr>rp_cont := Some e\<rparr>)"
      moreover have "ebytes h3 e = drop len (ebytes h c)" using h3(9) [of e] e(1,6) d c by simp
      moreover have "ebytes h3 c \<noteq> []" using h3(8) e(2) h2(5) c by auto
      ultimately show ?thesis using h3(4,8) h1(4) d c by simp
    qed
  qed
  moreover have "\<forall>x \<in> set (xs @ ys). ebytes h3 x = ebytes h x" using h3(9) h2(6) h1(5) d by auto
  moreover have "into_bytes h3 (fs1 @ [i1]) = into_bytes h (fs @ [into]) @ ebytes h3 c" using h3(8,10) h1(6) h2(7) by simp
  ultimately show ?thesis
    using run h3(2,3) h1(7) by blast
qed

subsection \<open>The whole compaction\<close>

text \<open>A packet is the entries it goes on in.\<close>

fun cchain :: "(nat \<Rightarrow> reliable_packet option) \<Rightarrow> nat option \<Rightarrow> nat list \<Rightarrow> bool" where
  "cchain R p [] \<longleftrightarrow> p = None"
| "cchain R p (c # cs) \<longleftrightarrow> p = Some c \<and> (\<exists>q. R c = Some q \<and> cchain R (rp_cont q) cs)"

lemma cchain_cong: "(\<And>c. c \<in> set cs \<Longrightarrow> R' c = R c) \<Longrightarrow> cchain R' p cs = cchain R p cs"
  by (induction cs arbitrary: p) auto

definition stays :: "nat list \<Rightarrow> pheap \<Rightarrow> pheap \<Rightarrow> bool" where
  "stays ps h h1 \<longleftrightarrow>
     (\<forall>x q. ph_rels h x = Some q \<longrightarrow>
        (\<exists>q1. ph_rels h1 x = Some q1 \<and> rp_next q1 = rp_next q \<and> rp_prev q1 = rp_prev q \<and> (x \<notin> set ps \<longrightarrow> q1 = q)))"

lemma turned_rest:
  assumes t: "turned c q es n h h1" and q: "ph_rels h c = Some q" and d: "distinct (c # es @ rest)"
    and chain: "cchain (ph_rels h) (rp_cont q) rest"
  shows "cchain (ph_rels h1) n (es @ rest)" and "stays [c] h h1"
proof -
  have es: "ph_rels h x = None" if "x \<in> set es" for x using t that by (auto simp: turned_def)
  have same: "ph_rels h1 x = ph_rels h x" if "x \<noteq> c" "x \<notin> set es" for x using t that by (auto simp: turned_def)
  have "x \<noteq> c \<and> x \<notin> set es" if "x \<in> set rest" for x using d that by auto
  then have "cchain (ph_rels h1) (rp_cont q) rest = cchain (ph_rels h) (rp_cont q) rest" using same by (intro cchain_cong) blast
  then show "cchain (ph_rels h1) n (es @ rest)" using t chain by (auto simp: turned_def)
  show "stays [c] h h1"
    unfolding stays_def
  proof (intro allI impI)
    fix x p
    assume "ph_rels h x = Some p"
    then show "\<exists>q1. ph_rels h1 x = Some q1 \<and> rp_next q1 = rp_next p \<and> rp_prev q1 = rp_prev p \<and> (x \<notin> set [c] \<longrightarrow> q1 = p)"
      using t q same [of x] es [of x] by (cases "x = c") (auto simp: turned_def)
  qed
qed

lemma stays_absent: "stays ps h h1 \<Longrightarrow> ph_rels h1 x = None \<Longrightarrow> ph_rels h x = None"
  unfolding stays_def by (metis not_Some_eq)

lemma stays_trans:
  assumes "stays ps h h1" and "stays qs h1 h2" and "\<And>x. x \<in> set qs \<Longrightarrow> x \<in> set rs \<or> ph_rels h x = None" and "set ps \<subseteq> set rs"
  shows "stays rs h h2"
  unfolding stays_def
proof (intro allI impI)
  fix x q
  assume x: "ph_rels h x = Some q"
  obtain q1 where q1: "ph_rels h1 x = Some q1" "rp_next q1 = rp_next q" "rp_prev q1 = rp_prev q" "x \<notin> set ps \<longrightarrow> q1 = q"
    using assms(1) x unfolding stays_def by blast
  obtain q2 where q2: "ph_rels h2 x = Some q2" "rp_next q2 = rp_next q1" "rp_prev q2 = rp_prev q1" "x \<notin> set qs \<longrightarrow> q2 = q1"
    using assms(2) q1(1) unfolding stays_def by blast
  have "x \<notin> set ps \<and> x \<notin> set qs" if "x \<notin> set rs" using that assms(3,4) x by fastforce
  then show "\<exists>q1. ph_rels h2 x = Some q1 \<and> rp_next q1 = rp_next q \<and> rp_prev q1 = rp_prev q \<and> (x \<notin> set rs \<longrightarrow> q1 = q)"
    using q1 q2 by auto
qed

text \<open>The bytes to be moved: entries up to the first in the buffer to stop at.\<close>

definition until :: "nat option \<Rightarrow> pheap \<Rightarrow> nat list \<Rightarrow> bytes" where
  "until stop h ps = concat (map (ebytes h) (takeWhile (\<lambda>c. buf_of (ph_rels h) c \<noteq> stop) ps))"

definition stopped :: "nat option \<Rightarrow> pheap \<Rightarrow> nat list \<Rightarrow> bool" where
  "stopped stop h ps \<longleftrightarrow> (\<exists>c \<in> set ps. buf_of (ph_rels h) c = stop)"

lemma until_cong:
  assumes "\<And>c. c \<in> set ps \<Longrightarrow> buf_of (ph_rels h1) c = buf_of (ph_rels h) c \<and> ebytes h1 c = ebytes h c"
  shows "until stop h1 ps = until stop h ps" and "stopped stop h1 ps = stopped stop h ps"
proof -
  have "until stop h1 ps = until stop h ps" using assms by (induction ps) (auto simp: until_def)
  then show "until stop h1 ps = until stop h ps" .
  show "stopped stop h1 ps = stopped stop h ps" using assms by (auto simp: stopped_def)
qed

lemma until_Cons:
  "until stop h (c # ps) = (if buf_of (ph_rels h) c = stop then [] else ebytes h c @ until stop h ps)"
  "stopped stop h (c # ps) \<longleftrightarrow> buf_of (ph_rels h) c = stop \<or> stopped stop h ps"
  by (simp_all add: until_def stopped_def)

lemma turned_until:
  assumes t: "turned c q es n h h1" and d: "distinct (c # es @ rest)" and go: "buf_of (ph_rels h) c \<noteq> stop" "ph_rels h c = Some q"
    and same: "\<And>x. x \<in> set rest \<Longrightarrow> ebytes h1 x = ebytes h x"
  shows "until stop h (c # rest) = ebytes h1 c @ until stop h1 (es @ rest)"
    and "stopped stop h (c # rest) = stopped stop h1 (es @ rest)"
    and "concat (map (ebytes h) (c # rest)) = ebytes h1 c @ concat (map (ebytes h1) (es @ rest))"
    and "length (es @ rest) + length (concat (map (ebytes h1) (es @ rest))) < length (c # rest) + length (concat (map (ebytes h) (c # rest)))"
proof -
  have "buf_of (ph_rels h1) x = buf_of (ph_rels h) x" if "x \<in> set rest" for x
    using t d that by (auto simp: turned_def buf_of_def)
  then have rest: "until stop h1 rest = until stop h rest" "stopped stop h1 rest = stopped stop h rest"
      "concat (map (ebytes h1) rest) = concat (map (ebytes h) rest)"
    using until_cong [of rest h1 h stop] same concat_map_cong [OF same] by simp_all
  have "es = [] \<and> ebytes h1 c = ebytes h c \<or> (\<exists>e. es = [e] \<and> buf_of (ph_rels h1) e = buf_of (ph_rels h) c \<and>
      ebytes h c = ebytes h1 c @ ebytes h1 e \<and> ebytes h1 c \<noteq> [])"
    using t go(2) by (auto simp: turned_def buf_of_def)
  then show "until stop h (c # rest) = ebytes h1 c @ until stop h1 (es @ rest)"
      "stopped stop h (c # rest) = stopped stop h1 (es @ rest)"
      "concat (map (ebytes h) (c # rest)) = ebytes h1 c @ concat (map (ebytes h1) (es @ rest))"
      "length (es @ rest) + length (concat (map (ebytes h1) (es @ rest))) < length (c # rest) + length (concat (map (ebytes h) (c # rest)))"
    using rest go(1) by (auto simp: until_Cons)
qed

lemma chain_ok:
  assumes "pool_ok E h (xs @ ps @ ys)" and "into_ok E h fs into" and "cchain (ph_rels h) p ps"
  shows "\<exists>i1 h1 fs1 E1 ps1. compact_chain stop p into h = Some (Inr (stopped stop h ps, i1, h1)) \<and>
    pool_ok E1 h1 (xs @ ps1 @ ys) \<and> into_ok E1 h1 fs1 i1 \<and> hd (fs1 @ [i1]) = hd (fs @ [into]) \<and> cchain (ph_rels h1) p ps1 \<and>
    stays ps h h1 \<and> (\<forall>x \<in> set ps1. x \<in> set ps \<or> ph_rels h x = None) \<and> (\<forall>x \<in> set (xs @ ys). ebytes h1 x = ebytes h x) \<and>
    concat (map (ebytes h1) ps1) = concat (map (ebytes h) ps) \<and>
    into_bytes h1 (fs1 @ [i1]) = into_bytes h (fs @ [into]) @ until stop h ps"
  using assms
proof (induction "length ps + length (concat (map (ebytes h) ps))" arbitrary: E h xs ps fs into p rule: less_induct)
  case less
  show ?case
  proof (cases ps)
    case Nil
    then show ?thesis
      using less.prems
      by (intro exI [of _ into] exI [of _ h] exI [of _ fs] exI [of _ E] exI [of _ "[]"])
         (simp add: compact_chain.simps stopped_def until_def stays_def)
  next
    case (Cons c rest)
    then obtain q where q: "p = Some c" "ph_rels h c = Some q" "cchain (ph_rels h) (rp_cont q) rest" using less.prems(3) by auto
    have buf: "buf_of (ph_rels h) c = Some (rp_buffer q)" using q(2) by (simp add: buf_of_def)
    show ?thesis
    proof (cases "stop = Some (rp_buffer q)")
      case True
      have "compact_chain stop p into h = Some (Inr (True, into, h))"
        using q(1,2) True by (subst compact_chain.simps) (simp add: get_rel_def)
      then show ?thesis
        using less.prems Cons True buf
        by (intro exI [of _ into] exI [of _ h] exI [of _ fs] exI [of _ E] exI [of _ ps]) (simp add: until_Cons stays_def)
    next
      case False
      obtain i1 n h1 fs1 E1 es where h1: "compact_turn c into h = Inr (i1, n, h1)" "pool_ok E1 h1 (xs @ c # es @ rest @ ys)"
          "into_ok E1 h1 fs1 i1" "hd (fs1 @ [i1]) = hd (fs @ [into])" "turned c q es n h h1"
          "\<forall>x \<in> set (xs @ rest @ ys). ebytes h1 x = ebytes h x"
          "into_bytes h1 (fs1 @ [i1]) = into_bytes h (fs @ [into]) @ ebytes h1 c"
        using turn_ok [of E h xs c "rest @ ys" fs into q] less.prems(1,2) q(2) Cons by auto
      have d: "distinct (c # es @ rest)" using h1(2) by (auto simp: pool_ok_def)
      have go: "buf_of (ph_rels h) c \<noteq> stop" using False buf by simp
      have "ebytes h1 x = ebytes h x" if "x \<in> set rest" for x using h1(6) that by simp
      note tu = turned_until [OF h1(5) d go q(2) this]
      note tr = turned_rest [OF h1(5) q(2) d q(3)]
      have pool: "pool_ok E1 h1 ((xs @ [c]) @ (es @ rest) @ ys)" using h1(2) by simp
      obtain i2 h2 fs2 E2 ps2 where h2: "compact_chain stop n i1 h1 = Some (Inr (stopped stop h1 (es @ rest), i2, h2))"
          "pool_ok E2 h2 ((xs @ [c]) @ ps2 @ ys)" "into_ok E2 h2 fs2 i2" "hd (fs2 @ [i2]) = hd (fs1 @ [i1])"
          "cchain (ph_rels h2) n ps2" "stays (es @ rest) h1 h2"
          "\<forall>x \<in> set ps2. x \<in> set (es @ rest) \<or> ph_rels h1 x = None" "\<forall>x \<in> set ((xs @ [c]) @ ys). ebytes h2 x = ebytes h1 x"
          "concat (map (ebytes h2) ps2) = concat (map (ebytes h1) (es @ rest))"
          "into_bytes h2 (fs2 @ [i2]) = into_bytes h1 (fs1 @ [i1]) @ until stop h1 (es @ rest)"
        using less.hyps [OF _ pool h1(3) tr(1)] tu(4) Cons by metis
      have run: "compact_chain stop p into h = Some (Inr (stopped stop h ps, i2, h2))"
        using q(1,2) False h1(1) h2(1) tu(2) Cons by (subst compact_chain.simps) (simp add: get_rel_def)
      obtain q1 where "ph_rels h1 c = Some q1" "rp_cont q1 = n" using h1(5) by (auto simp: turned_def)
      then have "ph_rels h2 c = Some q1" using h2(6) d by (auto simp: stays_def)
      then have chain: "cchain (ph_rels h2) p (c # ps2)" using q(1) h2(5) \<open>rp_cont q1 = n\<close> by simp
      have new: "x \<in> set ps \<or> ph_rels h x = None" if "x \<in> set (es @ rest)" for x
        using that h1(5) Cons by (auto simp: turned_def)
      have "stays ps h h2" by (rule stays_trans [OF tr(2) h2(6) new]) (simp_all add: Cons)
      moreover have "\<forall>x \<in> set (xs @ ys). ebytes h2 x = ebytes h x" using h2(8) h1(6) by auto
      moreover have "concat (map (ebytes h2) (c # ps2)) = concat (map (ebytes h) ps)" using tu(3) h2(8,9) Cons by simp
      moreover have "into_bytes h2 (fs2 @ [i2]) = into_bytes h (fs @ [into]) @ until stop h ps" using h2(10) h1(7) tu(1) Cons by simp
      moreover have "x \<in> set ps \<or> ph_rels h x = None" if "x \<in> set ps2" for x
        using h2(7) that new [of x] stays_absent [OF tr(2), of x] by metis
      then have "\<forall>x \<in> set (c # ps2). x \<in> set ps \<or> ph_rels h x = None" using Cons by simp
      moreover have "pool_ok E2 h2 (xs @ (c # ps2) @ ys)" using h2(2) by simp
      ultimately show ?thesis
        using run h2(3,4) h1(4) chain
        by (intro exI [of _ i2] exI [of _ h2] exI [of _ fs2] exI [of _ E2] exI [of _ "c # ps2"]) simp
    qed
  qed
qed

lemma until_append:
  "until stop h (ps @ qs) = until stop h ps @ (if stopped stop h ps then [] else until stop h qs)"
  by (induction ps) (auto simp: until_Cons, auto simp: until_def stopped_def)

lemma stays_chain:
  assumes "stays ps h h1" and "cchain (ph_rels h) p cs" and "set cs \<inter> set ps = {}"
  shows "cchain (ph_rels h1) p cs"
  using assms(2,3)
proof (induction cs arbitrary: p)
  case (Cons c cs)
  then obtain q where q: "p = Some c" "ph_rels h c = Some q" "cchain (ph_rels h) (rp_cont q) cs" by auto
  then have "ph_rels h1 c = Some q" using assms(1) Cons.prems(2) by (fastforce simp: stays_def)
  then show ?case using q Cons by auto
qed simp

abbreviation packets :: "pheap \<Rightarrow> nat list \<Rightarrow> nat list list \<Rightarrow> bool" where
  "packets h rs css \<equiv> list_all2 (\<lambda>r cs. cchain (ph_rels h) (Some r) cs) rs css"

definition pbytes :: "pheap \<Rightarrow> nat list list \<Rightarrow> bytes list" where
  "pbytes h css = map (\<lambda>cs. concat (map (ebytes h) cs)) css"

definition nxt :: "pheap \<Rightarrow> nat \<Rightarrow> nat option" where
  "nxt h x = map_option rp_next (ph_rels h x)"

definition prv :: "pheap \<Rightarrow> nat \<Rightarrow> nat option" where
  "prv h x = map_option rp_prev (ph_rels h x)"

lemma stays_packets:
  assumes "stays ps h h1" and "packets h rs css" and "set (concat css) \<inter> set ps = {}"
  shows "packets h1 rs css"
  using assms(2,3)
proof (induction rs css rule: list_all2_induct)
  case (Cons r rs cs css)
  then show ?case using stays_chain [OF assms(1), of "Some r" cs] by auto
qed simp

lemma stays_dll:
  assumes "stays ps h h1" and "dll (nxt h) (prv h) p xs n"
  shows "dll (nxt h1) (prv h1) p xs n"
proof -
  have "nxt h1 x = Some y" if "nxt h x = Some y" for x y using assms(1) that by (fastforce simp: stays_def nxt_def)
  moreover have "prv h1 x = Some y" if "prv h x = Some y" for x y using assms(1) that by (fastforce simp: stays_def prv_def)
  ultimately show ?thesis using assms(2) by (induction xs arbitrary: p) auto
qed

lemma pbytes_cong: "(\<And>x. x \<in> set (concat css) \<Longrightarrow> ebytes h1 x = ebytes h x) \<Longrightarrow> pbytes h1 css = pbytes h css"
  unfolding pbytes_def by (intro map_cong concat_map_cong) auto

lemma loop_ok:
  assumes "pool_ok E h (xs @ concat css)" and "into_ok E h fs into" and "packets h rs css" and "l \<notin> set (concat css)"
    and "dll (nxt h) (prv h) p rs l"
  shows "\<exists>i1 h1 fs1 E1 css1. compact_loop l stop (hd (rs @ [l])) into h = Some (Inr (i1, h1)) \<and>
    pool_ok E1 h1 (xs @ concat css1) \<and> into_ok E1 h1 fs1 i1 \<and> hd (fs1 @ [i1]) = hd (fs @ [into]) \<and> packets h1 rs css1 \<and>
    stays (concat css) h h1 \<and> (\<forall>x \<in> set (concat css1). x \<in> set (concat css) \<or> ph_rels h x = None) \<and>
    (\<forall>x \<in> set xs. ebytes h1 x = ebytes h x) \<and> pbytes h1 css1 = pbytes h css \<and>
    into_bytes h1 (fs1 @ [i1]) = into_bytes h (fs @ [into]) @ until stop h (concat css)"
  using assms
proof (induction rs arbitrary: E h xs css fs into p)
  case Nil
  then show ?case
    by (intro exI [of _ into] exI [of _ h] exI [of _ fs] exI [of _ E] exI [of _ "[]"])
       (simp add: compact_loop.simps stays_def until_def pbytes_def)
next
  case (Cons r rs)
  then obtain ps qss where css: "css = ps # qss" "cchain (ph_rels h) (Some r) ps" "packets h rs qss" by (auto simp: list_all2_Cons1)
  have pool: "pool_ok E h (xs @ ps @ concat qss)" using Cons.prems(1) css(1) by simp
  have r: "r \<noteq> l" using css(1,2) Cons.prems(4) by (cases ps) auto
  have d: "set (concat qss) \<inter> set ps = {}" using Cons.prems(1) css(1) by (auto simp: pool_ok_def)
  obtain i1 h1 fs1 E1 ps1 where h1: "compact_chain stop (Some r) into h = Some (Inr (stopped stop h ps, i1, h1))"
      "pool_ok E1 h1 (xs @ ps1 @ concat qss)" "into_ok E1 h1 fs1 i1" "hd (fs1 @ [i1]) = hd (fs @ [into])"
      "cchain (ph_rels h1) (Some r) ps1" "stays ps h h1" "\<forall>x \<in> set ps1. x \<in> set ps \<or> ph_rels h x = None"
      "\<forall>x \<in> set (xs @ concat qss). ebytes h1 x = ebytes h x" "concat (map (ebytes h1) ps1) = concat (map (ebytes h) ps)"
      "into_bytes h1 (fs1 @ [i1]) = into_bytes h (fs @ [into]) @ until stop h ps"
    using chain_ok [OF pool Cons.prems(2) css(2), of stop] by blast
  have rest: "packets h1 rs qss" by (rule stays_packets [OF h1(6) css(3) d])
  have same: "pbytes h1 qss = pbytes h qss" using h1(8) by (intro pbytes_cong) auto
  have links: "dll (nxt h1) (prv h1) r rs l" using stays_dll [OF h1(6)] Cons.prems(5) by auto
  show ?case
  proof (cases "stopped stop h ps")
    case True
    then have "compact_loop l stop r into h = Some (Inr (i1, h1))" using r h1(1) by (subst compact_loop.simps) simp
    moreover have "stays (concat css) h h1" using h1(6) css(1) by (fastforce simp: stays_def)
    moreover have "\<forall>x \<in> set (concat (ps1 # qss)). x \<in> set (concat css) \<or> ph_rels h x = None" using h1(7) css(1) by auto
    moreover have "pbytes h1 (ps1 # qss) = pbytes h css" using same h1(9) css(1) by (simp add: pbytes_def)
    ultimately show ?thesis
      using h1 rest True css(1)
      by (intro exI [of _ i1] exI [of _ h1] exI [of _ fs1] exI [of _ E1] exI [of _ "ps1 # qss"]) (simp add: until_append)
  next
    case False
    have pool1: "pool_ok E1 h1 ((xs @ ps1) @ concat qss)" using h1(2) by simp
    have l: "l \<notin> set (concat qss)" using Cons.prems(4) css(1) by simp
    obtain i2 h2 fs2 E2 qss2 where h2: "compact_loop l stop (hd (rs @ [l])) i1 h1 = Some (Inr (i2, h2))"
        "pool_ok E2 h2 ((xs @ ps1) @ concat qss2)" "into_ok E2 h2 fs2 i2" "hd (fs2 @ [i2]) = hd (fs1 @ [i1])" "packets h2 rs qss2"
        "stays (concat qss) h1 h2" "\<forall>x \<in> set (concat qss2). x \<in> set (concat qss) \<or> ph_rels h1 x = None"
        "\<forall>x \<in> set (xs @ ps1). ebytes h2 x = ebytes h1 x" "pbytes h2 qss2 = pbytes h1 qss"
        "into_bytes h2 (fs2 @ [i2]) = into_bytes h1 (fs1 @ [i1]) @ until stop h1 (concat qss)"
      using Cons.IH [OF pool1 h1(3) rest l links] by blast
    obtain q where q: "ph_rels h1 r = Some q" "rp_next q = hd (rs @ [l])" using dll_next [OF links] by (auto simp: nxt_def)
    have run: "compact_loop l stop r into h = Some (Inr (i2, h2))"
      using r h1(1) False q h2(1) by (subst compact_loop.simps) (simp add: get_rel_def)
    have "set ps1 \<inter> set (concat qss) = {}" using h1(2) by (auto simp: pool_ok_def)
    then have chain: "cchain (ph_rels h2) (Some r) ps1" by (rule stays_chain [OF h2(6) h1(5)])
    have "buf_of (ph_rels h1) x = buf_of (ph_rels h) x \<and> ebytes h1 x = ebytes h x" if x: "x \<in> set (concat qss)" for x
    proof -
      obtain p where "ph_rels h x = Some p" using entry_present [OF pool_entry [OF pool]] x by auto
      moreover have "x \<notin> set ps" using d x by blast
      ultimately show ?thesis using h1(6,8) x by (fastforce simp: stays_def buf_of_def)
    qed
    then have "until stop h1 (concat qss) = until stop h (concat qss)" by (rule until_cong)
    then have out: "into_bytes h2 (fs2 @ [i2]) = into_bytes h (fs @ [into]) @ until stop h (concat css)"
      using h2(10) h1(10) False css(1) by (simp add: until_append)
    have stay: "stays (concat css) h h2" by (rule stays_trans [OF h1(6) h2(6)]) (auto simp: css(1))
    have "x \<in> set (concat css) \<or> ph_rels h x = None" if "x \<in> set (concat qss2)" for x
    proof -
      have "x \<in> set (concat qss) \<or> ph_rels h1 x = None" using h2(7) that by (rule bspec)
      then show ?thesis using stays_absent [OF h1(6), of x] by (auto simp: css(1))
    qed
    moreover have "x \<in> set (concat css) \<or> ph_rels h x = None" if "x \<in> set ps1" for x using h1(7) that by (auto simp: css(1))
    ultimately have new: "\<forall>x \<in> set (concat (ps1 # qss2)). x \<in> set (concat css) \<or> ph_rels h x = None"
      unfolding concat.simps set_append by (intro ballI) (elim UnE)
    have "concat (map (ebytes h2) ps1) = concat (map (ebytes h) ps)"
      using h2(8) h1(9) concat_map_cong [of ps1 "ebytes h2" "ebytes h1"] by simp
    then have "pbytes h2 (ps1 # qss2) = pbytes h css" using h2(9) same css(1) by (simp add: pbytes_def)
    then show ?thesis
      using run h2(2-5,8) h1(4,8) chain out stay new
      by (intro exI [of _ i2] exI [of _ h2] exI [of _ fs2] exI [of _ E2] exI [of _ "ps1 # qss2"]) auto
  qed
qed

subsection \<open>The list of packets\<close>

definition rl_ok :: "(nat \<Rightarrow> nat) \<Rightarrow> pheap \<Rightarrow> nat \<Rightarrow> nat list \<Rightarrow> nat list list \<Rightarrow> bool" where
  "rl_ok E h l rs css \<longleftrightarrow> dll (nxt h) (prv h) l rs l \<and> packets h rs css \<and> l \<notin> set (concat css) \<and> pool_ok E h (concat css)"

lemma compact_ok:
  assumes ok: "rl_ok E h l rs css" and into: "into_ok E h fs into"
  shows "\<exists>i1 h1 fs1 E1 css1. rl_compact l into stop h = Some (Inr (i1, h1)) \<and> rl_ok E1 h1 l rs css1 \<and> into_ok E1 h1 fs1 i1 \<and>
    hd (fs1 @ [i1]) = hd (fs @ [into]) \<and> pbytes h1 css1 = pbytes h css \<and>
    into_bytes h1 (fs1 @ [i1]) = into_bytes h (fs @ [into]) @ until stop h (concat css)"
proof -
  have r: "dll (nxt h) (prv h) l rs l" "packets h rs css" "l \<notin> set (concat css)" "pool_ok E h ([] @ concat css)"
    using ok by (simp_all add: rl_ok_def)
  obtain q where q: "ph_rels h l = Some q" "rp_next q = hd (rs @ [l])" using dll_next [OF r(1)] by (auto simp: nxt_def)
  obtain i1 h1 fs1 E1 css1 where h1: "compact_loop l stop (hd (rs @ [l])) into h = Some (Inr (i1, h1))"
      "pool_ok E1 h1 ([] @ concat css1)" "into_ok E1 h1 fs1 i1" "hd (fs1 @ [i1]) = hd (fs @ [into])" "packets h1 rs css1"
      "stays (concat css) h h1" "\<forall>x \<in> set (concat css1). x \<in> set (concat css) \<or> ph_rels h x = None" "pbytes h1 css1 = pbytes h css"
      "into_bytes h1 (fs1 @ [i1]) = into_bytes h (fs @ [into]) @ until stop h (concat css)"
    using loop_ok [OF r(4) into r(2,3,1), of stop] by blast
  have "rl_compact l into stop h = Some (Inr (i1, h1))" using q h1(1) by (simp add: rl_compact_def get_rel_def)
  moreover have "l \<notin> set (concat css1)" using bspec [OF h1(7), of l] r(3) q(1) by (metis option.distinct(1))
  then have "rl_ok E1 h1 l rs css1" using h1(2,5) stays_dll [OF h1(6) r(1)] by (simp add: rl_ok_def)
  ultimately show ?thesis using h1(3,4,8,9) by blast
qed

text \<open>Changing links only.\<close>

definition rewired :: "pheap \<Rightarrow> pheap \<Rightarrow> bool" where
  "rewired h h1 \<longleftrightarrow> ph_bufs h1 = ph_bufs h \<and> ph_fresh h1 = ph_fresh h \<and>
     (\<forall>x. map_option (\<lambda>q. (rp_buffer q, rp_cont q, rp_begin q, rp_end q)) (ph_rels h1 x) =
          map_option (\<lambda>q. (rp_buffer q, rp_cont q, rp_begin q, rp_end q)) (ph_rels h x))"

lemma rewired_rel:
  assumes "rewired h h1"
  shows "ph_rels h x = None \<and> ph_rels h1 x = None \<or> (\<exists>q q1. ph_rels h x = Some q \<and> ph_rels h1 x = Some q1 \<and>
    rp_buffer q1 = rp_buffer q \<and> rp_cont q1 = rp_cont q \<and> rp_begin q1 = rp_begin q \<and> rp_end q1 = rp_end q)"
proof -
  have "map_option (\<lambda>q. (rp_buffer q, rp_cont q, rp_begin q, rp_end q)) (ph_rels h1 x) =
      map_option (\<lambda>q. (rp_buffer q, rp_cont q, rp_begin q, rp_end q)) (ph_rels h x)"
    using assms by (simp only: rewired_def)
  then show ?thesis by (cases "ph_rels h x"; cases "ph_rels h1 x") simp_all
qed

lemma rewired_bytes:
  assumes "rewired h h1"
  shows "ebytes h1 x = ebytes h x" and "entry_ok h1 x = entry_ok h x" and "buf_of (ph_rels h1) x = buf_of (ph_rels h) x"
  using rewired_rel [OF assms, of x] assms by (auto simp: rewired_def ebytes_def entry_ok_def buf_of_def split: option.splits)

lemma rewired_chain: "rewired h h1 \<Longrightarrow> cchain (ph_rels h1) p cs = cchain (ph_rels h) p cs"
proof (induction cs arbitrary: p)
  case (Cons c cs)
  then show ?case using rewired_rel [OF Cons.prems, of c] by auto
qed simp

lemma rewired_ok:
  assumes "rewired h h1"
  shows "pool_ok E h1 cs = pool_ok E h cs" and "packets h1 rs css = packets h rs css" and "pbytes h1 css = pbytes h css"
proof -
  have "uses (ph_rels h1) cs a = uses (ph_rels h) cs a" for a using rewired_bytes [OF assms] by (intro uses_cong)
  moreover have "heap_ok h1 = heap_ok h"
  proof -
    have "ph_rels h1 x = None \<longleftrightarrow> ph_rels h x = None" for x using rewired_rel [OF assms, of x] by auto
    then show ?thesis using assms by (simp add: heap_ok_def rewired_def)
  qed
  ultimately show "pool_ok E h1 cs = pool_ok E h cs"
    using rewired_bytes [OF assms] assms by (simp add: pool_ok_def refs_ok_def rewired_def)
  show "packets h1 rs css = packets h rs css" by (simp add: rewired_chain [OF assms])
  show "pbytes h1 css = pbytes h css" by (rule pbytes_cong) (rule rewired_bytes [OF assms])
qed

lemma packets_cong:
  assumes "\<And>x. x \<in> set (concat css) \<Longrightarrow> ph_rels h1 x = ph_rels h x"
  shows "packets h1 rs css = packets h rs css"
proof (rule list.rel_cong [OF refl refl])
  fix r cs
  assume "cs \<in> set css"
  then show "cchain (ph_rels h1) (Some r) cs = cchain (ph_rels h) (Some r) cs" using assms by (intro cchain_cong) auto
qed

lemma packets_in: "packets h rs css \<Longrightarrow> set rs \<subseteq> set (concat css)"
proof (induction rs css rule: list_all2_induct)
  case (Cons r rs cs css)
  then show ?case by (cases cs) auto
qed simp

lemma packets_distinct: "packets h rs css \<Longrightarrow> distinct (concat css) \<Longrightarrow> distinct rs"
proof (induction rs css rule: list_all2_induct)
  case (Cons r rs cs css)
  then show ?case using packets_in [OF Cons.hyps(2)] by (cases cs) auto
qed simp

lemma insert_ok:
  assumes ok: "rl_ok E h l rs css" and pool: "pool_ok E h (concat css @ cs)" and chain: "cchain (ph_rels h) (Some r) cs" and l: "l \<notin> set cs"
  shows "\<exists>h1. rl_insert l r h = Inr h1 \<and> rl_ok E h1 l (rs @ [r]) (css @ [cs]) \<and> pbytes h1 (css @ [cs]) = pbytes h (css @ [cs])"
proof -
  have o: "dll (nxt h) (prv h) l rs l" "packets h rs css" "l \<notin> set (concat css)" using ok by (simp_all add: rl_ok_def)
  have r: "r \<in> set cs" using chain by (cases cs) auto
  have d: "distinct (concat css @ cs)" using pool by (simp add: pool_ok_def)
  have rs: "set rs \<subseteq> set (concat css)" "distinct rs" using packets_in [OF o(2)] packets_distinct [OF o(2)] d by auto
  define a where "a = last (l # rs)"
  have ne: "r \<noteq> l" "r \<notin> set rs" "l \<notin> set rs" using r l rs d o(3) by auto
  have al: "a \<in> set (l # rs)" by (simp add: a_def)
  then have ar: "a \<noteq> r" using ne by auto
  have pv: "prv h l = Some a" using dll_prev [OF o(1)] by (simp add: a_def)
  then obtain q where q: "ph_rels h l = Some q" "rp_prev q = a" by (auto simp: prv_def)
  obtain qa where qa: "ph_rels h a = Some qa"
  proof (cases "a = l")
    case False
    then have "a \<in> set (concat css)" using rs(1) al by auto
    then show ?thesis using that entry_present [OF pool_entry [OF pool]] by auto
  qed (use q that in blast)
  obtain qr where qr: "ph_rels h r = Some qr" using entry_present [OF pool_entry [OF pool, of r]] r by auto
  let ?R1 = "(ph_rels h)(r \<mapsto> qr\<lparr>rp_next := l, rp_prev := a\<rparr>, l \<mapsto> q\<lparr>rp_prev := r\<rparr>)"
  let ?h = "h\<lparr>ph_rels := ?R1(a \<mapsto> (the (?R1 a))\<lparr>rp_next := r\<rparr>)\<rparr>"
  have run: "rl_insert l r h = Inr ?h"
    using q qa qr ne ar by (auto simp: rl_insert_def rp_insertBefore_def get_rel_def upd_rel_def)
  have "rewired h ?h" using q qa qr ne ar by (auto simp: rewired_def)
  note w = rewired_ok [OF this]
  have "nxt ?h = (nxt h)(r \<mapsto> l, a \<mapsto> r)" "prv ?h = (prv h)(r \<mapsto> a, l \<mapsto> r)"
    using q qa qr ne ar by (auto simp: nxt_def prv_def fun_eq_iff)
  then have "dll (nxt ?h) (prv ?h) l (rs @ [r]) l" using dll_insert [OF o(1) _ ne(3) _ ne(1) a_def] rs ne by simp
  moreover have "packets ?h (rs @ [r]) (css @ [cs])" using w(2) o(2) chain by (simp add: list_all2_appendI)
  ultimately show ?thesis using run w(1,3) pool o(3) l by (intro exI [of _ ?h]) (simp add: rl_ok_def)
qed

text \<open>Deleting a packet lets go of its buffers and leaves the other packets alone.\<close>

lemma delete_ok:
  assumes "pool_ok E h (xs @ ps @ ys)" and "cchain (ph_rels h) p ps"
  shows "\<exists>h1. rp_delete_chain p h = Some (Inr h1) \<and> pool_ok E h1 (xs @ ys) \<and>
    ph_rels h1 = (\<lambda>x. if x \<in> set ps then None else ph_rels h x) \<and> (\<forall>x \<in> set (xs @ ys). ebytes h1 x = ebytes h x)"
  using assms
proof (induction ps arbitrary: h p)
  case Nil
  then show ?case by (subst rp_delete_chain.simps) auto
next
  case (Cons c ps)
  then obtain q where q: "p = Some c" "ph_rels h c = Some q" "cchain (ph_rels h) (rp_cont q) ps" by auto
  let ?F = "\<lambda>a. uses (ph_rels h) (xs @ (c # ps) @ ys) a + E a"
  have ok: "heap_ok h" "distinct (xs @ (c # ps) @ ys)" "refs_ok ?F h" using pool_heap [OF Cons.prems(1)] by simp_all
  have pos: "0 < ?F (rp_buffer q)" using q(2) by (simp add: buf_of_def)
  obtain h1 where h1: "pb_delref (rp_buffer q) h = Inr h1" "refs_ok (?F(rp_buffer q := ?F (rp_buffer q) - 1)) h1"
      "ph_rels h1 = ph_rels h" "heap_ok h1"
      "\<forall>x b'. ph_bufs h1 x = Some b' \<longrightarrow> (\<exists>b. ph_bufs h x = Some b \<and> b' = b\<lparr>pb_refs := pb_refs b'\<rparr>)"
    using delref_refs [OF ok(3) pos] ok(1) by blast
  let ?h = "h1\<lparr>ph_rels := (ph_rels h1)(c := None)\<rparr>"
  have rel: "ph_rels ?h x = ph_rels h x" if "x \<in> set (xs @ ps @ ys)" for x using that ok(2) h1(3) by auto
  then have "uses (ph_rels ?h) (xs @ ps @ ys) a = uses (ph_rels h) (xs @ ps @ ys) a" for a by (intro uses_cong) (simp add: buf_of_def)
  then have "uses (ph_rels ?h) (xs @ ps @ ys) a + E a = (?F(rp_buffer q := ?F (rp_buffer q) - 1)) a" for a
    using q(2) by (auto simp: buf_of_def)
  then have refs: "refs_ok (\<lambda>a. uses (ph_rels ?h) (xs @ ps @ ys) a + E a) ?h" using h1(2) by (simp add: refs_ok_def)
  have entries: "entry_ok ?h x \<and> ebytes ?h x = ebytes h x" if x: "x \<in> set (xs @ ps @ ys)" for x
  proof -
    have e: "entry_ok h x" using pool_entry [OF Cons.prems(1)] x by auto
    then obtain p where p: "ph_rels h x = Some p" using entry_present by blast
    then have p1: "ph_rels ?h x = Some p" using rel [OF x] by simp
    then have "0 < uses (ph_rels ?h) (xs @ ps @ ys) (rp_buffer p)" using uses_pos [OF x] by (simp add: buf_of_def)
    then obtain b1 where b1: "ph_bufs ?h (rp_buffer p) = Some b1" using refs unfolding refs_ok_def by (metis add_gr_0)
    then obtain b0 where b0: "ph_bufs h (rp_buffer p) = Some b0" "b1 = b0\<lparr>pb_refs := pb_refs b1\<rparr>" using h1(5) by auto
    show ?thesis using entry_grown [OF e p p1] b0(1) b1 grown_refs [OF b0(2)] by simp
  qed
  have "heap_ok ?h" using h1(4) by (simp add: heap_ok_def)
  then have pool: "pool_ok E ?h (xs @ ps @ ys)" by (rule pool_okI [OF _ _ _ refs]) (use ok(2) entries in auto)
  have "cchain (ph_rels ?h) (rp_cont q) ps" using q(3) cchain_cong [of ps "ph_rels ?h" "ph_rels h"] rel by simp
  then obtain h2 where h2: "rp_delete_chain (rp_cont q) ?h = Some (Inr h2)" "pool_ok E h2 (xs @ ys)"
      "ph_rels h2 = (\<lambda>x. if x \<in> set ps then None else ph_rels ?h x)" "\<forall>x \<in> set (xs @ ys). ebytes h2 x = ebytes ?h x"
    using Cons.IH [OF pool] by blast
  have "rp_delete_chain p h = Some (Inr h2)" using q(1,2) h1(1) h2(1) by (subst rp_delete_chain.simps) (simp add: get_rel_def)
  moreover have "ph_rels h2 = (\<lambda>x. if x \<in> set (c # ps) then None else ph_rels h x)" using h2(3) h1(3) by auto
  moreover have "\<forall>x \<in> set (xs @ ys). ebytes h2 x = ebytes h x" using h2(4) entries by auto
  ultimately show ?case using h2(2) by blast
qed

lemma unlink_ok:
  assumes o: "dll (nxt h) (prv h) l (rs1 @ r # rs2) l" and d: "distinct (l # rs1 @ r # rs2)"
  shows "\<exists>h1. bind_result (get_rel r h) (\<lambda>t.
             bind_result (upd_rel (rp_next t) (\<lambda>q. q\<lparr>rp_prev := rp_prev t\<rparr>) h) (\<lambda>h1.
               upd_rel (rp_prev t) (\<lambda>q. q\<lparr>rp_next := rp_next t\<rparr>) h1)) = Inr h1 \<and>
    rewired h h1 \<and> dll (nxt h1) (prv h1) l (rs1 @ rs2) l"
proof -
  define a where "a = last (l # rs1)"
  define f where "f = hd (rs2 @ [l])"
  have seg: "dll (nxt h) (prv h) l rs1 r" "dll (nxt h) (prv h) r rs2 l" using o by (simp_all add: dll_append)
  have "prv h r = Some a" "nxt h r = Some f" using dll_prev [OF seg(1)] dll_next [OF seg(2)] by (simp_all add: a_def f_def)
  then obtain t where t: "ph_rels h r = Some t" "rp_prev t = a" "rp_next t = f" by (auto simp: nxt_def prv_def)
  have "nxt h a = Some r" using dll_last [OF seg(1)] by (simp add: a_def)
  then obtain qa where qa: "ph_rels h a = Some qa" by (auto simp: nxt_def)
  have "prv h f \<noteq> None" using seg(2) by (cases rs2) (auto simp: f_def)
  then obtain qf where qf: "ph_rels h f = Some qf" by (auto simp: prv_def)
  let ?R1 = "(ph_rels h)(f \<mapsto> qf\<lparr>rp_prev := a\<rparr>)"
  let ?h = "h\<lparr>ph_rels := ?R1(a \<mapsto> (the (?R1 a))\<lparr>rp_next := f\<rparr>)\<rparr>"
  have "nxt ?h = (nxt h)(a \<mapsto> f)" "prv ?h = (prv h)(f \<mapsto> a)" using qa qf by (auto simp: nxt_def prv_def fun_eq_iff)
  then have "dll (nxt ?h) (prv ?h) l (rs1 @ rs2) l" using dll_remove [OF o _ _ a_def f_def] d by simp
  moreover have "rewired h ?h" using qa qf by (auto simp: rewired_def)
  ultimately show ?thesis
    using t qa qf by (intro exI [of _ ?h]) (auto simp: get_rel_def upd_rel_def)
qed

lemma remove_ok:
  assumes ok: "rl_ok E h l (rs1 @ r # rs2) (css1 @ cs # css2)" and len: "length rs1 = length css1"
  shows "\<exists>h1. rp_remove r h = Some (Inr h1) \<and> rl_ok E h1 l (rs1 @ rs2) (css1 @ css2) \<and>
    pbytes h1 (css1 @ css2) = pbytes h (css1 @ css2) \<and> (\<forall>c \<in> set cs. ph_rels h1 c = None) \<and> (\<forall>c. ph_rels h c = None \<longrightarrow> ph_rels h1 c = None)"
proof -
  have o: "dll (nxt h) (prv h) l (rs1 @ r # rs2) l" "packets h (rs1 @ r # rs2) (css1 @ cs # css2)" "l \<notin> set (concat (css1 @ cs # css2))"
      "pool_ok E h (concat css1 @ cs @ concat css2)"
    using ok by (simp_all add: rl_ok_def)
  have ps: "packets h rs1 css1" "cchain (ph_rels h) (Some r) cs" "packets h rs2 css2"
    using o(2) len by (simp_all add: list_all2_append)
  have "distinct (concat (css1 @ cs # css2))" using o(4) by (simp add: pool_ok_def)
  then have "distinct (rs1 @ r # rs2)" "l \<notin> set (rs1 @ r # rs2)"
    using packets_distinct [OF o(2)] packets_in [OF o(2)] o(3) by blast+
  then obtain h1 where h1: "bind_result (get_rel r h) (\<lambda>t.
             bind_result (upd_rel (rp_next t) (\<lambda>q. q\<lparr>rp_prev := rp_prev t\<rparr>) h) (\<lambda>h1.
               upd_rel (rp_prev t) (\<lambda>q. q\<lparr>rp_next := rp_next t\<rparr>) h1)) = Inr h1" "rewired h h1" "dll (nxt h1) (prv h1) l (rs1 @ rs2) l"
    using unlink_ok [OF o(1)] by auto
  note w = rewired_ok [OF h1(2)]
  obtain h2 where h2: "rp_delete_chain (Some r) h1 = Some (Inr h2)" "pool_ok E h2 (concat css1 @ concat css2)"
      "ph_rels h2 = (\<lambda>x. if x \<in> set cs then None else ph_rels h1 x)" "\<forall>x \<in> set (concat css1 @ concat css2). ebytes h2 x = ebytes h1 x"
    using delete_ok [of E h1 "concat css1" cs "concat css2" "Some r"] w(1) o(4) ps(2) rewired_chain [OF h1(2)] by auto
  have dis: "set cs \<inter> set (l # concat css1 @ concat css2) = {}" using o(3,4) by (auto simp: pool_ok_def)
  then have same: "ph_rels h2 x = ph_rels h1 x" if "x \<in> set (l # concat css1 @ concat css2)" for x using that h2(3) by auto
  have sub: "set (l # rs1 @ rs2) \<subseteq> set (l # concat css1 @ concat css2)" using packets_in [OF ps(1)] packets_in [OF ps(3)] by auto
  have on: "ph_rels h2 x = ph_rels h1 x" if "x \<in> set (l # rs1 @ rs2)" for x by (rule same [OF subsetD [OF sub that]])
  have "dll (nxt h2) (prv h2) l (rs1 @ rs2) l = dll (nxt h1) (prv h1) l (rs1 @ rs2) l"
    by (rule dll_cong) (simp_all add: nxt_def prv_def on)
  then have ring: "dll (nxt h2) (prv h2) l (rs1 @ rs2) l" using h1(3) by simp
  have "packets h2 rs1 css1" "packets h2 rs2 css2"
    using ps(1,3) w(2) packets_cong [of css1 h2 h1 rs1] packets_cong [of css2 h2 h1 rs2] same by simp_all
  then have "packets h2 (rs1 @ rs2) (css1 @ css2)" by (rule list_all2_appendI)
  moreover have "pbytes h2 (css1 @ css2) = pbytes h (css1 @ css2)"
  proof -
    have "pbytes h2 (css1 @ css2) = pbytes h1 (css1 @ css2)" by (rule pbytes_cong) (use h2(4) in simp)
    then show ?thesis using w(3) [of "css1 @ css2"] by simp
  qed
  moreover have "rp_remove r h = Some (Inr h2)" using h1(1) h2(1) by (simp add: rp_remove_def)
  moreover have "ph_rels h2 c = None" if "ph_rels h c = None" for c using that rewired_rel [OF h1(2), of c] h2(3) by auto
  ultimately show ?thesis using ring h2(2,3) o(3) by (intro exI [of _ h2]) (auto simp: rl_ok_def)
qed

lemma discardAll_ok:
  assumes "rl_ok E h l rs css"
  shows "\<exists>h1. rl_discardAll l h = Some (Inr h1) \<and> rl_ok E h1 l [] [] \<and> (\<forall>c \<in> set (concat css). ph_rels h1 c = None) \<and>
    (\<forall>c. ph_rels h c = None \<longrightarrow> ph_rels h1 c = None)"
  using assms
proof (induction rs arbitrary: h css)
  case Nil
  then have "css = []" "nxt h l = Some l" by (simp_all add: rl_ok_def)
  then show ?case using Nil by (subst rl_discardAll.simps) (auto simp: get_rel_def nxt_def)
next
  case (Cons r rs)
  then obtain cs qss where css: "css = cs # qss" by (auto simp: rl_ok_def list_all2_Cons1)
  have "nxt h l = Some r" "r \<noteq> l"
    using Cons.prems packets_in [of h "r # rs" css] by (auto simp: rl_ok_def)
  then obtain q where q: "ph_rels h l = Some q" "rp_next q = r" "r \<noteq> l" by (auto simp: nxt_def)
  obtain h1 where h1: "rp_remove r h = Some (Inr h1)" "rl_ok E h1 l rs qss" "\<forall>c \<in> set cs. ph_rels h1 c = None"
      "\<forall>c. ph_rels h c = None \<longrightarrow> ph_rels h1 c = None"
    using remove_ok [of E h l "[]" r rs "[]" cs qss] Cons.prems css by auto
  obtain h2 where h2: "rl_discardAll l h1 = Some (Inr h2)" "rl_ok E h2 l [] []" "\<forall>c \<in> set (concat qss). ph_rels h2 c = None"
      "\<forall>c. ph_rels h1 c = None \<longrightarrow> ph_rels h2 c = None"
    using Cons.IH [OF h1(2)] by blast
  have "rl_discardAll l h = Some (Inr h2)" using q h1(1) h2(1) by (subst rl_discardAll.simps) (simp add: get_rel_def)
  then show ?case using h1(3,4) h2(2-4) css by auto
qed

lemma rl_empty_ok:
  assumes "rl_ok E h l rs css"
  shows "rl_empty l h = Inr (rs = [])"
proof -
  have "nxt h l = Some (hd (rs @ [l]))" using assms by (auto simp: rl_ok_def intro: dll_next)
  moreover have "rs \<noteq> [] \<Longrightarrow> hd rs \<noteq> l" using assms packets_in [of h rs css] by (cases rs) (auto simp: rl_ok_def)
  ultimately show ?thesis by (cases rs) (auto simp: rl_empty_def nxt_def get_rel_def)
qed

text \<open>
  The list of reliable packets.  On a well-formed list, where every range a packet refers
  to counts as a reference to its buffer, inserting a packet puts it last; removing one, at any
  place, returns, deletes it with its continuations and lets go of its buffers; the other packets keep their
  bytes, since no buffer they refer to is freed; \<open>discardAll\<close> returns, leaves the list empty and no packet
  behind; and \<open>empty\<close> says whether there is a packet.
\<close>

theorem reliable_list_operations:
  assumes ok: "rl_ok E h l rs css"
  shows "(pool_ok E h (concat css @ cs) \<and> cchain (ph_rels h) (Some r) cs \<and> l \<notin> set cs \<longrightarrow>
      (\<exists>h1. rl_insert l r h = Inr h1 \<and> rl_ok E h1 l (rs @ [r]) (css @ [cs]) \<and> pbytes h1 (css @ [cs]) = pbytes h (css @ [cs]))) \<and>
    (rs = rs1 @ r2 # rs2 \<and> css = css1 @ cs2 # css2 \<and> length rs1 = length css1 \<longrightarrow>
      (\<exists>h1. rp_remove r2 h = Some (Inr h1) \<and> rl_ok E h1 l (rs1 @ rs2) (css1 @ css2) \<and>
        pbytes h1 (css1 @ css2) = pbytes h (css1 @ css2) \<and> (\<forall>c \<in> set cs2. ph_rels h1 c = None))) \<and>
    (\<exists>h1. rl_discardAll l h = Some (Inr h1) \<and> rl_ok E h1 l [] [] \<and> (\<forall>c \<in> set (concat css). ph_rels h1 c = None)) \<and>
    rl_empty l h = Inr (rs = [])"
proof (intro conjI impI)
  show "\<exists>h1. rp_remove r2 h = Some (Inr h1) \<and> rl_ok E h1 l (rs1 @ rs2) (css1 @ css2) \<and>
        pbytes h1 (css1 @ css2) = pbytes h (css1 @ css2) \<and> (\<forall>c \<in> set cs2. ph_rels h1 c = None)"
    if "rs = rs1 @ r2 # rs2 \<and> css = css1 @ cs2 # css2 \<and> length rs1 = length css1"
    using remove_ok [of E h l rs1 r2 rs2 css1 cs2 css2] ok that by blast
qed (use insert_ok [OF ok] discardAll_ok [OF ok] rl_empty_ok [OF ok] in blast)+

definition sample_list :: pheap where
  "sample_list = \<lparr>ph_bufs = [5 \<mapsto> (put_bytes [1, 2, 3] (pb_new (\<lambda>_. 0)))\<lparr>pb_refs := 2\<rparr>, 6 \<mapsto> pb_new (\<lambda>_. 0)],
     ph_rels = [0 \<mapsto> \<lparr>rp_buffer = 0, rp_cont = None, rp_prev = 1, rp_next = 1, rp_begin = 0, rp_end = 0\<rparr>,
       1 \<mapsto> \<lparr>rp_buffer = 5, rp_cont = None, rp_prev = 0, rp_next = 0, rp_begin = 0, rp_end = 2\<rparr>,
       2 \<mapsto> \<lparr>rp_buffer = 5, rp_cont = None, rp_prev = 0, rp_next = 0, rp_begin = 2, rp_end = 3\<rparr>],
     ph_fresh = 7, ph_junk = \<lambda>_. 0\<rparr>"

definition sample_held :: "nat \<Rightarrow> nat" where
  "sample_held a = (if a = 6 then 1 else 0)"

lemma sample_pool: "pool_ok sample_held sample_list [1, 2]"
  by (auto simp: pool_ok_def sample_list_def sample_held_def heap_ok_def entry_ok_def refs_ok_def buf_of_def pb_new_def put_bytes_def
      DATA_SIZE_def)

lemma sample_list_ok: "rl_ok sample_held sample_list 0 [1] [[1]]"
  by (auto simp: rl_ok_def pool_ok_def sample_list_def sample_held_def heap_ok_def entry_ok_def refs_ok_def buf_of_def pb_new_def put_bytes_def
      DATA_SIZE_def nxt_def prv_def)

lemma sample_bytes: "ebytes sample_list 1 = [1, 2]" "ebytes sample_list 2 = [3]"
  by (simp_all add: ebytes_def sample_list_def put_bytes_def pb_new_def pb_range_def upt_rec)

theorem reliable_list_operations_witness:
  "(\<exists>h1. rl_insert 0 2 sample_list = Inr h1 \<and> rl_ok sample_held h1 0 [1, 2] [[1], [2]] \<and> pbytes h1 [[1], [2]] = [[1, 2], [3]]) \<and>
   (\<exists>h1. rp_remove 1 sample_list = Some (Inr h1) \<and> rl_ok sample_held h1 0 [] [] \<and> ph_rels h1 1 = None) \<and>
   (\<exists>h1. rl_discardAll 0 sample_list = Some (Inr h1) \<and> rl_ok sample_held h1 0 [] []) \<and>
   rl_empty 0 sample_list = Inr False"
proof -
  have "cchain (ph_rels sample_list) (Some 2) [2]" by (simp add: sample_list_def)
  then show ?thesis
    using reliable_list_operations [OF sample_list_ok, of "[2]" 2 "[]" 1 "[]" "[]" "[1]" "[]"] sample_pool sample_bytes
    by (auto simp: pbytes_def)
qed

text \<open>
  Property C20: compaction for sending again.  From a well-formed list and a buffer to write to, \<open>compact\<close>
  returns the last buffer of a chain that begins at the given one and has, behind the bytes that were
  there, the bytes of the packets in order, up to the first range in the buffer to stop at.  The
  packets stay the same, in the same order and with the same bytes, although ranges are moved and
  split; and the list is well formed with the new references.
\<close>

theorem compaction_keeps_packets:
  assumes "rl_ok E h l rs css" and "into_ok E h fs into"
  shows "\<exists>i1 h1 fs1 E1 css1. rl_compact l into stop h = Some (Inr (i1, h1)) \<and> rl_ok E1 h1 l rs css1 \<and> into_ok E1 h1 fs1 i1 \<and>
    hd (fs1 @ [i1]) = hd (fs @ [into]) \<and> pbytes h1 css1 = pbytes h css \<and>
    into_bytes h1 (fs1 @ [i1]) = into_bytes h (fs @ [into]) @ until stop h (concat css)"
  using compact_ok [OF assms] .

theorem compaction_keeps_packets_witness:
  "\<exists>i1 h1 fs1 E1 css1. rl_compact 0 6 None sample_list = Some (Inr (i1, h1)) \<and> rl_ok E1 h1 0 [1] css1 \<and>
    pbytes h1 css1 = [[1, 2]] \<and> into_bytes h1 (fs1 @ [i1]) = [1, 2]"
proof -
  have s: "into_ok sample_held sample_list [] 6" "into_bytes sample_list ([] @ [6]) = []" "until None sample_list (concat [[1]]) = [1, 2]"
      "pbytes sample_list [[1]] = [[1, 2]]"
    using sample_bytes
    by (simp_all add: into_ok_def into_bytes_def links_def sample_held_def pbytes_def until_def)
       (simp_all add: sample_list_def buf_of_def buf_bytes_def pb_new_def pb_range_def DATA_SIZE_def)
  show ?thesis using compaction_keeps_packets [OF sample_list_ok s(1), of None] unfolding s(3,4) using s(2) by (metis append_Nil)
qed

end
