(* ===== verification/Metric_Sample.thy ===== *)
theory Metric_Sample
  imports Complex_Main IS_Erase
begin

text \<open>
  Sampled metrics that expire (\<open>src/flow/MetricSample.h\<close>): an \<open>IndexedSet\<close> of keys with metrics and a \<open>Deque\<close> of
  the amounts to take back later, as a list.  A metric is an \<open>int64_t\<close>: an operation that leaves a metric or
  a total of the set out of its range has overflowed, which is \<open>Undefined_behaviour\<close>.  Times and the quotient
  that \<open>roll\<close> compares are exact numbers.  The number \<open>random01()\<close> returns is an argument of the operations
  that draw it.
\<close>

subsection \<open>The range of a metric\<close>

definition in_i64 :: "int \<Rightarrow> bool" where
  "in_i64 n \<longleftrightarrow> - (2 ^ 63) \<le> n \<and> n < 2 ^ 63"

fun totals_fit :: "('a, int) is_tree \<Rightarrow> bool" where
  "totals_fit Leaf = True"
| "totals_fit (Node l x b m r) = (in_i64 m \<and> totals_fit l \<and> totals_fit r)"

definition fitting :: "('a, int) is_tree \<Rightarrow> ('a, int) is_tree result" where
  "fitting t = (if totals_fit t then Inr t else Inl Undefined_behaviour)"

definition addMetric64 :: "('a::linorder, int) is_tree \<Rightarrow> 'a \<Rightarrow> int \<Rightarrow> (('a, int) is_tree \<times> int) result" where
  "addMetric64 t key metric =
     bind_result (addMetric t key metric) (\<lambda>(t1, v).
     bind_result (fitting t1) (\<lambda>t1. if in_i64 v then Inr (t1, v) else Inl Undefined_behaviour))"

definition insert64 :: "('a::linorder, int) is_tree \<Rightarrow> 'a \<Rightarrow> int \<Rightarrow> ('a, int) is_tree result" where
  "insert64 t key metric = bind_result (is_insert t key metric True) fitting"

definition erase64 :: "('a::linorder, int) is_tree \<Rightarrow> ('a, int) iter \<Rightarrow> ('a, int) is_tree result" where
  "erase64 t i = bind_result (erase_iter t i) fitting"

definition erase_key64 :: "('a::linorder, int) is_tree \<Rightarrow> 'a \<Rightarrow> ('a, int) is_tree result" where
  "erase_key64 t key = erase64 t (is_find t key)"

text \<open>The absolute values of all metrics together: no total is larger.\<close>

definition weight :: "('k \<Rightarrow> int option) \<Rightarrow> int" where
  "weight f = (\<Sum>k \<in> dom f. \<bar>the (f k)\<bar>)"

lemma total_items: "total t = (\<Sum>x \<leftarrow> items t. snd x)"
  for t :: "('a, int) is_tree"
  by (induction t) auto

lemma abs_sum_le: "\<bar>\<Sum>x \<leftarrow> xs. snd x\<bar> \<le> (\<Sum>x \<leftarrow> xs. \<bar>snd x\<bar>)"
  for xs :: "('a \<times> int) list"
  by (induction xs) auto

lemma abs_sum_nonneg: "0 \<le> (\<Sum>x \<leftarrow> xs. \<bar>snd x\<bar>)"
  for xs :: "('a \<times> int) list"
  by (induction xs) auto

lemma totals_fit_items: "(\<Sum>x \<leftarrow> items t. \<bar>snd x\<bar>) < 2 ^ 63 \<Longrightarrow> totals_fit t"
proof (induction t)
  case (Node l x b m r)
  have "\<bar>m\<bar> < 2 ^ 63"
    using total_items [of "Node l x b m r"] abs_sum_le [of "items (Node l x b m r)"] Node.prems by simp
  moreover have "(\<Sum>x \<leftarrow> items l. \<bar>snd x\<bar>) < 2 ^ 63" "(\<Sum>x \<leftarrow> items r. \<bar>snd x\<bar>) < 2 ^ 63"
    using Node.prems abs_sum_nonneg [of "items l"] abs_sum_nonneg [of "items r"] by auto
  ultimately show ?case using Node.IH by (auto simp: in_i64_def)
qed simp

lemma weight_upd:
  assumes "finite (dom f)"
  shows "weight (f(k \<mapsto> v)) = \<bar>v\<bar> + weight (f(k := None))"
proof -
  have "(\<Sum>j \<in> dom f - {k}. \<bar>the ((f(k \<mapsto> v)) j)\<bar>) = (\<Sum>j \<in> dom f - {k}. \<bar>the ((f(k := None)) j)\<bar>)"
    by (rule sum.cong) auto
  then show ?thesis using assms by (simp add: weight_def sum.insert_remove)
qed

lemma weight_None_le: "finite (dom f) \<Longrightarrow> weight (f(k := None)) \<le> weight f"
proof -
  assume "finite (dom f)"
  moreover have "(\<Sum>j \<in> dom f - {k}. \<bar>the ((f(k := None)) j)\<bar>) = (\<Sum>j \<in> dom f - {k}. \<bar>the (f j)\<bar>)"
    by (rule sum.cong) auto
  ultimately show ?thesis by (simp add: weight_def sum_mono2)
qed

lemma weight_ge: "finite (dom f) \<Longrightarrow> f k = Some v \<Longrightarrow> \<bar>v\<bar> \<le> weight f"
  unfolding weight_def by (rule order_trans [OF _ member_le_sum [of k]]) auto

lemma weight_items: "distinct (map fst xs) \<Longrightarrow> weight (map_of xs) = (\<Sum>x \<leftarrow> xs. \<bar>snd x\<bar>)"
proof (induction xs)
  case (Cons x xs)
  then have "map_of xs (fst x) = None" by (simp add: map_of_eq_None_iff)
  then have "(map_of xs)(fst x := None) = map_of xs" by (simp add: fun_upd_idem)
  then show ?case using Cons weight_upd [of "map_of xs" "fst x" "snd x"] by (cases x) (simp add: finite_dom_map_of fun_upd_def)
qed (simp add: weight_def)

lemma fitting_ok:
  assumes "is_ok t" and "weight (map_of (items t)) < 2 ^ 63"
  shows "fitting t = Inr t"
proof -
  have "distinct (map fst (items t))"
    using assms(1) strict_sorted_iff by (fastforce simp: is_ok_def sorted_items_def)
  then show ?thesis using assms(2) totals_fit_items [of t] by (simp add: weight_items fitting_def)
qed

subsection \<open>The set of metrics as a map\<close>

text \<open>What the samples use of \<open>IndexedSet\<close>: adding to the metric of a key and erasing a key.\<close>

definition metric_or_0 :: "int option \<Rightarrow> int" where
  "metric_or_0 v = (case v of None \<Rightarrow> 0 | Some m \<Rightarrow> m)"

lemma metric_or_0_simps [simp]: "metric_or_0 None = 0" "metric_or_0 (Some m) = m"
  by (simp_all add: metric_or_0_def)

locale metric_store =
  fixes lookup :: "'s \<Rightarrow> 'k \<Rightarrow> int option"
    and valid :: "'s \<Rightarrow> bool"
    and add_metric :: "'s \<Rightarrow> 'k \<Rightarrow> int \<Rightarrow> ('s \<times> int) result"
    and erase :: "'s \<Rightarrow> 'k \<Rightarrow> 's result"
  assumes finite_law: "valid s \<Longrightarrow> finite (dom (lookup s))"
    and add_law: "valid s \<Longrightarrow> weight ((lookup s)(k \<mapsto> d + metric_or_0 (lookup s k))) < 2 ^ 63 \<Longrightarrow>
      \<exists>s'. add_metric s k d = Inr (s', d + metric_or_0 (lookup s k)) \<and> valid s' \<and>
      lookup s' = (lookup s)(k \<mapsto> d + metric_or_0 (lookup s k))"
    and erase_law: "valid s \<Longrightarrow> \<exists>s'. erase s k = Inr s' \<and> valid s' \<and> lookup s' = (lookup s)(k := None)"
begin

definition represents :: "'s \<Rightarrow> ('k \<Rightarrow> int) \<Rightarrow> bool" where
  "represents s f \<longleftrightarrow> valid s \<and> (\<forall>k. lookup s k = (if f k = 0 then None else Some (f k)))"

lemma represents_value: "represents s f \<Longrightarrow> metric_or_0 (lookup s k) = f k"
  by (simp add: represents_def)

text \<open>Adding to a metric and erasing the key if the result is zero.\<close>

lemma bump:
  assumes "represents s f" and fits: "\<And>A. finite A \<Longrightarrow> (\<Sum>j \<in> A. \<bar>(f(k := d + f k)) j\<bar>) < 2 ^ 63"
  shows "\<exists>s1 s2. add_metric s k d = Inr (s1, d + f k) \<and> valid s1 \<and> (if d + f k = 0 then erase s1 k else Inr s1) = Inr s2 \<and>
    represents s2 (f(k := d + f k))"
proof -
  have v: "metric_or_0 (lookup s k) = f k" and ok: "valid s" using assms(1) by (simp_all add: represents_value represents_def)
  have "weight ((lookup s)(k \<mapsto> d + f k)) = (\<Sum>j \<in> insert k (dom (lookup s)). \<bar>(f(k := d + f k)) j\<bar>)"
    unfolding weight_def using assms(1) by (intro sum.cong) (auto simp: represents_def split: if_splits)
  then have "weight ((lookup s)(k \<mapsto> d + f k)) < 2 ^ 63" using fits finite_law [OF ok] by simp
  then obtain s1 where s1: "add_metric s k d = Inr (s1, d + f k)" "valid s1" "lookup s1 = (lookup s)(k \<mapsto> d + f k)"
    using add_law [OF ok, of k d] v by auto
  obtain s2 where s2: "erase s1 k = Inr s2" "valid s2" "lookup s2 = (lookup s1)(k := None)" using erase_law [OF s1(2), of k] by blast
  show ?thesis
    using s1 s2 assms(1) by (cases "d + f k = 0") (auto simp: represents_def)
qed

lemma represents_cong: "represents s f \<Longrightarrow> (\<And>k. g k = f k) \<Longrightarrow> represents s g"
  by (simp add: represents_def)

end

definition set_ok :: "('a::linorder, int) is_tree \<Rightarrow> bool" where
  "set_ok t \<longleftrightarrow> is_ok t \<and> weight (map_of (items t)) < 2 ^ 63"

lemma addMetric_map:
  fixes t :: "('a::linorder, int) is_tree"
  assumes "set_ok t" and "weight ((map_of (items t))(k \<mapsto> d + metric_or_0 (map_of (items t) k))) < 2 ^ 63"
  shows "\<exists>t'. addMetric64 t k d = Inr (t', d + metric_or_0 (map_of (items t) k)) \<and> set_ok t' \<and>
    map_of (items t') = (map_of (items t))(k \<mapsto> d + metric_or_0 (map_of (items t) k))"
proof -
  let ?v = "d + metric_or_0 (map_of (items t) k)"
  obtain t' where t': "addMetric t k d = Inr (t', ?v)" "is_ok t'" "map_of (items t') = (map_of (items t))(k \<mapsto> ?v)"
    using addMetric_correct [of t k d] assms(1) by (auto simp: metric_or_0_def set_ok_def)
  have "\<bar>?v\<bar> < 2 ^ 63" using weight_ge [of "map_of (items t')" k ?v] t'(3) assms(2) by (simp add: finite_dom_map_of)
  then show ?thesis using t' fitting_ok [OF t'(2)] assms(2) by (auto simp: addMetric64_def set_ok_def in_i64_def)
qed

lemma erase_key_map:
  fixes t :: "('a::linorder, int) is_tree"
  assumes "set_ok t"
  shows "\<exists>t'. erase_key64 t k = Inr t' \<and> set_ok t' \<and> map_of (items t') = (map_of (items t))(k := None)"
proof -
  have "map_of (filter (\<lambda>y. fst y \<noteq> k) xs) = (map_of xs)(k := None)" for xs :: "('a \<times> int) list"
    by (induction xs) (auto simp: fun_eq_iff)
  then obtain t' where t': "erase_iter t (is_find t k) = Inr t'" "is_ok t'" "map_of (items t') = (map_of (items t))(k := None)"
    using erase_key_ok [of t k] assms by (auto simp: set_ok_def erase_key_def)
  have "weight (map_of (items t')) < 2 ^ 63"
    using weight_None_le [of "map_of (items t)" k] assms t'(3) by (simp add: finite_dom_map_of set_ok_def)
  then show ?thesis using t' fitting_ok [OF t'(2)] by (simp add: erase_key64_def erase64_def set_ok_def)
qed

interpretation is_store: metric_store "\<lambda>t. map_of (items t)" set_ok addMetric64 erase_key64
  by unfold_locales (simp add: finite_dom_map_of, rule addMetric_map, assumption+, rule erase_key_map, assumption)

subsection \<open>MetricSample and TransientMetricSample\<close>

record 'a metric_sample =
  ms_sample :: "('a, int) is_tree"
  ms_units :: int

definition ms_getMetric :: "('a::linorder, 'b) metric_sample_scheme \<Rightarrow> 'a \<Rightarrow> int" where
  "ms_getMetric s key = (case is_find (ms_sample s) key of None \<Rightarrow> 0 | Some i \<Rightarrow> getMetric i)"

definition roll :: "real \<Rightarrow> int \<Rightarrow> int \<Rightarrow> bool" where
  "roll random01 units metric \<longleftrightarrow> random01 < of_int metric / of_int units"

text \<open>
  The first half of \<open>add\<close>: the amount to add, zero if nothing is sampled.  The absolute value of the
  least \<open>int64_t\<close> is undefined.
\<close>

definition sample_amount :: "real \<Rightarrow> int \<Rightarrow> int \<Rightarrow> int result" where
  "sample_amount random01 units metric =
     (if metric = 0 then Inr 0
      else if metric = - (2 ^ 63) then Inl Undefined_behaviour
      else let mag = \<bar>metric\<bar>
           in if mag < units
              then if \<not> roll random01 units mag then Inr 0 else if metric < 0 then Inr (- units) else Inr units
              else Inr metric)"

record 'a transient_sample = "'a metric_sample" +
  tms_queue :: "(real \<times> 'a \<times> int) list"

definition tms_add :: "real \<Rightarrow> 'a::linorder \<Rightarrow> int \<Rightarrow> 'a transient_sample \<Rightarrow> (int \<times> 'a transient_sample) result" where
  "tms_add random01 key metric s =
     bind_result (sample_amount random01 (ms_units s) metric) (\<lambda>x.
       if x = 0 then Inr (0, s)
       else bind_result (addMetric64 (ms_sample s) key x) (\<lambda>(t, v).
            bind_result (if v = 0 then erase_key64 t key else Inr t) (\<lambda>t1. Inr (x, s\<lparr>ms_sample := t1\<rparr>))))"

definition tms_addAndExpire ::
  "real \<Rightarrow> 'a::linorder \<Rightarrow> int \<Rightarrow> real \<Rightarrow> 'a transient_sample \<Rightarrow> (int \<times> 'a transient_sample) result" where
  "tms_addAndExpire random01 key metric expiration s =
     bind_result (tms_add random01 key metric s) (\<lambda>(x, s1).
       if x \<noteq> 0
       then case is_find (ms_sample s1) key of
              None \<Rightarrow> Inl Undefined_behaviour
            | Some i \<Rightarrow> Inr (x, s1\<lparr>tms_queue := tms_queue s1 @ [(expiration, n_data (fst i), - x)]\<rparr>)
       else Inr (x, s1))"

fun tms_poll_loop ::
  "real \<Rightarrow> ('a::linorder, int) is_tree \<Rightarrow> (real \<times> 'a \<times> int) list \<Rightarrow> (('a, int) is_tree \<times> (real \<times> 'a \<times> int) list) result" where
  "tms_poll_loop now t [] = Inr (t, [])"
| "tms_poll_loop now t ((e, key, delta) # q) =
     (if e \<le> now
      then bind_result (assert_that (delta \<noteq> 0)) (\<lambda>_.
           bind_result (addMetric64 t key delta) (\<lambda>(t1, v).
           bind_result (if v = 0 then erase_key64 t1 key else Inr t1) (\<lambda>t2. tms_poll_loop now t2 q)))
      else Inr (t, (e, key, delta) # q))"

definition tms_poll :: "real \<Rightarrow> 'a::linorder transient_sample \<Rightarrow> 'a transient_sample result" where
  "tms_poll now s =
     bind_result (tms_poll_loop now (ms_sample s) (tms_queue s)) (\<lambda>(t, q). Inr (s\<lparr>ms_sample := t, tms_queue := q\<rparr>))"

subsection \<open>TransientThresholdMetricSample\<close>

record 'a threshold_sample = "'a metric_sample" +
  tts_queue :: "(real \<times> 'a \<times> int) list"
  tts_crossed :: "('a, int) is_tree"
  tts_limit :: int

definition tts_isAboveThreshold :: "'a::linorder threshold_sample \<Rightarrow> 'a \<Rightarrow> bool" where
  "tts_isAboveThreshold s key = (case is_find (tts_crossed s) key of None \<Rightarrow> False | Some i \<Rightarrow> True)"

definition tts_add :: "real \<Rightarrow> 'a::linorder \<Rightarrow> int \<Rightarrow> 'a threshold_sample \<Rightarrow> (int \<times> 'a threshold_sample) result" where
  "tts_add random01 key metric s =
     bind_result (sample_amount random01 (ms_units s) metric) (\<lambda>x.
       if x = 0 then Inr (0, s)
       else bind_result (addMetric64 (ms_sample s) key x) (\<lambda>(t, v).
            bind_result
              (if tts_limit s \<le> v
               then if \<not> in_i64 (v - x) then Inl Undefined_behaviour
                    else bind_result (assert_that (if v - x < tts_limit s then is_find (tts_crossed s) key = None
                                                   else is_find (tts_crossed s) key \<noteq> None)) (\<lambda>_.
                         insert64 (tts_crossed s) key v)
               else Inr (tts_crossed s)) (\<lambda>c.
            bind_result (if v = 0 then erase_key64 t key else Inr t) (\<lambda>t1.
              Inr (x, s\<lparr>ms_sample := t1, tts_crossed := c\<rparr>)))))"

definition tts_addAndExpire ::
  "real \<Rightarrow> 'a::linorder \<Rightarrow> int \<Rightarrow> real \<Rightarrow> 'a threshold_sample \<Rightarrow> (int \<times> 'a threshold_sample) result" where
  "tts_addAndExpire random01 key metric expiration s =
     bind_result (tts_add random01 key metric s) (\<lambda>(x, s1).
       if x \<noteq> 0
       then case is_find (ms_sample s1) key of
              None \<Rightarrow> Inl Undefined_behaviour
            | Some i \<Rightarrow> Inr (x, s1\<lparr>tts_queue := tts_queue s1 @ [(expiration, n_data (fst i), - x)]\<rparr>)
       else Inr (x, s1))"

fun tts_poll_loop ::
  "real \<Rightarrow> int \<Rightarrow> ('a::linorder, int) is_tree \<Rightarrow> ('a, int) is_tree \<Rightarrow> (real \<times> 'a \<times> int) list \<Rightarrow>
    (('a, int) is_tree \<times> ('a, int) is_tree \<times> (real \<times> 'a \<times> int) list) result" where
  "tts_poll_loop now limit t c [] = Inr (t, c, [])"
| "tts_poll_loop now limit t c ((e, key, delta) # q) =
     (if e \<le> now
      then bind_result (assert_that (delta \<noteq> 0)) (\<lambda>_.
           bind_result (addMetric64 t key delta) (\<lambda>(t1, v).
           bind_result
             (if v < limit
              then if delta = - (2 ^ 63) \<or> \<not> in_i64 (v + \<bar>delta\<bar>) then Inl Undefined_behaviour
                   else if limit \<le> v + \<bar>delta\<bar>
                   then bind_result (assert_that (is_find c key \<noteq> None)) (\<lambda>_. erase64 c (is_find c key))
                   else Inr c
              else Inr c) (\<lambda>c1.
           bind_result (if v = 0 then erase_key64 t1 key else Inr t1) (\<lambda>t2. tts_poll_loop now limit t2 c1 q))))
      else Inr (t, c, (e, key, delta) # q))"

definition tts_poll :: "real \<Rightarrow> 'a::linorder threshold_sample \<Rightarrow> 'a threshold_sample result" where
  "tts_poll now s =
     bind_result (tts_poll_loop now (tts_limit s) (ms_sample s) (tts_crossed s) (tts_queue s)) (\<lambda>(t, c, q).
       Inr (s\<lparr>ms_sample := t, tts_crossed := c, tts_queue := q\<rparr>))"

subsection \<open>What is queued is what is counted\<close>

definition queued_metric :: "(real \<times> 'a \<times> int) list \<Rightarrow> 'a \<Rightarrow> int" where
  "queued_metric q k = - (\<Sum>(e, key, delta) \<leftarrow> q. if key = k then delta else 0)"

text \<open>The absolute amounts queued, together: what the metrics and totals cannot exceed.\<close>

definition queue_weight :: "(real \<times> 'a \<times> int) list \<Rightarrow> int" where
  "queue_weight q = (\<Sum>(e, key, delta) \<leftarrow> q. \<bar>delta\<bar>)"

abbreviation counts :: "('a::linorder, int) is_tree \<Rightarrow> (real \<times> 'a \<times> int) list \<Rightarrow> bool" where
  "counts t q \<equiv> is_store.represents t (queued_metric q) \<and> (\<forall>(e, key, delta) \<in> set q. delta \<noteq> 0) \<and> queue_weight q < 2 ^ 63"

lemma queue_weight_simps [simp]:
  "queue_weight [] = 0" "queue_weight ((e, key, delta) # q) = \<bar>delta\<bar> + queue_weight q"
  "queue_weight (q @ [(e, key, delta)]) = queue_weight q + \<bar>delta\<bar>"
  by (simp_all add: queue_weight_def)

lemma queue_weight_nonneg: "0 \<le> queue_weight q"
  by (induction q) auto

lemma queued_metric_simps:
  "queued_metric [] k = 0"
  "queued_metric ((e, key, delta) # q) k = (if key = k then - delta else 0) + queued_metric q k"
  "queued_metric (q @ [(e, key, delta)]) k = (if key = k then - delta else 0) + queued_metric q k"
  by (simp_all add: queued_metric_def)

lemma queued_metric_weight:
  assumes "finite A"
  shows "(\<Sum>k \<in> A. \<bar>queued_metric q k\<bar>) \<le> queue_weight q"
proof (induction q)
  case (Cons y q)
  obtain e key delta where y: "y = (e, key, delta)" by (cases y)
  have "(\<Sum>k \<in> A. \<bar>queued_metric (y # q) k\<bar>) \<le> (\<Sum>k \<in> A. (if key = k then \<bar>delta\<bar> else 0) + \<bar>queued_metric q k\<bar>)"
    by (intro sum_mono) (auto simp: y queued_metric_simps)
  also have "\<dots> = (if key \<in> A then \<bar>delta\<bar> else 0) + (\<Sum>k \<in> A. \<bar>queued_metric q k\<bar>)"
    using assms by (simp add: sum.distrib)
  also have "\<dots> \<le> \<bar>delta\<bar> + queue_weight q" using Cons.IH by auto
  finally show ?case by (simp add: y)
qed (simp add: queued_metric_simps)

lemma find_counts:
  assumes "is_store.represents t f"
  shows "is_find t k = None \<longleftrightarrow> f k = 0" and "is_find t k = Some i \<Longrightarrow> getMetric i = f k \<and> n_data (fst i) = k"
proof -
  have ok: "is_ok t" "map_of (items t) k = (if f k = 0 then None else Some (f k))" using assms by (simp_all add: is_store.represents_def set_ok_def)
  show "is_find t k = None \<longleftrightarrow> f k = 0" using is_find_ok [OF ok(1), of k] ok(2) by (auto split: option.splits if_splits)
  assume "is_find t k = Some i"
  then have "fst (here i) = k" "map_of (items t) k = Some (getMetric i)" using is_find_ok [OF ok(1), of k] by simp_all
  then show "getMetric i = f k \<and> n_data (fst i) = k" using ok(2) by (auto simp: here_def split: if_splits)
qed

lemma getMetric_counts: "is_store.represents (ms_sample s) f \<Longrightarrow> ms_getMetric s k = f k"
  using find_counts [of "ms_sample s" f k] by (auto simp: ms_getMetric_def split: option.splits)

lemma represents_Leaf: "is_store.represents t (\<lambda>_. 0) \<Longrightarrow> t = Leaf"
proof (cases t)
  case (Node l x b m r)
  assume "is_store.represents t (\<lambda>_. 0)"
  then have "map_of (items t) x = None" by (simp add: is_store.represents_def)
  then show ?thesis using Node by (simp add: map_of_eq_None_iff)
qed

text \<open>One amount is added and queued to be taken back, or taken back and off the queue.\<close>

lemma counts_push:
  assumes "counts t q" and "x \<noteq> 0" and "queue_weight q + \<bar>x\<bar> < 2 ^ 63"
  shows "is_store.represents t1 ((queued_metric q)(key := x + queued_metric q key)) \<Longrightarrow> counts t1 (q @ [(e, key, - x)])"
  using assms by (auto simp: queued_metric_simps elim: is_store.represents_cong)

lemma counts_pop:
  assumes "counts t ((e, key, delta) # q)"
  shows "\<exists>t1 t2. addMetric64 t key delta = Inr (t1, queued_metric q key) \<and>
    (if queued_metric q key = 0 then erase_key64 t1 key else Inr t1) = Inr t2 \<and> counts t2 q"
proof -
  let ?f = "queued_metric ((e, key, delta) # q)"
  have v: "delta + ?f key = queued_metric q key" by (simp add: queued_metric_simps)
  have upd: "?f(key := delta + ?f key) = queued_metric q" by (auto simp: queued_metric_simps)
  have fits: "(\<Sum>j \<in> A. \<bar>(?f(key := delta + ?f key)) j\<bar>) < 2 ^ 63" if "finite A" for A
    unfolding upd using queued_metric_weight [OF that, of q] assms abs_ge_zero [of delta] unfolding queue_weight_simps by linarith
  obtain t1 t2 where t: "addMetric64 t key delta = Inr (t1, delta + ?f key)" "(if delta + ?f key = 0 then erase_key64 t1 key else Inr t1) = Inr t2"
      "is_store.represents t2 (?f(key := delta + ?f key))"
    using is_store.bump [of t ?f key delta] fits assms by blast
  have "is_store.represents t2 (queued_metric q)" using t(3) unfolding upd .
  then show ?thesis using t(1,2) assms unfolding v by auto
qed

lemma push_fits:
  fixes q :: "(real \<times> 'a \<times> int) list"
  assumes "finite A" and "queue_weight q + \<bar>x\<bar> < 2 ^ 63"
  shows "(\<Sum>j \<in> A. \<bar>((queued_metric q)(key := x + queued_metric q key)) j\<bar>) < 2 ^ 63"
proof -
  have "(queued_metric q)(key := x + queued_metric q key) = queued_metric (q @ [(0, key, - x)])"
    by (auto simp: queued_metric_simps)
  then show ?thesis using queued_metric_weight [OF assms(1), of "q @ [(0, key, - x)]"] assms(2) by (simp del: fun_upd_apply)
qed

lemma addAndExpire_ok:
  assumes ok: "counts (ms_sample s) (tms_queue s)"
    and x_def: "sample_amount r (ms_units s) metric = Inr x" and fits: "queue_weight (tms_queue s) + \<bar>x\<bar> < 2 ^ 63"
  shows "x = 0 \<Longrightarrow> tms_addAndExpire r key metric e s = Inr (0, s)"
    and "x \<noteq> 0 \<Longrightarrow> x + queued_metric (tms_queue s) key = 0 \<Longrightarrow> tms_addAndExpire r key metric e s = Inl Undefined_behaviour"
    and "x \<noteq> 0 \<Longrightarrow> x + queued_metric (tms_queue s) key \<noteq> 0 \<Longrightarrow> \<exists>t. tms_addAndExpire r key metric e s =
      Inr (x, s\<lparr>ms_sample := t, tms_queue := tms_queue s @ [(e, key, - x)]\<rparr>) \<and> counts t (tms_queue s @ [(e, key, - x)])"
proof -
  show "x = 0 \<Longrightarrow> tms_addAndExpire r key metric e s = Inr (0, s)" by (simp add: tms_addAndExpire_def tms_add_def x_def)
  let ?v = "x + queued_metric (tms_queue s) key"
  obtain t1 t2 where t: "addMetric64 (ms_sample s) key x = Inr (t1, ?v)" "(if ?v = 0 then erase_key64 t1 key else Inr t1) = Inr t2"
      "is_store.represents t2 ((queued_metric (tms_queue s))(key := ?v))"
    using is_store.bump [of "ms_sample s" "queued_metric (tms_queue s)" key x] push_fits [OF _ fits, of _ key] ok by blast
  have run: "tms_add r key metric s = Inr (x, s\<lparr>ms_sample := t2\<rparr>)" if "x \<noteq> 0"
    using that t by (simp add: tms_add_def x_def Let_def)
  show "x \<noteq> 0 \<Longrightarrow> ?v = 0 \<Longrightarrow> tms_addAndExpire r key metric e s = Inl Undefined_behaviour"
    using run find_counts(1) [OF t(3), of key] by (simp add: tms_addAndExpire_def)
  assume x: "x \<noteq> 0" "?v \<noteq> 0"
  then obtain i where i: "is_find t2 key = Some i" "n_data (fst i) = key"
    using find_counts [OF t(3), of key] by (cases "is_find t2 key") auto
  then show "\<exists>t. tms_addAndExpire r key metric e s =
      Inr (x, s\<lparr>ms_sample := t, tms_queue := tms_queue s @ [(e, key, - x)]\<rparr>) \<and> counts t (tms_queue s @ [(e, key, - x)])"
    using run [OF x(1)] x(1) counts_push [OF ok x(1) fits t(3), of e] by (intro exI [of _ t2]) (simp add: tms_addAndExpire_def)
qed

abbreviation expired :: "real \<Rightarrow> real \<times> 'a \<times> int \<Rightarrow> bool" where
  "expired now x \<equiv> fst x \<le> now"

lemma tms_poll_ok:
  assumes "counts t q"
  shows "\<exists>t1. tms_poll_loop now t q = Inr (t1, dropWhile (expired now) q) \<and> counts t1 (dropWhile (expired now) q)"
  using assms
proof (induction now t q rule: tms_poll_loop.induct)
  case (2 now t e key delta q)
  show ?case
  proof (cases "e \<le> now")
    case True
    obtain t1 t2 where t: "addMetric64 t key delta = Inr (t1, queued_metric q key)"
        "(if queued_metric q key = 0 then erase_key64 t1 key else Inr t1) = Inr t2" "counts t2 q"
      using counts_pop [OF "2.prems"] by blast
    have "delta \<noteq> 0" using "2.prems" by simp
    moreover obtain t3 where "tms_poll_loop now t2 q = Inr (t3, dropWhile (expired now) q)" "counts t3 (dropWhile (expired now) q)"
      using "2.IH" [OF True t(3)] by blast
    ultimately show ?thesis using True t by simp
  qed (use "2.prems" in simp)
qed simp

text \<open>
  Property C28: what a transient sample counts is what is queued to expire.  Take a sample where every key's
  metric is the sum of its queued amounts, which are less than \<open>2 ^ 63\<close> together in absolute value.  While
  this also holds with the new amount, no metric and no total leaves the range of \<open>int64_t\<close>: \<open>addAndExpire\<close> adds
  the amount to the key and queues it, and the sample stays in balance; only when the key's metric becomes
  zero does the code dereference \<open>end()\<close>.  A sampled amount of zero changes nothing.  \<open>poll\<close> fails no
  assertion and does not overflow, takes the expired amounts off the front of the queue, keeps the
  balance, and leaves an empty set when all have expired.
\<close>

theorem transient_sample_balance:
  assumes "counts (ms_sample s) (tms_queue s)" and "sample_amount r (ms_units s) metric = Inr x"
  shows "ms_getMetric s k = queued_metric (tms_queue s) k \<and>
    (x = 0 \<longrightarrow> tms_addAndExpire r key metric e s = Inr (0, s)) \<and>
    (x \<noteq> 0 \<and> queue_weight (tms_queue s) + \<bar>x\<bar> < 2 ^ 63 \<and> x + ms_getMetric s key = 0 \<longrightarrow>
      tms_addAndExpire r key metric e s = Inl Undefined_behaviour) \<and>
    (x \<noteq> 0 \<and> queue_weight (tms_queue s) + \<bar>x\<bar> < 2 ^ 63 \<and> x + ms_getMetric s key \<noteq> 0 \<longrightarrow>
      (\<exists>s1. tms_addAndExpire r key metric e s = Inr (x, s1) \<and> tms_queue s1 = tms_queue s @ [(e, key, - x)] \<and>
        counts (ms_sample s1) (tms_queue s1) \<and> ms_getMetric s1 k = (if k = key then x else 0) + ms_getMetric s k)) \<and>
    (\<exists>s1. tms_poll now s = Inr s1 \<and> tms_queue s1 = dropWhile (expired now) (tms_queue s) \<and> counts (ms_sample s1) (tms_queue s1) \<and>
      ((\<forall>y \<in> set (tms_queue s). expired now y) \<longrightarrow> ms_sample s1 = Leaf))"
proof -
  have m: "ms_getMetric s k = queued_metric (tms_queue s) k" for k using assms(1) by (simp add: getMetric_counts)
  note add = addAndExpire_ok [OF assms, of key e]
  have zero: "x = 0 \<Longrightarrow> tms_addAndExpire r key metric e s = Inr (0, s)"
    using assms(2) by (simp add: tms_addAndExpire_def tms_add_def)
  have push: "\<exists>s1. tms_addAndExpire r key metric e s = Inr (x, s1) \<and> tms_queue s1 = tms_queue s @ [(e, key, - x)] \<and>
        counts (ms_sample s1) (tms_queue s1) \<and> ms_getMetric s1 k = (if k = key then x else 0) + ms_getMetric s k"
    if x: "x \<noteq> 0 \<and> queue_weight (tms_queue s) + \<bar>x\<bar> < 2 ^ 63 \<and> x + ms_getMetric s key \<noteq> 0"
  proof -
    obtain t where t: "tms_addAndExpire r key metric e s = Inr (x, s\<lparr>ms_sample := t, tms_queue := tms_queue s @ [(e, key, - x)]\<rparr>)"
        "counts t (tms_queue s @ [(e, key, - x)])"
      using add(3) x m by auto
    let ?s = "s\<lparr>ms_sample := t, tms_queue := tms_queue s @ [(e, key, - x)]\<rparr>"
    have "ms_getMetric ?s k = queued_metric (tms_queue s @ [(e, key, - x)]) k" using t(2) by (intro getMetric_counts) simp
    then show ?thesis using t m by (intro exI [of _ ?s]) (simp add: queued_metric_simps)
  qed
  obtain t where t: "tms_poll_loop now (ms_sample s) (tms_queue s) = Inr (t, dropWhile (expired now) (tms_queue s))"
      "counts t (dropWhile (expired now) (tms_queue s))"
    using tms_poll_ok [OF assms(1)] by blast
  have "t = Leaf" if "\<forall>y \<in> set (tms_queue s). expired now y"
  proof -
    have "dropWhile (expired now) (tms_queue s) = []" using that by simp
    then have "is_store.represents t (queued_metric [])" using t(2) by metis
    then show ?thesis by (intro represents_Leaf) (auto elim: is_store.represents_cong simp: queued_metric_simps)
  qed
  then have "\<exists>s1. tms_poll now s = Inr s1 \<and> tms_queue s1 = dropWhile (expired now) (tms_queue s) \<and> counts (ms_sample s1) (tms_queue s1) \<and>
      ((\<forall>y \<in> set (tms_queue s). expired now y) \<longrightarrow> ms_sample s1 = Leaf)"
    using t by (intro exI [of _ "s\<lparr>ms_sample := t, tms_queue := dropWhile (expired now) (tms_queue s)\<rparr>"]) (simp add: tms_poll_def)
  then show ?thesis using m zero add(2) push by auto
qed

definition sample_metrics :: "int transient_sample" where
  "sample_metrics = \<lparr>ms_sample = Node Leaf 7 0 10 Leaf, ms_units = 4, tms_queue = [(1, 7, - 10)]\<rparr>"

lemma sample_metrics_ok: "counts (ms_sample sample_metrics) (tms_queue sample_metrics)"
  by (auto simp: sample_metrics_def is_store.represents_def set_ok_def weight_def is_ok_def sorted_items_def queued_metric_def)

theorem transient_sample_balance_witness:
  "ms_getMetric sample_metrics 7 = 10 \<and>
   (\<exists>s1. tms_addAndExpire (1 / 4) 7 2 5 sample_metrics = Inr (4, s1) \<and> ms_getMetric s1 7 = 14) \<and>
   tms_addAndExpire 0 7 (- 10) 5 sample_metrics = Inl Undefined_behaviour \<and>
   (\<exists>s1. tms_poll 3 sample_metrics = Inr s1 \<and> ms_sample s1 = Leaf)"
proof -
  have a: "sample_amount (1 / 4) (ms_units sample_metrics) 2 = Inr 4" "sample_amount 0 (ms_units sample_metrics) (- 10) = Inr (- 10)"
    by (simp_all add: sample_amount_def roll_def sample_metrics_def)
  have q: "queued_metric (tms_queue sample_metrics) 7 = 10" by (simp add: sample_metrics_def queued_metric_def)
  have w: "queue_weight (tms_queue sample_metrics) + \<bar>4\<bar> < 2 ^ 63" "queue_weight (tms_queue sample_metrics) + \<bar>- 10\<bar> < 2 ^ 63"
    by (simp_all add: sample_metrics_def)
  have old: "\<forall>y \<in> set (tms_queue sample_metrics). expired 3 y" by (simp add: sample_metrics_def)
  show ?thesis
    using transient_sample_balance [OF sample_metrics_ok a(1), of 7 7 5 3] w
      transient_sample_balance [OF sample_metrics_ok a(2), of 7 7 5 3] q old
    by auto
qed

text \<open>The set of keys above the threshold, for amounts that only grow until they expire.\<close>

definition crossing_ok :: "int \<Rightarrow> ('a::linorder, int) is_tree \<Rightarrow> (real \<times> 'a \<times> int) list \<Rightarrow> bool" where
  "crossing_ok limit c q \<longleftrightarrow> 0 < limit \<and> set_ok c \<and> (\<forall>k. map_of (items c) k \<noteq> None \<longleftrightarrow> limit \<le> queued_metric q k) \<and>
     (\<forall>(e, key, delta) \<in> set q. delta < 0)"

lemma find_crossing:
  assumes "is_ok c"
  shows "is_find c k = None \<longleftrightarrow> map_of (items c) k = None"
  using is_find_ok [OF assms, of k] by (auto split: option.splits)

lemma queued_metric_nonneg: "\<forall>(e, key, delta) \<in> set q. delta < 0 \<Longrightarrow> 0 \<le> queued_metric q k"
  by (induction q) (auto simp: queued_metric_simps)

lemma insert_crossing:
  assumes "set_ok c" and "weight (map_of (items c)) + \<bar>v\<bar> < 2 ^ 63"
  shows "\<exists>c1. insert64 c k v = Inr c1 \<and> set_ok c1 \<and> map_of (items c1) = (map_of (items c))(k \<mapsto> v)"
proof -
  have ok: "is_ok c" using assms(1) by (simp add: set_ok_def)
  obtain c1 where c1: "is_insert c k v True = Inr c1" "is_ok c1" "map_of (items c1) = (map_of (items c))(k \<mapsto> v)"
    using is_insert_ok [OF ok, of k v True] map_of_ins_items [of "items c" k v True] ok by (auto simp: is_ok_def)
  have "weight ((map_of (items c))(k \<mapsto> v)) < 2 ^ 63"
    using weight_upd [of "map_of (items c)" k v] weight_None_le [of "map_of (items c)" k] assms(2) by (simp add: finite_dom_map_of)
  then show ?thesis using c1 fitting_ok [OF c1(2)] by (simp add: insert64_def set_ok_def)
qed

lemma tts_addAndExpire_ok:
  assumes ok: "counts (ms_sample s) (tts_queue s)" "crossing_ok (tts_limit s) (tts_crossed s) (tts_queue s)"
    and x_def: "sample_amount r (ms_units s) metric = Inr x" and pos: "0 < x"
    and fits: "queue_weight (tts_queue s) + x < 2 ^ 63"
    and room: "weight (map_of (items (tts_crossed s))) + x + queued_metric (tts_queue s) key < 2 ^ 63"
  shows "\<exists>t c. tts_addAndExpire r key metric e s =
      Inr (x, s\<lparr>ms_sample := t, tts_crossed := c, tts_queue := tts_queue s @ [(e, key, - x)]\<rparr>) \<and>
      counts t (tts_queue s @ [(e, key, - x)]) \<and> crossing_ok (tts_limit s) c (tts_queue s @ [(e, key, - x)])"
proof -
  let ?q = "tts_queue s" and ?c = "tts_crossed s" and ?l = "tts_limit s"
  let ?v = "x + queued_metric ?q key"
  have c: "0 < ?l" "set_ok ?c" "\<And>k. map_of (items ?c) k \<noteq> None \<longleftrightarrow> ?l \<le> queued_metric ?q k" "\<forall>(e, key, delta) \<in> set ?q. delta < 0"
    using ok(2) by (simp_all add: crossing_ok_def)
  have v: "0 < ?v" using queued_metric_nonneg [OF c(4), of key] pos by simp
  have "queue_weight ?q + \<bar>x\<bar> < 2 ^ 63" using fits pos by simp
  note fit = push_fits [OF _ this, of _ key]
  obtain t1 t2 where t: "addMetric64 (ms_sample s) key x = Inr (t1, ?v)" "(if ?v = 0 then erase_key64 t1 key else Inr t1) = Inr t2"
      "is_store.represents t2 ((queued_metric ?q)(key := ?v))"
    using is_store.bump [of "ms_sample s" "queued_metric ?q" key x] fit ok by blast
  have "\<bar>queued_metric ?q key\<bar> \<le> queue_weight ?q" using queued_metric_weight [of "{key}" ?q] by simp
  then have old: "in_i64 (?v - x)" using fits pos unfolding in_i64_def by linarith
  define c1 where "c1 = (if ?l \<le> ?v then projr (insert64 ?c key ?v) else ?c)"
  have ins: "insert64 ?c key ?v = Inr c1 \<and> map_of (items c1) = (map_of (items ?c))(key \<mapsto> ?v) \<and> set_ok c1" if "?l \<le> ?v"
    using insert_crossing [OF c(2), of ?v key] that room v by (auto simp: c1_def)
  have run: "tts_add r key metric s = Inr (x, s\<lparr>ms_sample := t2, tts_crossed := c1\<rparr>)"
  proof (cases "?l \<le> ?v")
    case True
    have "is_find ?c key = None \<longleftrightarrow> queued_metric ?q key < ?l"
      using find_crossing [of ?c key] c(2) c(3) [of key] unfolding set_ok_def by (metis not_less)
    then show ?thesis using t pos v ins [OF True] True old by (simp add: tts_add_def x_def)
  next
    case False
    then show ?thesis using t pos v by (simp add: tts_add_def x_def Let_def c1_def)
  qed
  obtain i where i: "is_find t2 key = Some i" "n_data (fst i) = key"
    using find_counts [OF t(3), of key] v by (cases "is_find t2 key") auto
  have "crossing_ok ?l c1 (?q @ [(e, key, - x)])"
    unfolding crossing_ok_def
  proof (intro conjI allI)
    show "set_ok c1" using ins c(2) by (auto simp: c1_def)
    show "(map_of (items c1) k \<noteq> None) = (?l \<le> queued_metric (?q @ [(e, key, - x)]) k)" for k
      using ins c(3) [of k] pos by (auto simp: queued_metric_simps c1_def split: if_splits)
    show "0 < ?l" "\<forall>(e, key, delta) \<in> set (?q @ [(e, key, - x)]). delta < 0" using c(1,4) pos by auto
  qed
  moreover have "counts t2 (?q @ [(e, key, - x)])" using counts_push [OF ok(1) _ _ t(3), of e] pos fits by simp
  moreover have "tts_addAndExpire r key metric e s = Inr (x, s\<lparr>ms_sample := t2, tts_crossed := c1, tts_queue := ?q @ [(e, key, - x)]\<rparr>)"
    using run i pos by (simp add: tts_addAndExpire_def)
  ultimately show ?thesis by blast
qed

lemma tts_poll_ok:
  assumes "counts t q" and "crossing_ok limit c q"
  shows "\<exists>t1 c1. tts_poll_loop now limit t c q = Inr (t1, c1, dropWhile (expired now) q) \<and>
    counts t1 (dropWhile (expired now) q) \<and> crossing_ok limit c1 (dropWhile (expired now) q)"
  using assms
proof (induction now limit t c q rule: tts_poll_loop.induct)
  case (2 now limit t c e key delta q)
  show ?case
  proof (cases "e \<le> now")
    case True
    let ?v = "queued_metric q key"
    obtain t1 t2 where t: "addMetric64 t key delta = Inr (t1, ?v)" "(if ?v = 0 then erase_key64 t1 key else Inr t1) = Inr t2" "counts t2 q"
      using counts_pop [OF "2.prems"(1)] by blast
    have c: "0 < limit" "set_ok c" "\<And>k. map_of (items c) k \<noteq> None \<longleftrightarrow> limit \<le> queued_metric ((e, key, delta) # q) k"
        "delta < 0" "\<forall>(e, key, delta) \<in> set q. delta < 0"
      using "2.prems"(2) by (auto simp: crossing_ok_def)
    have find: "is_find c key \<noteq> None \<longleftrightarrow> limit \<le> ?v - delta"
      using find_crossing [of c key] c(2) c(3) [of key] by (simp add: queued_metric_simps set_ok_def)
    have "\<bar>?v\<bar> \<le> queue_weight q" using queued_metric_weight [of "{key}" q] by simp
    then have old: "delta \<noteq> - (2 ^ 63)" "in_i64 (?v + \<bar>delta\<bar>)"
      using "2.prems"(1) queue_weight_nonneg [of q] by (auto simp: in_i64_def)
    obtain c0 where c0: "erase_key64 c key = Inr c0" "set_ok c0" "map_of (items c0) = (map_of (items c))(key := None)"
      using erase_key_map [OF c(2), of key] by blast
    define c1 where "c1 = (if ?v < limit \<and> limit \<le> ?v + \<bar>delta\<bar> then c0 else c)"
    have step: "(if ?v < limit
        then if delta = - (2 ^ 63) \<or> \<not> in_i64 (?v + \<bar>delta\<bar>) then Inl Undefined_behaviour
             else if limit \<le> ?v + \<bar>delta\<bar>
             then bind_result (assert_that (is_find c key \<noteq> None)) (\<lambda>_. erase64 c (is_find c key)) else Inr c
        else Inr c) = Inr c1"
      using find c0(1) c(4) old by (auto simp: c1_def erase_key64_def)
    have "crossing_ok limit c1 q"
      unfolding crossing_ok_def
    proof (intro conjI allI)
      show "set_ok c1" using c0(2) c(2) by (simp add: c1_def)
      show "(map_of (items c1) k \<noteq> None) = (limit \<le> queued_metric q k)" for k
        using c0(3) c(3) [of k] c(4) by (auto simp: c1_def queued_metric_simps)
    qed (use c in auto)
    then obtain t3 c3 where r: "tts_poll_loop now limit t2 c1 q = Inr (t3, c3, dropWhile (expired now) q)"
        "counts t3 (dropWhile (expired now) q)" "crossing_ok limit c3 (dropWhile (expired now) q)"
      using "2.IH" [OF True t(3)] by blast
    have "tts_poll_loop now limit t c ((e, key, delta) # q) = tts_poll_loop now limit t2 c1 q"
      using True t(1,2) c(4) step by simp
    then show ?thesis using r True by simp
  qed (use "2.prems" in simp)
qed simp

text \<open>
  Property C29: the keys above the threshold.  In a sample with a positive limit, in balance, with its set of
  crossed keys exact, \<open>isAboveThreshold\<close> holds for exactly the keys whose metric has reached the limit.
  \<open>addAndExpire\<close> of an amount that is not negative keeps this and fails no assertion, provided that the
  amounts queued and the new one are less than \<open>2 ^ 63\<close> together, and also the metrics noted for the crossed
  keys and the new metric of the key, so that nothing leaves the range of \<open>int64_t\<close>.  \<open>poll\<close> keeps it
  too, fails no assertion and does not overflow.
\<close>

theorem threshold_sample_correct:
  assumes "counts (ms_sample s) (tts_queue s)" and "crossing_ok (tts_limit s) (tts_crossed s) (tts_queue s)"
    and "sample_amount r (ms_units s) metric = Inr x"
  shows "tts_isAboveThreshold s k = (tts_limit s \<le> ms_getMetric s k) \<and>
    (0 \<le> metric \<and> queue_weight (tts_queue s) + x < 2 ^ 63 \<and>
        weight (map_of (items (tts_crossed s))) + x + ms_getMetric s key < 2 ^ 63 \<longrightarrow>
      (\<exists>s1. tts_addAndExpire r key metric e s = Inr (x, s1) \<and> counts (ms_sample s1) (tts_queue s1) \<and>
        crossing_ok (tts_limit s1) (tts_crossed s1) (tts_queue s1) \<and> ms_getMetric s1 k = (if k = key then x else 0) + ms_getMetric s k \<and>
        tts_isAboveThreshold s1 k = (tts_limit s \<le> ms_getMetric s1 k))) \<and>
    (\<exists>s1. tts_poll now s = Inr s1 \<and> tts_queue s1 = dropWhile (expired now) (tts_queue s) \<and> counts (ms_sample s1) (tts_queue s1) \<and>
      crossing_ok (tts_limit s1) (tts_crossed s1) (tts_queue s1) \<and> tts_isAboveThreshold s1 k = (tts_limit s \<le> ms_getMetric s1 k))"
proof -
  have above: "tts_isAboveThreshold s1 k = (tts_limit s1 \<le> queued_metric (tts_queue s1) k)"
    if "crossing_ok (tts_limit s1) (tts_crossed s1) (tts_queue s1)" for s1 k
  proof -
    have "set_ok (tts_crossed s1)" "map_of (items (tts_crossed s1)) k \<noteq> None \<longleftrightarrow> tts_limit s1 \<le> queued_metric (tts_queue s1) k"
      using that unfolding crossing_ok_def by blast+
    moreover have "tts_isAboveThreshold s1 k \<longleftrightarrow> is_find (tts_crossed s1) k \<noteq> None"
      by (simp add: tts_isAboveThreshold_def split: option.split)
    ultimately show ?thesis using find_crossing by (metis set_ok_def)
  qed
  have m: "ms_getMetric s k = queued_metric (tts_queue s) k" for k using assms(1) by (simp add: getMetric_counts)
  have add: "\<exists>s1. tts_addAndExpire r key metric e s = Inr (x, s1) \<and> counts (ms_sample s1) (tts_queue s1) \<and>
        crossing_ok (tts_limit s1) (tts_crossed s1) (tts_queue s1) \<and> ms_getMetric s1 k = (if k = key then x else 0) + ms_getMetric s k \<and>
        tts_isAboveThreshold s1 k = (tts_limit s \<le> ms_getMetric s1 k)"
    if nonneg: "0 \<le> metric" and fits: "queue_weight (tts_queue s) + x < 2 ^ 63"
      "weight (map_of (items (tts_crossed s))) + x + ms_getMetric s key < 2 ^ 63"
  proof (cases "x = 0")
    case True
    then have "tts_addAndExpire r key metric e s = Inr (x, s)" using assms(3) by (simp add: tts_addAndExpire_def tts_add_def)
    then show ?thesis using assms(1,2) above [OF assms(2)] m True by simp
  next
    case False
    then have pos: "0 < x" using nonneg assms(3) by (auto simp: sample_amount_def Let_def split: if_splits)
    obtain t c where t: "tts_addAndExpire r key metric e s =
        Inr (x, s\<lparr>ms_sample := t, tts_crossed := c, tts_queue := tts_queue s @ [(e, key, - x)]\<rparr>)"
        "counts t (tts_queue s @ [(e, key, - x)])" "crossing_ok (tts_limit s) c (tts_queue s @ [(e, key, - x)])"
      using tts_addAndExpire_ok [OF assms pos fits(1) fits(2) [unfolded m]] by blast
    let ?s = "s\<lparr>ms_sample := t, tts_crossed := c, tts_queue := tts_queue s @ [(e, key, - x)]\<rparr>"
    have "ms_getMetric ?s k = queued_metric (tts_queue s @ [(e, key, - x)]) k" using t(2) by (intro getMetric_counts) simp
    then show ?thesis using t above [of ?s k] m by (intro exI [of _ ?s]) (simp add: queued_metric_simps)
  qed
  obtain t c where t: "tts_poll_loop now (tts_limit s) (ms_sample s) (tts_crossed s) (tts_queue s) = Inr (t, c, dropWhile (expired now) (tts_queue s))"
      "counts t (dropWhile (expired now) (tts_queue s))" "crossing_ok (tts_limit s) c (dropWhile (expired now) (tts_queue s))"
    using tts_poll_ok [OF assms(1,2)] by blast
  let ?s = "s\<lparr>ms_sample := t, tts_crossed := c, tts_queue := dropWhile (expired now) (tts_queue s)\<rparr>"
  have "ms_getMetric ?s k = queued_metric (dropWhile (expired now) (tts_queue s)) k" using t(2) by (intro getMetric_counts) simp
  then have "\<exists>s1. tts_poll now s = Inr s1 \<and> tts_queue s1 = dropWhile (expired now) (tts_queue s) \<and> counts (ms_sample s1) (tts_queue s1) \<and>
      crossing_ok (tts_limit s1) (tts_crossed s1) (tts_queue s1) \<and> tts_isAboveThreshold s1 k = (tts_limit s \<le> ms_getMetric s1 k)"
    using t above [of ?s k] by (intro exI [of _ ?s]) (simp add: tts_poll_def)
  then show ?thesis using above [OF assms(2), of k] m add by simp
qed

definition sample_thresholds :: "int threshold_sample" where
  "sample_thresholds = \<lparr>ms_sample = Node Leaf 7 0 10 Leaf, ms_units = 4, tts_queue = [(1, 7, - 10)], tts_crossed = Leaf, tts_limit = 12\<rparr>"

theorem threshold_sample_correct_witness:
  "\<not> tts_isAboveThreshold sample_thresholds 7 \<and>
   (\<exists>s1. tts_addAndExpire 0 7 5 9 sample_thresholds = Inr (5, s1) \<and> ms_getMetric s1 7 = 15 \<and> tts_isAboveThreshold s1 7) \<and>
   (\<exists>s1. tts_poll 3 sample_thresholds = Inr s1 \<and> tts_queue s1 = [])"
proof -
  have "counts (ms_sample sample_thresholds) (tts_queue sample_thresholds)"
    by (auto simp: sample_thresholds_def is_store.represents_def set_ok_def weight_def is_ok_def sorted_items_def queued_metric_def)
  moreover have "crossing_ok (tts_limit sample_thresholds) (tts_crossed sample_thresholds) (tts_queue sample_thresholds)"
    by (auto simp: sample_thresholds_def crossing_ok_def set_ok_def weight_def is_ok_def sorted_items_def queued_metric_def)
  moreover have "sample_amount 0 (ms_units sample_thresholds) 5 = Inr 5" by (simp add: sample_amount_def sample_thresholds_def)
  moreover have "ms_getMetric sample_thresholds 7 = 10" "tts_limit sample_thresholds = 12" "tts_queue sample_thresholds = [(1, 7, - 10)]"
    by (simp_all add: sample_thresholds_def ms_getMetric_def is_find_def getMetric_def)
  moreover have "queue_weight (tts_queue sample_thresholds) + 5 < 2 ^ 63"
      "weight (map_of (items (tts_crossed sample_thresholds))) + 5 + ms_getMetric sample_thresholds 7 < 2 ^ 63"
    by (simp_all add: sample_thresholds_def weight_def ms_getMetric_def is_find_def getMetric_def)
  ultimately show ?thesis using threshold_sample_correct [of sample_thresholds 0 5 5 7 7 9 3] by auto
qed

end
