(* ===== verification/Arena_Memory.thy ===== *)
theory Arena_Memory
  imports Archives
begin

text \<open>
  Arenas (\<open>Arena\<close> and \<open>ArenaBlock\<close> of \<open>src/flow/Arena.h\<close>, with the \<open>Reference\<close> of \<open>src/flow/FastRef.h\<close> they are
  held by).  Blocks live in a heap by address and count their references.  The chain of \<open>ArenaBlockRef\<close>s
  inside a block is a list, newest first, of the offset where each lies and the block it refers to;
  \<open>nextBlockOffset\<close> is the offset of the first.  Memory inside a block is a pair of block and offset.
  Writing a reference outside its block is undefined behaviour, as is arithmetic beyond \<open>int\<close>.
\<close>

subsection \<open>Blocks\<close>

definition NOT_TINY :: int where "NOT_TINY = 255"
definition TINY_HEADER :: int where "TINY_HEADER = 6"
definition SMALL :: int where "SMALL = 64"
definition LARGE :: int where "LARGE = 8193"

definition sizeof_ArenaBlockRef :: int where
  "sizeof_ArenaBlockRef = 16"

record arena_block =
  ab_rc :: int
  ab_tinySize :: int
  ab_tinyUsed :: int
  ab_bigSize :: int
  ab_bigUsed :: int
  ab_links :: "(int \<times> nat) list"

record arena_heap =
  ah_blocks :: "nat \<Rightarrow> arena_block option"
  ah_fresh :: nat
  ah_huge :: int

definition ab_isTiny :: "arena_block \<Rightarrow> bool" where
  "ab_isTiny b \<longleftrightarrow> ab_tinySize b \<noteq> NOT_TINY"

definition ab_size :: "arena_block \<Rightarrow> int" where
  "ab_size b = (if ab_isTiny b then ab_tinySize b else ab_bigSize b)"

definition ab_used :: "arena_block \<Rightarrow> int" where
  "ab_used b = (if ab_isTiny b then ab_tinyUsed b else ab_bigUsed b)"

definition ab_unused :: "arena_block \<Rightarrow> int" where
  "ab_unused b = (if ab_isTiny b then ab_tinySize b - ab_tinyUsed b else ab_bigSize b - ab_bigUsed b)"

definition get_block :: "nat \<Rightarrow> arena_heap \<Rightarrow> arena_block result" where
  "get_block p h = (case ah_blocks h p of None \<Rightarrow> Inl Undefined_behaviour | Some b \<Rightarrow> Inr b)"

definition put_block :: "nat \<Rightarrow> arena_block \<Rightarrow> arena_heap \<Rightarrow> arena_heap" where
  "put_block p b h = h\<lparr>ah_blocks := (ah_blocks h)(p \<mapsto> b)\<rparr>"

text \<open>\<open>addUsed\<close>: 8 bits for tiny blocks, 32 bits for others.\<close>

definition ab_addUsed :: "int \<Rightarrow> arena_block \<Rightarrow> int \<times> arena_block" where
  "ab_addUsed bytes b =
     (if ab_isTiny b then (ab_tinyUsed b, b\<lparr>ab_tinyUsed := (ab_tinyUsed b + bytes) mod 2 ^ 8\<rparr>)
      else (ab_bigUsed b, b\<lparr>ab_bigUsed := (ab_bigUsed b + bytes) mod 2 ^ 32\<rparr>))"

definition ab_makeReference :: "nat \<Rightarrow> nat \<Rightarrow> arena_heap \<Rightarrow> arena_heap result" where
  "ab_makeReference self next h =
     bind_result (get_block self h) (\<lambda>b.
       if ab_isTiny b \<or> ab_bigUsed b + sizeof_ArenaBlockRef > ab_bigSize b then Inl Undefined_behaviour
       else Inr (put_block self (b\<lparr>ab_links := (ab_bigUsed b, next) # ab_links b,
                                   ab_bigUsed := (ab_bigUsed b + sizeof_ArenaBlockRef) mod 2 ^ 32\<rparr>) h))"

definition ab_addref :: "nat \<Rightarrow> arena_heap \<Rightarrow> arena_heap result" where
  "ab_addref p h = bind_result (get_block p h) (\<lambda>b. Inr (put_block p (b\<lparr>ab_rc := ab_rc b + 1\<rparr>) h))"

subsection \<open>Creating blocks\<close>

definition tiny_size :: "int \<Rightarrow> int" where
  "tiny_size dataSize = (if dataSize \<le> 16 - TINY_HEADER then 16 else if dataSize \<le> 32 - TINY_HEADER then 32 else 64)"

definition big_size :: "int \<Rightarrow> int" where
  "big_size reqSize =
     (if reqSize \<le> 128 then 128 else if reqSize \<le> 256 then 256 else if reqSize \<le> 512 then 512
      else if reqSize \<le> 1024 then 1024 else if reqSize \<le> 2048 then 2048 else if reqSize \<le> 4096 then 4096 else 8192)"

definition new_block :: "arena_block \<Rightarrow> arena_heap \<Rightarrow> nat \<times> arena_heap" where
  "new_block b h = (ah_fresh h, h\<lparr>ah_blocks := (ah_blocks h)(ah_fresh h \<mapsto> b), ah_fresh := Suc (ah_fresh h)\<rparr>)"

definition big_block :: "int \<Rightarrow> arena_block" where
  "big_block n = \<lparr>ab_rc = 1, ab_tinySize = NOT_TINY, ab_tinyUsed = NOT_TINY, ab_bigSize = n,
     ab_bigUsed = sizeof_ArenaBlock, ab_links = []\<rparr>"

definition tiny_block :: "int \<Rightarrow> arena_block" where
  "tiny_block n = \<lparr>ab_rc = 1, ab_tinySize = n, ab_tinyUsed = TINY_HEADER, ab_bigSize = 0, ab_bigUsed = 0, ab_links = []\<rparr>"

text \<open>
  The size asked for: each block is larger than the one before it, up to a limit.  A size that does not fit \<open>int\<close>
  counts as a fault: the code would go on with a negative size and return a block that is too small.
\<close>

definition arena_reqSize :: "int \<Rightarrow> nat option \<Rightarrow> arena_heap \<Rightarrow> int result" where
  "arena_reqSize dataSize next h =
     (let reqSize = dataSize + sizeof_ArenaBlock + (if next \<noteq> None then sizeof_ArenaBlockRef else 0)
      in if reqSize > INT_MAX then Inl Undefined_behaviour
         else if reqSize < LARGE
         then bind_result (case next of None \<Rightarrow> Inr 0 | Some p \<Rightarrow> bind_result (get_block p h) (\<lambda>b. Inr (ab_size b))) (\<lambda>prevSize.
                if prevSize * 2 > INT_MAX then Inl Undefined_behaviour
                else Inr (max reqSize (min (prevSize * 2) (max (LARGE - 1) (reqSize * 4)))))
         else Inr reqSize)"

text \<open>The block, what \<open>next\<close> points to afterwards, and the heap.\<close>

definition arena_create :: "int \<Rightarrow> nat option \<Rightarrow> arena_heap \<Rightarrow> (nat \<times> nat option \<times> arena_heap) result" where
  "arena_create dataSize next h =
     (if dataSize \<le> SMALL - TINY_HEADER \<and> next = None
      then let (b, h1) = new_block (tiny_block (tiny_size dataSize)) h in Inr (b, Some b, h1)
      else bind_result (arena_reqSize dataSize next h) (\<lambda>reqSize.
        let (b, h1) = new_block (big_block (if reqSize < LARGE then big_size reqSize else reqSize)) h;
            h2 = (if reqSize < LARGE then h1 else h1\<lparr>ah_huge := ah_huge h1 + reqSize\<rparr>)
        in case next of
             None \<Rightarrow> Inr (b, Some b, h2)
           | Some p \<Rightarrow>
               bind_result (get_block p h2) (\<lambda>n.
                 if reqSize \<ge> LARGE \<and> \<not> ab_isTiny n \<and> ab_unused n \<ge> reqSize - dataSize
                 then bind_result (ab_makeReference p b h2) (\<lambda>h3. Inr (b, next, h3))
                 else bind_result (ab_makeReference b p h2) (\<lambda>h3. Inr (b, Some b, h3)))))"

definition arena_dependOn :: "nat option \<Rightarrow> nat \<Rightarrow> arena_heap \<Rightarrow> (nat option \<times> arena_heap) result" where
  "arena_dependOn self other h =
     bind_result (ab_addref other h) (\<lambda>h1.
     bind_result (case self of None \<Rightarrow> Inr True
                  | Some p \<Rightarrow> bind_result (get_block p h1) (\<lambda>b. Inr (ab_isTiny b \<or> ab_unused b < sizeof_ArenaBlockRef))) (\<lambda>fresh.
       if fresh
       then bind_result (arena_create SMALL self h1) (\<lambda>(b, self1, h2).
            bind_result (ab_makeReference b other h2) (\<lambda>h3. Inr (self1, h3)))
       else bind_result (ab_makeReference (the self) other h1) (\<lambda>h2. Inr (self, h2))))"

definition arena_allocate :: "nat option \<Rightarrow> int \<Rightarrow> arena_heap \<Rightarrow> ((nat \<times> int) \<times> nat option \<times> arena_heap) result" where
  "arena_allocate self bytes h =
     bind_result (case self of None \<Rightarrow> Inr True | Some p \<Rightarrow> bind_result (get_block p h) (\<lambda>b. Inr (ab_unused b < bytes))) (\<lambda>fresh.
     bind_result (if fresh then arena_create bytes self h else Inr (the self, self, h)) (\<lambda>(b, self1, h1).
     bind_result (get_block b h1) (\<lambda>blk.
       let (off, blk1) = ab_addUsed bytes blk in Inr ((b, off), self1, put_block b blk1 h1))))"

definition arena_hasFree :: "nat option \<Rightarrow> int \<Rightarrow> nat \<times> int \<Rightarrow> arena_heap \<Rightarrow> bool result" where
  "arena_hasFree self n address h =
     (case self of
        None \<Rightarrow> Inr False
      | Some p \<Rightarrow> bind_result (get_block p h) (\<lambda>b. Inr (ab_unused b \<ge> n \<and> (p, ab_used b) = address)))"

text \<open>\<open>totalSize\<close> visits the blocks a block refers to; the blocks still to visit are kept in a list.\<close>

partial_function (option) arena_totalSize_loop :: "int \<Rightarrow> nat list \<Rightarrow> arena_heap \<Rightarrow> int result option" where
  "arena_totalSize_loop s todo h =
     (case todo of
        [] \<Rightarrow> Some (Inr s)
      | p # ps \<Rightarrow>
          (case get_block p h of
             Inl e \<Rightarrow> Some (Inl e)
           | Inr b \<Rightarrow> arena_totalSize_loop (s + ab_size b) ((if ab_isTiny b then [] else map snd (ab_links b)) @ ps) h))"

definition arena_getSize :: "nat option \<Rightarrow> arena_heap \<Rightarrow> int result option" where
  "arena_getSize self h = (case self of None \<Rightarrow> Some (Inr 0) | Some p \<Rightarrow> arena_totalSize_loop 0 [p] h)"

subsection \<open>Destroying blocks\<close>

text \<open>The references of a block are dropped, and blocks without references are pushed on the stack, whose top is
  the head of the list.\<close>

fun release_links :: "(int \<times> nat) list \<Rightarrow> arena_heap \<Rightarrow> nat list \<Rightarrow> (arena_heap \<times> nat list) result" where
  "release_links [] h stack = Inr (h, stack)"
| "release_links ((off, n) # ls) h stack =
     bind_result (get_block n h) (\<lambda>b.
       let h1 = put_block n (b\<lparr>ab_rc := ab_rc b - 1\<rparr>) h
       in release_links ls h1 (if ab_rc b - 1 = 0 then n # stack else stack))"

definition ab_destroyLeaf :: "nat \<Rightarrow> arena_heap \<Rightarrow> arena_heap result" where
  "ab_destroyLeaf p h =
     bind_result (get_block p h) (\<lambda>b.
       let h1 = h\<lparr>ah_blocks := (ah_blocks h)(p := None)\<rparr>
       in Inr (if \<not> ab_isTiny b \<and> ab_bigSize b > 8192 then h1\<lparr>ah_huge := ah_huge h1 - ab_bigSize b\<rparr> else h1))"

partial_function (option) arena_destroy_loop :: "nat list \<Rightarrow> arena_heap \<Rightarrow> arena_heap result option" where
  "arena_destroy_loop stack h =
     (case stack of
        [] \<Rightarrow> Some (Inr h)
      | p # ps \<Rightarrow>
          (case bind_result (get_block p h) (\<lambda>b.
                  bind_result (if ab_isTiny b then Inr (h, ps) else release_links (ab_links b) h ps) (\<lambda>(h1, st).
                  bind_result (ab_destroyLeaf p h1) (\<lambda>h2. Inr (h2, st)))) of
             Inl e \<Rightarrow> Some (Inl e)
           | Inr (h2, st) \<Rightarrow> arena_destroy_loop st h2))"

definition arena_destroy :: "nat \<Rightarrow> arena_heap \<Rightarrow> arena_heap result option" where
  "arena_destroy p = arena_destroy_loop [p]"

definition ab_delref :: "nat \<Rightarrow> arena_heap \<Rightarrow> arena_heap result option" where
  "ab_delref p h =
     (case get_block p h of
        Inl e \<Rightarrow> Some (Inl e)
      | Inr b \<Rightarrow>
          let h1 = put_block p (b\<lparr>ab_rc := ab_rc b - 1\<rparr>) h
          in if ab_rc b - 1 = 0 then arena_destroy p h1 else Some (Inr h1))"

subsection \<open>References and arenas\<close>

definition ref_copy :: "nat option \<Rightarrow> arena_heap \<Rightarrow> (nat option \<times> arena_heap) result" where
  "ref_copy r h = (case r of None \<Rightarrow> Inr (None, h) | Some p \<Rightarrow> bind_result (ab_addref p h) (\<lambda>h1. Inr (r, h1)))"

definition ref_destroy :: "nat option \<Rightarrow> arena_heap \<Rightarrow> arena_heap result option" where
  "ref_destroy r h = (case r of None \<Rightarrow> Some (Inr h) | Some p \<Rightarrow> ab_delref p h)"

text \<open>Copy assignment: what \<open>this\<close> points to afterwards, and the heap.\<close>

definition ref_assign :: "nat option \<Rightarrow> nat option \<Rightarrow> arena_heap \<Rightarrow> (nat option \<times> arena_heap) result option" where
  "ref_assign this r h =
     (if this \<noteq> r
      then case ref_copy r h of
             Inl e \<Rightarrow> Some (Inl e)
           | Inr (_, h1) \<Rightarrow> map_option (\<lambda>x. bind_result x (\<lambda>h2. Inr (r, h2))) (ref_destroy this h1)
      else Some (Inr (this, h)))"

text \<open>Move assignment: what \<open>this\<close> and \<open>r\<close> point to afterwards, and the heap.\<close>

definition ref_move_assign ::
  "nat option \<Rightarrow> nat option \<Rightarrow> arena_heap \<Rightarrow> (nat option \<times> nat option \<times> arena_heap) result option" where
  "ref_move_assign this r h =
     (if this \<noteq> r
      then map_option (\<lambda>x. bind_result x (\<lambda>h1. Inr (r, None, h1))) (ref_destroy this h)
      else Some (Inr (this, r, h)))"

text \<open>Programs hold arenas in variables; a variable that was destroyed or moved from is empty.\<close>

record arena_world =
  aw_heap :: arena_heap
  aw_vars :: "nat option list"

datatype arena_op =
    A_new
  | A_reserve int
  | A_copy nat
  | A_move nat
  | A_assign nat nat
  | A_move_assign nat nat
  | A_dependsOn nat nat
  | A_alloc nat int
  | A_destroy nat

definition arena_reserve :: "int \<Rightarrow> arena_heap \<Rightarrow> (nat option \<times> arena_heap) result" where
  "arena_reserve reservedSize h =
     bind_result (assert_that (reservedSize < INT_MAX)) (\<lambda>_.
       if reservedSize \<noteq> 0 then bind_result (arena_create reservedSize None h) (\<lambda>(b, impl, h1). Inr (impl, h1)) else Inr (None, h))"

definition arena_new :: "int \<Rightarrow> nat option \<Rightarrow> arena_heap \<Rightarrow> ((nat \<times> int) \<times> nat option \<times> arena_heap) result" where
  "arena_new n impl h = bind_result (assert_that (n < INT_MAX)) (\<lambda>_. arena_allocate impl n h)"

definition arena_dependsOn :: "nat option \<Rightarrow> nat option \<Rightarrow> arena_heap \<Rightarrow> (nat option \<times> arena_heap) result" where
  "arena_dependsOn impl p h = (case p of None \<Rightarrow> Inr (impl, h) | Some q \<Rightarrow> arena_dependOn impl q h)"

fun arena_do :: "arena_op \<Rightarrow> arena_world \<Rightarrow> arena_world result option" where
  "arena_do A_new w = Some (Inr (w\<lparr>aw_vars := aw_vars w @ [None]\<rparr>))"
| "arena_do (A_reserve n) w =
     Some (bind_result (arena_reserve n (aw_heap w)) (\<lambda>(r, h). Inr \<lparr>aw_heap = h, aw_vars = aw_vars w @ [r]\<rparr>))"
| "arena_do (A_copy i) w =
     Some (bind_result (ref_copy (aw_vars w ! i) (aw_heap w)) (\<lambda>(r, h). Inr \<lparr>aw_heap = h, aw_vars = aw_vars w @ [r]\<rparr>))"
| "arena_do (A_move i) w = Some (Inr (w\<lparr>aw_vars := (aw_vars w)[i := None] @ [aw_vars w ! i]\<rparr>))"
| "arena_do (A_assign i j) w =
     map_option (\<lambda>x. bind_result x (\<lambda>(r, h). Inr \<lparr>aw_heap = h, aw_vars = (aw_vars w)[i := r]\<rparr>))
       (ref_assign (aw_vars w ! i) (aw_vars w ! j) (aw_heap w))"
| "arena_do (A_move_assign i j) w =
     map_option (\<lambda>x. bind_result x (\<lambda>(r, r', h). Inr \<lparr>aw_heap = h, aw_vars = (aw_vars w)[j := r', i := r]\<rparr>))
       (ref_move_assign (aw_vars w ! i) (aw_vars w ! j) (aw_heap w))"
| "arena_do (A_dependsOn i j) w =
     Some (bind_result (arena_dependsOn (aw_vars w ! i) (aw_vars w ! j) (aw_heap w)) (\<lambda>(r, h).
       Inr \<lparr>aw_heap = h, aw_vars = (aw_vars w)[i := r]\<rparr>))"
| "arena_do (A_alloc i n) w =
     Some (bind_result (arena_new n (aw_vars w ! i) (aw_heap w)) (\<lambda>(p, r, h). Inr \<lparr>aw_heap = h, aw_vars = (aw_vars w)[i := r]\<rparr>))"
| "arena_do (A_destroy i) w =
     map_option (\<lambda>x. bind_result x (\<lambda>h. Inr \<lparr>aw_heap = h, aw_vars = (aw_vars w)[i := None]\<rparr>))
       (ref_destroy (aw_vars w ! i) (aw_heap w))"

subsection \<open>Counting references\<close>

text \<open>
  The references to a block: those \<open>F\<close> counts outside the heap, and those in blocks.  A block
  is as the code leaves it; only blocks waiting to be destroyed have no references.
\<close>

definition links_to :: "arena_block \<Rightarrow> nat \<Rightarrow> nat" where
  "links_to b n = count_list (map snd (ab_links b)) n"

definition indeg :: "(nat \<Rightarrow> arena_block option) \<Rightarrow> nat \<Rightarrow> nat" where
  "indeg B n = (\<Sum>m \<in> dom B. links_to (the (B m)) n)"

definition block_ok :: "arena_block \<Rightarrow> bool" where
  "block_ok b \<longleftrightarrow>
     (if ab_isTiny b then TINY_HEADER \<le> ab_tinyUsed b \<and> ab_tinyUsed b \<le> ab_tinySize b \<and> ab_tinySize b \<le> 64 \<and> ab_links b = []
      else sizeof_ArenaBlock \<le> ab_bigUsed b \<and> ab_bigUsed b \<le> ab_bigSize b \<and> ab_bigSize b * 2 \<le> INT_MAX \<and>
        (\<forall>(off, n) \<in> set (ab_links b). sizeof_ArenaBlock \<le> off \<and> off + sizeof_ArenaBlockRef \<le> ab_bigUsed b))"

definition refs :: "(nat \<Rightarrow> nat) \<Rightarrow> arena_heap \<Rightarrow> nat \<Rightarrow> nat" where
  "refs F h p = F p + indeg (ah_blocks h) p"

definition aheap_ok :: "(nat \<Rightarrow> nat) \<Rightarrow> arena_heap \<Rightarrow> nat list \<Rightarrow> bool" where
  "aheap_ok F h stack \<longleftrightarrow>
     (\<forall>p \<ge> ah_fresh h. ah_blocks h p = None) \<and>
     (\<forall>p b. ah_blocks h p = Some b \<longrightarrow> block_ok b \<and> ab_rc b = int (refs F h p)) \<and>
     (\<forall>p. ah_blocks h p = None \<longrightarrow> refs F h p = 0) \<and>
     (\<forall>p. p \<in> set stack \<longleftrightarrow> ah_blocks h p \<noteq> None \<and> refs F h p = 0) \<and> distinct stack"

lemma aheap_finite: "aheap_ok F h st \<Longrightarrow> finite (dom (ah_blocks h))"
proof -
  assume ok: "aheap_ok F h st"
  have "dom (ah_blocks h) \<subseteq> {..<ah_fresh h}"
  proof
    fix p assume "p \<in> dom (ah_blocks h)"
    then show "p \<in> {..<ah_fresh h}" using ok by (cases "p < ah_fresh h") (auto simp: aheap_ok_def)
  qed
  then show ?thesis using finite_subset by blast
qed

lemma indeg_remove:
  assumes "finite (dom B)" and "B m = Some b"
  shows "indeg B n = links_to b n + indeg (B(m := None)) n"
proof -
  have "m \<in> dom B" using assms(2) by blast
  then have "indeg B n = links_to (the (B m)) n + (\<Sum>x \<in> dom B - {m}. links_to (the (B x)) n)"
    unfolding indeg_def using assms(1) by (simp add: sum.remove)
  moreover have "(\<Sum>x \<in> dom B - {m}. links_to (the (B x)) n) = indeg (B(m := None)) n"
    unfolding indeg_def by (rule sum.cong) auto
  ultimately show ?thesis using assms(2) by simp
qed

lemma indeg_add:
  assumes "finite (dom B)" and "B m = None"
  shows "indeg (B(m \<mapsto> b)) n = links_to b n + indeg B n"
proof -
  have "finite (dom (B(m \<mapsto> b)))" using assms(1) by simp
  moreover have "(B(m \<mapsto> b))(m := None) = B" using assms(2) by (simp add: fun_eq_iff)
  ultimately show ?thesis using indeg_remove [of "B(m \<mapsto> b)" m b n] by (metis fun_upd_same)
qed

lemma indeg_upd:
  assumes "finite (dom B)" and "B m = Some b"
  shows "indeg (B(m \<mapsto> b')) n + links_to b n = indeg B n + links_to b' n"
proof -
  have "finite (dom (B(m \<mapsto> b')))" using assms(1) by simp
  then have "indeg (B(m \<mapsto> b')) n = links_to b' n + indeg (B(m := None)) n"
    using indeg_remove [of "B(m \<mapsto> b')" m b' n] by simp
  then show ?thesis using indeg_remove [OF assms, of n] by simp
qed

lemma indeg_same:
  assumes "finite (dom B)" and "B m = Some b" and "ab_links b' = ab_links b"
  shows "indeg (B(m \<mapsto> b')) = indeg B"
  using indeg_upd [OF assms(1,2), of b'] assms(3) by (simp add: links_to_def fun_eq_iff)

text \<open>How operations change blocks: they grow, and new references lie where nothing was.\<close>

definition extends :: "arena_block \<Rightarrow> arena_block \<Rightarrow> bool" where
  "extends b b' \<longleftrightarrow> ab_isTiny b' = ab_isTiny b \<and> ab_size b' = ab_size b \<and> ab_used b \<le> ab_used b' \<and>
     (\<exists>ls. ab_links b' = ls @ ab_links b \<and> (\<forall>(off, n) \<in> set ls. ab_used b \<le> off))"

definition heap_ext :: "arena_heap \<Rightarrow> arena_heap \<Rightarrow> bool" where
  "heap_ext h h' \<longleftrightarrow> (\<forall>p b. ah_blocks h p = Some b \<longrightarrow> (\<exists>b'. ah_blocks h' p = Some b' \<and> extends b b'))"

definition heap_sub :: "arena_heap \<Rightarrow> arena_heap \<Rightarrow> bool" where
  "heap_sub h h' \<longleftrightarrow> (\<forall>p b'. ah_blocks h' p = Some b' \<longrightarrow> (\<exists>b. ah_blocks h p = Some b \<and> b' = b\<lparr>ab_rc := ab_rc b'\<rparr>))"

lemma extends_refl [simp]: "extends b b"
  by (simp add: extends_def)

lemma extends_rc [simp]: "extends b (b\<lparr>ab_rc := n\<rparr>)"
  by (simp add: extends_def ab_isTiny_def ab_size_def ab_used_def)

lemma extends_trans:
  assumes "extends a b" and "extends b c"
  shows "extends a c"
proof -
  obtain ls ms where "ab_links b = ls @ ab_links a" "\<forall>(off, n) \<in> set ls. ab_used a \<le> off" "ab_links c = ms @ ab_links b"
      "\<forall>(off, n) \<in> set ms. ab_used b \<le> off" using assms by (auto simp: extends_def)
  moreover have "ab_used a \<le> ab_used b" using assms(1) by (simp add: extends_def)
  ultimately have "ab_links c = (ms @ ls) @ ab_links a \<and> (\<forall>(off, n) \<in> set (ms @ ls). ab_used a \<le> off)" by fastforce
  then show ?thesis using assms unfolding extends_def by (metis order_trans)
qed

lemma heap_ext_refl [simp]: "heap_ext h h"
  by (simp add: heap_ext_def)

lemma heap_ext_trans: "heap_ext h h1 \<Longrightarrow> heap_ext h1 h2 \<Longrightarrow> heap_ext h h2"
  unfolding heap_ext_def by (meson extends_trans)

lemma heap_sub_refl [simp]: "heap_sub h h"
  by (simp add: heap_sub_def)

lemma heap_ext_put:
  "ah_blocks h p = Some b \<Longrightarrow> extends b b' \<Longrightarrow> heap_ext h (put_block p b' h)"
  by (simp add: heap_ext_def put_block_def)

lemma heap_block: "aheap_ok F h st \<Longrightarrow> ah_blocks h p = Some b \<Longrightarrow> block_ok b \<and> ab_rc b = int (refs F h p)"
  by (simp add: aheap_ok_def)

lemma heap_present: "aheap_ok F h st \<Longrightarrow> 0 < refs F h p \<Longrightarrow> \<exists>b. ah_blocks h p = Some b"
  by (cases "ah_blocks h p") (auto simp: aheap_ok_def)

lemma heap_external: "aheap_ok F h st \<Longrightarrow> 0 < F p \<Longrightarrow> \<exists>b. ah_blocks h p = Some b"
  by (rule heap_present) (auto simp: refs_def)

lemma heap_fresh:
  assumes "aheap_ok F h st"
  shows "ah_blocks h (ah_fresh h) = None" and "F (ah_fresh h) = 0" and "indeg (ah_blocks h) (ah_fresh h) = 0"
  using assms by (auto simp: aheap_ok_def refs_def)

lemma heap_okI:
  assumes "\<And>p. ah_fresh h \<le> p \<Longrightarrow> ah_blocks h p = None"
    and "\<And>p b. ah_blocks h p = Some b \<Longrightarrow> block_ok b \<and> ab_rc b = int (refs F h p) \<and> 0 < refs F h p"
    and "\<And>p. ah_blocks h p = None \<Longrightarrow> refs F h p = 0"
  shows "aheap_ok F h []"
  using assms unfolding aheap_ok_def by fastforce

lemma heap_nil:
  assumes "aheap_ok F h []"
  shows "ah_fresh h \<le> p \<Longrightarrow> ah_blocks h p = None"
    and "ah_blocks h p = Some b \<Longrightarrow> block_ok b \<and> ab_rc b = int (refs F h p) \<and> 0 < refs F h p"
    and "ah_blocks h p = None \<Longrightarrow> refs F h p = 0"
  using assms unfolding aheap_ok_def by fastforce+

text \<open>Replacing a block without changing what refers to what, except for references from outside.\<close>

lemma put_block_ok:
  assumes ok: "aheap_ok F h []" and b: "ah_blocks h p = Some b" and b': "block_ok b'" "ab_links b' = ab_links b"
    and rc: "ab_rc b' = ab_rc b + int d"
  shows "aheap_ok (F(p := F p + d)) (put_block p b' h) []"
proof (rule heap_okI)
  note n = heap_nil [OF ok]
  have same: "refs (F(p := F p + d)) (put_block p b' h) q = refs F h q + (if q = p then d else 0)" for q
    using indeg_same [OF aheap_finite [OF ok] b b'(2)] by (simp add: put_block_def refs_def)
  fix q
  show "ah_blocks (put_block p b' h) q = None" if "ah_fresh (put_block p b' h) \<le> q"
    using n(1) [of q] n(1) [of p] that b by (auto simp: put_block_def)
  show "refs (F(p := F p + d)) (put_block p b' h) q = 0" if "ah_blocks (put_block p b' h) q = None"
    using n(3) [of q] that same [of q] by (auto simp: put_block_def split: if_splits)
  show "block_ok c \<and> ab_rc c = int (refs (F(p := F p + d)) (put_block p b' h) q) \<and> 0 < refs (F(p := F p + d)) (put_block p b' h) q"
    if "ah_blocks (put_block p b' h) q = Some c" for c
    using that n(2) [of q c] n(2) [OF b] b' rc same [of q] by (cases "q = p") (auto simp: put_block_def)
qed

lemma addref_ok:
  assumes ok: "aheap_ok F h []" and b: "ah_blocks h p = Some b"
  shows "\<exists>h'. ab_addref p h = Inr h' \<and> aheap_ok (F(p := F p + 1)) h' [] \<and> heap_ext h h' \<and>
    h' = put_block p (b\<lparr>ab_rc := ab_rc b + 1\<rparr>) h"
proof -
  have "block_ok (b\<lparr>ab_rc := ab_rc b + 1\<rparr>)"
    using heap_block [OF ok b] by (simp add: block_ok_def ab_isTiny_def)
  then show ?thesis
    using put_block_ok [OF ok b, of "b\<lparr>ab_rc := ab_rc b + 1\<rparr>" 1] b heap_ext_put [OF b, of "b\<lparr>ab_rc := ab_rc b + 1\<rparr>"]
    by (simp add: ab_addref_def get_block_def)
qed

lemma new_block_ok:
  assumes ok: "aheap_ok F h []" and b: "block_ok b" "ab_links b = []" "ab_rc b = 1"
  shows "aheap_ok (F(ah_fresh h := 1)) (snd (new_block b h)) []" and "heap_ext h (snd (new_block b h))"
proof -
  let ?F = "F(ah_fresh h := 1)" and ?h = "snd (new_block b h)"
  note f = heap_fresh [OF ok] and n = heap_nil [OF ok]
  have same: "refs ?F ?h q = refs F h q + (if q = ah_fresh h then 1 else 0)" for q
    using indeg_add [OF aheap_finite [OF ok] f(1), of b q] b(2) f(2,3) by (simp add: links_to_def new_block_def refs_def)
  have zero: "refs F h (ah_fresh h) = 0" using f by (simp add: refs_def)
  show "aheap_ok ?F ?h []"
  proof (rule heap_okI)
    fix q
    show "ah_blocks ?h q = None" if "ah_fresh ?h \<le> q" using n(1) [of q] that by (simp add: new_block_def)
    show "refs ?F ?h q = 0" if "ah_blocks ?h q = None"
      using n(3) [of q] that same [of q] by (auto simp: new_block_def split: if_splits)
    show "block_ok c \<and> ab_rc c = int (refs ?F ?h q) \<and> 0 < refs ?F ?h q" if "ah_blocks ?h q = Some c" for c
      using that n(2) [of q c] b zero same [of q] by (cases "q = ah_fresh h") (auto simp: new_block_def)
  qed
  show "heap_ext h ?h" using f(1) by (auto simp: heap_ext_def new_block_def)
qed

lemma makeReference_ok:
  assumes ok: "aheap_ok F h []" and b: "ah_blocks h self = Some b" "\<not> ab_isTiny b" "ab_bigUsed b + sizeof_ArenaBlockRef \<le> ab_bigSize b"
    and other: "0 < F other"
  shows "\<exists>h' b'. ab_makeReference self other h = Inr h' \<and> aheap_ok (F(other := F other - 1)) h' [] \<and> heap_ext h h' \<and>
    h' = put_block self b' h \<and> extends b b' \<and>
    b' = b\<lparr>ab_links := (ab_bigUsed b, other) # ab_links b, ab_bigUsed := ab_bigUsed b + sizeof_ArenaBlockRef\<rparr>"
proof -
  define b' where "b' = b\<lparr>ab_links := (ab_bigUsed b, other) # ab_links b, ab_bigUsed := ab_bigUsed b + sizeof_ArenaBlockRef\<rparr>"
  let ?F = "F(other := F other - 1)" and ?h = "put_block self b' h"
  note n = heap_nil [OF ok]
  have bo: "block_ok b" using heap_block [OF ok b(1)] by simp
  then have "(ab_bigUsed b + sizeof_ArenaBlockRef) mod 2 ^ 32 = ab_bigUsed b + sizeof_ArenaBlockRef"
    using b(2,3) by (intro mod_pos_pos_trivial) (auto simp: block_ok_def INT_MAX_def sizeof_ArenaBlock_def sizeof_ArenaBlockRef_def)
  then have run: "ab_makeReference self other h = Inr ?h"
    using b unfolding ab_makeReference_def get_block_def b'_def by simp
  have tiny: "ab_isTiny b' = ab_isTiny b" by (simp add: b'_def ab_isTiny_def)
  have b': "block_ok b'" using bo b(2,3) tiny by (auto simp: block_ok_def b'_def sizeof_ArenaBlockRef_def)
  have "indeg (ah_blocks ?h) q = indeg (ah_blocks h) q + (if q = other then 1 else 0)" for q
    using indeg_upd [OF aheap_finite [OF ok] b(1), of b' q] by (auto simp: put_block_def links_to_def b'_def)
  then have same: "refs ?F ?h q = refs F h q" for q using other by (simp add: refs_def)
  have "aheap_ok ?F ?h []"
  proof (rule heap_okI)
    fix q
    show "ah_blocks ?h q = None" if "ah_fresh ?h \<le> q"
      using n(1) [of q] n(1) [of self] that b by (auto simp: put_block_def)
    show "refs ?F ?h q = 0" if "ah_blocks ?h q = None"
      using n(3) [of q] that same [of q] by (auto simp: put_block_def split: if_splits)
    show "block_ok c \<and> ab_rc c = int (refs ?F ?h q) \<and> 0 < refs ?F ?h q" if "ah_blocks ?h q = Some c" for c
      using that n(2) [of q c] n(2) [OF b(1)] b' same [of q] by (cases "q = self") (auto simp: put_block_def b'_def)
  qed
  moreover have e: "extends b b'" using b(2) tiny by (simp add: extends_def ab_size_def ab_used_def sizeof_ArenaBlockRef_def b'_def)
  moreover have "heap_ext h ?h" using heap_ext_put [OF b(1) e] .
  ultimately show ?thesis using run unfolding b'_def by blast
qed

text \<open>What a reference holds: the blocks it reaches over the references in blocks.\<close>

inductive areach :: "arena_heap \<Rightarrow> nat \<Rightarrow> nat \<Rightarrow> bool" for h where
  areach_self: "areach h p p"
| areach_step: "areach h p q \<Longrightarrow> ah_blocks h q = Some b \<Longrightarrow> n \<in> snd ` set (ab_links b) \<Longrightarrow> areach h p n"

definition holds :: "arena_heap \<Rightarrow> nat option \<Rightarrow> nat \<Rightarrow> bool" where
  "holds h v n \<longleftrightarrow> (\<exists>p. v = Some p \<and> areach h p n)"

lemma areach_ext: "areach h p n \<Longrightarrow> heap_ext h h' \<Longrightarrow> areach h' p n"
proof (induction rule: areach.induct)
  case areach_self show ?case by (rule areach.areach_self)
next
  case (areach_step p q b n)
  obtain b' where "ah_blocks h' q = Some b'" "extends b b'" using areach_step.hyps(2) areach_step.prems unfolding heap_ext_def by blast
  moreover have "n \<in> snd ` set (ab_links b')" using \<open>extends b b'\<close> areach_step.hyps(3) by (auto simp: extends_def image_Un)
  ultimately show ?case using areach.areach_step [OF areach_step.IH [OF areach_step.prems]] by blast
qed

lemma areach_trans: "areach h q n \<Longrightarrow> areach h p q \<Longrightarrow> areach h p n"
  by (induction rule: areach.induct) (auto intro: areach.intros)

lemma holds_ext: "holds h v n \<Longrightarrow> heap_ext h h' \<Longrightarrow> holds h' v n"
  by (auto simp: holds_def intro: areach_ext)

lemma holds_self [simp]: "holds h (Some p) p"
  by (auto simp: holds_def intro: areach.intros)

lemma holds_link: "holds h v p \<Longrightarrow> ah_blocks h p = Some b \<Longrightarrow> (off, n) \<in> set (ab_links b) \<Longrightarrow> holds h v n"
  by (force simp: holds_def intro: areach_step)

lemma holds_trans: "holds h (Some p) n \<Longrightarrow> holds h v p \<Longrightarrow> holds h v n"
  by (auto simp: holds_def intro: areach_trans)

subsection \<open>Allocation\<close>

definition own :: "nat option \<Rightarrow> nat \<Rightarrow> nat" where
  "own v x = (if v = Some x then 1 else 0)"

definition size_ok :: "int \<Rightarrow> bool" where
  "size_ok n \<longleftrightarrow> 0 \<le> n \<and> (n + sizeof_ArenaBlock + sizeof_ArenaBlockRef) * 2 \<le> INT_MAX"

lemmas arena_sizes = INT_MAX_def sizeof_ArenaBlock_def sizeof_ArenaBlockRef_def LARGE_def SMALL_def TINY_HEADER_def NOT_TINY_def

lemma huge_irrelevant [simp]:
  "aheap_ok F (h\<lparr>ah_huge := x\<rparr>) st = aheap_ok F h st" "heap_ext g (h\<lparr>ah_huge := x\<rparr>) = heap_ext g h"
  by (simp_all add: aheap_ok_def refs_def heap_ext_def)

lemma block_size: "block_ok b \<Longrightarrow> ab_size b * 2 \<le> INT_MAX \<and> 0 \<le> ab_used b \<and> ab_used b \<le> ab_size b"
  by (auto simp: block_ok_def ab_size_def ab_used_def arena_sizes split: if_splits)

lemma reqSize_ok:
  assumes ok: "aheap_ok F h []" and v: "v = None \<or> (\<exists>p b. v = Some p \<and> ah_blocks h p = Some b)" and n: "size_ok n"
  shows "\<exists>r. arena_reqSize n v h = Inr r \<and> n + sizeof_ArenaBlock + (if v \<noteq> None then sizeof_ArenaBlockRef else 0) \<le> r \<and> r * 2 \<le> INT_MAX"
proof -
  let ?q = "n + sizeof_ArenaBlock + (if v \<noteq> None then sizeof_ArenaBlockRef else 0)"
  obtain prev where prev: "(case v of None \<Rightarrow> Inr 0 | Some p \<Rightarrow> bind_result (get_block p h) (\<lambda>b. Inr (ab_size b))) = Inr prev"
      "prev * 2 \<le> INT_MAX"
    using v
  proof
    assume "v = None" then show thesis by (intro that [of 0]) (auto simp: INT_MAX_def)
  next
    assume "\<exists>p b. v = Some p \<and> ah_blocks h p = Some b"
    then obtain p b where "v = Some p" "ah_blocks h p = Some b" by blast
    then show thesis using block_size [of b] heap_block [OF ok, of p b] by (intro that [of "ab_size b"]) (auto simp: get_block_def)
  qed
  have q: "?q * 2 \<le> INT_MAX" using n by (auto simp: size_ok_def sizeof_ArenaBlockRef_def)
  let ?m = "max ?q (min (prev * 2) (max (LARGE - 1) (?q * 4)))"
  have "?m * 2 \<le> INT_MAX" if "?q < LARGE" using that q by (simp add: INT_MAX_def LARGE_def max_def min_def)
  then show ?thesis using q prev unfolding arena_reqSize_def by (auto simp: Let_def INT_MAX_def)
qed

lemma attach_ok:
  assumes ok: "aheap_ok F h []" and b: "ah_blocks h self = Some b" "\<not> ab_isTiny b" "sizeof_ArenaBlockRef \<le> ab_unused b"
    and other: "0 < F other"
  shows "\<exists>h' b'. ab_makeReference self other h = Inr h' \<and> aheap_ok (F(other := F other - 1)) h' [] \<and> heap_ext h h' \<and>
    ah_blocks h' = (ah_blocks h)(self \<mapsto> b') \<and> \<not> ab_isTiny b' \<and> ab_unused b' = ab_unused b - sizeof_ArenaBlockRef \<and>
    holds h' (Some self) other"
proof -
  have room: "ab_bigUsed b + sizeof_ArenaBlockRef \<le> ab_bigSize b" using b(2,3) by (simp add: ab_unused_def)
  obtain h' b' where m: "ab_makeReference self other h = Inr h'" "aheap_ok (F(other := F other - 1)) h' []" "heap_ext h h'"
      "h' = put_block self b' h"
      "b' = b\<lparr>ab_links := (ab_bigUsed b, other) # ab_links b, ab_bigUsed := ab_bigUsed b + sizeof_ArenaBlockRef\<rparr>"
    using makeReference_ok [OF ok b(1,2) room other] by blast
  have h': "ah_blocks h' = (ah_blocks h)(self \<mapsto> b')" using m(4) by (simp add: put_block_def)
  have "\<not> ab_isTiny b' \<and> ab_unused b' = ab_unused b - sizeof_ArenaBlockRef" using m(5) b(2) by (simp add: ab_isTiny_def ab_unused_def)
  moreover have "holds h' (Some self) other"
    using holds_link [OF holds_self, of h' self b' "ab_bigUsed b" other] h' m(5) by simp
  ultimately show ?thesis using m(1-3) h' by blast
qed

lemma big_block_ok:
  assumes "sizeof_ArenaBlock \<le> n" and "n * 2 \<le> INT_MAX"
  shows "block_ok (big_block n)" and "\<not> ab_isTiny (big_block n)" and "ab_links (big_block n) = []" and "ab_rc (big_block n) = 1"
    and "ab_bigSize (big_block n) = n" and "ab_bigUsed (big_block n) = sizeof_ArenaBlock"
  using assms by (auto simp: big_block_def block_ok_def ab_isTiny_def)

lemma tiny_block_ok:
  assumes "0 \<le> n" and "n \<le> SMALL - TINY_HEADER"
  shows "block_ok (tiny_block (tiny_size n))" and "ab_links (tiny_block (tiny_size n)) = []" and "ab_rc (tiny_block (tiny_size n)) = 1"
    and "n \<le> ab_unused (tiny_block (tiny_size n))"
  using assms by (auto simp: tiny_block_def tiny_size_def block_ok_def ab_isTiny_def ab_unused_def arena_sizes)

lemma big_size_ok: "r < LARGE \<Longrightarrow> r \<le> big_size r \<and> big_size r * 2 \<le> INT_MAX"
  by (simp add: big_size_def arena_sizes)

lemma create_small_ok:
  assumes ok: "aheap_ok (\<lambda>x. G x + own None x) h []" and n: "0 \<le> n" "n \<le> SMALL - TINY_HEADER"
  shows "\<exists>b h' blk. arena_create n None h = Inr (b, Some b, h') \<and> aheap_ok (\<lambda>x. G x + own (Some b) x) h' [] \<and> heap_ext h h' \<and>
    ah_blocks h b = None \<and> ah_blocks h' b = Some blk \<and> n \<le> ab_unused blk"
proof -
  let ?t = "tiny_block (tiny_size n)" let ?f = "ah_fresh h" let ?h = "snd (new_block ?t h)"
  note t = tiny_block_ok [OF n] and f = heap_fresh [OF ok]
  have "(\<lambda>x. G x + own None x)(?f := 1) = (\<lambda>x. G x + own (Some ?f) x)" using f(2) by (auto simp: own_def)
  then have "aheap_ok (\<lambda>x. G x + own (Some ?f) x) ?h []" "heap_ext h ?h" using new_block_ok [OF ok t(1-3)] by metis+
  moreover have "arena_create n None h = Inr (?f, Some ?f, ?h)" using n by (simp add: arena_create_def new_block_def)
  moreover have "ah_blocks ?h ?f = Some ?t" by (simp add: new_block_def)
  ultimately show ?thesis using f(1) t(4) by blast
qed

lemma create_big_run:
  assumes ok: "aheap_ok (\<lambda>x. G x + own v x) h []" and n: "size_ok n" and big: "\<not> (n \<le> SMALL - TINY_HEADER \<and> v = None)"
  shows "\<exists>r S h2. n + sizeof_ArenaBlock + (if v \<noteq> None then sizeof_ArenaBlockRef else 0) \<le> r \<and> r \<le> S \<and> S * 2 \<le> INT_MAX \<and>
    aheap_ok ((\<lambda>x. G x + own v x)(ah_fresh h := 1)) h2 [] \<and> heap_ext h h2 \<and> ah_blocks h2 = (ah_blocks h)(ah_fresh h \<mapsto> big_block S) \<and>
    arena_create n v h = (case v of
             None \<Rightarrow> Inr (ah_fresh h, Some (ah_fresh h), h2)
           | Some p \<Rightarrow>
               bind_result (get_block p h2) (\<lambda>n'.
                 if r \<ge> LARGE \<and> \<not> ab_isTiny n' \<and> ab_unused n' \<ge> r - n
                 then bind_result (ab_makeReference p (ah_fresh h) h2) (\<lambda>h3. Inr (ah_fresh h, v, h3))
                 else bind_result (ab_makeReference (ah_fresh h) p h2) (\<lambda>h3. Inr (ah_fresh h, Some (ah_fresh h), h3))))"
proof -
  have present: "v = None \<or> (\<exists>p b. v = Some p \<and> ah_blocks h p = Some b)"
    using heap_external [OF ok] by (cases v) (auto simp: own_def)
  obtain r where r: "arena_reqSize n v h = Inr r" "n + sizeof_ArenaBlock + (if v \<noteq> None then sizeof_ArenaBlockRef else 0) \<le> r" "r * 2 \<le> INT_MAX"
    using reqSize_ok [OF ok present n] by blast
  define S where "S = (if r < LARGE then big_size r else r)"
  have S: "r \<le> S" "S * 2 \<le> INT_MAX" using big_size_ok [of r] r(3) by (auto simp: S_def)
  have "sizeof_ArenaBlock \<le> S" using S(1) r(2) n by (auto simp: size_ok_def sizeof_ArenaBlockRef_def split: if_splits)
  note B = big_block_ok [OF this S(2)]
  let ?f = "ah_fresh h" let ?F = "\<lambda>x. G x + own v x"
  define h1 where "h1 = snd (new_block (big_block S) h)"
  define h2 where "h2 = (if r < LARGE then h1 else h1\<lparr>ah_huge := ah_huge h1 + r\<rparr>)"
  have "aheap_ok (?F(?f := 1)) h2 [] \<and> heap_ext h h2"
    using new_block_ok [OF ok B(1,3,4)] by (simp_all add: h2_def h1_def)
  moreover have "ah_blocks h2 = (ah_blocks h)(?f \<mapsto> big_block S)" by (simp add: h2_def h1_def new_block_def)
  moreover have "arena_create n v h = (case v of
             None \<Rightarrow> Inr (?f, Some ?f, h2)
           | Some p \<Rightarrow>
               bind_result (get_block p h2) (\<lambda>n'.
                 if r \<ge> LARGE \<and> \<not> ab_isTiny n' \<and> ab_unused n' \<ge> r - n
                 then bind_result (ab_makeReference p ?f h2) (\<lambda>h3. Inr (?f, v, h3))
                 else bind_result (ab_makeReference ?f p h2) (\<lambda>h3. Inr (?f, Some ?f, h3))))"
    using big r(1) unfolding h2_def h1_def S_def arena_create_def new_block_def
    by (cases v; cases "r < LARGE") (auto simp: Let_def cong: if_cong)
  ultimately show ?thesis using r(2) S by blast
qed

lemma create_ok:
  assumes ok: "aheap_ok (\<lambda>x. G x + own v x) h []" and n: "size_ok n"
  shows "\<exists>b v' h' blk. arena_create n v h = Inr (b, v', h') \<and> aheap_ok (\<lambda>x. G x + own v' x) h' [] \<and> heap_ext h h' \<and>
    ah_blocks h b = None \<and> ah_blocks h' b = Some blk \<and> n \<le> ab_unused blk \<and> (SMALL \<le> n \<longrightarrow> \<not> ab_isTiny blk) \<and>
    holds h' v' b \<and> (\<forall>p. holds h v p \<longrightarrow> holds h' v' p)"
proof (cases "n \<le> SMALL - TINY_HEADER \<and> v = None")
  case True
  then show ?thesis using create_small_ok [of G h n] ok n holds_self unfolding size_ok_def SMALL_def TINY_HEADER_def holds_def [of h v] by fastforce
next
  case False
  let ?f = "ah_fresh h" let ?F = "\<lambda>x. G x + own v x"
  obtain r S h2 where r: "n + sizeof_ArenaBlock + (if v \<noteq> None then sizeof_ArenaBlockRef else 0) \<le> r" and S: "r \<le> S" "S * 2 \<le> INT_MAX"
    and ok2: "aheap_ok (?F(?f := 1)) h2 []" and e2: "heap_ext h h2" and b2: "ah_blocks h2 = (ah_blocks h)(?f \<mapsto> big_block S)"
    and run: "arena_create n v h = (case v of
             None \<Rightarrow> Inr (?f, Some ?f, h2)
           | Some p \<Rightarrow>
               bind_result (get_block p h2) (\<lambda>n'.
                 if r \<ge> LARGE \<and> \<not> ab_isTiny n' \<and> ab_unused n' \<ge> r - n
                 then bind_result (ab_makeReference p ?f h2) (\<lambda>h3. Inr (?f, v, h3))
                 else bind_result (ab_makeReference ?f p h2) (\<lambda>h3. Inr (?f, Some ?f, h3))))"
    using create_big_run [OF ok n False] by blast
  have n0: "0 \<le> n" using n by (simp add: size_ok_def)
  have "sizeof_ArenaBlock \<le> S" using S(1) r n0 by (auto simp: sizeof_ArenaBlockRef_def split: if_splits)
  note B = big_block_ok [OF this S(2)]
  note f = heap_fresh [OF ok]
  have Gf: "G ?f = 0" "v \<noteq> Some ?f" using f(2) by (auto simp: own_def)
  show ?thesis
  proof (cases v)
    case None
    have "?F(?f := 1) = (\<lambda>x. G x + own (Some ?f) x)" using Gf None by (auto simp: own_def)
    then show ?thesis using run None ok2 e2 b2 f(1) B S(1) r
      by (intro exI [of _ ?f] exI [of _ "Some ?f"] exI [of _ h2] exI [of _ "big_block S"]) (auto simp: ab_unused_def holds_def [of h])
  next
    case (Some p)
    obtain c where c: "ah_blocks h p = Some c" using heap_external [OF ok, of p] Some by (auto simp: own_def)
    have pf: "p \<noteq> ?f" using Some Gf(2) by simp
    have c2: "ah_blocks h2 p = Some c" using b2 pf c by simp
    have g: "get_block p h2 = Inr c" using c2 by (simp add: get_block_def)
    show ?thesis
    proof (cases "r \<ge> LARGE \<and> \<not> ab_isTiny c \<and> ab_unused c \<ge> r - n")
      case True
      then have room: "sizeof_ArenaBlockRef \<le> ab_unused c" and tiny: "\<not> ab_isTiny c"
        using r Some by (auto simp: sizeof_ArenaBlock_def)
      have one: "0 < (?F(?f := 1)) ?f" by simp
      have F: "?F(?f := 1, ?f := (?F(?f := 1)) ?f - 1) = ?F" using Gf by (auto simp: own_def)
      obtain h3 c' where m: "ab_makeReference p ?f h2 = Inr h3" "aheap_ok ?F h3 []" "heap_ext h2 h3"
          "ah_blocks h3 = (ah_blocks h2)(p \<mapsto> c')" "holds h3 (Some p) ?f"
        using attach_ok [OF ok2 c2 tiny room one] unfolding F by blast
      have e3: "heap_ext h h3" using heap_ext_trans [OF e2 m(3)] .
      have "n \<le> ab_unused (big_block S)" using B S(1) r Some by (simp add: ab_unused_def sizeof_ArenaBlockRef_def)
      moreover have "arena_create n v h = Inr (?f, v, h3)" using run Some g True m(1) by simp
      moreover have "ah_blocks h3 ?f = Some (big_block S)" using m(4) b2 pf by simp
      ultimately show ?thesis using m(2,5) Some e3 f(1) B(2) holds_ext [OF _ e3] by blast
    next
      case False
      have room: "sizeof_ArenaBlockRef \<le> ab_unused (big_block S)" using B S(1) r Some n0 by (simp add: ab_unused_def)
      have f2: "ah_blocks h2 ?f = Some (big_block S)" using b2 by simp
      have one: "0 < (?F(?f := 1)) p" using Some pf by (simp add: own_def)
      have F: "?F(?f := 1, p := (?F(?f := 1)) p - 1) = (\<lambda>x. G x + own (Some ?f) x)" using Gf Some pf by (auto simp: own_def)
      obtain h3 c' where m: "ab_makeReference ?f p h2 = Inr h3" "aheap_ok (\<lambda>x. G x + own (Some ?f) x) h3 []" "heap_ext h2 h3"
          "ah_blocks h3 = (ah_blocks h2)(?f \<mapsto> c')" "\<not> ab_isTiny c'" "ab_unused c' = ab_unused (big_block S) - sizeof_ArenaBlockRef"
          "holds h3 (Some ?f) p"
        using attach_ok [OF ok2 f2 B(2) room one] unfolding F by blast
      have e3: "heap_ext h h3" using heap_ext_trans [OF e2 m(3)] .
      have "holds h3 (Some ?f) q" if "holds h v q" for q using holds_trans [OF _ m(7)] holds_ext [OF that e3] Some by simp
      moreover have "n \<le> ab_unused c'" using m(6) B S(1) r Some by (simp add: ab_unused_def)
      moreover have "arena_create n v h = Inr (?f, Some ?f, h3)" using run Some g False m(1) by simp
      moreover have "ah_blocks h3 ?f = Some c'" using m(4) by simp
      ultimately show ?thesis using m(2,5) e3 f(1) holds_self by blast
    qed
  qed
qed

lemma dependOn_ok:
  assumes ok: "aheap_ok (\<lambda>x. G x + own v x) h []" and other: "ah_blocks h q = Some c"
  shows "\<exists>v' h'. arena_dependOn v q h = Inr (v', h') \<and> aheap_ok (\<lambda>x. G x + own v' x) h' [] \<and> heap_ext h h' \<and>
    holds h' v' q \<and> (\<forall>p. holds h v p \<longrightarrow> holds h' v' p)"
proof -
  let ?G = "G(q := G q + 1)" let ?F = "\<lambda>v x. ?G x + own v x"
  obtain h1 where h1: "ab_addref q h = Inr h1" "aheap_ok ((\<lambda>x. G x + own v x)(q := G q + own v q + 1)) h1 []" "heap_ext h h1"
    using addref_ok [OF ok other] by blast
  have "(\<lambda>x. G x + own v x)(q := G q + own v q + 1) = ?F v" by auto
  then have ok1: "aheap_ok (?F v) h1 []" using h1(2) by simp
  have one: "0 < ?F v' q" for v' by simp
  have undo: "(?F v')(q := ?F v' q - 1) = (\<lambda>x. G x + own v' x)" for v' by auto
  show ?thesis
  proof (cases "v = None \<or> (\<exists>p b. v = Some p \<and> ah_blocks h1 p = Some b \<and> (ab_isTiny b \<or> ab_unused b < sizeof_ArenaBlockRef))")
    case True
    have "size_ok SMALL" by (simp add: size_ok_def arena_sizes)
    then obtain b v' h2 blk where c: "arena_create SMALL v h1 = Inr (b, v', h2)" "aheap_ok (?F v') h2 []" "heap_ext h1 h2"
        "ah_blocks h2 b = Some blk" "SMALL \<le> ab_unused blk" "\<not> ab_isTiny blk" "holds h2 v' b" "\<forall>p. holds h1 v p \<longrightarrow> holds h2 v' p"
      using create_ok [OF ok1, of SMALL] by blast
    have room: "sizeof_ArenaBlockRef \<le> ab_unused blk" using c(5) by (simp add: arena_sizes)
    obtain h3 where m: "ab_makeReference b q h2 = Inr h3" "aheap_ok (\<lambda>x. G x + own v' x) h3 []" "heap_ext h2 h3" "holds h3 (Some b) q"
      using attach_ok [OF c(2,4,6) room one] unfolding undo by blast
    have "arena_dependOn v q h = Inr (v', h3)" using True h1(1) c(1) m(1) by (auto simp: arena_dependOn_def get_block_def)
    moreover have "holds h3 v' q" using holds_trans [OF m(4) holds_ext [OF c(7) m(3)]] .
    moreover have "holds h3 v' p" if "holds h v p" for p
      using holds_ext [OF c(8) [rule_format, OF holds_ext [OF that h1(3)]] m(3)] .
    ultimately show ?thesis using m(2) heap_ext_trans [OF heap_ext_trans [OF h1(3) c(3)] m(3)] by blast
  next
    case False
    then obtain p where p: "v = Some p" by auto
    obtain b where b: "ah_blocks h1 p = Some b" using heap_external [OF ok1, of p] p by (auto simp: own_def)
    have big: "\<not> ab_isTiny b" "sizeof_ArenaBlockRef \<le> ab_unused b" using False p b by auto
    obtain h2 where m: "ab_makeReference p q h1 = Inr h2" "aheap_ok (\<lambda>x. G x + own v x) h2 []" "heap_ext h1 h2" "holds h2 (Some p) q"
      using attach_ok [OF ok1 b big one] unfolding undo by blast
    have "arena_dependOn v q h = Inr (v, h2)" using h1(1) p b big m(1) by (simp add: arena_dependOn_def get_block_def)
    then show ?thesis using m(2,4) p heap_ext_trans [OF h1(3) m(3)] holds_ext by blast
  qed
qed

text \<open>An allocation lies in one block, after everything that was used and every reference in it.\<close>

lemma addUsed_ok:
  assumes ok: "aheap_ok F h []" and b: "ah_blocks h p = Some b" and n: "0 \<le> n" "n \<le> ab_unused b"
  shows "\<exists>b'. ab_addUsed n b = (ab_used b, b') \<and> aheap_ok F (put_block p b' h) [] \<and> extends b b' \<and>
    ab_used b' = ab_used b + n \<and> ab_links b' = ab_links b"
proof -
  have bo: "block_ok b" using heap_block [OF ok b] by simp
  define b' where "b' = (if ab_isTiny b then b\<lparr>ab_tinyUsed := ab_tinyUsed b + n\<rparr> else b\<lparr>ab_bigUsed := ab_bigUsed b + n\<rparr>)"
  have "(ab_tinyUsed b + n) mod 256 = ab_tinyUsed b + n" if "ab_isTiny b"
    using bo n that by (intro mod_pos_pos_trivial) (auto simp: block_ok_def ab_unused_def arena_sizes)
  moreover have "(ab_bigUsed b + n) mod 4294967296 = ab_bigUsed b + n" if "\<not> ab_isTiny b"
    using bo n that by (intro mod_pos_pos_trivial) (auto simp: block_ok_def ab_unused_def arena_sizes)
  ultimately have run: "ab_addUsed n b = (ab_used b, b')" by (simp add: ab_addUsed_def ab_used_def b'_def)
  have tiny: "ab_isTiny b' = ab_isTiny b" by (simp add: b'_def ab_isTiny_def)
  have b': "block_ok b'" using bo n tiny by (fastforce simp: block_ok_def b'_def ab_unused_def split: if_splits)
  have l: "ab_links b' = ab_links b" "ab_rc b' = ab_rc b + int 0" by (simp_all add: b'_def)
  have e: "extends b b'" "ab_used b' = ab_used b + n" using n tiny by (auto simp: extends_def ab_size_def ab_used_def b'_def)
  show ?thesis using run put_block_ok [OF ok b b' l] e l(1) by auto
qed

lemma allocate_ok:
  assumes ok: "aheap_ok (\<lambda>x. G x + own v x) h []" and n: "size_ok n"
  shows "\<exists>p off v' h' b. arena_allocate v n h = Inr ((p, off), v', h') \<and> aheap_ok (\<lambda>x. G x + own v' x) h' [] \<and> heap_ext h h' \<and>
    (\<forall>q. holds h v q \<longrightarrow> holds h' v' q) \<and> holds h' v' p \<and> ah_blocks h' p = Some b \<and> ab_used b = off + n \<and>
    (if ab_isTiny b then TINY_HEADER else sizeof_ArenaBlock) \<le> off \<and>
    (\<forall>b0. ah_blocks h p = Some b0 \<longrightarrow> ab_used b0 \<le> off) \<and> (\<forall>(o', q) \<in> set (ab_links b). o' + sizeof_ArenaBlockRef \<le> off)"
proof -
  have n0: "0 \<le> n" using n by (simp add: size_ok_def)
  have present: "\<exists>b. ah_blocks h p = Some b" if "v = Some p" for p using heap_external [OF ok, of p] that by (simp add: own_def)
  obtain fresh where f: "(case v of None \<Rightarrow> Inr True | Some p \<Rightarrow> bind_result (get_block p h) (\<lambda>b. Inr (ab_unused b < n))) = Inr fresh"
    using present by (cases v) (auto simp: get_block_def)
  obtain p v1 h1 b where c: "(if fresh then arena_create n v h else Inr (the v, v, h)) = Inr (p, v1, h1)"
      "aheap_ok (\<lambda>x. G x + own v1 x) h1 []" "heap_ext h h1" "\<forall>q. holds h v q \<longrightarrow> holds h1 v1 q" "holds h1 v1 p"
      "ah_blocks h1 p = Some b" "n \<le> ab_unused b" "\<forall>b0. ah_blocks h p = Some b0 \<longrightarrow> ab_used b0 \<le> ab_used b"
  proof (cases fresh)
    case True
    obtain p v1 h1 b where "arena_create n v h = Inr (p, v1, h1)" "aheap_ok (\<lambda>x. G x + own v1 x) h1 []" "heap_ext h h1"
        "ah_blocks h p = None" "ah_blocks h1 p = Some b" "n \<le> ab_unused b" "holds h1 v1 p" "\<forall>q. holds h v q \<longrightarrow> holds h1 v1 q"
      using create_ok [OF ok n] by blast
    then show thesis using that [of p v1 h1 b] True by simp
  next
    case False
    then obtain p where p: "v = Some p" using f by (cases v) auto
    then obtain b where "ah_blocks h p = Some b" using present by blast
    then show thesis using that [of p v h b] ok False f p by (simp add: get_block_def)
  qed
  obtain b' where b': "ab_addUsed n b = (ab_used b, b')" "aheap_ok (\<lambda>x. G x + own v1 x) (put_block p b' h1) []" "extends b b'"
      "ab_used b' = ab_used b + n" "ab_links b' = ab_links b" using addUsed_ok [OF c(2,6) n0 c(7)] by blast
  have e: "heap_ext h1 (put_block p b' h1)" using heap_ext_put [OF c(6) b'(3)] .
  have "arena_allocate v n h = Inr ((p, ab_used b), v1, put_block p b' h1)"
    using f c(1,6) b'(1) by (simp add: arena_allocate_def get_block_def)
  moreover have "(if ab_isTiny b' then TINY_HEADER else sizeof_ArenaBlock) \<le> ab_used b"
    using heap_block [OF c(2,6)] b'(3) by (auto simp: block_ok_def ab_used_def extends_def split: if_splits)
  moreover have "\<forall>(o', q) \<in> set (ab_links b'). o' + sizeof_ArenaBlockRef \<le> ab_used b"
    using heap_block [OF c(2,6)] b'(5) by (auto simp: block_ok_def ab_used_def split: if_splits)
  moreover have "ah_blocks (put_block p b' h1) p = Some b'" by (simp add: put_block_def)
  ultimately show ?thesis
    using b'(2,4) c(4,5,8) heap_ext_trans [OF c(3) e] holds_ext [OF _ e] by blast
qed

subsection \<open>Destruction\<close>

lemma heap_sub_trans: "heap_sub h h1 \<Longrightarrow> heap_sub h1 h2 \<Longrightarrow> heap_sub h h2"
proof -
  assume a: "heap_sub h h1" and b: "heap_sub h1 h2"
  show "heap_sub h h2" unfolding heap_sub_def
  proof (intro allI impI)
    fix p b'' assume "ah_blocks h2 p = Some b''"
    then obtain b' where b': "ah_blocks h1 p = Some b'" "b'' = b'\<lparr>ab_rc := ab_rc b''\<rparr>" using b unfolding heap_sub_def by blast
    then obtain c where c: "ah_blocks h p = Some c" "b' = c\<lparr>ab_rc := ab_rc b'\<rparr>" using a unfolding heap_sub_def by blast
    have "b'' = c\<lparr>ab_rc := ab_rc b''\<rparr>" using b'(2) c(2) by (cases b''; cases b'; cases c) simp
    then show "\<exists>b. ah_blocks h p = Some b \<and> b'' = b\<lparr>ab_rc := ab_rc b''\<rparr>" using c(1) by blast
  qed
qed

lemma heap_sub_rc: "ah_blocks h p = Some b \<Longrightarrow> heap_sub h (put_block p (b\<lparr>ab_rc := n\<rparr>) h)"
  by (auto simp: heap_sub_def put_block_def)

text \<open>While the references of a block are dropped, those still to drop count.\<close>

lemma drop_step:
  assumes ok: "aheap_ok F H (p # st)" and fr: "ah_fresh H1 = ah_fresh H"
    and bl: "\<And>q. ah_blocks H1 q = (if q = p then Some b1 else if q = n then Some c1 else ah_blocks H q)"
    and p: "ah_blocks H p = Some b" and n: "ah_blocks H n = Some c" "n \<noteq> p"
    and ko: "block_ok b1" "block_ok c1" and rc: "ab_rc b1 = ab_rc b" "ab_rc c1 = ab_rc c - 1"
    and same: "\<And>q. refs F H q = refs F H1 q + (if q = n then 1 else 0)"
  shows "aheap_ok F H1 (p # (if ab_rc c1 = 0 then n # st else st))"
proof -
  have st: "q \<in> set (p # st) \<longleftrightarrow> ah_blocks H q \<noteq> None \<and> refs F H q = 0" for q using ok unfolding aheap_ok_def by blast
  have one: "0 < refs F H n" using same [of n] by simp
  then have ns: "n \<notin> set (p # st)" using st [of n] by simp
  have rcs: "ab_rc b1 = int (refs F H1 p)" "ab_rc c1 = int (refs F H1 n)"
    using heap_block [OF ok p] heap_block [OF ok n(1)] rc same [of p] same [of n] n(2) by auto
  show ?thesis unfolding aheap_ok_def
  proof (intro conjI allI impI)
    fix q
    show "ah_blocks H1 q = None" if "ah_fresh H1 \<le> q"
    proof -
      have "ah_blocks H q = None" using ok that fr unfolding aheap_ok_def by metis
      then show ?thesis using bl [of q] n p by auto
    qed
    show "block_ok d" "ab_rc d = int (refs F H1 q)" if "ah_blocks H1 q = Some d" for d
      using that bl [of q] ko rcs same [of q] heap_block [OF ok, of q d] by (auto split: if_splits)
    show "refs F H1 q = 0" if "ah_blocks H1 q = None"
    proof -
      have "ah_blocks H q = None" using that bl [of q] by (auto split: if_splits)
      then have "refs F H q = 0" using ok unfolding aheap_ok_def by blast
      then show ?thesis using same [of q] by simp
    qed
    show "q \<in> set (p # (if ab_rc c1 = 0 then n # st else st)) \<longleftrightarrow> ah_blocks H1 q \<noteq> None \<and> refs F H1 q = 0"
    proof (cases "q = n")
      case True
      then show ?thesis using ns bl [of n] rcs(2) n(2) by auto
    next
      case False
      then have "q \<in> set (p # (if ab_rc c1 = 0 then n # st else st)) \<longleftrightarrow> q \<in> set (p # st)" by simp
      then show ?thesis using st [of q] bl [of q] same [of q] p False by (auto split: if_splits)
    qed
    show "distinct (p # (if ab_rc c1 = 0 then n # st else st))" using ok ns n(2) unfolding aheap_ok_def by simp
  qed
qed

lemma drop_link_ok:
  assumes p: "ah_blocks h p = Some b" and ok: "aheap_ok F (put_block p (b\<lparr>ab_links := (off, n) # ls\<rparr>) h) (p # st)"
  shows "\<exists>c. ah_blocks h n = Some c \<and> n \<noteq> p \<and>
    aheap_ok F (put_block p (b\<lparr>ab_links := ls\<rparr>) (put_block n (c\<lparr>ab_rc := ab_rc c - 1\<rparr>) h)) (p # (if ab_rc c - 1 = 0 then n # st else st))"
proof -
  let ?b = "b\<lparr>ab_links := (off, n) # ls\<rparr>" and ?b1 = "b\<lparr>ab_links := ls\<rparr>"
  let ?H = "put_block p ?b h"
  have fin: "finite (dom (ah_blocks ?H))" using aheap_finite [OF ok] .
  have Hp: "ah_blocks ?H p = Some ?b" by (simp add: put_block_def)
  have one: "0 < refs F ?H n"
    using indeg_remove [OF fin Hp, of n] by (simp add: links_to_def refs_def)
  have zero: "refs F ?H p = 0" using ok unfolding aheap_ok_def by (meson list.set_intros(1))
  have np: "n \<noteq> p" using zero less_not_refl3 [OF one] by auto
  obtain c where c: "ah_blocks ?H n = Some c" using heap_present [OF ok one] by blast
  then have hn: "ah_blocks h n = Some c" using np by (simp add: put_block_def)
  let ?c = "c\<lparr>ab_rc := ab_rc c - 1\<rparr>"
  let ?H1 = "put_block p ?b1 (put_block n ?c h)"
  have B: "ah_blocks ?H1 = ((ah_blocks ?H)(n \<mapsto> ?c))(p \<mapsto> ?b1)" using np by (auto simp: put_block_def fun_eq_iff)
  have di: "indeg (ah_blocks ?H1) q + links_to ?b q = indeg (ah_blocks ?H) q + links_to ?b1 q" for q
    unfolding B using indeg_upd [of "(ah_blocks ?H)(n \<mapsto> ?c)" p ?b ?b1 q] indeg_same [OF fin c, of ?c] fin Hp np by simp
  have dl: "links_to ?b q = links_to ?b1 q + (if q = n then 1 else 0)" for q by (simp add: links_to_def)
  have same: "refs F ?H q = refs F ?H1 q + (if q = n then 1 else 0)" for q
    using di [of q] dl [of q] unfolding refs_def by linarith
  have bl: "ah_blocks ?H1 q = (if q = p then Some ?b1 else if q = n then Some ?c else ah_blocks ?H q)" for q
    using np by (simp add: B)
  have ko: "block_ok ?b1 \<and> block_ok ?c" using heap_block [OF ok Hp] heap_block [OF ok c] by (auto simp: block_ok_def ab_isTiny_def split: if_splits)
  have "aheap_ok F ?H1 (p # (if ab_rc ?c = 0 then n # st else st))"
    by (rule drop_step [OF ok _ bl Hp c np conjunct1 [OF ko] conjunct2 [OF ko] _ _ same]) (simp_all add: put_block_def)
  then show ?thesis using hn np by (intro exI [of _ c]) simp
qed

lemma release_links_ok:
  assumes "ah_blocks h p = Some b" and "aheap_ok F (put_block p (b\<lparr>ab_links := ls\<rparr>) h) (p # st)"
  shows "\<exists>h' st'. release_links ls h st = Inr (h', st') \<and> ah_blocks h' p = Some b \<and>
    aheap_ok F (put_block p (b\<lparr>ab_links := []\<rparr>) h') (p # st') \<and> heap_sub h h' \<and> dom (ah_blocks h') = dom (ah_blocks h)"
  using assms
proof (induction ls arbitrary: h st)
  case Nil then show ?case by auto
next
  case (Cons l ls)
  obtain off n where l: "l = (off, n)" by (cases l)
  obtain c where c: "ah_blocks h n = Some c" "n \<noteq> p"
      "aheap_ok F (put_block p (b\<lparr>ab_links := ls\<rparr>) (put_block n (c\<lparr>ab_rc := ab_rc c - 1\<rparr>) h)) (p # (if ab_rc c - 1 = 0 then n # st else st))"
    using drop_link_ok [OF Cons.prems(1)] Cons.prems(2) unfolding l by blast
  let ?h = "put_block n (c\<lparr>ab_rc := ab_rc c - 1\<rparr>) h"
  have p: "ah_blocks ?h p = Some b" using Cons.prems(1) c(2) by (simp add: put_block_def)
  obtain h' st' where r: "release_links ls ?h (if ab_rc c - 1 = 0 then n # st else st) = Inr (h', st')" "ah_blocks h' p = Some b"
      "aheap_ok F (put_block p (b\<lparr>ab_links := []\<rparr>) h') (p # st')" "heap_sub ?h h'" "dom (ah_blocks h') = dom (ah_blocks ?h)"
    using Cons.IH [OF p c(3)] by blast
  have "release_links (l # ls) h st = Inr (h', st')" using r(1) c(1) by (simp add: l get_block_def)
  moreover have "dom (ah_blocks ?h) = dom (ah_blocks h)" using c(1) by (auto simp: put_block_def)
  ultimately show ?case using r(2-5) heap_sub_trans [OF heap_sub_rc [OF c(1)] r(4)] by auto
qed

lemma destroyLeaf_ok:
  assumes p: "ah_blocks h p = Some b" and ok: "aheap_ok F (put_block p (b\<lparr>ab_links := []\<rparr>) h) (p # st)"
  shows "\<exists>h'. ab_destroyLeaf p h = Inr h' \<and> aheap_ok F h' st \<and> heap_sub h h' \<and> ah_blocks h' = (ah_blocks h)(p := None)"
proof -
  let ?b = "b\<lparr>ab_links := []\<rparr>"
  let ?H = "put_block p ?b h"
  obtain h' where run: "ab_destroyLeaf p h = Inr h'" and h': "ah_blocks h' = (ah_blocks h)(p := None)" "ah_fresh h' = ah_fresh ?H"
    using p by (auto simp: ab_destroyLeaf_def get_block_def put_block_def Let_def)
  have Hp: "ah_blocks ?H p = Some ?b" by (simp add: put_block_def)
  have B: "ah_blocks h' = (ah_blocks ?H)(p := None)" using h'(1) by (simp add: put_block_def)
  have same: "refs F h' q = refs F ?H q" for q
    using indeg_remove [OF aheap_finite [OF ok] Hp, of q] B by (simp add: refs_def links_to_def)
  have "aheap_ok F h' st" if H: "aheap_ok F H (p # st)" "ah_blocks h' = (ah_blocks H)(p := None)" "ah_fresh h' = ah_fresh H"
      "\<And>q. refs F h' q = refs F H q" for H
    using H unfolding aheap_ok_def by (auto split: if_splits)
  then have "aheap_ok F h' st" using ok B h'(2) same by blast
  moreover have "heap_sub h h'" using h'(1) by (auto simp: heap_sub_def split: if_splits)
  ultimately show ?thesis using run h'(1) by blast
qed

lemma destroy_loop_ok:
  assumes "aheap_ok F h st"
  shows "\<exists>h'. arena_destroy_loop st h = Some (Inr h') \<and> aheap_ok F h' [] \<and> heap_sub h h'"
  using assms
proof (induction "card (dom (ah_blocks h))" arbitrary: h st rule: less_induct)
  case less
  show ?case
  proof (cases st)
    case Nil then show ?thesis using less.prems by (simp add: arena_destroy_loop.simps)
  next
    case (Cons p ps)
    obtain b where p: "ah_blocks h p = Some b" using less.prems Cons unfolding aheap_ok_def by fastforce
    have same: "put_block p (b\<lparr>ab_links := ab_links b\<rparr>) h = h" using p by (simp add: put_block_def fun_upd_idem)
    obtain h1 st1 where r: "(if ab_isTiny b then Inr (h, ps) else release_links (ab_links b) h ps) = Inr (h1, st1)"
        "ah_blocks h1 p = Some b" "aheap_ok F (put_block p (b\<lparr>ab_links := []\<rparr>) h1) (p # st1)" "heap_sub h h1"
        "dom (ah_blocks h1) = dom (ah_blocks h)"
    proof (cases "ab_isTiny b")
      case True
      then have "ab_links b = []" using heap_block [OF less.prems p] by (simp add: block_ok_def)
      then show thesis using that [of h ps] True p less.prems Cons same by simp
    next
      case False
      then show thesis using that release_links_ok [of h p b F "ab_links b" ps] p less.prems Cons same by auto
    qed
    obtain h2 where d: "ab_destroyLeaf p h1 = Inr h2" "aheap_ok F h2 st1" "heap_sub h1 h2" "ah_blocks h2 = (ah_blocks h1)(p := None)"
      using destroyLeaf_ok [OF r(2,3)] by blast
    have "dom (ah_blocks h2) \<subset> dom (ah_blocks h)" using d(4) r(5) p by auto
    then have "card (dom (ah_blocks h2)) < card (dom (ah_blocks h))" using aheap_finite [OF less.prems] psubset_card_mono by blast
    then obtain h3 where h3: "arena_destroy_loop st1 h2 = Some (Inr h3)" "aheap_ok F h3 []" "heap_sub h2 h3"
      using less.hyps d(2) by blast
    have "arena_destroy_loop st h = arena_destroy_loop st1 h2"
      using Cons p r(1) d(1) by (subst arena_destroy_loop.simps) (simp add: get_block_def)
    then show ?thesis using h3 heap_sub_trans [OF heap_sub_trans [OF r(4) d(3)] h3(3)] by auto
  qed
qed

lemma delref_ok:
  assumes ok: "aheap_ok (\<lambda>x. G x + own (Some p) x) h []"
  shows "\<exists>h'. ab_delref p h = Some (Inr h') \<and> aheap_ok G h' [] \<and> heap_sub h h'"
proof -
  obtain b where p: "ah_blocks h p = Some b" using heap_external [OF ok, of p] by (auto simp: own_def)
  let ?b = "b\<lparr>ab_rc := ab_rc b - 1\<rparr>"
  define h1 where "h1 = put_block p ?b h"
  have same: "refs (\<lambda>x. G x + own (Some p) x) h q = refs G h1 q + (if q = p then 1 else 0)" for q
    using indeg_same [OF aheap_finite [OF ok] p, of ?b] by (simp add: refs_def h1_def put_block_def own_def)
  have bl: "ah_blocks h1 q = (if q = p then Some ?b else ah_blocks h q)" "ah_fresh h1 = ah_fresh h" for q
    by (simp_all add: h1_def put_block_def)
  have ko: "block_ok ?b" "ab_rc ?b = int (refs G h1 p)"
    using heap_block [OF ok p] same [of p] by (simp_all add: block_ok_def ab_isTiny_def)
  note n = heap_nil [OF ok]
  have ok1: "aheap_ok G h1 (if ab_rc ?b = 0 then [p] else [])" unfolding aheap_ok_def
  proof (intro conjI allI impI)
    fix q
    show "ah_blocks h1 q = None" if "ah_fresh h1 \<le> q" using n(1) [of q] n(1) [of p] that bl(1) [of q] bl(2) p by auto
    show "block_ok d" "ab_rc d = int (refs G h1 q)" if "ah_blocks h1 q = Some d" for d
      using that bl(1) [of q] ko n(2) [of q d] same [of q] by (auto split: if_splits)
    show "refs G h1 q = 0" if "ah_blocks h1 q = None" using that bl(1) [of q] n(3) [of q] same [of q] by (auto split: if_splits)
    show "q \<in> set (if ab_rc ?b = 0 then [p] else []) \<longleftrightarrow> ah_blocks h1 q \<noteq> None \<and> refs G h1 q = 0"
      using bl(1) [of q] ko(2) n(2) [of q] same [of q] by (cases "q = p"; cases "ah_blocks h q") auto
  qed simp
  have run: "ab_delref p h = (if ab_rc ?b = 0 then arena_destroy_loop [p] h1 else Some (Inr h1))"
    using p by (simp add: ab_delref_def get_block_def Let_def h1_def arena_destroy_def)
  have sub: "heap_sub h h1" using heap_sub_rc [OF p] by (simp add: h1_def)
  show ?thesis
  proof (cases "ab_rc ?b = 0")
    case True
    then have "aheap_ok G h1 [p]" using ok1 by simp
    then obtain h' where "arena_destroy_loop [p] h1 = Some (Inr h')" "aheap_ok G h' []" "heap_sub h1 h'" using destroy_loop_ok by blast
    then show ?thesis using run True heap_sub_trans [OF sub] by auto
  next
    case False
    then show ?thesis using run ok1 sub by auto
  qed
qed

text \<open>What is still referred to stays.\<close>

lemma reached_stays:
  assumes "areach h p n" and ok: "aheap_ok G h' []" and sub: "heap_sub h h'" and "0 < G p"
  shows "areach h' p n \<and> (\<exists>b b'. ah_blocks h n = Some b \<and> ah_blocks h' n = Some b' \<and> b' = b\<lparr>ab_rc := ab_rc b'\<rparr>)"
  using assms(1,4)
proof (induction rule: areach.induct)
  case (areach_self p)
  obtain b' where "ah_blocks h' p = Some b'" using heap_external [OF ok areach_self.prems] by blast
  then show ?case using sub areach.areach_self unfolding heap_sub_def by blast
next
  case (areach_step p q b n)
  then obtain b' where b': "areach h' p q" "ah_blocks h' q = Some b'" "b' = b\<lparr>ab_rc := ab_rc b'\<rparr>" by auto
  then have l: "ab_links b' = ab_links b" by (metis arena_block.ext_inject arena_block.surjective arena_block.update_convs(1))
  have r: "areach h' p n" using areach.areach_step [OF b'(1,2)] areach_step.hyps(3) l by simp
  have "0 < links_to b' n" using areach_step.hyps(3) l by (simp add: links_to_def neq0_conv [symmetric] count_list_0_iff del: neq0_conv)
  then have "0 < refs G h' n" using indeg_remove [OF aheap_finite [OF ok] b'(2), of n] by (simp add: refs_def)
  then obtain c where c: "ah_blocks h' n = Some c" using heap_present [OF ok] by blast
  then show ?case using r sub unfolding heap_sub_def by blast
qed

subsection \<open>Arenas\<close>

definition stays :: "arena_heap \<Rightarrow> arena_heap \<Rightarrow> nat \<Rightarrow> bool" where
  "stays h h' n \<longleftrightarrow> (\<exists>b b'. ah_blocks h n = Some b \<and> ah_blocks h' n = Some b' \<and> extends b b')"

definition kept :: "(nat \<Rightarrow> nat) \<Rightarrow> arena_heap \<Rightarrow> arena_heap \<Rightarrow> bool" where
  "kept F h h' \<longleftrightarrow> (\<forall>p n. 0 < F p \<longrightarrow> areach h p n \<longrightarrow> areach h' p n \<and> stays h h' n)"

lemma kept_grow: "aheap_ok F h [] \<Longrightarrow> heap_ext h h' \<Longrightarrow> kept F h h'"
  unfolding kept_def stays_def
  using reached_stays [where h = h and h' = h and G = F] areach_ext [where h = h and h' = h'] by (metis heap_ext_def heap_sub_refl)

lemma kept_shrink: "aheap_ok F h' [] \<Longrightarrow> heap_sub h h' \<Longrightarrow> kept F h h'"
  unfolding kept_def stays_def
  using reached_stays [where h = h and h' = h' and G = F] extends_rc by metis

lemma blocks_kept_trans:
  assumes "kept F h h1" and "kept G h1 h2" and "\<And>p. 0 < G p \<Longrightarrow> 0 < F p"
  shows "kept G h h2"
  using assms unfolding kept_def stays_def by (metis extends_trans option.inject)

lemma ref_copy_ok:
  assumes ok: "aheap_ok F h []" and r: "\<And>p. r = Some p \<Longrightarrow> 0 < F p"
  shows "\<exists>h'. ref_copy r h = Inr (r, h') \<and> aheap_ok (\<lambda>x. F x + own r x) h' [] \<and> kept F h h'"
proof (cases r)
  case None
  then show ?thesis using ok kept_grow [OF ok heap_ext_refl] by (simp add: ref_copy_def own_def)
next
  case (Some p)
  obtain b where "ah_blocks h p = Some b" using heap_external [OF ok r [OF Some]] by blast
  then obtain h' where h': "ab_addref p h = Inr h'" "aheap_ok (F(p := F p + 1)) h' []" "heap_ext h h'" using addref_ok [OF ok] by blast
  have "F(p := F p + 1) = (\<lambda>x. F x + own r x)" using Some by (auto simp: own_def)
  then show ?thesis using h' Some kept_grow [OF ok h'(3)] by (simp add: ref_copy_def)
qed

lemma ref_destroy_ok:
  assumes ok: "aheap_ok (\<lambda>x. G x + own v x) h []"
  shows "\<exists>h'. ref_destroy v h = Some (Inr h') \<and> aheap_ok G h' [] \<and> kept G h h'"
proof (cases v)
  case None
  then show ?thesis using ok kept_grow [of G h h] by (simp add: ref_destroy_def own_def)
next
  case (Some p)
  then show ?thesis using delref_ok [of G p h] ok kept_shrink by (auto simp: ref_destroy_def)
qed

lemma ref_assign_ok:
  assumes ok: "aheap_ok (\<lambda>x. G x + own v x) h []" and r: "\<And>p. r = Some p \<Longrightarrow> 0 < G p + own v p"
  shows "\<exists>h'. ref_assign v r h = Some (Inr (r, h')) \<and> aheap_ok (\<lambda>x. G x + own r x) h' [] \<and> kept (\<lambda>x. G x + own r x) h h'"
proof (cases "v = r")
  case True
  then show ?thesis using ok kept_grow [OF ok heap_ext_refl] by (simp add: ref_assign_def)
next
  case False
  obtain h1 where h1: "ref_copy r h = Inr (r, h1)" "aheap_ok (\<lambda>x. G x + own v x + own r x) h1 []" "kept (\<lambda>x. G x + own v x) h h1"
    using ref_copy_ok [OF ok r] by blast
  have "(\<lambda>x. G x + own v x + own r x) = (\<lambda>x. (G x + own r x) + own v x)" by auto
  then obtain h2 where h2: "ref_destroy v h1 = Some (Inr h2)" "aheap_ok (\<lambda>x. G x + own r x) h2 []" "kept (\<lambda>x. G x + own r x) h1 h2"
    using ref_destroy_ok [of "\<lambda>x. G x + own r x" v h1] h1(2) by auto
  have "0 < G p + own v p" if "0 < G p + own r p" for p using that r [of p] by (auto simp: own_def split: if_splits)
  then have "kept (\<lambda>x. G x + own r x) h h2" using blocks_kept_trans [OF h1(3) h2(3)] by simp
  then show ?thesis using False h1(1) h2 by (simp add: ref_assign_def)
qed

lemma ref_move_assign_ok:
  assumes ok: "aheap_ok (\<lambda>x. (G x + own r x) + own v x) h []" and "v \<noteq> r"
  shows "\<exists>h'. ref_move_assign v r h = Some (Inr (r, None, h')) \<and> aheap_ok (\<lambda>x. G x + own r x) h' [] \<and> kept (\<lambda>x. G x + own r x) h h'"
  using ref_destroy_ok [OF ok] assms(2) by (auto simp: ref_move_assign_def)

text \<open>The variables of a program hold the references from outside.\<close>

definition vcount :: "nat option list \<Rightarrow> nat \<Rightarrow> nat" where
  "vcount vs x = count_list vs (Some x)"

lemma vcount_update: "i < length vs \<Longrightarrow> vcount (vs[i := r]) x = vcount (vs[i := None]) x + own r x"
  by (induction vs arbitrary: i) (auto simp: vcount_def own_def split: nat.splits)

lemma vcount_upd: "i < length vs \<Longrightarrow> vcount (vs[i := r]) = (\<lambda>x. vcount (vs[i := None]) x + own r x)"
  by (rule ext) (rule vcount_update)

lemma vcount_old: "i < length vs \<Longrightarrow> vcount vs = (\<lambda>x. vcount (vs[i := None]) x + own (vs ! i) x)"
  using vcount_update [of i vs "vs ! i"] by auto

lemma vcount_append [simp]: "vcount (vs @ [r]) = (\<lambda>x. vcount vs x + own r x)"
  by (auto simp: vcount_def own_def)

lemma vcount_pos: "i < length vs \<Longrightarrow> vs ! i = Some p \<Longrightarrow> 0 < vcount vs p"
  by (metis count_list_0_iff neq0_conv nth_mem vcount_def)

definition arena_ok :: "arena_world \<Rightarrow> bool" where
  "arena_ok w \<longleftrightarrow> aheap_ok (vcount (aw_vars w)) (aw_heap w) []"

fun arena_op_ok :: "arena_op \<Rightarrow> nat \<Rightarrow> bool" where
  "arena_op_ok A_new k \<longleftrightarrow> True"
| "arena_op_ok (A_reserve n) k \<longleftrightarrow> size_ok n"
| "arena_op_ok (A_copy i) k \<longleftrightarrow> i < k"
| "arena_op_ok (A_move i) k \<longleftrightarrow> i < k"
| "arena_op_ok (A_assign i j) k \<longleftrightarrow> i < k \<and> j < k"
| "arena_op_ok (A_move_assign i j) k \<longleftrightarrow> i < k \<and> j < k"
| "arena_op_ok (A_dependsOn i j) k \<longleftrightarrow> i < k \<and> j < k"
| "arena_op_ok (A_alloc i n) k \<longleftrightarrow> i < k \<and> size_ok n"
| "arena_op_ok (A_destroy i) k \<longleftrightarrow> i < k"

text \<open>The variables that hold after an operation what variable \<open>k\<close> of \<open>m\<close> held before it.\<close>

fun heirs :: "arena_op \<Rightarrow> nat \<Rightarrow> nat \<Rightarrow> nat set" where
  "heirs (A_copy i) m k = (if k = i then {k, m} else {k})"
| "heirs (A_move i) m k = (if k = i then {m} else {k})"
| "heirs (A_assign i j) m k = {k} - {i} \<union> (if k = j then {i} else {})"
| "heirs (A_move_assign i j) m k = (if k = j then {i} else {k} - {i})"
| "heirs (A_dependsOn i j) m k = (if k = j then {k, i} else {k})"
| "heirs (A_destroy i) m k = {k} - {i}"
| "heirs op m k = {k}"

definition passes_on :: "arena_op \<Rightarrow> arena_world \<Rightarrow> arena_world \<Rightarrow> bool" where
  "passes_on op w w' \<longleftrightarrow>
     (\<forall>k q n. k < length (aw_vars w) \<longrightarrow> q \<in> heirs op (length (aw_vars w)) k \<longrightarrow> holds (aw_heap w) (aw_vars w ! k) n \<longrightarrow>
        holds (aw_heap w') (aw_vars w' ! q) n \<and> stays (aw_heap w) (aw_heap w') n)"

lemma passes_onI:
  assumes "kept (vcount (aw_vars w')) (aw_heap w) (aw_heap w')"
    and "\<And>k q. k < length (aw_vars w) \<Longrightarrow> q \<in> heirs op (length (aw_vars w)) k \<Longrightarrow>
      q < length (aw_vars w') \<and> aw_vars w' ! q = aw_vars w ! k"
  shows "passes_on op w w'"
  unfolding passes_on_def
proof (intro allI impI)
  fix k q n assume k: "k < length (aw_vars w)" "q \<in> heirs op (length (aw_vars w)) k" and h: "holds (aw_heap w) (aw_vars w ! k) n"
  then obtain p where p: "aw_vars w ! k = Some p" "areach (aw_heap w) p n" by (auto simp: holds_def)
  then have "0 < vcount (aw_vars w') p" using assms(2) [OF k] vcount_pos by metis
  then show "holds (aw_heap w') (aw_vars w' ! q) n \<and> stays (aw_heap w) (aw_heap w') n"
    using assms(1) p assms(2) [OF k] unfolding kept_def holds_def by metis
qed

lemma passes_on_grow:
  assumes ok: "arena_ok w" and ext: "heap_ext (aw_heap w) (aw_heap w')"
    and holds: "\<And>k q n. k < length (aw_vars w) \<Longrightarrow> q \<in> heirs op (length (aw_vars w)) k \<Longrightarrow> holds (aw_heap w) (aw_vars w ! k) n \<Longrightarrow>
      holds (aw_heap w') (aw_vars w' ! q) n"
  shows "passes_on op w w'"
  unfolding passes_on_def
proof (intro allI impI)
  fix k q n assume k: "k < length (aw_vars w)" "q \<in> heirs op (length (aw_vars w)) k" "holds (aw_heap w) (aw_vars w ! k) n"
  then obtain p where p: "aw_vars w ! k = Some p" "areach (aw_heap w) p n" by (auto simp: holds_def)
  have "kept (vcount (aw_vars w)) (aw_heap w) (aw_heap w')" using kept_grow ok ext unfolding arena_ok_def by blast
  then have "stays (aw_heap w) (aw_heap w') n" using p vcount_pos [OF k(1) p(1)] unfolding kept_def by blast
  then show "holds (aw_heap w') (aw_vars w' ! q) n \<and> stays (aw_heap w) (aw_heap w') n" using holds [OF k] by blast
qed

definition arena_safe :: "arena_op \<Rightarrow> arena_world \<Rightarrow> bool" where
  "arena_safe op w \<longleftrightarrow> (\<exists>w'. arena_do op w = Some (Inr w') \<and> arena_ok w' \<and> passes_on op w w')"

lemma size_ok_max: "size_ok n \<Longrightarrow> 0 \<le> n \<and> n < INT_MAX"
  by (simp add: size_ok_def arena_sizes)

lemma new_safe: "arena_ok w \<Longrightarrow> arena_safe A_new w"
  unfolding arena_safe_def
  by (intro exI [of _ "w\<lparr>aw_vars := aw_vars w @ [None]\<rparr>"] conjI passes_on_grow)
    (auto simp: arena_ok_def own_def nth_append)

lemma reserve_safe:
  assumes ok: "arena_ok w" and n: "size_ok n"
  shows "arena_safe (A_reserve n) w"
proof -
  have ok0: "aheap_ok (\<lambda>x. vcount (aw_vars w) x + own None x) (aw_heap w) []" using ok by (simp add: arena_ok_def own_def)
  obtain r h where r: "arena_reserve n (aw_heap w) = Inr (r, h)" "aheap_ok (\<lambda>x. vcount (aw_vars w) x + own r x) h []" "heap_ext (aw_heap w) h"
  proof (cases "n = 0")
    case True then show thesis using that [of None "aw_heap w"] ok0 by (simp add: arena_reserve_def assert_that_def INT_MAX_def)
  next
    case False
    then show thesis using create_ok [OF ok0 n] that size_ok_max [OF n] by (auto simp: arena_reserve_def assert_that_def)
  qed
  let ?w = "\<lparr>aw_heap = h, aw_vars = aw_vars w @ [r]\<rparr>"
  have "passes_on (A_reserve n) w ?w"
    using r(3) by (intro passes_on_grow [OF ok]) (auto simp: nth_append intro: holds_ext)
  then show ?thesis using r(1,2) by (auto simp: arena_safe_def arena_ok_def)
qed

lemma copy_safe:
  assumes ok: "arena_ok w" and i: "i < length (aw_vars w)"
  shows "arena_safe (A_copy i) w"
proof -
  let ?r = "aw_vars w ! i"
  obtain h where h: "ref_copy ?r (aw_heap w) = Inr (?r, h)" "aheap_ok (\<lambda>x. vcount (aw_vars w) x + own ?r x) h []"
      "kept (vcount (aw_vars w)) (aw_heap w) h"
    using ref_copy_ok [of "vcount (aw_vars w)" "aw_heap w" ?r] ok vcount_pos [OF i] unfolding arena_ok_def by blast
  have "0 < vcount (aw_vars w) p" if "0 < vcount (aw_vars w @ [?r]) p" for p
  proof (cases "?r = Some p")
    case True then show ?thesis by (rule vcount_pos [OF i])
  next
    case False then show ?thesis using that by (simp add: own_def)
  qed
  then have "kept (vcount (aw_vars w @ [?r])) (aw_heap w) h" using h(3) unfolding kept_def by blast
  then have "passes_on (A_copy i) w \<lparr>aw_heap = h, aw_vars = aw_vars w @ [?r]\<rparr>"
    by (intro passes_onI) (auto simp: nth_append split: if_splits)
  then show ?thesis using h(1,2) by (auto simp: arena_safe_def arena_ok_def)
qed

lemma move_safe:
  assumes ok: "arena_ok w" and i: "i < length (aw_vars w)"
  shows "arena_safe (A_move i) w"
proof -
  let ?vs = "(aw_vars w)[i := None] @ [aw_vars w ! i]"
  have "vcount ?vs = vcount (aw_vars w)" using vcount_old [OF i] by simp
  then have a: "arena_ok (w\<lparr>aw_vars := ?vs\<rparr>)" using ok by (simp add: arena_ok_def)
  then have "kept (vcount ?vs) (aw_heap w) (aw_heap w)" using kept_grow [of "vcount ?vs" "aw_heap w"] unfolding arena_ok_def by simp
  then have "passes_on (A_move i) w (w\<lparr>aw_vars := ?vs\<rparr>)"
    by (intro passes_onI) (auto simp: nth_append split: if_splits)
  then show ?thesis using a by (auto simp: arena_safe_def)
qed

lemma assign_safe:
  assumes ok: "arena_ok w" and i: "i < length (aw_vars w)" and j: "j < length (aw_vars w)"
  shows "arena_safe (A_assign i j) w"
proof -
  let ?G = "vcount ((aw_vars w)[i := None])" and ?r = "aw_vars w ! j" and ?v = "aw_vars w ! i"
  have ok': "aheap_ok (\<lambda>x. ?G x + own ?v x) (aw_heap w) []" using ok vcount_old [OF i] by (simp add: arena_ok_def)
  have r: "0 < ?G p + own ?v p" if "?r = Some p" for p using vcount_pos [OF j that] vcount_old [OF i] by metis
  obtain h where h: "ref_assign ?v ?r (aw_heap w) = Some (Inr (?r, h))" "aheap_ok (\<lambda>x. ?G x + own ?r x) h []"
      "kept (\<lambda>x. ?G x + own ?r x) (aw_heap w) h" using ref_assign_ok [OF ok' r] by blast
  let ?w = "\<lparr>aw_heap = h, aw_vars = (aw_vars w)[i := ?r]\<rparr>"
  have c: "vcount (aw_vars ?w) = (\<lambda>x. ?G x + own ?r x)" using vcount_upd [OF i, of ?r] by simp
  have "passes_on (A_assign i j) w ?w"
    using h(3) i j c by (intro passes_onI) (auto simp: nth_list_update split: if_splits)
  then show ?thesis using h(1,2) c by (auto simp: arena_safe_def arena_ok_def)
qed

lemma destroy_safe:
  assumes ok: "arena_ok w" and i: "i < length (aw_vars w)"
  shows "arena_safe (A_destroy i) w"
proof -
  let ?G = "vcount ((aw_vars w)[i := None])"
  have ok': "aheap_ok (\<lambda>x. ?G x + own (aw_vars w ! i) x) (aw_heap w) []" using ok vcount_old [OF i] by (simp add: arena_ok_def)
  obtain h where h: "ref_destroy (aw_vars w ! i) (aw_heap w) = Some (Inr h)" "aheap_ok ?G h []" "kept ?G (aw_heap w) h"
    using ref_destroy_ok [OF ok'] by blast
  have "passes_on (A_destroy i) w \<lparr>aw_heap = h, aw_vars = (aw_vars w)[i := None]\<rparr>"
    using h(3) i by (intro passes_onI) (auto simp: nth_list_update split: if_splits)
  then show ?thesis using h(1,2) by (auto simp: arena_safe_def arena_ok_def)
qed

lemma move_assign_safe:
  assumes ok: "arena_ok w" and i: "i < length (aw_vars w)" and j: "j < length (aw_vars w)"
  shows "arena_safe (A_move_assign i j) w"
proof (cases "aw_vars w ! i = aw_vars w ! j")
  case True
  have "passes_on (A_move_assign i j) w w"
    using True by (intro passes_on_grow [OF ok]) (auto split: if_splits)
  moreover have "arena_do (A_move_assign i j) w = Some (Inr w)" using True list_update_id [of "aw_vars w" i] by (cases w) (simp add: ref_move_assign_def)
  ultimately show ?thesis using ok by (auto simp: arena_safe_def)
next
  case False
  let ?vs = "aw_vars w" let ?v = "?vs ! i" and ?r = "?vs ! j"
  let ?G = "vcount (?vs[j := None, i := None])"
  have ij: "i \<noteq> j" using False by auto
  have "vcount ?vs = (\<lambda>x. vcount (?vs[i := None]) x + own ?v x)" using vcount_old [OF i] .
  moreover have "vcount (?vs[i := None]) = (\<lambda>x. vcount (?vs[i := None, j := None]) x + own ?r x)"
    using vcount_old [of j "?vs[i := None]"] j ij by simp
  ultimately have "vcount ?vs = (\<lambda>x. (?G x + own ?r x) + own ?v x)" using list_update_swap [OF ij, of ?vs] by simp
  then have ok': "aheap_ok (\<lambda>x. (?G x + own ?r x) + own ?v x) (aw_heap w) []" using ok by (simp add: arena_ok_def)
  obtain h where h: "ref_move_assign ?v ?r (aw_heap w) = Some (Inr (?r, None, h))" "aheap_ok (\<lambda>x. ?G x + own ?r x) h []"
      "kept (\<lambda>x. ?G x + own ?r x) (aw_heap w) h" using ref_move_assign_ok [OF ok' False] by blast
  let ?w = "\<lparr>aw_heap = h, aw_vars = ?vs[j := None, i := ?r]\<rparr>"
  have c: "vcount (aw_vars ?w) = (\<lambda>x. ?G x + own ?r x)" using vcount_upd [of i "?vs[j := None]" ?r] i by simp
  have "passes_on (A_move_assign i j) w ?w"
    using h(3) i j c by (intro passes_onI) (auto simp: nth_list_update split: if_splits)
  then show ?thesis using h(1,2) c by (auto simp: arena_safe_def arena_ok_def)
qed

lemma dependsOn_safe:
  assumes ok: "arena_ok w" and i: "i < length (aw_vars w)" and j: "j < length (aw_vars w)"
  shows "arena_safe (A_dependsOn i j) w"
proof -
  let ?vs = "aw_vars w" let ?v = "?vs ! i" and ?r = "?vs ! j" let ?G = "vcount (?vs[i := None])"
  have ok': "aheap_ok (\<lambda>x. ?G x + own ?v x) (aw_heap w) []" using ok vcount_old [OF i] by (simp add: arena_ok_def)
  obtain v' h where d: "arena_dependsOn ?v ?r (aw_heap w) = Inr (v', h)" "aheap_ok (\<lambda>x. ?G x + own v' x) h []" "heap_ext (aw_heap w) h"
      "\<forall>q. ?r = Some q \<longrightarrow> holds h v' q" "\<forall>p. holds (aw_heap w) ?v p \<longrightarrow> holds h v' p"
  proof (cases "?r")
    case None then show thesis using that [of ?v "aw_heap w"] ok' by (simp add: arena_dependsOn_def)
  next
    case (Some q)
    obtain c where "ah_blocks (aw_heap w) q = Some c"
      using heap_external [of "vcount ?vs" "aw_heap w" "[]" q] ok vcount_pos [OF j Some] unfolding arena_ok_def by blast
    then obtain v' h' where "arena_dependOn ?v q (aw_heap w) = Inr (v', h')" "aheap_ok (\<lambda>x. ?G x + own v' x) h' []" "heap_ext (aw_heap w) h'"
        "holds h' v' q" "\<forall>p. holds (aw_heap w) ?v p \<longrightarrow> holds h' v' p" using dependOn_ok [OF ok'] by blast
    then show thesis using that [of v' h'] Some by (simp add: arena_dependsOn_def)
  qed
  let ?w = "\<lparr>aw_heap = h, aw_vars = ?vs[i := v']\<rparr>"
  have c: "vcount (aw_vars ?w) = (\<lambda>x. ?G x + own v' x)"
    unfolding arena_world.simps by (rule ext) (rule vcount_update [OF i])
  have "holds h (?vs[i := v'] ! q) n"
    if k: "k < length ?vs" "q \<in> heirs (A_dependsOn i j) (length ?vs) k" "holds (aw_heap w) (?vs ! k) n" for k q n
  proof (cases "q = i \<and> k \<noteq> i")
    case True
    then have "k = j" using k(2) by (auto split: if_splits)
    then obtain p where p: "?r = Some p" using k(3) by (auto simp: holds_def)
    then have "holds h (Some p) n" using holds_ext [OF k(3) d(3)] \<open>k = j\<close> by simp
    then show ?thesis using holds_trans d(4) p True i by simp
  next
    case False
    then have "q = k" using k(2) by (auto split: if_splits)
    then show ?thesis using k(3) d(5) holds_ext [OF k(3) d(3)] i by (cases "k = i") auto
  qed
  then have "passes_on (A_dependsOn i j) w ?w" using d(3) by (intro passes_on_grow [OF ok]) simp_all
  then show ?thesis using d(1,2) c by (auto simp: arena_safe_def arena_ok_def)
qed

lemma alloc_run:
  assumes ok: "arena_ok w" and i: "i < length (aw_vars w)" and n: "size_ok n"
  shows "\<exists>p off r h b. arena_new n (aw_vars w ! i) (aw_heap w) = Inr ((p, off), r, h) \<and>
    arena_ok \<lparr>aw_heap = h, aw_vars = (aw_vars w)[i := r]\<rparr> \<and> passes_on (A_alloc i n) w \<lparr>aw_heap = h, aw_vars = (aw_vars w)[i := r]\<rparr> \<and>
    holds h r p \<and> ah_blocks h p = Some b \<and> ab_used b = off + n \<and> ab_used b \<le> ab_size b \<and>
    (if ab_isTiny b then TINY_HEADER else sizeof_ArenaBlock) \<le> off \<and>
    (\<forall>b0. ah_blocks (aw_heap w) p = Some b0 \<longrightarrow> ab_used b0 \<le> off) \<and> (\<forall>(o', q) \<in> set (ab_links b). o' + sizeof_ArenaBlockRef \<le> off)"
proof -
  let ?vs = "aw_vars w" let ?v = "?vs ! i" let ?G = "vcount (?vs[i := None])"
  have ok': "aheap_ok (\<lambda>x. ?G x + own ?v x) (aw_heap w) []" using ok vcount_old [OF i] by (simp add: arena_ok_def)
  obtain p off r h b where a: "arena_allocate ?v n (aw_heap w) = Inr ((p, off), r, h)" "aheap_ok (\<lambda>x. ?G x + own r x) h []"
      "heap_ext (aw_heap w) h" "\<forall>q. holds (aw_heap w) ?v q \<longrightarrow> holds h r q" "holds h r p" "ah_blocks h p = Some b" "ab_used b = off + n"
      "(if ab_isTiny b then TINY_HEADER else sizeof_ArenaBlock) \<le> off"
      "\<forall>b0. ah_blocks (aw_heap w) p = Some b0 \<longrightarrow> ab_used b0 \<le> off" "\<forall>(o', q) \<in> set (ab_links b). o' + sizeof_ArenaBlockRef \<le> off"
    using allocate_ok [OF ok' n] by blast
  let ?w = "\<lparr>aw_heap = h, aw_vars = ?vs[i := r]\<rparr>"
  have c: "vcount (?vs[i := r]) = (\<lambda>x. ?G x + own r x)" by (rule ext) (rule vcount_update [OF i])
  have "holds h (?vs[i := r] ! k) m" if "k < length ?vs" "holds (aw_heap w) (?vs ! k) m" for k m
    using that a(4) holds_ext [OF that(2) a(3)] i by (cases "k = i") auto
  then have "passes_on (A_alloc i n) w ?w" using a(3) by (intro passes_on_grow [OF ok]) auto
  moreover have "arena_new n ?v (aw_heap w) = Inr ((p, off), r, h)" using a(1) size_ok_max [OF n] by (simp add: arena_new_def assert_that_def)
  moreover have "arena_ok ?w" using a(2) c by (simp add: arena_ok_def)
  moreover have "ab_used b \<le> ab_size b" using block_size heap_block [OF a(2,6)] by blast
  ultimately show ?thesis using a(5-10) by blast
qed

text \<open>
  \<open>Arena\<close> asserts that a size is below \<open>INT_MAX\<close>, but the header is added to it as an \<open>int\<close>: near the limit the
  block asked for would be too small.  A block of a gigabyte makes doubling its size overflow in the next \<open>create\<close>.
\<close>

lemma arena_size_overflow: "arena_new (INT_MAX - 1) None h = Inl Undefined_behaviour"
  by (simp add: arena_new_def assert_that_def arena_allocate_def arena_create_def arena_reqSize_def arena_sizes)

lemma arena_next_overflow:
  assumes "ah_blocks h p = Some b" and "INT_MAX < ab_size b * 2" and "n + sizeof_ArenaBlock + sizeof_ArenaBlockRef < LARGE"
  shows "arena_create n (Some p) h = Inl Undefined_behaviour"
  using assms by (simp add: arena_create_def arena_reqSize_def get_block_def arena_sizes)

text \<open>
  Property C16: on every operation of \<open>Arena\<close> within its size limit (creation, reservation, copy, move, the two
  assignments, \<open>dependsOn\<close>, allocation, destruction), a program whose arenas are well formed runs without a fault: nothing is
  read after it was freed, nothing is freed twice, and destruction returns.  The reference count of every block is again
  the number of arenas and blocks that refer to it, and only blocks with references exist.  Whatever memory an arena held, the
  arenas that take its value after the operation hold, \<open>dependsOn\<close> included; in the blocks they hold, the bytes used stay used,
  and what is added lies behind them.
\<close>

theorem arena_operations_safe:
  assumes "arena_ok w" and "arena_op_ok op (length (aw_vars w))"
  shows "\<exists>w'. arena_do op w = Some (Inr w') \<and> arena_ok w' \<and>
    (\<forall>k q n. k < length (aw_vars w) \<longrightarrow> q \<in> heirs op (length (aw_vars w)) k \<longrightarrow> holds (aw_heap w) (aw_vars w ! k) n \<longrightarrow>
       holds (aw_heap w') (aw_vars w' ! q) n \<and> stays (aw_heap w) (aw_heap w') n)"
proof -
  have "arena_safe op w"
  proof (cases op)
    case (A_alloc i n)
    then show ?thesis using alloc_run [OF assms(1), of i n] assms(2) by (force simp: arena_safe_def)
  qed (use assms new_safe reserve_safe copy_safe move_safe assign_safe move_assign_safe dependsOn_safe destroy_safe in auto)
  then show ?thesis unfolding arena_safe_def passes_on_def .
qed

definition sample_world :: arena_world where
  "sample_world =
     \<lparr>aw_heap = \<lparr>ah_blocks = [0 \<mapsto> (big_block 128)\<lparr>ab_rc := 2\<rparr>, 1 \<mapsto> (big_block 256)\<lparr>ab_bigUsed := 36, ab_links := [(20, 0)]\<rparr>],
        ah_fresh = 2, ah_huge = 0\<rparr>, aw_vars = [Some 0, Some 1]\<rparr>"

lemma sample_blocks: "dom (ah_blocks (aw_heap sample_world)) = {0, 1}"
  by (auto simp: sample_world_def)

lemma sample_ok: "arena_ok sample_world"
proof -
  have i: "indeg (ah_blocks (aw_heap sample_world)) p = (if p = 0 then 1 else 0)" for p
    unfolding indeg_def sample_blocks by (simp add: sample_world_def links_to_def big_block_def)
  have b: "block_ok ((big_block 128)\<lparr>ab_rc := 2\<rparr>)" "block_ok ((big_block 256)\<lparr>ab_bigUsed := 36, ab_links := [(20, 0)]\<rparr>)"
    by (simp_all add: block_ok_def big_block_def ab_isTiny_def arena_sizes)
  have "refs (vcount (aw_vars sample_world)) (aw_heap sample_world) p = (if p = 0 then 2 else if p = 1 then 1 else 0)" for p
    unfolding refs_def i by (simp add: sample_world_def vcount_def)
  then show ?thesis unfolding arena_ok_def
    by (intro heap_okI) (use b in \<open>auto simp: sample_world_def big_block_def split: if_splits\<close>)
qed

theorem arena_operations_safe_witness:
  "arena_ok sample_world \<and> arena_op_ok (A_move_assign 1 0) (length (aw_vars sample_world)) \<and>
    (\<exists>w'. arena_do (A_move_assign 1 0) sample_world = Some (Inr w') \<and> arena_ok w')"
proof -
  have op: "arena_op_ok (A_move_assign 1 0) (length (aw_vars sample_world))" by (simp add: sample_world_def)
  then show ?thesis using arena_operations_safe [OF sample_ok op] sample_ok by blast
qed

text \<open>
  Property C17: memory allocated in an arena lies in one block, which the arena holds, behind every byte that was used in it before and behind the
  references to other blocks in it, and after the
  header of the block and before its end: the first \<open>off + n\<close> bytes are in use afterwards.  So
  two allocations never overlap, as no operation gives back bytes of a block that is held.
\<close>

theorem arena_allocation:
  assumes "arena_ok w" and "i < length (aw_vars w)" and "size_ok n"
  shows "\<exists>p off r h b. arena_new n (aw_vars w ! i) (aw_heap w) = Inr ((p, off), r, h) \<and> holds h r p \<and>
    ah_blocks h p = Some b \<and> off + n = ab_used b \<and> ab_used b \<le> ab_size b \<and>
    (if ab_isTiny b then TINY_HEADER else sizeof_ArenaBlock) \<le> off \<and>
    (\<forall>b0. ah_blocks (aw_heap w) p = Some b0 \<longrightarrow> ab_used b0 \<le> off) \<and> (\<forall>(o', q) \<in> set (ab_links b). o' + sizeof_ArenaBlockRef \<le> off)"
proof -
  obtain p off r h b where "arena_new n (aw_vars w ! i) (aw_heap w) = Inr ((p, off), r, h)" "holds h r p" "ah_blocks h p = Some b"
      "ab_used b = off + n" "ab_used b \<le> ab_size b"
      "(if ab_isTiny b then TINY_HEADER else sizeof_ArenaBlock) \<le> off" "\<forall>b0. ah_blocks (aw_heap w) p = Some b0 \<longrightarrow> ab_used b0 \<le> off"
      "\<forall>(o', q) \<in> set (ab_links b). o' + sizeof_ArenaBlockRef \<le> off"
    using alloc_run [OF assms] by blast
  then show ?thesis by (intro exI [of _ p] exI [of _ off] exI [of _ r] exI [of _ h] exI [of _ b]) simp
qed

theorem arena_allocation_witness:
  "arena_ok sample_world \<and> 1 < length (aw_vars sample_world) \<and> size_ok 200 \<and>
    (\<exists>p off r h. arena_new 200 (aw_vars sample_world ! 1) (aw_heap sample_world) = Inr ((p, off), r, h) \<and> holds h r p)"
proof -
  have i: "1 < length (aw_vars sample_world)" by (simp add: sample_world_def)
  have n: "size_ok 200" by (simp add: size_ok_def arena_sizes)
  show ?thesis using arena_allocation [OF sample_ok i n] sample_ok i n by blast
qed

end
