(* ===== verification/Thread_Queue.thy ===== *)
theory Thread_Queue
  imports Flow_Prelude
begin

text \<open>
  The queue between threads (\<open>ThreadSafeQueue\<close> of \<open>src/flow/ThreadSafeQueue.h\<close>): any number of producers and one
  consumer.  An operation is a sequence of steps, each with one access to memory that threads share; what a
  thread does between two accesses belongs to the step before.  Threads take their steps in any order, on
  a memory that is sequentially consistent.  Reading or writing a node that was freed is undefined behaviour;
  the allocator may use its address again.
\<close>

subsection \<open>Nodes and the queue\<close>

text \<open>A null pointer is \<open>None\<close>.  The history of the values pushed (in the order of the exchanges on \<open>head\<close>) and of
  those popped is kept with the queue.\<close>

datatype tnode = Stub | Sleeping | Node nat

record 'a tsq =
  tq_next :: "tnode \<Rightarrow> tnode option"
  tq_data :: "nat \<Rightarrow> 'a option"
  tq_head :: tnode
  tq_tail :: tnode
  tq_sleepy :: bool
  tq_pushed :: "'a list"
  tq_popped :: "'a list"

definition tsq_init :: "'a tsq" where
  "tsq_init = \<lparr>tq_next = (\<lambda>_. None), tq_data = (\<lambda>_. None), tq_head = Stub, tq_tail = Stub, tq_sleepy = False,
     tq_pushed = [], tq_popped = []\<rparr>"

definition tq_live :: "'a tsq \<Rightarrow> tnode \<Rightarrow> bool" where
  "tq_live q n = (case n of Node k \<Rightarrow> tq_data q k \<noteq> None | _ \<Rightarrow> True)"

definition tq_values :: "'a tsq \<Rightarrow> tnode \<Rightarrow> 'a list" where
  "tq_values q n = (case n of Node k \<Rightarrow> (case tq_data q k of None \<Rightarrow> [] | Some v \<Rightarrow> [v]) | _ \<Rightarrow> [])"

definition read_next :: "tnode \<Rightarrow> 'a tsq \<Rightarrow> tnode option result" where
  "read_next n q = (if tq_live q n then Inr (tq_next q n) else Inl Undefined_behaviour)"

definition write_next :: "tnode \<Rightarrow> tnode option \<Rightarrow> 'a tsq \<Rightarrow> 'a tsq result" where
  "write_next n p q = (if tq_live q n then Inr (q\<lparr>tq_next := (tq_next q)(n := p)\<rparr>) else Inl Undefined_behaviour)"

subsection \<open>Pushing a node\<close>

datatype push_pc =
    Push_start tnode
  | Push_exchange tnode
  | Push_link tnode tnode
  | Push_ret tnode

fun pushNode_step :: "push_pc \<Rightarrow> 'a tsq \<Rightarrow> (push_pc \<times> 'a tsq) result" where
  "pushNode_step (Push_start n) q = bind_result (write_next n None q) (\<lambda>q1. Inr (Push_exchange n, q1))"
| "pushNode_step (Push_exchange n) q =
     Inr (Push_link n (tq_head q), q\<lparr>tq_head := n, tq_pushed := tq_pushed q @ tq_values q n\<rparr>)"
| "pushNode_step (Push_link n prev) q = bind_result (write_next prev (Some n) q) (\<lambda>q1. Inr (Push_ret prev, q1))"
| "pushNode_step (Push_ret prev) q = Inr (Push_ret prev, q)"

subsection \<open>Popping a node\<close>

datatype pop_pc =
    Pop_start
  | Pop_next tnode
  | Pop_head tnode
  | Pop_push tnode push_pc
  | Pop_last tnode
  | Pop_ret "tnode option"

text \<open>With \<open>next\<close> read: either \<open>tail\<close> moves on, or \<open>head\<close> has to be looked at.\<close>

definition pop_decide :: "tnode \<Rightarrow> tnode option \<Rightarrow> 'a tsq \<Rightarrow> pop_pc \<times> 'a tsq" where
  "pop_decide t next q = (case next of Some m \<Rightarrow> (Pop_ret (Some t), q\<lparr>tq_tail := m\<rparr>) | None \<Rightarrow> (Pop_head t, q))"

fun popNode_step :: "pop_pc \<Rightarrow> 'a tsq \<Rightarrow> (pop_pc \<times> 'a tsq) result" where
  "popNode_step Pop_start q =
     (let t = tq_tail q
      in bind_result (read_next t q) (\<lambda>next.
           if t = Stub
           then case next of None \<Rightarrow> Inr (Pop_ret None, q) | Some m \<Rightarrow> Inr (Pop_next m, q\<lparr>tq_tail := m\<rparr>)
           else Inr (pop_decide t next q)))"
| "popNode_step (Pop_next t) q = bind_result (read_next t q) (\<lambda>next. Inr (pop_decide t next q))"
| "popNode_step (Pop_head t) q =
     (if t \<noteq> tq_head q then Inr (Pop_ret None, q) else Inr (Pop_push t (Push_start Stub), q))"
| "popNode_step (Pop_push t pc) q =
     bind_result (pushNode_step pc q) (\<lambda>(pc1, q1).
       Inr (case pc1 of Push_ret _ \<Rightarrow> Pop_last t | _ \<Rightarrow> Pop_push t pc1, q1))"
| "popNode_step (Pop_last t) q =
     bind_result (read_next t q) (\<lambda>next.
       case next of Some m \<Rightarrow> Inr (Pop_ret (Some t), q\<lparr>tq_tail := m\<rparr>) | None \<Rightarrow> Inr (Pop_ret None, q))"
| "popNode_step (Pop_ret r) q = Inr (Pop_ret r, q)"

subsection \<open>The operations of the consumer\<close>

datatype 'a consumer =
    C_idle
  | C_pop pop_pc
  | C_pop_again pop_pc
  | C_popped "'a option"
  | C_canSleep
  | C_sleep push_pc
  | C_slept bool

text \<open>The end of \<open>pop\<close>: the two assertions, then the data is moved out of the node and the node deleted.\<close>

definition pop_finish :: "tnode option \<Rightarrow> 'a tsq \<Rightarrow> ('a option \<times> 'a tsq) result" where
  "pop_finish b q =
     bind_result (assert_that (b \<noteq> Some Sleeping)) (\<lambda>_.
     bind_result (assert_that (b \<noteq> Some Stub)) (\<lambda>_.
       case b of
         Some (Node k) \<Rightarrow>
           (case tq_data q k of
              None \<Rightarrow> Inl Undefined_behaviour
            | Some v \<Rightarrow> Inr (Some v, q\<lparr>tq_data := (tq_data q)(k := None), tq_popped := tq_popped q @ [v]\<rparr>))
       | _ \<Rightarrow> Inr (None, q)))"

fun consumer_step :: "'a consumer \<Rightarrow> 'a tsq \<Rightarrow> ('a consumer \<times> 'a tsq) result" where
  "consumer_step (C_pop pc) q =
     (case pc of
        Pop_ret b \<Rightarrow>
          if b = Some Sleeping then Inr (C_pop_again Pop_start, q\<lparr>tq_sleepy := False\<rparr>)
          else bind_result (pop_finish b q) (\<lambda>(r, q1). Inr (C_popped r, q1))
      | _ \<Rightarrow> bind_result (popNode_step pc q) (\<lambda>(pc1, q1). Inr (C_pop pc1, q1)))"
| "consumer_step (C_pop_again pc) q =
     (case pc of
        Pop_ret b \<Rightarrow> bind_result (pop_finish b q) (\<lambda>(r, q1). Inr (C_popped r, q1))
      | _ \<Rightarrow> bind_result (popNode_step pc q) (\<lambda>(pc1, q1). Inr (C_pop_again pc1, q1)))"
| "consumer_step C_canSleep q =
     (if tq_sleepy q \<or> tq_tail q \<noteq> Stub then Inr (C_slept False, q)
      else bind_result (read_next (tq_tail q) q) (\<lambda>next.
             if next \<noteq> None then Inr (C_slept False, q) else Inr (C_sleep (Push_start Sleeping), q)))"
| "consumer_step (C_sleep pc) q =
     bind_result (pushNode_step pc q) (\<lambda>(pc1, q1).
       case pc1 of
         Push_ret prev \<Rightarrow> Inr (C_slept (prev = Stub), q1\<lparr>tq_sleepy := True\<rparr>)
       | _ \<Rightarrow> Inr (C_sleep pc1, q1))"
| "consumer_step c q = Inr (c, q)"

subsection \<open>Threads\<close>

text \<open>
  A producer is between two pushes, of which the last returned a value, or inside one.  \<open>ts_woken\<close> says whether some push has returned
  true, so that its thread wakes the consumer, since the consumer last called \<open>canSleep\<close>.
\<close>

datatype producer = P_done bool | P_push push_pc

record 'a tsq_system =
  ts_queue :: "'a tsq"
  ts_producers :: "nat \<Rightarrow> producer"
  ts_consumer :: "'a consumer"
  ts_woken :: bool

definition tsq_start :: "'a tsq_system" where
  "tsq_start = \<lparr>ts_queue = tsq_init, ts_producers = (\<lambda>_. P_done False), ts_consumer = C_idle, ts_woken = False\<rparr>"

datatype 'a tsq_action =
    Begin_push nat nat 'a
  | Push_step nat
  | Begin_pop
  | Begin_canSleep
  | Consumer_step

definition consumer_rests :: "'a consumer \<Rightarrow> bool" where
  "consumer_rests c = (case c of C_idle \<Rightarrow> True | C_popped _ \<Rightarrow> True | C_slept _ \<Rightarrow> True | _ \<Rightarrow> False)"

definition producer_rests :: "producer \<Rightarrow> bool" where
  "producer_rests p = (case p of P_done _ \<Rightarrow> True | P_push _ \<Rightarrow> False)"

text \<open>An action a thread can take next.  \<open>Begin_push i k v\<close>: producer \<open>i\<close> gets address \<open>k\<close> from the allocator.\<close>

fun tsq_enabled :: "'a tsq_action \<Rightarrow> 'a tsq_system \<Rightarrow> bool" where
  "tsq_enabled (Begin_push i k v) s \<longleftrightarrow> producer_rests (ts_producers s i) \<and> tq_data (ts_queue s) k = None"
| "tsq_enabled (Push_step i) s \<longleftrightarrow> \<not> producer_rests (ts_producers s i)"
| "tsq_enabled Begin_pop s \<longleftrightarrow> consumer_rests (ts_consumer s)"
| "tsq_enabled Begin_canSleep s \<longleftrightarrow> consumer_rests (ts_consumer s)"
| "tsq_enabled Consumer_step s \<longleftrightarrow> \<not> consumer_rests (ts_consumer s)"

fun tsq_do :: "'a tsq_action \<Rightarrow> 'a tsq_system \<Rightarrow> 'a tsq_system result" where
  "tsq_do (Begin_push i k v) s =
     Inr (s\<lparr>ts_queue := (ts_queue s)\<lparr>tq_data := (tq_data (ts_queue s))(k \<mapsto> v)\<rparr>,
            ts_producers := (ts_producers s)(i := P_push (Push_start (Node k)))\<rparr>)"
| "tsq_do (Push_step i) s =
     (case ts_producers s i of
        P_done _ \<Rightarrow> Inr s
      | P_push pc \<Rightarrow>
          bind_result (pushNode_step pc (ts_queue s)) (\<lambda>(pc1, q1).
            Inr (case pc1 of
                   Push_ret prev \<Rightarrow>
                     s\<lparr>ts_queue := q1, ts_producers := (ts_producers s)(i := P_done (prev = Sleeping)),
                       ts_woken := (ts_woken s \<or> prev = Sleeping)\<rparr>
                 | _ \<Rightarrow> s\<lparr>ts_queue := q1, ts_producers := (ts_producers s)(i := P_push pc1)\<rparr>)))"
| "tsq_do Begin_pop s = Inr (s\<lparr>ts_consumer := C_pop Pop_start\<rparr>)"
| "tsq_do Begin_canSleep s = Inr (s\<lparr>ts_consumer := C_canSleep, ts_woken := False\<rparr>)"
| "tsq_do Consumer_step s =
     bind_result (consumer_step (ts_consumer s) (ts_queue s)) (\<lambda>(c, q). Inr (s\<lparr>ts_consumer := c, ts_queue := q\<rparr>))"

inductive tsq_reachable :: "'a tsq_system \<Rightarrow> bool" where
  tsq_reach_init: "tsq_reachable tsq_start"
| tsq_reach_step: "tsq_reachable s \<Longrightarrow> tsq_enabled a s \<Longrightarrow> tsq_do a s = Inr s' \<Longrightarrow> tsq_reachable s'"

subsection \<open>The chain of nodes\<close>

text \<open>
  The nodes from \<open>tail\<close> to \<open>head\<close> in the order in which they were exchanged into \<open>head\<close>.  A node refers to the one after it, or the
  thread that pushed that one has still to write the reference.
\<close>

fun adj :: "'b list \<Rightarrow> 'b \<Rightarrow> 'b \<Rightarrow> bool" where
  "adj (x # y # zs) a b \<longleftrightarrow> x = a \<and> y = b \<or> adj (y # zs) a b"
| "adj xs a b \<longleftrightarrow> False"

lemma adj_in: "adj c a b \<Longrightarrow> a \<in> set c \<and> b \<in> set (tl c)"
  by (induction c a b rule: adj.induct) auto

lemma adj_snoc: "adj (c @ [n]) a b \<longleftrightarrow> adj c a b \<or> c \<noteq> [] \<and> a = last c \<and> b = n"
  by (induction c a b rule: adj.induct) auto

lemma adj_Cons: "adj (x # c) a b \<longleftrightarrow> c \<noteq> [] \<and> a = x \<and> b = hd c \<or> adj c a b"
  by (cases c) auto

lemma adj_fun: "distinct c \<Longrightarrow> adj c a b \<Longrightarrow> adj c a b' \<Longrightarrow> b = b'"
proof (induction c)
  case (Cons x c)
  show ?case
  proof (cases "a = x")
    case True
    then have "\<not> adj c a b" "\<not> adj c a b'" using Cons.prems(1) adj_in by fastforce+
    then show ?thesis using Cons.prems(2,3) by (simp add: adj_Cons)
  next
    case False then show ?thesis using Cons by (simp add: adj_Cons)
  qed
qed simp

lemma adj_last: "distinct c \<Longrightarrow> adj c a b \<Longrightarrow> a \<noteq> last c"
proof (induction c)
  case (Cons x c)
  show ?case
  proof (cases "a = x")
    case True
    then have "c \<noteq> []" using Cons.prems(2) by auto
    then show ?thesis using True Cons.prems(1) by auto
  next
    case False then show ?thesis using Cons by (auto simp: adj_Cons)
  qed
qed simp

type_synonym pcs = "nat option \<Rightarrow> push_pc option"

text \<open>The node a thread is pushing, and whether it is not in the chain yet.\<close>

fun pc_node :: "push_pc \<Rightarrow> tnode option" where
  "pc_node (Push_start n) = Some n"
| "pc_node (Push_exchange n) = Some n"
| "pc_node (Push_link n p) = Some n"
| "pc_node (Push_ret p) = None"

definition pushes :: "pcs \<Rightarrow> nat option \<Rightarrow> tnode \<Rightarrow> bool" where
  "pushes T t n \<longleftrightarrow> (\<exists>pc. T t = Some pc \<and> pc_node pc = Some n)"

fun pc_out :: "push_pc \<Rightarrow> tnode option" where
  "pc_out (Push_start n) = Some n"
| "pc_out (Push_exchange n) = Some n"
| "pc_out _ = None"

definition owned :: "pcs \<Rightarrow> tnode \<Rightarrow> bool" where
  "owned T n \<longleftrightarrow> (\<exists>t pc. T t = Some pc \<and> pc_out pc = Some n)"

definition owned_others :: "pcs \<Rightarrow> nat option \<Rightarrow> tnode \<Rightarrow> bool" where
  "owned_others T t n \<longleftrightarrow> (\<exists>u pc. u \<noteq> t \<and> T u = Some pc \<and> pc_out pc = Some n)"

definition chain_inv :: "tnode list \<Rightarrow> 'a tsq \<Rightarrow> pcs \<Rightarrow> bool" where
  "chain_inv c q T \<longleftrightarrow>
     c \<noteq> [] \<and> distinct c \<and> hd c = tq_tail q \<and> last c = tq_head q \<and> tq_next q (last c) = None \<and> (\<forall>n \<in> set c. tq_live q n) \<and>
     (\<forall>a b. adj c a b \<longrightarrow> tq_next q a = Some b \<or> tq_next q a = None \<and> (\<exists>t. T t = Some (Push_link b a))) \<and>
     (\<forall>t n p. T t = Some (Push_link n p) \<longrightarrow> tq_next q p = None \<and> adj c p n) \<and>
     (\<forall>n. owned T n \<longrightarrow> n \<notin> set c \<and> tq_live q n) \<and>
     (\<forall>t n. T t = Some (Push_exchange n) \<longrightarrow> tq_next q n = None) \<and>
     (\<forall>t t' n. pushes T t n \<longrightarrow> pushes T t' n \<longrightarrow> t = t') \<and> (\<forall>t p. T t \<noteq> Some (Push_ret p))"

lemma chain_invD:
  assumes "chain_inv c q T"
  shows "c \<noteq> []" and "distinct c" and "hd c = tq_tail q" and "last c = tq_head q" and "tq_next q (last c) = None"
    and "n \<in> set c \<Longrightarrow> tq_live q n"
    and "adj c a b \<Longrightarrow> tq_next q a = Some b \<or> tq_next q a = None \<and> (\<exists>t. T t = Some (Push_link b a))"
    and "T t = Some (Push_link n p) \<Longrightarrow> tq_next q p = None \<and> adj c p n"
    and "owned T n \<Longrightarrow> n \<notin> set c \<and> tq_live q n"
    and "T t = Some (Push_exchange n) \<Longrightarrow> tq_next q n = None"
    and "pushes T t n \<Longrightarrow> pushes T t' n \<Longrightarrow> t = t'"
    and "T t \<noteq> Some (Push_ret p)"
  using assms unfolding chain_inv_def by blast+

lemma chain_invI:
  assumes "c \<noteq> []" and "distinct c" and "hd c = tq_tail q" and "last c = tq_head q" and "tq_next q (last c) = None"
    and "\<And>n. n \<in> set c \<Longrightarrow> tq_live q n"
    and "\<And>a b. adj c a b \<Longrightarrow> tq_next q a = Some b \<or> tq_next q a = None \<and> (\<exists>t. T t = Some (Push_link b a))"
    and "\<And>t n p. T t = Some (Push_link n p) \<Longrightarrow> tq_next q p = None \<and> adj c p n"
    and "\<And>n. owned T n \<Longrightarrow> n \<notin> set c \<and> tq_live q n"
    and "\<And>t n. T t = Some (Push_exchange n) \<Longrightarrow> tq_next q n = None"
    and "\<And>t t' n. pushes T t n \<Longrightarrow> pushes T t' n \<Longrightarrow> t = t'"
    and "\<And>t p. T t \<noteq> Some (Push_ret p)"
  shows "chain_inv c q T"
  unfolding chain_inv_def using assms by blast

lemma owned_upd: "owned (T(t := x)) n \<longleftrightarrow> (\<exists>pc. x = Some pc \<and> pc_out pc = Some n) \<or> owned_others T t n"
proof
  assume "owned (T(t := x)) n"
  then obtain u pc where "(T(t := x)) u = Some pc" "pc_out pc = Some n" unfolding owned_def by blast
  then show "(\<exists>pc. x = Some pc \<and> pc_out pc = Some n) \<or> owned_others T t n"
    by (cases "u = t") (auto simp: owned_others_def)
next
  assume "(\<exists>pc. x = Some pc \<and> pc_out pc = Some n) \<or> owned_others T t n"
  then show "owned (T(t := x)) n"
  proof
    assume "\<exists>pc. x = Some pc \<and> pc_out pc = Some n"
    then obtain pc where "(T(t := x)) t = Some pc" "pc_out pc = Some n" by auto
    then show ?thesis unfolding owned_def by blast
  next
    assume "owned_others T t n"
    then obtain u pc where "u \<noteq> t" "T u = Some pc" "pc_out pc = Some n" unfolding owned_others_def by blast
    then show ?thesis unfolding owned_def by (intro exI [of _ u] exI [of _ pc]) simp
  qed
qed

lemma owned_at: "owned T n \<longleftrightarrow> (\<exists>pc. T t = Some pc \<and> pc_out pc = Some n) \<or> owned_others T t n"
  using owned_upd [of T t "T t" n] by simp

lemma pushes_upd: "pushes (T(t := x)) u n \<longleftrightarrow> (if u = t then (\<exists>pc. x = Some pc \<and> pc_node pc = Some n) else pushes T u n)"
  by (simp add: pushes_def)

lemma pc_out_node: "pc_out pc = Some n \<Longrightarrow> pc_node pc = Some n"
  by (cases pc) auto

lemma pushes_owned: "owned T n \<Longrightarrow> \<exists>t. pushes T t n"
  unfolding owned_def pushes_def using pc_out_node by blast

subsection \<open>Pushing keeps the chain\<close>

lemma push_start_chain:
  assumes inv: "chain_inv c q T" and t: "T t = Some (Push_start n)"
  shows "pushNode_step (Push_start n) q = Inr (Push_exchange n, q\<lparr>tq_next := (tq_next q)(n := None)\<rparr>)"
    and "chain_inv c (q\<lparr>tq_next := (tq_next q)(n := None)\<rparr>) (T(t \<mapsto> Push_exchange n))"
proof -
  note d = chain_invD [OF inv]
  have o: "owned T n" using t by (simp add: owned_at [of T n t])
  then have n: "n \<notin> set c" "tq_live q n" using d(9) by auto
  then show "pushNode_step (Push_start n) q = Inr (Push_exchange n, q\<lparr>tq_next := (tq_next q)(n := None)\<rparr>)"
    by (simp add: write_next_def)
  have live: "tq_live (q\<lparr>tq_next := f\<rparr>) m = tq_live q m" for f m by (simp add: tq_live_def split: tnode.splits)
  have ow: "owned (T(t \<mapsto> Push_exchange n)) m \<longleftrightarrow> owned T m" for m
    using t by (simp add: owned_upd owned_at [of T m t])
  have pu: "pushes (T(t \<mapsto> Push_exchange n)) u m \<longleftrightarrow> pushes T u m" for u m
    using t by (auto simp: pushes_upd pushes_def)
  show "chain_inv c (q\<lparr>tq_next := (tq_next q)(n := None)\<rparr>) (T(t \<mapsto> Push_exchange n))"
  proof (rule chain_invI)
    fix a b assume a: "adj c a b"
    then have "a \<noteq> n" using adj_in n(1) by metis
    moreover have "T u = Some (Push_link b a) \<Longrightarrow> u \<noteq> t" for u using t by auto
    ultimately show "tq_next (q\<lparr>tq_next := (tq_next q)(n := None)\<rparr>) a = Some b \<or>
        tq_next (q\<lparr>tq_next := (tq_next q)(n := None)\<rparr>) a = None \<and> (\<exists>u. (T(t \<mapsto> Push_exchange n)) u = Some (Push_link b a))"
      using d(7) [OF a] by auto
  next
    fix u m p assume "(T(t \<mapsto> Push_exchange n)) u = Some (Push_link m p)"
    then have "T u = Some (Push_link m p)" by (simp split: if_splits)
    then show "tq_next (q\<lparr>tq_next := (tq_next q)(n := None)\<rparr>) p = None \<and> adj c p m" using d(8) by simp
  next
    fix u m assume "(T(t \<mapsto> Push_exchange n)) u = Some (Push_exchange m)"
    then show "tq_next (q\<lparr>tq_next := (tq_next q)(n := None)\<rparr>) m = None" using d(10) by (auto split: if_splits)
  qed (use d n live ow pu in \<open>auto split: if_splits\<close>)
qed

lemma push_exchange_chain:
  assumes inv: "chain_inv c q T" and t: "T t = Some (Push_exchange n)"
  shows "chain_inv (c @ [n]) (q\<lparr>tq_head := n, tq_pushed := v\<rparr>) (T(t \<mapsto> Push_link n (tq_head q)))"
proof -
  note d = chain_invD [OF inv]
  let ?q = "q\<lparr>tq_head := n, tq_pushed := v\<rparr>" and ?T = "T(t \<mapsto> Push_link n (tq_head q))"
  have o: "owned T n" using t by (simp add: owned_at [of T n t])
  then have n: "n \<notin> set c" "tq_live q n" using d(9) by auto
  have live: "tq_live ?q m = tq_live q m" for m by (simp add: tq_live_def split: tnode.splits)
  have pu: "pushes ?T u m \<longleftrightarrow> pushes T u m" for u m using t by (auto simp: pushes_upd pushes_def)
  have ow: "owned ?T m \<Longrightarrow> m \<noteq> n \<and> owned T m" for m
  proof -
    assume "owned ?T m"
    then have oo: "owned_others T t m" by (simp add: owned_upd)
    then obtain u pc where u: "u \<noteq> t" "T u = Some pc" "pc_out pc = Some m" unfolding owned_others_def by blast
    have "pushes T u m" "pushes T t n" using u(2,3) pc_out_node t by (auto simp: pushes_def)
    then have "m \<noteq> n" using d(11) u(1) by blast
    then show "m \<noteq> n \<and> owned T m" using oo owned_at [of T m t] by blast
  qed
  show "chain_inv (c @ [n]) ?q ?T"
  proof (rule chain_invI)
    show "tq_next ?q (last (c @ [n])) = None" using d(10) [OF t] by simp
  next
    fix a b assume "adj (c @ [n]) a b"
    then have "adj c a b \<or> a = last c \<and> b = n" by (auto simp: adj_snoc)
    then show "tq_next ?q a = Some b \<or> tq_next ?q a = None \<and> (\<exists>u. ?T u = Some (Push_link b a))"
    proof
      assume "adj c a b"
      moreover have "T u = Some (Push_link b a) \<Longrightarrow> u \<noteq> t" for u using t by auto
      ultimately show ?thesis using d(7) [of a b] by auto
    next
      assume "a = last c \<and> b = n"
      then show ?thesis using d(4,5) by auto
    qed
  next
    fix u m p assume u: "?T u = Some (Push_link m p)"
    show "tq_next ?q p = None \<and> adj (c @ [n]) p m"
    proof (cases "u = t")
      case True
      then show ?thesis using u d(1,4,5) by (simp add: adj_snoc)
    next
      case False
      then show ?thesis using u d(8) by (simp add: adj_snoc)
    qed
  next
    fix m assume "owned ?T m"
    then show "m \<notin> set (c @ [n]) \<and> tq_live ?q m" using ow d(9) live by simp
  next
    fix u m assume "?T u = Some (Push_exchange m)"
    then show "tq_next ?q m = None" using d(10) by (simp split: if_splits)
  qed (use d n live pu in \<open>auto split: if_splits\<close>)
qed

lemma push_link_chain:
  assumes inv: "chain_inv c q T" and t: "T t = Some (Push_link n p)"
  shows "pushNode_step (Push_link n p) q = Inr (Push_ret p, q\<lparr>tq_next := (tq_next q)(p \<mapsto> n)\<rparr>)"
    and "chain_inv c (q\<lparr>tq_next := (tq_next q)(p \<mapsto> n)\<rparr>) (T(t := None))"
proof -
  note d = chain_invD [OF inv]
  let ?q = "q\<lparr>tq_next := (tq_next q)(p \<mapsto> n)\<rparr>" and ?T = "T(t := None)"
  have pn: "tq_next q p = None" "adj c p n" using d(8) [OF t] by auto
  then have pc: "p \<in> set c" "p \<noteq> last c" using adj_in adj_last d(2) by metis+
  then show "pushNode_step (Push_link n p) q = Inr (Push_ret p, ?q)" using d(6) by (simp add: write_next_def)
  have live: "tq_live ?q m = tq_live q m" for m by (simp add: tq_live_def split: tnode.splits)
  have ow: "owned ?T m \<longleftrightarrow> owned T m" for m using t by (simp add: owned_upd owned_at [of T m t])
  have pu: "pushes ?T u m \<Longrightarrow> pushes T u m" for u m by (auto simp: pushes_upd split: if_splits)
  have other: "q' \<noteq> p" if "?T u = Some (Push_link m q')" for u m q'
  proof
    assume "q' = p"
    have u: "u \<noteq> t" "T u = Some (Push_link m q')" using that by (auto split: if_splits)
    then have "m = n" using d(8) [OF u(2)] pn(2) \<open>q' = p\<close> adj_fun [OF d(2)] by blast
    then have "pushes T u n" "pushes T t n" using u(2) t by (auto simp: pushes_def)
    then show False using d(11) u(1) by blast
  qed
  show "chain_inv c ?q ?T"
  proof (rule chain_invI)
    fix a b assume a: "adj c a b"
    show "tq_next ?q a = Some b \<or> tq_next ?q a = None \<and> (\<exists>u. ?T u = Some (Push_link b a))"
    proof (cases "a = p")
      case True
      then show ?thesis using a pn(2) adj_fun [OF d(2)] by auto
    next
      case False
      moreover have "T u = Some (Push_link b a) \<Longrightarrow> u \<noteq> t" for u using t False by auto
      ultimately show ?thesis using d(7) [OF a] by auto
    qed
  next
    fix u m q' assume u: "?T u = Some (Push_link m q')"
    then have "T u = Some (Push_link m q')" by (simp split: if_splits)
    then show "tq_next ?q q' = None \<and> adj c q' m" using d(8) other [OF u] by simp
  next
    fix u m assume u: "?T u = Some (Push_exchange m)"
    then have T: "T u = Some (Push_exchange m)" by (simp split: if_splits)
    then have "owned T m" by (simp add: owned_at [of T m u])
    then have "m \<noteq> p" using d(9) pc(1) by blast
    then show "tq_next ?q m = None" using d(10) [OF T] by simp
  next
    fix u u' m assume "pushes ?T u m" "pushes ?T u' m"
    then show "u = u'" using pu d(11) by blast
  qed (use d pc live ow in \<open>auto split: if_splits\<close>)
qed

text \<open>The consumer moves \<open>tail\<close> on, a producer gets a node from the allocator, the consumer frees a node.\<close>

lemma chain_tail:
  assumes inv: "chain_inv c q T" and x: "x = hd c" "tq_next q x = Some m"
  shows "\<exists>c'. c = x # m # c' \<and> chain_inv (m # c') (q\<lparr>tq_tail := m\<rparr>) T"
proof -
  note d = chain_invD [OF inv]
  obtain c1 where c1: "c = x # c1" using d(1) x(1) by (cases c) auto
  then have "c1 \<noteq> []" using d(5) x(2) by auto
  then obtain y c' where c: "c = x # y # c'" using c1 by (cases c1) auto
  then have "y = m" using d(7) [of x y] x(2) by simp
  then have cm: "c = x # m # c'" using c by simp
  have live: "tq_live (q\<lparr>tq_tail := m\<rparr>) n = tq_live q n" for n by (simp add: tq_live_def split: tnode.splits)
  have "chain_inv (m # c') (q\<lparr>tq_tail := m\<rparr>) T"
  proof (rule chain_invI)
    fix u n p assume u: "T u = Some (Push_link n p)"
    then have "tq_next q p = None" "adj c p n" using d(8) by auto
    then show "tq_next (q\<lparr>tq_tail := m\<rparr>) p = None \<and> adj (m # c') p n" using x(2) unfolding cm by (auto simp: adj_Cons [of x])
  next
    fix a b assume "adj (m # c') a b"
    then have "adj c a b" unfolding cm by simp
    then show "tq_next (q\<lparr>tq_tail := m\<rparr>) a = Some b \<or> tq_next (q\<lparr>tq_tail := m\<rparr>) a = None \<and> (\<exists>t. T t = Some (Push_link b a))"
      using d(7) by simp
  qed (use d cm live in auto)
  then show ?thesis using cm by blast
qed

lemma alloc_chain:
  assumes inv: "chain_inv c q T" and k: "tq_data q k = None" and t: "T t = None"
  shows "chain_inv c (q\<lparr>tq_data := (tq_data q)(k \<mapsto> v)\<rparr>) (T(t \<mapsto> Push_start (Node k)))"
proof -
  note d = chain_invD [OF inv]
  let ?q = "q\<lparr>tq_data := (tq_data q)(k \<mapsto> v)\<rparr>" and ?T = "T(t \<mapsto> Push_start (Node k))"
  have dead: "\<not> tq_live q (Node k)" using k by (simp add: tq_live_def)
  have live: "tq_live ?q n \<longleftrightarrow> n = Node k \<or> tq_live q n" for n by (cases n) (auto simp: tq_live_def)
  have notin: "Node k \<notin> set c" using d(6) dead by blast
  have ow: "owned ?T n \<longleftrightarrow> n = Node k \<or> owned T n" for n using t by (auto simp: owned_upd owned_at [of T n t])
  have nobody: "\<not> pushes T u (Node k)" for u
  proof
    assume "pushes T u (Node k)"
    then obtain pc where pc: "T u = Some pc" "pc_node pc = Some (Node k)" by (auto simp: pushes_def)
    show False
    proof (cases "pc_out pc")
      case None
      then obtain p where "pc = Push_link (Node k) p" using pc(2) by (cases pc) auto
      then have "adj c p (Node k)" using d(8) pc(1) by blast
      then have "Node k \<in> set (tl c)" using adj_in by metis
      then show False using notin d(1) by (meson list.set_sel(2))
    next
      case (Some m)
      then have "m = Node k" using pc_out_node [of pc m] pc(2) by simp
      then have "owned T (Node k)" using pc(1) Some by (auto simp: owned_def)
      then show False using d(9) dead by blast
    qed
  qed
  have pu: "pushes ?T u n \<longleftrightarrow> pushes T u n \<or> u = t \<and> n = Node k" for u n using t by (auto simp: pushes_upd pushes_def)
  show ?thesis
  proof (rule chain_invI)
    fix a b assume "adj c a b"
    moreover have "T u = Some (Push_link b a) \<Longrightarrow> u \<noteq> t" for u using t by auto
    ultimately show "tq_next ?q a = Some b \<or> tq_next ?q a = None \<and> (\<exists>u. ?T u = Some (Push_link b a))"
      using d(7) [of a b] by auto
  next
    fix u u' n assume p: "pushes ?T u n" "pushes ?T u' n"
    show "u = u'"
    proof (cases "n = Node k")
      case True
      then have "u = t" "u' = t" using p nobody unfolding pu by auto
      then show ?thesis by simp
    next
      case False
      then have "pushes T u n" "pushes T u' n" using p unfolding pu by auto
      then show ?thesis by (rule d(11))
    qed
  next
    fix u n p assume "?T u = Some (Push_link n p)"
    then show "tq_next ?q p = None \<and> adj c p n" using d(8) by (simp split: if_splits)
  next
    fix u n assume "?T u = Some (Push_exchange n)"
    then show "tq_next ?q n = None" using d(10) by (simp split: if_splits)
  qed (use d live ow notin in \<open>auto split: if_splits\<close>)
qed

lemma free_chain:
  assumes inv: "chain_inv c q T" and k: "Node k \<notin> set c" "\<not> owned T (Node k)"
  shows "chain_inv c (q\<lparr>tq_data := (tq_data q)(k := None), tq_popped := v\<rparr>) T"
proof -
  note d = chain_invD [OF inv]
  have live: "tq_live (q\<lparr>tq_data := (tq_data q)(k := None), tq_popped := v\<rparr>) n" if "tq_live q n" "n \<noteq> Node k" for n
    using that by (cases n) (auto simp: tq_live_def)
  show ?thesis
  proof (rule chain_invI)
    fix n assume n: "owned T n"
    then have "n \<noteq> Node k" using k(2) by blast
    then show "n \<notin> set c \<and> tq_live (q\<lparr>tq_data := (tq_data q)(k := None), tq_popped := v\<rparr>) n" using d(9) [OF n] live by blast
  next
    fix n assume n: "n \<in> set c"
    then have "n \<noteq> Node k" using k(1) by blast
    then show "tq_live (q\<lparr>tq_data := (tq_data q)(k := None), tq_popped := v\<rparr>) n" using d(6) [OF n] live by blast
  next
    fix a b assume "adj c a b"
    then show "tq_next (q\<lparr>tq_data := (tq_data q)(k := None), tq_popped := v\<rparr>) a = Some b \<or>
        tq_next (q\<lparr>tq_data := (tq_data q)(k := None), tq_popped := v\<rparr>) a = None \<and> (\<exists>t. T t = Some (Push_link b a))"
      using d(7) by simp
  qed (use d in auto)
qed

text \<open>One step of \<open>pushNode\<close>, whichever thread takes it: \<open>r\<close> is what it adds to the chain.\<close>

definition pc_next :: "push_pc \<Rightarrow> push_pc option" where
  "pc_next pc = (case pc of Push_ret _ \<Rightarrow> None | _ \<Rightarrow> Some pc)"

definition same_rest :: "'a tsq \<Rightarrow> 'a tsq \<Rightarrow> bool" where
  "same_rest q q' \<longleftrightarrow> tq_data q' = tq_data q \<and> tq_tail q' = tq_tail q \<and> tq_sleepy q' = tq_sleepy q \<and> tq_popped q' = tq_popped q"

definition push_stepped :: "tnode list \<Rightarrow> 'a tsq \<Rightarrow> pcs \<Rightarrow> nat option \<Rightarrow> push_pc \<Rightarrow> tnode list \<Rightarrow> push_pc \<Rightarrow> 'a tsq \<Rightarrow> bool" where
  "push_stepped c q T t pc r pc' q' \<longleftrightarrow>
     pushNode_step pc q = Inr (pc', q') \<and> chain_inv (c @ r) q' (T(t := pc_next pc')) \<and> same_rest q q' \<and>
     tq_pushed q' = tq_pushed q @ concat (map (tq_values q) r) \<and>
     (\<forall>n \<in> set r. owned T n \<and> pc_node pc = Some n) \<and>
     (\<forall>m. owned (T(t := pc_next pc')) m \<longrightarrow> owned T m) \<and> (\<forall>m. owned T m \<longrightarrow> owned (T(t := pc_next pc')) m \<or> m \<in> set r) \<and>
     (\<forall>p. pc' = Push_ret p \<longrightarrow> r = [] \<and> (\<exists>n. pc = Push_link n p)) \<and> (pc_next pc' \<noteq> None \<longrightarrow> pc_node pc' = pc_node pc) \<and>
     (\<forall>n p. pc = Push_link n p \<longrightarrow> pc' = Push_ret p) \<and> (\<forall>n p. pc' = Push_link n p \<longrightarrow> r = [n] \<and> p = last c) \<and> (r \<noteq> [] \<longrightarrow> (\<exists>n. r = [n] \<and> pc' = Push_link n (last c)))"

lemma push_step:
  assumes inv: "chain_inv c q T" and t: "T t = Some pc"
  shows "\<exists>r pc' q'. push_stepped c q T t pc r pc' q'"
proof (cases pc)
  case (Push_start n)
  let ?q = "q\<lparr>tq_next := (tq_next q)(n := None)\<rparr>"
  have T: "T t = Some (Push_start n)" using t Push_start by simp
  have "owned (T(t \<mapsto> Push_exchange n)) m \<longleftrightarrow> owned T m" for m using T by (simp add: owned_upd owned_at [of T m t])
  then have "push_stepped c q T t pc [] (Push_exchange n) ?q"
    using push_start_chain [OF inv T] Push_start by (simp add: push_stepped_def pc_next_def same_rest_def)
  then show ?thesis by blast
next
  case (Push_exchange n)
  let ?q = "q\<lparr>tq_head := n, tq_pushed := tq_pushed q @ tq_values q n\<rparr>"
  have T: "T t = Some (Push_exchange n)" using t Push_exchange by simp
  have o: "owned T n" using T by (simp add: owned_at [of T n t])
  have h: "tq_head q = last c" using chain_invD(4) [OF inv] by simp
  have ow: "owned T m \<longleftrightarrow> owned (T(t \<mapsto> Push_link n (last c))) m \<or> m = n" for m using T by (auto simp: owned_upd owned_at [of T m t])
  have "push_stepped c q T t pc [n] (Push_link n (last c)) ?q"
    using push_exchange_chain [OF inv T, of "tq_pushed q @ tq_values q n"] o ow h Push_exchange
    by (simp add: push_stepped_def pc_next_def same_rest_def)
  then show ?thesis by blast
next
  case (Push_link n p)
  let ?q = "q\<lparr>tq_next := (tq_next q)(p \<mapsto> n)\<rparr>"
  have T: "T t = Some (Push_link n p)" using t Push_link by simp
  have "owned (T(t := None)) m \<longleftrightarrow> owned T m" for m using T by (simp add: owned_upd owned_at [of T m t])
  then have "push_stepped c q T t pc [] (Push_ret p) ?q"
    using push_link_chain [OF inv T] Push_link by (simp add: push_stepped_def pc_next_def same_rest_def)
  then show ?thesis by blast
next
  case (Push_ret p)
  then show ?thesis using chain_invD(12) [OF inv] t by metis
qed

subsection \<open>The invariant of the system\<close>

fun consumer_pc :: "'a consumer \<Rightarrow> push_pc option" where
  "consumer_pc (C_pop (Pop_push t pc)) = Some pc"
| "consumer_pc (C_pop_again (Pop_push t pc)) = Some pc"
| "consumer_pc (C_sleep pc) = Some pc"
| "consumer_pc _ = None"

definition producer_pc :: "producer \<Rightarrow> push_pc option" where
  "producer_pc p = (case p of P_done _ \<Rightarrow> None | P_push pc \<Rightarrow> Some pc)"

definition ts_pcs :: "(nat \<Rightarrow> producer) \<Rightarrow> 'a consumer \<Rightarrow> pcs" where
  "ts_pcs P C t = (case t of None \<Rightarrow> consumer_pc C | Some i \<Rightarrow> producer_pc (P i))"

text \<open>A node that \<open>popNode\<close> has returned and \<open>pop\<close> has not freed yet.\<close>

fun popped_node :: "'a consumer \<Rightarrow> tnode option" where
  "popped_node (C_pop (Pop_ret b)) = b"
| "popped_node (C_pop_again (Pop_ret b)) = b"
| "popped_node _ = None"

fun pop_inv :: "tnode list \<Rightarrow> 'a tsq \<Rightarrow> pcs \<Rightarrow> pop_pc \<Rightarrow> bool" where
  "pop_inv c q T Pop_start \<longleftrightarrow> True"
| "pop_inv c q T (Pop_next t) \<longleftrightarrow> t = hd c \<and> t \<noteq> Stub"
| "pop_inv c q T (Pop_head t) \<longleftrightarrow> t = hd c \<and> t \<noteq> Stub"
| "pop_inv c q T (Pop_push t pc) \<longleftrightarrow> t = hd c \<and> t \<noteq> Stub \<and> pc_node pc = Some Stub"
| "pop_inv c q T (Pop_last t) \<longleftrightarrow> t = hd c \<and> t \<noteq> Stub"
| "pop_inv c q T (Pop_ret b) \<longleftrightarrow> (\<forall>n. b = Some n \<longrightarrow> n \<notin> set c \<and> n \<noteq> Stub \<and> tq_live q n \<and> \<not> owned T n)"

fun cons_inv :: "tnode list \<Rightarrow> 'a tsq \<Rightarrow> pcs \<Rightarrow> 'a consumer \<Rightarrow> bool" where
  "cons_inv c q T (C_pop pc) \<longleftrightarrow> pop_inv c q T pc \<and> (tq_sleepy q \<longleftrightarrow> Sleeping \<in> set c \<or> pc = Pop_ret (Some Sleeping))"
| "cons_inv c q T (C_pop_again pc) \<longleftrightarrow> pop_inv c q T pc \<and> \<not> tq_sleepy q \<and> Sleeping \<notin> set c \<and> pc \<noteq> Pop_ret (Some Sleeping)"
| "cons_inv c q T (C_sleep pc) \<longleftrightarrow> \<not> tq_sleepy q \<and> hd c = Stub \<and> pc_node pc = Some Sleeping"
| "cons_inv c q T _ \<longleftrightarrow> (tq_sleepy q \<longleftrightarrow> Sleeping \<in> set c)"

definition hist_inv :: "tnode list \<Rightarrow> 'a tsq \<Rightarrow> pcs \<Rightarrow> 'a consumer \<Rightarrow> bool" where
  "hist_inv c q T C \<longleftrightarrow>
     tq_pushed q = tq_popped q @ (case popped_node C of None \<Rightarrow> [] | Some b \<Rightarrow> tq_values q b) @ concat (map (tq_values q) c) \<and>
     (\<forall>k. tq_data q k \<noteq> None \<longrightarrow> Node k \<in> set c \<or> owned T (Node k) \<or> popped_node C = Some (Node k))"

definition prod_inv :: "(nat \<Rightarrow> producer) \<Rightarrow> bool" where
  "prod_inv P \<longleftrightarrow> (\<forall>i pc. P i = P_push pc \<longrightarrow> (\<exists>k. pc_node pc = Some (Node k)))"

text \<open>After \<open>canSleep\<close> has put \<open>sleeping\<close> behind \<open>stub\<close>: the first push after it finds it and wakes the consumer.\<close>

definition asleep :: "'a consumer \<Rightarrow> bool" where
  "asleep C \<longleftrightarrow> C = C_slept True \<or> C = C_sleep (Push_link Sleeping Stub)"

definition wake_inv :: "tnode list \<Rightarrow> (nat \<Rightarrow> producer) \<Rightarrow> 'a consumer \<Rightarrow> bool \<Rightarrow> bool" where
  "wake_inv c P C woken \<longleftrightarrow>
     (asleep C \<longrightarrow> (\<exists>rest. c = Stub # Sleeping # rest \<and> (rest \<noteq> [] \<longrightarrow> woken \<or> (\<exists>i. P i = P_push (Push_link (hd rest) Sleeping)))))"

definition tsq_inv :: "tnode list \<Rightarrow> 'a tsq_system \<Rightarrow> bool" where
  "tsq_inv c s \<longleftrightarrow>
     (let q = ts_queue s; P = ts_producers s; C = ts_consumer s; T = ts_pcs P C
      in chain_inv c q T \<and> cons_inv c q T C \<and> hist_inv c q T C \<and> prod_inv P \<and> wake_inv c P C (ts_woken s))"

lemma ts_pcs_producer: "ts_pcs (P(i := p)) C = (ts_pcs P C)(Some i := producer_pc p)"
  by (auto simp: ts_pcs_def split: option.splits)

lemma ts_pcs_consumer: "ts_pcs P C' = (ts_pcs P C)(None := consumer_pc C')"
  by (auto simp: ts_pcs_def split: option.splits)

lemma tsq_init_inv: "tsq_inv [Stub] tsq_start"
  by (auto simp: tsq_inv_def tsq_start_def tsq_init_def chain_inv_def ts_pcs_def producer_pc_def hist_inv_def prod_inv_def
      wake_inv_def asleep_def tq_live_def tq_values_def owned_def pushes_def Let_def split: option.splits)

lemma same_rest_live: "same_rest q q' \<Longrightarrow> tq_live q' = tq_live q \<and> tq_values q' = tq_values q"
  by (auto simp: same_rest_def tq_live_def tq_values_def fun_eq_iff split: tnode.splits)

lemma push_stepped_node:
  assumes "push_stepped c q T t pc r pc' q'" and "n \<in> set r"
  shows "pc_node pc = Some n" and "owned T n"
  using assms unfolding push_stepped_def by blast+

lemma pop_inv_grow:
  assumes p: "pop_inv c q T pop" and c: "c \<noteq> []" and st: "push_stepped c q T t pc r pc' q'"
  shows "pop_inv (c @ r) q' (T(t := pc_next pc')) pop"
proof (cases pop)
  case (Pop_ret b)
  have "tq_live q' = tq_live q" using st same_rest_live unfolding push_stepped_def by blast
  moreover have "owned (T(t := pc_next pc')) m \<Longrightarrow> owned T m" for m using st unfolding push_stepped_def by blast
  ultimately show ?thesis using p push_stepped_node(2) [OF st] Pop_ret by auto
qed (use p c in auto)

lemma cons_inv_grow:
  assumes p: "cons_inv c q T C" and c: "c \<noteq> []" and st: "push_stepped c q T t pc r pc' q'" and k: "pc_node pc = Some (Node k)"
  shows "cons_inv (c @ r) q' (T(t := pc_next pc')) C"
proof -
  have sl: "Sleeping \<in> set (c @ r) \<longleftrightarrow> Sleeping \<in> set c" using push_stepped_node(1) [OF st] k by auto
  have sy: "tq_sleepy q' = tq_sleepy q" using st unfolding push_stepped_def same_rest_def by blast
  note g = pop_inv_grow [OF _ c st]
  show ?thesis using p sl sy g c by (cases C) auto
qed

lemma hist_inv_grow:
  assumes h: "hist_inv c q T C" and st: "push_stepped c q T t pc r pc' q'"
  shows "hist_inv (c @ r) q' (T(t := pc_next pc')) C"
proof -
  have v: "tq_values q' = tq_values q" "tq_data q' = tq_data q" "tq_popped q' = tq_popped q"
    using st same_rest_live unfolding push_stepped_def same_rest_def by blast+
  have p: "tq_pushed q' = tq_pushed q @ concat (map (tq_values q) r)" using st unfolding push_stepped_def by blast
  have "owned T m \<Longrightarrow> owned (T(t := pc_next pc')) m \<or> m \<in> set r" for m using st unfolding push_stepped_def by blast
  then show ?thesis using h p unfolding hist_inv_def v by auto
qed

lemma producer_step_inv:
  assumes inv: "tsq_inv c s" and i: "ts_producers s i = P_push pc"
  shows "\<exists>s' c'. tsq_do (Push_step i) s = Inr s' \<and> tsq_inv c' s'"
proof -
  let ?q = "ts_queue s" and ?P = "ts_producers s" and ?C = "ts_consumer s"
  let ?T = "ts_pcs ?P ?C"
  have I: "chain_inv c ?q ?T" "cons_inv c ?q ?T ?C" "hist_inv c ?q ?T ?C" "prod_inv ?P" "wake_inv c ?P ?C (ts_woken s)"
    using inv unfolding tsq_inv_def Let_def by blast+
  have t: "?T (Some i) = Some pc" using i by (simp add: ts_pcs_def producer_pc_def)
  obtain k where k: "pc_node pc = Some (Node k)" using I(4) i unfolding prod_inv_def by blast
  obtain r pc' q' where st: "push_stepped c ?q ?T (Some i) pc r pc' q'" using push_step [OF I(1) t] by blast
  have run: "pushNode_step pc ?q = Inr (pc', q')" using st unfolding push_stepped_def by blast
  define p' where "p' = (case pc' of Push_ret prev \<Rightarrow> P_done (prev = Sleeping) | _ \<Rightarrow> P_push pc')"
  define w' where "w' = (ts_woken s \<or> pc' = Push_ret Sleeping)"
  let ?s = "s\<lparr>ts_queue := q', ts_producers := ?P(i := p'), ts_woken := w'\<rparr>"
  have do: "tsq_do (Push_step i) s = Inr ?s"
    using i run by (cases pc') (auto simp: p'_def w'_def)
  have pp: "producer_pc p' = pc_next pc'" by (simp add: p'_def producer_pc_def pc_next_def split: push_pc.splits)
  have T': "ts_pcs (?P(i := p')) ?C = ?T(Some i := pc_next pc')" by (simp add: ts_pcs_producer pp)
  have c: "c \<noteq> []" using chain_invD(1) [OF I(1)] .
  have node: "pc_next pc' \<noteq> None \<Longrightarrow> pc_node pc' = pc_node pc" using st unfolding push_stepped_def by blast
  have "prod_inv (?P(i := p'))" unfolding prod_inv_def
  proof (intro allI impI)
    fix j pcj assume j: "(?P(i := p')) j = P_push pcj"
    show "\<exists>k. pc_node pcj = Some (Node k)"
    proof (cases "j = i")
      case True
      then have "p' = P_push pcj" using j by simp
      then have "pcj = pc' \<and> pc_next pc' \<noteq> None" by (cases pc') (auto simp: p'_def pc_next_def)
      then show ?thesis using node k by auto
    next
      case False
      then show ?thesis using I(4) j unfolding prod_inv_def by simp
    qed
  qed
  moreover have "wake_inv (c @ r) (?P(i := p')) ?C w'"
    unfolding wake_inv_def
  proof
    assume "asleep ?C"
    then obtain rest where rest: "c = Stub # Sleeping # rest" "rest \<noteq> [] \<longrightarrow> ts_woken s \<or> (\<exists>j. ?P j = P_push (Push_link (hd rest) Sleeping))"
      using I(5) unfolding wake_inv_def by blast
    have "w' \<or> (\<exists>j. (?P(i := p')) j = P_push (Push_link (hd (rest @ r)) Sleeping))" if ne: "rest @ r \<noteq> []"
    proof (cases "rest = []")
      case True
      then have "r \<noteq> []" using ne by simp
      moreover have "r \<noteq> [] \<longrightarrow> (\<exists>n. r = [n] \<and> pc' = Push_link n (last c))" using st unfolding push_stepped_def by blast
      ultimately obtain n where n: "r = [n]" "pc' = Push_link n (last c)" by blast
      then have "(?P(i := p')) i = P_push (Push_link (hd (rest @ r)) Sleeping)" using True rest(1) by (simp add: p'_def)
      then show ?thesis by blast
    next
      case False
      then consider "ts_woken s" | j where "?P j = P_push (Push_link (hd rest) Sleeping)" using rest(2) by blast
      then show ?thesis
      proof cases
        case 1 then show ?thesis by (simp add: w'_def)
      next
        case (2 j)
        show ?thesis
        proof (cases "j = i")
          case True
          then have "pc = Push_link (hd rest) Sleeping" using 2 i by simp
          then have "pc' = Push_ret Sleeping" using st unfolding push_stepped_def by blast
          then show ?thesis by (simp add: w'_def)
        next
          case False
          then have "(?P(i := p')) j = P_push (Push_link (hd (rest @ r)) Sleeping)" using 2 \<open>rest \<noteq> []\<close> by simp
          then show ?thesis by blast
        qed
      qed
    qed
    then show "\<exists>rest. c @ r = Stub # Sleeping # rest \<and> (rest \<noteq> [] \<longrightarrow> w' \<or> (\<exists>j. (?P(i := p')) j = P_push (Push_link (hd rest) Sleeping)))"
      using rest(1) by (intro exI [of _ "rest @ r"]) simp
  qed
  moreover have "chain_inv (c @ r) q' (?T(Some i := pc_next pc'))" using st unfolding push_stepped_def by blast
  ultimately have "tsq_inv (c @ r) ?s"
    using cons_inv_grow [OF I(2) c st k] hist_inv_grow [OF I(3) st] T' unfolding tsq_inv_def Let_def by simp
  then show ?thesis using do by blast
qed

lemma begin_chain:
  assumes inv: "chain_inv c q T" and t: "T t = None" and n: "n \<notin> set c" "tq_live q n" "\<And>u. \<not> pushes T u n"
  shows "chain_inv c q (T(t \<mapsto> Push_start n))"
proof -
  note d = chain_invD [OF inv]
  let ?T = "T(t \<mapsto> Push_start n)"
  have ow: "owned ?T m \<longleftrightarrow> m = n \<or> owned T m" for m using t by (auto simp: owned_upd owned_at [of T m t])
  have pu: "pushes ?T u m \<longleftrightarrow> pushes T u m \<or> u = t \<and> m = n" for u m using t by (auto simp: pushes_upd pushes_def)
  show ?thesis
  proof (rule chain_invI)
    fix a b assume "adj c a b"
    moreover have "T u = Some (Push_link b a) \<Longrightarrow> u \<noteq> t" for u using t by auto
    ultimately show "tq_next q a = Some b \<or> tq_next q a = None \<and> (\<exists>u. ?T u = Some (Push_link b a))"
      using d(7) [of a b] by auto
  next
    fix u u' m assume p: "pushes ?T u m" "pushes ?T u' m"
    show "u = u'"
    proof (cases "m = n")
      case True
      then have "u = t" "u' = t" using p n(3) unfolding pu by auto
      then show ?thesis by simp
    next
      case False
      then have "pushes T u m" "pushes T u' m" using p unfolding pu by auto
      then show ?thesis by (rule d(11))
    qed
  next
    fix u m p assume "?T u = Some (Push_link m p)"
    then show "tq_next q p = None \<and> adj c p m" using d(8) by (simp split: if_splits)
  next
    fix u m assume "?T u = Some (Push_exchange m)"
    then show "tq_next q m = None" using d(10) by (simp split: if_splits)
  qed (use d ow n in \<open>auto split: if_splits\<close>)
qed

text \<open>One step of \<open>popNode\<close>.\<close>

fun pop_pushes :: "pop_pc \<Rightarrow> push_pc option" where
  "pop_pushes (Pop_push t pc) = Some pc"
| "pop_pushes _ = None"

fun pop_returns :: "pop_pc \<Rightarrow> tnode option" where
  "pop_returns (Pop_ret b) = b"
| "pop_returns _ = None"

definition pop_stepped :: "tnode list \<Rightarrow> 'a tsq \<Rightarrow> pcs \<Rightarrow> pop_pc \<Rightarrow> tnode list \<Rightarrow> pop_pc \<Rightarrow> 'a tsq \<Rightarrow> bool" where
  "pop_stepped c q T pc c' pc' q' \<longleftrightarrow>
     popNode_step pc q = Inr (pc', q') \<and> chain_inv c' q' (T(None := pop_pushes pc')) \<and> pop_inv c' q' (T(None := pop_pushes pc')) pc' \<and>
     tq_data q' = tq_data q \<and> tq_sleepy q' = tq_sleepy q \<and> tq_popped q' = tq_popped q \<and> tq_pushed q' = tq_pushed q \<and>
     filter (\<lambda>n. n \<noteq> Stub) c = (case pop_returns pc' of None \<Rightarrow> [] | Some b \<Rightarrow> [b]) @ filter (\<lambda>n. n \<noteq> Stub) c' \<and>
     (\<forall>k. owned T (Node k) \<longrightarrow> owned (T(None := pop_pushes pc')) (Node k))"

lemma take_tail:
  assumes inv: "chain_inv c q T" and T: "T None = None" and t: "t = hd c" "t \<noteq> Stub" "tq_next q t = Some m"
  shows "\<exists>c'. chain_inv c' (q\<lparr>tq_tail := m\<rparr>) (T(None := None)) \<and> pop_inv c' (q\<lparr>tq_tail := m\<rparr>) (T(None := None)) (Pop_ret (Some t)) \<and>
    filter (\<lambda>n. n \<noteq> Stub) c = t # filter (\<lambda>n. n \<noteq> Stub) c'"
proof -
  note d = chain_invD [OF inv]
  have same: "T(None := None) = T" using T by (simp add: fun_upd_idem)
  obtain c' where c': "c = t # m # c'" "chain_inv (m # c') (q\<lparr>tq_tail := m\<rparr>) T" using chain_tail [OF inv t(1,3)] by blast
  have "t \<in> set c" using c'(1) by simp
  then have "tq_live q t" "\<not> owned T t" using d(6,9) by blast+
  moreover have "tq_live (q\<lparr>tq_tail := m\<rparr>) t = tq_live q t" by (simp add: tq_live_def split: tnode.splits)
  moreover have "t \<notin> set (m # c')" using d(2) c'(1) by simp
  ultimately show ?thesis unfolding same using c' t(2) by (intro exI [of _ "m # c'"]) simp
qed

lemma decide_step:
  assumes inv: "chain_inv c q T" and T: "T None = None" and t: "t = hd c" "t \<noteq> Stub"
    and run: "popNode_step pc q = Inr (pop_decide t (tq_next q t) q)"
  shows "\<exists>c' pc' q'. pop_stepped c q T pc c' pc' q'"
proof (cases "tq_next q t")
  case None
  have "T(None := None) = T" using T by (simp add: fun_upd_idem)
  then have "pop_stepped c q T pc c (Pop_head t) q" using inv run t None by (simp add: pop_stepped_def pop_decide_def)
  then show ?thesis by blast
next
  case (Some m)
  obtain c' where "chain_inv c' (q\<lparr>tq_tail := m\<rparr>) (T(None := None))" "pop_inv c' (q\<lparr>tq_tail := m\<rparr>) (T(None := None)) (Pop_ret (Some t))"
      "filter (\<lambda>n. n \<noteq> Stub) c = t # filter (\<lambda>n. n \<noteq> Stub) c'" using take_tail [OF inv T t Some] by blast
  moreover have "T(None := None) = T" using T by (simp add: fun_upd_idem)
  ultimately have "pop_stepped c q T pc c' (Pop_ret (Some t)) (q\<lparr>tq_tail := m\<rparr>)" using run Some by (simp add: pop_stepped_def pop_decide_def)
  then show ?thesis by blast
qed

lemma push_stub_step:
  assumes inv: "chain_inv c q T" and T: "T None = Some pc" and p: "pop_inv c q T (Pop_push t pc)"
  shows "\<exists>c' pc' q'. pop_stepped c q T (Pop_push t pc) c' pc' q'"
proof -
  obtain r pc' q' where st: "push_stepped c q T None pc r pc' q'" using push_step [OF inv T] by blast
  let ?pc = "case pc' of Push_ret _ \<Rightarrow> Pop_last t | _ \<Rightarrow> Pop_push t pc'"
  have pp: "pop_pushes ?pc = pc_next pc'" "pop_returns ?pc = None" by (cases pc'; simp add: pc_next_def)+
  have stub: "\<forall>n \<in> set r. n = Stub" using push_stepped_node(1) [OF st] p by auto
  have "concat (map (tq_values q) r) = []" using stub by (auto simp: tq_values_def)
  then have pushed: "tq_pushed q' = tq_pushed q" using st unfolding push_stepped_def by auto
  have rest: "same_rest q q'" "chain_inv (c @ r) q' (T(None := pc_next pc'))" "pushNode_step pc q = Inr (pc', q')"
    using st unfolding push_stepped_def by blast+
  have own: "owned (T(None := pc_next pc')) (Node k)" if "owned T (Node k)" for k
  proof -
    have "owned (T(None := pc_next pc')) (Node k) \<or> Node k \<in> set r" using st that unfolding push_stepped_def by blast
    then show ?thesis using stub by auto
  qed
  have c: "c \<noteq> []" using chain_invD(1) [OF inv] .
  have "pop_inv (c @ r) q' (T(None := pc_next pc')) ?pc"
  proof (cases "pc_next pc' = None")
    case True
    then show ?thesis using p c by (cases pc') (auto simp: pc_next_def)
  next
    case False
    have "pc_node pc' = pc_node pc" using st False unfolding push_stepped_def by blast
    then show ?thesis using p c False by (cases pc') (auto simp: pc_next_def)
  qed
  then have "pop_stepped c q T (Pop_push t pc) (c @ r) ?pc q'"
    using rest pushed own stub pp unfolding pop_stepped_def same_rest_def by (simp add: filter_empty_conv)
  then show ?thesis by blast
qed

lemma pop_step:
  assumes inv: "chain_inv c q T" and T: "T None = pop_pushes pc" and p: "pop_inv c q T pc" and pc: "\<And>b. pc \<noteq> Pop_ret b"
    and prods: "\<And>i n. pushes T (Some i) n \<Longrightarrow> n \<noteq> Stub"
  shows "\<exists>c' pc' q'. pop_stepped c q T pc c' pc' q'"
proof -
  note d = chain_invD [OF inv]
  have hd_live: "tq_live q (hd c)" using d(1,6) by simp
  show ?thesis
  proof (cases pc)
    case Pop_start
    have T0: "T None = None" using T Pop_start by simp
    have same: "T(None := None) = T" using T0 by (simp add: fun_upd_idem)
    show ?thesis
    proof (cases "tq_tail q = Stub")
      case True
      show ?thesis
      proof (cases "tq_next q Stub")
        case None
        then have "pop_stepped c q T pc c (Pop_ret None) q" using Pop_start True inv same by (simp add: pop_stepped_def read_next_def tq_live_def)
        then show ?thesis by blast
      next
        case (Some m)
        obtain c' where c': "c = Stub # m # c'" "chain_inv (m # c') (q\<lparr>tq_tail := m\<rparr>) T"
          using chain_tail [OF inv _ Some] d(3) True by auto
        have "m \<noteq> Stub" using d(2) c'(1) by auto
        then have "pop_stepped c q T pc (m # c') (Pop_next m) (q\<lparr>tq_tail := m\<rparr>)"
          using Pop_start True Some c' same by (simp add: pop_stepped_def read_next_def tq_live_def)
        then show ?thesis by blast
      qed
    next
      case False
      show ?thesis
        by (rule decide_step [OF inv T0, of "tq_tail q"])
          (use False Pop_start d(3) hd_live in \<open>simp_all add: read_next_def Let_def\<close>)
    qed
  next
    case (Pop_next t)
    then show ?thesis using decide_step [OF inv, of t pc] p T hd_live by (auto simp: read_next_def)
  next
    case (Pop_head t)
    have T0: "T None = None" using T Pop_head by simp
    have same: "T(None := None) = T" using T0 by (simp add: fun_upd_idem)
    show ?thesis
    proof (cases "t = tq_head q")
      case False
      then have "pop_stepped c q T pc c (Pop_ret None) q" using Pop_head inv same by (simp add: pop_stepped_def)
      then show ?thesis by blast
    next
      case True
      have "c = [t]"
      proof (cases c)
        case (Cons x xs)
        then show ?thesis using d(2,4) p Pop_head True by (cases "xs = []") auto
      qed (use d(1) in simp)
      then have stub: "Stub \<notin> set c" using p Pop_head by auto
      have "\<not> pushes T u Stub" for u using prods T0 by (cases u) (auto simp: pushes_def)
      then have "chain_inv c q (T(None \<mapsto> Push_start Stub))" using begin_chain [OF inv T0 stub] by (simp add: tq_live_def)
      moreover have "owned T (Node k) \<Longrightarrow> owned (T(None \<mapsto> Push_start Stub)) (Node k)" for k
        using T0 by (simp add: owned_upd owned_at [of T _ None])
      ultimately have "pop_stepped c q T pc c (Pop_push t (Push_start Stub)) q" using Pop_head True p by (auto simp: pop_stepped_def)
      then show ?thesis by blast
    qed
  next
    case (Pop_push t ppc)
    then have "T None = Some ppc" "pop_inv c q T (Pop_push t ppc)" using T p Pop_push by auto
    then show ?thesis unfolding Pop_push by (rule push_stub_step [OF inv])
  next
    case (Pop_last t)
    have T0: "T None = None" using T Pop_last by simp
    have same: "T(None := None) = T" using T0 by (simp add: fun_upd_idem)
    have t: "t = hd c" "t \<noteq> Stub" using p Pop_last by auto
    show ?thesis
    proof (cases "tq_next q t")
      case None
      then have "pop_stepped c q T pc c (Pop_ret None) q" using Pop_last inv same t hd_live by (simp add: pop_stepped_def read_next_def)
      then show ?thesis by blast
    next
      case (Some m)
      obtain c' where "chain_inv c' (q\<lparr>tq_tail := m\<rparr>) (T(None := None))" "pop_inv c' (q\<lparr>tq_tail := m\<rparr>) (T(None := None)) (Pop_ret (Some t))"
          "filter (\<lambda>n. n \<noteq> Stub) c = t # filter (\<lambda>n. n \<noteq> Stub) c'" using take_tail [OF inv T0 t Some] by blast
      then have "pop_stepped c q T pc c' (Pop_ret (Some t)) (q\<lparr>tq_tail := m\<rparr>)"
        using Pop_last Some t hd_live same by (simp add: pop_stepped_def read_next_def)
      then show ?thesis by blast
    qed
  next
    case (Pop_ret b)
    then show ?thesis using pc by blast
  qed
qed

subsection \<open>Every step keeps the invariant\<close>

lemma live_sleepy [simp]: "tq_live (q\<lparr>tq_sleepy := b\<rparr>) = tq_live q" "tq_values (q\<lparr>tq_sleepy := b\<rparr>) = tq_values q"
  by (auto simp: tq_live_def tq_values_def fun_eq_iff split: tnode.splits)

lemma chain_inv_sleepy [simp]: "chain_inv c (q\<lparr>tq_sleepy := b\<rparr>) T = chain_inv c q T"
  by (simp add: chain_inv_def)

lemma values_filter: "concat (map (tq_values q) c) = concat (map (tq_values q) (filter (\<lambda>n. n \<noteq> Stub) c))"
  by (induction c) (auto simp: tq_values_def)

lemma prods_not_stub: "prod_inv P \<Longrightarrow> pushes (ts_pcs P C) (Some i) n \<Longrightarrow> \<exists>k. n = Node k"
  by (cases "P i") (fastforce simp: pushes_def ts_pcs_def producer_pc_def prod_inv_def)+

lemma tsq_invI:
  assumes "chain_inv c (ts_queue s) (ts_pcs (ts_producers s) (ts_consumer s))"
    and "cons_inv c (ts_queue s) (ts_pcs (ts_producers s) (ts_consumer s)) (ts_consumer s)"
    and "hist_inv c (ts_queue s) (ts_pcs (ts_producers s) (ts_consumer s)) (ts_consumer s)"
    and "prod_inv (ts_producers s)" and "wake_inv c (ts_producers s) (ts_consumer s) (ts_woken s)"
  shows "tsq_inv c s"
  using assms by (simp add: tsq_inv_def Let_def)

lemma tsq_invD:
  assumes "tsq_inv c s"
  shows "chain_inv c (ts_queue s) (ts_pcs (ts_producers s) (ts_consumer s))"
    and "cons_inv c (ts_queue s) (ts_pcs (ts_producers s) (ts_consumer s)) (ts_consumer s)"
    and "hist_inv c (ts_queue s) (ts_pcs (ts_producers s) (ts_consumer s)) (ts_consumer s)"
    and "prod_inv (ts_producers s)" and "wake_inv c (ts_producers s) (ts_consumer s) (ts_woken s)"
  using assms by (simp_all add: tsq_inv_def Let_def)

lemma not_asleep [simp]: "\<not> asleep C \<Longrightarrow> wake_inv c P C w"
  by (simp add: wake_inv_def)

lemma consumer_rests_pc: "consumer_rests C \<Longrightarrow> consumer_pc C = None \<and> popped_node C = None"
  by (cases C) (auto simp: consumer_rests_def)

lemma begin_push_inv:
  assumes inv: "tsq_inv c s" and en: "tsq_enabled (Begin_push i k v) s"
  shows "\<exists>s'. tsq_do (Begin_push i k v) s = Inr s' \<and> tsq_inv c s'"
proof -
  let ?q = "ts_queue s" and ?P = "ts_producers s" and ?C = "ts_consumer s"
  let ?T = "ts_pcs ?P ?C" and ?q' = "?q\<lparr>tq_data := (tq_data ?q)(k \<mapsto> v)\<rparr>" and ?P' = "?P(i := P_push (Push_start (Node k)))"
  note I = tsq_invD [OF inv]
  have k: "tq_data ?q k = None" using en by simp
  have t: "?T (Some i) = None" using en by (auto simp: ts_pcs_def producer_pc_def producer_rests_def split: producer.splits)
  have T': "ts_pcs ?P' ?C = ?T(Some i \<mapsto> Push_start (Node k))" by (simp add: ts_pcs_producer producer_pc_def)
  have dead: "\<not> tq_live ?q (Node k)" using k by (simp add: tq_live_def)
  have live: "tq_live ?q' n" "tq_values ?q' n = tq_values ?q n" if "tq_live ?q n" for n
    using that dead by (cases n; auto simp: tq_live_def tq_values_def)+
  have ow: "owned (?T(Some i \<mapsto> Push_start (Node k))) n \<longleftrightarrow> n = Node k \<or> owned ?T n" for n
    using t by (auto simp: owned_upd owned_at [of ?T n "Some i"])
  have pop: "pop_inv c ?q' (?T(Some i \<mapsto> Push_start (Node k))) pc" if "pop_inv c ?q ?T pc" for pc
    using that live(1) ow dead by (cases pc) auto
  have "cons_inv c ?q' (?T(Some i \<mapsto> Push_start (Node k))) ?C" using I(2) pop by (cases ?C) auto
  moreover have "hist_inv c ?q' (?T(Some i \<mapsto> Push_start (Node k))) ?C"
  proof -
    have m: "map (tq_values ?q') c = map (tq_values ?q) c" using live(2) chain_invD(6) [OF I(1)] by simp
    moreover have "tq_values ?q' b = tq_values ?q b" if "popped_node ?C = Some b" for b
    proof -
      have "tq_live ?q b" using I(2) that by (cases ?C rule: popped_node.cases) auto
      then show ?thesis by (rule live(2))
    qed
    ultimately show ?thesis using I(3) ow unfolding hist_inv_def m by (auto split: option.splits)
  qed
  moreover have "prod_inv ?P'" using I(4) unfolding prod_inv_def by auto
  moreover have "wake_inv c ?P' ?C (ts_woken s)"
  proof -
    have "?P j = P_push pc \<Longrightarrow> ?P' j = P_push pc" for j pc using en by (auto simp: producer_rests_def)
    then show ?thesis using I(5) unfolding wake_inv_def by metis
  qed
  ultimately have "tsq_inv c (s\<lparr>ts_queue := ?q', ts_producers := ?P'\<rparr>)"
    using alloc_chain [OF I(1) k t, of v] by (intro tsq_invI) (simp_all add: T')
  then show ?thesis by simp
qed

lemma begin_inv:
  assumes inv: "tsq_inv c s" and rest: "consumer_rests (ts_consumer s)"
  shows "tsq_inv c (s\<lparr>ts_consumer := C_pop Pop_start\<rparr>)" and "tsq_inv c (s\<lparr>ts_consumer := C_canSleep, ts_woken := False\<rparr>)"
proof -
  note I = tsq_invD [OF inv]
  have none: "consumer_pc (ts_consumer s) = None \<and> popped_node (ts_consumer s) = None" using consumer_rests_pc [OF rest] .
  have T: "ts_pcs P (C_pop Pop_start) = ts_pcs P (ts_consumer s)" "ts_pcs P C_canSleep = ts_pcs P (ts_consumer s)" for P
    using none by (auto simp: ts_pcs_def fun_eq_iff split: option.splits)
  have sl: "tq_sleepy (ts_queue s) \<longleftrightarrow> Sleeping \<in> set c" using I(2) rest by (cases "ts_consumer s") (auto simp: consumer_rests_def)
  show "tsq_inv c (s\<lparr>ts_consumer := C_pop Pop_start\<rparr>)"
    using I none sl by (intro tsq_invI) (auto simp: T hist_inv_def asleep_def)
  show "tsq_inv c (s\<lparr>ts_consumer := C_canSleep, ts_woken := False\<rparr>)"
    using I none sl by (intro tsq_invI) (auto simp: T hist_inv_def asleep_def)
qed

text \<open>The consumer: a step of \<open>popNode\<close>, the end of \<open>pop\<close>, a step of \<open>canSleep\<close>.\<close>

lemma pcs_same: "consumer_pc C' = consumer_pc C \<Longrightarrow> ts_pcs P C' = ts_pcs P C"
  by (auto simp: ts_pcs_def fun_eq_iff split: option.splits)

lemma popNode_inv:
  assumes inv: "tsq_inv c s" and C: "ts_consumer s = K pc" and K: "K = C_pop \<or> K = C_pop_again" and pc: "\<And>b. pc \<noteq> Pop_ret b"
  shows "\<exists>pc' q' c'. popNode_step pc (ts_queue s) = Inr (pc', q') \<and> tsq_inv c' (s\<lparr>ts_consumer := K pc', ts_queue := q'\<rparr>)"
proof -
  let ?q = "ts_queue s" and ?P = "ts_producers s" and ?T = "ts_pcs (ts_producers s) (ts_consumer s)"
  note I = tsq_invD [OF inv]
  have Kpc: "consumer_pc (K x) = pop_pushes x" "popped_node (K x) = pop_returns x" for x using K by (cases x; auto)+
  have T: "?T None = pop_pushes pc" using C Kpc by (simp add: ts_pcs_def)
  have p: "pop_inv c ?q ?T pc" using I(2) C K by auto
  have prods: "n \<noteq> Stub" if "pushes ?T (Some i) n" for i n using prods_not_stub [OF I(4) that] by auto
  have "\<exists>c' pc' q'. pop_stepped c ?q ?T pc c' pc' q'" by (rule pop_step [OF I(1) T p pc]) (rule prods)
  then obtain c' pc' q' where st: "pop_stepped c ?q ?T pc c' pc' q'" by blast
  have T': "ts_pcs ?P (K pc') = ?T(None := pop_pushes pc')" unfolding ts_pcs_consumer [of ?P "K pc'" "ts_consumer s"] Kpc ..
  have f: "filter (\<lambda>n. n \<noteq> Stub) c = (case pop_returns pc' of None \<Rightarrow> [] | Some b \<Rightarrow> [b]) @ filter (\<lambda>n. n \<noteq> Stub) c'"
    and q': "tq_data q' = tq_data ?q" "tq_sleepy q' = tq_sleepy ?q" "tq_popped q' = tq_popped ?q" "tq_pushed q' = tq_pushed ?q"
    and own: "\<forall>k. owned ?T (Node k) \<longrightarrow> owned (?T(None := pop_pushes pc')) (Node k)"
    and run: "popNode_step pc ?q = Inr (pc', q')" and ch: "chain_inv c' q' (?T(None := pop_pushes pc'))"
    and pi: "pop_inv c' q' (?T(None := pop_pushes pc')) pc'"
    using st unfolding pop_stepped_def by blast+
  have mem: "n \<in> set c \<longleftrightarrow> pop_returns pc' = Some n \<or> n \<in> set c'" if n: "n \<noteq> Stub" for n
  proof -
    have "n \<in> set c \<longleftrightarrow> n \<in> set (filter (\<lambda>n. n \<noteq> Stub) c)" using n by simp
    also have "\<dots> \<longleftrightarrow> n \<in> set (case pop_returns pc' of None \<Rightarrow> [] | Some b \<Rightarrow> [b]) \<or> n \<in> set c'" unfolding f using n by simp
    finally show ?thesis by (cases "pop_returns pc'") auto
  qed
  have ret: "pop_returns pc' = Some b \<longleftrightarrow> pc' = Pop_ret (Some b)" for b by (cases pc') auto
  have "cons_inv c' q' (?T(None := pop_pushes pc')) (K pc')"
    using I(2) C K pi q'(2) mem [of Sleeping] ret [of Sleeping] pc by auto
  moreover have v: "tq_values q' = tq_values ?q" using q'(1) unfolding tq_values_def by simp
  have "hist_inv c' q' (?T(None := pop_pushes pc')) (K pc')"
  proof -
    have "pop_returns pc = None" using pc by (cases pc) auto
    moreover have "concat (map (tq_values ?q) c) =
        (case pop_returns pc' of None \<Rightarrow> [] | Some b \<Rightarrow> tq_values ?q b) @ concat (map (tq_values ?q) c')"
      unfolding values_filter [of ?q c] values_filter [of ?q c'] f by (simp split: option.splits)
    moreover have "Node k \<in> set c \<longleftrightarrow> pop_returns pc' = Some (Node k) \<or> Node k \<in> set c'" for k using mem by blast
    ultimately show ?thesis using I(3) own unfolding hist_inv_def C Kpc v q' by auto
  qed
  moreover have "wake_inv c' ?P (K pc') (ts_woken s)" using K by (auto simp: asleep_def)
  ultimately have "tsq_inv c' (s\<lparr>ts_consumer := K pc', ts_queue := q'\<rparr>)"
    using ch I(4) by (intro tsq_invI) (simp_all add: T')
  then show ?thesis using run by blast
qed

lemma pop_finish_inv:
  assumes inv: "tsq_inv c s" and C: "ts_consumer s = K (Pop_ret b)" and K: "K = C_pop \<or> K = C_pop_again" and b: "b \<noteq> Some Sleeping"
  shows "\<exists>r q'. pop_finish b (ts_queue s) = Inr (r, q') \<and> tsq_inv c (s\<lparr>ts_consumer := C_popped r, ts_queue := q'\<rparr>)"
proof -
  let ?q = "ts_queue s" and ?P = "ts_producers s" and ?T = "ts_pcs (ts_producers s) (ts_consumer s)"
  note I = tsq_invD [OF inv]
  have none: "consumer_pc (ts_consumer s) = None" "popped_node (ts_consumer s) = b" using C K by auto
  have T: "ts_pcs ?P (C_popped r) = ?T" for r :: "'a option" using none(1) by (intro pcs_same) simp
  have p: "pop_inv c ?q ?T (Pop_ret b)" using I(2) C K by auto
  have sl: "tq_sleepy ?q \<longleftrightarrow> Sleeping \<in> set c" using I(2) C K b by auto
  show ?thesis
  proof (cases b)
    case None
    have "hist_inv c ?q ?T (C_popped None)" using I(3) none None by (simp add: hist_inv_def)
    then have "tsq_inv c (s\<lparr>ts_consumer := C_popped None, ts_queue := ?q\<rparr>)"
      using I(1,4) sl by (intro tsq_invI) (simp_all add: T asleep_def)
    moreover have "pop_finish b ?q = Inr (None, ?q)" using None by (simp add: pop_finish_def)
    ultimately show ?thesis by blast
  next
    case (Some n)
    obtain k where k: "n = Node k" using Some b p by (cases n) auto
    have nk: "Node k \<notin> set c" "tq_live ?q (Node k)" "\<not> owned ?T (Node k)" using p Some k by auto
    then obtain v where v: "tq_data ?q k = Some v" by (auto simp: tq_live_def)
    let ?q' = "?q\<lparr>tq_data := (tq_data ?q)(k := None), tq_popped := tq_popped ?q @ [v]\<rparr>"
    have vv: "tq_values ?q' m = tq_values ?q m" if "m \<noteq> Node k" for m using that by (cases m) (auto simp: tq_values_def)
    have m: "map (tq_values ?q') c = map (tq_values ?q) c"
    proof (rule map_cong [OF refl])
      fix x assume "x \<in> set c"
      then show "tq_values ?q' x = tq_values ?q x" using nk(1) by (intro vv) auto
    qed
    have "hist_inv c ?q' ?T (C_popped (Some v))"
      using I(3) v unfolding hist_inv_def none Some k m by (auto simp: tq_values_def)
    then have "tsq_inv c (s\<lparr>ts_consumer := C_popped (Some v), ts_queue := ?q'\<rparr>)"
      using free_chain [OF I(1) nk(1,3)] I(4) sl by (intro tsq_invI) (simp_all add: T asleep_def)
    moreover have "pop_finish b ?q = Inr (Some v, ?q')" using Some k v by (simp add: pop_finish_def)
    ultimately show ?thesis by blast
  qed
qed

lemma pop_sleeping_inv:
  fixes s :: "'a tsq_system"
  assumes inv: "tsq_inv c s" and C: "ts_consumer s = C_pop (Pop_ret (Some Sleeping))"
  shows "tsq_inv c (s\<lparr>ts_consumer := C_pop_again Pop_start, ts_queue := (ts_queue s)\<lparr>tq_sleepy := False\<rparr>\<rparr>)"
proof -
  let ?T = "ts_pcs (ts_producers s) (ts_consumer s)"
  note I = tsq_invD [OF inv]
  have T: "ts_pcs (ts_producers s) (C_pop_again Pop_start :: 'a consumer) = ?T" using C by (intro pcs_same) simp
  have "Sleeping \<notin> set c" using I(2) C by simp
  moreover have "hist_inv c ((ts_queue s)\<lparr>tq_sleepy := False\<rparr>) ?T (C_pop_again Pop_start)"
    using I(3) C by (simp add: hist_inv_def) (simp add: tq_values_def)
  ultimately show ?thesis using I(1,4) by (intro tsq_invI) (simp_all add: T asleep_def)
qed

lemma canSleep_inv:
  fixes s :: "'a tsq_system"
  assumes inv: "tsq_inv c s" and C: "ts_consumer s = C_canSleep"
  shows "\<exists>C' q'. consumer_step C_canSleep (ts_queue s) = Inr (C', q') \<and> tsq_inv c (s\<lparr>ts_consumer := C', ts_queue := q'\<rparr>)"
proof -
  let ?q = "ts_queue s" and ?P = "ts_producers s" and ?T = "ts_pcs (ts_producers s) (ts_consumer s)"
  note I = tsq_invD [OF inv]
  have sl: "tq_sleepy ?q \<longleftrightarrow> Sleeping \<in> set c" using I(2) C by simp
  have no: "tsq_inv c (s\<lparr>ts_consumer := C_slept False, ts_queue := ?q\<rparr>)"
  proof -
    have "ts_pcs ?P (C_slept False :: 'a consumer) = ?T" using C by (intro pcs_same) simp
    then show ?thesis using I sl C by (intro tsq_invI) (simp_all add: asleep_def hist_inv_def)
  qed
  show ?thesis
  proof (cases "tq_sleepy ?q \<or> tq_tail ?q \<noteq> Stub \<or> tq_next ?q Stub \<noteq> None")
    case True
    then have "consumer_step C_canSleep ?q = Inr (C_slept False, ?q)" by (auto simp: read_next_def tq_live_def)
    then show ?thesis using no by blast
  next
    case False
    have T0: "?T None = None" using C by (simp add: ts_pcs_def)
    have T: "ts_pcs ?P (C_sleep (Push_start Sleeping) :: 'a consumer) = ?T(None \<mapsto> Push_start Sleeping)"
      using ts_pcs_consumer [of ?P "C_sleep (Push_start Sleeping)" "ts_consumer s"] by simp
    have notin: "Sleeping \<notin> set c" using sl False by simp
    have nobody: "\<not> pushes ?T u Sleeping" for u
      using prods_not_stub [OF I(4)] T0 by (cases u) (auto simp: pushes_def)
    have "owned (?T(None \<mapsto> Push_start Sleeping)) (Node k) \<longleftrightarrow> owned ?T (Node k)" for k
      using T0 by (simp add: owned_upd owned_at [of ?T _ None])
    then have h: "hist_inv c ?q (?T(None \<mapsto> Push_start Sleeping)) (C_sleep (Push_start Sleeping))"
      using I(3) C by (simp add: hist_inv_def)
    have "chain_inv c ?q (?T(None \<mapsto> Push_start Sleeping))"
      using begin_chain [OF I(1) T0 notin _ nobody] by (simp add: tq_live_def)
    then have "tsq_inv c (s\<lparr>ts_consumer := C_sleep (Push_start Sleeping), ts_queue := ?q\<rparr>)"
      using h I(4) False chain_invD(3) [OF I(1)] by (intro tsq_invI) (simp_all add: T asleep_def)
    moreover have "consumer_step C_canSleep ?q = Inr (C_sleep (Push_start Sleeping), ?q)" using False by (simp add: read_next_def tq_live_def)
    ultimately show ?thesis by blast
  qed
qed

lemma sleep_step_inv:
  fixes s :: "'a tsq_system"
  assumes inv: "tsq_inv c s" and C: "ts_consumer s = C_sleep pc"
  shows "\<exists>C' q' c'. consumer_step (C_sleep pc) (ts_queue s) = Inr (C', q') \<and> tsq_inv c' (s\<lparr>ts_consumer := C', ts_queue := q'\<rparr>)"
proof -
  let ?q = "ts_queue s" and ?P = "ts_producers s" and ?T = "ts_pcs (ts_producers s) (ts_consumer s)"
  note I = tsq_invD [OF inv]
  have t: "?T None = Some pc" using C by (simp add: ts_pcs_def)
  obtain r pc' q' where st: "push_stepped c ?q ?T None pc r pc' q'" using push_step [OF I(1) t] by blast
  have run: "pushNode_step pc ?q = Inr (pc', q')" and ch: "chain_inv (c @ r) q' (?T(None := pc_next pc'))" and sr: "same_rest ?q q'"
    and ret: "\<forall>p. pc' = Push_ret p \<longrightarrow> r = [] \<and> (\<exists>n. pc = Push_link n p)" and node: "pc_next pc' \<noteq> None \<longrightarrow> pc_node pc' = pc_node pc"
    and link: "\<forall>n p. pc' = Push_link n p \<longrightarrow> r = [n] \<and> p = last c"
    using st unfolding push_stepped_def by blast+
  have sl: "\<not> tq_sleepy ?q" "hd c = Stub" "pc_node pc = Some Sleeping" using I(2) C by simp_all
  note d = chain_invD [OF I(1)]
  have hist: "hist_inv (c @ r) q' (?T(None := pc_next pc')) (C_sleep pc)" using hist_inv_grow [OF I(3) st] C by simp
  show ?thesis
  proof (cases pc')
    case (Push_ret p)
    then obtain n where n: "pc = Push_link n p" "r = []" using ret by blast
    have ns: "n = Sleeping" using n sl(3) by simp
    have "adj c p Sleeping" using d(8) [of None n p] t n ns by simp
    then have s_in: "Sleeping \<in> set c" using adj_in d(1) by (metis list.set_sel(2))
    have T: "ts_pcs ?P (C_slept (p = Stub) :: 'a consumer) = ?T(None := pc_next pc')"
      using ts_pcs_consumer [of ?P "C_slept (p = Stub)" "ts_consumer s"] Push_ret by (simp add: pc_next_def)
    let ?s = "s\<lparr>ts_consumer := C_slept (p = Stub), ts_queue := q'\<lparr>tq_sleepy := True\<rparr>\<rparr>"
    have "wake_inv c ?P (C_slept (p = Stub) :: 'a consumer) (ts_woken s)"
    proof (cases "p = Stub")
      case True
      then have "asleep (ts_consumer s)" using C n ns by (simp add: asleep_def)
      then show ?thesis using I(5) unfolding wake_inv_def by blast
    qed (simp add: asleep_def)
    moreover have "hist_inv c (q'\<lparr>tq_sleepy := True\<rparr>) (?T(None := pc_next pc')) (C_slept (p = Stub))"
      using hist n(2) by (simp add: hist_inv_def)
    ultimately have "tsq_inv c ?s" using ch n(2) s_in I(4) by (intro tsq_invI) (simp_all add: T)
    moreover have "consumer_step (C_sleep pc) ?q = Inr (C_slept (p = Stub), q'\<lparr>tq_sleepy := True\<rparr>)" using run Push_ret by simp
    ultimately show ?thesis by blast
  next
    case (Push_link n p)
    have rn: "r = [n]" "p = last c" using link Push_link by blast+
    have ns: "n = Sleeping" using node Push_link sl(3) by (simp add: pc_next_def)
    have T: "ts_pcs ?P (C_sleep pc' :: 'a consumer) = ?T(None := pc_next pc')"
      using ts_pcs_consumer [of ?P "C_sleep pc'" "ts_consumer s"] Push_link by (simp add: pc_next_def)
    have "wake_inv (c @ r) ?P (C_sleep pc' :: 'a consumer) (ts_woken s)"
    proof (cases "p = Stub")
      case True
      have "c = [Stub]"
      proof (cases c)
        case (Cons x xs)
        then show ?thesis using d(2) sl(2) rn(2) True last_in_set [of xs] by (cases "xs = []") auto
      qed (use d(1) in simp)
      then show ?thesis using rn(1) ns by (simp add: wake_inv_def)
    qed (use Push_link in \<open>simp add: asleep_def\<close>)
    moreover have "cons_inv (c @ r) q' (?T(None := pc_next pc')) (C_sleep pc')"
      using sl node sr d(1) Push_link by (simp add: pc_next_def same_rest_def)
    moreover have "hist_inv (c @ r) q' (?T(None := pc_next pc')) (C_sleep pc')" using hist by (simp add: hist_inv_def)
    ultimately have "tsq_inv (c @ r) (s\<lparr>ts_consumer := C_sleep pc', ts_queue := q'\<rparr>)"
      using ch I(4) by (intro tsq_invI) (simp_all add: T)
    moreover have "consumer_step (C_sleep pc) ?q = Inr (C_sleep pc', q')" using run Push_link by simp
    ultimately show ?thesis by blast
  next
    case (Push_exchange n)
    have T: "ts_pcs ?P (C_sleep pc' :: 'a consumer) = ?T(None := pc_next pc')"
      using ts_pcs_consumer [of ?P "C_sleep pc'" "ts_consumer s"] Push_exchange by (simp add: pc_next_def)
    have "cons_inv (c @ r) q' (?T(None := pc_next pc')) (C_sleep pc')"
      using sl node sr d(1) Push_exchange by (simp add: pc_next_def same_rest_def)
    moreover have w: "wake_inv (c @ r) ?P (C_sleep pc' :: 'a consumer) (ts_woken s)" using Push_exchange by (simp add: asleep_def)
    moreover have "hist_inv (c @ r) q' (?T(None := pc_next pc')) (C_sleep pc')" using hist by (simp add: hist_inv_def)
    ultimately have "tsq_inv (c @ r) (s\<lparr>ts_consumer := C_sleep pc', ts_queue := q'\<rparr>)"
      using ch I(4) w by (intro tsq_invI) (simp_all add: T)
    moreover have "consumer_step (C_sleep pc) ?q = Inr (C_sleep pc', q')" using run Push_exchange by simp
    ultimately show ?thesis by blast
  next
    case (Push_start n)
    then show ?thesis using run by (cases pc) (auto simp: write_next_def split: if_splits)
  qed
qed

lemma consumer_step_inv:
  assumes inv: "tsq_inv c s" and run: "\<not> consumer_rests (ts_consumer s)"
  shows "\<exists>s' c'. tsq_do Consumer_step s = Inr s' \<and> tsq_inv c' s'"
proof (cases "ts_consumer s")
  case (C_pop pc)
  show ?thesis
  proof (cases "\<exists>b. pc = Pop_ret b")
    case True
    then obtain b where b: "pc = Pop_ret b" by blast
    show ?thesis
    proof (cases "b = Some Sleeping")
      case True
      then show ?thesis using pop_sleeping_inv [OF inv] C_pop b by auto
    next
      case False
      then show ?thesis using pop_finish_inv [OF inv, of C_pop b] C_pop b by auto
    qed
  next
    case False
    then obtain pc' q' c' where p: "popNode_step pc (ts_queue s) = Inr (pc', q')" "tsq_inv c' (s\<lparr>ts_consumer := C_pop pc', ts_queue := q'\<rparr>)"
      using popNode_inv [OF inv, of C_pop pc] C_pop by blast
    have cs: "consumer_step (C_pop pc) (ts_queue s) = Inr (C_pop pc', q')" using p(1) False by (cases pc) auto
    have "tsq_do Consumer_step s = Inr (s\<lparr>ts_consumer := C_pop pc', ts_queue := q'\<rparr>)" unfolding tsq_do.simps C_pop cs by simp
    then show ?thesis using p(2) by blast
  qed
next
  case (C_pop_again pc)
  show ?thesis
  proof (cases "\<exists>b. pc = Pop_ret b")
    case True
    then obtain b where b: "pc = Pop_ret b" by blast
    have "b \<noteq> Some Sleeping" using tsq_invD(2) [OF inv] C_pop_again b by simp
    then show ?thesis using pop_finish_inv [OF inv, of C_pop_again b] C_pop_again b by auto
  next
    case False
    then obtain pc' q' c' where p: "popNode_step pc (ts_queue s) = Inr (pc', q')" "tsq_inv c' (s\<lparr>ts_consumer := C_pop_again pc', ts_queue := q'\<rparr>)"
      using popNode_inv [OF inv, of C_pop_again pc] C_pop_again by blast
    have cs: "consumer_step (C_pop_again pc) (ts_queue s) = Inr (C_pop_again pc', q')" using p(1) False by (cases pc) auto
    have "tsq_do Consumer_step s = Inr (s\<lparr>ts_consumer := C_pop_again pc', ts_queue := q'\<rparr>)" unfolding tsq_do.simps C_pop_again cs by simp
    then show ?thesis using p(2) by blast
  qed
next
  case C_canSleep
  then show ?thesis using canSleep_inv [OF inv] by (auto simp del: consumer_step.simps)
next
  case (C_sleep pc)
  then show ?thesis using sleep_step_inv [OF inv, of pc] by (auto simp del: consumer_step.simps)
qed (use run in \<open>simp_all add: consumer_rests_def\<close>)

lemma tsq_step_inv:
  assumes inv: "tsq_inv c s" and en: "tsq_enabled a s"
  shows "\<exists>s' c'. tsq_do a s = Inr s' \<and> tsq_inv c' s'"
proof (cases a)
  case (Begin_push i k v)
  then show ?thesis using begin_push_inv [OF inv, of i k v] en by blast
next
  case (Push_step i)
  then obtain pc where "ts_producers s i = P_push pc" using en by (cases "ts_producers s i") (auto simp: producer_rests_def)
  then show ?thesis using producer_step_inv [OF inv] Push_step by blast
next
  case Begin_pop
  then show ?thesis using begin_inv(1) [OF inv] en by auto
next
  case Begin_canSleep
  then show ?thesis using begin_inv(2) [OF inv] en by auto
next
  case Consumer_step
  then show ?thesis using consumer_step_inv [OF inv] en by auto
qed

lemma tsq_reachable_inv: "tsq_reachable s \<Longrightarrow> \<exists>c. tsq_inv c s"
proof (induction rule: tsq_reachable.induct)
  case tsq_reach_init
  show ?case using tsq_init_inv by blast
next
  case (tsq_reach_step s a s')
  then show ?case using tsq_step_inv by (metis sum.inject(2))
qed

subsection \<open>A pop that no push overlaps\<close>

text \<open>The consumer runs until its operation returns, for at most \<open>n\<close> steps.\<close>

fun run_consumer :: "nat \<Rightarrow> 'a consumer \<Rightarrow> 'a tsq \<Rightarrow> ('a consumer \<times> 'a tsq) result" where
  "run_consumer 0 C q = Inr (C, q)"
| "run_consumer (Suc n) C q =
     (if consumer_rests C then Inr (C, q) else bind_result (consumer_step C q) (\<lambda>(C1, q1). run_consumer n C1 q1))"

definition tsq_pop :: "'a tsq \<Rightarrow> ('a consumer \<times> 'a tsq) result" where
  "tsq_pop q = run_consumer 18 (C_pop Pop_start) q"

text \<open>\<open>~ThreadSafeQueue\<close>, which runs when no other thread uses the queue.\<close>

partial_function (option) tsq_destroy :: "'a tsq \<Rightarrow> 'a tsq result option" where
  "tsq_destroy q =
     (case tsq_pop q of
        Inl e \<Rightarrow> Some (Inl e)
      | Inr (C, q1) \<Rightarrow> (if \<exists>v. C = C_popped (Some v) then tsq_destroy q1 else Some (Inr q1)))"

definition linked :: "tnode list \<Rightarrow> 'a tsq \<Rightarrow> bool" where
  "linked c q \<longleftrightarrow>
     c \<noteq> [] \<and> distinct c \<and> hd c = tq_tail q \<and> last c = tq_head q \<and> tq_next q (last c) = None \<and> (\<forall>n \<in> set c. tq_live q n) \<and>
     (\<forall>a b. adj c a b \<longrightarrow> tq_next q a = Some b)"

lemma run_pop_step:
  assumes "K = C_pop \<or> K = C_pop_again" and "\<And>b. pc \<noteq> Pop_ret b" and "popNode_step pc q = Inr (pc1, q1)"
  shows "run_consumer (Suc n) (K pc) q = run_consumer n (K pc1) q1"
  using assms by (cases pc) (auto simp: consumer_rests_def)

lemma linked_tail:
  assumes "linked (x # m # c) q"
  shows "linked (m # c) (q\<lparr>tq_tail := m\<rparr>)" and "tq_next q x = Some m"
  using assms by (auto simp: linked_def tq_live_def split: tnode.splits)

lemma pop_alone_last:
  assumes K: "K = C_pop \<or> K = C_pop_again" and l: "linked [t] q" and t: "t \<noteq> Stub"
  shows "\<exists>q'. linked [Stub] q' \<and> run_consumer (n + 5) (K (Pop_head t)) q = run_consumer n (K (Pop_ret (Some t))) q' \<and>
    same_rest (q\<lparr>tq_tail := Stub\<rparr>) q' \<and> tq_pushed q' = tq_pushed q"
proof -
  define q1 where "q1 = q\<lparr>tq_next := (tq_next q)(Stub := None)\<rparr>"
  define q2 where "q2 = q1\<lparr>tq_head := Stub\<rparr>"
  define q3 where "q3 = q2\<lparr>tq_next := (tq_next q2)(t \<mapsto> Stub)\<rparr>"
  define q4 where "q4 = q3\<lparr>tq_tail := Stub\<rparr>"
  have h: "tq_head q = t" "tq_live q t" using l by (auto simp: linked_def)
  have live: "tq_live q1 = tq_live q" "tq_live q2 = tq_live q" "tq_live q3 = tq_live q" "tq_live q4 = tq_live q"
    by (simp_all add: fun_eq_iff tq_live_def q1_def q2_def q3_def q4_def split: tnode.splits)
  have s1: "popNode_step (Pop_head t) q = Inr (Pop_push t (Push_start Stub), q)" using h by simp
  have s2: "popNode_step (Pop_push t (Push_start Stub)) q = Inr (Pop_push t (Push_exchange Stub), q1)"
    by (simp add: write_next_def tq_live_def q1_def)
  have s3: "popNode_step (Pop_push t (Push_exchange Stub)) q1 = Inr (Pop_push t (Push_link Stub t), q2)"
    using h by (simp add: tq_values_def q2_def q1_def)
  have s4: "popNode_step (Pop_push t (Push_link Stub t)) q2 = Inr (Pop_last t, q3)"
    using h live by (simp add: write_next_def q3_def)
  have s5: "popNode_step (Pop_last t) q3 = Inr (Pop_ret (Some t), q4)"
    using h live by (simp add: read_next_def q3_def q4_def)
  have "run_consumer (n + 5) (K (Pop_head t)) q = run_consumer n (K (Pop_ret (Some t))) q4"
    by (simp add: numeral_eq_Suc run_pop_step [OF K _ s1] run_pop_step [OF K _ s2] run_pop_step [OF K _ s3]
        run_pop_step [OF K _ s4] run_pop_step [OF K _ s5] del: run_consumer.simps)
  moreover have "linked [Stub] q4" using t by (simp add: linked_def tq_live_def q4_def q3_def q2_def q1_def)
  moreover have "same_rest (q\<lparr>tq_tail := Stub\<rparr>) q4 \<and> tq_pushed q4 = tq_pushed q" by (simp add: same_rest_def q4_def q3_def q2_def q1_def)
  ultimately show ?thesis by blast
qed

definition popped_alone :: "tnode list \<Rightarrow> 'a tsq \<Rightarrow> tnode list \<Rightarrow> tnode option \<Rightarrow> 'a tsq \<Rightarrow> bool" where
  "popped_alone c q c' r q' \<longleftrightarrow>
     linked c' q' \<and> filter (\<lambda>n. n \<noteq> Stub) c = (case r of None \<Rightarrow> [] | Some b \<Rightarrow> [b]) @ filter (\<lambda>n. n \<noteq> Stub) c' \<and>
     (\<forall>b. r = Some b \<longrightarrow> b \<noteq> Stub \<and> b \<notin> set c') \<and> (r = None \<longrightarrow> c = [Stub] \<and> c' = c) \<and>
     tq_data q' = tq_data q \<and> tq_sleepy q' = tq_sleepy q \<and> tq_popped q' = tq_popped q \<and> tq_pushed q' = tq_pushed q"

lemma pop_from:
  assumes K: "K = C_pop \<or> K = C_pop_again" and l: "linked (t # xs) q" and t: "t \<noteq> Stub"
    and step: "popNode_step pc q = Inr (pop_decide t (tq_next q t) q)" and pc: "\<And>b. pc \<noteq> Pop_ret b"
  shows "\<exists>j c' q'. run_consumer (n + 6) (K pc) q = run_consumer (n + j) (K (Pop_ret (Some t))) q' \<and> popped_alone (t # xs) q c' (Some t) q'"
proof (cases xs)
  case Nil
  then have next_t: "tq_next q t = None" using l unfolding linked_def by (metis last.simps)
  obtain q' where q': "linked [Stub] q'" "run_consumer (n + 5) (K (Pop_head t)) q = run_consumer n (K (Pop_ret (Some t))) q'"
      "same_rest (q\<lparr>tq_tail := Stub\<rparr>) q'" "tq_pushed q' = tq_pushed q" using pop_alone_last [OF K _ t] l Nil by blast
  have "popNode_step pc q = Inr (Pop_head t, q)" using step next_t by (simp add: pop_decide_def)
  from run_pop_step [OF K pc this, of "n + 5"] have "run_consumer (n + 6) (K pc) q = run_consumer (n + 5) (K (Pop_head t)) q"
    by (simp add: add.commute del: run_consumer.simps)
  then have "run_consumer (n + 6) (K pc) q = run_consumer (n + 0) (K (Pop_ret (Some t))) q'"
    using q'(2) by simp
  moreover have "popped_alone (t # xs) q [Stub] (Some t) q'" using q' Nil t by (simp add: popped_alone_def same_rest_def)
  ultimately show ?thesis by blast
next
  case (Cons m ys)
  have lt: "linked (m # ys) (q\<lparr>tq_tail := m\<rparr>)" "tq_next q t = Some m" using linked_tail l Cons by blast+
  have d: "distinct (t # xs)" using l unfolding linked_def by blast
  have "popNode_step pc q = Inr (Pop_ret (Some t), q\<lparr>tq_tail := m\<rparr>)" using step lt(2) by (simp add: pop_decide_def)
  from run_pop_step [OF K pc this, of "n + 5"]
  have "run_consumer (n + 6) (K pc) q = run_consumer (n + 5) (K (Pop_ret (Some t))) (q\<lparr>tq_tail := m\<rparr>)" by (simp add: add.commute del: run_consumer.simps)
  moreover have "popped_alone (t # xs) q (m # ys) (Some t) (q\<lparr>tq_tail := m\<rparr>)"
    using lt(1) d Cons t by (simp add: popped_alone_def)
  ultimately show ?thesis by blast
qed

lemma popNode_alone:
  assumes K: "K = C_pop \<or> K = C_pop_again" and l: "linked c q"
  shows "\<exists>j c' r q'. run_consumer (n + 7) (K Pop_start) q = run_consumer (n + j) (K (Pop_ret r)) q' \<and> popped_alone c q c' r q'"
proof -
  obtain t xs where c: "c = t # xs" using l by (cases c) (auto simp: linked_def)
  have h: "tq_tail q = t" "tq_live q t" using l c by (auto simp: linked_def)
  show ?thesis
  proof (cases "t = Stub")
    case False
    have "popNode_step Pop_start q = Inr (pop_decide t (tq_next q t) q)" using h False by (simp add: read_next_def)
    then obtain j c' q' where j: "run_consumer (n + 1 + 6) (K Pop_start) q = run_consumer (n + 1 + j) (K (Pop_ret (Some t))) q'"
        "popped_alone (t # xs) q c' (Some t) q'" using pop_from [OF K _ False, of xs q Pop_start "n + 1"] l c by blast
    have "n + 1 + 6 = n + 7" "n + 1 + j = n + (1 + j)" by simp_all
    then have "run_consumer (n + 7) (K Pop_start) q = run_consumer (n + (1 + j)) (K (Pop_ret (Some t))) q'" using j(1) by metis
    then show ?thesis using j(2) c by blast
  next
    case stub: True
    show ?thesis
    proof (cases xs)
      case Nil
      have "popNode_step Pop_start q = Inr (Pop_ret None, q)" using h l c stub Nil by (simp add: read_next_def linked_def)
      from run_pop_step [OF K _ this, of "n + 6"] have "run_consumer (n + 7) (K Pop_start) q = run_consumer (n + 6) (K (Pop_ret None)) q"
        by (simp add: add.commute del: run_consumer.simps)
      moreover have "popped_alone c q c None q" using l c stub Nil by (simp add: popped_alone_def)
      ultimately show ?thesis by blast
    next
      case (Cons m ys)
      let ?q = "q\<lparr>tq_tail := m\<rparr>"
      have lt: "linked (m # ys) ?q" "tq_next q t = Some m" using linked_tail l c Cons by blast+
      have m: "m \<noteq> Stub" using l c Cons stub by (auto simp: linked_def)
      have "popNode_step Pop_start q = Inr (Pop_next m, ?q)" using h lt(2) stub by (simp add: read_next_def)
      from run_pop_step [OF K _ this, of "n + 6"] have r1: "run_consumer (n + 7) (K Pop_start) q = run_consumer (n + 6) (K (Pop_next m)) ?q"
        by (simp add: add.commute del: run_consumer.simps)
      have "tq_live ?q m" using lt(1) by (simp add: linked_def)
      then have "popNode_step (Pop_next m) ?q = Inr (pop_decide m (tq_next ?q m) ?q)" by (simp add: read_next_def)
      then obtain j c' q' where r2: "run_consumer (n + 6) (K (Pop_next m)) ?q = run_consumer (n + j) (K (Pop_ret (Some m))) q'"
          "popped_alone (m # ys) ?q c' (Some m) q'" using pop_from [OF K lt(1) m] by blast
      have "popped_alone c q c' (Some m) q'" using r2(2) c Cons stub m by (simp add: popped_alone_def)
      then show ?thesis using r1 r2(1) by metis
    qed
  qed
qed

lemma linked_sleepy [simp]: "linked c (q\<lparr>tq_sleepy := b\<rparr>) = linked c q"
  by (simp add: linked_def)

lemma run_done [simp]: "run_consumer n (C_popped r) q = Inr (C_popped r, q)"
  by (cases n) (simp_all add: consumer_rests_def)

lemma run_pop_ret:
  "run_consumer (Suc n) (C_pop (Pop_ret r)) q =
     (if r = Some Sleeping then run_consumer n (C_pop_again Pop_start) (q\<lparr>tq_sleepy := False\<rparr>)
      else bind_result (pop_finish r q) (\<lambda>(x, q1). Inr (C_popped x, q1)))"
  "run_consumer (Suc n) (C_pop_again (Pop_ret r)) q = bind_result (pop_finish r q) (\<lambda>(x, q1). Inr (C_popped x, q1))"
  by (cases "pop_finish r q"; auto simp: consumer_rests_def)+

text \<open>What \<open>c\<close> holds, and that every node allocated is in it, apart from those of \<open>X\<close>.\<close>

definition seq_inv :: "nat set \<Rightarrow> tnode list \<Rightarrow> 'a tsq \<Rightarrow> bool" where
  "seq_inv X c q \<longleftrightarrow> linked c q \<and> tq_pushed q = tq_popped q @ concat (map (tq_values q) c) \<and> (\<forall>k. tq_data q k \<noteq> None \<longrightarrow> Node k \<in> set c \<or> k \<in> X)"

lemma popped_alone_seq:
  assumes p: "popped_alone c q c' r q'"
  shows "tq_values q' = tq_values q"
    and "concat (map (tq_values q) c) = (case r of None \<Rightarrow> [] | Some b \<Rightarrow> tq_values q b) @ concat (map (tq_values q) c')"
    and "n \<noteq> Stub \<Longrightarrow> n \<in> set c \<longleftrightarrow> r = Some n \<or> n \<in> set c'"
proof -
  have f: "filter (\<lambda>n. n \<noteq> Stub) c = (case r of None \<Rightarrow> [] | Some b \<Rightarrow> [b]) @ filter (\<lambda>n. n \<noteq> Stub) c'" and d: "tq_data q' = tq_data q"
    using p unfolding popped_alone_def by blast+
  show "tq_values q' = tq_values q" using d unfolding tq_values_def by simp
  show "concat (map (tq_values q) c) = (case r of None \<Rightarrow> [] | Some b \<Rightarrow> tq_values q b) @ concat (map (tq_values q) c')"
    unfolding values_filter [of q c] values_filter [of q c'] f by (simp split: option.splits)
  assume n: "n \<noteq> Stub"
  have "n \<in> set c \<longleftrightarrow> n \<in> set (filter (\<lambda>n. n \<noteq> Stub) c)" using n by simp
  also have "\<dots> \<longleftrightarrow> n \<in> set (case r of None \<Rightarrow> [] | Some b \<Rightarrow> [b]) \<or> n \<in> set c'" unfolding f using n by simp
  finally show "n \<in> set c \<longleftrightarrow> r = Some n \<or> n \<in> set c'" by (cases r) auto
qed

definition popped_value :: "'a tsq \<Rightarrow> 'a option \<Rightarrow> 'a tsq \<Rightarrow> bool" where
  "popped_value q r q' \<longleftrightarrow> tq_pushed q' = tq_pushed q \<and>
     (case r of None \<Rightarrow> tq_pushed q = tq_popped q \<and> tq_popped q' = tq_popped q
      | Some v \<Rightarrow> tq_popped q' = tq_popped q @ [v])"

text \<open>The end of the pop.\<close>

lemma finish_alone:
  assumes inv: "seq_inv X c q" and p: "popped_alone c q c' r q'" and s: "r \<noteq> Some Sleeping"
  shows "\<exists>v q2. pop_finish r q' = Inr (v, q2) \<and> seq_inv X c' q2 \<and> popped_value q v q2 \<and> tq_sleepy q2 = tq_sleepy q'"
proof -
  note v = popped_alone_seq [OF p]
  have q': "linked c' q'" "tq_data q' = tq_data q" "tq_popped q' = tq_popped q" "tq_pushed q' = tq_pushed q"
    and r: "\<forall>b. r = Some b \<longrightarrow> b \<noteq> Stub \<and> b \<notin> set c'" "r = None \<longrightarrow> c = [Stub] \<and> c' = c"
    using p unfolding popped_alone_def by blast+
  have i: "linked c q" "tq_pushed q = tq_popped q @ concat (map (tq_values q) c)" "\<forall>k. tq_data q k \<noteq> None \<longrightarrow> Node k \<in> set c \<or> k \<in> X"
    using inv unfolding seq_inv_def by blast+
  show ?thesis
  proof (cases r)
    case None
    then have "c = [Stub]" "c' = c" using r(2) by auto
    then have "seq_inv X c' q'" using q' i v(1) by (simp add: seq_inv_def)
    moreover have "popped_value q None q'" using i(2) q' \<open>c = [Stub]\<close> by (simp add: popped_value_def) (simp add: tq_values_def)
    ultimately show ?thesis using None by (simp add: pop_finish_def)
  next
    case (Some n)
    obtain k where k: "n = Node k" using r(1) s Some by (cases n) auto
    have kc: "Node k \<in> set c" "Node k \<notin> set c'" using v(3) [of n] r(1) Some k by auto
    then have "tq_live q (Node k)" using i(1) unfolding linked_def by blast
    then obtain w where w: "tq_data q k = Some w" by (auto simp: tq_live_def)
    let ?q2 = "q'\<lparr>tq_data := (tq_data q')(k := None), tq_popped := tq_popped q' @ [w]\<rparr>"
    have vv: "tq_values ?q2 m = tq_values q m" if "m \<noteq> Node k" for m using that q'(2) by (cases m) (auto simp: tq_values_def)
    have m: "map (tq_values ?q2) c' = map (tq_values q) c'"
    proof (rule map_cong [OF refl])
      fix x assume "x \<in> set c'"
      then show "tq_values ?q2 x = tq_values q x" using kc(2) by (intro vv) auto
    qed
    have live: "tq_live ?q2 m" if "tq_live q' m" "m \<noteq> Node k" for m using that by (cases m) (auto simp: tq_live_def)
    have "linked c' ?q2" using q'(1) kc(2) live unfolding linked_def by auto
    moreover have "tq_pushed q = tq_popped q @ [w] @ concat (map (tq_values q) c')"
      using i(2) v(2) Some k w by (simp add: tq_values_def)
    moreover have "Node j \<in> set c' \<or> j \<in> X" if "tq_data ?q2 j \<noteq> None" for j
    proof -
      have "j \<noteq> k" "tq_data q j \<noteq> None" using that q'(2) by (auto split: if_splits)
      then show ?thesis using i(3) v(3) [of "Node j"] Some k by auto
    qed
    ultimately have "seq_inv X c' ?q2" unfolding seq_inv_def m using q' by simp
    moreover have "popped_value q (Some w) ?q2" using q' by (simp add: popped_value_def)
    moreover have "pop_finish r q' = Inr (Some w, ?q2)" using Some k w q'(2) by (simp add: pop_finish_def)
    ultimately show ?thesis by (metis tsq.select_convs(5) tsq.surjective tsq.update_convs(2) tsq.update_convs(7))
  qed
qed

lemma pop_alone:
  assumes inv: "seq_inv X c q"
  shows "\<exists>v q' c'. tsq_pop q = Inr (C_popped v, q') \<and> seq_inv X c' q' \<and> popped_value q v q'"
proof -
  have l: "linked c q" using inv by (simp add: seq_inv_def)
  obtain j c1 r q1 where r1: "run_consumer (11 + 7) (C_pop Pop_start) q = run_consumer (11 + j) (C_pop (Pop_ret r)) q1" "popped_alone c q c1 r q1"
    using popNode_alone [of C_pop c q 11] l by blast
  have e: "11 + j = Suc (2 + 7 + (1 + j))" by simp
  have pop: "tsq_pop q = run_consumer (Suc (2 + 7 + (1 + j))) (C_pop (Pop_ret r)) q1" using r1(1) unfolding e by (simp add: tsq_pop_def del: run_consumer.simps)
  show ?thesis
  proof (cases "r = Some Sleeping")
    case False
    obtain v q2 where f: "pop_finish r q1 = Inr (v, q2)" "seq_inv X c1 q2" "popped_value q v q2" using finish_alone [OF inv r1(2) False] by blast
    then have "tsq_pop q = Inr (C_popped v, q2)" unfolding pop run_pop_ret using False by simp
    then show ?thesis using f by blast
  next
    case True
    let ?q = "q1\<lparr>tq_sleepy := False\<rparr>"
    note v = popped_alone_seq [OF r1(2)]
    have q1: "linked c1 q1" "tq_data q1 = tq_data q" "tq_popped q1 = tq_popped q" "tq_pushed q1 = tq_pushed q" "Sleeping \<notin> set c1"
      using r1(2) True unfolding popped_alone_def by blast+
    have seq1: "seq_inv X c1 ?q"
    proof -
      have "linked c1 ?q" using q1(1) by simp
      moreover have "tq_pushed ?q = tq_popped ?q @ concat (map (tq_values ?q) c1)"
        using inv q1 v(1,2) True by (simp add: seq_inv_def) (simp add: tq_values_def)
      moreover have "Node k \<in> set c1 \<or> k \<in> X" if "tq_data ?q k \<noteq> None" for k
        using that inv q1(2) v(3) [of "Node k"] True by (auto simp: seq_inv_def)
      ultimately show ?thesis unfolding seq_inv_def by blast
    qed
    have "linked c1 ?q" using q1(1) by simp
    then obtain i c2 r2 q2 where r2: "run_consumer (2 + (1 + j) + 7) (C_pop_again Pop_start) ?q = run_consumer (2 + (1 + j) + i) (C_pop_again (Pop_ret r2)) q2"
        "popped_alone c1 ?q c2 r2 q2" using popNode_alone [of C_pop_again c1 ?q "2 + (1 + j)"] by blast
    have ns: "r2 \<noteq> Some Sleeping" using popped_alone_seq(3) [OF r2(2), of Sleeping] q1(5) by auto
    obtain w q3 where f: "pop_finish r2 q2 = Inr (w, q3)" "seq_inv X c2 q3" "popped_value ?q w q3"
      using finish_alone [OF seq1 r2(2) ns] by blast
    have "tsq_pop q = run_consumer (2 + (1 + j) + 7) (C_pop_again Pop_start) ?q"
      unfolding pop run_pop_ret using True by (simp add: add.commute add.left_commute)
    also have "\<dots> = run_consumer (Suc (1 + (1 + j) + i)) (C_pop_again (Pop_ret r2)) q2" using r2(1) by simp
    also have "\<dots> = Inr (C_popped w, q3)" unfolding run_pop_ret using f(1) by simp
    finally have run: "tsq_pop q = Inr (C_popped w, q3)" .
    have "popped_value q w q3" using f(3) q1 by (simp add: popped_value_def cong: option.case_cong)
    then show ?thesis using run f(2) by blast
  qed
qed

lemma rest_seq_inv:
  assumes inv: "tsq_inv c s" and rest: "consumer_rests (ts_consumer s)" and quiet: "\<And>i n p. ts_producers s i \<noteq> P_push (Push_link n p)"
  shows "seq_inv {k. owned (ts_pcs (ts_producers s) (ts_consumer s)) (Node k)} c (ts_queue s)"
proof -
  let ?q = "ts_queue s" and ?T = "ts_pcs (ts_producers s) (ts_consumer s)"
  note I = tsq_invD [OF inv] and d = chain_invD [OF tsq_invD(1) [OF inv]]
  have none: "consumer_pc (ts_consumer s) = None" "popped_node (ts_consumer s) = None" using consumer_rests_pc [OF rest] by auto
  have "?T t \<noteq> Some (Push_link b a)" for t a b
    using none(1) quiet by (cases t) (auto simp: ts_pcs_def producer_pc_def split: producer.splits)
  then have "linked c ?q" using d(1-6) d(7) unfolding linked_def by blast
  then show ?thesis using I(3) none(2) by (auto simp: seq_inv_def hist_inv_def)
qed

lemma destroy_alone:
  assumes "seq_inv {} c q"
  shows "\<exists>q'. tsq_destroy q = Some (Inr q') \<and> tq_popped q' = tq_pushed q \<and> (\<forall>k. tq_data q' k = None)"
  using assms
proof (induction "length (tq_pushed q) - length (tq_popped q)" arbitrary: q c rule: less_induct)
  case less
  obtain v q1 c1 where p: "tsq_pop q = Inr (C_popped v, q1)" "seq_inv {} c1 q1" "popped_value q v q1" using pop_alone [OF less.prems] by blast
  show ?case
  proof (cases v)
    case None
    have e: "tq_pushed q = tq_popped q1" "tq_pushed q1 = tq_popped q1" using p(3) None by (simp_all add: popped_value_def)
    have "tq_data q1 k = None" for k
    proof (rule ccontr)
      assume k: "tq_data q1 k \<noteq> None"
      then have "Node k \<in> set c1" using p(2) by (auto simp: seq_inv_def)
      moreover have "tq_values q1 (Node k) \<noteq> []" using k by (auto simp: tq_values_def)
      ultimately have "concat (map (tq_values q1) c1) \<noteq> []" by auto
      then show False using p(2) e(2) by (simp add: seq_inv_def)
    qed
    then show ?thesis using p(1) None e by (simp add: tsq_destroy.simps)
  next
    case (Some w)
    have e: "tq_pushed q1 = tq_pushed q" "tq_popped q1 = tq_popped q @ [w]" using p(3) Some by (simp_all add: popped_value_def)
    moreover have "length (tq_popped q1) \<le> length (tq_pushed q1)" using p(2) by (simp add: seq_inv_def)
    ultimately have "length (tq_pushed q1) - length (tq_popped q1) < length (tq_pushed q) - length (tq_popped q)" by simp
    then obtain q' where "tsq_destroy q1 = Some (Inr q')" "tq_popped q' = tq_pushed q" "\<forall>k. tq_data q' k = None"
      using less.hyps p(2) e(1) by metis
    then show ?thesis using p(1) Some by (simp add: tsq_destroy.simps [of q])
  qed
qed

subsection \<open>The queue\<close>

fun tsq_run :: "'a tsq_action list \<Rightarrow> 'a tsq_system \<Rightarrow> 'a tsq_system option" where
  "tsq_run [] s = Some s"
| "tsq_run (a # as) s = (if tsq_enabled a s then case tsq_do a s of Inl _ \<Rightarrow> None | Inr s' \<Rightarrow> tsq_run as s' else None)"

lemma tsq_run_reachable: "tsq_reachable s \<Longrightarrow> tsq_run as s = Some s' \<Longrightarrow> tsq_reachable s'"
  by (induction as arbitrary: s) (auto split: if_splits sum.splits intro: tsq_reach_step)

text \<open>
  Property C10: for any number of producers and one consumer whose steps interleave in any order, every step that a thread can take
  succeeds: no node is read or written after it was freed, nothing is freed twice, and neither assertion of \<open>pop\<close> fails.  The
  values popped are at any time the first of those pushed, in the order in which the pushes exchanged \<open>head\<close>.
\<close>

theorem tsq_safe_fifo:
  assumes "tsq_reachable s" and "tsq_enabled a s"
  shows "\<exists>s'. tsq_do a s = Inr s' \<and> (\<exists>rest. tq_pushed (ts_queue s') = tq_popped (ts_queue s') @ rest)"
proof -
  obtain c where "tsq_inv c s" using tsq_reachable_inv [OF assms(1)] by blast
  then obtain s' c' where s': "tsq_do a s = Inr s'" "tsq_inv c' s'" using tsq_step_inv assms(2) by blast
  then have "\<exists>rest. tq_pushed (ts_queue s') = tq_popped (ts_queue s') @ rest" using tsq_invD(3) [OF s'(2)] unfolding hist_inv_def by blast
  then show ?thesis using s'(1) by blast
qed

theorem tsq_safe_fifo_witness:
  "\<exists>s s'. tsq_reachable s \<and> tsq_enabled (Push_step 1) s \<and> tsq_do (Push_step 1) s = Inr s' \<and>
     (\<exists>rest. tq_pushed (ts_queue s') = tq_popped (ts_queue s') @ rest) \<and> tq_pushed (ts_queue s') = [7, 5 :: nat]"
proof -
  let ?as = "[Begin_push 0 3 (7 :: nat), Begin_push 1 2 5, Push_step 0, Push_step 1, Push_step 0]"
  obtain s where s: "tsq_run ?as tsq_start = Some s" "tsq_enabled (Push_step 1) s"
      "\<And>s'. tsq_do (Push_step 1) s = Inr s' \<Longrightarrow> tq_pushed (ts_queue s') = [7, 5]"
    by (simp add: tsq_start_def tsq_init_def producer_rests_def write_next_def tq_live_def tq_values_def)
  have r: "tsq_reachable s" using tsq_run_reachable [OF tsq_reach_init s(1)] .
  show ?thesis using tsq_safe_fifo [OF r s(2)] r s(2,3) by blast
qed

text \<open>
  Property C11: no wake-up is lost.  While the consumer sleeps because \<open>canSleep\<close> returned true, either everything pushed was popped and
  the next push to reach \<open>head\<close> finds \<open>sleeping\<close> there, so that it returns true; or a push has returned true since; or a producer
  has exchanged \<open>head\<close> for \<open>sleeping\<close> and returns true in its next step.
\<close>

theorem tsq_no_lost_wakeup:
  assumes "tsq_reachable s" and "ts_consumer s = C_slept True"
  shows "tq_pushed (ts_queue s) = tq_popped (ts_queue s) \<and> tq_head (ts_queue s) = Sleeping \<or> ts_woken s \<or>
    (\<exists>i n. ts_producers s i = P_push (Push_link n Sleeping))"
proof -
  obtain c where inv: "tsq_inv c s" using tsq_reachable_inv [OF assms(1)] by blast
  note I = tsq_invD [OF inv]
  obtain rest where rest: "c = Stub # Sleeping # rest"
      "rest \<noteq> [] \<longrightarrow> ts_woken s \<or> (\<exists>i. ts_producers s i = P_push (Push_link (hd rest) Sleeping))"
    using I(5) assms(2) by (auto simp: wake_inv_def asleep_def)
  show ?thesis
  proof (cases "rest = []")
    case True
    then have "tq_pushed (ts_queue s) = tq_popped (ts_queue s)"
      using I(3) rest(1) assms(2) by (simp add: hist_inv_def) (simp add: tq_values_def)
    moreover have "tq_head (ts_queue s) = Sleeping" using chain_invD(4) [OF I(1)] rest(1) True by simp
    ultimately show ?thesis by blast
  next
    case False
    then show ?thesis using rest(2) by blast
  qed
qed

theorem tsq_no_lost_wakeup_witness:
  "\<exists>s :: nat tsq_system. tsq_reachable s \<and> ts_consumer s = C_slept True \<and>
     (tq_pushed (ts_queue s) = tq_popped (ts_queue s) \<and> tq_head (ts_queue s) = Sleeping \<or> ts_woken s \<or>
      (\<exists>i n. ts_producers s i = P_push (Push_link n Sleeping)))"
proof -
  obtain s where s: "tsq_run [Begin_canSleep, Consumer_step, Consumer_step, Consumer_step, Consumer_step] (tsq_start :: nat tsq_system) = Some s"
      "ts_consumer s = C_slept True"
    by (simp add: tsq_start_def tsq_init_def consumer_rests_def write_next_def read_next_def tq_live_def tq_values_def)
  have r: "tsq_reachable s" using tsq_run_reachable [OF tsq_reach_init s(1)] .
  show ?thesis using tsq_no_lost_wakeup [OF r s(2)] r s(2) by blast
qed

text \<open>
  A pop that a push overlaps can return nothing although no push is under way when it returns and a value was in the queue when it began:
  here the second push happens between the consumer's reads of \<open>next\<close> and of \<open>head\<close>.
\<close>

lemma tsq_pop_misses:
  "\<exists>s. tsq_reachable s \<and> ts_consumer s = C_popped None \<and> (\<forall>i. producer_rests (ts_producers s i)) \<and>
     tq_pushed (ts_queue s) = [7, 5 :: nat] \<and> tq_popped (ts_queue s) = []"
proof -
  let ?push = "\<lambda>i k v. [Begin_push i k v, Push_step i, Push_step i, Push_step i]"
  let ?as = "?push 0 3 (7 :: nat) @ [Begin_pop, Consumer_step, Consumer_step] @ ?push 1 2 5 @ [Consumer_step, Consumer_step]"
  obtain s where s: "tsq_run ?as tsq_start = Some s" "ts_consumer s = C_popped None" "\<And>i. producer_rests (ts_producers s i)"
      "tq_pushed (ts_queue s) = [7, 5]" "tq_popped (ts_queue s) = []"
    by (simp add: tsq_start_def tsq_init_def producer_rests_def consumer_rests_def write_next_def read_next_def tq_live_def tq_values_def
        pop_decide_def pop_finish_def Let_def)
  then show ?thesis using tsq_run_reachable [OF tsq_reach_init s(1)] by blast
qed

text \<open>
  Property C12: a pop that no push overlaps returns within 18 steps of the consumer, and exactly.  It returns a value when there is one,
  the oldest pushed and not yet popped, and nothing only when everything pushed was popped.  Producers may
  have pushes under way, as long as none is stopped between its two writes.
\<close>

theorem tsq_pop_alone:
  assumes "tsq_reachable s" and "consumer_rests (ts_consumer s)" and "\<And>i n p. ts_producers s i \<noteq> P_push (Push_link n p)"
  shows "\<exists>r q'. tsq_pop (ts_queue s) = Inr (C_popped r, q') \<and>
    (case r of
       None \<Rightarrow> tq_pushed (ts_queue s) = tq_popped (ts_queue s)
     | Some v \<Rightarrow> tq_popped q' = tq_popped (ts_queue s) @ [v] \<and> (\<exists>rest. tq_pushed (ts_queue s) = tq_popped (ts_queue s) @ v # rest))"
proof -
  obtain c where inv: "tsq_inv c s" using tsq_reachable_inv [OF assms(1)] by blast
  obtain v q' c' where p: "tsq_pop (ts_queue s) = Inr (C_popped v, q')" "seq_inv {k. owned (ts_pcs (ts_producers s) (ts_consumer s)) (Node k)} c' q'"
      "popped_value (ts_queue s) v q'" using pop_alone [OF rest_seq_inv [OF inv assms(2,3)]] by blast
  have "tq_pushed (ts_queue s) = tq_popped q' @ concat (map (tq_values q') c')"
    using p(2,3) by (simp add: seq_inv_def popped_value_def)
  then have "case v of
       None \<Rightarrow> tq_pushed (ts_queue s) = tq_popped (ts_queue s)
     | Some v \<Rightarrow> tq_popped q' = tq_popped (ts_queue s) @ [v] \<and> (\<exists>rest. tq_pushed (ts_queue s) = tq_popped (ts_queue s) @ v # rest)"
    using p(3) by (cases v) (auto simp: popped_value_def)
  then show ?thesis using p(1) by blast
qed

definition sample_pushed :: "nat tsq_system" where
  "sample_pushed = the (tsq_run [Begin_push 0 3 7, Push_step 0, Push_step 0, Push_step 0] tsq_start)"

lemma sample_pushed: "tsq_reachable sample_pushed" "consumer_rests (ts_consumer sample_pushed)" "producer_rests (ts_producers sample_pushed i)"
    "ts_producers sample_pushed i \<noteq> P_push pc" "tq_pushed (ts_queue sample_pushed) = [7]" "tq_popped (ts_queue sample_pushed) = []"
proof -
  obtain s where s: "tsq_run [Begin_push 0 3 7, Push_step 0, Push_step 0, Push_step 0] (tsq_start :: nat tsq_system) = Some s"
      "consumer_rests (ts_consumer s)" "producer_rests (ts_producers s i)" "ts_producers s i \<noteq> P_push pc" "tq_pushed (ts_queue s) = [7]" "tq_popped (ts_queue s) = []"
    by (simp add: tsq_start_def tsq_init_def producer_rests_def consumer_rests_def write_next_def tq_live_def tq_values_def)
  then have e: "sample_pushed = s" by (simp add: sample_pushed_def)
  show "tsq_reachable sample_pushed" using tsq_run_reachable [OF tsq_reach_init s(1)] e by simp
  show "consumer_rests (ts_consumer sample_pushed)" "producer_rests (ts_producers sample_pushed i)"
    "ts_producers sample_pushed i \<noteq> P_push pc" "tq_pushed (ts_queue sample_pushed) = [7]" "tq_popped (ts_queue sample_pushed) = []"
    using s e by simp_all
qed

theorem tsq_pop_alone_witness:
  "tsq_reachable sample_pushed \<and> (\<exists>q'. tsq_pop (ts_queue sample_pushed) = Inr (C_popped (Some 7), q'))"
proof -
  obtain r q' where "tsq_pop (ts_queue sample_pushed) = Inr (C_popped r, q')"
     "case r of
       None \<Rightarrow> tq_pushed (ts_queue sample_pushed) = tq_popped (ts_queue sample_pushed)
     | Some v \<Rightarrow> tq_popped q' = tq_popped (ts_queue sample_pushed) @ [v] \<and> (\<exists>rest. tq_pushed (ts_queue sample_pushed) = tq_popped (ts_queue sample_pushed) @ v # rest)"
    using tsq_pop_alone [OF sample_pushed(1,2,4)] by blast
  then show ?thesis using sample_pushed by (cases r) auto
qed

text \<open>
  The destructor, run when no thread is inside an operation, returns after it has popped every value pushed, and then no node is left
  allocated: the queue leaks no memory.
\<close>

theorem tsq_destroy_frees:
  assumes "tsq_reachable s" and "consumer_rests (ts_consumer s)" and "\<And>i. producer_rests (ts_producers s i)"
  shows "\<exists>q'. tsq_destroy (ts_queue s) = Some (Inr q') \<and> tq_popped q' = tq_pushed (ts_queue s) \<and> (\<forall>k. tq_data q' k = None)"
proof -
  obtain c where inv: "tsq_inv c s" using tsq_reachable_inv [OF assms(1)] by blast
  have p: "producer_pc (ts_producers s i) = None" for i
    using assms(3) [of i] by (auto simp: producer_rests_def producer_pc_def split: producer.splits)
  then have "ts_pcs (ts_producers s) (ts_consumer s) t = None" for t
    using consumer_rests_pc [OF assms(2)] by (cases t) (auto simp: ts_pcs_def)
  then have "{k. owned (ts_pcs (ts_producers s) (ts_consumer s)) (Node k)} = {}" by (simp add: owned_def)
  moreover have "ts_producers s i \<noteq> P_push (Push_link n q)" for i n q using p [of i] by (auto simp: producer_pc_def)
  ultimately have "seq_inv {} c (ts_queue s)" using rest_seq_inv [OF inv assms(2)] by metis
  then show ?thesis by (rule destroy_alone)
qed

theorem tsq_destroy_frees_witness:
  "tsq_reachable sample_pushed \<and> (\<exists>q'. tsq_destroy (ts_queue sample_pushed) = Some (Inr q') \<and> tq_popped q' = [7] \<and> (\<forall>k. tq_data q' k = None))"
  using tsq_destroy_frees [OF sample_pushed(1,2,3)] sample_pushed(1,5) by auto

end
