(* ===== verification/Thread_Sav.thy ===== *)
theory Thread_Sav
  imports Flow_Error "HOL-Library.Multiset"
begin

text \<open>
  Futures between threads (\<open>ThreadSingleAssignmentVar\<close>, \<open>ThreadMultiCallback\<close> and \<open>ThreadFuture\<close> of
  \<open>src/flow/ThreadHelper.actor.h\<close> and \<open>ThreadHelper.cpp\<close>).  What a thread does while it holds the variable's spin lock is one step; what it does
  after it has left the lock, calling callbacks above all, are steps of their own, and the steps of threads interleave in any
  order.  What \<open>canFire\<close> of a callback answers is up to the callback.
\<close>

subsection \<open>Several callbacks\<close>

record 'c multi_callback =
  mc_callbacks :: "'c list"
  mc_map :: "'c \<Rightarrow> nat option"

definition mc_new :: "'c multi_callback" where
  "mc_new = \<lparr>mc_callbacks = [], mc_map = (\<lambda>_. None)\<rparr>"

definition mc_addCallback :: "'c \<Rightarrow> 'c multi_callback \<Rightarrow> 'c multi_callback result" where
  "mc_addCallback c m =
     bind_result (assert_that (mc_map m c = None)) (\<lambda>_.
       Inr (m\<lparr>mc_map := (mc_map m)(c \<mapsto> length (mc_callbacks m)), mc_callbacks := mc_callbacks m @ [c]\<rparr>))"

definition mc_contains :: "'c \<Rightarrow> 'c multi_callback \<Rightarrow> bool" where
  "mc_contains c m \<longleftrightarrow> mc_map m c \<noteq> None"

text \<open>The last callback takes the place of the one removed.\<close>

definition mc_clearCallback :: "'c \<Rightarrow> 'c multi_callback \<Rightarrow> 'c multi_callback result" where
  "mc_clearCallback c m =
     (case mc_map m c of
        None \<Rightarrow> Inr m
      | Some i \<Rightarrow>
          bind_result (assert_that (i < length (mc_callbacks m))) (\<lambda>_.
            let m1 = (if i \<noteq> length (mc_callbacks m) - 1
                      then m\<lparr>mc_callbacks := (mc_callbacks m)[i := last (mc_callbacks m)],
                             mc_map := (mc_map m)(last (mc_callbacks m) \<mapsto> i)\<rparr>
                      else m)
            in Inr (m1\<lparr>mc_callbacks := butlast (mc_callbacks m1), mc_map := (mc_map m1)(c := None)\<rparr>)))"

text \<open>One turn of the loop of \<open>fire\<close> and \<open>error\<close>: the callback to call.\<close>

definition mc_take :: "'c multi_callback \<Rightarrow> ('c \<times> 'c multi_callback) option" where
  "mc_take m =
     (if mc_callbacks m = [] then None
      else let c = last (mc_callbacks m)
           in Some (c, m\<lparr>mc_callbacks := butlast (mc_callbacks m), mc_map := (mc_map m)(c := None)\<rparr>))"

definition mc_destroy :: "'c multi_callback \<Rightarrow> unit result" where
  "mc_destroy m = assert_that (mc_callbacks m = [])"

subsection \<open>The variable\<close>

datatype tsav_status = Unset | NeverSet | Set | ErrorSet

datatype 'c thread_callback = One_callback 'c | Multi_callback "'c multi_callback"

text \<open>A value \<open>None\<close> is \<open>T()\<close>.\<close>

record ('c, 'v) tsav =
  tv_status :: tsav_status
  tv_error :: u16
  tv_value :: "'v option"
  tv_callback :: "'c thread_callback option"
  tv_valueReferenceCount :: int

definition tsav_new :: "('c, 'v) tsav" where
  "tsav_new = \<lparr>tv_status = Unset, tv_error = invalid_error_code, tv_value = None, tv_callback = None, tv_valueReferenceCount = 0\<rparr>"

definition future_not_set :: u16 where "future_not_set = 2015"
definition future_not_error :: u16 where "future_not_error = 2016"
definition future_released :: u16 where "future_released = 1102"

definition tsav_isReady :: "('c, 'v) tsav \<Rightarrow> bool" where
  "tsav_isReady s \<longleftrightarrow> tv_status s = Set \<or> tv_status s = ErrorSet"

definition tsav_isError :: "('c, 'v) tsav \<Rightarrow> bool" where
  "tsav_isError s \<longleftrightarrow> tv_status s = ErrorSet"

definition tsav_canBeSet :: "('c, 'v) tsav \<Rightarrow> bool" where
  "tsav_canBeSet s \<longleftrightarrow> tv_status s = Unset"

definition tsav_getErrorCode :: "('c, 'v) tsav \<Rightarrow> u16" where
  "tsav_getErrorCode s = (if \<not> tsav_isReady s then future_not_set else if \<not> tsav_isError s then 0 else tv_error s)"

definition tsav_getError :: "('c, 'v) tsav \<Rightarrow> u16 result" where
  "tsav_getError s = (if \<not> tsav_isError s then Inl (Thrown future_not_error) else Inr (tv_error s))"

definition tsav_sendNever :: "('c, 'v) tsav \<Rightarrow> ('c, 'v) tsav result" where
  "tsav_sendNever s = bind_result (assert_that (tsav_canBeSet s)) (\<lambda>_. Inr (s\<lparr>tv_status := NeverSet\<rparr>))"

text \<open>\<open>send\<close> and \<open>sendError\<close> up to the release of the lock: the callback to call, which stays in the variable if it is one of several.\<close>

definition tsav_take :: "('c, 'v) tsav \<Rightarrow> 'c thread_callback option \<times> ('c, 'v) tsav" where
  "tsav_take s =
     (tv_callback s, case tv_callback s of Some (One_callback c) \<Rightarrow> s\<lparr>tv_callback := None\<rparr> | _ \<Rightarrow> s)"

definition tsav_send :: "'v \<Rightarrow> ('c, 'v) tsav \<Rightarrow> ('c thread_callback option \<times> ('c, 'v) tsav) result" where
  "tsav_send v s = bind_result (assert_that (tsav_canBeSet s)) (\<lambda>_. Inr (tsav_take (s\<lparr>tv_value := Some v, tv_status := Set\<rparr>)))"

definition tsav_sendError :: "u16 \<Rightarrow> ('c, 'v) tsav \<Rightarrow> ('c thread_callback option \<times> ('c, 'v) tsav) result" where
  "tsav_sendError e s = bind_result (assert_that (tsav_canBeSet s)) (\<lambda>_. Inr (tsav_take (s\<lparr>tv_error := e, tv_status := ErrorSet\<rparr>)))"

definition tsav_addCallback :: "'c \<Rightarrow> ('c, 'v) tsav \<Rightarrow> ('c, 'v) tsav result" where
  "tsav_addCallback c s =
     (case tv_callback s of
        None \<Rightarrow> Inr (s\<lparr>tv_callback := Some (One_callback c)\<rparr>)
      | Some (One_callback d) \<Rightarrow>
          bind_result (mc_addCallback d mc_new) (\<lambda>m. bind_result (mc_addCallback c m) (\<lambda>m1. Inr (s\<lparr>tv_callback := Some (Multi_callback m1)\<rparr>)))
      | Some (Multi_callback m) \<Rightarrow> bind_result (mc_addCallback c m) (\<lambda>m1. Inr (s\<lparr>tv_callback := Some (Multi_callback m1)\<rparr>)))"

definition tsav_pending :: "('c, 'v) tsav \<Rightarrow> 'c list" where
  "tsav_pending s =
     (case tv_callback s of None \<Rightarrow> [] | Some (One_callback c) \<Rightarrow> [c] | Some (Multi_callback m) \<Rightarrow> mc_callbacks m)"

text \<open>\<open>clearCallback\<close>.  A single callback that is not \<open>cb\<close> is asked to clear \<open>cb\<close>, which does nothing.\<close>

definition tsav_clearCallback :: "'c \<Rightarrow> ('c, 'v) tsav \<Rightarrow> (bool \<times> ('c, 'v) tsav) result" where
  "tsav_clearCallback c s =
     (if tsav_isReady s then Inr (False, s)
      else case tv_callback s of
             None \<Rightarrow> Inr (True, s)
           | Some (One_callback d) \<Rightarrow> Inr (True, if d = c then s\<lparr>tv_callback := None\<rparr> else s)
           | Some (Multi_callback m) \<Rightarrow>
               bind_result (mc_clearCallback c m) (\<lambda>m1. Inr (True, s\<lparr>tv_callback := Some (Multi_callback m1)\<rparr>)))"

definition tsav_get :: "('c, 'v) tsav \<Rightarrow> ('v option \<times> ('c, 'v) tsav) result" where
  "tsav_get s =
     (if \<not> tsav_isReady s then Inl (Thrown future_not_set)
      else if tsav_isError s then Inl (Thrown (tv_error s))
      else Inr (tv_value s, s\<lparr>tv_valueReferenceCount := tv_valueReferenceCount s + 1\<rparr>))"

text \<open>\<open>cleanupUnsafe\<close>: the cancel at its end finds the variable ready and gives back the reference taken for it.\<close>

definition tsav_cleanup :: "('c, 'v) tsav \<Rightarrow> ('c, 'v) tsav" where
  "tsav_cleanup s =
     (let s1 = s\<lparr>tv_value := None\<rparr>;
          s2 = (if tv_status s1 \<noteq> ErrorSet then s1\<lparr>tv_error := future_released, tv_status := ErrorSet\<rparr> else s1)
      in s2\<lparr>tv_valueReferenceCount := 0\<rparr>)"

definition tsav_releaseMemory :: "('c, 'v) tsav \<Rightarrow> ('c, 'v) tsav" where
  "tsav_releaseMemory s =
     (let s1 = s\<lparr>tv_valueReferenceCount := tv_valueReferenceCount s - 1\<rparr>
      in if tv_valueReferenceCount s1 = 0 then tsav_cleanup s1 else s1)"

subsection \<open>Threads\<close>

text \<open>
  What a thread has still to do.  A callback is told a value (\<open>None\<close>) or an error.  \<open>T_loop\<close> is the loop over several callbacks, \<open>T_found\<close> a
  call of \<open>callOrSetAsCallback\<close> that has found the variable ready and reads its status after it has left the lock.
\<close>

datatype 'c tsav_pc =
    T_idle
  | T_call 'c "u16 option"
  | T_loop "u16 option"
  | T_taken 'c "u16 option"
  | T_found 'c

datatype 'c tsav_event =
    Registered 'c
  | Fired 'c "u16 option"
  | Refused 'c
  | Cleared 'c

record ('c, 'v) tsav_system =
  sy_var :: "('c, 'v) tsav"
  sy_threads :: "'c tsav_pc list"
  sy_log :: "'c tsav_event list"

datatype ('c, 'v) tsav_action =
    A_send 'v bool
  | A_sendError u16 bool
  | A_sendNever
  | A_callOrSet 'c bool
  | A_clear 'c
  | A_get
  | A_release
  | A_continue bool

text \<open>After the lock: the callback taken is called unless it cannot fire; several callbacks can always fire.\<close>

definition after_send :: "'c thread_callback option \<Rightarrow> u16 option \<Rightarrow> bool \<Rightarrow> 'c tsav_pc \<times> 'c tsav_event list" where
  "after_send f r can =
     (case f of
        None \<Rightarrow> (T_idle, [])
      | Some (One_callback c) \<Rightarrow> if can then (T_call c r, []) else (T_idle, [Refused c])
      | Some (Multi_callback m) \<Rightarrow> (T_loop r, []))"

fun tsav_continue :: "bool \<Rightarrow> 'c tsav_pc \<Rightarrow> ('c, 'v) tsav \<Rightarrow> ('c tsav_pc \<times> ('c, 'v) tsav \<times> 'c tsav_event list) result" where
  "tsav_continue can T_idle s = Inr (T_idle, s, [])"
| "tsav_continue can (T_call c r) s = Inr (T_idle, s, [Fired c r])"
| "tsav_continue can (T_loop r) s =
     (case tv_callback s of
        Some (Multi_callback m) \<Rightarrow>
          (case mc_take m of
             None \<Rightarrow> Inr (T_idle, s, [])
           | Some (c, m1) \<Rightarrow>
               Inr (if can then T_taken c r else T_loop r, s\<lparr>tv_callback := Some (Multi_callback m1)\<rparr>, if can then [] else [Refused c]))
      | _ \<Rightarrow> Inl Undefined_behaviour)"
| "tsav_continue can (T_taken c r) s = Inr (T_loop r, s, [Fired c r])"
| "tsav_continue can (T_found c) s = Inr (T_call c (if tv_status s = ErrorSet then Some (tv_error s) else None), s, [])"

fun tsav_act ::
  "('c, 'v) tsav_action \<Rightarrow> 'c tsav_pc \<Rightarrow> ('c, 'v) tsav \<Rightarrow> ('c tsav_pc \<times> ('c, 'v) tsav \<times> 'c tsav_event list) result" where
  "tsav_act (A_send v can) pc s =
     bind_result (tsav_send v s) (\<lambda>(f, s1). let (pc1, es) = after_send f None can in Inr (pc1, s1, es))"
| "tsav_act (A_sendError e can) pc s =
     bind_result (tsav_sendError e s) (\<lambda>(f, s1). let (pc1, es) = after_send f (Some e) can in Inr (pc1, s1, es))"
| "tsav_act A_sendNever pc s = bind_result (tsav_sendNever s) (\<lambda>s1. Inr (T_idle, s1, []))"
| "tsav_act (A_callOrSet c can) pc s =
     (if tsav_isReady s then Inr (if can then (T_found c, s, [Registered c]) else (T_idle, s, [Registered c, Refused c]))
      else bind_result (tsav_addCallback c s) (\<lambda>s1. Inr (T_idle, s1, [Registered c])))"
| "tsav_act (A_clear c) pc s =
     bind_result (tsav_clearCallback c s) (\<lambda>(b, s1).
       Inr (T_idle, s1, if b \<and> c \<in> set (tsav_pending s) then [Cleared c] else []))"
| "tsav_act A_get pc s = (case tsav_get s of Inl _ \<Rightarrow> Inr (T_idle, s, []) | Inr (v, s1) \<Rightarrow> Inr (T_idle, s1, []))"
| "tsav_act A_release pc s = Inr (T_idle, tsav_releaseMemory s, [])"
| "tsav_act (A_continue can) pc s = tsav_continue can pc s"

definition tsav_enabled :: "nat \<Rightarrow> ('c, 'v) tsav_action \<Rightarrow> ('c, 'v) tsav_system \<Rightarrow> bool" where
  "tsav_enabled i a y \<longleftrightarrow> i < length (sy_threads y) \<and>
     (case a of A_continue _ \<Rightarrow> sy_threads y ! i \<noteq> T_idle | _ \<Rightarrow> sy_threads y ! i = T_idle)"

definition tsav_do :: "nat \<Rightarrow> ('c, 'v) tsav_action \<Rightarrow> ('c, 'v) tsav_system \<Rightarrow> ('c, 'v) tsav_system result" where
  "tsav_do i a y =
     bind_result (tsav_act a (sy_threads y ! i) (sy_var y)) (\<lambda>(pc, s, es).
       Inr \<lparr>sy_var = s, sy_threads = (sy_threads y)[i := pc], sy_log = sy_log y @ es\<rparr>)"

inductive tsav_reachable :: "('c, 'v) tsav_system \<Rightarrow> bool" where
  tsav_init: "tsav_reachable \<lparr>sy_var = tsav_new, sy_threads = replicate n T_idle, sy_log = []\<rparr>"
| tsav_step: "tsav_reachable y \<Longrightarrow> tsav_enabled i a y \<Longrightarrow> tsav_do i a y = Inr y' \<Longrightarrow> tsav_reachable y'"

subsection \<open>Several callbacks: the map is the index of the vector\<close>

definition mc_ok :: "'c multi_callback \<Rightarrow> bool" where
  "mc_ok m \<longleftrightarrow> distinct (mc_callbacks m) \<and>
     (\<forall>c i. mc_map m c = Some i \<longleftrightarrow> i < length (mc_callbacks m) \<and> mc_callbacks m ! i = c)"

lemma mc_ok_in: "mc_ok m \<Longrightarrow> mc_map m c \<noteq> None \<longleftrightarrow> c \<in> set (mc_callbacks m)"
  unfolding mc_ok_def in_set_conv_nth by (metis not_None_eq)

lemma mc_new_ok: "mc_ok mc_new" "mc_callbacks mc_new = []"
  by (simp_all add: mc_ok_def mc_new_def)

lemma mc_add_ok:
  assumes ok: "mc_ok m" and c: "c \<notin> set (mc_callbacks m)"
  shows "\<exists>m'. mc_addCallback c m = Inr m' \<and> mc_ok m' \<and> mc_callbacks m' = mc_callbacks m @ [c]"
proof -
  let ?m = "m\<lparr>mc_map := (mc_map m)(c \<mapsto> length (mc_callbacks m)), mc_callbacks := mc_callbacks m @ [c]\<rparr>"
  have n: "mc_map m c = None" using mc_ok_in [OF ok] c by blast
  have "mc_map ?m d = Some i \<longleftrightarrow> i < length (mc_callbacks ?m) \<and> mc_callbacks ?m ! i = d" for d i
  proof (cases "d = c")
    case True
    then show ?thesis using c by (auto simp: nth_append less_Suc_eq)
  next
    case False
    then show ?thesis using ok by (auto simp: mc_ok_def nth_append less_Suc_eq)
  qed
  then have "mc_ok ?m" using ok c by (simp add: mc_ok_def)
  then show ?thesis using n by (simp add: mc_addCallback_def)
qed

lemma mc_add_fails: "mc_ok m \<Longrightarrow> c \<in> set (mc_callbacks m) \<Longrightarrow> mc_addCallback c m = Inl Assert_failed"
  using mc_ok_in [of m c] by (auto simp: mc_addCallback_def)

lemma mc_take_ok:
  assumes ok: "mc_ok m" and ne: "mc_callbacks m \<noteq> []"
  shows "\<exists>m'. mc_take m = Some (last (mc_callbacks m), m') \<and> mc_ok m' \<and> mc_callbacks m' = butlast (mc_callbacks m)"
proof -
  let ?c = "last (mc_callbacks m)"
  let ?m = "m\<lparr>mc_callbacks := butlast (mc_callbacks m), mc_map := (mc_map m)(?c := None)\<rparr>"
  have e: "mc_callbacks m = butlast (mc_callbacks m) @ [?c]" using ne by simp
  have d: "distinct (butlast (mc_callbacks m) @ [?c])" using ok e by (simp add: mc_ok_def)
  have "mc_map ?m d = Some i \<longleftrightarrow> i < length (mc_callbacks ?m) \<and> mc_callbacks ?m ! i = d" for d i
  proof -
    have "mc_map m d = Some i \<longleftrightarrow> i < length (butlast (mc_callbacks m) @ [?c]) \<and> (butlast (mc_callbacks m) @ [?c]) ! i = d"
      using ok e unfolding mc_ok_def by metis
    then show ?thesis using d by (auto simp: nth_append less_Suc_eq in_set_conv_nth split: if_splits)
  qed
  then have "mc_ok ?m" using d by (simp add: mc_ok_def)
  then show ?thesis using ne by (simp add: mc_take_def Let_def)
qed

lemma mc_clear_absent: "mc_ok m \<Longrightarrow> c \<notin> set (mc_callbacks m) \<Longrightarrow> mc_clearCallback c m = Inr m"
  using mc_ok_in [of m c] by (auto simp: mc_clearCallback_def)

lemma mc_clear_ok:
  assumes ok: "mc_ok m" and c: "c \<in> set (mc_callbacks m)"
  shows "\<exists>m'. mc_clearCallback c m = Inr m' \<and> mc_ok m' \<and> mset (mc_callbacks m') = mset (mc_callbacks m) - {#c#}"
proof -
  obtain i where i: "mc_map m c = Some i" using mc_ok_in [OF ok] c by blast
  then have il: "i < length (mc_callbacks m)" "mc_callbacks m ! i = c" using ok by (auto simp: mc_ok_def)
  have ne: "mc_callbacks m \<noteq> []" using c by auto
  let ?l = "last (mc_callbacks m)" let ?xs = "butlast (mc_callbacks m)"
  have e: "mc_callbacks m = ?xs @ [?l]" using ne by simp
  have d: "distinct (?xs @ [?l])" using ok e by (simp add: mc_ok_def)
  have map_m: "mc_map m d = Some j \<longleftrightarrow> j < length (?xs @ [?l]) \<and> (?xs @ [?l]) ! j = d" for d j
    using ok e unfolding mc_ok_def by metis
  show ?thesis
  proof (cases "i = length (mc_callbacks m) - 1")
    case True
    then have cl: "c = ?l" using il ne by (simp add: last_conv_nth)
    obtain m' where "mc_take m = Some (?l, m')" "mc_ok m'" "mc_callbacks m' = ?xs" using mc_take_ok [OF ok ne] by blast
    moreover have "mc_clearCallback c m = Inr (m\<lparr>mc_callbacks := ?xs, mc_map := (mc_map m)(c := None)\<rparr>)"
      using i il(1) True by (simp add: mc_clearCallback_def)
    moreover have "m' = m\<lparr>mc_callbacks := ?xs, mc_map := (mc_map m)(c := None)\<rparr>" using \<open>mc_take m = _\<close> ne cl by (simp add: mc_take_def Let_def)
    moreover have "mset (mc_callbacks m) = mset ?xs + {#c#}" using e cl by (metis add.right_neutral mset.simps(1) mset.simps(2) mset_append add_mset_add_single)
    ultimately show ?thesis by auto
  next
    case False
    then have ix: "i < length ?xs" using il(1) by simp
    then have xc: "?xs ! i = c" using il(2) by (simp add: nth_butlast)
    let ?m = "m\<lparr>mc_callbacks := ?xs[i := ?l], mc_map := (mc_map m)(?l \<mapsto> i, c := None)\<rparr>"
    have run: "mc_clearCallback c m = Inr ?m"
    proof -
      have "butlast ((mc_callbacks m)[i := ?l]) = ?xs[i := ?l]" using ix by (simp add: butlast_list_update)
      then show ?thesis using i il(1) False by (simp add: mc_clearCallback_def)
    qed
    have lx: "?l \<notin> set ?xs" "distinct ?xs" using d by auto
    have cl: "c \<noteq> ?l" using xc ix lx(1) nth_mem by metis
    have "mc_map ?m e = Some j \<longleftrightarrow> j < length (?xs[i := ?l]) \<and> ?xs[i := ?l] ! j = e" for e j
    proof -
      have "mc_map m e = Some j \<longleftrightarrow> j < length ?xs \<and> ?xs ! j = e \<or> j = length ?xs \<and> ?l = e"
        unfolding map_m by (auto simp: nth_append less_Suc_eq)
      moreover have "?xs ! j = c \<longleftrightarrow> j = i" if "j < length ?xs" for j using lx(2) xc ix that nth_eq_iff_index_eq by metis
      moreover have "j < length ?xs \<Longrightarrow> ?xs ! j \<noteq> ?l" for j using lx(1) nth_mem by metis
      ultimately show ?thesis using cl ix by (auto simp: nth_list_update)
    qed
    moreover have "distinct (?xs[i := ?l])" using lx by (simp add: distinct_list_update)
    ultimately have "mc_ok ?m" by (simp add: mc_ok_def)
    moreover have "mset (?xs[i := ?l]) = mset (mc_callbacks m) - {#c#}"
    proof -
      have "mset (mc_callbacks m) = add_mset ?l (mset ?xs)" using arg_cong [OF e, of mset] by simp
      moreover have "c \<in># mset ?xs" using xc ix nth_mem by fastforce
      ultimately show ?thesis using ix xc by (simp add: mset_update)
    qed
    ultimately show ?thesis using run by auto
  qed
qed

subsection \<open>The invariant\<close>

fun ev_registered :: "'c tsav_event \<Rightarrow> 'c list" where
  "ev_registered (Registered c) = [c]"
| "ev_registered _ = []"

fun ev_ended :: "'c tsav_event \<Rightarrow> 'c list" where
  "ev_ended (Registered c) = []"
| "ev_ended (Fired c r) = [c]"
| "ev_ended (Refused c) = [c]"
| "ev_ended (Cleared c) = [c]"

text \<open>The callbacks registered, and those fired, refused or cleared.\<close>

definition registered :: "'c tsav_event list \<Rightarrow> 'c multiset" where
  "registered es = mset (concat (map ev_registered es))"

definition ended :: "'c tsav_event list \<Rightarrow> 'c multiset" where
  "ended es = mset (concat (map ev_ended es))"

text \<open>The callbacks a thread is about to call.\<close>

fun pc_holds :: "'c tsav_pc \<Rightarrow> 'c list" where
  "pc_holds (T_call c r) = [c]"
| "pc_holds (T_taken c r) = [c]"
| "pc_holds (T_found c) = [c]"
| "pc_holds _ = []"

definition threads_hold :: "'c tsav_pc list \<Rightarrow> 'c multiset" where
  "threads_hold ts = mset (concat (map pc_holds ts))"

fun pc_loops :: "'c tsav_pc \<Rightarrow> bool" where
  "pc_loops (T_loop r) = True"
| "pc_loops (T_taken c r) = True"
| "pc_loops _ = False"

definition loops :: "'c tsav_pc list \<Rightarrow> nat" where
  "loops ts = length (filter pc_loops ts)"

fun pc_result :: "'c tsav_pc \<Rightarrow> u16 option \<Rightarrow> bool" where
  "pc_result (T_call c r) x \<longleftrightarrow> x = r"
| "pc_result (T_loop r) x \<longleftrightarrow> x = r"
| "pc_result (T_taken c r) x \<longleftrightarrow> x = r"
| "pc_result _ x \<longleftrightarrow> False"

definition var_result :: "('c, 'v) tsav \<Rightarrow> u16 option" where
  "var_result s = (if tsav_isError s then Some (tv_error s) else None)"

definition var_ok :: "('c, 'v) tsav \<Rightarrow> 'c tsav_pc list \<Rightarrow> bool" where
  "var_ok s ts \<longleftrightarrow>
     (\<forall>m. tv_callback s = Some (Multi_callback m) \<longrightarrow> mc_ok m) \<and>
     (0 < tv_valueReferenceCount s \<longrightarrow> tsav_isReady s) \<and>
     (if tsav_isReady s
      then (\<forall>c. tv_callback s \<noteq> Some (One_callback c)) \<and> loops ts \<le> 1 \<and> (tsav_pending s \<noteq> [] \<longrightarrow> loops ts = 1) \<and>
           (0 < loops ts \<longrightarrow> tv_callback s \<noteq> None)
      else (\<forall>pc \<in> set ts. pc = T_idle))"

definition results_ok :: "u16 option \<Rightarrow> ('c, 'v) tsav \<Rightarrow> 'c tsav_pc list \<Rightarrow> 'c tsav_event list \<Rightarrow> bool" where
  "results_ok x s ts es \<longleftrightarrow>
     (\<forall>c r. Fired c r \<in> set es \<longrightarrow> tsav_isReady s \<and> (r = x \<or> r = Some future_released)) \<and>
     (\<forall>pc r. pc \<in> set ts \<longrightarrow> pc_result pc r \<longrightarrow> r = x \<or> r = Some future_released) \<and>
     (tsav_isReady s \<longrightarrow> var_result s = x \<or> var_result s = Some future_released)"

definition sys_inv :: "('c, 'v) tsav_system \<Rightarrow> bool" where
  "sys_inv y \<longleftrightarrow> var_ok (sy_var y) (sy_threads y) \<and> (\<exists>x. results_ok x (sy_var y) (sy_threads y) (sy_log y)) \<and>
     registered (sy_log y) = mset (tsav_pending (sy_var y)) + threads_hold (sy_threads y) + ended (sy_log y)"

lemma registered_append [simp]: "registered (es @ fs) = registered es + registered fs" "registered [] = {#}"
  "registered (e # fs) = mset (ev_registered e) + registered fs"
  by (simp_all add: registered_def)

lemma ended_append [simp]: "ended (es @ fs) = ended es + ended fs" "ended [] = {#}" "ended (e # fs) = mset (ev_ended e) + ended fs"
  by (simp_all add: ended_def)

lemma threads_hold_update:
  "i < length ts \<Longrightarrow> threads_hold (ts[i := pc]) + mset (pc_holds (ts ! i)) = threads_hold ts + mset (pc_holds pc)"
  by (induction ts arbitrary: i) (auto simp: threads_hold_def split: nat.splits)

lemma loops_update:
  "i < length ts \<Longrightarrow> loops (ts[i := pc]) + (if pc_loops (ts ! i) then 1 else 0) = loops ts + (if pc_loops pc then 1 else 0)"
proof (induction ts arbitrary: i)
  case (Cons x ts)
  then show ?case using Cons.IH [of "i - 1"] by (cases i) (auto simp: loops_def split: if_splits)
qed simp

lemma loops_zero: "\<forall>pc \<in> set ts. pc = T_idle \<Longrightarrow> loops ts = 0"
  by (auto simp: loops_def filter_empty_conv)

lemma pending_distinct: "var_ok s ts \<Longrightarrow> distinct (tsav_pending s)"
  by (auto simp: var_ok_def tsav_pending_def mc_ok_def split: option.splits thread_callback.splits)

text \<open>A step keeps the invariant when the counts add up, the variable stays in order and the results do.\<close>

lemma step_sys_inv:
  assumes inv: "sys_inv y" and i: "i < length (sy_threads y)"
    and var: "var_ok s ((sy_threads y)[i := pc])"
    and res: "\<And>x. results_ok x (sy_var y) (sy_threads y) (sy_log y) \<Longrightarrow> \<exists>x'. results_ok x' s ((sy_threads y)[i := pc]) (sy_log y @ es)"
    and count: "mset (tsav_pending (sy_var y)) + mset (pc_holds (sy_threads y ! i)) + registered es =
      mset (tsav_pending s) + mset (pc_holds pc) + ended es"
  shows "sys_inv \<lparr>sy_var = s, sy_threads = (sy_threads y)[i := pc], sy_log = sy_log y @ es\<rparr>"
proof -
  have r: "registered (sy_log y) = mset (tsav_pending (sy_var y)) + threads_hold (sy_threads y) + ended (sy_log y)"
    using inv by (simp add: sys_inv_def)
  have h: "threads_hold ((sy_threads y)[i := pc]) + mset (pc_holds (sy_threads y ! i)) = threads_hold (sy_threads y) + mset (pc_holds pc)"
    using threads_hold_update [OF i] .
  have "registered (sy_log y) + registered es + mset (pc_holds (sy_threads y ! i)) =
      mset (tsav_pending s) + threads_hold ((sy_threads y)[i := pc]) + ended (sy_log y) + ended es + mset (pc_holds (sy_threads y ! i))"
    using r h count by (metis (no_types, opaque_lifting) add.assoc add.commute)
  then have "registered (sy_log y @ es) = mset (tsav_pending s) + threads_hold ((sy_threads y)[i := pc]) + ended (sy_log y @ es)"
    by (simp add: add.assoc)
  then show ?thesis using var res inv unfolding sys_inv_def by auto
qed

definition keeps_inv :: "nat \<Rightarrow> ('c, 'v) tsav_action \<Rightarrow> ('c, 'v) tsav_system \<Rightarrow> bool" where
  "keeps_inv i a y \<longleftrightarrow> (\<exists>pc s es. tsav_act a (sy_threads y ! i) (sy_var y) = Inr (pc, s, es) \<and>
     sys_inv \<lparr>sy_var = s, sy_threads = (sy_threads y)[i := pc], sy_log = sy_log y @ es\<rparr>)"

lemma keeps_invI:
  assumes "tsav_act a (sy_threads y ! i) (sy_var y) = Inr (pc, s, es)"
    and "sys_inv y" and "i < length (sy_threads y)" and "var_ok s ((sy_threads y)[i := pc])"
    and "\<And>x. results_ok x (sy_var y) (sy_threads y) (sy_log y) \<Longrightarrow> \<exists>x'. results_ok x' s ((sy_threads y)[i := pc]) (sy_log y @ es)"
    and "mset (tsav_pending (sy_var y)) + mset (pc_holds (sy_threads y ! i)) + registered es =
      mset (tsav_pending s) + mset (pc_holds pc) + ended es"
  shows "keeps_inv i a y"
proof -
  have "sys_inv \<lparr>sy_var = s, sy_threads = (sy_threads y)[i := pc], sy_log = sy_log y @ es\<rparr>"
    by (rule step_sys_inv [OF assms(2,3,4) _ assms(6)]) (rule assms(5))
  then show ?thesis unfolding keeps_inv_def using assms(1) by blast
qed

lemma set_update_subset: "pc \<in> set (ts[i := x]) \<Longrightarrow> pc = x \<or> pc \<in> set ts"
  using set_update_subset_insert [of ts i x] by blast

text \<open>Results stay right when the variable's do, what is fired was decided, and what a thread decides is the variable's result.\<close>

lemma results_keep:
  assumes r: "results_ok x s ts es" and ready: "tsav_isReady s \<Longrightarrow> tsav_isReady s'" and v: "tsav_isReady s' \<Longrightarrow> tsav_isReady s"
    and var: "var_result s' = var_result s \<or> var_result s' = Some future_released"
    and pc: "\<And>q. pc_result pc q \<Longrightarrow> tsav_isReady s \<and> (q = var_result s \<or> pc_result (ts ! i) q)"
    and fs: "\<And>c q. Fired c q \<in> set fs \<Longrightarrow> tsav_isReady s \<and> pc_result (ts ! i) q" and i: "i < length ts"
  shows "results_ok x s' (ts[i := pc]) (es @ fs)"
proof -
  have ti: "q = x \<or> q = Some future_released" if "pc_result (ts ! i) q" for q
    using r that i nth_mem unfolding results_ok_def by blast
  have p: "q = x \<or> q = Some future_released" if "pc' \<in> set (ts[i := pc])" "pc_result pc' q" for pc' q
  proof -
    from set_update_subset [OF that(1)] show ?thesis
    proof
      assume "pc' = pc"
      then have "tsav_isReady s \<and> (q = var_result s \<or> pc_result (ts ! i) q)" using pc that(2) by blast
      then show ?thesis using ti r unfolding results_ok_def by metis
    next
      assume "pc' \<in> set ts"
      then show ?thesis using r that(2) unfolding results_ok_def by blast
    qed
  qed
  moreover have "tsav_isReady s' \<and> (q = x \<or> q = Some future_released)" if "Fired c q \<in> set (es @ fs)" for c q
    using that r fs ti ready unfolding results_ok_def by (metis Un_iff set_append)
  moreover have "var_result s' = x \<or> var_result s' = Some future_released" if "tsav_isReady s'"
    using v [OF that] var r unfolding results_ok_def by metis
  ultimately show ?thesis unfolding results_ok_def by blast
qed

lemma thread_ready:
  assumes inv: "sys_inv y" and i: "i < length (sy_threads y)" and pc: "sy_threads y ! i \<noteq> T_idle"
  shows "tsav_isReady (sy_var y)"
  using inv pc nth_mem [OF i] unfolding sys_inv_def var_ok_def by metis

lemma continue_inv:
  assumes inv: "sys_inv y" and i: "i < length (sy_threads y)" and pc: "sy_threads y ! i \<noteq> T_idle"
  shows "keeps_inv i (A_continue can) y"
proof -
  let ?s = "sy_var y" and ?ts = "sy_threads y"
  have ready: "tsav_isReady ?s" using thread_ready [OF assms] .
  have ok: "var_ok ?s ?ts" using inv by (simp add: sys_inv_def)
  note lu = loops_update [OF i]
  have same: "var_ok ?s (?ts[i := pc'])" if "pc_loops pc' = pc_loops (?ts ! i)" for pc'
    using ok ready lu [of pc'] that by (simp add: var_ok_def split: if_splits)
  show ?thesis
  proof (cases "?ts ! i")
    case T_idle then show ?thesis using pc by simp
  next
    case (T_call c r)
    show ?thesis
    proof (rule keeps_invI [OF _ inv i, where pc = T_idle and s = ?s and es = "[Fired c r]"])
      fix x assume "results_ok x ?s ?ts (sy_log y)"
      then show "\<exists>x'. results_ok x' ?s (?ts[i := T_idle]) (sy_log y @ [Fired c r])"
        using ready T_call i by (intro exI [of _ x] results_keep) auto
    qed (use T_call same [of T_idle] in simp_all)
  next
    case (T_taken c r)
    show ?thesis
    proof (rule keeps_invI [OF _ inv i, where pc = "T_loop r" and s = ?s and es = "[Fired c r]"])
      fix x assume "results_ok x ?s ?ts (sy_log y)"
      then show "\<exists>x'. results_ok x' ?s (?ts[i := T_loop r]) (sy_log y @ [Fired c r])"
        using ready T_taken i by (intro exI [of _ x] results_keep) auto
    qed (use T_taken same [of "T_loop r"] in simp_all)
  next
    case (T_found c)
    let ?r = "if tv_status ?s = ErrorSet then Some (tv_error ?s) else None"
    show ?thesis
    proof (rule keeps_invI [OF _ inv i, where pc = "T_call c ?r" and s = ?s and es = "[]"])
      fix x assume "results_ok x ?s ?ts (sy_log y)"
      then show "\<exists>x'. results_ok x' ?s (?ts[i := T_call c ?r]) (sy_log y @ [])"
        using ready i by (intro exI [of _ x] results_keep) (auto simp: var_result_def tsav_isError_def)
    qed (use T_found same [of "T_call c ?r"] in simp_all)
  next
    case (T_loop r)
    have "0 < loops ?ts" using lu [of T_idle] T_loop by simp
    then have "loops ?ts = 1" "tv_callback ?s \<noteq> None" "\<forall>c. tv_callback ?s \<noteq> Some (One_callback c)" using ok ready by (auto simp: var_ok_def)
    then obtain m where m: "tv_callback ?s = Some (Multi_callback m)" by (metis not_None_eq thread_callback.exhaust)
    have mo: "mc_ok m" using ok m by (simp add: var_ok_def)
    show ?thesis
    proof (cases "mc_callbacks m = []")
      case True
      have "loops (?ts[i := T_idle]) = 0" using lu [of T_idle] T_loop \<open>loops ?ts = 1\<close> by simp
      then have v: "var_ok ?s (?ts[i := T_idle])" using ok ready m True by (simp add: var_ok_def tsav_pending_def)
      show ?thesis
      proof (rule keeps_invI [OF _ inv i v, where es = "[]"])
        fix x assume "results_ok x ?s ?ts (sy_log y)"
        then show "\<exists>x'. results_ok x' ?s (?ts[i := T_idle]) (sy_log y @ [])"
          using ready i by (intro exI [of _ x] results_keep) auto
      qed (use T_loop m True in \<open>simp_all add: mc_take_def\<close>)
    next
      case False
      let ?c = "last (mc_callbacks m)"
      obtain m1 where m1: "mc_take m = Some (?c, m1)" "mc_ok m1" "mc_callbacks m1 = butlast (mc_callbacks m)" using mc_take_ok [OF mo False] by blast
      let ?s1 = "?s\<lparr>tv_callback := Some (Multi_callback m1)\<rparr>" and ?pc = "if can then T_taken ?c r else T_loop r"
      let ?es = "if can then [] else [Refused ?c]"
      have r1: "tsav_isReady ?s1" "var_result ?s1 = var_result ?s" using ready by (simp_all add: tsav_isReady_def var_result_def tsav_isError_def)
      have "loops (?ts[i := ?pc]) = 1" using lu [of ?pc] T_loop \<open>loops ?ts = 1\<close> by simp
      then have v: "var_ok ?s1 (?ts[i := ?pc])" using ready r1(1) m1(2) by (simp add: var_ok_def)
      have "mset (mc_callbacks m) = mset (butlast (mc_callbacks m)) + {#?c#}"
        using append_butlast_last_id [OF False] by (metis mset.simps(1,2) mset_append)
      then have cnt: "mset (tsav_pending ?s) + mset (pc_holds (?ts ! i)) + registered ?es = mset (tsav_pending ?s1) + mset (pc_holds ?pc) + ended ?es"
        using m m1(3) T_loop by (simp add: tsav_pending_def)
      show ?thesis
      proof (rule keeps_invI [OF _ inv i v _ cnt])
        show "tsav_act (A_continue can) (?ts ! i) ?s = Inr (?pc, ?s1, ?es)" using T_loop m m1(1) by simp
        fix x assume "results_ok x ?s ?ts (sy_log y)"
        then show "\<exists>x'. results_ok x' ?s1 (?ts[i := ?pc]) (sy_log y @ ?es)"
          using ready r1 T_loop i by (intro exI [of _ x] results_keep) (auto split: if_splits)
      qed
    qed
  qed
qed

lemma unset_idle:
  assumes inv: "sys_inv y" and un: "\<not> tsav_isReady (sy_var y)"
  shows "\<forall>pc \<in> set (sy_threads y). pc = T_idle" and "loops (sy_threads y) = 0" and "Fired c r \<notin> set (sy_log y)"
proof -
  show idle: "\<forall>pc \<in> set (sy_threads y). pc = T_idle" using inv un by (simp add: sys_inv_def var_ok_def)
  then show "loops (sy_threads y) = 0" by (rule loops_zero)
  show "Fired c r \<notin> set (sy_log y)" using inv un unfolding sys_inv_def results_ok_def by blast
qed

text \<open>The first result a variable gets.\<close>

lemma results_first:
  assumes inv: "sys_inv y" and un: "\<not> tsav_isReady (sy_var y)" and ready: "tsav_isReady s"
    and pc: "\<And>q. pc_result pc q \<Longrightarrow> q = var_result s" and fs: "\<And>c q. Fired c q \<notin> set fs"
  shows "results_ok (var_result s) s ((sy_threads y)[i := pc]) (sy_log y @ fs)"
proof -
  note u = unset_idle [OF inv un]
  have "q = var_result s" if p: "pc' \<in> set ((sy_threads y)[i := pc])" "pc_result pc' q" for pc' q
  proof -
    from set_update_subset [OF p(1)] show ?thesis
    proof
      assume "pc' = pc" then show ?thesis using pc p(2) by blast
    next
      assume "pc' \<in> set (sy_threads y)" then show ?thesis using u(1) p(2) by fastforce
    qed
  qed
  then show ?thesis using u(3) fs ready unfolding results_ok_def by auto
qed

lemma send_inv:
  assumes inv: "sys_inv y" and i: "i < length (sy_threads y)" and idle: "sy_threads y ! i = T_idle"
    and s: "tsav_status.Unset = tv_status (sy_var y)"
    and s1: "tsav_isReady s1" "tv_callback s1 = tv_callback (sy_var y)" "tv_valueReferenceCount s1 = tv_valueReferenceCount (sy_var y)"
    and act: "tsav_act a T_idle (sy_var y) = (let (f, s2) = tsav_take s1; (pc, es) = after_send f (var_result s1) can in Inr (pc, s2, es))"
  shows "keeps_inv i a y"
proof -
  let ?s = "sy_var y" and ?ts = "sy_threads y"
  have un: "\<not> tsav_isReady ?s" using s by (simp add: tsav_isReady_def)
  note u = unset_idle [OF inv un]
  have lu: "loops (?ts[i := pc]) = (if pc_loops pc then 1 else 0)" for pc using loops_update [OF i, of pc] u(2) idle by simp
  have ok: "var_ok ?s ?ts" using inv by (simp add: sys_inv_def)
  obtain pc s2 es where run: "tsav_act a (?ts ! i) ?s = Inr (pc, s2, es)" "after_send (tv_callback s1) (var_result s1) can = (pc, es)" "s2 = snd (tsav_take s1)"
    using act idle by (cases "after_send (tv_callback s1) (var_result s1) can") (auto simp: tsav_take_def Let_def)
  have s2: "tsav_isReady s2" "var_result s2 = var_result s1" "tv_valueReferenceCount s2 = tv_valueReferenceCount s1"
    using s1(1) run(3) by (auto simp: tsav_take_def tsav_isReady_def var_result_def tsav_isError_def split: option.splits thread_callback.splits)
  have cb: "tv_callback s2 = (case tv_callback ?s of Some (One_callback c) \<Rightarrow> None | x \<Rightarrow> x)"
    using run(3) s1(2) by (auto simp: tsav_take_def split: option.splits thread_callback.splits)
  have v: "var_ok s2 (?ts[i := pc])"
    using ok s2(1) run(2) lu [of pc] cb s1(2)
    by (auto simp: var_ok_def after_send_def tsav_pending_def split: option.splits thread_callback.splits if_splits)
  have cnt: "mset (tsav_pending ?s) + mset (pc_holds (?ts ! i)) + registered es = mset (tsav_pending s2) + mset (pc_holds pc) + ended es"
    using run(2) cb s1(2) idle by (auto simp: after_send_def tsav_pending_def split: option.splits thread_callback.splits if_splits)
  show ?thesis
  proof (rule keeps_invI [OF run(1) inv i v _ cnt])
    fix x assume "results_ok x ?s ?ts (sy_log y)"
    have "results_ok (var_result s2) s2 (?ts[i := pc]) (sy_log y @ es)"
      using run(2) s2(2) by (intro results_first [OF inv un s2(1)]) (auto simp: after_send_def split: option.splits thread_callback.splits if_splits)
    then show "\<exists>x'. results_ok x' s2 (?ts[i := pc]) (sy_log y @ es)" by blast
  qed
qed

text \<open>Steps after which the thread is idle and that fire nothing.\<close>

lemma quiet_inv:
  assumes inv: "sys_inv y" and i: "i < length (sy_threads y)" and idle: "sy_threads y ! i = T_idle"
    and act: "tsav_act a T_idle (sy_var y) = Inr (T_idle, s, es)"
    and cb: "\<And>m. tv_callback s = Some (Multi_callback m) \<Longrightarrow> mc_ok m" and refs: "0 < tv_valueReferenceCount s \<Longrightarrow> tsav_isReady s"
    and ready: "tsav_isReady s \<longleftrightarrow> tsav_isReady (sy_var y)" and r: "tsav_isReady s \<Longrightarrow> tv_callback s = tv_callback (sy_var y)"
    and res: "var_result s = var_result (sy_var y) \<or> var_result s = Some future_released" and fs: "\<And>c q. Fired c q \<notin> set es"
    and cnt: "mset (tsav_pending (sy_var y)) + registered es = mset (tsav_pending s) + ended es"
  shows "keeps_inv i a y"
proof -
  let ?s = "sy_var y" and ?ts = "sy_threads y"
  have same: "?ts[i := T_idle] = ?ts" using idle by (metis list_update_id)
  have ok: "var_ok ?s ?ts" using inv by (simp add: sys_inv_def)
  have "tsav_isReady s \<Longrightarrow> tsav_pending s = tsav_pending ?s" using r by (simp add: tsav_pending_def)
  then have v: "var_ok s (?ts[i := T_idle])" unfolding same using ok cb refs ready r by (auto simp: var_ok_def split: if_splits)
  show ?thesis
  proof (rule keeps_invI [OF _ inv i v])
    show "tsav_act a (?ts ! i) ?s = Inr (T_idle, s, es)" using act idle by simp
    show "mset (tsav_pending ?s) + mset (pc_holds (?ts ! i)) + registered es = mset (tsav_pending s) + mset (pc_holds T_idle) + ended es"
      using cnt idle by simp
    fix x assume "results_ok x ?s ?ts (sy_log y)"
    then show "\<exists>x'. results_ok x' s (?ts[i := T_idle]) (sy_log y @ es)"
      using ready res fs i by (intro exI [of _ x] results_keep) auto
  qed
qed

definition client_ok :: "('c, 'v) tsav_action \<Rightarrow> ('c, 'v) tsav \<Rightarrow> bool" where
  "client_ok a s \<longleftrightarrow>
     (case a of
        A_send v can \<Rightarrow> tsav_canBeSet s
      | A_sendError e can \<Rightarrow> tsav_canBeSet s
      | A_sendNever \<Rightarrow> tsav_canBeSet s
      | A_callOrSet c can \<Rightarrow> tsav_isReady s \<or> c \<notin> set (tsav_pending s)
      | _ \<Rightarrow> True)"

lemma callOrSet_inv:
  assumes inv: "sys_inv y" and i: "i < length (sy_threads y)" and idle: "sy_threads y ! i = T_idle"
    and c: "tsav_isReady (sy_var y) \<or> c \<notin> set (tsav_pending (sy_var y))"
  shows "keeps_inv i (A_callOrSet c can) y"
proof -
  let ?s = "sy_var y" and ?ts = "sy_threads y"
  have ok: "var_ok ?s ?ts" using inv by (simp add: sys_inv_def)
  show ?thesis
  proof (cases "tsav_isReady ?s")
    case True
    show ?thesis
    proof (cases can)
      case can: True
      have v: "var_ok ?s (?ts[i := T_found c])" using ok True loops_update [OF i, of "T_found c"] idle by (simp add: var_ok_def)
      show ?thesis
      proof (rule keeps_invI [OF _ inv i v, where es = "[Registered c]"])
        fix x assume "results_ok x ?s ?ts (sy_log y)"
        then show "\<exists>x'. results_ok x' ?s (?ts[i := T_found c]) (sy_log y @ [Registered c])"
          using i by (intro exI [of _ x] results_keep) auto
      qed (use True can idle in simp_all)
    next
      case False
      show ?thesis
        by (rule quiet_inv [OF inv i idle, where s = ?s and es = "[Registered c, Refused c]"])
          (use True False ok in \<open>auto simp: var_ok_def\<close>)
    qed
  next
    case False
    then have cp: "c \<notin> set (tsav_pending ?s)" using c by blast
    have "\<exists>f. tsav_addCallback c ?s = Inr (?s\<lparr>tv_callback := Some f\<rparr>) \<and> (\<forall>m. f = Multi_callback m \<longrightarrow> mc_ok m) \<and>
        tsav_pending (?s\<lparr>tv_callback := Some f\<rparr>) = tsav_pending ?s @ [c]"
    proof (cases "tv_callback ?s")
      case None
      then show ?thesis by (intro exI [of _ "One_callback c"]) (simp add: tsav_addCallback_def tsav_pending_def)
    next
      case (Some f)
      show ?thesis
      proof (cases f)
        case (One_callback d)
        have dc: "c \<noteq> d" using cp Some One_callback by (simp add: tsav_pending_def)
        obtain m where m: "mc_addCallback d mc_new = Inr m" "mc_ok m" "mc_callbacks m = [d]"
          using mc_add_ok [OF mc_new_ok(1), of d] mc_new_ok(2) by (auto simp: mc_new_ok(2))
        obtain m1 where m1: "mc_addCallback c m = Inr m1" "mc_ok m1" "mc_callbacks m1 = [d, c]"
          using mc_add_ok [OF m(2), of c] m(3) dc by auto
        show ?thesis using m m1 Some One_callback
          by (intro exI [of _ "Multi_callback m1"]) (simp add: tsav_addCallback_def tsav_pending_def)
      next
        case (Multi_callback m)
        have mo: "mc_ok m" "c \<notin> set (mc_callbacks m)" using ok cp Some Multi_callback by (simp_all add: var_ok_def tsav_pending_def)
        obtain m1 where "mc_addCallback c m = Inr m1" "mc_ok m1" "mc_callbacks m1 = mc_callbacks m @ [c]" using mc_add_ok [OF mo] by blast
        then show ?thesis using Some Multi_callback
          by (intro exI [of _ "Multi_callback m1"]) (simp add: tsav_addCallback_def tsav_pending_def)
      qed
    qed
    then obtain f where f: "tsav_addCallback c ?s = Inr (?s\<lparr>tv_callback := Some f\<rparr>)" "\<forall>m. f = Multi_callback m \<longrightarrow> mc_ok m"
        "tsav_pending (?s\<lparr>tv_callback := Some f\<rparr>) = tsav_pending ?s @ [c]" by blast
    have r: "tsav_isReady (?s\<lparr>tv_callback := g\<rparr>) = tsav_isReady ?s" "var_result (?s\<lparr>tv_callback := g\<rparr>) = var_result ?s" for g
      by (simp_all add: tsav_isReady_def var_result_def tsav_isError_def)
    show ?thesis
      by (rule quiet_inv [OF inv i idle, where s = "?s\<lparr>tv_callback := Some f\<rparr>" and es = "[Registered c]"])
        (use False f ok r in \<open>auto simp: var_ok_def\<close>)
  qed
qed

lemma clear_run:
  assumes inv: "sys_inv y"
  shows "\<exists>b s. tsav_clearCallback c (sy_var y) = Inr (b, s) \<and> (b \<longleftrightarrow> \<not> tsav_isReady (sy_var y)) \<and> (\<not> b \<longrightarrow> s = sy_var y) \<and>
    tv_status s = tv_status (sy_var y) \<and> tv_error s = tv_error (sy_var y) \<and> tv_valueReferenceCount s = tv_valueReferenceCount (sy_var y) \<and>
    (\<forall>m. tv_callback s = Some (Multi_callback m) \<longrightarrow> mc_ok m) \<and>
    (b \<longrightarrow> mset (tsav_pending s) = mset (tsav_pending (sy_var y)) - {#c#})"
proof -
  let ?s = "sy_var y"
  have ok: "var_ok ?s (sy_threads y)" using inv by (simp add: sys_inv_def)
  show ?thesis
  proof (cases "tsav_isReady ?s")
    case True
    then show ?thesis using ok by (auto simp: tsav_clearCallback_def var_ok_def)
  next
    case un: False
    show ?thesis
    proof (cases "tv_callback ?s")
      case None
      then show ?thesis using un by (auto simp: tsav_clearCallback_def tsav_pending_def)
    next
      case (Some f)
      show ?thesis
      proof (cases f)
        case (One_callback d)
        then show ?thesis using un Some by (auto simp: tsav_clearCallback_def tsav_pending_def)
      next
        case (Multi_callback m)
        have mo: "mc_ok m" using ok Some Multi_callback by (simp add: var_ok_def)
        obtain m1 where "mc_clearCallback c m = Inr m1" "mc_ok m1" "mset (mc_callbacks m1) = mset (mc_callbacks m) - {#c#}"
        proof (cases "c \<in> set (mc_callbacks m)")
          case True then show thesis using mc_clear_ok [OF mo] that by blast
        next
          case False then show thesis using mc_clear_absent [OF mo] mo that by (simp add: diff_single_trivial)
        qed
        then show ?thesis using un Some Multi_callback by (auto simp: tsav_clearCallback_def tsav_pending_def)
      qed
    qed
  qed
qed

lemma clear_inv:
  assumes inv: "sys_inv y" and i: "i < length (sy_threads y)" and idle: "sy_threads y ! i = T_idle"
  shows "keeps_inv i (A_clear c) y"
proof -
  obtain b s where s: "tsav_clearCallback c (sy_var y) = Inr (b, s)" "b \<longleftrightarrow> \<not> tsav_isReady (sy_var y)" "\<not> b \<longrightarrow> s = sy_var y"
      "tv_status s = tv_status (sy_var y)" "tv_error s = tv_error (sy_var y)" "tv_valueReferenceCount s = tv_valueReferenceCount (sy_var y)"
      "\<forall>m. tv_callback s = Some (Multi_callback m) \<longrightarrow> mc_ok m" "b \<longrightarrow> mset (tsav_pending s) = mset (tsav_pending (sy_var y)) - {#c#}"
    using clear_run [OF inv] by blast
  have r: "tsav_isReady s = tsav_isReady (sy_var y)" "var_result s = var_result (sy_var y)"
    using s(4,5) by (simp_all add: tsav_isReady_def var_result_def tsav_isError_def)
  have refs: "0 < tv_valueReferenceCount s \<Longrightarrow> tsav_isReady s" using inv s(6) r(1) by (simp add: sys_inv_def var_ok_def)
  let ?es = "if b \<and> c \<in> set (tsav_pending (sy_var y)) then [Cleared c] else []"
  have cnt: "mset (tsav_pending (sy_var y)) + registered ?es = mset (tsav_pending s) + ended ?es"
    using s(3,8) by (auto simp: diff_single_trivial)
  show ?thesis
    by (rule quiet_inv [OF inv i idle, where s = s and es = ?es]) (use s r refs cnt in \<open>auto split: if_splits\<close>)
qed

lemma release_inv:
  assumes inv: "sys_inv y" and i: "i < length (sy_threads y)" and idle: "sy_threads y ! i = T_idle"
  shows "keeps_inv i A_release y"
proof -
  let ?s = "sy_var y" and ?s1 = "tsav_releaseMemory (sy_var y)"
  have ok: "var_ok ?s (sy_threads y)" using inv by (simp add: sys_inv_def)
  have refs: "0 < tv_valueReferenceCount ?s \<Longrightarrow> tsav_isReady ?s" using ok by (simp add: var_ok_def)
  have cb: "tv_callback ?s1 = tv_callback ?s" by (simp add: tsav_releaseMemory_def tsav_cleanup_def Let_def)
  have ready: "tsav_isReady ?s1 \<longleftrightarrow> tsav_isReady ?s"
    using refs by (auto simp: tsav_releaseMemory_def tsav_cleanup_def tsav_isReady_def Let_def)
  have refs1: "0 < tv_valueReferenceCount ?s1 \<Longrightarrow> tsav_isReady ?s1" unfolding ready
    by (rule refs) (auto simp: tsav_releaseMemory_def tsav_cleanup_def Let_def split: if_splits)
  have res: "var_result ?s1 = var_result ?s \<or> var_result ?s1 = Some future_released"
    by (auto simp: tsav_releaseMemory_def tsav_cleanup_def var_result_def tsav_isError_def Let_def)
  have mo: "mc_ok m" if "tv_callback ?s1 = Some (Multi_callback m)" for m using ok that cb by (simp add: var_ok_def)
  have p: "tsav_pending ?s1 = tsav_pending ?s" using cb by (simp add: tsav_pending_def)
  show ?thesis
    by (rule quiet_inv [OF inv i idle, where s = ?s1 and es = "[]"]) (use cb ready refs1 res mo p in simp_all)
qed

lemma get_inv:
  assumes inv: "sys_inv y" and i: "i < length (sy_threads y)" and idle: "sy_threads y ! i = T_idle"
  shows "keeps_inv i A_get y"
proof -
  let ?s = "sy_var y"
  have ok: "var_ok ?s (sy_threads y)" using inv by (simp add: sys_inv_def)
  obtain n where n: "tsav_act A_get T_idle ?s = Inr (T_idle, ?s\<lparr>tv_valueReferenceCount := n\<rparr>, [])" "0 < n \<Longrightarrow> tsav_isReady ?s"
  proof (cases "tsav_get ?s")
    case (Inl e)
    then show thesis using that [of "tv_valueReferenceCount ?s"] ok by (simp add: var_ok_def)
  next
    case (Inr p)
    then show thesis using that [of "tv_valueReferenceCount ?s + 1"] by (auto simp: tsav_get_def split: if_splits)
  qed
  show ?thesis
    by (rule quiet_inv [OF inv i idle n(1)])
      (use ok n(2) in \<open>simp_all add: var_ok_def tsav_isReady_def var_result_def tsav_isError_def tsav_pending_def\<close>)
qed

lemma act_inv:
  assumes inv: "sys_inv y" and en: "tsav_enabled i a y" and cl: "client_ok a (sy_var y)"
  shows "keeps_inv i a y"
proof -
  have i: "i < length (sy_threads y)" using en by (simp add: tsav_enabled_def)
  have ok: "var_ok (sy_var y) (sy_threads y)" using inv by (simp add: sys_inv_def)
  show ?thesis
  proof (cases a)
    case (A_continue can)
    then show ?thesis using continue_inv [OF inv i] en by (simp add: tsav_enabled_def)
  next
    case (A_send v can)
    then have idle: "sy_threads y ! i = T_idle" and un: "tv_status (sy_var y) = Unset" using en cl by (simp_all add: tsav_enabled_def client_ok_def tsav_canBeSet_def)
    show ?thesis unfolding A_send
      by (rule send_inv [OF inv i idle, where ?s1.0 = "(sy_var y)\<lparr>tv_value := Some v, tv_status := Set\<rparr>" and can = can])
        (use un in \<open>simp_all add: tsav_isReady_def tsav_send_def tsav_canBeSet_def var_result_def tsav_isError_def tsav_take_def Let_def\<close>)
  next
    case (A_sendError e can)
    then have idle: "sy_threads y ! i = T_idle" and un: "tv_status (sy_var y) = Unset" using en cl by (simp_all add: tsav_enabled_def client_ok_def tsav_canBeSet_def)
    show ?thesis unfolding A_sendError
      by (rule send_inv [OF inv i idle, where ?s1.0 = "(sy_var y)\<lparr>tv_error := e, tv_status := ErrorSet\<rparr>" and can = can])
        (use un in \<open>simp_all add: tsav_isReady_def tsav_sendError_def tsav_canBeSet_def var_result_def tsav_isError_def tsav_take_def Let_def\<close>)
  next
    case A_sendNever
    then have idle: "sy_threads y ! i = T_idle" and un: "tv_status (sy_var y) = Unset" using en cl by (simp_all add: tsav_enabled_def client_ok_def tsav_canBeSet_def)
    show ?thesis unfolding A_sendNever
      by (rule quiet_inv [OF inv i idle, where s = "(sy_var y)\<lparr>tv_status := NeverSet\<rparr>" and es = "[]"])
        (use un ok in \<open>simp_all add: tsav_isReady_def tsav_sendNever_def tsav_canBeSet_def var_result_def tsav_isError_def tsav_pending_def var_ok_def\<close>)
  next
    case (A_callOrSet c can)
    then show ?thesis using callOrSet_inv [OF inv i] en cl by (simp add: tsav_enabled_def client_ok_def)
  next
    case (A_clear c)
    then show ?thesis using clear_inv [OF inv i] en by (simp add: tsav_enabled_def)
  next
    case A_get
    then show ?thesis using get_inv [OF inv i] en by (simp add: tsav_enabled_def)
  next
    case A_release
    then show ?thesis using release_inv [OF inv i] en by (simp add: tsav_enabled_def)
  qed
qed

lemma client_faults:
  assumes inv: "sys_inv y" and en: "tsav_enabled i a y" and cl: "\<not> client_ok a (sy_var y)"
  shows "tsav_do i a y = Inl Assert_failed"
proof -
  have ok: "var_ok (sy_var y) (sy_threads y)" using inv by (simp add: sys_inv_def)
  have add: "tsav_addCallback c (sy_var y) = Inl Assert_failed" if "c \<in> set (tsav_pending (sy_var y))" for c
  proof (cases "tv_callback (sy_var y)")
    case (Some f)
    show ?thesis
    proof (cases f)
      case (One_callback d)
      then have "c = d" using that Some by (simp add: tsav_pending_def)
      obtain m where m: "mc_addCallback d mc_new = Inr m" "mc_ok m" "mc_callbacks m = [d]"
        using mc_add_ok [OF mc_new_ok(1), of d] mc_new_ok(2) by (auto simp: mc_new_ok(2))
      then show ?thesis using Some One_callback \<open>c = d\<close> mc_add_fails [OF m(2), of d] by (simp add: tsav_addCallback_def)
    next
      case (Multi_callback m)
      then show ?thesis using Some that ok mc_add_fails [of m c] by (simp add: tsav_addCallback_def tsav_pending_def var_ok_def)
    qed
  qed (use that in \<open>simp add: tsav_pending_def\<close>)
  show ?thesis
    using cl add by (cases a) (simp_all add: client_ok_def tsav_do_def tsav_send_def tsav_sendError_def tsav_sendNever_def)
qed

lemma reachable_inv: "tsav_reachable y \<Longrightarrow> sys_inv y"
proof (induction rule: tsav_reachable.induct)
  case (tsav_init n)
  show ?case
    by (auto simp: sys_inv_def var_ok_def tsav_new_def tsav_isReady_def results_ok_def tsav_pending_def threads_hold_def in_set_replicate
        split: if_splits)
next
  case (tsav_step y i a y')
  have cl: "client_ok a (sy_var y)" using client_faults [OF tsav_step.IH tsav_step.hyps(2)] tsav_step.hyps(3) by auto
  obtain pc s es where "tsav_act a (sy_threads y ! i) (sy_var y) = Inr (pc, s, es)"
      "sys_inv \<lparr>sy_var = s, sy_threads = (sy_threads y)[i := pc], sy_log = sy_log y @ es\<rparr>"
    using act_inv [OF tsav_step.IH tsav_step.hyps(2) cl] unfolding keeps_inv_def by blast
  then show ?case using tsav_step.hyps(3) by (simp add: tsav_do_def)
qed

subsection \<open>What clients can rely on\<close>

fun tsav_run :: "(nat \<times> ('c, 'v) tsav_action) list \<Rightarrow> ('c, 'v) tsav_system \<Rightarrow> ('c, 'v) tsav_system option" where
  "tsav_run [] y = Some y"
| "tsav_run ((i, a) # as) y =
     (if tsav_enabled i a y then case tsav_do i a y of Inl _ \<Rightarrow> None | Inr y' \<Rightarrow> tsav_run as y' else None)"

lemma tsav_run_reachable: "tsav_reachable y \<Longrightarrow> tsav_run as y = Some y' \<Longrightarrow> tsav_reachable y'"
proof (induction as arbitrary: y)
  case (Cons ia as)
  obtain i a where ia: "ia = (i, a)" by (cases ia)
  obtain y1 where "tsav_enabled i a y" "tsav_do i a y = Inr y1" "tsav_run as y1 = Some y'"
    using Cons.prems(2) ia by (auto split: if_splits sum.splits)
  then show ?case using Cons.IH tsav_reachable.tsav_step [OF Cons.prems(1)] by blast
qed simp

definition tsav_system_new :: "nat \<Rightarrow> ('c, 'v) tsav_system" where
  "tsav_system_new n = \<lparr>sy_var = tsav_new, sy_threads = replicate n T_idle, sy_log = []\<rparr>"

lemma tsav_new_reachable: "tsav_reachable (tsav_system_new n)"
  unfolding tsav_system_new_def by (rule tsav_init)

lemmas tsav_eval = tsav_system_new_def tsav_new_def tsav_enabled_def tsav_do_def tsav_isReady_def tsav_isError_def tsav_canBeSet_def
  tsav_addCallback_def tsav_send_def tsav_sendError_def tsav_take_def after_send_def tsav_get_def tsav_releaseMemory_def tsav_cleanup_def
  tsav_clearCallback_def tsav_pending_def mc_addCallback_def mc_new_def mc_take_def mc_clearCallback_def Let_def numeral_eq_Suc

text \<open>
  Property C15: a step of any thread fails exactly when the client breaks the contract: it sends to a variable that cannot be set (any more), or registers a
  callback that is registered already and has not been called.  Then an assertion fails; no other step does, under any
  interleaving, and the loop over several callbacks always finds them in the variable.
\<close>

theorem tsav_faults_exact:
  assumes "tsav_reachable y" and "tsav_enabled i a y"
  shows "if client_ok a (sy_var y) then \<exists>y'. tsav_do i a y = Inr y' else tsav_do i a y = Inl Assert_failed"
proof (cases "client_ok a (sy_var y)")
  case True
  obtain pc s es where "tsav_act a (sy_threads y ! i) (sy_var y) = Inr (pc, s, es)"
    using act_inv [OF reachable_inv [OF assms(1)] assms(2) True] unfolding keeps_inv_def by blast
  then show ?thesis using True by (simp add: tsav_do_def)
next
  case False
  then show ?thesis using client_faults [OF reachable_inv [OF assms(1)] assms(2)] by simp
qed

theorem tsav_faults_exact_witness:
  "\<exists>y :: (nat, nat) tsav_system. tsav_reachable y \<and> tsav_enabled 1 (A_send 6 True) y \<and> tsav_do 1 (A_send 6 True) y = Inl Assert_failed"
proof -
  obtain y where y: "tsav_run [(0, A_send 5 True)] (tsav_system_new 2 :: (nat, nat) tsav_system) = Some y"
      "tsav_enabled 1 (A_send 6 True) y" "\<not> client_ok (A_send 6 True) (sy_var y)"
    by (simp add: tsav_eval client_ok_def)
  have r: "tsav_reachable y" using tsav_run_reachable [OF tsav_new_reachable y(1)] .
  show ?thesis using tsav_faults_exact [OF r y(2)] y(2,3) r by auto
qed

text \<open>
  Property C13: every callback registered is accounted for exactly once, under every interleaving: it waits in the variable, or a thread is about to call it, or it was called once, or it
  refused to be, or it was cleared.  When the variable is ready and no thread is inside an operation, none waits.  All
  callbacks are told the same result, except that those told after the memory of the value was released get
  \<open>future_released\<close>.
\<close>

theorem tsav_callbacks_once:
  assumes "tsav_reachable y"
  shows "registered (sy_log y) = mset (tsav_pending (sy_var y)) + threads_hold (sy_threads y) + ended (sy_log y) \<and>
    (tsav_isReady (sy_var y) \<longrightarrow> (\<forall>pc \<in> set (sy_threads y). pc = T_idle) \<longrightarrow> registered (sy_log y) = ended (sy_log y)) \<and>
    (\<exists>x. \<forall>c r. Fired c r \<in> set (sy_log y) \<longrightarrow> r = x \<or> r = Some future_released)"
proof -
  have inv: "sys_inv y" using reachable_inv [OF assms] .
  then have all: "registered (sy_log y) = mset (tsav_pending (sy_var y)) + threads_hold (sy_threads y) + ended (sy_log y)" by (simp add: sys_inv_def)
  moreover have "registered (sy_log y) = ended (sy_log y)" if "tsav_isReady (sy_var y)" "\<forall>pc \<in> set (sy_threads y). pc = T_idle"
  proof -
    have "tsav_pending (sy_var y) = []" using inv that loops_zero [OF that(2)] by (auto simp: sys_inv_def var_ok_def)
    moreover have "threads_hold (sy_threads y) = {#}" using that(2) by (auto simp: threads_hold_def)
    ultimately show ?thesis using all by simp
  qed
  moreover have "\<exists>x. \<forall>c r. Fired c r \<in> set (sy_log y) \<longrightarrow> r = x \<or> r = Some future_released"
    using inv unfolding sys_inv_def results_ok_def by blast
  ultimately show ?thesis by blast
qed

theorem tsav_callbacks_once_witness:
  "\<exists>y :: (nat, nat) tsav_system. tsav_reachable y \<and> sy_log y = [Registered 3, Registered 4, Fired 4 None, Fired 3 None] \<and>
     registered (sy_log y) = ended (sy_log y)"
proof -
  let ?as = "[(0, A_callOrSet 3 True), (1, A_callOrSet 4 True), (0, A_send 5 True), (0, A_continue True), (0, A_continue True),
      (0, A_continue True), (0, A_continue True), (0, A_continue True)]"
  obtain y where y: "tsav_run ?as (tsav_system_new 2 :: (nat, nat) tsav_system) = Some y"
      "sy_log y = [Registered 3, Registered 4, Fired 4 None, Fired 3 None]" "tsav_isReady (sy_var y)" "\<forall>pc \<in> set (sy_threads y). pc = T_idle"
    by (simp add: tsav_eval)
  have r: "tsav_reachable y" using tsav_run_reachable [OF tsav_new_reachable y(1)] .
  show ?thesis using tsav_callbacks_once [OF r] r y(2-4) by blast
qed

text \<open>
  Property C14: what the answer of \<open>clearCallback\<close> means.  After \<open>true\<close> the callback is not in the variable, no thread is about to call
  it and it was never called.  After \<open>false\<close> the variable is set and unchanged, and a callback that still waits in it is about to
  be called, because a thread is inside the loop over the callbacks.
\<close>

theorem tsav_clearCallback_sound:
  assumes "tsav_reachable y"
  shows "\<exists>b s. tsav_clearCallback c (sy_var y) = Inr (b, s) \<and>
    (if b then c \<notin> set (tsav_pending s) \<and> c \<notin># threads_hold (sy_threads y) \<and> (\<forall>r. Fired c r \<notin> set (sy_log y))
     else s = sy_var y \<and> tsav_isReady s \<and> (c \<in> set (tsav_pending s) \<longrightarrow> (\<exists>pc \<in> set (sy_threads y). pc_loops pc)))"
proof -
  have inv: "sys_inv y" using reachable_inv [OF assms] .
  obtain b s where s: "tsav_clearCallback c (sy_var y) = Inr (b, s)" "b \<longleftrightarrow> \<not> tsav_isReady (sy_var y)" "\<not> b \<longrightarrow> s = sy_var y"
      "b \<longrightarrow> mset (tsav_pending s) = mset (tsav_pending (sy_var y)) - {#c#}" using clear_run [OF inv] by blast
  have ok: "var_ok (sy_var y) (sy_threads y)" using inv by (simp add: sys_inv_def)
  show ?thesis
  proof (cases b)
    case True
    then have un: "\<not> tsav_isReady (sy_var y)" using s(2) by simp
    have "count (mset (tsav_pending (sy_var y))) c \<le> 1" using pending_distinct [OF ok] by (simp add: distinct_count_atmost_1)
    then have "count (mset (tsav_pending s)) c = 0" using s(4) True by simp
    then have "c \<notin> set (tsav_pending s)" by (metis count_eq_zero_iff set_mset_mset)
    moreover have "c \<notin># threads_hold (sy_threads y)" using unset_idle(1) [OF inv un] by (auto simp: threads_hold_def)
    ultimately show ?thesis using s(1) True unset_idle(3) [OF inv un] by (intro exI [of _ b] exI [of _ s]) simp
  next
    case False
    then have e: "s = sy_var y" "tsav_isReady (sy_var y)" using s(2,3) by auto
    have "\<exists>pc \<in> set (sy_threads y). pc_loops pc" if "c \<in> set (tsav_pending (sy_var y))"
    proof -
      have "loops (sy_threads y) = 1" using ok e(2) that by (auto simp: var_ok_def)
      then have "filter pc_loops (sy_threads y) \<noteq> []" by (auto simp: loops_def)
      then show ?thesis by (auto simp: filter_empty_conv)
    qed
    then show ?thesis using s(1) False e by (intro exI [of _ b] exI [of _ s]) simp
  qed
qed

theorem tsav_clearCallback_sound_witness:
  "\<exists>(y :: (nat, nat) tsav_system) s. tsav_reachable y \<and> tsav_pending (sy_var y) = [3, 4] \<and> tsav_clearCallback 3 (sy_var y) = Inr (True, s) \<and>
     3 \<notin> set (tsav_pending s)"
proof -
  obtain y where y: "tsav_run [(0, A_callOrSet 3 True), (1, A_callOrSet 4 True)] (tsav_system_new 2 :: (nat, nat) tsav_system) = Some y"
      "tsav_pending (sy_var y) = [3, 4]" "\<not> tsav_isReady (sy_var y)"
    by (simp add: tsav_eval)
  have r: "tsav_reachable y" using tsav_run_reachable [OF tsav_new_reachable y(1)] .
  show ?thesis using tsav_clearCallback_sound [OF r, of 3] r y(2,3) by (auto split: if_splits)
qed

text \<open>
  \<open>callOrSetAsCallback\<close> relies on the status and the error of a variable that is ready not to change, and reads them after it has left the lock.
  They do change when another thread releases the memory of the value in between.
\<close>

lemma tsav_status_changes:
  "\<exists>y :: (nat, nat) tsav_system. tsav_reachable y \<and> sy_log y = [Registered 3, Fired 3 (Some future_released)]"
proof -
  obtain y where y: "tsav_run [(0, A_send 5 True), (1, A_callOrSet 3 True), (0, A_get), (0, A_release), (1, A_continue True), (1, A_continue True)]
      (tsav_system_new 2 :: (nat, nat) tsav_system) = Some y" "sy_log y = [Registered 3, Fired 3 (Some future_released)]"
    by (simp add: tsav_eval)
  then show ?thesis using tsav_run_reachable [OF tsav_new_reachable y(1)] by blast
qed

end
