(* ===== verification/IS_VectorInsert.thy ===== *)
theory IS_VectorInsert
  imports IS_Search
begin

text \<open>
  \<open>IndexedSet::insert\<close> for a vector of items (\<open>src/flow/IndexedSet.h\<close>): an item that lies before \<open>blockEnd\<close> goes next to the
  node inserted last, \<open>blockStart\<close>, without a descent from the root.  The result is the tree that one insertion after the
  other makes, when the vector is in increasing order.
\<close>

subsection \<open>Model\<close>

text \<open>
  Rotations relink nodes and never change the item a node holds, so the node a pointer leads to is the one with its
  item.  \<open>locate\<close> follows the pointer wherever the node is now; it does not rely on the order of the items.
\<close>

fun locate :: "'a \<Rightarrow> ('a, 'm) is_tree \<Rightarrow> ('a, 'm) path \<Rightarrow> ('a, 'm) iter" where
  "locate k Leaf path = None"
| "locate k (Node l x b m r) path =
     (if x = k then Some (Node l x b m r, path)
      else case locate k l (Frame False x b m r # path) of
             Some i \<Rightarrow> Some i
           | None \<Rightarrow> locate k r (Frame True x b m l # path))"

text \<open>The descent, which moves \<open>blockEnd\<close> to the last node where it does not go right.\<close>

fun block_search ::
  "'a::linorder \<Rightarrow> ('a, 'm) is_tree \<Rightarrow> ('a, 'm) path \<Rightarrow> 'a option \<Rightarrow> ('a, 'm) search_result \<times> 'a option" where
  "block_search data Leaf path be = (Attach False Leaf path, be)"
| "block_search data (Node l x b m r) path be =
     (let t = Node l x b m r; d = x < data; be' = (if \<not> d then Some x else be)
      in if \<not> d \<and> \<not> data < x then (Found t path, be')
         else if (if d then r else l) = Leaf then (Attach d t path, be')
         else block_search data (if d then r else l) (down_frame t d # path) be')"

text \<open>The loop \<open>while(t->child[d]) { t = t->child[d]; d = 0; }\<close>.\<close>

fun finger :: "bool \<Rightarrow> ('a, 'm) is_tree \<Rightarrow> ('a, 'm) path \<Rightarrow> bool \<times> ('a, 'm) is_tree \<times> ('a, 'm) path" where
  "finger d Leaf path = (d, Leaf, path)"
| "finger d (Node l x b m r) path =
     (if (if d then r else l) = Leaf then (d, Node l x b m r, path)
      else finger False (if d then r else l) (down_frame (Node l x b m r) d # path))"

record ('a, 'm) vector_insert =
  vi_root :: "('a, 'm) is_tree"
  vi_num_inserted :: int
  vi_blockStart :: "'a option"
  vi_blockEnd :: "'a option"

definition overwrite_at :: "('a, 'm::ab_group_add) is_tree \<Rightarrow> 'a \<Rightarrow> 'm \<Rightarrow> ('a, 'm) path \<Rightarrow> ('a, 'm) is_tree" where
  "overwrite_at t data metric path =
     (let t1 = set_total (set_data t data) metric;
          t2 = (if child t1 False \<noteq> Leaf then set_total t1 (total t1 + total (child t1 False)) else t1);
          t3 = (if child t2 True \<noteq> Leaf then set_total t2 (total t2 + total (child t2 True)) else t2);
          delta = total t3 - total t
      in plug t3 (add_totals delta path))"

text \<open>The second half of a turn: the new node below \<open>blockStart\<close>, and the way up.\<close>

definition attach_after ::
  "bool \<Rightarrow> ('a, 'm) is_tree \<Rightarrow> ('a, 'm) path \<Rightarrow> 'a \<Rightarrow> 'm::ab_group_add \<Rightarrow> 'a option \<Rightarrow> ('a, 'm) vector_insert \<Rightarrow>
   ('a, 'm) vector_insert result" where
  "attach_after d0 t0 path0 data metric be s =
     (let (d, t, path) = finger d0 t0 path0
      in bind_result (insert_retrace (set_child t d (Node Leaf data 0 metric Leaf)) d metric path) (\<lambda>root'.
           Inr (s\<lparr>vi_root := root', vi_num_inserted := vi_num_inserted s + 1, vi_blockStart := Some data, vi_blockEnd := be\<rparr>)))"

definition vector_step ::
  "bool \<Rightarrow> 'a::linorder \<times> 'm::ab_group_add \<Rightarrow> ('a, 'm) vector_insert \<Rightarrow> ('a, 'm) vector_insert result" where
  "vector_step replaceExisting item s =
     (let (data, metric) = item
      in if vi_blockStart s = None \<or> (case vi_blockEnd s of None \<Rightarrow> False | Some e \<Rightarrow> e \<le> data)
         then if vi_root s = Leaf
              then Inr (s\<lparr>vi_root := Node Leaf data 0 metric Leaf, vi_num_inserted := vi_num_inserted s + 1,
                          vi_blockStart := Some data, vi_blockEnd := None\<rparr>)
              else case block_search data (vi_root s) [] None of
                     (Found t path, be) \<Rightarrow>
                       Inr (if replaceExisting
                            then s\<lparr>vi_root := overwrite_at t data metric path, vi_num_inserted := vi_num_inserted s + 1,
                                   vi_blockStart := Some data, vi_blockEnd := be\<rparr>
                            else s\<lparr>vi_blockStart := Some data, vi_blockEnd := be\<rparr>)
                   | (Attach d t path, be) \<Rightarrow> attach_after d t path data metric be s
         else case locate (the (vi_blockStart s)) (vi_root s) [] of
                None \<Rightarrow> Inl Undefined_behaviour
              | Some (t, path) \<Rightarrow> attach_after True t path data metric (vi_blockEnd s) s)"

fun vector_loop ::
  "bool \<Rightarrow> ('a::linorder \<times> 'm::ab_group_add) list \<Rightarrow> ('a, 'm) vector_insert \<Rightarrow> ('a, 'm) vector_insert result" where
  "vector_loop replaceExisting [] s = Inr s"
| "vector_loop replaceExisting (item # rest) s =
     bind_result (vector_step replaceExisting item s) (vector_loop replaceExisting rest)"

definition insert_vector ::
  "('a::linorder, 'm::ab_group_add) is_tree \<Rightarrow> ('a \<times> 'm) list \<Rightarrow> bool \<Rightarrow> (int \<times> ('a, 'm) is_tree) result" where
  "insert_vector root dataVector replaceExisting =
     bind_result (vector_loop replaceExisting dataVector
         \<lparr>vi_root = root, vi_num_inserted = 0, vi_blockStart = None, vi_blockEnd = None\<rparr>)
       (\<lambda>s. Inr (vi_num_inserted s, vi_root s))"

subsection \<open>Reference: one insertion after the other\<close>

fun insert_each ::
  "bool \<Rightarrow> ('a::linorder \<times> 'm::ab_group_add) list \<Rightarrow> int \<times> ('a, 'm) is_tree \<Rightarrow> (int \<times> ('a, 'm) is_tree) result" where
  "insert_each rep [] s = Inr s"
| "insert_each rep ((x, m) # xs) s =
     bind_result (is_insert (snd s) x m rep) (\<lambda>t.
       insert_each rep xs (fst s + (if rep \<or> is_find (snd s) x = None then 1 else 0), t))"

subsection \<open>The descents\<close>

lemma block_search_result: "fst (block_search data t path be) = insert_search data t path"
proof (induction data t path be rule: block_search.induct)
  case (2 data l x b m r path be)
  then show ?case by (cases "x < data"; cases "data < x") (auto simp: Let_def)
qed simp

lemma block_search_end:
  assumes "sorted_items (items t)" and "snd (block_search data t path be) = be'"
  shows "(\<forall>y \<in> fst ` set (items t). data < y \<longrightarrow> (\<exists>e. be' = Some e \<and> e \<le> y)) \<and>
    (\<forall>e0. be = Some e0 \<longrightarrow> (\<forall>y \<in> fst ` set (items t). y < e0) \<longrightarrow> (\<exists>e. be' = Some e \<and> e \<le> e0))"
  using assms
proof (induction data t path be rule: block_search.induct)
  case (2 data l x b m r path be)
  have sub: "sorted_items (items l)" "sorted_items (items r)"
    and lx: "\<forall>y \<in> fst ` set (items l). y < x" and xr: "\<forall>y \<in> fst ` set (items r). x < y"
    using "2.prems"(1) by (auto simp: sorted_items_append sorted_items_Cons)
  consider "x < data" | "data < x" | "x = data" by (metis linorder_neqE)
  then show ?case
  proof cases
    case 1
    show ?thesis
    proof (cases "r = Leaf")
      case True
      then show ?thesis using 1 lx "2.prems"(2) by force
    next
      case False
      then have r: "snd (block_search data r (down_frame (Node l x b m r) True # path) be) = be'"
        using "2.prems"(2) 1 by (simp add: Let_def)
      from "2.IH" [OF refl refl refl] 1 False sub(2) r
      have "(\<forall>y \<in> fst ` set (items r). data < y \<longrightarrow> (\<exists>e. be' = Some e \<and> e \<le> y)) \<and>
        (\<forall>e0. be = Some e0 \<longrightarrow> (\<forall>y \<in> fst ` set (items r). y < e0) \<longrightarrow> (\<exists>e. be' = Some e \<and> e \<le> e0))" by simp
      then show ?thesis using 1 lx by force
    qed
  next
    case 2
    then have nd: "\<not> x < data" by simp
    show ?thesis
    proof (cases "l = Leaf")
      case True
      then show ?thesis using 2 nd xr "2.prems"(2) by force
    next
      case False
      then have r: "snd (block_search data l (down_frame (Node l x b m r) False # path) (Some x)) = be'"
        using "2.prems"(2) 2 nd by (simp add: Let_def)
      from "2.IH" [OF refl refl refl] 2 nd False sub(1) r
      have h: "(\<forall>y \<in> fst ` set (items l). data < y \<longrightarrow> (\<exists>e. be' = Some e \<and> e \<le> y)) \<and>
        ((\<forall>y \<in> fst ` set (items l). y < x) \<longrightarrow> (\<exists>e. be' = Some e \<and> e \<le> x))" by simp
      then obtain e where e: "be' = Some e" "e \<le> x" using lx by blast
      then have "\<forall>y \<in> fst ` set (items (Node l x b m r)). data < y \<longrightarrow> e \<le> y" using h xr by force
      then show ?thesis using e by force
    qed
  next
    case 3
    then show ?thesis using "2.prems"(2) lx xr by (force simp: Let_def)
  qed
qed simp

lemma locate_sound:
  "locate k t path = Some (t', path') \<Longrightarrow> plug t' path' = plug t path \<and> t' \<noteq> Leaf \<and> n_data t' = k"
proof (induction k t path rule: locate.induct)
  case (2 k l x b m r path)
  then show ?case
    by (cases "x = k"; cases "locate k l (Frame False x b m r # path)") (auto simp: path_simps)
qed simp

lemma locate_finds: "k \<in> fst ` set (items t) \<Longrightarrow> locate k t path \<noteq> None"
proof (induction k t path rule: locate.induct)
  case (2 k l x b m r path)
  then show ?case
    by (cases "x = k"; cases "locate k l (Frame False x b m r # path)") auto
qed simp

lemma finger_left:
  assumes "t \<noteq> Leaf" and "finger False t path = (d, t', path')"
  shows "plug t' path' = plug t path \<and> t' \<noteq> Leaf \<and> child t' d = Leaf \<and>
    litems 0 (down_frame t' d # path') = litems (total t) path"
  using assms
proof (induction False t path rule: finger.induct)
  case (2 l x b m r path)
  then show ?case by (cases "l = Leaf") (auto simp: path_simps)
qed simp

lemma finger_right:
  assumes "t \<noteq> Leaf" and "finger True t path = (d, t', path')"
  shows "plug t' path' = plug t path \<and> t' \<noteq> Leaf \<and> child t' d = Leaf \<and>
    litems 0 (down_frame t' d # path') = before (t, path) @ [here (t, path)]"
proof -
  obtain l x b m r where t: "t = Node l x b m r" using assms(1) by (cases t) auto
  show ?thesis
  proof (cases "r = Leaf")
    case True
    then show ?thesis using assms(2) by (auto simp: t at_Node path_simps)
  next
    case False
    then have "finger False r (Frame True x b m l # path) = (d, t', path')" using assms(2) by (simp add: t)
    from finger_left [OF False this] show ?thesis by (simp add: t at_Node path_simps)
  qed
qed

text \<open>A gap that separates the smaller items from the larger ones is where the descent ends.\<close>

lemma insert_search_plug:
  fixes t :: "('a::linorder, 'm::ab_group_add) is_tree"
  assumes "t \<noteq> Leaf" and "hole_for data (total t) p"
  shows "insert_search data (plug t p) q = insert_search data t (p @ q)"
  using assms
proof (induction p arbitrary: t)
  case (Cons f p)
  obtain d x b m s where f: "f = Frame d x b m s" by (cases f)
  have dir: "if d then x < data else data < x" and h: "hole_for data m p"
    using Cons.prems(2) by (cases d; auto simp: f hole_for_def path_simps)+
  have "total (parent_node f t) = m" "parent_node f t \<noteq> Leaf" by (cases d; simp add: f path_simps)+
  moreover have "insert_search data (parent_node f t) (p @ q) = insert_search data t (f # p @ q)"
    using dir Cons.prems(1) by (cases d) (auto simp: f path_simps Let_def)
  ultimately show ?case using Cons.IH [of "parent_node f t"] h by simp
qed simp

lemma gap_is_found:
  fixes t :: "('a::linorder, 'm::ab_group_add) is_tree"
  assumes t: "t \<noteq> Leaf" "child t d = Leaf" and srt: "sorted_items (items (plug t p))"
    and low: "\<forall>y \<in> set (litems 0 (down_frame t d # p)). fst y < data"
    and high: "\<forall>y \<in> set (ritems 0 (down_frame t d # p)). data < fst y"
  shows "insert_search data (plug t p) [] = Attach d t p"
proof -
  obtain l x b m r where tn: "t = Node l x b m r" using t(1) by (cases t) auto
  have "hole_for data (total t) p" "if d then x < data else data < x"
    using low high by (cases d; auto simp: tn hole_for_def path_simps)+
  then show ?thesis
    using insert_search_plug [OF t(1), of data p "[]"] t(2) by (cases d) (auto simp: tn Let_def)
qed

lemma is_insert_cases:
  "root \<noteq> Leaf \<Longrightarrow> is_insert root data metric rep =
     (case insert_search data root [] of
        Found t path \<Rightarrow> Inr (if rep then overwrite_at t data metric path else root)
      | Attach d t path \<Rightarrow> insert_retrace (set_child t d (Node Leaf data 0 metric Leaf)) d metric path)"
  by (simp add: is_insert_def overwrite_at_def Let_def split: search_result.split)

lemma find_search:
  "root \<noteq> Leaf \<Longrightarrow> find_from data root path = None \<longleftrightarrow> (\<exists>d t p. insert_search data root path = Attach d t p)"
proof (induction data root path rule: insert_search.induct)
  case (2 data l x b m r path)
  then show ?case by (cases "x < data"; cases "l = Leaf"; cases "r = Leaf"; cases "data < x") (auto simp: Let_def)
qed simp

subsection \<open>One turn is one insertion\<close>

text \<open>No item lies between the node inserted last and \<open>blockEnd\<close>.\<close>

definition vi_ok :: "('a::linorder, 'm::ab_group_add) vector_insert \<Rightarrow> bool" where
  "vi_ok s \<longleftrightarrow> is_ok (vi_root s) \<and>
     (case vi_blockStart s of
        None \<Rightarrow> True
      | Some k \<Rightarrow> k \<in> fst ` set (items (vi_root s)) \<and>
          (\<forall>y \<in> fst ` set (items (vi_root s)). k < y \<longrightarrow> (\<exists>e. vi_blockEnd s = Some e \<and> e \<le> y)))"

definition vi_next :: "'a::linorder \<Rightarrow> ('a, 'm) vector_insert \<Rightarrow> bool" where
  "vi_next data s \<longleftrightarrow> (case vi_blockStart s of None \<Rightarrow> True | Some k \<Rightarrow> k < data)"

lemma finger_attach: "child t d = Leaf \<Longrightarrow> t \<noteq> Leaf \<Longrightarrow> finger d t path = (d, t, path)"
  by (cases t) auto


lemma attach_after_ok:
  assumes ok: "is_ok (vi_root s)" and f: "finger d0 t0 p0 = (d, t, p)"
    and search: "insert_search data (vi_root s) [] = Attach d t p" and ne: "vi_root s \<noteq> Leaf"
  shows "\<exists>root'. is_insert (vi_root s) data m rep = Inr root' \<and>
    attach_after d0 t0 p0 data m be s =
      Inr (s\<lparr>vi_root := root', vi_num_inserted := vi_num_inserted s + 1, vi_blockStart := Some data, vi_blockEnd := be\<rparr>)"
proof -
  obtain root' where r: "is_insert (vi_root s) data m rep = Inr root'" using is_insert_ok [OF ok] by blast
  then have "insert_retrace (set_child t d (Node Leaf data 0 m Leaf)) d m p = Inr root'"
    using search is_insert_cases [OF ne] by simp
  then show ?thesis using r f by (simp add: attach_after_def)
qed

lemma vi_ok_next:
  assumes ok: "is_ok root" and ins: "is_insert root data m rep = Inr root'" and r: "vi_root s' = root'"
    and b: "vi_blockStart s' = Some data" "vi_blockEnd s' = be"
    and be: "\<forall>y \<in> fst ` set (items root). data < y \<longrightarrow> (\<exists>e. be = Some e \<and> e \<le> y)"
  shows "vi_ok s'"
proof -
  have t: "is_ok root'" "items root' = ins_items data m rep (items root)"
    using is_insert_ok [OF ok, of data m rep] ins by auto
  have "fst ` set (items root') = insert data (fst ` set (items root))"
    unfolding t(2) by (rule set_ins_items)
  then show ?thesis using t(1) r b be by (simp add: vi_ok_def)
qed

lemma step_descends:
  fixes s :: "('a::linorder, 'm::ab_group_add) vector_insert"
  assumes ok: "is_ok (vi_root s)" and ne: "vi_root s \<noteq> Leaf"
    and new: "vi_blockStart s = None \<or> (case vi_blockEnd s of None \<Rightarrow> False | Some e \<Rightarrow> e \<le> data)"
  shows "\<exists>s'. vector_step rep (data, m) s = Inr s' \<and> is_insert (vi_root s) data m rep = Inr (vi_root s') \<and>
    vi_num_inserted s' = vi_num_inserted s + (if rep \<or> is_find (vi_root s) data = None then 1 else 0) \<and>
    vi_blockStart s' = Some data \<and> vi_ok s'"
proof -
  obtain sr be where bs: "block_search data (vi_root s) [] None = (sr, be)" by fastforce
  have search: "insert_search data (vi_root s) [] = sr" using block_search_result [of data "vi_root s" "[]" None] bs by simp
  have srt: "sorted_items (items (vi_root s))" using ok by (simp add: is_ok_def)
  have end_ok: "\<forall>y \<in> fst ` set (items (vi_root s)). data < y \<longrightarrow> (\<exists>e. be = Some e \<and> e \<le> y)"
    using block_search_end [OF srt, of data "[]" None be] bs by simp
  note fs = find_search [OF ne, of data "[]"]
  show ?thesis
  proof (cases sr)
    case (Found t path)
    then obtain i where num: "is_find (vi_root s) data = Some i" using fs search by (auto simp: is_find_def)
    show ?thesis
      using new bs Found ne num vi_ok_next [OF ok, of data m rep _ _ be] end_ok is_insert_cases [OF ne, of data m rep] search
      by (simp add: vector_step_def)
  next
    case (Attach d t path)
    have sp: "hole_for data (total (vi_root s)) []" by (simp add: hole_for_def)
    have "t \<noteq> Leaf \<and> child t d = Leaf" using insert_search_spec [OF ne srt sp] search Attach by simp
    then have f: "finger d t path = (d, t, path)" by (simp add: finger_attach)
    have num: "is_find (vi_root s) data = None" using fs search Attach by (simp add: is_find_def)
    obtain root' where r: "is_insert (vi_root s) data m rep = Inr root'"
      "attach_after d t path data m be s =
        Inr (s\<lparr>vi_root := root', vi_num_inserted := vi_num_inserted s + 1, vi_blockStart := Some data, vi_blockEnd := be\<rparr>)"
      using attach_after_ok [OF ok f _ ne, of data m rep be] search Attach by blast
    then show ?thesis
      using new bs Attach ne num vi_ok_next [OF ok r(1) _ _ _ end_ok] by (simp add: vector_step_def)
  qed
qed

lemma step_follows:
  fixes s :: "('a::linorder, 'm::ab_group_add) vector_insert"
  assumes ok: "vi_ok s" and k: "vi_blockStart s = Some k" "k < data"
    and old: "\<not> (case vi_blockEnd s of None \<Rightarrow> False | Some e \<Rightarrow> e \<le> data)"
  shows "\<exists>s'. vector_step rep (data, m) s = Inr s' \<and> is_insert (vi_root s) data m rep = Inr (vi_root s') \<and>
    vi_num_inserted s' = vi_num_inserted s + (if rep \<or> is_find (vi_root s) data = None then 1 else 0) \<and>
    vi_blockStart s' = Some data \<and> vi_ok s'"
proof -
  let ?root = "vi_root s"
  have io: "is_ok ?root" and kin: "k \<in> fst ` set (items ?root)"
    and gap: "\<forall>y \<in> fst ` set (items ?root). k < y \<longrightarrow> (\<exists>e. vi_blockEnd s = Some e \<and> e \<le> y)"
    using ok k(1) by (auto simp: vi_ok_def)
  have srt: "sorted_items (items ?root)" using io by (simp add: is_ok_def)
  obtain t0 p0 where lo: "locate k ?root [] = Some (t0, p0)" using locate_finds [OF kin] by fastforce
  then have at0: "plug t0 p0 = ?root" "t0 \<noteq> Leaf" "n_data t0 = k" using locate_sound [OF lo] by auto
  have ne: "?root \<noteq> Leaf" using kin by auto
  obtain d t p where f: "finger True t0 p0 = (d, t, p)" using prod_cases3 by blast
  have g: "plug t p = ?root" "t \<noteq> Leaf" "child t d = Leaf"
    "litems 0 (down_frame t d # p) = before (t0, p0) @ [here (t0, p0)]"
    using finger_right [OF at0(2) f] at0(1) by auto
  have its: "items ?root = (before (t0, p0) @ [here (t0, p0)]) @ ritems 0 (down_frame t d # p)"
    using items_plug [of Leaf "down_frame t d # p"] plug_child_hole [OF g(2,3)] g(1,4) by simp
  have hk: "fst (here (t0, p0)) = k" using at0(3) by (simp add: here_def)
  have low: "\<forall>y \<in> set (litems 0 (down_frame t d # p)). fst y < data"
    using srt k(2) hk unfolding g(4) its sorted_items_append by (auto simp: sorted_items_Cons)
  have "\<forall>y \<in> set (ritems 0 (down_frame t d # p)). k < fst y"
    using srt hk unfolding its sorted_items_append by auto
  then have high: "\<forall>y \<in> set (ritems 0 (down_frame t d # p)). data < fst y"
    using gap old unfolding its by (force split: option.splits)
  have search: "insert_search data ?root [] = Attach d t p"
    using gap_is_found [OF g(2,3) _ low high] srt g(1) by simp
  have num: "is_find ?root data = None" using find_search [OF ne, of data "[]"] search by (simp add: is_find_def)
  obtain root' where r: "is_insert ?root data m rep = Inr root'"
    "attach_after True t0 p0 data m (vi_blockEnd s) s =
      Inr (s\<lparr>vi_root := root', vi_num_inserted := vi_num_inserted s + 1, vi_blockStart := Some data, vi_blockEnd := vi_blockEnd s\<rparr>)"
    using attach_after_ok [OF io f search ne] by blast
  have "\<forall>y \<in> fst ` set (items ?root). data < y \<longrightarrow> (\<exists>e. vi_blockEnd s = Some e \<and> e \<le> y)" using gap k(2) by force
  then show ?thesis
    using old lo k(1) num r vi_ok_next [OF io r(1) _ _ _ ] by (simp add: vector_step_def)
qed

lemma vector_step_ok:
  fixes s :: "('a::linorder, 'm::ab_group_add) vector_insert"
  assumes ok: "vi_ok s" and nx: "vi_next data s"
  shows "\<exists>s'. vector_step rep (data, m) s = Inr s' \<and> is_insert (vi_root s) data m rep = Inr (vi_root s') \<and>
    vi_num_inserted s' = vi_num_inserted s + (if rep \<or> is_find (vi_root s) data = None then 1 else 0) \<and>
    vi_blockStart s' = Some data \<and> vi_ok s'"
proof (cases "vi_blockStart s = None \<or> (case vi_blockEnd s of None \<Rightarrow> False | Some e \<Rightarrow> e \<le> data)")
  case True
  show ?thesis
  proof (cases "vi_root s = Leaf")
    case leaf: True
    then show ?thesis using True
      by (auto simp: vector_step_def is_insert_def is_find_def vi_ok_def is_ok_def sorted_items_def)
  next
    case False
    have "is_ok (vi_root s)" using ok by (simp add: vi_ok_def)
    from step_descends [OF this False True] show ?thesis .
  qed
next
  case False
  then obtain k where "vi_blockStart s = Some k" by auto
  then show ?thesis using step_follows [OF ok, of k data] nx False by (simp add: vi_next_def)
qed

lemma vector_loop_each:
  fixes s :: "('a::linorder, 'm::ab_group_add) vector_insert"
  assumes "vi_ok s" and "sorted_items xs" and "\<forall>x \<in> set xs. vi_next (fst x) s"
  shows "\<exists>s'. vector_loop rep xs s = Inr s' \<and> vi_ok s' \<and>
    insert_each rep xs (vi_num_inserted s, vi_root s) = Inr (vi_num_inserted s', vi_root s')"
  using assms
proof (induction xs arbitrary: s)
  case (Cons x xs)
  obtain data m where x: "x = (data, m)" by fastforce
  obtain s' where s': "vector_step rep (data, m) s = Inr s'" "is_insert (vi_root s) data m rep = Inr (vi_root s')"
    "vi_num_inserted s' = vi_num_inserted s + (if rep \<or> is_find (vi_root s) data = None then 1 else 0)"
    "vi_blockStart s' = Some data" "vi_ok s'"
    using vector_step_ok [OF Cons.prems(1), of data rep m] Cons.prems(3) x by auto
  have "sorted_items xs" "\<forall>y \<in> set xs. vi_next (fst y) s'"
    using Cons.prems(2) s'(4) x by (auto simp: sorted_items_Cons vi_next_def)
  from Cons.IH [OF s'(5) this] s' x show ?case by auto
qed simp

lemma insert_each_items:
  fixes t :: "('a::linorder, 'm::ab_group_add) is_tree"
  assumes "is_ok t" and "insert_each rep xs (n, t) = Inr (n', t')"
  shows "is_ok t' \<and> items t' = fold (\<lambda>(x, m). ins_items x m rep) xs (items t)"
  using assms
proof (induction rep xs "(n, t)" arbitrary: n t rule: insert_each.induct)
  case (2 rep x m xs n t)
  obtain t1 where "is_insert t x m rep = Inr t1" "is_ok t1" "items t1 = ins_items x m rep (items t)"
    using is_insert_ok [OF "2.prems"(1)] by blast
  with 2 show ?case by auto
qed simp

subsection \<open>Correctness\<close>

text \<open>
  Property C27: inserting a vector in increasing order into a well-formed set makes the same tree, with the same count, as inserting
  its items one after the other from the root; no step reaches a null pointer, and the result is well formed and holds the
  items added in order.
\<close>

theorem insert_vector_is_insert_each:
  fixes root :: "('a::linorder, 'm::ab_group_add) is_tree"
  assumes "is_ok root" and "sorted_items xs"
  shows "\<exists>n t. insert_vector root xs rep = Inr (n, t) \<and> insert_each rep xs (0, root) = Inr (n, t) \<and>
    is_ok t \<and> items t = fold (\<lambda>(x, m). ins_items x m rep) xs (items root)"
proof -
  let ?s = "\<lparr>vi_root = root, vi_num_inserted = 0, vi_blockStart = None, vi_blockEnd = None\<rparr>"
  have "vi_ok ?s" "\<forall>x \<in> set xs. vi_next (fst x) ?s" using assms(1) by (simp_all add: vi_ok_def vi_next_def)
  then obtain s' where "vector_loop rep xs ?s = Inr s'" "insert_each rep xs (0, root) = Inr (vi_num_inserted s', vi_root s')"
    using vector_loop_each [OF _ assms(2)] by fastforce
  then show ?thesis using insert_each_items [OF assms(1)] by (auto simp: insert_vector_def)
qed

theorem insert_vector_is_insert_each_witness:
  "\<exists>n t. insert_vector right_spine [(5, 3), (15, 1), (20, 9), (40, 2 :: int)] True = Inr (n, t) \<and> is_ok t \<and>
     items t = [(5 :: int, 3), (10, 2), (15, 1), (20, 9), (40, 2)]"
proof -
  have "is_ok right_spine" "sorted_items [(5 :: int, 3), (15, 1), (20, 9), (40, 2 :: int)]"
    by (simp_all add: right_spine_def is_ok_def sorted_items_def)
  from insert_vector_is_insert_each [OF this, of True] show ?thesis by (auto simp: right_spine_def)
qed

text \<open>The comment on \<open>insert\<close> does not ask for an order; out of order, or with an item twice, the set's own order is lost.\<close>

lemma insert_vector_unsorted:
  "insert_vector Leaf [(2 :: int, 1 :: int), (1, 1)] rep = Inr (2, Node Leaf 2 1 2 (Node Leaf 1 0 1 Leaf))"
  "insert_vector Leaf [(2 :: int, 1 :: int), (2, 1)] rep = Inr (2, Node Leaf 2 1 2 (Node Leaf 2 0 1 Leaf))"
  by (simp_all add: insert_vector_def vector_step_def attach_after_def insert_retrace.simps add_total_def)

end
