(* ===== verification/Network_Address.thy ===== *)
theory Network_Address
  imports Flow_Util
begin

text \<open>
  Network addresses (\<open>IPAddress\<close>, \<open>NetworkAddress\<close> and \<open>NetworkAddressList\<close> of \<open>src/flow/network.h\<close> and \<open>network.cpp\<close>): their text
  and its parser, their order and hash, and how they are serialized in both formats.  The text form of an IPv6 address is
  Boost's: \<open>v6_to_string\<close> stands for \<open>address_v6::to_string\<close> and \<open>from_string\<close> for \<open>address::from_string\<close>, which gives the 32 bits of an
  IPv4 address or the 16 bytes of an IPv6 address, or throws.
\<close>

subsection \<open>IP addresses\<close>

datatype ip_address = V4 u32 | V6 "u8 list"

fun ip_isV6 :: "ip_address \<Rightarrow> bool" where
  "ip_isV6 (V4 _) = False"
| "ip_isV6 (V6 _) = True"

definition ip_default :: ip_address where
  "ip_default = V4 0"

fun ip_eq :: "ip_address \<Rightarrow> ip_address \<Rightarrow> bool" where
  "ip_eq (V4 a) (V4 b) \<longleftrightarrow> a = b"
| "ip_eq (V6 a) (V6 b) \<longleftrightarrow> a = b"
| "ip_eq _ _ \<longleftrightarrow> False"

definition ip_ne :: "ip_address \<Rightarrow> ip_address \<Rightarrow> bool" where
  "ip_ne a b \<longleftrightarrow> \<not> ip_eq a b"

text \<open>\<open>std::array\<close> compares its bytes in order, as strings do.\<close>

fun ip_less :: "ip_address \<Rightarrow> ip_address \<Rightarrow> bool" where
  "ip_less (V4 a) (V4 b) \<longleftrightarrow> a < b"
| "ip_less (V6 a) (V6 b) \<longleftrightarrow> string_less a b"
| "ip_less (V4 _) (V6 _) \<longleftrightarrow> True"
| "ip_less (V6 _) (V4 _) \<longleftrightarrow> False"

fun ip_isValid :: "ip_address \<Rightarrow> bool" where
  "ip_isValid (V4 a) \<longleftrightarrow> a \<noteq> 0"
| "ip_isValid (V6 bs) \<longleftrightarrow> (\<exists>part \<in> set bs. part \<noteq> 0)"

text \<open>The conversion \<open>%d\<close> of a number that is not negative.\<close>

fun format_d :: "nat \<Rightarrow> bytes" where
  "format_d n = (if n < 10 then [48 + word_of_nat n] else format_d (n div 10) @ [48 + word_of_nat (n mod 10)])"

declare format_d.simps [simp del]

definition octet :: "nat \<Rightarrow> u32 \<Rightarrow> nat" where
  "octet n a = unat (drop_bit n a AND 0xff)"

definition format_v4 :: "u32 \<Rightarrow> bytes" where
  "format_v4 a = format_d (octet 24 a) @ 46 # format_d (octet 16 a) @ 46 # format_d (octet 8 a) @ 46 # format_d (octet 0 a)"

fun ip_toString :: "(u8 list \<Rightarrow> bytes) \<Rightarrow> ip_address \<Rightarrow> bytes" where
  "ip_toString v6_to_string (V4 a) = format_v4 a"
| "ip_toString v6_to_string (V6 bs) = v6_to_string bs"

definition ip_parse :: "(bytes \<Rightarrow> (u32 + u8 list) option) \<Rightarrow> bytes \<Rightarrow> ip_address option" where
  "ip_parse from_string str =
     (case from_string str of None \<Rightarrow> None | Some (Inl a) \<Rightarrow> Some (V4 a) | Some (Inr bs) \<Rightarrow> Some (V6 bs))"

subsection \<open>Network addresses\<close>

record network_address =
  na_ip :: ip_address
  na_port :: u16
  na_flags :: u16

definition FLAG_PRIVATE :: u16 where "FLAG_PRIVATE = 1"
definition FLAG_TLS :: u16 where "FLAG_TLS = 2"

definition na_default :: network_address where
  "na_default = \<lparr>na_ip = V4 0, na_port = 0, na_flags = FLAG_PRIVATE\<rparr>"

definition na_new :: "ip_address \<Rightarrow> u16 \<Rightarrow> bool \<Rightarrow> bool \<Rightarrow> network_address" where
  "na_new address port isPublic isTLS =
     \<lparr>na_ip = address, na_port = port,
      na_flags = (if isPublic then 0 else FLAG_PRIVATE) OR (if isTLS then FLAG_TLS else 0)\<rparr>"

definition na_eq :: "network_address \<Rightarrow> network_address \<Rightarrow> bool" where
  "na_eq l r \<longleftrightarrow> ip_eq (na_ip l) (na_ip r) \<and> na_port l = na_port r \<and> na_flags l = na_flags r"

definition na_ne :: "network_address \<Rightarrow> network_address \<Rightarrow> bool" where
  "na_ne l r \<longleftrightarrow> ip_ne (na_ip l) (na_ip r) \<or> na_port l \<noteq> na_port r \<or> na_flags l \<noteq> na_flags r"

definition na_less :: "network_address \<Rightarrow> network_address \<Rightarrow> bool" where
  "na_less l r \<longleftrightarrow>
     (if na_flags l \<noteq> na_flags r then na_flags l < na_flags r
      else if ip_ne (na_ip l) (na_ip r) then ip_less (na_ip l) (na_ip r)
      else na_port l < na_port r)"

definition na_isValid :: "network_address \<Rightarrow> bool" where
  "na_isValid a \<longleftrightarrow> ip_isValid (na_ip a) \<or> na_port a \<noteq> 0"

definition na_isPublic :: "network_address \<Rightarrow> bool" where
  "na_isPublic a \<longleftrightarrow> \<not> na_flags a AND FLAG_PRIVATE \<noteq> 0"

definition na_isTLS :: "network_address \<Rightarrow> bool" where
  "na_isTLS a \<longleftrightarrow> na_flags a AND FLAG_TLS \<noteq> 0"

definition formatIpPort :: "(u8 list \<Rightarrow> bytes) \<Rightarrow> ip_address \<Rightarrow> u16 \<Rightarrow> bytes" where
  "formatIpPort v6_to_string ip port =
     (let text = c_str (ip_toString v6_to_string ip) in if ip_isV6 ip then 91 # text @ [93] else text)
       @ 58 # format_d (unat port)"

definition na_toString :: "(u8 list \<Rightarrow> bytes) \<Rightarrow> network_address \<Rightarrow> bytes" where
  "na_toString v6_to_string a =
     formatIpPort v6_to_string (na_ip a) (na_port a) @ (if na_isTLS a then lit '':tls'' else [])"

text \<open>\<open>std::hash\<close>: the last six bytes of an IPv6 address are read as 16-bit numbers of the machine.\<close>

definition u16_at :: "bool \<Rightarrow> u8 list \<Rightarrow> nat \<Rightarrow> u64" where
  "u16_at little bs i =
     (let a = ucast (bs ! (2 * i)); b = ucast (bs ! (2 * i + 1)) in if little then push_bit 8 b OR a else push_bit 8 a OR b)"

definition na_hash :: "bool \<Rightarrow> network_address \<Rightarrow> u64" where
  "na_hash little a =
     (let result = (case na_ip a of
                      V6 bs \<Rightarrow> push_bit 32 (u16_at little bs 5) OR push_bit 16 (u16_at little bs 6) OR u16_at little bs 7
                    | V4 v \<Rightarrow> ucast v)
      in push_bit 16 result + ucast (na_port a))"

subsection \<open>Parsing\<close>

text \<open>\<open>std::stoi\<close> throws exceptions of the standard library; arithmetic on \<open>int\<close> that overflows is undefined.\<close>

datatype address_fault = Flow_error u16 | Std_invalid_argument | Std_out_of_range | Undefined_arithmetic

type_synonym 'a parsed = "address_fault + 'a"

definition is_int :: "int \<Rightarrow> bool" where
  "is_int v \<longleftrightarrow> - (2 ^ 31) \<le> v \<and> v < 2 ^ 31"

text \<open>White space, a sign and digits: the number, and what follows.\<close>

definition scan_d :: "bytes \<Rightarrow> (int \<times> bytes) option" where
  "scan_d s =
     (let (neg, s1) = scan_sign (dropWhile isspace s); ds = takeWhile isdigit s1; n = int (num_val 10 ds)
      in if ds = [] then None else Some (if neg then - n else n, dropWhile isdigit s1))"

definition stoi :: "bytes \<Rightarrow> int parsed" where
  "stoi s = (case scan_d (c_str s) of
     None \<Rightarrow> Inl Std_invalid_argument
   | Some (v, _) \<Rightarrow> if is_int v then Inr v else Inl Std_out_of_range)"

definition scan_char :: "u8 \<Rightarrow> bytes \<Rightarrow> bytes option" where
  "scan_char c s = (case s of [] \<Rightarrow> None | x # xs \<Rightarrow> if x = c then Some xs else None)"

text \<open>\<open>sscanf(s, "%d.%d.%d.%d:%d%n", ...)\<close>: the five numbers and the count, or \<open>None\<close> for fewer than five conversions.\<close>

definition sscanf_address :: "bytes \<Rightarrow> (int list \<times> nat) option" where
  "sscanf_address f =
     (let s = c_str f in
      Option.bind (scan_d s) (\<lambda>(a, s1). Option.bind (scan_char 46 s1) (\<lambda>s1.
      Option.bind (scan_d s1) (\<lambda>(b, s2). Option.bind (scan_char 46 s2) (\<lambda>s2.
      Option.bind (scan_d s2) (\<lambda>(c, s3). Option.bind (scan_char 46 s3) (\<lambda>s3.
      Option.bind (scan_d s3) (\<lambda>(d, s4). Option.bind (scan_char 58 s4) (\<lambda>s4.
      Option.bind (scan_d s4) (\<lambda>(port, s5). Some ([a, b, c, d, port], length s - length s5)))))))))))"

text \<open>\<open>a << k\<close> on an \<open>int\<close>: defined when no bit leaves the 32 of the unsigned type.\<close>

definition shl_int :: "int \<Rightarrow> nat \<Rightarrow> int parsed" where
  "shl_int a k = (if a < 0 \<or> a * 2 ^ k \<ge> 2 ^ 32 then Inl Undefined_arithmetic else Inr (sint (word_of_int (a * 2 ^ k) :: u32)))"

definition add_int :: "int \<Rightarrow> int \<Rightarrow> int parsed" where
  "add_int a b = (if is_int (a + b) then Inr (a + b) else Inl Undefined_arithmetic)"

definition then_parse :: "'a parsed \<Rightarrow> ('a \<Rightarrow> 'b parsed) \<Rightarrow> 'b parsed" where
  "then_parse r f = (case r of Inl e \<Rightarrow> Inl e | Inr x \<Rightarrow> f x)"

definition ints_to_v4 :: "int \<Rightarrow> int \<Rightarrow> int \<Rightarrow> int \<Rightarrow> u32 parsed" where
  "ints_to_v4 a b c d =
     then_parse (shl_int a 24) (\<lambda>a1. then_parse (shl_int b 16) (\<lambda>b1. then_parse (shl_int c 8) (\<lambda>c1.
     then_parse (add_int a1 b1) (\<lambda>ab. then_parse (add_int ab c1) (\<lambda>abc. then_parse (add_int abc d) (\<lambda>sum.
       Inr (word_of_int sum)))))))"

text \<open>\<open>parse\<close> once the suffix \<open>:tls\<close> has been taken off.\<close>

definition na_parse_plain :: "(bytes \<Rightarrow> (u32 + u8 list) option) \<Rightarrow> bool \<Rightarrow> bytes \<Rightarrow> network_address parsed" where
  "na_parse_plain from_string isTLS f =
     (if f ! 0 = 91
      then let addrEnd = length (takeWhile (\<lambda>b. b \<noteq> 93) f)
           in if addrEnd = length f \<or> addrEnd + 1 = length f \<or> f ! (addrEnd + 1) \<noteq> 58
              then Inl (Flow_error connection_string_invalid)
              else then_parse (stoi (drop (addrEnd + 2) f)) (\<lambda>port.
                   case ip_parse from_string (take (addrEnd - 1) (drop 1 f)) of
                     None \<Rightarrow> Inl (Flow_error connection_string_invalid)
                   | Some addr \<Rightarrow> Inr (na_new addr (word_of_int port) True isTLS))
      else case sscanf_address f of
             Some ([a, b, c, d, port], count) \<Rightarrow>
               if \<not> list_all is_int [a, b, c, d, port] then Inl Undefined_arithmetic
               else if count \<noteq> length f then Inl (Flow_error connection_string_invalid)
               else then_parse (ints_to_v4 a b c d) (\<lambda>v. Inr (na_new (V4 v) (word_of_int port) True isTLS))
           | _ \<Rightarrow> Inl (Flow_error connection_string_invalid))"

definition na_parse :: "(bytes \<Rightarrow> (u32 + u8 list) option) \<Rightarrow> bytes \<Rightarrow> network_address parsed" where
  "na_parse from_string s =
     (if s = [] then Inl (Flow_error connection_string_invalid)
      else
        let isTLS = (length s > 4 \<and> c_str (drop (length s - 4) s) = lit '':tls'')
        in na_parse_plain from_string isTLS (if isTLS then take (length s - 4) s else s))"

function na_parseList :: "(bytes \<Rightarrow> (u32 + u8 list) option) \<Rightarrow> bytes \<Rightarrow> network_address list parsed" where
  "na_parseList from_string addrs =
     then_parse (na_parse from_string (takeWhile (\<lambda>b. b \<noteq> 44) addrs)) (\<lambda>a.
       case dropWhile (\<lambda>b. b \<noteq> 44) addrs of
         [] \<Rightarrow> Inr [a]
       | _ # rest \<Rightarrow> then_parse (na_parseList from_string rest) (\<lambda>coord. Inr (a # coord)))"
  by pat_completeness auto
termination
proof (relation "measure (\<lambda>(_, s). length s)")
  fix addrs rest :: bytes and c
  assume "dropWhile (\<lambda>b. b \<noteq> 44) addrs = c # rest"
  then have "length (c # rest) \<le> length addrs" using length_dropWhile_le by metis
  then show "((from_string, rest), (from_string, addrs)) \<in> measure (\<lambda>(_, s). length s)"
    for from_string :: "bytes \<Rightarrow> (u32 + u8 list) option" by simp
qed simp

declare na_parseList.simps [simp del]

text \<open>Vectors of addresses in a trace event.\<close>

fun with_spaces :: "bytes \<Rightarrow> bytes list \<Rightarrow> bytes" where
  "with_spaces space [] = []"
| "with_spaces space (x # xs) = space @ x @ with_spaces [32] xs"

definition toIPVectorString_v4 :: "u32 list \<Rightarrow> bytes" where
  "toIPVectorString_v4 ips = with_spaces [] (map format_v4 ips)"

definition toIPVectorString :: "(u8 list \<Rightarrow> bytes) \<Rightarrow> ip_address list \<Rightarrow> bytes" where
  "toIPVectorString v6_to_string ips = with_spaces [] (map (\<lambda>ip. c_str (ip_toString v6_to_string ip)) ips)"

subsection \<open>Lists of addresses\<close>

text \<open>The comparisons of \<open>Optional\<close>.\<close>

fun optional_eq :: "('a \<Rightarrow> 'a \<Rightarrow> bool) \<Rightarrow> 'a option \<Rightarrow> 'a option \<Rightarrow> bool" where
  "optional_eq eq (Some a) (Some b) \<longleftrightarrow> eq a b"
| "optional_eq eq None None \<longleftrightarrow> True"
| "optional_eq eq _ _ \<longleftrightarrow> False"

fun optional_less :: "('a \<Rightarrow> 'a \<Rightarrow> bool) \<Rightarrow> 'a option \<Rightarrow> 'a option \<Rightarrow> bool" where
  "optional_less lt (Some a) (Some b) \<longleftrightarrow> lt a b"
| "optional_less lt None (Some b) \<longleftrightarrow> True"
| "optional_less lt _ None \<longleftrightarrow> False"

record network_address_list =
  nal_address :: network_address
  nal_secondaryAddress :: "network_address option"

definition nal_eq :: "network_address_list \<Rightarrow> network_address_list \<Rightarrow> bool" where
  "nal_eq l r \<longleftrightarrow> na_eq (nal_address l) (nal_address r) \<and> optional_eq na_eq (nal_secondaryAddress l) (nal_secondaryAddress r)"

definition nal_less :: "network_address_list \<Rightarrow> network_address_list \<Rightarrow> bool" where
  "nal_less l r \<longleftrightarrow>
     (if na_ne (nal_address l) (nal_address r) then na_less (nal_address l) (nal_address r)
      else optional_less na_less (nal_secondaryAddress l) (nal_secondaryAddress r))"

definition nal_toString :: "(u8 list \<Rightarrow> bytes) \<Rightarrow> network_address_list \<Rightarrow> bytes" where
  "nal_toString v6_to_string l =
     (case nal_secondaryAddress l of
        None \<Rightarrow> na_toString v6_to_string (nal_address l)
      | Some a \<Rightarrow> na_toString v6_to_string (nal_address l) @ lit '', '' @ na_toString v6_to_string a)"

subsection \<open>Serialization\<close>

definition save_IPAddress :: "'w writer_ops \<Rightarrow> ip_address \<Rightarrow> 'w save_action" where
  "save_IPAddress ops ip = save_class ops
     (case ip of
        V4 a \<Rightarrow> then_save (save_bool ops False) (save_item ops a)
      | V6 bs \<Rightarrow> then_save (save_bool ops True) (save_array ops (save_item ops) bs))"

definition load_IPAddress :: "'r reader_ops \<Rightarrow> (ip_address, 'r) load_action" where
  "load_IPAddress ops = load_class ops (then_load (load_bool ops) (\<lambda>isV6addr.
     if isV6addr then then_load (load_array ops 16 (load_item ops)) (\<lambda>bs. return_load (V6 bs))
     else then_load (load_item ops) (\<lambda>a. return_load (V4 a))))"

text \<open>The first version that writes an \<open>IPAddress\<close> and not the 32 bits of an IPv4 address.\<close>

definition ipv6_version :: u64 where
  "ipv6_version = 0x0FDB00B061030001"

definition save_NetworkAddress :: "'w writer_ops \<Rightarrow> network_address \<Rightarrow> 'w save_action" where
  "save_NetworkAddress ops a = save_class ops
     (then_save (save_IPAddress ops (na_ip a)) (then_save (save_item ops (na_port a)) (save_item ops (na_flags a))))"

definition load_NetworkAddress :: "'r reader_ops \<Rightarrow> (network_address, 'r) load_action" where
  "load_NetworkAddress ops = load_class ops (\<lambda>r.
     if rd_protocolVersion ops r < ipv6_version
     then then_load (load_item ops) (\<lambda>ipV4. then_load (load_item ops) (\<lambda>port. then_load (load_item ops) (\<lambda>flags.
            return_load \<lparr>na_ip = V4 ipV4, na_port = port, na_flags = flags\<rparr>))) r
     else then_load (load_IPAddress ops) (\<lambda>ip. then_load (load_item ops) (\<lambda>port. then_load (load_item ops) (\<lambda>flags.
            return_load \<lparr>na_ip = ip, na_port = port, na_flags = flags\<rparr>))) r)"

definition save_NetworkAddressList :: "'w writer_ops \<Rightarrow> network_address_list \<Rightarrow> 'w save_action" where
  "save_NetworkAddressList ops l = save_class ops
     (then_save (save_NetworkAddress ops (nal_address l)) (save_Optional ops (save_NetworkAddress ops) (nal_secondaryAddress l)))"

definition load_NetworkAddressList :: "'r reader_ops \<Rightarrow> (network_address_list, 'r) load_action" where
  "load_NetworkAddressList ops = load_class ops
     (then_load (load_NetworkAddress ops) (\<lambda>a. then_load (load_Optional ops (load_NetworkAddress ops)) (\<lambda>s.
        return_load \<lparr>nal_address = a, nal_secondaryAddress = s\<rparr>)))"

subsection \<open>Numbers\<close>

lemma digit_props:
  assumes "n < 10"
  shows "isdigit (48 + word_of_nat n)" and "digit_val (48 + word_of_nat n) = n"
proof -
  have "unat (48 + word_of_nat n :: u8) = 48 + n" using assms by (simp add: unat_word_ariths unat_of_nat)
  then show "isdigit (48 + word_of_nat n)" "digit_val (48 + word_of_nat n) = n"
    using assms by (simp_all add: isdigit_def digit_val_def word_le_nat_alt)
qed

lemma format_d_ok: "(\<forall>d \<in> set (format_d n). isdigit d) \<and> format_d n \<noteq> [] \<and> num_val 10 (format_d n) = n"
proof (induction n rule: format_d.induct)
  case (1 n)
  show ?case
  proof (cases "n < 10")
    case True
    then show ?thesis using digit_props [of n] by (simp add: format_d.simps [of n] num_val_def)
  next
    case False
    then show ?thesis
      using "1.IH" digit_props [of "n mod 10"] by (subst (1 2 3) format_d.simps) (auto simp: num_val_snoc)
  qed
qed

lemma scan_d_format:
  assumes "u = [] \<or> \<not> isdigit (hd u)"
  shows "scan_d (format_d n @ u) = Some (int n, u)"
proof -
  have dg: "\<forall>d \<in> set (format_d n). isdigit d" and nv: "num_val 10 (format_d n) = n" using format_d_ok by auto
  obtain c cs where c: "format_d n = c # cs" "isdigit c" using format_d_ok [of n] by (cases "format_d n") auto
  have "\<not> isspace c \<and> c \<noteq> 45 \<and> c \<noteq> 43" using c(2) by (auto simp: isdigit_def isspace_def word_le_nat_alt)
  then have "scan_sign (dropWhile isspace (format_d n @ u)) = (False, format_d n @ u)"
    using c(1) by (simp add: scan_sign_def)
  then show ?thesis
    using takeWhile_digits [OF dg assms] c(1) nv by (simp add: scan_d_def)
qed

lemma digits_no: "(\<forall>d \<in> set ds. isdigit d) \<Longrightarrow> \<not> isdigit c \<Longrightarrow> c \<notin> set ds"
  by blast

lemma not_digits: "\<not> isdigit 0" "\<not> isdigit 44" "\<not> isdigit 46" "\<not> isdigit 58" "\<not> isdigit 91" "\<not> isdigit 93" "\<not> isdigit 115"
  by (simp_all add: isdigit_def)

lemma format_d_no: "\<not> isdigit c \<Longrightarrow> c \<notin> set (format_d n)"
  using format_d_ok by blast

subsection \<open>Reading what was printed\<close>

lemma octet_eq: "octet n a = unat a div 2 ^ n mod 256"
proof -
  have "unat (0xff :: u32) + 1 = 2 ^ 8" by simp
  then have "unat (drop_bit n a AND 0xff) = unat (drop_bit n a) mod 2 ^ 8" by (rule unat_and_mask)
  then show ?thesis unfolding octet_def unat_drop_bit_eq by (simp add: drop_bit_eq_div)
qed

lemma shl_octet:
  assumes "0 \<le> x" and "x * 2 ^ k < 2 ^ 32"
  shows "shl_int x k = Inr (if x * 2 ^ k < 2 ^ 31 then x * 2 ^ k else x * 2 ^ k - 2 ^ 32)"
proof -
  obtain m where m: "x * 2 ^ k = int m" using assms(1) by (metis nonneg_int_cases zero_le_mult_iff zero_le_numeral zero_le_power)
  then have "unat (word_of_int (x * 2 ^ k) :: u32) = m" using assms(2) by (simp add: unsigned_of_nat take_bit_nat_eq_self)
  then show ?thesis using assms m by (simp add: shl_int_def sint_u32)
qed

lemma octets_sum:
  assumes "u < (2 :: nat) ^ 32"
  shows "u = u div 2 ^ 24 mod 256 * 2 ^ 24 + u div 2 ^ 16 mod 256 * 2 ^ 16 + u div 2 ^ 8 mod 256 * 2 ^ 8 + u mod 256"
proof -
  define q1 q2 q3 where q: "q1 = u div 256" "q2 = q1 div 256" "q3 = q2 div 256"
  have d: "u div 2 ^ 8 = q1" "u div 2 ^ 16 = q2" "u div 2 ^ 24 = q3" by (simp_all add: q div_mult2_eq [symmetric])
  have "q3 < 256" using assms by (simp add: q div_mult2_eq [symmetric] less_mult_imp_div_less)
  then have "q3 mod 256 = q3" by simp
  moreover have "u = q1 * 256 + u mod 256" "q1 = q2 * 256 + q1 mod 256" "q2 = q3 * 256 + q2 mod 256"
    by (simp_all add: q)
  ultimately show ?thesis unfolding d by simp
qed

lemma ints_to_v4_octets:
  "ints_to_v4 (int (octet 24 a)) (int (octet 16 a)) (int (octet 8 a)) (int (octet 0 a)) = Inr a"
proof -
  define u where "u = unat a"
  have u: "u < 2 ^ 32" using unsigned_less [where 'a = nat, of a] by (simp add: u_def)
  define A B C D where abcd: "A = int (octet 24 a)" "B = int (octet 16 a)" "C = int (octet 8 a)" "D = int (octet 0 a)"
  have o: "octet 24 a = u div 2 ^ 24 mod 256" "octet 16 a = u div 2 ^ 16 mod 256"
    "octet 8 a = u div 2 ^ 8 mod 256" "octet 0 a = u mod 256"
    by (simp_all add: octet_eq u_def)
  have r: "0 \<le> A" "A < 256" "0 \<le> B" "B < 256" "0 \<le> C" "C < 256" "0 \<le> D" "D < 256" by (simp_all add: abcd o)
  have sum: "A * 2 ^ 24 + B * 2 ^ 16 + C * 2 ^ 8 + D = int u"
  proof -
    have "u = u div 2 ^ 24 mod 256 * 2 ^ 24 + u div 2 ^ 16 mod 256 * 2 ^ 16 + u div 2 ^ 8 mod 256 * 2 ^ 8 + u mod 256"
      by (rule octets_sum [OF u])
    then have "int u = int (u div 2 ^ 24 mod 256 * 2 ^ 24 + u div 2 ^ 16 mod 256 * 2 ^ 16 + u div 2 ^ 8 mod 256 * 2 ^ 8 + u mod 256)"
      by (rule arg_cong)
    then show ?thesis unfolding abcd o by simp
  qed
  have w: "word_of_int (int u) = a" "word_of_int (int u - 2 ^ 32) = a"
    by (simp_all add: u_def)
  have B: "shl_int B 16 = Inr (B * 2 ^ 16)" and C: "shl_int C 8 = Inr (C * 2 ^ 8)"
    using shl_octet [of B 16] shl_octet [of C 8] r by simp_all
  have A: "shl_int A 24 = Inr (if A < 128 then A * 2 ^ 24 else A * 2 ^ 24 - 2 ^ 32)"
    using shl_octet [of A 24] r by simp
  show ?thesis
  proof (cases "A < 128")
    case True
    then have "ints_to_v4 A B C D = Inr (word_of_int (A * 2 ^ 24 + B * 2 ^ 16 + C * 2 ^ 8 + D))"
      using r by (simp add: ints_to_v4_def A B C then_parse_def add_int_def is_int_def)
    then have "ints_to_v4 A B C D = Inr a" unfolding sum w .
    then show ?thesis by (simp only: abcd)
  next
    case False
    then have "ints_to_v4 A B C D = Inr (word_of_int (A * 2 ^ 24 + B * 2 ^ 16 + C * 2 ^ 8 + D - 2 ^ 32))"
      using r by (simp add: ints_to_v4_def A B C then_parse_def add_int_def is_int_def algebra_simps)
    then have "ints_to_v4 A B C D = Inr a" unfolding sum w .
    then show ?thesis by (simp only: abcd)
  qed
qed

lemma scan_char_ok: "scan_char c (c # s) = Some s"
  by (simp add: scan_char_def)

lemma sscanf_address_ok:
  "sscanf_address (format_v4 a @ 58 # format_d n) =
     Some ([int (octet 24 a), int (octet 16 a), int (octet 8 a), int (octet 0 a), int n], length (format_v4 a @ 58 # format_d n))"
proof -
  have "c_str (format_v4 a @ 58 # format_d n) = format_v4 a @ 58 # format_d n"
    using format_d_no [OF not_digits(1)] by (intro c_str_id) (auto simp: format_v4_def)
  moreover note sc = scan_d_format [where u = "46 # _"] scan_d_format [where u = "58 # _"] scan_d_format [where u = "[]", simplified]
  ultimately show ?thesis
    by (simp add: sscanf_address_def format_v4_def Let_def sc not_digits scan_char_ok)
qed

lemma stoi_format_d:
  assumes "n < 2 ^ 31"
  shows "stoi (format_d n) = Inr (int n)"
proof -
  have "c_str (format_d n) = format_d n" using format_d_no [OF not_digits(1)] by (rule c_str_id)
  then show ?thesis using scan_d_format [of "[]" n] assms by (simp add: stoi_def is_int_def)
qed

text \<open>The suffix \<open>:tls\<close> is found exactly when it was printed, because a port ends in a digit.\<close>

lemma tls_suffix:
  fixes t :: bytes
  shows "length t > 0 \<Longrightarrow> length (t @ lit '':tls'') > 4 \<and> c_str (drop (length (t @ lit '':tls'') - 4) (t @ lit '':tls'')) = lit '':tls''"
    and "t \<noteq> [] \<Longrightarrow> isdigit (last t) \<Longrightarrow> \<not> (length t > 4 \<and> c_str (drop (length t - 4) t) = lit '':tls'')"
proof -
  show "length (t @ lit '':tls'') > 4 \<and> c_str (drop (length (t @ lit '':tls'') - 4) (t @ lit '':tls'')) = lit '':tls''"
    if "length t > 0"
    using that by (simp add: lit_def c_str_def)
  show "\<not> (length t > 4 \<and> c_str (drop (length t - 4) t) = lit '':tls'')" if t: "t \<noteq> []" "isdigit (last t)"
  proof
    let ?e = "drop (length t - 4) t"
    assume h: "length t > 4 \<and> c_str ?e = lit '':tls''"
    have "?e = takeWhile (\<lambda>b. b \<noteq> 0) ?e @ dropWhile (\<lambda>b. b \<noteq> 0) ?e" by simp
    moreover have "length ?e = 4" "length (lit '':tls'') = 4" using h by (auto simp: lit_def)
    ultimately have "?e = lit '':tls''" using h by (metis append_Nil2 append_eq_append_conv c_str_def)
    moreover have "last ?e = last t" using h by (intro last_drop) linarith
    ultimately have "last t = 115" by (simp add: lit_def)
    then show False using t(2) not_digits by simp
  qed
qed

text \<open>What is relied on of Boost: the text of an IPv6 address has no bracket, comma or zero byte, and is read back.\<close>

definition v6_text_ok :: "(u8 list \<Rightarrow> bytes) \<Rightarrow> (bytes \<Rightarrow> (u32 + u8 list) option) \<Rightarrow> ip_address \<Rightarrow> bool" where
  "v6_text_ok v6_to_string from_string ip \<longleftrightarrow>
     (case ip of
        V4 _ \<Rightarrow> True
      | V6 bs \<Rightarrow> 0 \<notin> set (v6_to_string bs) \<and> 44 \<notin> set (v6_to_string bs) \<and> 93 \<notin> set (v6_to_string bs) \<and>
          from_string (v6_to_string bs) = Some (Inr bs))"

lemma flags_tls: "a AND FLAG_TLS = (if a AND FLAG_TLS \<noteq> 0 then FLAG_TLS else 0)"
proof -
  have "bit (a AND 2) n \<longleftrightarrow> n = 1 \<and> bit a 1" for n by (auto simp: bit_simps)
  then have "a AND 2 = (if bit a 1 then 2 else 0)" by (intro bit_word_eqI) (auto simp: bit_simps)
  then show ?thesis by (simp add: FLAG_TLS_def)
qed

lemma format_v4_props: "format_v4 a \<noteq> []" "isdigit (hd (format_v4 a))" "44 \<notin> set (format_v4 a)" "0 \<notin> set (format_v4 a)"
proof -
  obtain c cs where "format_d (octet 24 a) = c # cs" "isdigit c" using format_d_ok [of "octet 24 a"] by (cases "format_d (octet 24 a)") auto
  then show "format_v4 a \<noteq> []" "isdigit (hd (format_v4 a))" by (simp_all add: format_v4_def)
  show "44 \<notin> set (format_v4 a)" "0 \<notin> set (format_v4 a)" using format_d_no not_digits by (simp_all add: format_v4_def)
qed

lemma formatIpPort_last: "formatIpPort ts ip port \<noteq> [] \<and> isdigit (last (formatIpPort ts ip port))"
proof -
  have "format_d (unat port) \<noteq> []" "isdigit (last (format_d (unat port)))" using format_d_ok last_in_set by blast+
  then show ?thesis by (simp add: formatIpPort_def Let_def)
qed

lemma na_parse_strip:
  assumes "t \<noteq> []" and "isdigit (last t)"
  shows "na_parse fs (t @ (if tls then lit '':tls'' else [])) = na_parse_plain fs tls t"
proof (cases tls)
  case True
  have "length (t @ lit '':tls'') - 4 = length t" by (simp add: lit_def)
  then show ?thesis using tls_suffix(1) [of t] assms(1) True by (simp add: na_parse_def Let_def)
next
  case False
  have "(length t > 4 \<and> c_str (drop (length t - 4) t) = lit '':tls'') = False" using tls_suffix(2) [OF assms] by blast
  then show ?thesis using False assms(1) unfolding na_parse_def by (simp only: Let_def if_False append_Nil2)
qed

lemma na_new_parsed: "na_new (na_ip a) (na_port a) True (na_isTLS a) = a\<lparr>na_flags := na_flags a AND FLAG_TLS\<rparr>"
  using flags_tls [of "na_flags a"] by (simp add: na_new_def na_isTLS_def)

lemma na_parse_bracket:
  assumes "93 \<notin> set xs"
  shows "na_parse_plain fs tls (91 # xs @ 93 # 58 # ds) =
    then_parse (stoi ds) (\<lambda>port.
      case ip_parse fs xs of
        None \<Rightarrow> Inl (Flow_error connection_string_invalid)
      | Some addr \<Rightarrow> Inr (na_new addr (word_of_int port) True tls))"
proof -
  have "x \<in> set xs \<Longrightarrow> x \<noteq> 93" for x using assms by auto
  then have tw: "takeWhile (\<lambda>b. b \<noteq> 93) (xs @ 93 # 58 # ds) = xs" by (simp add: takeWhile_append2)
  show ?thesis by (simp add: na_parse_plain_def tw nth_append)
qed

lemma na_roundtrip:
  assumes "v6_text_ok ts fs (na_ip a)"
  shows "na_parse fs (na_toString ts a) = Inr (a\<lparr>na_flags := na_flags a AND FLAG_TLS\<rparr>)"
proof -
  let ?t = "formatIpPort ts (na_ip a) (na_port a)"
  have port: "unat (na_port a) < 2 ^ 31" "word_of_int (int (unat (na_port a))) = na_port a"
    using unsigned_less [where 'a = nat, of "na_port a"] by simp_all
  note strip = na_parse_strip [OF formatIpPort_last [THEN conjunct1] formatIpPort_last [THEN conjunct2],
      of fs ts "na_ip a" "na_port a" "na_isTLS a"]
  have run: "na_parse fs (na_toString ts a) = na_parse_plain fs (na_isTLS a) ?t" by (simp only: na_toString_def strip)
  show ?thesis
  proof (cases "na_ip a")
    case (V4 v)
    have t: "?t = format_v4 v @ 58 # format_d (unat (na_port a))"
      using V4 format_v4_props(4) by (simp add: formatIpPort_def c_str_id)
    have "?t ! 0 \<noteq> 91"
      using format_v4_props(1,2) [of v] not_digits by (cases "format_v4 v") (auto simp: t)
    moreover have "0 \<le> uint (na_port a)" "uint (na_port a) < 2 ^ 16"
      using unsigned_less [where 'a = int, of "na_port a"] by simp_all
    then have "list_all is_int [int (octet 24 v), int (octet 16 v), int (octet 8 v), int (octet 0 v), int (unat (na_port a))]"
      by (simp add: is_int_def octet_eq less_trans [OF mod_less_divisor] order.trans [OF _ \<open>0 \<le> uint (na_port a)\<close>])
    ultimately have "na_parse fs (na_toString ts a) = Inr (na_new (V4 v) (na_port a) True (na_isTLS a))"
      using port(2) unfolding run t na_parse_plain_def sscanf_address_ok then_parse_def by (simp add: ints_to_v4_octets)
    then show ?thesis using na_new_parsed [of a] V4 by simp
  next
    case (V6 bs)
    have tx: "0 \<notin> set (ts bs)" "93 \<notin> set (ts bs)" "fs (ts bs) = Some (Inr bs)" using assms V6 by (simp_all add: v6_text_ok_def)
    have t: "?t = 91 # ts bs @ 93 # 58 # format_d (unat (na_port a))"
      using V6 tx(1) by (simp add: formatIpPort_def c_str_id)
    show ?thesis
      using na_new_parsed [of a] V6 port tx(3) unfolding run t na_parse_bracket [OF tx(2)]
      by (simp add: stoi_format_d then_parse_def ip_parse_def)
  qed
qed

lemma na_toString_no_comma: "v6_text_ok ts fs (na_ip a) \<Longrightarrow> 44 \<notin> set (na_toString ts a)"
  using format_d_no [OF not_digits(2)] format_v4_props(3,4)
  by (cases "na_ip a") (auto simp: na_toString_def formatIpPort_def v6_text_ok_def c_str_id lit_def Let_def)

fun joined :: "bytes list \<Rightarrow> bytes" where
  "joined [] = []"
| "joined [x] = x"
| "joined (x # xs) = x @ 44 # joined xs"

lemma na_parseList_joined:
  assumes "as \<noteq> []" and "\<forall>a \<in> set as. v6_text_ok ts fs (na_ip a)"
  shows "na_parseList fs (joined (map (na_toString ts) as)) = Inr (map (\<lambda>a. a\<lparr>na_flags := na_flags a AND FLAG_TLS\<rparr>) as)"
  using assms
proof (induction as)
  case (Cons a as)
  have a: "44 \<notin> set (na_toString ts a)" "na_parse fs (na_toString ts a) = Inr (a\<lparr>na_flags := na_flags a AND FLAG_TLS\<rparr>)"
    using Cons.prems na_toString_no_comma na_roundtrip by auto
  have nc: "x \<in> set (na_toString ts a) \<Longrightarrow> x \<noteq> 44" for x using a(1) by auto
  have tw: "takeWhile (\<lambda>b. b \<noteq> 44) (na_toString ts a @ 44 # u) = na_toString ts a"
    "dropWhile (\<lambda>b. b \<noteq> 44) (na_toString ts a @ 44 # u) = 44 # u"
    "takeWhile (\<lambda>b. b \<noteq> 44) (na_toString ts a) = na_toString ts a" "dropWhile (\<lambda>b. b \<noteq> 44) (na_toString ts a) = []" for u
    by (simp_all add: nc takeWhile_append2 dropWhile_append2 takeWhile_eq_all_conv dropWhile_eq_Nil_conv)
  show ?case
  proof (cases as)
    case Nil
    have "na_parseList fs (na_toString ts a) = Inr [a\<lparr>na_flags := na_flags a AND FLAG_TLS\<rparr>]"
      by (subst na_parseList.simps) (simp only: tw a(2) then_parse_def sum.case list.case)
    then show ?thesis using Nil by simp
  next
    case (Cons b bs)
    then show ?thesis using tw(1,2) a(2) Cons.IH Cons.prems
      by (subst na_parseList.simps) (simp add: then_parse_def)
  qed
qed simp

text \<open>
  Property C31: an address printed by \<open>toString\<close> is parsed as itself, but public; a list of addresses, separated by commas, is
  parsed by \<open>parseList\<close> into the list.  For IPv4 nothing is assumed; for IPv6 that Boost reads what it prints.
\<close>

theorem address_text_roundtrip:
  assumes "as \<noteq> []" and "\<forall>a \<in> set as. v6_text_ok v6_to_string from_string (na_ip a)"
  shows "na_parseList from_string (joined (map (na_toString v6_to_string) as)) =
      Inr (map (\<lambda>a. a\<lparr>na_flags := na_flags a AND FLAG_TLS\<rparr>) as) \<and>
    na_parse from_string (na_toString v6_to_string (hd as)) = Inr (hd as\<lparr>na_flags := na_flags (hd as) AND FLAG_TLS\<rparr>)"
  using na_parseList_joined [OF assms] na_roundtrip [of v6_to_string from_string "hd as"] assms by simp

definition sample_addresses :: "network_address list" where
  "sample_addresses = [\<lparr>na_ip = V6 (replicate 15 0 @ [1]), na_port = 4800, na_flags = 3\<rparr>, \<lparr>na_ip = V4 0xFF000001, na_port = 80, na_flags = 0\<rparr>]"

theorem address_text_roundtrip_witness:
  "na_parseList (\<lambda>s. if s = lit ''::1'' then Some (Inr (replicate 15 0 @ [1])) else None)
     (joined (map (na_toString (\<lambda>_. lit ''::1'')) sample_addresses)) =
   Inr [\<lparr>na_ip = V6 (replicate 15 0 @ [1]), na_port = 4800, na_flags = 2\<rparr>, \<lparr>na_ip = V4 0xFF000001, na_port = 80, na_flags = 0\<rparr>]"
proof -
  let ?fs = "\<lambda>s. if s = lit ''::1'' then Some (Inr (replicate 15 0 @ [1])) else None"
  have "sample_addresses \<noteq> []" "\<forall>a \<in> set sample_addresses. v6_text_ok (\<lambda>_. lit ''::1'') ?fs (na_ip a)"
    by (simp_all add: sample_addresses_def v6_text_ok_def lit_def)
  from address_text_roundtrip [OF this] show ?thesis by (simp add: sample_addresses_def FLAG_TLS_def)
qed

text \<open>
  The numbers of an IPv4 text are not checked: octets above 255 carry into the next one, ports wrap, and a port of an
  IPv6 text may be followed by anything or make \<open>std::stoi\<close> throw its own exceptions.
\<close>

lemma parse_unchecked:
  "na_parse fs (lit ''1.2.3.256:65616'') = Inr \<lparr>na_ip = V4 0x01020400, na_port = 80, na_flags = 0\<rparr>"
  "na_parse fs (lit ''1.2.3.-1: 80'') = Inr \<lparr>na_ip = V4 0x010202FF, na_port = 80, na_flags = 0\<rparr>"
  "na_parse fs (lit ''[::1]:http'') = Inl Std_invalid_argument"
  by (simp_all add: na_parse_def na_parse_plain_def lit_def c_str_def sscanf_address_def scan_d_def scan_sign_def
      isspace_def isdigit_def num_val_def digit_val_def scan_char_def is_int_def ints_to_v4_def then_parse_def shl_int_def
      add_int_def na_new_def stoi_def sint_u32)

subsection \<open>Order and hash\<close>

lemma na_parts: "na_flags a = na_flags b \<Longrightarrow> (na_ip a, na_port a) = (na_ip b, na_port b) \<Longrightarrow> a = (b :: network_address)"
  by (cases a; cases b) simp

lemma nal_parts: "nal_address a = nal_address b \<Longrightarrow> nal_secondaryAddress a = nal_secondaryAddress b \<Longrightarrow> a = (b :: network_address_list)"
  by (cases a; cases b) simp

lemma ip_eq_iff: "ip_eq a b \<longleftrightarrow> a = b"
  by (cases a; cases b) auto

lemma na_eq_iff: "na_eq a b \<longleftrightarrow> a = b" "na_ne a b \<longleftrightarrow> a \<noteq> b"
  by (cases a; cases b; auto simp: na_eq_def na_ne_def ip_ne_def ip_eq_iff)+

lemma optional_eq_iff: "optional_eq na_eq x y \<longleftrightarrow> x = y"
  by (cases x; cases y) (auto simp: na_eq_iff)

lemma nal_eq_iff: "nal_eq a b \<longleftrightarrow> a = b"
  by (cases a; cases b) (auto simp: nal_eq_def na_eq_iff optional_eq_iff)

definition strict_total :: "('a \<Rightarrow> 'a \<Rightarrow> bool) \<Rightarrow> bool" where
  "strict_total lt \<longleftrightarrow> irreflp lt \<and> transp lt \<and> totalp lt"

lemma strict_total_less: "strict_total ((<) :: 'a::linorder \<Rightarrow> _)"
  by (auto simp: strict_total_def irreflp_def transp_def totalp_on_def)

text \<open>Comparing by one key first and by the rest where it is equal.\<close>

lemma strict_total_lex:
  assumes "strict_total lt1" and "strict_total lt2" and "\<And>a b. f a = f b \<Longrightarrow> g a = g b \<Longrightarrow> a = b"
  shows "strict_total (\<lambda>a b. if f a \<noteq> f b then lt1 (f a) (f b) else lt2 (g a) (g b))"
proof -
  have 1: "\<not> lt1 x x" "lt1 x y \<Longrightarrow> lt1 y z \<Longrightarrow> lt1 x z" "x = y \<or> lt1 x y \<or> lt1 y x" for x y z
    using assms(1) by (auto simp: strict_total_def dest: irreflpD transpD totalpD)
  have 2: "\<not> lt2 x x" "lt2 x y \<Longrightarrow> lt2 y z \<Longrightarrow> lt2 x z" "x = y \<or> lt2 x y \<or> lt2 y x" for x y z
    using assms(2) by (auto simp: strict_total_def dest: irreflpD transpD totalpD)
  show ?thesis
    unfolding strict_total_def irreflp_def transp_def totalp_on_def using 1 2 assms(3) by (smt (verit, best))
qed

lemma strict_total_ip: "strict_total ip_less"
proof -
  have "\<not> ip_less a a" "a = b \<or> ip_less a b \<or> ip_less b a" for a b
    using string_less_irrefl string_less_total by (cases a; cases b; auto)+
  moreover have "ip_less a b \<Longrightarrow> ip_less b c \<Longrightarrow> ip_less a c" for a b c
    using string_less_trans by (cases a; cases b; cases c) auto
  ultimately show ?thesis unfolding strict_total_def irreflp_def transp_def totalp_on_def by blast
qed

lemma strict_total_na: "strict_total na_less"
proof -
  have ip: "strict_total (\<lambda>a b. if fst a \<noteq> fst b then ip_less (fst a) (fst b) else snd a < (snd b :: u16))"
    by (rule strict_total_lex [OF strict_total_ip strict_total_less]) (auto intro: prod_eqI)
  have "strict_total (\<lambda>a b :: network_address. if na_flags a \<noteq> na_flags b then na_flags a < na_flags b
      else (\<lambda>a b. if fst a \<noteq> fst b then ip_less (fst a) (fst b) else snd a < snd b) (na_ip a, na_port a) (na_ip b, na_port b))"
    by (rule strict_total_lex [OF strict_total_less ip]) (erule (1) na_parts)
  moreover have "na_less = (\<lambda>a b. if na_flags a \<noteq> na_flags b then na_flags a < na_flags b
      else (\<lambda>a b. if fst a \<noteq> fst b then ip_less (fst a) (fst b) else snd a < snd b) (na_ip a, na_port a) (na_ip b, na_port b))"
    by (intro ext) (simp add: na_less_def ip_ne_def ip_eq_iff)
  ultimately show ?thesis by simp
qed

lemma strict_total_optional: "strict_total lt \<Longrightarrow> strict_total (optional_less lt)"
proof -
  assume "strict_total lt"
  then have 1: "\<not> lt x x" "lt x y \<Longrightarrow> lt y z \<Longrightarrow> lt x z" "x = y \<or> lt x y \<or> lt y x" for x y z
    by (auto simp: strict_total_def dest: irreflpD transpD totalpD)
  have "\<not> optional_less lt a a" for a by (cases a) (simp_all add: 1(1))
  moreover have "a = b \<or> optional_less lt a b \<or> optional_less lt b a" for a b
    by (cases a; cases b) (use 1(3) in simp_all)
  moreover have "optional_less lt a b \<Longrightarrow> optional_less lt b c \<Longrightarrow> optional_less lt a c" for a b c
    by (cases a; cases b; cases c) (simp_all, rule 1(2))
  ultimately show ?thesis unfolding strict_total_def irreflp_def transp_def totalp_on_def by blast
qed

lemma strict_total_nal: "strict_total nal_less"
proof -
  have "strict_total (\<lambda>a b :: network_address_list. if nal_address a \<noteq> nal_address b then na_less (nal_address a) (nal_address b)
      else optional_less na_less (nal_secondaryAddress a) (nal_secondaryAddress b))"
    by (rule strict_total_lex [OF strict_total_na strict_total_optional [OF strict_total_na]])
      (erule (1) nal_parts)
  moreover have "nal_less = (\<lambda>a b. if nal_address a \<noteq> nal_address b then na_less (nal_address a) (nal_address b)
      else optional_less na_less (nal_secondaryAddress a) (nal_secondaryAddress b))"
    by (intro ext) (simp add: nal_less_def na_eq_iff)
  ultimately show ?thesis by simp
qed

text \<open>The hash is the last bytes of the address and the port, one after the other.\<close>

lemma unat_push_or:
  fixes a b :: u64
  assumes "unat a * 2 ^ n < 2 ^ 64" and "unat b < 2 ^ n"
  shows "unat (push_bit n a OR b) = unat a * 2 ^ n + unat b"
proof -
  have "unat (push_bit n a) = take_bit LENGTH(64) (push_bit n (unat a))" by (rule unsigned_push_bit_eq)
  then have "unat (push_bit n a) = push_bit n (unat a)"
    using assms(1) by (simp add: take_bit_nat_eq_self push_bit_eq_mult [of n "unat a"])
  then show ?thesis using push_bit_or_nat [OF assms(2)] by (simp add: unsigned_or_eq)
qed

lemma unat_ucast_u64:
  assumes "LENGTH('a::len) \<le> 64"
  shows "unat (ucast (b :: 'a word) :: u64) = unat b"
proof -
  have "unat b < 2 ^ LENGTH('a)" by (rule unsigned_less)
  also have "(2 :: nat) ^ LENGTH('a) \<le> 2 ^ 64" using assms by (intro power_increasing) simp_all
  finally show ?thesis by (simp add: unsigned_ucast_eq take_bit_nat_eq_self)
qed

lemma unat_u16_at:
  "unat (u16_at little bs i) =
     (if little then unat (bs ! (2 * i + 1)) * 256 + unat (bs ! (2 * i)) else unat (bs ! (2 * i)) * 256 + unat (bs ! (2 * i + 1)))"
proof -
  have "unat (push_bit 8 (ucast a) OR ucast b :: u64) = unat a * 256 + unat b" for a b :: u8
    using unat_push_or [of "ucast a" 8 "ucast b"] unat_u8_less [of a] unat_u8_less [of b] by (simp add: unat_ucast_u64)
  then show ?thesis by (simp add: u16_at_def Let_def)
qed

lemma digits_eq:
  fixes a b c d m :: nat
  assumes "b < m" and "d < m"
  shows "a * m + b = c * m + d \<longleftrightarrow> a = c \<and> b = d"
proof
  assume "a * m + b = c * m + d"
  then have "(a * m + b) div m = (c * m + d) div m" "(a * m + b) mod m = (c * m + d) mod m" by simp_all
  then show "a = c \<and> b = d" using assms by simp
qed simp

lemma digits_less:
  fixes a b m n :: nat
  assumes "a < n" and "b < m"
  shows "a * m + b < n * m"
proof -
  have "Suc a * m \<le> n * m" using assms(1) by (intro mult_le_mono1) simp
  then show ?thesis using assms(2) by simp
qed

lemma u16_at_less: "unat (u16_at little bs i) < 2 ^ 16"
  using digits_less [OF unat_u8_less unat_u8_less] unfolding unat_u16_at by simp

lemma u16_at_inj:
  "u16_at little xs i = u16_at little ys i \<longleftrightarrow> xs ! (2 * i) = ys ! (2 * i) \<and> xs ! (2 * i + 1) = ys ! (2 * i + 1)"
  unfolding word_unat_eq_iff [of "u16_at little xs i"] unat_u16_at
  using digits_eq [OF unat_u8_less unat_u8_less] by (auto simp: word_unat_eq_iff)

lemma hash_tail:
  fixes x :: u64 and p :: u16
  assumes "unat x < 2 ^ 48"
  shows "unat (push_bit 16 x + ucast p) = unat x * 2 ^ 16 + unat p"
proof -
  have p: "unat (ucast p :: u64) = unat p" "unat p < 2 ^ 16"
    using unsigned_less [where 'a = nat, of p] by (simp_all add: unat_ucast_u64)
  have x: "unat (push_bit 16 x) = unat x * 2 ^ 16"
    using unat_push_or [of x 16 0] digits_less [OF assms, of 0 "2 ^ 16"] by simp
  have "unat x * 2 ^ 16 + unat p < 2 ^ 48 * 2 ^ 16" using assms p(2) by (rule digits_less)
  then have "unat (push_bit 16 x) + unat (ucast p :: u64) < 2 ^ LENGTH(64)" unfolding x p(1) by simp
  then have "unat (push_bit 16 x + ucast p) = unat (push_bit 16 x) + unat (ucast p :: u64)"
    unfolding unat_word_ariths by (rule mod_less)
  then show ?thesis unfolding x p(1) .
qed

lemma hash_words:
  fixes x y :: u64 and p q :: u16
  assumes "unat x < 2 ^ 48" and "unat y < 2 ^ 48"
  shows "push_bit 16 x + ucast p = push_bit 16 y + ucast q \<longleftrightarrow> x = y \<and> p = q"
proof -
  have "unat p < 2 ^ 16" "unat q < 2 ^ 16" using unsigned_less [where 'a = nat, of p] unsigned_less [where 'a = nat, of q] by simp_all
  then have "unat x * 2 ^ 16 + unat p = unat y * 2 ^ 16 + unat q \<longleftrightarrow> unat x = unat y \<and> unat p = unat q" by (rule digits_eq)
  then show ?thesis
    using hash_tail [OF assms(1), of p] hash_tail [OF assms(2), of q] by (metis word_unat_eq_iff)
qed

lemma hash_v6_word:
  "unat (push_bit 32 (u16_at l bs 5) OR push_bit 16 (u16_at l bs 6) OR u16_at l bs 7) =
     unat (u16_at l bs 5) * 2 ^ 32 + (unat (u16_at l bs 6) * 2 ^ 16 + unat (u16_at l bs 7))"
proof -
  note b = u16_at_less [of l bs 5] u16_at_less [of l bs 6] u16_at_less [of l bs 7]
  have "unat (push_bit 16 (u16_at l bs 6) OR u16_at l bs 7) = unat (u16_at l bs 6) * 2 ^ 16 + unat (u16_at l bs 7)"
    using b by (intro unat_push_or) simp_all
  then show ?thesis using b unat_push_or [of "u16_at l bs 5" 32 "push_bit 16 (u16_at l bs 6) OR u16_at l bs 7"] by simp
qed

lemma drop_10: "length bs = 16 \<Longrightarrow> drop 10 bs = [bs ! 10, bs ! 11, bs ! 12, bs ! 13, bs ! 14, bs ! 15]"
  by (simp add: Cons_nth_drop_Suc [symmetric] numeral_eq_Suc)

lemma hash_v6:
  assumes "length xs = 16" and "length ys = 16"
  shows "na_hash l \<lparr>na_ip = V6 xs, na_port = p, na_flags = f\<rparr> = na_hash l \<lparr>na_ip = V6 ys, na_port = q, na_flags = g\<rparr> \<longleftrightarrow>
    drop 10 xs = drop 10 ys \<and> p = q"
proof -
  let ?w = "\<lambda>bs. push_bit 32 (u16_at l bs 5) OR push_bit 16 (u16_at l bs 6) OR u16_at l bs 7"
  note b = u16_at_less [of l _ 5] u16_at_less [of l _ 6] u16_at_less [of l _ 7]
  let ?low = "\<lambda>bs. unat (u16_at l bs 6) * 2 ^ 16 + unat (u16_at l bs 7)"
  have low: "?low bs < 2 ^ 32" for bs using digits_less [OF b(2,3), of bs bs] by simp
  have w: "unat (?w bs) < 2 ^ 48" for bs using digits_less [OF b(1) low, of bs bs] unfolding hash_v6_word by simp
  have "?w xs = ?w ys \<longleftrightarrow> u16_at l xs 5 = u16_at l ys 5 \<and> u16_at l xs 6 = u16_at l ys 6 \<and> u16_at l xs 7 = u16_at l ys 7"
    unfolding word_unat_eq_iff hash_v6_word digits_eq [OF low low] digits_eq [OF b(3) b(3)] ..
  also have "\<dots> \<longleftrightarrow> drop 10 xs = drop 10 ys"
    unfolding u16_at_inj using assms by (auto simp: drop_10)
  finally show ?thesis using hash_words [OF w w] by (simp add: na_hash_def)
qed

lemma hash_v4:
  "na_hash l \<lparr>na_ip = V4 v, na_port = p, na_flags = f\<rparr> = na_hash l \<lparr>na_ip = V4 w, na_port = q, na_flags = g\<rparr> \<longleftrightarrow> v = w \<and> p = q"
proof -
  have u: "unat (ucast v :: u64) = unat v" for v :: u32 by (simp add: unat_ucast_u64)
  then have b: "unat (ucast v :: u64) < 2 ^ 48" for v :: u32 using unsigned_less [where 'a = nat, of v] by simp
  have "(ucast v :: u64) = ucast w \<longleftrightarrow> v = w" using u by (metis word_unat_eq_iff)
  then show ?thesis using hash_words [OF b b] by (simp add: na_hash_def)
qed

text \<open>
  Property C33: addresses and lists of addresses are totally ordered by \<open><\<close>, and \<open>==\<close> and \<open>!=\<close> are equality.  The hash of
  an IPv4 address tells the address and the port apart from all others; that of an IPv6 address depends exactly on its last six
  bytes and the port, on machines of either byte order.
\<close>

theorem address_order_and_hash:
  assumes "length xs = 16" and "length ys = 16"
  shows "strict_total na_less \<and> strict_total nal_less \<and>
    (na_eq a b \<longleftrightarrow> a = b) \<and> (na_ne a b \<longleftrightarrow> a \<noteq> b) \<and> (nal_eq c d \<longleftrightarrow> c = d) \<and>
    (na_hash little \<lparr>na_ip = V4 v, na_port = p, na_flags = f\<rparr> = na_hash little \<lparr>na_ip = V4 w, na_port = q, na_flags = g\<rparr>
       \<longleftrightarrow> v = w \<and> p = q) \<and>
    (na_hash little \<lparr>na_ip = V6 xs, na_port = p, na_flags = f\<rparr> = na_hash little \<lparr>na_ip = V6 ys, na_port = q, na_flags = g\<rparr>
       \<longleftrightarrow> drop 10 xs = drop 10 ys \<and> p = q)"
  by (simp only: strict_total_na strict_total_nal na_eq_iff nal_eq_iff hash_v4 hash_v6 [OF assms] simp_thms)

theorem address_order_and_hash_witness:
  "na_hash True \<lparr>na_ip = V6 (1 # replicate 15 7), na_port = 80, na_flags = 0\<rparr> =
   na_hash True \<lparr>na_ip = V6 (replicate 16 7), na_port = 80, na_flags = 2\<rparr>"
  using address_order_and_hash [of "1 # replicate 15 7" "replicate 16 7" _ _ _ _ True 0 80 0 0 80 2] by simp

subsection \<open>Serialized addresses\<close>

definition enc_ip :: "ip_address \<Rightarrow> bytes" where
  "enc_ip ip = (case ip of V4 a \<Rightarrow> 0 # item_bytes a | V6 bs \<Rightarrow> 1 # bs)"

definition enc_na :: "network_address \<Rightarrow> bytes" where
  "enc_na a = enc_ip (na_ip a) @ item_bytes (na_port a) @ item_bytes (na_flags a)"

definition enc_nal :: "network_address_list \<Rightarrow> bytes" where
  "enc_nal l = enc_na (nal_address l) @ enc_option enc_na (nal_secondaryAddress l)"

definition ip_ok :: "ip_address \<Rightarrow> bool" where
  "ip_ok ip \<longleftrightarrow> (case ip of V4 _ \<Rightarrow> True | V6 bs \<Rightarrow> length bs = 16)"

definition nal_ok :: "network_address_list \<Rightarrow> bool" where
  "nal_ok l \<longleftrightarrow> ip_ok (na_ip (nal_address l)) \<and> (\<forall>a. nal_secondaryAddress l = Some a \<longrightarrow> ip_ok (na_ip a))"

lemma item_bytes_u8: "item_bytes (b :: u8) = [b]"
  by (simp add: item_bytes_def)

lemma concat_singletons: "concat (map item_bytes (bs :: u8 list)) = bs"
  by (induction bs) (simp_all add: item_bytes_u8)

context writer_archive
begin

lemma writes_ip: "writes (enc_ip ip) (save_IPAddress ops ip)"
proof (cases ip)
  case (V4 a)
  then show ?thesis
    using writes_then [OF writes_binary [of "[0]"] writes_item [of a]]
    by (auto simp: enc_ip_def save_IPAddress_def save_bool_def intro!: writes_class)
next
  case (V6 bs)
  have "writes bs (save_array ops (save_item ops) bs)"
    using writes_array [of bs item_bytes "save_item ops"] by (simp add: concat_singletons writes_item)
  then show ?thesis
    using writes_then [OF writes_binary [of "[1]"]] V6
    by (auto simp: enc_ip_def save_IPAddress_def save_bool_def intro!: writes_class)
qed

lemma writes_na: "writes (enc_na a) (save_NetworkAddress ops a)"
  unfolding enc_na_def save_NetworkAddress_def by (intro writes_class writes_then writes_ip writes_item)

lemma writes_nal: "writes (enc_nal l) (save_NetworkAddressList ops l)"
  unfolding enc_nal_def save_NetworkAddressList_def by (intro writes_class writes_then writes_na writes_Optional)

end

text \<open>What an archive of the protocol versions in \<open>P\<close> that starts with \<open>bs\<close> is read as.\<close>

context reader_archive
begin

definition loads :: "(u64 \<Rightarrow> bool) \<Rightarrow> bytes \<Rightarrow> 'a \<Rightarrow> ('a, 'r) load_action \<Rightarrow> bool" where
  "loads P bs x g \<longleftrightarrow>
     (\<forall>r ys. inv r \<and> rd_protocolVersion ops r \<noteq> 0 \<and> P (rd_protocolVersion ops r) \<and> rest r = bs @ ys \<longrightarrow> returns g r x ys)"

lemma loads_reads: "reads bs x g \<Longrightarrow> loads P bs x g"
  by (simp add: reads_def loads_def)

lemma loads_then:
  assumes g: "loads P bs x g" and h: "loads P cs y (h x)"
  shows "loads P (bs @ cs) y (then_load g h)"
  unfolding loads_def
proof (intro allI impI)
  fix r ys assume r: "inv r \<and> rd_protocolVersion ops r \<noteq> 0 \<and> P (rd_protocolVersion ops r) \<and> rest r = (bs @ cs) @ ys"
  then have "returns g r x (cs @ ys)" using g unfolding loads_def by (metis append_assoc)
  then obtain r1 where r1: "g r = Inr (x, r1)" "inv r1" "rest r1 = cs @ ys" "rd_protocolVersion ops r1 = rd_protocolVersion ops r"
    unfolding returns_def by blast
  then have "returns (h x) r1 y ys" using h r unfolding loads_def by metis
  then show "returns (then_load g h) r y ys" using r1 by (simp add: returns_def then_load_def)
qed

lemma loads_map:
  assumes "loads P bs x g"
  shows "loads P bs (f x) (then_load g (\<lambda>x. return_load (f x)))"
  using loads_then [OF assms loads_reads [OF reads_return]] by simp

lemma loads_class:
  assumes "loads P bs x g"
  shows "loads P bs x (load_class ops g)"
  unfolding load_class_def using loads_then [OF assms loads_reads [OF reads_check]] by simp

lemma loads_item:
  fixes x :: "'a::len word"
  assumes "8 dvd LENGTH('a)" and "LENGTH('a) < 2 ^ 31"
  shows "loads P (item_bytes x) x (load_item ops)"
  by (rule loads_reads [OF reads_item [OF assms]])

lemma loads_Optional:
  assumes "\<And>y. x = Some y \<Longrightarrow> loads P (enc y) y ld"
  shows "loads P (enc_option enc x) x (load_Optional ops ld)"
proof (cases x)
  case None
  then show ?thesis using reads_Optional [of x enc ld] by (simp add: loads_reads)
next
  case (Some y)
  let ?h = "\<lambda>valid. if valid then then_load ld (\<lambda>x. return_load (Some x)) else return_load None"
  have "loads P ([if True then 1 else 0] @ enc y) (Some y) (then_load (load_bool ops) ?h)"
    by (rule loads_then [OF loads_reads [OF reads_bool]]) (simp add: loads_map [OF assms [OF Some]])
  then show ?thesis unfolding load_Optional_def Some by (intro loads_class) (simp add: enc_option_def)
qed

lemma reads_ip:
  assumes "ip_ok ip"
  shows "reads (enc_ip ip) ip (load_IPAddress ops)"
proof -
  let ?h = "\<lambda>isV6addr. if isV6addr then then_load (load_array ops 16 (load_item ops)) (\<lambda>bs. return_load (V6 bs))
     else then_load (load_item ops) (\<lambda>a. return_load (V4 a))"
  have "reads (enc_ip ip) ip (then_load (load_bool ops) ?h)"
  proof (cases ip)
    case (V4 a)
    then show ?thesis
      using reads_then [OF reads_bool [of False], of "item_bytes a" ip ?h] reads_map [OF reads_item [of a], of V4]
      by (simp add: enc_ip_def)
  next
    case (V6 bs)
    then have "length bs = 16" using assms by (simp add: ip_ok_def)
    then have "reads bs bs (load_array ops 16 (load_item ops))"
      using reads_array [of bs item_bytes "load_item ops"] by (simp add: concat_singletons reads_item)
    then show ?thesis
      using reads_then [OF reads_bool [of True], of bs ip ?h] reads_map [of bs bs "load_array ops 16 (load_item ops)" V6] V6
      by (simp add: enc_ip_def)
  qed
  then show ?thesis unfolding load_IPAddress_def by (rule reads_class)
qed

lemma loads_from:
  assumes "loads P bs x g" and "\<And>v. P v \<Longrightarrow> V \<le> v"
  shows "loads P bs x (\<lambda>r. if rd_protocolVersion ops r < V then f r else g r)"
  using assms by (simp add: loads_def returns_def not_less [symmetric])

lemma loads_below:
  assumes "loads P bs x f" and "\<And>v. P v \<Longrightarrow> v < V"
  shows "loads P bs x (\<lambda>r. if rd_protocolVersion ops r < V then f r else g r)"
  using assms by (simp add: loads_def returns_def)

lemma loads_na_new:
  assumes "ip_ok (na_ip a)"
  shows "loads (\<lambda>v. ipv6_version \<le> v) (enc_na a) a (load_NetworkAddress ops)"
proof -
  obtain ip port flags where a: "a = \<lparr>na_ip = ip, na_port = port, na_flags = flags\<rparr>" by (cases a)
  have "ip_ok ip" using assms by (simp add: a)
  then have "loads (\<lambda>v. ipv6_version \<le> v) (enc_ip ip @ item_bytes port @ item_bytes flags) a
      (then_load (load_IPAddress ops) (\<lambda>ip. then_load (load_item ops) (\<lambda>port. then_load (load_item ops) (\<lambda>flags.
         return_load \<lparr>na_ip = ip, na_port = port, na_flags = flags\<rparr>))))"
    unfolding a by (intro loads_then [OF loads_reads [OF reads_ip]] loads_then [OF loads_item [where x = port]] loads_map loads_item) simp_all
  then show ?thesis
    unfolding load_NetworkAddress_def by (intro loads_class loads_from) (simp_all add: enc_na_def a)
qed

text \<open>Before IPv6 an address was its 32 bits.\<close>

lemma loads_na_old:
  "loads (\<lambda>v. v < ipv6_version) (item_bytes ip @ item_bytes port @ item_bytes flags)
     \<lparr>na_ip = V4 ip, na_port = port, na_flags = flags\<rparr> (load_NetworkAddress ops)"
proof -
  have "loads (\<lambda>v. v < ipv6_version) (item_bytes ip @ item_bytes port @ item_bytes flags) \<lparr>na_ip = V4 ip, na_port = port, na_flags = flags\<rparr>
      (then_load (load_item ops) (\<lambda>ipV4. then_load (load_item ops) (\<lambda>port. then_load (load_item ops) (\<lambda>flags.
            return_load \<lparr>na_ip = V4 ipV4, na_port = port, na_flags = flags\<rparr>))))"
    using loads_map [OF loads_item [where x = flags], of _ "\<lambda>f. \<lparr>na_ip = V4 ip, na_port = port, na_flags = f\<rparr>"]
    by (intro loads_then [OF loads_item [where x = ip]] loads_then [OF loads_item [where x = port]]) simp_all
  then show ?thesis
    unfolding load_NetworkAddress_def by (intro loads_class loads_below) simp_all
qed

lemma loads_nal:
  assumes "nal_ok l"
  shows "loads (\<lambda>v. ipv6_version \<le> v) (enc_nal l) l (load_NetworkAddressList ops)"
proof -
  obtain a x where l: "l = \<lparr>nal_address = a, nal_secondaryAddress = x\<rparr>" by (cases l)
  have "loads (\<lambda>v. ipv6_version \<le> v) (enc_option enc_na x) l
      (then_load (load_Optional ops (load_NetworkAddress ops)) (\<lambda>s. return_load \<lparr>nal_address = a, nal_secondaryAddress = s\<rparr>))"
    unfolding l using assms by (intro loads_map loads_Optional loads_na_new) (simp add: nal_ok_def l)
  moreover have "ip_ok (na_ip a)" using assms by (simp add: nal_ok_def l)
  ultimately show ?thesis
    unfolding load_NetworkAddressList_def enc_nal_def by (intro loads_class) (simp add: l loads_then [OF loads_na_new])
qed

end

lemma from_loads:
  assumes g: "br.loads sim P bs x ld" and v: "minValidProtocolVersion \<le> v" "v \<le> currentProtocolVersion" "P v"
  shows "fromStringRef sim ld (item_bytes v @ bs @ ys) (IncludeVersion v') = Inr x"
proof -
  let ?r = "binary_reader_init None (item_bytes v @ bs @ ys)"
  have init: "br_inv ?r" "br_rest ?r = item_bytes v @ bs @ ys" by (simp_all add: binary_reader_init_def br_inv_def br_rest_def)
  obtain r' where r': "read_version (binary_reader_ops sim) (IncludeVersion v') ?r = Inr r'" "br_inv r'" "br_rest r' = bs @ ys"
    "rd_protocolVersion (binary_reader_ops sim) r' = v"
    using br.read_version_ok [OF init v(1,2), of sim v'] by blast
  have "v \<noteq> 0" using v(1) by (rule br.version_nonzero)
  then have "br.returns sim ld r' x ys" using g r' v(3) unfolding br.loads_def by simp
  then show ?thesis using r'(1) unfolding br.returns_def by (auto simp: fromStringRef_def BinaryReader_StringRef_def simp del: read_version.simps)
qed

lemma length_enc_nal: "nal_ok l \<Longrightarrow> length (enc_nal l) \<le> 43"
  by (cases "nal_secondaryAddress l"; cases "na_ip (nal_address l)"; cases "na_ip (the (nal_secondaryAddress l))")
    (auto simp: enc_nal_def enc_na_def enc_ip_def enc_option_def nal_ok_def ip_ok_def)

text \<open>
  Property C32: a list of addresses written with a protocol version that knows IPv6 is read back; an archive of an older version holds
  IPv4 addresses as 32 bits, which are read as such.
\<close>

theorem address_serialization:
  assumes "nal_ok l" and "ipv6_version \<le> v" and "v \<le> currentProtocolVersion"
    and "minValidProtocolVersion \<le> w" and "w < ipv6_version"
  shows "(\<exists>bs. toValue (save_NetworkAddressList binary_writer_ops) l (IncludeVersion v) = Inr bs \<and>
      fromStringRef sim (load_NetworkAddressList (binary_reader_ops sim)) bs (IncludeVersion v') = Inr l) \<and>
    fromStringRef sim (load_NetworkAddress (binary_reader_ops sim))
      (item_bytes w @ item_bytes ip @ item_bytes port @ item_bytes flags) (IncludeVersion v') =
      Inr \<lparr>na_ip = V4 ip, na_port = port, na_flags = flags\<rparr>"
proof
  have "minValidProtocolVersion \<le> ipv6_version" "ipv6_version \<le> currentProtocolVersion"
    by (simp_all add: minValidProtocolVersion_def ipv6_version_def currentProtocolVersion_def)
  then have v: "minValidProtocolVersion \<le> v" and w: "w \<le> currentProtocolVersion"
    using assms(2,5) by (auto elim: order.trans)
  have "toValue (save_NetworkAddressList binary_writer_ops) l (IncludeVersion v) = Inr (item_bytes v @ enc_nal l)"
    using bw.writes_nal length_enc_nal [OF assms(1)] br.version_nonzero [OF v] by (intro toValue_ok) simp_all
  then show "\<exists>bs. toValue (save_NetworkAddressList binary_writer_ops) l (IncludeVersion v) = Inr bs \<and>
      fromStringRef sim (load_NetworkAddressList (binary_reader_ops sim)) bs (IncludeVersion v') = Inr l"
    using from_loads [OF br.loads_nal [OF assms(1)] v assms(3,2), of sim "[]" v'] by simp
  show "fromStringRef sim (load_NetworkAddress (binary_reader_ops sim))
      (item_bytes w @ item_bytes ip @ item_bytes port @ item_bytes flags) (IncludeVersion v') =
      Inr \<lparr>na_ip = V4 ip, na_port = port, na_flags = flags\<rparr>"
    using from_loads [OF br.loads_na_old assms(4) w assms(5), of sim ip port flags "[]" v'] by simp
qed

definition sample_list :: network_address_list where
  "sample_list = \<lparr>nal_address = hd sample_addresses, nal_secondaryAddress = Some (last sample_addresses)\<rparr>"

theorem address_serialization_witness:
  "(\<exists>bs. toValue (save_NetworkAddressList binary_writer_ops) sample_list (IncludeVersion currentProtocolVersion) = Inr bs \<and>
      fromStringRef True (load_NetworkAddressList (binary_reader_ops True)) bs (IncludeVersion 0) = Inr sample_list) \<and>
   fromStringRef True (load_NetworkAddress (binary_reader_ops True))
      (item_bytes minValidProtocolVersion @ item_bytes (0x7F000001 :: u32) @ item_bytes (80 :: u16) @ item_bytes (1 :: u16)) (IncludeVersion 0) =
      Inr \<lparr>na_ip = V4 0x7F000001, na_port = 80, na_flags = 1\<rparr>"
proof -
  have "nal_ok sample_list" by (simp add: sample_list_def sample_addresses_def nal_ok_def ip_ok_def)
  moreover have "ipv6_version \<le> currentProtocolVersion" "minValidProtocolVersion < ipv6_version"
    by (simp_all add: ipv6_version_def currentProtocolVersion_def minValidProtocolVersion_def)
  ultimately show ?thesis
    using address_serialization [of sample_list currentProtocolVersion minValidProtocolVersion True 0 "0x7F000001" 80 1] by simp
qed

text \<open>The writer does not look at the version: an address written with an older one is read as another address.\<close>

lemma le_bytes_numeral: "le_bytes (numeral n) x = ucast x # le_bytes (pred_numeral n) (drop_bit 8 x)"
  by (simp add: numeral_eq_Suc)

lemma old_version_misread:
  "toValue (save_NetworkAddress binary_writer_ops) \<lparr>na_ip = V4 0x7F000001, na_port = 80, na_flags = 1\<rparr> (IncludeVersion minValidProtocolVersion) =
     Inr (item_bytes minValidProtocolVersion @ [0, 1, 0, 0, 127, 80, 0, 1, 0])"
  "fromStringRef sim (load_NetworkAddress (binary_reader_ops sim)) (item_bytes minValidProtocolVersion @ [0, 1, 0, 0, 127, 80, 0, 1, 0]) (IncludeVersion 0) =
     Inr \<lparr>na_ip = V4 0x100, na_port = 0x507F, na_flags = 0x100\<rparr>"
proof -
  let ?a = "\<lparr>na_ip = V4 0x7F000001, na_port = 80, na_flags = 1\<rparr>"
  have enc: "enc_na ?a = [0, 1, 0, 0, 127, 80, 0, 1, 0]"
    by (simp add: enc_na_def enc_ip_def item_bytes_def le_bytes_numeral)
  have "bw.writes (enc_na ?a) (save_NetworkAddress binary_writer_ops ?a)" by (rule bw.writes_na)
  then have "toValue (save_NetworkAddress binary_writer_ops) ?a (IncludeVersion minValidProtocolVersion) =
     Inr (item_bytes minValidProtocolVersion @ enc_na ?a)"
    by (rule toValue_ok) (simp_all add: enc minValidProtocolVersion_def)
  then show "toValue (save_NetworkAddress binary_writer_ops) ?a (IncludeVersion minValidProtocolVersion) =
     Inr (item_bytes minValidProtocolVersion @ [0, 1, 0, 0, 127, 80, 0, 1, 0])"
    unfolding enc .
  have "item_bytes (0x100 :: u32) @ item_bytes (0x507F :: u16) @ item_bytes (0x100 :: u16) = [0, 1, 0, 0, 127, 80, 0, 1]"
    by (simp add: item_bytes_def le_bytes_numeral)
  then show "fromStringRef sim (load_NetworkAddress (binary_reader_ops sim)) (item_bytes minValidProtocolVersion @ [0, 1, 0, 0, 127, 80, 0, 1, 0]) (IncludeVersion 0) =
     Inr \<lparr>na_ip = V4 0x100, na_port = 0x507F, na_flags = 0x100\<rparr>"
    using from_loads [OF br.loads_na_old, of minValidProtocolVersion sim "0x100" "0x507F" "0x100" "[0]" 0]
    by (simp add: minValidProtocolVersion_def currentProtocolVersion_def ipv6_version_def)
qed

end
