(* ===== verification/Spec2Isabelle.thy ===== *)
theory Spec2Isabelle
  imports Deque IS_RangeErase Compressed_Int Flow_Error Archives Tuple Flow_Util Sav Notified_Queue
    Handles Hash3 Knobs Flow_Random Trace_Format Vector_Ref Reliable_Packets Metric_Sample
    Arena_Memory Thread_Queue Thread_Sav IS_VectorInsert Network_Address
begin

text \<open>
  A verification library for the flow runtime (\<open>src/flow\<close>): promises, futures and streams, the
  containers and encodings they are used with, and the helpers around them.

  \<^bold>\<open>Parts of the program and the theories that model them.\<close>

  \<^item> \<open>Flow_Prelude\<close>, \<open>Flow_Words\<close>: the result type for code that can fail (\<open>Inl\<close> a fault: a failed
    \<open>ASSERT\<close>, undefined behaviour, a thrown \<open>Error\<close>), its bind, and facts on lists and machine words.
  \<^item> \<open>Sav\<close>: \<open>SAV\<close> and \<open>Callback\<close> of \<open>flow.h\<close>, the single-assignment variable behind \<open>Promise\<close> and
    \<open>Future\<close>.  A record holds the fields of the class and the chain of callbacks.  The loops that fire
    callbacks are phases of the state, because a callback can call back into the variable; a step
    relation says what clients may do, also between two firings.
  \<^item> \<open>Handles\<close>: the classes \<open>Promise\<close> and \<open>Future\<close> over a store of such variables, with copies, moves,
    assignments and destruction of handles.
  \<^item> \<open>Notified_Queue\<close>: \<open>NotifiedQueue\<close> and \<open>SingleCallback\<close>, the queue behind \<open>PromiseStream\<close> and
    \<open>FutureStream\<close>.
  \<^item> \<open>Deque\<close>: the ring buffer of \<open>Deque.h\<close>, with its growth, its masks and its 32-bit indices.
  \<^item> \<open>IS_Tree\<close>, \<open>IS_Insert\<close>, \<open>IS_Search\<close>, \<open>IS_Erase\<close>, \<open>IS_Rebalance\<close>, \<open>IS_RangeErase\<close>,
    \<open>IS_VectorInsert\<close>: the balanced tree
    with metric sums of \<open>IndexedSet.h\<close>.
  \<^item> \<open>Metric_Sample\<close>: \<open>MetricSample\<close>, \<open>TransientMetricSample\<close> and \<open>TransientThresholdMetricSample\<close> of
    \<open>MetricSample.h\<close>.
  \<^item> \<open>Serialize\<close>, \<open>Archives\<close>: the serialization templates of \<open>serialize.h\<close> and the archives they run on
    (\<open>BinaryWriter\<close>, \<open>OverWriter\<close>, \<open>SplitBuffer\<close>, \<open>BinaryReader\<close>, \<open>ArenaReader\<close>).
  \<^item> \<open>Compressed_Int\<close>, \<open>Tuple\<close>: the order-preserving encodings of \<open>CompressedInt.h\<close> and of
    \<open>serialize.h\<close>'s tuples.
  \<^item> \<open>Flow_Error\<close>: the error table of \<open>error_definitions.h\<close> and \<open>Error.cpp\<close>.
  \<^item> \<open>String_Ref\<close>, \<open>Flow_Util\<close>: \<open>StringRef\<close> of \<open>Arena.h\<close> and the helpers of \<open>flow.cpp\<close>.
  \<^item> \<open>Network_Address\<close>: \<open>IPAddress\<close>, \<open>NetworkAddress\<close> and \<open>NetworkAddressList\<close> of \<open>network.h\<close> and \<open>network.cpp\<close>;
    Boost's text of IPv6 addresses is a parameter.
  \<^item> \<open>Hash3\<close>: the lookup3 hash of \<open>Hash3.c\<close>.
  \<^item> \<open>Knobs\<close>: \<open>Knobs\<close> and \<open>FlowKnobs\<close> of \<open>Knobs.h\<close> and \<open>Knobs.cpp\<close>.
  \<^item> \<open>Flow_Random\<close>: the random integers, choices and shuffles of \<open>DeterministicRandom.h\<close> and \<open>IRandom.h\<close>, over
    an arbitrary sequence of numbers for the generator.
  \<^item> \<open>Trace_Format\<close>: \<open>XmlTraceLogFormatter\<close> and \<open>JsonTraceLogFormatter\<close>.
  \<^item> \<open>Vector_Ref\<close>: \<open>VectorRef\<close> of \<open>Arena.h\<close>, over a store of arrays that references share.
  \<^item> \<open>Arena_Memory\<close>: \<open>Arena\<close> and \<open>ArenaBlock\<close> of \<open>Arena.h\<close> with the \<open>Reference\<close> of \<open>FastRef.h\<close>, over a heap of
    reference-counted blocks that refer to each other.
  \<^item> \<open>Thread_Queue\<close>: the queue between threads of \<open>ThreadSafeQueue.h\<close>, its operations as steps that interleave.
  \<^item> \<open>Thread_Sav\<close>: futures between threads, \<open>ThreadSingleAssignmentVar\<close> and \<open>ThreadMultiCallback\<close> of
    \<open>ThreadHelper.actor.h\<close>; what a thread does under the variable's lock is one step.
  \<^item> \<open>Packets\<close>, \<open>Reliable_Packets\<close>: \<open>PacketBuffer\<close>, \<open>PacketWriter\<close>, \<open>UnsentPacketQueue\<close>, \<open>ReliablePacket\<close> and
    \<open>ReliablePacketList\<close> of \<open>serialize.h\<close>, \<open>Net2Packet.h\<close> and \<open>Net2Packet.cpp\<close>, over a heap of
    reference-counted buffers and linked packets.

  \<^bold>\<open>How they interact.\<close>  A stream queues its values in a \<open>Deque\<close>: \<open>Notified_Queue\<close> works on the list that
  the theory \<open>Deque\<close> shows the ring buffer to implement.  Handles act on variables through the
  operations of \<open>Sav\<close>, and the theory shows that each handle operation is a step its clients may take.
  The templates of \<open>Serialize\<close> are written against two interfaces, the locales \<open>writer_archive\<close> and
  \<open>reader_archive\<close>, which \<open>Archives\<close> interprets on its archives and \<open>Packets\<close> on \<open>PacketWriter\<close>; the round trip
  of every template is proved once against the interfaces.  A packet is written to the queue of unsent
  packets, and compaction makes a chain of buffers out of the reliable packets for the same queue.  The samples of
  \<open>Metric_Sample\<close> keep their metrics in the indexed set through the locale \<open>metric_store\<close>, interpreted on
  the tree.  The ways \<open>hashlittle\<close> and \<open>hashbig\<close> read a key are
  interpretations of the locale \<open>key_reader\<close>.  Errors are the 16-bit codes of \<open>Flow_Error\<close> throughout.

  \<^bold>\<open>What the theorems show.\<close>  For promises and futures: the reference counts are the handles, waiting
  callbacks and running sender of a variable in every state its clients reach; every operation that the
  handles, the callbacks or the loop may call succeeds and none touches a destroyed variable, except that a
  send fails its assertion on a variable that cannot be set, or with a code that is no error, and \<open>get\<close> on
  one that is not set; so a variable is set once; a running loop ends and has told every callback, and a
  broken promise is delivered.  For streams: order, closing, and the same kind of safety.  For the tree: insertion, erasure of one item and of a range, rebalancing and metric queries
  refine operations on a sorted list of items with metrics and keep the balance invariant; inserting a
  vector in increasing order makes the tree that inserting its items one by one makes.  For metric
  samples: a key's metric is what has still to expire, and the threshold test is exact, without overflow
  while the amounts queued fit an \<open>int64_t\<close> together.  For the
  ring buffer: every operation refines the one on lists, with undefined behaviour exactly where the
  code has it.  For the encodings: decoding inverts encoding, with errors on malformed input, and byte
  order is value order where the code relies on it; lengths with the top bit set do what the theorem on them lists.  For network addresses: text and serialized forms are read
  back, also those of versions before IPv6, and the order is total.  For the hash: one function of the key's bytes for
  every alignment and byte order.  For the knobs: complete, well typed and settable by name.  For
  packets: what is written to a packet is what the chain of buffers and the reliable packet hold,
  the queue of unsent packets is a queue of bytes, and removing or compacting reliable packets frees
  no buffer another one needs and changes no bytes.  For random numbers: always in range, and a shuffle
  permutes.  For the log formatters: a strict reader of the format gets the fields back, and values cannot break out of their tag.  For vectors:
  growth leaves the other references to the same memory alone.  For arenas: counts are the references in every
  state a program reaches, memory stays until the last arena that holds it is gone, destruction ends,
  and an allocation lies behind all earlier ones in its block.  For the queue between threads: safety and
  order under every interleaving, no lost wake-up, and an exact pop when no push overlaps it.  For futures
  between threads: every callback is accounted for exactly once under every interleaving, what the answer of
  \<open>clearCallback\<close> means, and exactly which steps fail an assertion.

  \<^bold>\<open>Bounds and fuel.\<close>  Machine integers have their width; lengths of keys and buffers are natural
  numbers, with the bounds the code needs as hypotheses (an archive is assumed to have less than
  \<open>2 ^ 29\<close> bytes, below which its 32-bit capacity arithmetic cannot overflow).  The callback loop
  \<open>sav_run_loop\<close> runs on fuel; one unit for each waiting callback and one more is shown to be enough.  The
  loops over linked buffers, packets and arena blocks are partial, because a ring of them has no end; on
  well-formed heaps they are shown to return, except \<open>totalSize\<close>, which does not on a ring of arenas.
  Sizes of allocations are below \<open>2 ^ 30\<close> bytes where the code computes with their doubles as \<open>int\<close>.
  The \<open>int\<close> length of a packet and the \<open>int64_t\<close> metrics of a sample are checked: a sum out of range is undefined
  behaviour, and the theorems say below which sums it does not occur.  All other loops are total functions with termination proofs.
  Reference counts are unbounded integers.  Memory that threads
  share is sequentially consistent.

  \<^bold>\<open>Not modelled.\<close>  The actor compiler is written in C#, and the code it generates is not in the
  repository: actors (\<open>genericactors.actor.h\<close>, \<open>TDMetric.actor.h\<close>, \<open>ThreadHelper.actor.h\<close>) appear only as
  clients of the classes above.  Of \<open>ThreadHelper.actor.h\<close> the reference counts of handles, cancelling on the
  main thread, blocking on an event and \<open>ThreadSafeAsyncVar\<close> are left out as well.  The platform layer, the event loop over Boost.Asio, files, mutexes and thread pools,
  stack traces, tracing and profiling are calls into the operating system; \<open>SimpleOpt.h\<close> and
  \<open>stacktrace.amalgamation.cpp\<close> are vendored.  The other theories do not allocate from the arenas of \<open>Arena_Memory\<close>: byte
  strings there are values, and a value that outlives its reader must own its bytes.  Arguments are values: of
  the operations that take a reference into a container that they may reallocate, \<open>Deque::push_back\<close> is
  modelled for this case too.  Floating-point rounding is left out in \<open>Knobs\<close>.
\<close>

end
